(* ===== verification/Prelude.thy ===== *)
theory Prelude
  imports Complex_Main "HOL-Library.Word" "HOL-Library.Signed_Division"
begin

unbundle bit_operations_syntax

text \<open>
  Shared vocabulary of the development: the machine integers of the C++ sources, results of
  operations that can fault, and the generic list and arithmetic facts the components share.

  \<^item> \<open>uint8_t\<close> \dots \<open>uint64_t\<close>, \<open>size_t\<close> are words of their width (\<open>u8\<close> \dots \<open>u64\<close>);
    \<open>+\<close>, \<open>-\<close>, \<open>*\<close> wrap as unsigned C++ arithmetic does.
  \<^item> \<open>int64_t\<close> (\<open>Price\<close>, \<open>Qty\<close>) is an \<open>int\<close> that every arithmetic result passes
    through \<open>i64\<close>, the two's complement wrap at 64 bits.  Signed overflow is undefined in C++
    for plain variables and wraps for \<open>std::atomic\<close>; \<open>i64\<close> is the wrapping reading, and a theorem
    that needs the absence of overflow says so with \<open>in_i64\<close>.
\<close>

subsection \<open>Machine integers\<close>

type_synonym u8 = "8 word"
type_synonym u16 = "16 word"
type_synonym u32 = "32 word"
type_synonym u64 = "64 word"

definition i64 :: "int \<Rightarrow> int" where
  "i64 x = signed_take_bit 63 x"

definition in_i64 :: "int \<Rightarrow> bool" where
  "in_i64 x \<longleftrightarrow> - (2 ^ 63) \<le> x \<and> x < 2 ^ 63"

named_theorems i64_simps \<open>arithmetic of the 64-bit wrap\<close>

lemma i64_id: "in_i64 x \<Longrightarrow> i64 x = x"
  by (simp add: i64_def in_i64_def signed_take_bit_int_eq_self_iff)

lemma in_i64_i64 [simp, intro]: "in_i64 (i64 x)"
  unfolding i64_def in_i64_def
  by (intro conjI signed_take_bit_int_greater_eq_minus_exp signed_take_bit_int_less_exp)

lemma i64_i64 [simp, i64_simps]: "i64 (i64 x) = i64 x"
  by (rule i64_id) simp

lemma i64_eq_iff: "i64 x = i64 y \<longleftrightarrow> x mod 2 ^ 64 = y mod 2 ^ 64"
  by (simp add: i64_def signed_take_bit_eq_iff_take_bit_eq take_bit_eq_mod)

lemma i64_mod: "i64 x mod 2 ^ 64 = x mod 2 ^ 64"
  using i64_eq_iff [of "i64 x" x] by simp

lemma i64_add [i64_simps]: "i64 (i64 x + y) = i64 (x + y)" "i64 (x + i64 y) = i64 (x + y)"
  by (simp_all only: i64_eq_iff) (metis i64_mod mod_add_left_eq mod_add_right_eq)+

lemma i64_diff [i64_simps]: "i64 (i64 x - y) = i64 (x - y)" "i64 (x - i64 y) = i64 (x - y)"
  by (simp_all only: i64_eq_iff) (metis i64_mod mod_diff_left_eq mod_diff_right_eq)+

lemma i64_mult [i64_simps]: "i64 (i64 x * y) = i64 (x * y)" "i64 (x * i64 y) = i64 (x * y)"
  by (simp_all only: i64_eq_iff) (metis i64_mod mod_mult_left_eq mod_mult_right_eq)+

lemma i64_uminus [i64_simps]: "i64 (- i64 x) = i64 (- x)"
  using i64_diff(2) [of 0 x] by simp

lemma i64_0 [simp]: "i64 0 = 0" and i64_1 [simp]: "i64 1 = 1"
  by (simp_all add: i64_def)

lemma i64_le_self: "0 \<le> x \<Longrightarrow> i64 x \<le> x"
proof (cases "in_i64 x")
  case False
  assume "0 \<le> x"
  moreover have "i64 x < 2 ^ 63"
    using in_i64_i64 [of x] by (simp add: in_i64_def)
  ultimately show ?thesis using False by (simp add: in_i64_def)
qed (simp add: i64_id)

text \<open>C++ integer division truncates towards zero; the code never divides by zero.\<close>

definition cdiv :: "int \<Rightarrow> int \<Rightarrow> int" where
  "cdiv a b = a sdiv b"

lemma cdiv_nonneg: "0 \<le> a \<Longrightarrow> 0 \<le> b \<Longrightarrow> cdiv a b = a div b"
  by (cases "a = 0"; cases "b = 0") (auto simp: cdiv_def signed_divide_int_def)

lemma cdiv_2: "cdiv (-7) 2 = -3"
  by (simp add: cdiv_def)

text \<open>Unsigned quantities read as numbers.\<close>

lemma unat_less_u64: "unat (w :: u64) < 2 ^ 64"
  using unsigned_less [of w] by simp

lemma unat_Suc_u64: "unat (w :: u64) + 1 < 2 ^ 64 \<Longrightarrow> unat (w + 1) = unat w + 1"
  by (simp add: unat_word_ariths)

lemma unat_of_nat_u64: "n < 2 ^ 64 \<Longrightarrow> unat (of_nat n :: u64) = n"
  by (simp add: unsigned_of_nat take_bit_nat_eq_self)

lemma unat_of_int_u64: "0 \<le> n \<Longrightarrow> n < 2 ^ 64 \<Longrightarrow> unat (of_int n :: u64) = nat n"
proof -
  assume "0 \<le> n" "n < 2 ^ 64"
  then have "nat n < 2 ^ 64" by simp
  from unat_of_nat_u64 [OF this] \<open>0 \<le> n\<close> show ?thesis by (metis int_nat_eq of_int_of_nat_eq)
qed

lemma unat_AND_mask_pow2: "unat ((w :: u64) AND (2 ^ k - 1)) = unat w mod 2 ^ k"
  by (simp only: mask_eq_exp_minus_1 [symmetric] take_bit_eq_mask [symmetric]
      unsigned_take_bit_eq) (simp only: take_bit_eq_mod)

subsection \<open>Operations that can fault\<close>

text \<open>
  An operation whose C++ body dereferences a pointer returns a sum: \<open>Inl\<close> is undefined
  behaviour (the fault), \<open>Inr\<close> the result.  Proving that a result is \<open>Inr\<close> is proving
  memory safety of the call.
\<close>

definition rbind :: "'e + 'a \<Rightarrow> ('a \<Rightarrow> 'e + 'b) \<Rightarrow> 'e + 'b" where
  "rbind r f = (case r of Inl e \<Rightarrow> Inl e | Inr x \<Rightarrow> f x)"

lemma rbind_simps [simp]: "rbind (Inl e) f = Inl e" "rbind (Inr x) f = f x"
  by (simp_all add: rbind_def)

lemma rbind_Inr_iff: "rbind r f = Inr y \<longleftrightarrow> (\<exists>x. r = Inr x \<and> f x = Inr y)"
  by (cases r) auto

subsection \<open>Generic facts on lists\<close>

lemma nth_map_upt_shift: "i < n \<Longrightarrow> map f [0..<n] ! i = f i"
  by simp

lemma map_upt_Suc_front: "map f [0..<Suc n] = f 0 # map (\<lambda>i. f (Suc i)) [0..<n]"
  by (simp add: map_Suc_upt [symmetric] upt_conv_Cons del: upt_Suc)

lemma sum_list_i64: "i64 (\<Sum>x\<leftarrow>xs. i64 (f x)) = i64 (\<Sum>x\<leftarrow>xs. f x)"
  by (induction xs) (auto simp: i64_simps, metis i64_add(2))

lemma fold_i64_add: "fold (\<lambda>x acc. i64 (acc + f x)) xs (i64 a) = i64 (a + (\<Sum>x\<leftarrow>xs. f x))"
  by (induction xs arbitrary: a) (simp_all add: i64_simps add.assoc)

end
