(* ===== verification/Spsc_Queue.thy ===== *)
theory Spsc_Queue
  imports Prelude
begin

unbundle bit_operations_syntax

text \<open>
  \<^verbatim>\<open>src/infra/spsc_queue.hpp\<close>: the lock-free single producer single consumer ring.
  \<open>spsc\<close> is the object (free-running 64-bit \<open>tail_\<close>/\<open>head_\<close> and \<open>buffer_[N]\<close>), \<open>spsc_push\<close> and
  \<open>spsc_pop\<close> are the calls run alone, \<open>spsc_step\<close> interleaves the atomic accesses of a producer
  thread and a consumer thread (sequentially consistent interleaving, which release/acquire
  gives a ring with one writer per index).

  The interface \<open>bounded_fifo\<close> is what every user of a ring in the program relies on; its
  client facts are proved once and reach the components through the interpretation at the end.
\<close>

subsection \<open>The interface: a bounded FIFO\<close>

datatype 'a queue_op = Push 'a | Pop

text \<open>
  A sequential run of calls: the final queue, the values whose \<open>push\<close> returned \<open>true\<close> and the
  values that \<open>pop\<close> delivered, both in call order.
\<close>

fun queue_run :: "('a \<Rightarrow> 'q \<Rightarrow> 'q \<times> bool) \<Rightarrow> ('q \<Rightarrow> 'q \<times> 'a option) \<Rightarrow> 'q \<Rightarrow> 'a queue_op list
    \<Rightarrow> 'q \<times> 'a list \<times> 'a list" where
  "queue_run push pop q [] = (q, [], [])"
| "queue_run push pop q (Push x # ops) =
     (let (q1, ok) = push x q; (q2, acc, out) = queue_run push pop q1 ops
      in (q2, if ok then x # acc else acc, out))"
| "queue_run push pop q (Pop # ops) =
     (let (q1, r) = pop q; (q2, acc, out) = queue_run push pop q1 ops
      in (q2, acc, case r of None \<Rightarrow> out | Some v \<Rightarrow> v # out))"

locale bounded_fifo =
  fixes push :: "'a \<Rightarrow> 'q \<Rightarrow> 'q \<times> bool"
    and pop :: "'q \<Rightarrow> 'q \<times> 'a option"
    and contents :: "'q \<Rightarrow> 'a list"
    and wf :: "'q \<Rightarrow> bool"
    and cap :: nat
  assumes push_wf: "wf q \<Longrightarrow> wf (fst (push x q))"
    and pop_wf: "wf q \<Longrightarrow> wf (fst (pop q))"
    and push_ok: "wf q \<Longrightarrow> snd (push x q) \<longleftrightarrow> length (contents q) < cap"
    and push_contents: "wf q \<Longrightarrow> contents (fst (push x q)) =
          (if length (contents q) < cap then contents q @ [x] else contents q)"
    and pop_empty: "wf q \<Longrightarrow> contents q = [] \<Longrightarrow> pop q = (q, None)"
    and pop_cons: "wf q \<Longrightarrow> contents q = v # vs \<Longrightarrow> snd (pop q) = Some v \<and> contents (fst (pop q)) = vs"
    and bounded: "wf q \<Longrightarrow> length (contents q) \<le> cap"
begin

lemma pop_value: "wf q \<Longrightarrow> snd (pop q) = (case contents q of [] \<Rightarrow> None | v # vs \<Rightarrow> Some v)"
  by (cases "contents q") (auto simp: pop_empty pop_cons)

lemma pop_contents: "wf q \<Longrightarrow> contents (fst (pop q)) = tl (contents q)"
  by (cases "contents q") (auto simp: pop_empty pop_cons)

lemma run_fifo:
  "wf q \<Longrightarrow> queue_run push pop q ops = (q', acc, out) \<Longrightarrow> wf q' \<and> contents q @ acc = out @ contents q'"
proof (induction ops arbitrary: q q' acc out)
  case (Cons a ops)
  show ?case
  proof (cases a)
    case (Push x)
    obtain q1 ok where p: "push x q = (q1, ok)" by force
    obtain q2 acc2 out2 where r: "queue_run push pop q1 ops = (q2, acc2, out2)"
      by (metis prod_cases3)
    have "wf q1" using push_wf [OF Cons.prems(1), of x] p by simp
    moreover note Cons.IH [OF this r]
    ultimately show ?thesis
      using Cons.prems p r Push push_ok [OF Cons.prems(1), of x]
        push_contents [OF Cons.prems(1), of x] by (auto split: if_splits)
  next
    case Pop
    obtain q1 v where p: "pop q = (q1, v)" by force
    obtain q2 acc2 out2 where r: "queue_run push pop q1 ops = (q2, acc2, out2)"
      by (metis prod_cases3)
    have "wf q1" using pop_wf [OF Cons.prems(1)] p by simp
    moreover note Cons.IH [OF this r]
    ultimately show ?thesis
      using Cons.prems p r Pop pop_value [OF Cons.prems(1)] pop_contents [OF Cons.prems(1)]
      by (cases "contents q") auto
  qed
qed simp

end

subsection \<open>The ring\<close>

record 'a spsc =
  sq_tail :: u64
  sq_head :: u64
  sq_buffer :: "'a list"

text \<open>A fresh queue: both indices are 0 and \<open>buffer_[N]\<close> holds whatever memory held.\<close>

definition spsc_new :: "'a list \<Rightarrow> 'a spsc" where
  "spsc_new mem = \<lparr>sq_tail = 0, sq_head = 0, sq_buffer = mem\<rparr>"

definition spsc_slot :: "nat \<Rightarrow> u64 \<Rightarrow> nat" where
  "spsc_slot N i = unat (i AND (of_nat N - 1))"

definition spsc_push :: "nat \<Rightarrow> 'a \<Rightarrow> 'a spsc \<Rightarrow> 'a spsc \<times> bool" where
  "spsc_push N v q =
     (let tail = sq_tail q in
      if tail - sq_head q = of_nat N then (q, False)
      else (q\<lparr>sq_buffer := (sq_buffer q)[spsc_slot N tail := v], sq_tail := tail + 1\<rparr>, True))"

definition spsc_pop :: "nat \<Rightarrow> 'a spsc \<Rightarrow> 'a spsc \<times> 'a option" where
  "spsc_pop N q =
     (let head = sq_head q in
      if sq_tail q = head then (q, None)
      else (q\<lparr>sq_head := head + 1\<rparr>, Some (sq_buffer q ! spsc_slot N head)))"

definition spsc_empty :: "'a spsc \<Rightarrow> bool" where
  "spsc_empty q \<longleftrightarrow> sq_tail q = sq_head q"

definition spsc_size :: "'a spsc \<Rightarrow> u64" where
  "spsc_size q = sq_tail q - sq_head q"

subsection \<open>What the ring holds\<close>

definition pow2 :: "nat \<Rightarrow> bool" where
  "pow2 N \<longleftrightarrow> (\<exists>k<64. N = 2 ^ k)"

definition spsc_contents :: "nat \<Rightarrow> 'a spsc \<Rightarrow> 'a list" where
  "spsc_contents N q =
     map (\<lambda>i. sq_buffer q ! spsc_slot N (sq_head q + of_nat i)) [0..<unat (sq_tail q - sq_head q)]"

definition spsc_wf :: "nat \<Rightarrow> 'a spsc \<Rightarrow> bool" where
  "spsc_wf N q \<longleftrightarrow> pow2 N \<and> length (sq_buffer q) = N \<and> unat (sq_tail q - sq_head q) \<le> N"

lemma pow2_pos: "pow2 N \<Longrightarrow> 0 < N"
  by (auto simp: pow2_def)

lemma pow2_less: "pow2 N \<Longrightarrow> N < 2 ^ 64"
  by (auto simp only: pow2_def intro: power_strict_increasing)

lemma spsc_slot_mod: "pow2 N \<Longrightarrow> spsc_slot N w = unat w mod N"
  using unat_AND_mask_pow2 by (auto simp: pow2_def spsc_slot_def)

lemma mod_pow2_wrap:
  assumes "pow2 N" shows "(n mod 2 ^ 64) mod N = n mod N"
proof -
  from assms obtain k where "k < 64" and N: "N = 2 ^ k" by (auto simp: pow2_def)
  then have "N dvd 2 ^ 64" unfolding N by (intro le_imp_power_dvd) simp
  then show ?thesis by (rule mod_mod_cancel)
qed

lemma spsc_slot_add:
  assumes "pow2 N"
  shows "spsc_slot N (h + of_nat i) = (unat h + i) mod N"
proof -
  have "unat (h + of_nat i) = (unat h + i) mod 2 ^ 64"
    by (simp add: unat_word_ariths unat_of_nat mod_add_right_eq)
  then show ?thesis
    by (simp only: spsc_slot_mod [OF assms] mod_pow2_wrap [OF assms])
qed

lemma slots_distinct:
  assumes "i < j" "j < i + N"
  shows "(h + i) mod N \<noteq> (h + j) mod (N :: nat)"
proof
  assume "(h + i) mod N = (h + j) mod N"
  then have "N dvd (h + j) - (h + i)"
    using assms(1) by (metis add_le_cancel_left less_imp_le_nat mod_eq_dvd_iff_nat)
  then show False using assms by (auto dest: dvd_imp_le)
qed

lemma word_add_diff: "(tail :: u64) = head + of_nat (unat (tail - head))"
  by simp

lemma spsc_slot_lt: "pow2 N \<Longrightarrow> spsc_slot N w < N"
  by (simp add: spsc_slot_mod pow2_pos)

lemma spsc_tail_slot:
  assumes "pow2 N"
  shows "spsc_slot N (sq_tail q) = (unat (sq_head q) + unat (sq_tail q - sq_head q)) mod N"
  using spsc_slot_add [OF assms, of "sq_head q" "unat (sq_tail q - sq_head q)"] by simp

lemma length_spsc_contents [simp]: "length (spsc_contents N q) = unat (sq_tail q - sq_head q)"
  by (simp add: spsc_contents_def)

lemma spsc_full_iff:
  assumes "spsc_wf N q"
  shows "sq_tail q - sq_head q = of_nat N \<longleftrightarrow> \<not> unat (sq_tail q - sq_head q) < N"
proof -
  have "unat (of_nat N :: u64) = N"
    using assms by (intro unat_of_nat_u64) (simp only: spsc_wf_def pow2_less)
  then have "sq_tail q - sq_head q = of_nat N \<longleftrightarrow> unat (sq_tail q - sq_head q) = N"
    by (metis word_unat_eq_iff)
  with assms show ?thesis by (auto simp: spsc_wf_def)
qed

subsection \<open>The ring is a bounded FIFO\<close>

lemma spsc_contents_write_tail:
  assumes "pow2 N" and "unat (sq_tail q - sq_head q) < N"
  shows "spsc_contents N (q\<lparr>sq_buffer := (sq_buffer q)[spsc_slot N (sq_tail q) := v]\<rparr>) =
    spsc_contents N q"
proof -
  have "spsc_slot N (sq_tail q) \<noteq> spsc_slot N (sq_head q + of_nat i)"
    if "i < unat (sq_tail q - sq_head q)" for i
    unfolding spsc_tail_slot [OF assms(1)] spsc_slot_add [OF assms(1)]
    using that assms(2) by (intro not_sym [OF slots_distinct]) auto
  then show ?thesis by (auto simp: spsc_contents_def)
qed

lemma spsc_contents_advance_tail:
  assumes "spsc_wf N q" and "unat (sq_tail q - sq_head q) < N"
  shows "spsc_contents N (q\<lparr>sq_tail := sq_tail q + 1\<rparr>) =
      spsc_contents N q @ [sq_buffer q ! spsc_slot N (sq_tail q)]"
    and "spsc_wf N (q\<lparr>sq_tail := sq_tail q + 1\<rparr>)"
proof -
  have "N < 2 ^ 64" using assms(1) by (simp only: spsc_wf_def pow2_less)
  with assms(2) have "unat (sq_tail q - sq_head q) + 1 < 2 ^ 64" by linarith
  then have n: "unat (sq_tail q + 1 - sq_head q) = Suc (unat (sq_tail q - sq_head q))"
    using unat_Suc_u64 [of "sq_tail q - sq_head q"] by (simp add: algebra_simps)
  then show "spsc_contents N (q\<lparr>sq_tail := sq_tail q + 1\<rparr>) =
      spsc_contents N q @ [sq_buffer q ! spsc_slot N (sq_tail q)]"
    by (simp add: spsc_contents_def)
  from n assms show "spsc_wf N (q\<lparr>sq_tail := sq_tail q + 1\<rparr>)"
    by (simp add: spsc_wf_def)
qed

lemma spsc_contents_advance_head:
  assumes "spsc_wf N q" and "sq_tail q \<noteq> sq_head q"
  shows "spsc_contents N q =
      sq_buffer q ! spsc_slot N (sq_head q) # spsc_contents N (q\<lparr>sq_head := sq_head q + 1\<rparr>)"
    and "spsc_wf N (q\<lparr>sq_head := sq_head q + 1\<rparr>)"
proof -
  have pos: "0 < unat (sq_tail q - sq_head q)"
    using assms(2) by (simp add: unat_gt_0)
  have "unat (sq_tail q - (sq_head q + 1)) = unat (sq_tail q - sq_head q - 1)"
    by (simp add: algebra_simps)
  also have "\<dots> = unat (sq_tail q - sq_head q) - 1"
    using pos by (intro unat_minus_one) auto
  finally have n: "unat (sq_tail q - sq_head q) = Suc (unat (sq_tail q - (sq_head q + 1)))"
    using pos by simp
  show "spsc_contents N q =
      sq_buffer q ! spsc_slot N (sq_head q) # spsc_contents N (q\<lparr>sq_head := sq_head q + 1\<rparr>)"
    unfolding spsc_contents_def n map_upt_Suc_front by (simp add: algebra_simps)
  from n assms show "spsc_wf N (q\<lparr>sq_head := sq_head q + 1\<rparr>)"
    by (simp add: spsc_wf_def)
qed

lemma spsc_empty_iff: "sq_tail q = sq_head q \<longleftrightarrow> spsc_contents N q = []"
  by (simp add: spsc_contents_def unat_eq_0)

lemma spsc_wf_buffer: "length b = length (sq_buffer q) \<Longrightarrow> spsc_wf N (q\<lparr>sq_buffer := b\<rparr>) = spsc_wf N q"
  by (simp add: spsc_wf_def)

lemma spsc_push_room:
  assumes "spsc_wf N q" and "unat (sq_tail q - sq_head q) < N"
  shows "snd (spsc_push N v q)" and "spsc_wf N (fst (spsc_push N v q))"
    and "spsc_contents N (fst (spsc_push N v q)) = spsc_contents N q @ [v]"
proof -
  let ?q = "q\<lparr>sq_buffer := (sq_buffer q)[spsc_slot N (sq_tail q) := v]\<rparr>"
  have eq: "spsc_push N v q = (?q\<lparr>sq_tail := sq_tail ?q + 1\<rparr>, True)"
    using assms spsc_full_iff by (auto simp: spsc_push_def Let_def)
  have p: "pow2 N" and l: "length (sq_buffer q) = N" using assms by (simp_all add: spsc_wf_def)
  have w: "spsc_wf N ?q" using assms by (simp add: spsc_wf_buffer)
  note adv = spsc_contents_advance_tail [OF w]
  show "snd (spsc_push N v q)" by (simp add: eq)
  show "spsc_wf N (fst (spsc_push N v q))" unfolding eq fst_conv using assms by (intro adv(2)) simp
  show "spsc_contents N (fst (spsc_push N v q)) = spsc_contents N q @ [v]"
    unfolding eq fst_conv using adv(1) spsc_contents_write_tail [OF p assms(2)] assms(2)
    by (simp add: l spsc_slot_lt [OF p])
qed

lemma spsc_push_full:
  "spsc_wf N q \<Longrightarrow> \<not> unat (sq_tail q - sq_head q) < N \<Longrightarrow> spsc_push N v q = (q, False)"
  using spsc_full_iff [of N q] by (auto simp: spsc_push_def)

lemma spsc_pop_eq:
  "spsc_pop N q = (if sq_tail q = sq_head q then (q, None)
     else (q\<lparr>sq_head := sq_head q + 1\<rparr>, Some (sq_buffer q ! spsc_slot N (sq_head q))))"
  by (simp add: spsc_pop_def Let_def)

text \<open>For every capacity \<open>N\<close>; that \<open>N\<close> is a power of two is part of \<open>spsc_wf\<close>.\<close>

interpretation ring: bounded_fifo "spsc_push N" "spsc_pop N" "spsc_contents N" "spsc_wf N" N
  for N :: nat
proof unfold_locales
  fix q :: "'a spsc" and x v vs
  assume wf: "spsc_wf N q"
  show "spsc_wf N (fst (spsc_push N x q))"
    using wf spsc_push_room(2) spsc_push_full by (metis fst_conv)
  show "spsc_wf N (fst (spsc_pop N q))"
    using wf spsc_contents_advance_head(2) by (auto simp: spsc_pop_eq)
  show "snd (spsc_push N x q) \<longleftrightarrow> length (spsc_contents N q) < N"
    using wf spsc_push_room(1) [of N q x] spsc_push_full [of N q x]
    by (cases "unat (sq_tail q - sq_head q) < N") auto
  show "spsc_contents N (fst (spsc_push N x q)) =
      (if length (spsc_contents N q) < N then spsc_contents N q @ [x] else spsc_contents N q)"
    using wf spsc_push_room(3) [of N q x] spsc_push_full [of N q x]
    by (cases "unat (sq_tail q - sq_head q) < N") auto
  show "spsc_pop N q = (q, None)" if "spsc_contents N q = []"
    using that spsc_empty_iff [of q N] by (simp add: spsc_pop_eq)
  show "snd (spsc_pop N q) = Some v \<and> spsc_contents N (fst (spsc_pop N q)) = vs"
    if "spsc_contents N q = v # vs"
    using that spsc_empty_iff [of q N] spsc_contents_advance_head(1) [OF wf] by (auto simp: spsc_pop_eq)
  show "length (spsc_contents N q) \<le> N"
    using wf by (simp add: spsc_wf_def)
qed

lemma spsc_new_wf: "pow2 N \<Longrightarrow> length mem = N \<Longrightarrow> spsc_wf N (spsc_new mem)"
  by (simp add: spsc_wf_def spsc_new_def)

lemma spsc_new_contents [simp]: "spsc_contents N (spsc_new mem) = []"
  by (simp add: spsc_contents_def spsc_new_def)

end
