(* ===== verification/Spsc_Concurrent.thy ===== *)
theory Spsc_Concurrent
  imports Spsc_Queue
begin

text \<open>
  The ring of \<^verbatim>\<open>src/infra/spsc_queue.hpp\<close> under concurrency.  \<open>push\<close> and \<open>pop\<close> are cut into
  their accesses to shared memory (load of the own index, load of the other index, access to
  the buffer slot, store of the own index); \<open>spsc_step\<close> takes one access of either thread.
  Ghost fields record the values published and the values delivered.
\<close>

datatype 'a producer_pc =
    P_Idle
  | P_Loaded 'a u64        \<comment> \<open>\<open>tail\<close> loaded, \<open>head_\<close> not yet\<close>
  | P_Room 'a u64          \<comment> \<open>not full; the slot is about to be written\<close>
  | P_Written 'a u64       \<comment> \<open>slot written, \<open>tail_\<close> not yet stored\<close>

datatype 'a consumer_pc =
    C_Idle
  | C_Loaded u64           \<comment> \<open>\<open>head\<close> loaded, \<open>tail_\<close> not yet\<close>
  | C_Avail u64            \<comment> \<open>not empty; the slot is about to be read\<close>
  | C_Taken 'a u64         \<comment> \<open>slot read, \<open>head_\<close> not yet stored\<close>

record 'a spsc_sys =
  sys_ring :: "'a spsc"
  sys_prod :: "'a producer_pc"
  sys_cons :: "'a consumer_pc"
  sys_sent :: "'a list"
  sys_rcvd :: "'a list"

definition spsc_sys_init :: "'a list \<Rightarrow> 'a spsc_sys" where
  "spsc_sys_init mem = \<lparr>sys_ring = spsc_new mem, sys_prod = P_Idle, sys_cons = C_Idle,
     sys_sent = [], sys_rcvd = []\<rparr>"

inductive spsc_step :: "nat \<Rightarrow> 'a spsc_sys \<Rightarrow> 'a spsc_sys \<Rightarrow> bool" for N :: nat where
  push_load_tail: "sys_prod s = P_Idle \<Longrightarrow>
     spsc_step N s (s\<lparr>sys_prod := P_Loaded v (sq_tail (sys_ring s))\<rparr>)"
| push_full: "sys_prod s = P_Loaded v tail \<Longrightarrow> tail - sq_head (sys_ring s) = of_nat N \<Longrightarrow>
     spsc_step N s (s\<lparr>sys_prod := P_Idle\<rparr>)"
| push_room: "sys_prod s = P_Loaded v tail \<Longrightarrow> tail - sq_head (sys_ring s) \<noteq> of_nat N \<Longrightarrow>
     spsc_step N s (s\<lparr>sys_prod := P_Room v tail\<rparr>)"
| push_write: "sys_prod s = P_Room v tail \<Longrightarrow>
     spsc_step N s (s\<lparr>sys_ring := (sys_ring s)\<lparr>sq_buffer :=
         (sq_buffer (sys_ring s))[spsc_slot N tail := v]\<rparr>, sys_prod := P_Written v tail\<rparr>)"
| push_store_tail: "sys_prod s = P_Written v tail \<Longrightarrow>
     spsc_step N s (s\<lparr>sys_ring := (sys_ring s)\<lparr>sq_tail := tail + 1\<rparr>, sys_prod := P_Idle,
         sys_sent := sys_sent s @ [v]\<rparr>)"
| pop_load_head: "sys_cons s = C_Idle \<Longrightarrow>
     spsc_step N s (s\<lparr>sys_cons := C_Loaded (sq_head (sys_ring s))\<rparr>)"
| pop_empty: "sys_cons s = C_Loaded head \<Longrightarrow> sq_tail (sys_ring s) = head \<Longrightarrow>
     spsc_step N s (s\<lparr>sys_cons := C_Idle\<rparr>)"
| pop_avail: "sys_cons s = C_Loaded head \<Longrightarrow> sq_tail (sys_ring s) \<noteq> head \<Longrightarrow>
     spsc_step N s (s\<lparr>sys_cons := C_Avail head\<rparr>)"
| pop_read: "sys_cons s = C_Avail head \<Longrightarrow>
     spsc_step N s (s\<lparr>sys_cons := C_Taken (sq_buffer (sys_ring s) ! spsc_slot N head) head\<rparr>)"
| pop_store_head: "sys_cons s = C_Taken v head \<Longrightarrow>
     spsc_step N s (s\<lparr>sys_ring := (sys_ring s)\<lparr>sq_head := head + 1\<rparr>, sys_cons := C_Idle,
         sys_rcvd := sys_rcvd s @ [v]\<rparr>)"

inductive spsc_reachable :: "nat \<Rightarrow> 'a list \<Rightarrow> 'a spsc_sys \<Rightarrow> bool" for N :: nat and mem :: "'a list" where
  spsc_start: "spsc_reachable N mem (spsc_sys_init mem)"
| spsc_more: "spsc_reachable N mem s \<Longrightarrow> spsc_step N s t \<Longrightarrow> spsc_reachable N mem t"

inductive_simps spsc_reachable_init: "spsc_reachable N mem (spsc_sys_init mem)"

subsection \<open>Invariant\<close>

fun prod_inv :: "nat \<Rightarrow> 'a spsc \<Rightarrow> 'a producer_pc \<Rightarrow> bool" where
  "prod_inv N q P_Idle \<longleftrightarrow> True"
| "prod_inv N q (P_Loaded v t) \<longleftrightarrow> t = sq_tail q"
| "prod_inv N q (P_Room v t) \<longleftrightarrow> t = sq_tail q \<and> unat (sq_tail q - sq_head q) < N"
| "prod_inv N q (P_Written v t) \<longleftrightarrow> t = sq_tail q \<and> unat (sq_tail q - sq_head q) < N
     \<and> sq_buffer q ! spsc_slot N t = v"

fun cons_inv :: "nat \<Rightarrow> 'a spsc \<Rightarrow> 'a consumer_pc \<Rightarrow> bool" where
  "cons_inv N q C_Idle \<longleftrightarrow> True"
| "cons_inv N q (C_Loaded h) \<longleftrightarrow> h = sq_head q"
| "cons_inv N q (C_Avail h) \<longleftrightarrow> h = sq_head q \<and> sq_tail q \<noteq> sq_head q"
| "cons_inv N q (C_Taken v h) \<longleftrightarrow> h = sq_head q \<and> sq_tail q \<noteq> sq_head q
     \<and> sq_buffer q ! spsc_slot N h = v"

definition spsc_sys_inv :: "nat \<Rightarrow> 'a spsc_sys \<Rightarrow> bool" where
  "spsc_sys_inv N s \<longleftrightarrow> spsc_wf N (sys_ring s)
     \<and> sys_sent s = sys_rcvd s @ spsc_contents N (sys_ring s)
     \<and> prod_inv N (sys_ring s) (sys_prod s) \<and> cons_inv N (sys_ring s) (sys_cons s)"

lemma head_tail_slots_differ:
  assumes "pow2 N" and "unat (sq_tail q - sq_head q) < N" and "sq_tail q \<noteq> sq_head q"
  shows "spsc_slot N (sq_tail q) \<noteq> spsc_slot N (sq_head q)"
proof -
  have "0 < unat (sq_tail q - sq_head q)" using assms(3) by (simp add: unat_gt_0)
  then have "(unat (sq_head q) + 0) mod N \<noteq> (unat (sq_head q) + unat (sq_tail q - sq_head q)) mod N"
    using assms(2) by (intro slots_distinct) auto
  then show ?thesis
    unfolding spsc_tail_slot [OF assms(1)] spsc_slot_mod [OF assms(1), of "sq_head q"] by auto
qed

lemma prod_inv_advance_head:
  assumes "sq_tail q \<noteq> sq_head q" and "prod_inv N q p"
  shows "prod_inv N (q\<lparr>sq_head := sq_head q + 1\<rparr>) p"
proof -
  have "unat (sq_tail q - (sq_head q + 1)) \<le> unat (sq_tail q - sq_head q)"
    using assms(1) unat_minus_one [of "sq_tail q - sq_head q"] by (simp add: algebra_simps)
  with assms(2) show ?thesis by (cases p) auto
qed

lemma cons_inv_advance_tail:
  assumes "spsc_wf N q" and "unat (sq_tail q - sq_head q) < N" and "cons_inv N q c"
  shows "cons_inv N (q\<lparr>sq_tail := sq_tail q + 1\<rparr>) c"
proof -
  have "unat (sq_tail q + 1 - sq_head q) \<noteq> 0"
    using arg_cong [OF spsc_contents_advance_tail(1) [OF assms(1,2)], of length] by simp
  then have "sq_tail q + 1 \<noteq> sq_head q" by (metis cancel_comm_monoid_add_class.diff_cancel unat_0)
  with assms(3) show ?thesis by (cases c) auto
qed

lemma cons_inv_write:
  assumes "pow2 N" and "unat (sq_tail q - sq_head q) < N" and "cons_inv N q c"
  shows "cons_inv N (q\<lparr>sq_buffer := (sq_buffer q)[spsc_slot N (sq_tail q) := v]\<rparr>) c"
  using assms(3) head_tail_slots_differ [OF assms(1,2)] by (cases c) auto

lemma spsc_step_inv: "spsc_step N s t \<Longrightarrow> spsc_sys_inv N s \<Longrightarrow> spsc_sys_inv N t"
proof (induction rule: spsc_step.induct)
  case (push_load_tail s v)
  then show ?case by (simp add: spsc_sys_inv_def)
next
  case (push_full s v tail)
  then show ?case by (simp add: spsc_sys_inv_def)
next
  case (push_room s v tail)
  then show ?case using spsc_full_iff [of N "sys_ring s"] by (simp add: spsc_sys_inv_def)
next
  case (push_write s v tail)
  let ?q = "sys_ring s"
  have i: "spsc_wf N ?q" "tail = sq_tail ?q" "unat (sq_tail ?q - sq_head ?q) < N" "pow2 N"
    "length (sq_buffer ?q) = N" "cons_inv N ?q (sys_cons s)"
    using push_write by (auto simp: spsc_sys_inv_def spsc_wf_def)
  show ?case
    using push_write i spsc_contents_write_tail [OF i(4,3), of v] cons_inv_write [OF i(4,3,6), of v]
      spsc_slot_lt [OF i(4)] by (auto simp: spsc_sys_inv_def spsc_wf_buffer)
next
  case (push_store_tail s v tail)
  let ?q = "sys_ring s"
  have i: "spsc_wf N ?q" "tail = sq_tail ?q" "unat (sq_tail ?q - sq_head ?q) < N"
    "cons_inv N ?q (sys_cons s)"
    using push_store_tail by (auto simp: spsc_sys_inv_def)
  show ?case
    using push_store_tail i spsc_contents_advance_tail [OF i(1,3)] cons_inv_advance_tail [OF i(1,3,4)]
    by (auto simp: spsc_sys_inv_def)
next
  case (pop_load_head s)
  then show ?case by (simp add: spsc_sys_inv_def)
next
  case (pop_empty s head)
  then show ?case by (simp add: spsc_sys_inv_def)
next
  case (pop_avail s head)
  then show ?case by (simp add: spsc_sys_inv_def)
next
  case (pop_read s head)
  then show ?case by (simp add: spsc_sys_inv_def)
next
  case (pop_store_head s v head)
  let ?q = "sys_ring s"
  have i: "spsc_wf N ?q" "head = sq_head ?q" "sq_tail ?q \<noteq> sq_head ?q"
    "prod_inv N ?q (sys_prod s)"
    using pop_store_head by (auto simp: spsc_sys_inv_def)
  show ?case
    using pop_store_head i spsc_contents_advance_head [OF i(1,3)] prod_inv_advance_head [OF i(3,4)]
    by (auto simp: spsc_sys_inv_def)
qed

lemma spsc_reachable_inv:
  assumes "spsc_reachable N mem s" and "pow2 N" and "length mem = N"
  shows "spsc_sys_inv N s"
  using assms(1)
proof (induction rule: spsc_reachable.induct)
  case spsc_start
  show ?case using spsc_new_wf [OF assms(2,3)] by (simp add: spsc_sys_inv_def spsc_sys_init_def)
next
  case (spsc_more s t)
  then show ?case by (blast intro: spsc_step_inv)
qed

subsection \<open>Properties\<close>

text \<open>
  Claim C10.  The ring is linearizable as a FIFO under every interleaving of one producer and
  one consumer: at each reachable state the values delivered are a prefix of the values
  published, in order, and what is outstanding is exactly the ring's contents, never more than
  \<open>N\<close> values.  Nothing is lost, duplicated, reordered or overwritten.
\<close>

theorem spsc_concurrent_fifo:
  assumes "spsc_reachable N mem s" and "pow2 N" and "length mem = N"
  shows "sys_sent s = sys_rcvd s @ spsc_contents N (sys_ring s)
    \<and> length (sys_sent s) \<le> length (sys_rcvd s) + N"
  using spsc_reachable_inv [OF assms] by (auto simp: spsc_sys_inv_def spsc_wf_def)

lemma spsc_sys_example:
  "spsc_reachable 2 [0, 0] \<lparr>sys_ring = \<lparr>sq_tail = 1, sq_head = 0, sq_buffer = [7 :: nat, 0]\<rparr>,
     sys_prod = P_Idle, sys_cons = C_Idle, sys_sent = [7], sys_rcvd = []\<rparr>"
proof -
  let ?s0 = "spsc_sys_init [0 :: nat, 0]"
  let ?s1 = "?s0\<lparr>sys_prod := P_Loaded 7 (sq_tail (sys_ring ?s0))\<rparr>"
  let ?s2 = "?s1\<lparr>sys_prod := P_Room 7 0\<rparr>"
  let ?s3 = "?s2\<lparr>sys_ring := (sys_ring ?s2)\<lparr>sq_buffer :=
     (sq_buffer (sys_ring ?s2))[spsc_slot 2 0 := 7]\<rparr>, sys_prod := P_Written 7 0\<rparr>"
  let ?s4 = "?s3\<lparr>sys_ring := (sys_ring ?s3)\<lparr>sq_tail := 0 + 1\<rparr>, sys_prod := P_Idle,
         sys_sent := sys_sent ?s3 @ [7]\<rparr>"
  have "spsc_reachable 2 [0, 0] ?s1"
    by (rule spsc_more [OF spsc_start push_load_tail]) (simp add: spsc_sys_init_def)
  then have "spsc_reachable 2 [0, 0] ?s2"
    by (rule spsc_more [OF _ push_room]) (simp_all add: spsc_sys_init_def spsc_new_def)
  then have "spsc_reachable 2 [0, 0] ?s3"
    by (rule spsc_more [OF _ push_write]) simp
  then have "spsc_reachable 2 [0, 0] ?s4"
    by (rule spsc_more [OF _ push_store_tail]) simp
  then show ?thesis by (simp add: spsc_sys_init_def spsc_new_def spsc_slot_def)
qed

theorem spsc_concurrent_fifo_witness:
  "sys_sent \<lparr>sys_ring = \<lparr>sq_tail = 1, sq_head = 0, sq_buffer = [7 :: nat, 0]\<rparr>,
     sys_prod = P_Idle, sys_cons = C_Idle, sys_sent = [7], sys_rcvd = []\<rparr> = [7]
   \<and> spsc_contents 2 \<lparr>sq_tail = 1, sq_head = 0, sq_buffer = [7 :: nat, 0]\<rparr> = [7]"
proof -
  have "pow2 2" unfolding pow2_def by (intro exI [of _ 1]) simp
  from spsc_concurrent_fifo [OF spsc_sys_example this] show ?thesis by simp
qed

text \<open>
  Freedom from data races on \<open>buffer_\<close>: whenever the producer is about to write its
  slot while the consumer is about to read its slot, the two slots differ.
\<close>

theorem spsc_no_data_race:
  assumes "spsc_reachable N mem s" and "pow2 N" and "length mem = N"
    and "sys_prod s = P_Room v tail" and "sys_cons s = C_Avail head"
  shows "spsc_slot N tail \<noteq> spsc_slot N head"
  using spsc_reachable_inv [OF assms(1-3)] assms(4,5)
  by (auto simp: spsc_sys_inv_def spsc_wf_def dest: head_tail_slots_differ)

lemma spsc_race_example:
  "spsc_reachable 2 [0, 0] \<lparr>sys_ring = \<lparr>sq_tail = 1, sq_head = 0, sq_buffer = [7 :: nat, 0]\<rparr>,
     sys_prod = P_Room 8 1, sys_cons = C_Avail 0, sys_sent = [7], sys_rcvd = []\<rparr>"
proof -
  let ?r = "\<lparr>sq_tail = 1, sq_head = 0, sq_buffer = [7 :: nat, 0]\<rparr>"
  let ?s0 = "\<lparr>sys_ring = ?r, sys_prod = P_Idle, sys_cons = C_Idle, sys_sent = [7], sys_rcvd = []\<rparr>"
  let ?s1 = "?s0\<lparr>sys_prod := P_Loaded 8 (sq_tail (sys_ring ?s0))\<rparr>"
  let ?s2 = "?s1\<lparr>sys_prod := P_Room 8 1\<rparr>"
  let ?s3 = "?s2\<lparr>sys_cons := C_Loaded (sq_head (sys_ring ?s2))\<rparr>"
  let ?s4 = "?s3\<lparr>sys_cons := C_Avail 0\<rparr>"
  have "spsc_reachable 2 [0, 0] ?s1"
    by (rule spsc_more [OF spsc_sys_example push_load_tail]) simp
  then have "spsc_reachable 2 [0, 0] ?s2"
    by (rule spsc_more [OF _ push_room]) simp_all
  then have "spsc_reachable 2 [0, 0] ?s3"
    by (rule spsc_more [OF _ pop_load_head]) simp
  then have "spsc_reachable 2 [0, 0] ?s4"
    by (rule spsc_more [OF _ pop_avail]) simp_all
  then show ?thesis by simp
qed

theorem spsc_no_data_race_witness: "spsc_slot 2 1 \<noteq> spsc_slot 2 0"
proof -
  have "pow2 2" unfolding pow2_def by (intro exI [of _ 1]) simp
  from spsc_no_data_race [OF spsc_race_example this] show ?thesis by simp
qed

end
