(* ===== verification/Types.thy ===== *)
theory Types
  imports Prelude
begin

text \<open>
  The data model shared by all layers: \<^verbatim>\<open>src/common/types.hpp\<close> (scalar aliases, enums and
  limits), \<^verbatim>\<open>src/market_data/market_data_types.hpp\<close> (\<open>PriceLevel\<close>, \<open>BBOEvent\<close>,
  \<open>DepthEvent\<close>) and \<^verbatim>\<open>src/oms/order.hpp\<close> (\<open>OrderRequest\<close>, \<open>Order\<close>, \<open>OrderAck\<close>, \<open>FillEvent\<close>,
  \<open>ModifyRequest\<close>).  Padding members carry no information and are left out; the C arrays of the
  two market depth sides are lists of \<open>MARKET_DEPTH\<close> levels.
\<close>

subsection \<open>types.hpp\<close>

type_synonym Price = int          \<comment> \<open>\<open>int64_t\<close>, ticks\<close>
type_synonym Qty = int            \<comment> \<open>\<open>int64_t\<close>, lots\<close>
type_synonym InstrumentId = u32
type_synonym Timestamp = u64

datatype EventType = TRADE | BBO_UPDATE | DEPTH_UPDATE

datatype Side = BUY | SELL

datatype OrderType = MARKET | LIMIT | IOC | FOK | FAK

datatype OrderStatus =
    PENDING_NEW | NEW | PARTIALLY_FILLED | FILLED | PENDING_CANCEL | CANCELLED | REJECTED

datatype CBState = CB_CLOSED | CB_OPEN | CB_HALF_OPEN

definition MARKET_DEPTH :: nat where "MARKET_DEPTH = 5"

definition MAX_INSTRUMENTS :: nat where "MAX_INSTRUMENTS = 4096"

text \<open>The sign of a fill or of an order: \<open>BUY\<close> adds to the net position, \<open>SELL\<close> subtracts.\<close>

definition signed_qty :: "Side \<Rightarrow> Qty \<Rightarrow> Qty" where
  "signed_qty s q = (case s of BUY \<Rightarrow> q | SELL \<Rightarrow> - q)"

lemma signed_qty_simps [simp]: "signed_qty BUY q = q" "signed_qty SELL q = - q"
  by (simp_all add: signed_qty_def)

lemma abs_signed_qty [simp]: "\<bar>signed_qty s q\<bar> = \<bar>q\<bar>"
  by (cases s) simp_all

subsection \<open>market\_data\_types.hpp\<close>

record PriceLevel =
  lvl_price :: Price
  lvl_qty :: Qty

definition level0 :: PriceLevel where
  "level0 = \<lparr>lvl_price = 0, lvl_qty = 0\<rparr>"

record BBOEvent =
  exchange_ts_ns :: Timestamp
  local_ts_ns :: Timestamp
  bbo_instrument_id :: InstrumentId
  bbo_type :: EventType
  bid_px :: Price
  ask_px :: Price
  bid_qty :: Qty
  ask_qty :: Qty

definition bbo0 :: BBOEvent where
  "bbo0 = \<lparr>exchange_ts_ns = 0, local_ts_ns = 0, bbo_instrument_id = 0, bbo_type = BBO_UPDATE,
           bid_px = 0, ask_px = 0, bid_qty = 0, ask_qty = 0\<rparr>"

definition bbo_mid_price :: "BBOEvent \<Rightarrow> Price" where
  "bbo_mid_price e =
     (if bid_px e > 0 \<and> ask_px e > 0 then cdiv (i64 (bid_px e + ask_px e)) 2 else 0)"

definition bbo_spread :: "BBOEvent \<Rightarrow> Price" where
  "bbo_spread e = (if bid_px e > 0 \<and> ask_px e > 0 then i64 (ask_px e - bid_px e) else 0)"

definition is_valid_bbo :: "BBOEvent \<Rightarrow> bool" where
  "is_valid_bbo e \<longleftrightarrow> bid_px e > 0 \<and> ask_px e > 0 \<and> bid_px e < ask_px e"

record DepthEvent =
  dep_ts_ns :: Timestamp
  dep_instrument_id :: InstrumentId
  dep_bid_levels :: u8
  dep_ask_levels :: u8
  dep_bids :: "PriceLevel list"
  dep_asks :: "PriceLevel list"

text \<open>The C arrays have exactly \<open>MARKET_DEPTH\<close> entries.\<close>

definition depth_wf :: "DepthEvent \<Rightarrow> bool" where
  "depth_wf d \<longleftrightarrow> length (dep_bids d) = MARKET_DEPTH \<and> length (dep_asks d) = MARKET_DEPTH"

definition depth0 :: DepthEvent where
  "depth0 = \<lparr>dep_ts_ns = 0, dep_instrument_id = 0, dep_bid_levels = 0, dep_ask_levels = 0,
             dep_bids = replicate MARKET_DEPTH level0, dep_asks = replicate MARKET_DEPTH level0\<rparr>"

lemma valid_bbo_mid_between:
  assumes "is_valid_bbo e" and "in_i64 (bid_px e + ask_px e)"
  shows "bid_px e \<le> bbo_mid_price e \<and> bbo_mid_price e < ask_px e"
  using assms by (auto simp: is_valid_bbo_def bbo_mid_price_def i64_id cdiv_nonneg)

subsection \<open>order.hpp\<close>

record OrderRequest =
  req_instrument_id :: InstrumentId
  req_side :: Side
  req_type :: OrderType
  req_price :: Price
  req_qty :: Qty
  req_strategy_ts_ns :: Timestamp

definition req0 :: OrderRequest where
  "req0 = \<lparr>req_instrument_id = 0, req_side = BUY, req_type = LIMIT, req_price = 0, req_qty = 0,
           req_strategy_ts_ns = 0\<rparr>"

record Order =
  client_order_id :: u64
  exchange_order_id :: u64
  ord_instrument_id :: InstrumentId
  ord_side :: Side
  ord_type :: OrderType
  status :: OrderStatus
  ord_price :: Price
  qty :: Qty
  filled_qty :: Qty
  submit_ts_ns :: Timestamp
  ack_ts_ns :: Timestamp

definition order0 :: Order where
  "order0 = \<lparr>client_order_id = 0, exchange_order_id = 0, ord_instrument_id = 0, ord_side = BUY,
     ord_type = LIMIT, status = PENDING_NEW, ord_price = 0, qty = 0, filled_qty = 0,
     submit_ts_ns = 0, ack_ts_ns = 0\<rparr>"

definition order_remaining_qty :: "Order \<Rightarrow> Qty" where
  "order_remaining_qty ord = i64 (qty ord - filled_qty ord)"

definition is_active :: "Order \<Rightarrow> bool" where
  "is_active ord \<longleftrightarrow> status ord = PENDING_NEW \<or> status ord = NEW
     \<or> status ord = PARTIALLY_FILLED \<or> status ord = PENDING_CANCEL"

definition is_terminal :: "Order \<Rightarrow> bool" where
  "is_terminal ord \<longleftrightarrow> status ord = FILLED \<or> status ord = CANCELLED \<or> status ord = REJECTED"

lemma active_iff_not_terminal: "is_active ord \<longleftrightarrow> \<not> is_terminal ord"
  by (cases "status ord") (simp_all add: is_active_def is_terminal_def)

record OrderAck =
  ak_client_order_id :: u64
  ak_exchange_order_id :: u64
  ak_status :: OrderStatus
  ak_ack_ts_ns :: Timestamp

definition ack0 :: OrderAck where
  "ack0 = \<lparr>ak_client_order_id = 0, ak_exchange_order_id = 0, ak_status = NEW, ak_ack_ts_ns = 0\<rparr>"

record FillEvent =
  fe_client_order_id :: u64
  fe_exchange_order_id :: u64
  fe_instrument_id :: InstrumentId
  fe_side :: Side
  fe_fill_price :: Price
  fe_fill_qty :: Qty
  fe_remaining_qty :: Qty
  fe_fill_ts_ns :: Timestamp

definition fill0 :: FillEvent where
  "fill0 = \<lparr>fe_client_order_id = 0, fe_exchange_order_id = 0, fe_instrument_id = 0, fe_side = BUY,
     fe_fill_price = 0, fe_fill_qty = 0, fe_remaining_qty = 0, fe_fill_ts_ns = 0\<rparr>"

record ModifyRequest =
  mod_client_order_id :: u64
  mod_new_price :: Price
  mod_new_qty :: Qty

end
