(* ===== verification/Order_State_Machine.thy ===== *)
theory Order_State_Machine
  imports Types
begin

text \<open>
  \<^verbatim>\<open>src/oms/order_state_machine.cpp\<close>: the static methods that move an \<open>Order\<close> between
  states.  Each takes the order and returns it updated with the \<open>bool\<close> the code returns.
  \<open>osm_edge\<close> is the documented transition graph; the lemmas show that the code takes exactly
  its edges and what they keep true of the filled quantity.
\<close>

subsection \<open>transition and apply\_fill\<close>

definition transition_valid :: "OrderStatus \<Rightarrow> OrderStatus \<Rightarrow> bool" where
  "transition_valid cur new_status = (case cur of
       PENDING_NEW \<Rightarrow> new_status = NEW \<or> new_status = REJECTED
     | NEW \<Rightarrow> new_status = PARTIALLY_FILLED \<or> new_status = FILLED \<or> new_status = PENDING_CANCEL
     | PARTIALLY_FILLED \<Rightarrow>
         new_status = PARTIALLY_FILLED \<or> new_status = FILLED \<or> new_status = PENDING_CANCEL
     | PENDING_CANCEL \<Rightarrow> new_status = CANCELLED \<or> new_status = FILLED
     | FILLED \<Rightarrow> False | CANCELLED \<Rightarrow> False | REJECTED \<Rightarrow> False)"

definition transition :: "Order \<Rightarrow> OrderStatus \<Rightarrow> Order \<times> bool" where
  "transition ord new_status =
     (if transition_valid (status ord) new_status then (ord\<lparr>status := new_status\<rparr>, True)
      else (ord, False))"

definition apply_fill :: "Order \<Rightarrow> Qty \<Rightarrow> Order \<times> bool" where
  "apply_fill ord fill_qty =
     (if fill_qty \<le> 0 then (ord, False)
      else if \<not> is_active ord then (ord, False)
      else
        let old_filled = filled_qty ord;
            raw = i64 (old_filled + fill_qty);
            new_filled = (if raw > qty ord then qty ord else raw);
            target = (if new_filled \<ge> qty ord then FILLED else PARTIALLY_FILLED);
            (ord', ok) = transition (ord\<lparr>filled_qty := new_filled\<rparr>) target
        in if \<not> ok then (ord'\<lparr>filled_qty := old_filled\<rparr>, False) else (ord', True))"

definition status_name :: "OrderStatus \<Rightarrow> string" where
  "status_name s = (case s of
       PENDING_NEW \<Rightarrow> ''PENDING_NEW'' | NEW \<Rightarrow> ''NEW'' | PARTIALLY_FILLED \<Rightarrow> ''PARTIALLY_FILLED''
     | FILLED \<Rightarrow> ''FILLED'' | PENDING_CANCEL \<Rightarrow> ''PENDING_CANCEL'' | CANCELLED \<Rightarrow> ''CANCELLED''
     | REJECTED \<Rightarrow> ''REJECTED'')"

lemma inj_status_name: "inj status_name"
proof (rule injI)
  fix s t assume "status_name s = status_name t"
  then show "s = t" by (cases s; cases t) (simp_all add: status_name_def)
qed

subsection \<open>The documented graph\<close>

inductive osm_edge :: "OrderStatus \<Rightarrow> OrderStatus \<Rightarrow> bool" where
  ack_new: "osm_edge PENDING_NEW NEW"
| ack_reject: "osm_edge PENDING_NEW REJECTED"
| first_partial: "osm_edge NEW PARTIALLY_FILLED"
| first_full: "osm_edge NEW FILLED"
| cancel_new: "osm_edge NEW PENDING_CANCEL"
| more_partial: "osm_edge PARTIALLY_FILLED PARTIALLY_FILLED"
| last_fill: "osm_edge PARTIALLY_FILLED FILLED"
| cancel_partial: "osm_edge PARTIALLY_FILLED PENDING_CANCEL"
| cancelled: "osm_edge PENDING_CANCEL CANCELLED"
| fill_beats_cancel: "osm_edge PENDING_CANCEL FILLED"

inductive_simps osm_edge_from [simp]:
  "osm_edge PENDING_NEW t" "osm_edge NEW t" "osm_edge PARTIALLY_FILLED t"
  "osm_edge PENDING_CANCEL t" "osm_edge FILLED t" "osm_edge CANCELLED t" "osm_edge REJECTED t"

inductive_cases osm_edge_to_cancelled: "osm_edge s CANCELLED"
inductive_cases osm_edge_to_pending_cancel: "osm_edge s PENDING_CANCEL"

lemma transition_valid_edge: "transition_valid s t \<longleftrightarrow> osm_edge s t"
  by (cases s) (auto simp: transition_valid_def)

lemma terminal_no_edge: "is_terminal ord \<Longrightarrow> \<not> osm_edge (status ord) t"
  by (auto simp: is_terminal_def)

lemma transition_simps:
  "osm_edge (status ord) t \<Longrightarrow> transition ord t = (ord\<lparr>status := t\<rparr>, True)"
  "\<not> osm_edge (status ord) t \<Longrightarrow> transition ord t = (ord, False)"
  by (simp_all add: transition_def transition_valid_edge)

lemma transition_frame:
  "client_order_id (fst (transition ord t)) = client_order_id ord"
  "qty (fst (transition ord t)) = qty ord" "filled_qty (fst (transition ord t)) = filled_qty ord"
  by (simp_all add: transition_def)

subsection \<open>What a fill does\<close>

definition order_ok :: "Order \<Rightarrow> bool" where
  "order_ok ord \<longleftrightarrow> 0 < qty ord \<and> in_i64 (qty ord) \<and> (case status ord of
       PENDING_NEW \<Rightarrow> filled_qty ord = 0
     | NEW \<Rightarrow> filled_qty ord = 0
     | REJECTED \<Rightarrow> filled_qty ord = 0
     | PARTIALLY_FILLED \<Rightarrow> 0 < filled_qty ord \<and> filled_qty ord < qty ord
     | FILLED \<Rightarrow> filled_qty ord = qty ord
     | PENDING_CANCEL \<Rightarrow> 0 \<le> filled_qty ord \<and> filled_qty ord < qty ord
     | CANCELLED \<Rightarrow> 0 \<le> filled_qty ord \<and> filled_qty ord < qty ord)"

lemma order_ok_bounds: "order_ok ord \<Longrightarrow> 0 \<le> filled_qty ord \<and> filled_qty ord \<le> qty ord"
  by (cases "status ord") (auto simp: order_ok_def)

text \<open>The rollback leaves the order exactly as it was, so a refused fill changes nothing.\<close>

lemma apply_fill_refused: "\<not> snd (apply_fill ord q) \<Longrightarrow> fst (apply_fill ord q) = ord"
  by (auto simp: apply_fill_def transition_def Let_def split: if_splits)

lemma apply_fill_frame:
  "client_order_id (fst (apply_fill ord q)) = client_order_id ord"
  "qty (fst (apply_fill ord q)) = qty ord"
  by (auto simp: apply_fill_def transition_def Let_def)

text \<open>The closed form of a fill that does not overflow \<open>int64_t\<close>.\<close>

lemma apply_fill_eq:
  assumes "0 < q" and "in_i64 (filled_qty ord + q)"
  defines "n \<equiv> min (qty ord) (filled_qty ord + q)"
    and "t \<equiv> (if qty ord \<le> filled_qty ord + q then FILLED else PARTIALLY_FILLED)"
  shows "apply_fill ord q =
    (if osm_edge (status ord) t then (ord\<lparr>filled_qty := n, status := t\<rparr>, True) else (ord, False))"
  using assms(1,2) terminal_no_edge [of ord t]
  by (auto simp: apply_fill_def transition_def transition_valid_edge i64_id n_def t_def Let_def
      active_iff_not_terminal min_def)

lemma apply_fill_order_ok:
  assumes "order_ok ord" and "in_i64 (filled_qty ord + q)"
  shows "order_ok (fst (apply_fill ord q))"
proof (cases "0 < q")
  case True
  then show ?thesis
    using assms order_ok_bounds [OF assms(1)]
    by (cases "status ord") (auto simp: apply_fill_eq order_ok_def min_def)
next
  case False
  then show ?thesis using assms by (simp add: apply_fill_def)
qed

lemma transition_order_ok:
  assumes "order_ok ord" and "t \<in> {NEW, REJECTED, PENDING_CANCEL, CANCELLED}"
  shows "order_ok (fst (transition ord t))"
  using assms by (cases "status ord")
    (auto simp: transition_def transition_valid_def order_ok_def)

subsection \<open>Life of an order\<close>

text \<open>The calls an order sees over its life: state changes asked for by acks and cancels, fills.\<close>

datatype osm_call = Call_transition OrderStatus | Call_fill Qty

fun osm_call_step :: "Order \<Rightarrow> osm_call \<Rightarrow> Order" where
  "osm_call_step ord (Call_transition t) = fst (transition ord t)"
| "osm_call_step ord (Call_fill q) = fst (apply_fill ord q)"

definition osm_run :: "Order \<Rightarrow> osm_call list \<Rightarrow> Order" where
  "osm_run ord calls = foldl osm_call_step ord calls"

lemma osm_run_simps [simp]:
  "osm_run ord [] = ord" "osm_run ord (c # cs) = osm_run (osm_call_step ord c) cs"
  by (simp_all add: osm_run_def)

lemma apply_fill_path: "osm_edge\<^sup>*\<^sup>* (status ord) (status (fst (apply_fill ord q)))"
  by (auto simp: apply_fill_def transition_def transition_valid_edge Let_def)

lemma osm_call_step_path: "osm_edge\<^sup>*\<^sup>* (status ord) (status (osm_call_step ord c))"
  by (cases c) (auto simp: transition_def transition_valid_edge apply_fill_path)

lemma osm_run_path: "osm_edge\<^sup>*\<^sup>* (status ord) (status (osm_run ord calls))"
proof (induction calls arbitrary: ord)
  case (Cons c cs)
  then show ?case using osm_call_step_path rtranclp_trans by fastforce
qed simp

lemma terminal_step: "is_terminal ord \<Longrightarrow> osm_call_step ord c = ord"
  by (cases c) (auto simp: transition_simps terminal_no_edge apply_fill_def active_iff_not_terminal)

subsection \<open>Properties\<close>

text \<open>
  \<open>transition\<close> implements the documented graph exactly: it returns \<open>true\<close> and moves
  the status iff the edge is in the graph, and otherwise returns \<open>false\<close> and leaves the order
  as it was.
\<close>

theorem transition_implements_graph:
  "transition ord t =
     (if osm_edge (status ord) t then (ord\<lparr>status := t\<rparr>, True) else (ord, False))"
  by (simp add: transition_def transition_valid_edge)

text \<open>
  Claim C12.  Every branch of a fill, for any order and any quantity: it is refused when the quantity is
  not positive, when the order is not live on the exchange, and when it would complete only in part an
  order whose cancel is pending; a refused fill changes nothing.  Otherwise the filled quantity becomes
  the minimum of the order quantity and the \<^verbatim>\<open>int64_t\<close> sum and the status \<open>FILLED\<close> or \<open>PARTIALLY_FILLED\<close> by
  whether that sum reaches the order quantity, and nothing else changes.  As long as the sum does not
  wrap, an order whose status and filled quantity agree keeps agreeing.
\<close>

theorem apply_fill_correct:
  "let (ord', ok) = apply_fill ord q; sum = i64 (filled_qty ord + q); complete = (qty ord \<le> sum) in
    ok = (0 < q \<and> (status ord = NEW \<or> status ord = PARTIALLY_FILLED \<or> (status ord = PENDING_CANCEL \<and> complete)))
    \<and> ord' = (if ok then ord\<lparr>filled_qty := min (qty ord) sum, status := (if complete then FILLED else PARTIALLY_FILLED)\<rparr> else ord)
    \<and> (order_ok ord \<and> in_i64 (filled_qty ord + q) \<longrightarrow> order_ok ord')"
  using apply_fill_order_ok [of ord q]
  by (cases "status ord") (auto simp: apply_fill_def transition_def transition_valid_def is_active_def min_def Let_def)

theorem apply_fill_correct_witness:
  "apply_fill (order0\<lparr>status := NEW, qty := 10\<rparr>) 4 = (order0\<lparr>status := PARTIALLY_FILLED, qty := 10, filled_qty := 4\<rparr>, True)
   \<and> apply_fill (order0\<lparr>status := NEW, qty := 10\<rparr>) 0 = (order0\<lparr>status := NEW, qty := 10\<rparr>, False)
   \<and> order_ok (order0\<lparr>status := PARTIALLY_FILLED, qty := 10, filled_qty := 4\<rparr>)"
proof -
  let ?o = "order0\<lparr>status := NEW, qty := 10\<rparr>"
  have o: "order_ok ?o" "filled_qty ?o = 0" by (simp_all add: order_ok_def order0_def in_i64_def)
  obtain o4 k4 where 4: "apply_fill ?o 4 = (o4, k4)" by force
  obtain o0 k0 where 0: "apply_fill ?o 0 = (o0, k0)" by force
  have a: "k4 \<and> o4 = order0\<lparr>status := PARTIALLY_FILLED, qty := 10, filled_qty := 4\<rparr> \<and> order_ok o4"
    using apply_fill_correct [of ?o 4] o 4 by (auto simp: i64_id in_i64_def Let_def)
  have "\<not> k0 \<and> o0 = ?o" using apply_fill_correct [of ?o 0] 0 by (simp add: Let_def)
  with a 4 0 show ?thesis by auto
qed

lemma osm_call_step_edge:
  "status (osm_call_step ord c) = status ord \<or> osm_edge (status ord) (status (osm_call_step ord c))"
  by (cases c) (auto simp: transition_def transition_valid_edge apply_fill_def Let_def)

lemma cancelled_via_pending:
  "status ord \<noteq> CANCELLED \<Longrightarrow> status (osm_run ord calls) = CANCELLED \<Longrightarrow>
   \<exists>n \<le> length calls. status (osm_run ord (take n calls)) = PENDING_CANCEL"
proof (induction calls arbitrary: ord)
  case (Cons c cs)
  show ?case
  proof (cases "status (osm_call_step ord c) = CANCELLED")
    case True
    then have "osm_edge (status ord) CANCELLED"
      using osm_call_step_edge [of ord c] Cons.prems(1) by auto
    then have "status ord = PENDING_CANCEL" by (auto elim: osm_edge_to_cancelled)
    then show ?thesis by (intro exI [of _ 0]) simp
  next
    case False
    from Cons.IH [OF this] Cons.prems(2) obtain n where
      "n \<le> length cs" "status (osm_run (osm_call_step ord c) (take n cs)) = PENDING_CANCEL" by auto
    then show ?thesis by (intro exI [of _ "Suc n"]) simp
  qed
qed simp

text \<open>The filled quantity over a run whose fills cannot wrap the sum.\<close>

lemma call_step_quantity:
  assumes "0 \<le> filled_qty ord" and "filled_qty ord \<le> qty ord" and "qty ord \<le> 2 ^ 62"
    and "case c of Call_fill q \<Rightarrow> q < 2 ^ 62 | _ \<Rightarrow> True"
  shows "qty (osm_call_step ord c) = qty ord \<and> filled_qty ord \<le> filled_qty (osm_call_step ord c)
    \<and> filled_qty (osm_call_step ord c) \<le> qty ord"
proof (cases c)
  case (Call_transition t)
  then show ?thesis using assms(2) by (simp add: transition_frame)
next
  case (Call_fill q)
  show ?thesis
  proof (cases "0 < q")
    case True
    then have "in_i64 (filled_qty ord + q)" using assms Call_fill by (simp add: in_i64_def)
    then show ?thesis using True assms Call_fill by (simp add: apply_fill_eq)
  qed (use assms(2) Call_fill in \<open>simp add: apply_fill_def\<close>)
qed

definition small_call :: "osm_call \<Rightarrow> bool" where
  "small_call c = (case c of Call_fill q \<Rightarrow> q < 2 ^ 62 | _ \<Rightarrow> True)"

lemma run_quantity:
  "0 \<le> filled_qty ord \<Longrightarrow> filled_qty ord \<le> qty ord \<Longrightarrow> qty ord \<le> 2 ^ 62 \<Longrightarrow> list_all small_call calls \<Longrightarrow>
   qty (osm_run ord calls) = qty ord \<and> filled_qty ord \<le> filled_qty (osm_run ord calls) \<and> filled_qty (osm_run ord calls) \<le> qty ord"
proof (induction calls arbitrary: ord)
  case (Cons c cs)
  have s: "qty (osm_call_step ord c) = qty ord" "filled_qty ord \<le> filled_qty (osm_call_step ord c)"
    "filled_qty (osm_call_step ord c) \<le> qty ord"
    using call_step_quantity [OF Cons.prems(1-3), of c] Cons.prems(4) by (simp_all add: small_call_def)
  show ?case using Cons.IH [of "osm_call_step ord c"] s Cons.prems by simp
qed simp

text \<open>The state changes the OMS asks for: acknowledgements, rejections and cancels, but no fill status.\<close>

definition oms_call :: "osm_call \<Rightarrow> bool" where
  "oms_call c = (case c of Call_transition t \<Rightarrow> t \<in> {NEW, REJECTED, PENDING_CANCEL, CANCELLED} | Call_fill q \<Rightarrow> True)"

lemma run_order_ok:
  "order_ok ord \<Longrightarrow> qty ord \<le> 2 ^ 62 \<Longrightarrow> list_all small_call calls \<Longrightarrow> list_all oms_call calls \<Longrightarrow> order_ok (osm_run ord calls)"
proof (induction calls arbitrary: ord)
  case (Cons c cs)
  note b = order_ok_bounds [OF Cons.prems(1)]
  have "order_ok (osm_call_step ord c)"
  proof (cases c)
    case (Call_transition t)
    then show ?thesis using transition_order_ok [OF Cons.prems(1), of t] Cons.prems(4) by (simp add: oms_call_def)
  next
    case (Call_fill q)
    show ?thesis
    proof (cases "0 < q")
      case True
      then have "in_i64 (filled_qty ord + q)" using b Cons.prems(2,3) Call_fill by (simp add: in_i64_def small_call_def)
      from apply_fill_order_ok [OF Cons.prems(1) this] show ?thesis using Call_fill by simp
    qed (use Cons.prems(1) Call_fill in \<open>simp add: apply_fill_def\<close>)
  qed
  moreover have "qty (osm_call_step ord c) = qty ord"
    using call_step_quantity [of ord c] b Cons.prems(2,3) by (simp add: small_call_def)
  ultimately show ?case using Cons.IH [of "osm_call_step ord c"] Cons.prems by simp
qed simp

text \<open>
  Claim C13.  Life cycle.  Whatever calls an order receives, its status moves along the graph, a terminal
  order never changes again, and an order that ends in \<open>CANCELLED\<close> was in \<open>PENDING_CANCEL\<close> at some earlier
  point of the run.  With an order quantity of at most \<open>2\<^sup>6\<^sup>2\<close> and smaller fills, so that no sum wraps, the quantity
  stays, and the filled quantity never decreases and stays within it; and when the state changes asked for
  are those of the OMS (none of them a fill status), filled quantity and status agree all along.
\<close>

theorem order_life_cycle:
  "osm_edge\<^sup>*\<^sup>* (status ord) (status (osm_run ord calls))
   \<and> (is_terminal ord \<longrightarrow> osm_run ord calls = ord)
   \<and> (status ord \<noteq> CANCELLED \<and> status (osm_run ord calls) = CANCELLED
        \<longrightarrow> (\<exists>n \<le> length calls. status (osm_run ord (take n calls)) = PENDING_CANCEL))
   \<and> (0 \<le> filled_qty ord \<and> filled_qty ord \<le> qty ord \<and> qty ord \<le> 2 ^ 62 \<and> list_all small_call calls
        \<longrightarrow> qty (osm_run ord calls) = qty ord \<and> filled_qty ord \<le> filled_qty (osm_run ord calls)
          \<and> filled_qty (osm_run ord calls) \<le> qty ord)
   \<and> (order_ok ord \<and> qty ord \<le> 2 ^ 62 \<and> list_all small_call calls \<and> list_all oms_call calls
        \<longrightarrow> order_ok (osm_run ord calls))"
proof (intro conjI impI)
  show "osm_edge\<^sup>*\<^sup>* (status ord) (status (osm_run ord calls))" by (rule osm_run_path)
  show "osm_run ord calls = ord" if "is_terminal ord"
    using that by (induction calls) (auto simp: terminal_step)
qed (auto intro: cancelled_via_pending run_order_ok simp: run_quantity)

theorem order_life_cycle_witness:
  "osm_run (order0\<lparr>status := FILLED\<rparr>) [Call_transition CANCELLED, Call_fill 5] = order0\<lparr>status := FILLED\<rparr>
   \<and> (\<exists>n \<le> 2. status (osm_run (order0\<lparr>status := NEW\<rparr>)
        (take n [Call_transition PENDING_CANCEL, Call_transition CANCELLED])) = PENDING_CANCEL)
   \<and> order_ok (osm_run (order0\<lparr>qty := 10\<rparr>) [Call_transition NEW, Call_fill 4, Call_fill 7])
   \<and> filled_qty (osm_run (order0\<lparr>qty := 10\<rparr>) [Call_transition NEW, Call_fill 4, Call_fill 7]) \<le> 10"
proof -
  have "is_terminal (order0\<lparr>status := FILLED\<rparr>)" by (simp add: is_terminal_def)
  with order_life_cycle [of "order0\<lparr>status := FILLED\<rparr>" "[Call_transition CANCELLED, Call_fill 5]"]
  have a: "osm_run (order0\<lparr>status := FILLED\<rparr>) [Call_transition CANCELLED, Call_fill 5]
    = order0\<lparr>status := FILLED\<rparr>" by blast
  have "status (osm_run (order0\<lparr>status := NEW\<rparr>)
      [Call_transition PENDING_CANCEL, Call_transition CANCELLED]) = CANCELLED"
    by (simp add: transition_def transition_valid_def)
  with order_life_cycle [of "order0\<lparr>status := NEW\<rparr>"
      "[Call_transition PENDING_CANCEL, Call_transition CANCELLED]"] a
  have b: "\<exists>n \<le> 2. status (osm_run (order0\<lparr>status := NEW\<rparr>)
        (take n [Call_transition PENDING_CANCEL, Call_transition CANCELLED])) = PENDING_CANCEL"
    by (auto simp: numeral_2_eq_2)
  let ?calls = "[Call_transition NEW, Call_fill 4, Call_fill 7]" and ?o = "order0\<lparr>qty := 10\<rparr>"
  have "order_ok ?o" "0 \<le> filled_qty ?o" "filled_qty ?o \<le> qty ?o" "qty ?o \<le> 2 ^ 62" "qty ?o = 10"
    "list_all small_call ?calls" "list_all oms_call ?calls"
    by (simp_all add: order_ok_def order0_def in_i64_def small_call_def oms_call_def)
  with order_life_cycle [of ?o ?calls] have "order_ok (osm_run ?o ?calls) \<and> filled_qty (osm_run ?o ?calls) \<le> 10" by metis
  with a b show ?thesis by blast
qed

lemma fills_accumulate_from:
  "order_ok ord \<Longrightarrow> status ord \<in> {NEW, PARTIALLY_FILLED, FILLED} \<Longrightarrow> (\<forall>q \<in> set qs. 0 < q) \<Longrightarrow>
   in_i64 (filled_qty ord + sum_list qs) \<Longrightarrow>
   filled_qty (osm_run ord (map Call_fill qs)) = min (qty ord) (filled_qty ord + sum_list qs)
   \<and> (status (osm_run ord (map Call_fill qs)) = FILLED \<longleftrightarrow> qty ord \<le> filled_qty ord + sum_list qs)"
proof (induction qs arbitrary: ord)
  case Nil
  then show ?case by (auto simp: order_ok_def)
next
  case (Cons q qs)
  have nonneg: "0 < q" "0 \<le> sum_list qs" using Cons.prems(3) by (auto intro: sum_list_nonneg less_imp_le)
  have ok: "0 \<le> filled_qty ord" "filled_qty ord \<le> qty ord" using order_ok_bounds [OF Cons.prems(1)] by auto
  have fits: "in_i64 (filled_qty ord + q)" using Cons.prems(4) nonneg ok by (simp add: in_i64_def)
  let ?o = "fst (apply_fill ord q)"
  have ok': "order_ok ?o" by (rule apply_fill_order_ok [OF Cons.prems(1) fits])
  have st: "status ?o \<in> {NEW, PARTIALLY_FILLED, FILLED}" "filled_qty ?o = min (qty ord) (filled_qty ord + q)"
    using Cons.prems(1,2) nonneg ok
    by (auto simp: apply_fill_eq [OF nonneg(1) fits] order_ok_def)
  have "in_i64 (filled_qty ?o + sum_list qs)"
    using Cons.prems(4) nonneg ok st(2) by (auto simp: in_i64_def min_def)
  from Cons.IH [OF ok' st(1) _ this] Cons.prems(3) show ?case
    using st(2) nonneg ok by (auto simp: apply_fill_frame min_def)
qed

text \<open>
  Fills accumulate: after the acknowledgement, any sequence of positive fills leaves
  \<open>filled_qty\<close> at the minimum of the order quantity and the sum of the fills, and the order is
  \<open>FILLED\<close> exactly when the fills cover the quantity.
\<close>

theorem fills_accumulate:
  assumes "order_ok ord" and "status ord = NEW" and "\<forall>q \<in> set qs. 0 < q" and "in_i64 (sum_list qs)"
  shows "filled_qty (osm_run ord (map Call_fill qs)) = min (qty ord) (sum_list qs)
    \<and> (status (osm_run ord (map Call_fill qs)) = FILLED \<longleftrightarrow> qty ord \<le> sum_list qs)"
proof -
  have "filled_qty ord = 0" using assms(1,2) by (simp add: order_ok_def)
  with fills_accumulate_from [of ord qs] assms show ?thesis by simp
qed

theorem fills_accumulate_witness:
  "filled_qty (osm_run (order0\<lparr>status := NEW, qty := 10\<rparr>) (map Call_fill [4, 3, 5])) = 10"
proof -
  have "order_ok (order0\<lparr>status := NEW, qty := 10\<rparr>)"
    by (simp add: order_ok_def order0_def in_i64_def)
  from fills_accumulate [OF this, of "[4, 3, 5]"] show ?thesis by (simp add: in_i64_def)
qed

end
