(* ===== verification/Memory_Pool.thy ===== *)
theory Memory_Pool
  imports Prelude
begin

text \<open>
  \<^verbatim>\<open>src/infra/memory_pool.hpp\<close>: the fixed-size object pool.  A slot of \<open>storage_\<close> is a
  \<open>cell\<close>: while it is free its first bytes hold the intrusive \<open>next\<close> pointer (\<open>Link\<close>), once the
  caller has run placement new it holds an object (\<open>Obj\<close>).  Reading an object's bytes as a
  link, or a link's bytes as an object, and a pointer outside \<open>storage_\<close>, are faults.
\<close>

datatype pool_fault = Wild_pointer | Not_a_link | Not_an_object

datatype 'a cell = Link "nat option" | Obj 'a

record 'a mpool =
  mp_cells :: "'a cell list"
  mp_free_head :: "nat option"
  mp_available :: u64

definition pool_new :: "nat \<Rightarrow> 'a mpool" where
  "pool_new N = \<lparr>mp_cells = map (\<lambda>i. Link (if i < N - 1 then Some (Suc i) else None)) [0..<N],
     mp_free_head = Some 0, mp_available = of_nat N\<rparr>"

definition pool_acquire :: "'a mpool \<Rightarrow> pool_fault + 'a mpool \<times> nat option" where
  "pool_acquire p = (case mp_free_head p of
       None \<Rightarrow> Inr (p, None)
     | Some i \<Rightarrow> if i < length (mp_cells p) then
         (case mp_cells p ! i of
            Link n \<Rightarrow> Inr (p\<lparr>mp_free_head := n, mp_available := mp_available p - 1\<rparr>, Some i)
          | Obj x \<Rightarrow> Inl Not_a_link)
       else Inl Wild_pointer)"

definition pool_release :: "nat \<Rightarrow> 'a mpool \<Rightarrow> 'a mpool" where
  "pool_release i p = p\<lparr>mp_cells := (mp_cells p)[i := Link (mp_free_head p)],
     mp_free_head := Some i, mp_available := mp_available p + 1\<rparr>"

text \<open>Placement new and member access through the returned pointer.\<close>

definition pool_store :: "nat \<Rightarrow> 'a \<Rightarrow> 'a mpool \<Rightarrow> pool_fault + 'a mpool" where
  "pool_store i x p = (if i < length (mp_cells p)
     then Inr (p\<lparr>mp_cells := (mp_cells p)[i := Obj x]\<rparr>) else Inl Wild_pointer)"

definition pool_load :: "nat \<Rightarrow> 'a mpool \<Rightarrow> pool_fault + 'a" where
  "pool_load i p = (if i < length (mp_cells p)
     then (case mp_cells p ! i of Obj x \<Rightarrow> Inr x | Link n \<Rightarrow> Inl Not_an_object)
     else Inl Wild_pointer)"

definition pool_capacity :: "'a mpool \<Rightarrow> nat" where
  "pool_capacity p = length (mp_cells p)"

definition pool_full :: "'a mpool \<Rightarrow> bool" where
  "pool_full p \<longleftrightarrow> mp_available p = 0"

definition pool_empty :: "'a mpool \<Rightarrow> bool" where
  "pool_empty p \<longleftrightarrow> mp_available p = of_nat (pool_capacity p)"

subsection \<open>The free list\<close>

fun free_chain :: "'a cell list \<Rightarrow> nat option \<Rightarrow> nat list \<Rightarrow> bool" where
  "free_chain cs h [] \<longleftrightarrow> h = None"
| "free_chain cs h (i # is) \<longleftrightarrow> h = Some i \<and> i < length cs
     \<and> (case cs ! i of Link n \<Rightarrow> free_chain cs n is | Obj x \<Rightarrow> False)"

text \<open>Walking the list with as much fuel as there are slots (\<open>chain_walk_eq\<close>: enough).\<close>

fun chain_walk :: "nat \<Rightarrow> 'a cell list \<Rightarrow> nat option \<Rightarrow> nat list" where
  "chain_walk 0 cs h = []"
| "chain_walk (Suc f) cs h = (case h of None \<Rightarrow> [] | Some i \<Rightarrow>
     if i < length cs then i # (case cs ! i of Link n \<Rightarrow> chain_walk f cs n | Obj x \<Rightarrow> []) else [])"

definition pool_free :: "'a mpool \<Rightarrow> nat list" where
  "pool_free p = chain_walk (length (mp_cells p)) (mp_cells p) (mp_free_head p)"

definition pool_held :: "'a mpool \<Rightarrow> nat set" where
  "pool_held p = {0..<length (mp_cells p)} - set (pool_free p)"

definition pool_wf :: "'a mpool \<Rightarrow> bool" where
  "pool_wf p \<longleftrightarrow> free_chain (mp_cells p) (mp_free_head p) (pool_free p) \<and> distinct (pool_free p)
     \<and> unat (mp_available p) = length (pool_free p) \<and> length (mp_cells p) < 2 ^ 64"

lemma free_chain_bounds: "free_chain cs h is \<Longrightarrow> set is \<subseteq> {0..<length cs}"
  by (induction cs h "is" rule: free_chain.induct) (auto split: cell.splits)

lemma free_chain_update:
  "free_chain cs h is \<Longrightarrow> i \<notin> set is \<Longrightarrow> free_chain (cs[i := c]) h is"
  by (induction cs h "is" rule: free_chain.induct) (auto split: cell.splits)

lemma chain_walk_eq: "free_chain cs h is \<Longrightarrow> length is \<le> f \<Longrightarrow> chain_walk f cs h = is"
proof (induction "is" arbitrary: h f)
  case Nil
  then show ?case by (cases f) auto
next
  case (Cons i "is")
  then show ?case by (cases f) (auto split: cell.splits)
qed

lemma distinct_chain_length:
  assumes "free_chain cs h is" and "distinct is" shows "length is \<le> length cs"
proof -
  have "card (set is) \<le> card {0..<length cs}"
    using free_chain_bounds [OF assms(1)] by (intro card_mono) auto
  then show ?thesis using assms(2) by (simp add: distinct_card)
qed

text \<open>To establish the invariant it is enough to exhibit a chain.\<close>

lemma pool_freeI:
  "free_chain (mp_cells p) (mp_free_head p) is \<Longrightarrow> distinct is \<Longrightarrow> pool_free p = is"
  unfolding pool_free_def by (rule chain_walk_eq) (auto intro: distinct_chain_length)

lemma pool_wfI:
  "free_chain (mp_cells p) (mp_free_head p) is \<Longrightarrow> distinct is \<Longrightarrow>
   unat (mp_available p) = length is \<Longrightarrow> length (mp_cells p) < 2 ^ 64 \<Longrightarrow> pool_wf p \<and> pool_free p = is"
  using pool_freeI [of p "is"] by (simp add: pool_wf_def)

lemma pool_new_chain:
  assumes cs: "cs = map (\<lambda>i. Link (if i < n - 1 then Some (Suc i) else None)) [0..<n]"
  shows "k \<le> n \<Longrightarrow> free_chain cs (if k < n then Some k else None) [k..<n]"
proof (induction "n - k" arbitrary: k)
  case (Suc d)
  then have k: "k < n" by simp
  have "free_chain cs (if Suc k < n then Some (Suc k) else None) [Suc k..<n]"
    by (rule Suc.hyps(1)) (use Suc k in auto)
  moreover have "cs ! k = Link (if Suc k < n then Some (Suc k) else None)" and "length cs = n"
    using k by (auto simp: cs)
  ultimately show ?case using k by (simp only: upt_conv_Cons [OF k] free_chain.simps) simp
qed simp

lemma pool_new_wf:
  assumes "0 < N" and "N < 2 ^ 64"
  shows "pool_wf (pool_new N :: 'a mpool)" and "pool_free (pool_new N :: 'a mpool) = [0..<N]"
proof -
  let ?p = "pool_new N :: 'a mpool"
  have "free_chain (mp_cells ?p) (mp_free_head ?p) [0..<N]"
    using pool_new_chain [OF refl, of 0 N] assms(1) by (simp add: pool_new_def)
  moreover have "unat (mp_available ?p) = length [0..<N]"
    using unat_of_nat_u64 [OF assms(2)] by (simp add: pool_new_def del: unsigned_of_nat)
  moreover have "length (mp_cells ?p) < 2 ^ 64"
    using assms(2) by (simp add: pool_new_def)
  ultimately have "pool_wf ?p \<and> pool_free ?p = [0..<N]"
    by (intro pool_wfI) auto
  then show "pool_wf ?p" and "pool_free ?p = [0..<N]" by auto
qed

lemma pool_free_Nil: "pool_wf p \<Longrightarrow> pool_free p = [] \<longleftrightarrow> mp_free_head p = None"
  by (cases "pool_free p") (auto simp: pool_wf_def)

subsection \<open>The interface\<close>

text \<open>
  What a client of the pool relies on: \<open>acquire\<close> hands out a slot that nobody holds, or
  \<open>None\<close> exactly when nothing is free; a held slot keeps its object until it is released.
\<close>

locale slot_pool =
  fixes acquire :: "'p \<Rightarrow> 'e + 'p \<times> nat option"
    and release :: "nat \<Rightarrow> 'p \<Rightarrow> 'p"
    and store :: "nat \<Rightarrow> 'a \<Rightarrow> 'p \<Rightarrow> 'e + 'p"
    and load :: "nat \<Rightarrow> 'p \<Rightarrow> 'e + 'a"
    and held :: "'p \<Rightarrow> nat set"
    and room :: "'p \<Rightarrow> nat"
    and wf :: "'p \<Rightarrow> bool"
  assumes acquire_none: "wf p \<Longrightarrow> room p = 0 \<Longrightarrow> acquire p = Inr (p, None)"
    and acquire_some: "wf p \<Longrightarrow> 0 < room p \<Longrightarrow>
        \<exists>p' i. acquire p = Inr (p', Some i) \<and> wf p' \<and> i \<notin> held p \<and> held p' = insert i (held p)
          \<and> room p' = room p - 1 \<and> (\<forall>j \<in> held p. load j p' = load j p)"
    and store_held: "wf p \<Longrightarrow> i \<in> held p \<Longrightarrow>
        \<exists>p'. store i x p = Inr p' \<and> wf p' \<and> held p' = held p \<and> room p' = room p
          \<and> load i p' = Inr x \<and> (\<forall>j \<in> held p. j \<noteq> i \<longrightarrow> load j p' = load j p)"
    and release_held: "wf p \<Longrightarrow> i \<in> held p \<Longrightarrow>
        wf (release i p) \<and> held (release i p) = held p - {i} \<and> room (release i p) = room p + 1
          \<and> (\<forall>j \<in> held p. j \<noteq> i \<longrightarrow> load j (release i p) = load j p)"
begin

text \<open>Allocation of an initialised object, the client's usual sequence.\<close>

lemma alloc_store:
  assumes "wf p" and "0 < room p"
  shows "\<exists>p1 i p2. acquire p = Inr (p1, Some i) \<and> store i x p1 = Inr p2 \<and> wf p2 \<and> i \<notin> held p
    \<and> held p2 = insert i (held p) \<and> room p2 = room p - 1 \<and> load i p2 = Inr x
    \<and> (\<forall>j \<in> held p. load j p2 = load j p)"
proof -
  obtain p1 i where a: "acquire p = Inr (p1, Some i)" "wf p1" "i \<notin> held p" "held p1 = insert i (held p)"
    "room p1 = room p - 1" "\<forall>j \<in> held p. load j p1 = load j p"
    using acquire_some [OF assms] by blast
  obtain p2 where s: "store i x p1 = Inr p2" "wf p2" "held p2 = held p1" "room p2 = room p1"
    "load i p2 = Inr x" "\<forall>j \<in> held p1. j \<noteq> i \<longrightarrow> load j p2 = load j p1"
    using store_held [OF a(2), of i x] a(4) by auto
  show ?thesis
    by (rule exI [of _ p1], rule exI [of _ i], rule exI [of _ p2]) (use a s in auto)
qed

lemma held_reload: "wf p \<Longrightarrow> i \<in> held p \<Longrightarrow> store i x p = Inr p' \<Longrightarrow> load i p' = Inr x"
  using store_held [of p i x] by auto

end

lemma pool_store_eq:
  fixes p :: "'a mpool" and x :: 'a
  assumes "pool_wf p" and "i \<in> pool_held p"
  defines "p' \<equiv> p\<lparr>mp_cells := (mp_cells p)[i := Obj x]\<rparr>"
  shows "pool_store i x p = Inr p'" and "pool_wf p'" and "pool_free p' = pool_free p"
proof -
  have i: "i < length (mp_cells p)" "i \<notin> set (pool_free p)"
    using assms(2) by (auto simp: pool_held_def)
  then show "pool_store i x p = Inr p'" by (simp add: pool_store_def p'_def)
  have "pool_wf p' \<and> pool_free p' = pool_free p"
  proof (rule pool_wfI)
    show "free_chain (mp_cells p') (mp_free_head p') (pool_free p)"
      using assms(1) i by (simp add: p'_def pool_wf_def free_chain_update)
  qed (use assms(1) in \<open>simp_all add: p'_def pool_wf_def\<close>)
  then show "pool_wf p'" "pool_free p' = pool_free p" by auto
qed

lemma pool_release_eq:
  assumes "pool_wf p" and "i \<in> pool_held p"
  shows "pool_wf (pool_release i p)" and "pool_free (pool_release i p) = i # pool_free p"
proof -
  have i: "i < length (mp_cells p)" "i \<notin> set (pool_free p)" and w: "distinct (pool_free p)"
    "free_chain (mp_cells p) (mp_free_head p) (pool_free p)" "length (mp_cells p) < 2 ^ 64"
    using assms by (auto simp: pool_held_def pool_wf_def)
  have "length (i # pool_free p) \<le> length (mp_cells p)"
  proof -
    have "card (set (i # pool_free p)) \<le> card {0..<length (mp_cells p)}"
      using free_chain_bounds [OF w(2)] i by (intro card_mono) auto
    then show ?thesis using w(1) i by (simp add: distinct_card)
  qed
  then have "unat (mp_available p + 1) = length (i # pool_free p)"
    using assms(1) w(3) unat_Suc_u64 [of "mp_available p"] by (simp add: pool_wf_def)
  moreover have "free_chain (mp_cells (pool_release i p)) (Some i) (i # pool_free p)"
    using i w(2) by (simp add: pool_release_def free_chain_update)
  ultimately have "pool_wf (pool_release i p) \<and> pool_free (pool_release i p) = i # pool_free p"
    using i w by (intro pool_wfI) (simp_all add: pool_release_def)
  then show "pool_wf (pool_release i p)" "pool_free (pool_release i p) = i # pool_free p" by auto
qed

lemma pool_acquire_eq:
  assumes "pool_wf p" and "pool_free p = i # is"
  shows "\<exists>p'. pool_acquire p = Inr (p', Some i) \<and> pool_wf p' \<and> pool_free p' = is
    \<and> mp_cells p' = mp_cells p"
proof -
  from assms obtain n where n: "mp_free_head p = Some i" "i < length (mp_cells p)"
    "mp_cells p ! i = Link n" "free_chain (mp_cells p) n is"
    by (auto simp: pool_wf_def split: cell.splits)
  let ?p = "p\<lparr>mp_free_head := n, mp_available := mp_available p - 1\<rparr>"
  have "unat (mp_available p) = Suc (length is)" using assms by (simp add: pool_wf_def)
  then have "unat (mp_available p - 1) = length is"
    using unat_minus_one [of "mp_available p"] by (metis diff_Suc_1 nat.distinct(1) unat_0)
  then have "pool_wf ?p \<and> pool_free ?p = is"
    using assms n by (intro pool_wfI) (auto simp: pool_wf_def)
  then show ?thesis using n by (simp add: pool_acquire_def)
qed

interpretation mp: slot_pool pool_acquire pool_release pool_store pool_load pool_held
  "\<lambda>p. length (pool_free p)" pool_wf
proof unfold_locales
  fix p :: "'a mpool" and i x
  assume wf: "pool_wf p"
  show "pool_acquire p = Inr (p, None)" if "length (pool_free p) = 0"
  proof -
    have "mp_free_head p = None" using that pool_free_Nil [OF wf] by simp
    then show ?thesis by (simp add: pool_acquire_def)
  qed
  show "\<exists>p' i. pool_acquire p = Inr (p', Some i) \<and> pool_wf p' \<and> i \<notin> pool_held p
      \<and> pool_held p' = insert i (pool_held p) \<and> length (pool_free p') = length (pool_free p) - 1
      \<and> (\<forall>j\<in>pool_held p. pool_load j p' = pool_load j p)" if "0 < length (pool_free p)"
  proof -
    from that obtain i "is" where f: "pool_free p = i # is" by (cases "pool_free p") auto
    from pool_acquire_eq [OF wf f] obtain p' where p': "pool_acquire p = Inr (p', Some i)"
      "pool_wf p'" "pool_free p' = is" "mp_cells p' = mp_cells p" by blast
    moreover have "i < length (mp_cells p)" "i \<notin> set is"
      using wf f by (auto simp: pool_wf_def)
    ultimately show ?thesis using f
      by (intro exI [of _ p'] exI [of _ i]) (auto simp: pool_held_def pool_load_def)
  qed
  assume held: "i \<in> pool_held p"
  show "\<exists>p'. pool_store i x p = Inr p' \<and> pool_wf p' \<and> pool_held p' = pool_held p
      \<and> length (pool_free p') = length (pool_free p) \<and> pool_load i p' = Inr x
      \<and> (\<forall>j\<in>pool_held p. j \<noteq> i \<longrightarrow> pool_load j p' = pool_load j p)"
    using pool_store_eq [OF wf held, of x] held
    by (auto simp: pool_held_def pool_load_def)
  show "pool_wf (pool_release i p) \<and> pool_held (pool_release i p) = pool_held p - {i}
      \<and> length (pool_free (pool_release i p)) = length (pool_free p) + 1
      \<and> (\<forall>j\<in>pool_held p. j \<noteq> i \<longrightarrow> pool_load j (pool_release i p) = pool_load j p)"
    using pool_release_eq [OF wf held] held
    by (auto simp: pool_held_def pool_load_def pool_release_def)
qed

lemma pool_held_card: "pool_wf p \<Longrightarrow> card (pool_held p) + length (pool_free p) = pool_capacity p"
proof -
  assume wf: "pool_wf p"
  then have s: "set (pool_free p) \<subseteq> {0..<length (mp_cells p)}" "distinct (pool_free p)"
    by (auto simp: pool_wf_def dest: free_chain_bounds)
  then have "card (pool_held p) = length (mp_cells p) - length (pool_free p)"
    by (simp add: pool_held_def card_Diff_subset distinct_card)
  moreover have "length (pool_free p) \<le> length (mp_cells p)"
    using wf by (auto simp: pool_wf_def intro: distinct_chain_length)
  ultimately show ?thesis by (simp add: pool_capacity_def)
qed

end
