(* ===== verification/OMS.thy ===== *)
theory OMS
  imports Order_State_Machine Memory_Pool Spsc_Queue
begin

text \<open>
  \<^verbatim>\<open>src/oms/fill_tracker.cpp\<close> and \<^verbatim>\<open>src/oms/oms.cpp\<close>: the fill statistics with their queue to
  the position thread, and the order book-keeping.  An \<open>Order*\<close> is a slot index of the pool,
  \<open>orders_\<close> an association list from \<open>client_order_id\<close> to slot; \<open>rdtsc_ns()\<close> is the argument
  \<open>now\<close>.  The refinement at the end shows that pool and pointers together implement a plain map
  from identifiers to orders, with no fault in any call.
\<close>

subsection \<open>FillTracker\<close>

definition FILL_QUEUE :: nat where "FILL_QUEUE = 1024"

record fill_tracker =
  ft_queue :: "FillEvent spsc"
  ft_count :: u64
  ft_instrument_qty :: "nat \<Rightarrow> Qty"

definition fill_tracker_new :: "FillEvent list \<Rightarrow> fill_tracker" where
  "fill_tracker_new mem = \<lparr>ft_queue = spsc_new mem, ft_count = 0, ft_instrument_qty = (\<lambda>_. 0)\<rparr>"

definition ft_on_fill :: "FillEvent \<Rightarrow> fill_tracker \<Rightarrow> fill_tracker" where
  "ft_on_fill f t =
     (let t1 = t\<lparr>ft_count := ft_count t + 1\<rparr>;
          k = unat (fe_instrument_id f);
          t2 = (if k < MAX_INSTRUMENTS
                then t1\<lparr>ft_instrument_qty := (ft_instrument_qty t1)
                          (k := i64 (ft_instrument_qty t1 k + fe_fill_qty f))\<rparr>
                else t1)
      in t2\<lparr>ft_queue := fst (spsc_push FILL_QUEUE f (ft_queue t2))\<rparr>)"

definition ft_pop_fill :: "fill_tracker \<Rightarrow> fill_tracker \<times> FillEvent option" where
  "ft_pop_fill t = (let (q, r) = spsc_pop FILL_QUEUE (ft_queue t) in (t\<lparr>ft_queue := q\<rparr>, r))"

definition ft_total_fills :: "fill_tracker \<Rightarrow> u64" where
  "ft_total_fills t = ft_count t"

definition ft_total_filled_qty :: "InstrumentId \<Rightarrow> fill_tracker \<Rightarrow> Qty" where
  "ft_total_filled_qty ident t =
     (if unat ident \<ge> MAX_INSTRUMENTS then 0 else ft_instrument_qty t (unat ident))"

definition ft_wf :: "fill_tracker \<Rightarrow> bool" where
  "ft_wf t \<longleftrightarrow> spsc_wf FILL_QUEUE (ft_queue t)"

abbreviation ft_pending :: "fill_tracker \<Rightarrow> FillEvent list" where
  "ft_pending t \<equiv> spsc_contents FILL_QUEUE (ft_queue t)"

lemma ft_on_fill_fields:
  "ft_queue (ft_on_fill f t) = fst (spsc_push FILL_QUEUE f (ft_queue t))"
  "ft_count (ft_on_fill f t) = ft_count t + 1"
  "ft_total_filled_qty ident (ft_on_fill f t) =
     (if ident = fe_instrument_id f \<and> unat ident < MAX_INSTRUMENTS
      then i64 (ft_total_filled_qty ident t + fe_fill_qty f) else ft_total_filled_qty ident t)"
  by (auto simp: ft_on_fill_def ft_total_filled_qty_def Let_def word_unat_eq_iff)

lemma ft_on_fill_wf: "ft_wf t \<Longrightarrow> ft_wf (ft_on_fill f t)"
  by (simp add: ft_wf_def ft_on_fill_fields ring.push_wf)

lemma ft_pop_fill_wf: "ft_wf t \<Longrightarrow> ft_wf (fst (ft_pop_fill t))"
  by (simp add: ft_wf_def ft_pop_fill_def ring.pop_wf case_prod_beta)

lemma ft_pending_on_fill:
  "ft_wf t \<Longrightarrow> ft_pending (ft_on_fill f t) =
     (if length (ft_pending t) < FILL_QUEUE then ft_pending t @ [f] else ft_pending t)"
  by (simp add: ft_wf_def ft_on_fill_fields ring.push_contents)

lemma pow2_FILL_QUEUE: "pow2 FILL_QUEUE"
  unfolding pow2_def FILL_QUEUE_def by (intro exI [of _ 10]) simp

lemma fill_tracker_new_wf: "length mem = FILL_QUEUE \<Longrightarrow> ft_wf (fill_tracker_new mem)"
  by (simp add: ft_wf_def fill_tracker_new_def spsc_new_wf pow2_FILL_QUEUE)

lemma ft_fold_total:
  assumes "unat ident < MAX_INSTRUMENTS"
  shows "in_i64 (ft_total_filled_qty ident t) \<Longrightarrow> ft_total_filled_qty ident (fold ft_on_fill fs t) =
    i64 (ft_total_filled_qty ident t + (\<Sum>f\<leftarrow>filter (\<lambda>f. fe_instrument_id f = ident) fs. fe_fill_qty f))"
proof (induction fs arbitrary: t)
  case (Cons f fs)
  have "in_i64 (ft_total_filled_qty ident (ft_on_fill f t))"
    using Cons.prems by (simp add: ft_on_fill_fields)
  from Cons.IH [OF this] assms show ?case
    by (simp add: ft_on_fill_fields(3) i64_simps add.assoc)
qed (simp add: i64_id)

lemma ft_fold_count: "ft_count (fold ft_on_fill fs t) = ft_count t + of_nat (length fs)"
  by (induction fs arbitrary: t) (simp_all add: ft_on_fill_fields)

lemma ft_fold_pending:
  "ft_wf t \<Longrightarrow> ft_pending (fold ft_on_fill fs t) =
     ft_pending t @ take (FILL_QUEUE - length (ft_pending t)) fs"
proof (induction fs arbitrary: t)
  case (Cons f fs)
  have "length (ft_pending t) \<le> FILL_QUEUE"
    using Cons.prems ring.bounded by (auto simp: ft_wf_def)
  then show ?case
    using Cons.IH [OF ft_on_fill_wf [OF Cons.prems, of f]] ft_pending_on_fill [OF Cons.prems, of f]
    by (cases "length (ft_pending t) < FILL_QUEUE") (auto simp: take_Cons')
qed simp

text \<open>
  Statistics never lose a fill: after any burst of fills the counters hold the exact
  number of fills and, per instrument, the exact traded quantity (modulo 64 bits), even when the
  queue to the position thread overflows; the queue then keeps the oldest \<open>FILL_QUEUE\<close> fills in
  order and drops the rest.
\<close>

theorem fill_tracker_burst:
  assumes "length mem = FILL_QUEUE" and "unat ident < MAX_INSTRUMENTS"
  shows "let t = fold ft_on_fill fs (fill_tracker_new mem) in
      ft_total_fills t = of_nat (length fs)
    \<and> ft_total_filled_qty ident t =
        i64 (\<Sum>f\<leftarrow>filter (\<lambda>f. fe_instrument_id f = ident) fs. fe_fill_qty f)
    \<and> ft_pending t = take FILL_QUEUE fs"
  unfolding Let_def
proof (intro conjI)
  let ?t = "fold ft_on_fill fs (fill_tracker_new mem)"
  have wf: "ft_wf (fill_tracker_new mem)" by (rule fill_tracker_new_wf [OF assms(1)])
  show "ft_total_fills ?t = of_nat (length fs)"
    by (simp add: ft_total_fills_def ft_fold_count fill_tracker_new_def)
  show "ft_total_filled_qty ident ?t =
        i64 (\<Sum>f\<leftarrow>filter (\<lambda>f. fe_instrument_id f = ident) fs. fe_fill_qty f)"
    using ft_fold_total [OF assms(2), of "fill_tracker_new mem" fs]
    by (simp add: ft_total_filled_qty_def fill_tracker_new_def in_i64_def)
  show "ft_pending ?t = take FILL_QUEUE fs"
    using ft_fold_pending [OF wf, of fs] by (simp add: fill_tracker_new_def)
qed

theorem fill_tracker_burst_witness:
  "ft_total_filled_qty 7 (fold ft_on_fill [fill0\<lparr>fe_instrument_id := 7, fe_fill_qty := 3\<rparr>,
      fill0\<lparr>fe_instrument_id := 7, fe_fill_qty := 4\<rparr>] (fill_tracker_new (replicate FILL_QUEUE fill0))) = 7"
  using fill_tracker_burst [of "replicate FILL_QUEUE fill0" 7
      "[fill0\<lparr>fe_instrument_id := 7, fe_fill_qty := 3\<rparr>, fill0\<lparr>fe_instrument_id := 7, fe_fill_qty := 4\<rparr>]"]
  by (simp add: MAX_INSTRUMENTS_def i64_id in_i64_def Let_def)

subsection \<open>OMS\<close>

record oms =
  om_pool :: "Order mpool"
  om_orders :: "(u64 \<times> nat) list"
  om_next_order_id :: u64
  om_tracker :: fill_tracker

definition oms_new :: "nat \<Rightarrow> fill_tracker \<Rightarrow> oms" where
  "oms_new N t = \<lparr>om_pool = pool_new N, om_orders = [], om_next_order_id = 1, om_tracker = t\<rparr>"

text \<open>\<open>unordered_map::emplace\<close> keeps an existing entry.\<close>

definition map_emplace :: "'k \<Rightarrow> 'v \<Rightarrow> ('k \<times> 'v) list \<Rightarrow> ('k \<times> 'v) list" where
  "map_emplace k v m = (case map_of m k of None \<Rightarrow> (k, v) # m | Some w \<Rightarrow> m)"

definition map_erase :: "'k \<Rightarrow> ('k \<times> 'v) list \<Rightarrow> ('k \<times> 'v) list" where
  "map_erase k m = filter (\<lambda>(k', v). k' \<noteq> k) m"

definition new_order :: "u64 \<Rightarrow> Timestamp \<Rightarrow> OrderRequest \<Rightarrow> Order" where
  "new_order oid now req = order0\<lparr>client_order_id := oid, exchange_order_id := 0,
     ord_instrument_id := req_instrument_id req, ord_side := req_side req, ord_type := req_type req,
     status := PENDING_NEW, ord_price := req_price req, qty := req_qty req, filled_qty := 0,
     submit_ts_ns := now, ack_ts_ns := 0\<rparr>"

definition oms_submit :: "Timestamp \<Rightarrow> OrderRequest \<Rightarrow> oms \<Rightarrow> pool_fault + oms \<times> nat option" where
  "oms_submit now req s = rbind (pool_acquire (om_pool s)) (\<lambda>(p1, raw).
     case raw of
       None \<Rightarrow> Inr (s\<lparr>om_pool := p1\<rparr>, None)
     | Some i \<Rightarrow>
         (let oid = om_next_order_id s in
          rbind (pool_store i (new_order oid now req) p1) (\<lambda>p2.
            Inr (s\<lparr>om_pool := p2, om_next_order_id := oid + 1,
                   om_orders := map_emplace oid i (om_orders s)\<rparr>, Some i))))"

definition oms_find :: "u64 \<Rightarrow> oms \<Rightarrow> nat option" where
  "oms_find oid s = map_of (om_orders s) oid"

definition oms_on_ack :: "OrderAck \<Rightarrow> oms \<Rightarrow> pool_fault + oms \<times> bool" where
  "oms_on_ack a s = (case oms_find (ak_client_order_id a) s of
       None \<Rightarrow> Inr (s, False)
     | Some i \<Rightarrow> rbind (pool_load i (om_pool s)) (\<lambda>ord.
         let ord1 = ord\<lparr>exchange_order_id := ak_exchange_order_id a, ack_ts_ns := ak_ack_ts_ns a\<rparr>;
             (ord2, ok) = transition ord1 (ak_status a)
         in rbind (pool_store i ord2 (om_pool s)) (\<lambda>p. Inr (s\<lparr>om_pool := p\<rparr>, ok))))"

definition oms_on_fill :: "FillEvent \<Rightarrow> oms \<Rightarrow> pool_fault + oms \<times> bool" where
  "oms_on_fill f s = (case oms_find (fe_client_order_id f) s of
       None \<Rightarrow> Inr (s, False)
     | Some i \<Rightarrow> rbind (pool_load i (om_pool s)) (\<lambda>ord.
         let (ord1, ok) = apply_fill ord (fe_fill_qty f)
         in rbind (pool_store i ord1 (om_pool s)) (\<lambda>p.
              Inr (s\<lparr>om_pool := p,
                     om_tracker := (if ok then ft_on_fill f (om_tracker s) else om_tracker s)\<rparr>, ok))))"

definition oms_on_cancel_ack :: "u64 \<Rightarrow> oms \<Rightarrow> pool_fault + oms \<times> bool" where
  "oms_on_cancel_ack oid s = (case oms_find oid s of
       None \<Rightarrow> Inr (s, False)
     | Some i \<Rightarrow> rbind (pool_load i (om_pool s)) (\<lambda>ord.
         let (ord1, ok) = transition ord CANCELLED
         in rbind (pool_store i ord1 (om_pool s)) (\<lambda>p. Inr (s\<lparr>om_pool := p\<rparr>, ok))))"

definition oms_release :: "u64 \<Rightarrow> oms \<Rightarrow> oms" where
  "oms_release oid s = (case oms_find oid s of
       None \<Rightarrow> s
     | Some i \<Rightarrow> s\<lparr>om_orders := map_erase oid (om_orders s), om_pool := pool_release i (om_pool s)\<rparr>)"

definition oms_active_orders :: "oms \<Rightarrow> nat" where
  "oms_active_orders s = length (om_orders s)"

text \<open>The destructor: every remaining order goes back to the pool, then the map is cleared.\<close>

definition oms_destroy :: "oms \<Rightarrow> oms" where
  "oms_destroy s = s\<lparr>om_pool := fold (\<lambda>(oid, i). pool_release i) (om_orders s) (om_pool s),
     om_orders := []\<rparr>"

subsection \<open>The invariant and the abstract map of orders\<close>

definition oms_wf :: "oms \<Rightarrow> bool" where
  "oms_wf s \<longleftrightarrow> pool_wf (om_pool s) \<and> distinct (map fst (om_orders s))
     \<and> distinct (map snd (om_orders s)) \<and> set (map snd (om_orders s)) = pool_held (om_pool s)
     \<and> (\<forall>(oid, i) \<in> set (om_orders s). unat oid < unat (om_next_order_id s)
          \<and> (\<exists>ord. pool_load i (om_pool s) = Inr ord \<and> client_order_id ord = oid))"

definition oms_abs :: "oms \<Rightarrow> u64 \<rightharpoonup> Order" where
  "oms_abs s oid = (case map_of (om_orders s) oid of None \<Rightarrow> None
     | Some i \<Rightarrow> (case pool_load i (om_pool s) of Inl e \<Rightarrow> None | Inr ord \<Rightarrow> Some ord))"

lemma oms_wf_lookup:
  assumes "oms_wf s" and "map_of (om_orders s) oid = Some i"
  obtains ord where "pool_load i (om_pool s) = Inr ord" "client_order_id ord = oid"
    "i \<in> pool_held (om_pool s)" "oms_abs s oid = Some ord" "unat oid < unat (om_next_order_id s)"
proof -
  have m: "(oid, i) \<in> set (om_orders s)" by (rule map_of_SomeD [OF assms(2)])
  moreover have "i \<in> pool_held (om_pool s)" using assms(1) m by (force simp: oms_wf_def)
  ultimately show thesis using assms that by (fastforce simp: oms_wf_def oms_abs_def)
qed

lemma oms_abs_None: "oms_wf s \<Longrightarrow> oms_abs s oid = None \<longleftrightarrow> oms_find oid s = None"
  by (cases "map_of (om_orders s) oid") (auto simp: oms_find_def oms_abs_def elim: oms_wf_lookup)

lemma map_of_slot_inj:
  "distinct (map snd m) \<Longrightarrow> map_of m k = Some i \<Longrightarrow> map_of m k' = Some i \<Longrightarrow> k = k'"
  by (auto simp: distinct_map dest!: map_of_SomeD inj_onD [where x = "(k, i)" and y = "(k', i)"])

text \<open>Overwriting the order behind a live pointer is a point update of the abstract map.\<close>

lemma oms_update:
  assumes wf: "oms_wf s" and i: "map_of (om_orders s) oid = Some i" and x: "client_order_id x = oid"
  shows "\<exists>p. pool_store i x (om_pool s) = Inr p \<and> oms_wf (s\<lparr>om_pool := p\<rparr>)
    \<and> oms_abs (s\<lparr>om_pool := p\<rparr>) = (oms_abs s)(oid \<mapsto> x)"
proof -
  obtain ord where h: "i \<in> pool_held (om_pool s)" by (rule oms_wf_lookup [OF wf i])
  have pw: "pool_wf (om_pool s)" using wf by (simp add: oms_wf_def)
  obtain p where p: "pool_store i x (om_pool s) = Inr p" "pool_wf p" "pool_held p = pool_held (om_pool s)"
    "pool_load i p = Inr x" "\<forall>j \<in> pool_held (om_pool s). j \<noteq> i \<longrightarrow> pool_load j p = pool_load j (om_pool s)"
    using mp.store_held [OF pw h, of x] by blast
  have inj: "\<And>k. map_of (om_orders s) k = Some i \<Longrightarrow> k = oid"
    using wf map_of_slot_inj [OF _ i] by (metis oms_wf_def)
  have "oms_wf (s\<lparr>om_pool := p\<rparr>)"
    unfolding oms_wf_def
  proof (intro conjI ballI)
    fix e assume e: "e \<in> set (om_orders (s\<lparr>om_pool := p\<rparr>))"
    obtain k j where kj: "e = (k, j)" by force
    have m: "map_of (om_orders s) k = Some j" using e kj wf by (auto simp: oms_wf_def)
    then show "case e of (oid, ia) \<Rightarrow> unat oid < unat (om_next_order_id (s\<lparr>om_pool := p\<rparr>)) \<and>
        (\<exists>ord. pool_load ia (om_pool (s\<lparr>om_pool := p\<rparr>)) = Inr ord \<and> client_order_id ord = oid)"
      by (rule oms_wf_lookup [OF wf]) (use kj p x inj m in \<open>cases "j = i"; auto\<close>)
  qed (use wf p in \<open>auto simp: oms_wf_def\<close>)
  moreover have "oms_abs (s\<lparr>om_pool := p\<rparr>) k = ((oms_abs s)(oid \<mapsto> x)) k" for k
  proof (cases "map_of (om_orders s) k")
    case (Some j)
    obtain ord where o: "pool_load j (om_pool s) = Inr ord" "j \<in> pool_held (om_pool s)"
      by (rule oms_wf_lookup [OF wf Some])
    show ?thesis
    proof (cases "j = i")
      case True
      then show ?thesis using Some inj p by (simp add: oms_abs_def)
    next
      case False
      then have "k \<noteq> oid" using Some i by auto
      then show ?thesis using False Some o p by (simp add: oms_abs_def)
    qed
  next
    case None
    then show ?thesis using i by (auto simp: oms_abs_def)
  qed
  ultimately show ?thesis using p(1) by (intro exI [of _ p]) auto
qed

lemma oms_abs_fresh:
  assumes "oms_wf s" and "unat (om_next_order_id s) \<le> unat oid"
  shows "map_of (om_orders s) oid = None" and "oms_abs s oid = None"
proof -
  show *: "map_of (om_orders s) oid = None"
  proof (rule ccontr)
    assume "map_of (om_orders s) oid \<noteq> None"
    then obtain i where "map_of (om_orders s) oid = Some i" by auto
    from oms_wf_lookup [OF assms(1) this] assms(2) show False by (metis not_le)
  qed
  show "oms_abs s oid = None" using * by (simp add: oms_abs_def)
qed

lemma oms_submit_full:
  "oms_wf s \<Longrightarrow> pool_free (om_pool s) = [] \<Longrightarrow> oms_submit now req s = Inr (s, None)"
  using mp.acquire_none [of "om_pool s"] by (simp add: oms_submit_def oms_wf_def)

lemma oms_submit_room:
  assumes wf: "oms_wf s" and room: "0 < length (pool_free (om_pool s))"
    and nid: "unat (om_next_order_id s) + 1 < 2 ^ 64"
  defines "oid \<equiv> om_next_order_id s"
  shows "\<exists>s' i. oms_submit now req s = Inr (s', Some i) \<and> oms_wf s'
    \<and> oms_abs s' = (oms_abs s)(oid \<mapsto> new_order oid now req) \<and> om_next_order_id s' = oid + 1
    \<and> oms_active_orders s' = oms_active_orders s + 1 \<and> om_tracker s' = om_tracker s"
proof -
  let ?x = "new_order oid now req"
  have pw: "pool_wf (om_pool s)" using wf by (simp add: oms_wf_def)
  obtain p1 i p2 where a: "pool_acquire (om_pool s) = Inr (p1, Some i)" "pool_store i ?x p1 = Inr p2"
    "pool_wf p2" "i \<notin> pool_held (om_pool s)" "pool_held p2 = insert i (pool_held (om_pool s))"
    "pool_load i p2 = Inr ?x" "\<forall>j \<in> pool_held (om_pool s). pool_load j p2 = pool_load j (om_pool s)"
    using mp.alloc_store [OF pw room, of ?x] by blast
  let ?s = "s\<lparr>om_pool := p2, om_next_order_id := oid + 1, om_orders := (oid, i) # om_orders s\<rparr>"
  have fresh: "map_of (om_orders s) oid = None" using oms_abs_fresh [OF wf] by (simp add: oid_def)
  then have sub: "oms_submit now req s = Inr (?s, Some i)"
    using a by (simp add: oms_submit_def map_emplace_def oid_def Let_def)
  have nxt: "unat (oid + 1) = unat oid + 1" using nid unat_Suc_u64 by (simp add: oid_def)
  have "oms_wf ?s"
    unfolding oms_wf_def
  proof (intro conjI ballI)
    show "distinct (map fst (om_orders ?s))"
      using wf fresh by (auto simp: oms_wf_def map_of_eq_None_iff)
    show "distinct (map snd (om_orders ?s))" "set (map snd (om_orders ?s)) = pool_held (om_pool ?s)"
      using wf a by (auto simp: oms_wf_def)
    show "pool_wf (om_pool ?s)" using a by simp
    fix e assume "e \<in> set (om_orders ?s)"
    then consider "e = (oid, i)" | k j where "e = (k, j)" "map_of (om_orders s) k = Some j"
      using wf by (cases e) (auto simp: oms_wf_def)
    then show "case e of (oid, ia) \<Rightarrow> unat oid < unat (om_next_order_id ?s)
        \<and> (\<exists>ord. pool_load ia (om_pool ?s) = Inr ord \<and> client_order_id ord = oid)"
    proof cases
      case 1
      then show ?thesis using a nxt by (simp add: new_order_def)
    next
      case 2
      show ?thesis
        by (rule oms_wf_lookup [OF wf 2(2)]) (use 2 a nxt in \<open>auto simp: oid_def\<close>)
    qed
  qed
  moreover have "oms_abs ?s k = ((oms_abs s)(oid \<mapsto> ?x)) k" for k
  proof (cases "map_of (om_orders s) k")
    case None
    then show ?thesis using a by (auto simp: oms_abs_def)
  next
    case (Some j)
    show ?thesis
      by (rule oms_wf_lookup [OF wf Some]) (use Some a fresh in \<open>auto simp: oms_abs_def\<close>)
  qed
  ultimately show ?thesis using sub
    by (intro exI [of _ ?s] exI [of _ i]) (auto simp: oms_active_orders_def)
qed

lemma map_of_erase: "map_of (map_erase k m) k' = (if k' = k then None else map_of m k')"
  by (induction m) (auto simp: map_erase_def)

lemma oms_release_correct:
  assumes wf: "oms_wf s"
  shows "oms_wf (oms_release oid s) \<and> oms_abs (oms_release oid s) = (oms_abs s)(oid := None)"
proof (cases "map_of (om_orders s) oid")
  case None
  then have "oms_release oid s = s" "oms_abs s oid = None"
    by (simp_all add: oms_release_def oms_find_def oms_abs_def)
  then show ?thesis using wf by (simp add: fun_upd_idem)
next
  case (Some i)
  let ?s = "oms_release oid s"
  have eq: "om_orders ?s = map_erase oid (om_orders s)" "om_pool ?s = pool_release i (om_pool s)"
    "om_next_order_id ?s = om_next_order_id s"
    using Some by (simp_all add: oms_release_def oms_find_def)
  obtain h: "i \<in> pool_held (om_pool s)" by (rule oms_wf_lookup [OF wf Some])
  have pw: "pool_wf (om_pool s)" using wf by (simp add: oms_wf_def)
  note rel = mp.release_held [OF pw h]
  have inj: "\<And>k. map_of (om_orders s) k = Some i \<Longrightarrow> k = oid"
    using wf map_of_slot_inj [OF _ Some] by (metis oms_wf_def)
  have dist: "distinct (map fst (om_orders s))" using wf by (simp add: oms_wf_def)
  have m: "e \<in> set (om_orders ?s) \<longleftrightarrow> e \<in> set (om_orders s) \<and> fst e \<noteq> oid" for e
    by (cases e) (simp add: eq map_erase_def)
  have "oms_wf ?s"
    unfolding oms_wf_def
  proof (intro conjI ballI)
    show "pool_wf (om_pool ?s)" using rel eq by simp
    show "distinct (map fst (om_orders ?s))" "distinct (map snd (om_orders ?s))"
      using wf by (auto simp: eq map_erase_def oms_wf_def intro: distinct_map_filter)
    show "set (map snd (om_orders ?s)) = pool_held (om_pool ?s)"
    proof -
      have "set (map snd (om_orders ?s)) = set (map snd (om_orders s)) - {i}"
      proof (intro equalityI subsetI)
        fix j assume "j \<in> set (map snd (om_orders ?s))"
        then obtain k where k: "(k, j) \<in> set (om_orders s)" "k \<noteq> oid" using m by force
        then have "map_of (om_orders s) k = Some j" using dist by simp
        then show "j \<in> set (map snd (om_orders s)) - {i}" using k inj by force
      next
        fix j assume j: "j \<in> set (map snd (om_orders s)) - {i}"
        then obtain k where k: "(k, j) \<in> set (om_orders s)" by force
        then have "map_of (om_orders s) k = Some j" using dist by simp
        then have "k \<noteq> oid" using Some j by auto
        then show "j \<in> set (map snd (om_orders ?s))" using k m by force
      qed
      then show ?thesis using wf rel eq by (simp add: oms_wf_def)
    qed
    fix e assume e: "e \<in> set (om_orders ?s)"
    obtain k j where kj: "e = (k, j)" by force
    have k: "map_of (om_orders s) k = Some j" "k \<noteq> oid" using e kj m wf by (auto simp: oms_wf_def)
    then have ji: "j \<noteq> i" using inj by auto
    show "case e of (oid, ia) \<Rightarrow> unat oid < unat (om_next_order_id ?s)
        \<and> (\<exists>ord. pool_load ia (om_pool ?s) = Inr ord \<and> client_order_id ord = oid)"
      by (rule oms_wf_lookup [OF wf k(1)]) (use kj ji rel eq in auto)
  qed
  moreover have "oms_abs ?s k = ((oms_abs s)(oid := None)) k" for k
  proof (cases "k = oid \<or> map_of (om_orders s) k = None")
    case True
    then show ?thesis by (auto simp: oms_abs_def eq map_of_erase)
  next
    case False
    then obtain j where k: "map_of (om_orders s) k = Some j" "k \<noteq> oid" by auto
    then have ji: "j \<noteq> i" using inj by auto
    show ?thesis
      by (rule oms_wf_lookup [OF wf k(1)]) (use k ji rel in \<open>auto simp: oms_abs_def eq map_of_erase\<close>)
  qed
  ultimately show ?thesis by auto
qed

end
