(* ===== verification/OMS_Refinement.thy ===== *)
theory OMS_Refinement
  imports OMS
begin

text \<open>
  The abstract order book-keeping (a map from identifiers to orders with a capacity and a next
  identifier) and the refinement: every call of \<^verbatim>\<open>OMS\<close> (\<^verbatim>\<open>src/oms/oms.cpp\<close>) runs without a
  memory fault and acts on the abstraction as the specification says.
\<close>

subsection \<open>Calls, and the specification\<close>

datatype oms_call =
    Submit Timestamp OrderRequest | Ack OrderAck | Fill FillEvent | CancelAck u64 | Release u64

text \<open>One call of the implementation, with the success the caller sees (\<open>submit\<close>: non-null).\<close>

fun oms_step :: "oms_call \<Rightarrow> oms \<Rightarrow> pool_fault + oms \<times> bool" where
  "oms_step (Submit now req) s = rbind (oms_submit now req s) (\<lambda>(s', r). Inr (s', r \<noteq> None))"
| "oms_step (Ack a) s = oms_on_ack a s"
| "oms_step (Fill f) s = oms_on_fill f s"
| "oms_step (CancelAck oid) s = oms_on_cancel_ack oid s"
| "oms_step (Release oid) s = Inr (oms_release oid s, True)"

fun oms_steps :: "oms_call list \<Rightarrow> oms \<Rightarrow> pool_fault + oms \<times> bool list" where
  "oms_steps [] s = Inr (s, [])"
| "oms_steps (c # cs) s = rbind (oms_step c s) (\<lambda>(s1, ok).
     rbind (oms_steps cs s1) (\<lambda>(s2, oks). Inr (s2, ok # oks)))"

type_synonym oms_spec = "(u64 \<rightharpoonup> Order) \<times> u64"

definition spec_update :: "u64 \<Rightarrow> (Order \<Rightarrow> Order \<times> bool) \<Rightarrow> oms_spec \<Rightarrow> oms_spec \<times> bool" where
  "spec_update oid f m = (case fst m oid of None \<Rightarrow> (m, False)
     | Some ord \<Rightarrow> (((fst m)(oid \<mapsto> fst (f ord)), snd m), snd (f ord)))"

definition ack_order :: "OrderAck \<Rightarrow> Order \<Rightarrow> Order \<times> bool" where
  "ack_order a ord = transition (ord\<lparr>exchange_order_id := ak_exchange_order_id a,
     ack_ts_ns := ak_ack_ts_ns a\<rparr>) (ak_status a)"

fun spec_step :: "nat \<Rightarrow> oms_call \<Rightarrow> oms_spec \<Rightarrow> oms_spec \<times> bool" where
  "spec_step cap (Submit now req) m =
     (if card (dom (fst m)) < cap
      then (((fst m)(snd m \<mapsto> new_order (snd m) now req), snd m + 1), True) else (m, False))"
| "spec_step cap (Ack a) m = spec_update (ak_client_order_id a) (ack_order a) m"
| "spec_step cap (Fill f) m =
     spec_update (fe_client_order_id f) (\<lambda>ord. apply_fill ord (fe_fill_qty f)) m"
| "spec_step cap (CancelAck oid) m = spec_update oid (\<lambda>ord. transition ord CANCELLED) m"
| "spec_step cap (Release oid) m = (((fst m)(oid := None), snd m), True)"

fun spec_steps :: "nat \<Rightarrow> oms_call list \<Rightarrow> oms_spec \<Rightarrow> oms_spec \<times> bool list" where
  "spec_steps cap [] m = (m, [])"
| "spec_steps cap (c # cs) m =
     (let (m1, ok) = spec_step cap c m; (m2, oks) = spec_steps cap cs m1 in (m2, ok # oks))"

definition oms_view :: "oms \<Rightarrow> oms_spec" where
  "oms_view s = (oms_abs s, om_next_order_id s)"

subsection \<open>Every call refines its specification\<close>

lemma oms_dom: "oms_wf s \<Longrightarrow> dom (oms_abs s) = set (map fst (om_orders s))"
proof -
  assume wf: "oms_wf s"
  have "oms_abs s k = None \<longleftrightarrow> map_of (om_orders s) k = None" for k
    using oms_abs_None [OF wf] by (simp add: oms_find_def)
  then show ?thesis by (auto simp: dom_def map_of_eq_None_iff)
qed

lemma oms_card_dom: "oms_wf s \<Longrightarrow> card (dom (oms_abs s)) = oms_active_orders s"
proof -
  assume wf: "oms_wf s"
  then have "card (set (map fst (om_orders s))) = length (map fst (om_orders s))"
    by (intro distinct_card) (simp add: oms_wf_def)
  then show ?thesis by (simp only: oms_dom [OF wf] oms_active_orders_def length_map)
qed

lemma oms_room: "oms_wf s \<Longrightarrow>
  oms_active_orders s + length (pool_free (om_pool s)) = pool_capacity (om_pool s)"
proof -
  assume wf: "oms_wf s"
  then have "card (pool_held (om_pool s)) = length (map snd (om_orders s))"
    unfolding oms_wf_def by (metis distinct_card)
  with wf pool_held_card [of "om_pool s"] show ?thesis
    by (simp add: oms_wf_def oms_active_orders_def)
qed

lemma oms_update_step:
  assumes "oms_wf s" and "map_of (om_orders s) oid = Some i"
    and frame: "\<And>ord. client_order_id (fst (f ord)) = client_order_id ord"
  shows "\<exists>ord p. pool_load i (om_pool s) = Inr ord \<and> pool_store i (fst (f ord)) (om_pool s) = Inr p
    \<and> oms_wf (s\<lparr>om_pool := p\<rparr>)
    \<and> spec_update oid f (oms_view s) = (oms_view (s\<lparr>om_pool := p\<rparr>), snd (f ord))"
proof -
  obtain ord where ord: "pool_load i (om_pool s) = Inr ord" "client_order_id ord = oid"
    "oms_abs s oid = Some ord"
    by (rule oms_wf_lookup [OF assms(1,2)])
  have "client_order_id (fst (f ord)) = oid" using frame ord by simp
  from oms_update [OF assms(1,2) this] show ?thesis
    using ord by (auto simp: spec_update_def oms_view_def)
qed

lemma oms_missing: "oms_wf s \<Longrightarrow> oms_find oid s = None \<Longrightarrow> spec_update oid f (oms_view s) = (oms_view s, False)"
proof -
  assume "oms_wf s" and "oms_find oid s = None"
  then have "oms_abs s oid = None" by (simp add: oms_abs_None)
  then show ?thesis by (simp add: spec_update_def oms_view_def)
qed

lemma oms_wf_tracker [simp]: "oms_wf (s\<lparr>om_tracker := t\<rparr>) = oms_wf s"
  by (simp add: oms_wf_def)

lemma oms_view_tracker [simp]: "oms_view (s\<lparr>om_tracker := t\<rparr>) = oms_view s"
proof -
  have "oms_abs (s\<lparr>om_tracker := t\<rparr>) = oms_abs s"
    by (rule ext) (simp add: oms_abs_def split: option.split)
  then show ?thesis by (simp add: oms_view_def)
qed

lemma ack_order_frame: "client_order_id (fst (ack_order a ord)) = client_order_id ord"
  by (simp add: ack_order_def transition_frame)

lemma oms_on_ack_refines:
  assumes "oms_wf s"
  shows "\<exists>s' ok. oms_on_ack a s = Inr (s', ok) \<and> oms_wf s'
    \<and> spec_step cap (Ack a) (oms_view s) = (oms_view s', ok)"
proof (cases "oms_find (ak_client_order_id a) s")
  case None
  show ?thesis
    by (intro exI [of _ s] exI [of _ False])
      (simp add: oms_on_ack_def None assms oms_missing [OF assms None])
next
  case (Some i)
  from oms_update_step [OF assms Some [unfolded oms_find_def] ack_order_frame [of a]]
  show ?thesis using Some
    by (auto simp: oms_on_ack_def Let_def ack_order_def [symmetric] case_prod_beta)
qed

lemma oms_on_fill_refines:
  assumes "oms_wf s"
  shows "\<exists>s' ok. oms_on_fill f s = Inr (s', ok) \<and> oms_wf s'
    \<and> spec_step cap (Fill f) (oms_view s) = (oms_view s', ok)
    \<and> om_tracker s' = (if ok then ft_on_fill f (om_tracker s) else om_tracker s)"
proof (cases "oms_find (fe_client_order_id f) s")
  case None
  show ?thesis
    by (intro exI [of _ s] exI [of _ False])
      (simp add: oms_on_fill_def None assms oms_missing [OF assms None])
next
  case (Some i)
  from oms_update_step [OF assms Some [unfolded oms_find_def],
      of "\<lambda>ord. apply_fill ord (fe_fill_qty f)"]
  obtain ord p where h: "pool_load i (om_pool s) = Inr ord"
    "pool_store i (fst (apply_fill ord (fe_fill_qty f))) (om_pool s) = Inr p"
    "oms_wf (s\<lparr>om_pool := p\<rparr>)"
    "spec_update (fe_client_order_id f) (\<lambda>ord. apply_fill ord (fe_fill_qty f)) (oms_view s) =
       (oms_view (s\<lparr>om_pool := p\<rparr>), snd (apply_fill ord (fe_fill_qty f)))"
    by (auto simp: apply_fill_frame)
  let ?ok = "snd (apply_fill ord (fe_fill_qty f))"
  let ?s = "s\<lparr>om_pool := p, om_tracker := (if ?ok then ft_on_fill f (om_tracker s) else om_tracker s)\<rparr>"
  have "oms_on_fill f s = Inr (?s, ?ok)"
    using Some h by (simp add: oms_on_fill_def Let_def case_prod_beta)
  moreover have "oms_wf ?s" "oms_view ?s = oms_view (s\<lparr>om_pool := p\<rparr>)"
    using oms_wf_tracker [where s = "s\<lparr>om_pool := p\<rparr>"]
      oms_view_tracker [where s = "s\<lparr>om_pool := p\<rparr>"] h(3)
    by simp_all
  ultimately show ?thesis using h(4) by auto
qed

lemma oms_on_cancel_ack_refines:
  assumes "oms_wf s"
  shows "\<exists>s' ok. oms_on_cancel_ack oid s = Inr (s', ok) \<and> oms_wf s'
    \<and> spec_step cap (CancelAck oid) (oms_view s) = (oms_view s', ok)"
proof (cases "oms_find oid s")
  case None
  show ?thesis
    by (intro exI [of _ s] exI [of _ False])
      (simp add: oms_on_cancel_ack_def None assms oms_missing [OF assms None])
next
  case (Some i)
  from oms_update_step [OF assms Some [unfolded oms_find_def], of "\<lambda>ord. transition ord CANCELLED"]
  show ?thesis using Some
    by (auto simp: oms_on_cancel_ack_def Let_def case_prod_beta transition_frame)
qed

lemma oms_submit_refines:
  assumes "oms_wf s" and "unat (om_next_order_id s) + 1 < 2 ^ 64"
  shows "\<exists>s' r. oms_submit now req s = Inr (s', r) \<and> oms_wf s'
    \<and> spec_step (pool_capacity (om_pool s)) (Submit now req) (oms_view s) = (oms_view s', r \<noteq> None)"
proof (cases "pool_free (om_pool s) = []")
  case True
  then show ?thesis
    using oms_submit_full [OF assms(1) True] assms(1) oms_room [OF assms(1)] oms_card_dom [OF assms(1)]
    by (simp add: oms_view_def)
next
  case False
  then obtain s' i where s': "oms_submit now req s = Inr (s', Some i)" "oms_wf s'"
    "oms_abs s' = (oms_abs s)(om_next_order_id s \<mapsto> new_order (om_next_order_id s) now req)"
    "om_next_order_id s' = om_next_order_id s + 1"
    using oms_submit_room [OF assms(1) _ assms(2)] by blast
  moreover have "card (dom (oms_abs s)) < pool_capacity (om_pool s)"
    using False oms_room [OF assms(1)] oms_card_dom [OF assms(1)] by (cases "pool_free (om_pool s)") auto
  ultimately show ?thesis by (simp add: oms_view_def)
qed

lemma oms_step_refines:
  assumes "oms_wf s" and "unat (om_next_order_id s) + 1 < 2 ^ 64"
  shows "\<exists>s' ok. oms_step c s = Inr (s', ok) \<and> oms_wf s'
    \<and> spec_step (pool_capacity (om_pool s)) c (oms_view s) = (oms_view s', ok)"
proof (cases c)
  case (Submit now req)
  then show ?thesis using oms_submit_refines [OF assms, of now req] by auto
next
  case (Ack a)
  then show ?thesis using oms_on_ack_refines [OF assms(1), of a] by simp
next
  case (Fill f)
  then show ?thesis
    using oms_on_fill_refines [OF assms(1), of f "pool_capacity (om_pool s)"] by auto
next
  case (CancelAck oid)
  then show ?thesis using oms_on_cancel_ack_refines [OF assms(1), of oid] by simp
next
  case (Release oid)
  then show ?thesis using oms_release_correct [OF assms(1), of oid]
    by (auto simp: oms_view_def oms_release_def split: option.splits)
qed

subsection \<open>Runs\<close>

lemma pool_ops_capacity:
  "pool_acquire p = Inr (p', r) \<Longrightarrow> pool_capacity p' = pool_capacity p"
  "pool_store i x p = Inr p' \<Longrightarrow> pool_capacity p' = pool_capacity p"
  "pool_capacity (pool_release i p) = pool_capacity p"
  by (auto simp: pool_acquire_def pool_store_def pool_release_def pool_capacity_def
      split: option.splits if_splits cell.splits)

definition oms_kept :: "oms \<Rightarrow> oms \<Rightarrow> bool" where
  "oms_kept s s' \<longleftrightarrow> pool_capacity (om_pool s') = pool_capacity (om_pool s)
     \<and> unat (om_next_order_id s') \<le> unat (om_next_order_id s) + 1"

lemma oms_on_ack_kept: "oms_on_ack a s = Inr (s', ok) \<Longrightarrow> oms_kept s s'"
  by (simp add: oms_on_ack_def rbind_Inr_iff Let_def case_prod_beta split: option.splits)
    (auto simp: oms_kept_def pool_ops_capacity)

lemma oms_on_fill_kept: "oms_on_fill a s = Inr (s', ok) \<Longrightarrow> oms_kept s s'"
  by (simp add: oms_on_fill_def rbind_Inr_iff Let_def case_prod_beta split: option.splits)
    (auto simp: oms_kept_def pool_ops_capacity)

lemma oms_on_cancel_ack_kept: "oms_on_cancel_ack a s = Inr (s', ok) \<Longrightarrow> oms_kept s s'"
  by (simp add: oms_on_cancel_ack_def rbind_Inr_iff Let_def case_prod_beta split: option.splits)
    (auto simp: oms_kept_def pool_ops_capacity)

lemma oms_release_kept: "oms_kept s (oms_release oid s)"
  by (simp add: oms_kept_def oms_release_def pool_ops_capacity split: option.splits)

lemma oms_submit_kept: "oms_submit now req s = Inr (s', r) \<Longrightarrow> oms_kept s s'"
proof -
  have "unat (om_next_order_id s + 1) \<le> unat (om_next_order_id s) + 1"
    by (simp add: unat_word_ariths)
  moreover assume "oms_submit now req s = Inr (s', r)"
  ultimately show ?thesis
    by (simp add: oms_submit_def rbind_Inr_iff Let_def case_prod_beta)
      (auto simp: oms_kept_def rbind_Inr_iff pool_ops_capacity split: option.splits)
qed

lemma oms_step_capacity: "oms_step c s = Inr (s', ok) \<Longrightarrow> oms_kept s s'"
  by (cases c) (auto simp: rbind_Inr_iff oms_on_ack_kept oms_on_fill_kept oms_on_cancel_ack_kept
      oms_release_kept oms_submit_kept)

lemma oms_steps_refine:
  "oms_wf s \<Longrightarrow> unat (om_next_order_id s) + length cs < 2 ^ 64 \<Longrightarrow>
   \<exists>s' oks. oms_steps cs s = Inr (s', oks) \<and> oms_wf s'
     \<and> spec_steps (pool_capacity (om_pool s)) cs (oms_view s) = (oms_view s', oks)"
proof (induction cs arbitrary: s)
  case (Cons c cs)
  from Cons.prems obtain s1 ok where s1: "oms_step c s = Inr (s1, ok)" "oms_wf s1"
    "spec_step (pool_capacity (om_pool s)) c (oms_view s) = (oms_view s1, ok)"
    using oms_step_refines [of s c] by auto
  have c1: "pool_capacity (om_pool s1) = pool_capacity (om_pool s)"
    "unat (om_next_order_id s1) + length cs < 2 ^ 64"
    using oms_step_capacity [OF s1(1)] Cons.prems(2) by (auto simp: oms_kept_def)
  from Cons.IH [OF s1(2) c1(2)] obtain s2 oks where s2: "oms_steps cs s1 = Inr (s2, oks)" "oms_wf s2"
    "spec_steps (pool_capacity (om_pool s1)) cs (oms_view s1) = (oms_view s2, oks)" by auto
  show ?case using s1 s2 c1 by simp
qed simp

lemma oms_new_wf:
  assumes "0 < N" and "N < 2 ^ 64"
  shows "oms_wf (oms_new N t)" and "oms_view (oms_new N t) = (Map.empty, 1)"
    and "pool_capacity (om_pool (oms_new N t)) = N"
proof -
  note p = pool_new_wf [OF assms, where 'a = Order]
  show "oms_wf (oms_new N t)"
    using p by (simp add: oms_wf_def oms_new_def pool_held_def pool_new_def)
  show "oms_view (oms_new N t) = (Map.empty, 1)"
    by (auto simp: oms_view_def oms_new_def oms_abs_def)
  show "pool_capacity (om_pool (oms_new N t)) = N"
    by (simp add: oms_new_def pool_capacity_def pool_new_def)
qed

text \<open>
  Claim C14.  Memory safety and functional correctness of the OMS: from construction, any
  sequence of calls (fewer than \<open>2 ^ 64 - 1\<close>) runs without ever dereferencing a null, dangling
  or wild \<open>Order*\<close> and without corrupting the pool's free list, and answers exactly as the
  abstract map of orders of capacity \<open>N\<close> does.
\<close>

theorem oms_refines_order_map:
  assumes "0 < N" and "N < 2 ^ 64" and "length cs < 2 ^ 64 - 1"
  shows "\<exists>s oks. oms_steps cs (oms_new N t) = Inr (s, oks)
    \<and> spec_steps N cs (Map.empty, 1) = (oms_view s, oks)"
proof -
  have "unat (om_next_order_id (oms_new N t)) + length cs < 2 ^ 64"
    using assms(3) by (simp add: oms_new_def)
  from oms_steps_refine [OF oms_new_wf(1) [OF assms(1,2)] this] show ?thesis
    using oms_new_wf(2,3) [OF assms(1,2)] by auto
qed

theorem oms_refines_order_map_witness:
  "\<exists>s oks. oms_steps [Submit 5 req0, Ack (ack0\<lparr>ak_client_order_id := 1\<rparr>), Release 1]
      (oms_new 2 (fill_tracker_new [])) = Inr (s, oks) \<and> oks = [True, True, True]"
proof -
  let ?cs = "[Submit 5 req0, Ack (ack0\<lparr>ak_client_order_id := 1\<rparr>), Release 1]"
  have "snd (spec_steps 2 ?cs (Map.empty, 1)) = [True, True, True]"
    by (simp add: spec_update_def ack_order_def transition_def transition_valid_def new_order_def
        ack0_def Let_def)
  with oms_refines_order_map [of 2 ?cs "fill_tracker_new []"] show ?thesis by fastforce
qed

text \<open>
  Claim C15.  No slot is leaked or shared: in every state the OMS reaches, the orders it tracks
  and the free slots of the pool add up to the pool's capacity, and distinct identifiers point
  to distinct slots.
\<close>

theorem oms_no_leak:
  assumes "0 < N" and "N < 2 ^ 64" and "length cs < 2 ^ 64 - 1"
    and "oms_steps cs (oms_new N t) = Inr (s, oks)"
  shows "oms_active_orders s + length (pool_free (om_pool s)) = N \<and> inj_on (map_of (om_orders s)) (dom (map_of (om_orders s)))"
proof -
  have n: "unat (om_next_order_id (oms_new N t)) + length cs < 2 ^ 64"
    using assms(3) by (simp add: oms_new_def)
  from oms_steps_refine [OF oms_new_wf(1) [OF assms(1,2)] n] assms(4) have wf: "oms_wf s" by auto
  have "pool_capacity (om_pool s) = pool_capacity (om_pool s0)" if "oms_steps cs s0 = Inr (s, oks)" for s0
    using that by (induction cs arbitrary: s0 oks) (auto simp: rbind_Inr_iff oms_kept_def dest!: oms_step_capacity)
  from this [OF assms(4)] have "pool_capacity (om_pool s) = N"
    using oms_new_wf(3) [OF assms(1,2)] by simp
  moreover have "inj_on (map_of (om_orders s)) (dom (map_of (om_orders s)))"
    using wf map_of_slot_inj by (fastforce simp: oms_wf_def inj_on_def)
  ultimately show ?thesis using oms_room [OF wf] by simp
qed

theorem oms_no_leak_witness:
  "\<exists>s oks. oms_steps [Submit 5 req0] (oms_new 2 (fill_tracker_new [])) = Inr (s, oks)
     \<and> oms_active_orders s + length (pool_free (om_pool s)) = 2"
proof -
  obtain s oks where "oms_steps [Submit 5 req0] (oms_new 2 (fill_tracker_new [])) = Inr (s, oks)"
    by (simp add: oms_submit_def oms_new_def pool_acquire_def pool_new_def pool_store_def Let_def
        upt_conv_Cons numeral_2_eq_2 nth_Cons')
  with oms_no_leak [of 2 "[Submit 5 req0]" "fill_tracker_new []"] show ?thesis by auto
qed

end
