(* ===== verification/Position.thy ===== *)
theory Position
  imports Types
begin

text \<open>
  \<^verbatim>\<open>src/position/position_manager.cpp\<close> and \<^verbatim>\<open>src/position/pnl_calculator.cpp\<close>: the per-instrument
  net position, average cost and realised profit, and the mark-to-market profit computed from
  them.  The \<open>Slot\<close> array is a function from index to record; the writer is one thread, so a
  fill is one step.  The second half relates the profit the two classes report with the cash the
  fills moved.
\<close>

subsection \<open>PositionManager\<close>

record pos_slot =
  sl_net_qty :: Qty
  sl_avg_cost :: Price
  sl_realized_pnl :: Price

type_synonym position_manager = "nat \<Rightarrow> pos_slot"

definition slot0 :: pos_slot where
  "slot0 = \<lparr>sl_net_qty = 0, sl_avg_cost = 0, sl_realized_pnl = 0\<rparr>"

definition pm_new :: position_manager where
  "pm_new = (\<lambda>_. slot0)"

definition add_realized :: "Price \<Rightarrow> pos_slot \<Rightarrow> pos_slot" where
  "add_realized d sl = sl\<lparr>sl_realized_pnl := i64 (sl_realized_pnl sl + d)\<rparr>"

definition pm_fill_slot :: "FillEvent \<Rightarrow> pos_slot \<Rightarrow> pos_slot" where
  "pm_fill_slot f sl =
     (let cur_qty = sl_net_qty sl; cur_avg = sl_avg_cost sl;
          fill_q = fe_fill_qty f; fill_px = fe_fill_price f in
      case fe_side f of
        BUY \<Rightarrow>
          let new_qty = i64 (cur_qty + fill_q);
              sl1 = (if cur_qty \<ge> 0
                then let new_avg = (if new_qty > 0
                           then cdiv (i64 (i64 (cur_avg * cur_qty) + i64 (fill_px * fill_q))) new_qty
                           else 0)
                     in sl\<lparr>sl_avg_cost := new_avg\<rparr>
                else let abs_short = i64 (- cur_qty);
                         close_qty = (if fill_q \<le> abs_short then fill_q else abs_short);
                         pnl_delta = i64 (i64 (cur_avg - fill_px) * close_qty);
                         sl' = add_realized pnl_delta sl
                     in if new_qty > 0 then sl'\<lparr>sl_avg_cost := fill_px\<rparr>
                        else if new_qty = 0 then sl'\<lparr>sl_avg_cost := 0\<rparr> else sl')
          in sl1\<lparr>sl_net_qty := new_qty\<rparr>
      | SELL \<Rightarrow>
          let new_qty = i64 (cur_qty - fill_q);
              sl1 = (if cur_qty \<le> 0
                then let new_avg = (if new_qty < 0
                           then let abs_new = i64 (- new_qty); abs_cur = i64 (- cur_qty)
                                in cdiv (i64 (i64 (cur_avg * abs_cur) + i64 (fill_px * fill_q))) abs_new
                           else 0)
                     in sl\<lparr>sl_avg_cost := new_avg\<rparr>
                else let close_qty = (if fill_q \<le> cur_qty then fill_q else cur_qty);
                         pnl_delta = i64 (i64 (fill_px - cur_avg) * close_qty);
                         sl' = add_realized pnl_delta sl
                     in if new_qty < 0 then sl'\<lparr>sl_avg_cost := fill_px\<rparr>
                        else if new_qty = 0 then sl'\<lparr>sl_avg_cost := 0\<rparr> else sl')
          in sl1\<lparr>sl_net_qty := new_qty\<rparr>)"

definition pm_on_fill :: "FillEvent \<Rightarrow> position_manager \<Rightarrow> position_manager" where
  "pm_on_fill f pm = (let k = unat (fe_instrument_id f) in
     if k \<ge> MAX_INSTRUMENTS then pm else pm(k := pm_fill_slot f (pm k)))"

definition get_net_qty :: "position_manager \<Rightarrow> InstrumentId \<Rightarrow> Qty" where
  "get_net_qty pm ident = (if unat ident \<ge> MAX_INSTRUMENTS then 0 else sl_net_qty (pm (unat ident)))"

definition get_avg_cost :: "position_manager \<Rightarrow> InstrumentId \<Rightarrow> Price" where
  "get_avg_cost pm ident = (if unat ident \<ge> MAX_INSTRUMENTS then 0 else sl_avg_cost (pm (unat ident)))"

definition get_realized_pnl :: "position_manager \<Rightarrow> InstrumentId \<Rightarrow> Price" where
  "get_realized_pnl pm ident =
     (if unat ident \<ge> MAX_INSTRUMENTS then 0 else sl_realized_pnl (pm (unat ident)))"

definition get_total_realized_pnl :: "position_manager \<Rightarrow> Price" where
  "get_total_realized_pnl pm =
     fold (\<lambda>i total. i64 (total + sl_realized_pnl (pm i))) [0..<MAX_INSTRUMENTS] 0"

subsection \<open>PnlCalculator\<close>

definition calc_unrealized_pnl :: "position_manager \<Rightarrow> InstrumentId \<Rightarrow> Price \<Rightarrow> Price" where
  "calc_unrealized_pnl pm ident mark =
     (if unat ident \<ge> MAX_INSTRUMENTS then 0
      else let net = sl_net_qty (pm (unat ident)); avg = sl_avg_cost (pm (unat ident))
           in if net = 0 then 0 else i64 (i64 (mark - avg) * net))"

definition calc_total_unrealized_pnl :: "position_manager \<Rightarrow> Price list \<Rightarrow> nat \<Rightarrow> Price" where
  "calc_total_unrealized_pnl pm marks n =
     (let limit = (if n \<le> MAX_INSTRUMENTS then n else MAX_INSTRUMENTS)
      in fold (\<lambda>i total. i64 (total + calc_unrealized_pnl pm (of_nat i) (marks ! i))) [0..<limit] 0)"

definition calc_total_pnl :: "position_manager \<Rightarrow> Price list \<Rightarrow> nat \<Rightarrow> Price" where
  "calc_total_pnl pm marks n = i64 (get_total_realized_pnl pm + calc_total_unrealized_pnl pm marks n)"

subsection \<open>One instrument's fills act on one slot\<close>

lemma pm_fold_slot:
  assumes "unat ident < MAX_INSTRUMENTS"
  shows "fold pm_on_fill fs pm (unat ident) =
    fold pm_fill_slot (filter (\<lambda>f. fe_instrument_id f = ident) fs) (pm (unat ident))"
  by (induction fs arbitrary: pm)
    (use assms in \<open>auto simp: pm_on_fill_def Let_def word_unat_eq_iff\<close>)

lemma pm_fill_slot_net:
  "sl_net_qty (pm_fill_slot f sl) = i64 (sl_net_qty sl + signed_qty (fe_side f) (fe_fill_qty f))"
  by (simp add: pm_fill_slot_def Let_def split: Side.split)

lemma fold_slot_net:
  "in_i64 (sl_net_qty sl) \<Longrightarrow> sl_net_qty (fold pm_fill_slot fs sl) =
    i64 (sl_net_qty sl + (\<Sum>f\<leftarrow>fs. signed_qty (fe_side f) (fe_fill_qty f)))"
  by (induction fs arbitrary: sl) (simp_all add: i64_id pm_fill_slot_net i64_simps add.assoc)

text \<open>
  The net position is the running sum of the signed fills of that instrument, with
  64-bit wrap-around and no other condition: fills of other instruments, out-of-range identifiers,
  and the open, add, reduce, close and flip branches never make it drift.
\<close>

theorem net_qty_is_signed_sum:
  assumes "unat ident < MAX_INSTRUMENTS"
  shows "get_net_qty (fold pm_on_fill fs pm_new) ident =
    i64 (\<Sum>f\<leftarrow>filter (\<lambda>f. fe_instrument_id f = ident) fs. signed_qty (fe_side f) (fe_fill_qty f))"
  using assms
  by (simp add: get_net_qty_def pm_fold_slot fold_slot_net pm_new_def slot0_def in_i64_def)

theorem net_qty_is_signed_sum_witness:
  "get_net_qty (fold pm_on_fill
      [fill0\<lparr>fe_instrument_id := 3, fe_fill_qty := 5\<rparr>,
       fill0\<lparr>fe_instrument_id := 3, fe_side := SELL, fe_fill_qty := 7\<rparr>] pm_new) 3 = -2"
  using net_qty_is_signed_sum [of 3 "[fill0\<lparr>fe_instrument_id := 3, fe_fill_qty := 5\<rparr>,
       fill0\<lparr>fe_instrument_id := 3, fe_side := SELL, fe_fill_qty := 7\<rparr>]"]
  by (simp add: MAX_INSTRUMENTS_def i64_id in_i64_def fill0_def)

subsection \<open>Weighted average cost\<close>

text \<open>
  What a slot promises after fills at prices in \<open>[L, P]\<close> of total quantity at most \<open>Q\<close>: a flat
  slot has cost 0, an open one a cost in \<open>[L, P]\<close>, and nothing is close to overflow.
\<close>

definition slot_ok :: "int \<Rightarrow> int \<Rightarrow> int \<Rightarrow> pos_slot \<Rightarrow> bool" where
  "slot_ok L P Q sl \<longleftrightarrow> \<bar>sl_net_qty sl\<bar> \<le> Q \<and> \<bar>sl_realized_pnl sl\<bar> \<le> P * Q
     \<and> (if sl_net_qty sl = 0 then sl_avg_cost sl = 0 else L \<le> sl_avg_cost sl \<and> sl_avg_cost sl \<le> P)"

definition fill_ok :: "int \<Rightarrow> int \<Rightarrow> FillEvent \<Rightarrow> bool" where
  "fill_ok L P f \<longleftrightarrow> 0 < fe_fill_qty f \<and> L \<le> fe_fill_price f \<and> fe_fill_price f \<le> P"

text \<open>Mark-to-market value of a slot without wrap-around, and the cash a fill moves.\<close>

definition slot_equity :: "int \<Rightarrow> pos_slot \<Rightarrow> int" where
  "slot_equity m sl = sl_realized_pnl sl + (m - sl_avg_cost sl) * sl_net_qty sl"

definition fill_value :: "int \<Rightarrow> FillEvent \<Rightarrow> int" where
  "fill_value m f = (m - fe_fill_price f) * signed_qty (fe_side f) (fe_fill_qty f)"

lemma weighted_average:
  fixes a :: int
  assumes "0 \<le> c" "0 < q" "L \<le> px" "px \<le> P" "c \<noteq> 0 \<Longrightarrow> L \<le> a \<and> a \<le> P"
  shows "L \<le> (a * c + px * q) div (c + q) \<and> (a * c + px * q) div (c + q) \<le> P"
proof
  have pos: "0 < c + q" using assms by simp
  have "L * (c + q) \<le> a * c + px * q"
    unfolding distrib_left
    by (rule add_mono; cases "c = 0") (use assms in \<open>auto intro: mult_right_mono\<close>)
  then show "L \<le> (a * c + px * q) div (c + q)"
    using pos zdiv_mono1 [of "L * (c + q)" _ "c + q"] by simp
  have "a * c + px * q \<le> P * (c + q)"
    unfolding distrib_left
    by (rule add_mono; cases "c = 0") (use assms in \<open>auto intro: mult_right_mono\<close>)
  then show "(a * c + px * q) div (c + q) \<le> P"
    using pos zdiv_mono1 [of _ "P * (c + q)" "c + q"] by simp
qed

lemma in_i64_abs: "\<bar>x\<bar> < 2 ^ 63 \<Longrightarrow> in_i64 x"
  unfolding in_i64_def by linarith

lemma abs_mult_le: "\<bar>a\<bar> \<le> A \<Longrightarrow> \<bar>b\<bar> \<le> B \<Longrightarrow> \<bar>a * b\<bar> \<le> A * (B :: int)"
  by (simp add: abs_mult mult_mono)

text \<open>The room a slot needs: the next fill stays within the budget of price times quantity.\<close>

definition fill_room :: "int \<Rightarrow> int \<Rightarrow> int \<Rightarrow> pos_slot \<Rightarrow> FillEvent \<Rightarrow> bool" where
  "fill_room L P Q sl f \<longleftrightarrow> 0 \<le> L \<and> 0 < P \<and> P * Q < 2 ^ 63 \<and> fill_ok L P f
     \<and> slot_ok L P (Q - fe_fill_qty f) sl"

lemma fill_room_bounds:
  assumes "fill_room L P Q sl f"
  shows "\<bar>sl_net_qty sl\<bar> + fe_fill_qty f \<le> Q" and "0 < fe_fill_qty f" and "0 \<le> sl_avg_cost sl"
    and "sl_avg_cost sl \<le> P" and "0 \<le> fe_fill_price f" and "fe_fill_price f \<le> P"
    and "Q < 2 ^ 63" and "P * Q < 2 ^ 63" and "0 < P" and "L \<le> fe_fill_price f"
    and "sl_net_qty sl \<noteq> 0 \<Longrightarrow> L \<le> sl_avg_cost sl" and "0 \<le> L"
proof -
  show 1: "\<bar>sl_net_qty sl\<bar> + fe_fill_qty f \<le> Q" "0 < fe_fill_qty f" "0 \<le> sl_avg_cost sl"
    "sl_avg_cost sl \<le> P" "0 \<le> fe_fill_price f" "fe_fill_price f \<le> P" "P * Q < 2 ^ 63" "0 < P"
    "L \<le> fe_fill_price f" "sl_net_qty sl \<noteq> 0 \<Longrightarrow> L \<le> sl_avg_cost sl" "0 \<le> L"
    using assms by (auto simp: fill_room_def fill_ok_def slot_ok_def split: if_splits)
  have "1 * Q \<le> P * Q" using 1 by (intro mult_right_mono) auto
  then show "Q < 2 ^ 63" using 1 by simp
qed

lemma pm_fill_slot_add:
  assumes "fill_room L P Q sl f"
    and "if fe_side f = BUY then 0 \<le> sl_net_qty sl else sl_net_qty sl \<le> 0"
  shows "pm_fill_slot f sl = sl\<lparr>
    sl_avg_cost := (sl_avg_cost sl * \<bar>sl_net_qty sl\<bar> + fe_fill_price f * fe_fill_qty f)
                     div (\<bar>sl_net_qty sl\<bar> + fe_fill_qty f),
    sl_net_qty := sl_net_qty sl + signed_qty (fe_side f) (fe_fill_qty f)\<rparr>"
proof -
  let ?c = "\<bar>sl_net_qty sl\<bar>" and ?a = "sl_avg_cost sl" and ?q = "fe_fill_qty f" and ?x = "fe_fill_price f"
  note b = fill_room_bounds [OF assms(1)]
  have p: "0 \<le> ?a * ?c" "0 \<le> ?x * ?q" "?a * ?c \<le> P * ?c" "?x * ?q \<le> P * ?q" "P * (?c + ?q) \<le> P * Q"
    using b by (auto intro: mult_right_mono mult_left_mono)
  moreover have "P * ?c + P * ?q < 2 ^ 63" using p(5) b(8) unfolding distrib_left by linarith
  ultimately have n: "in_i64 (?a * ?c)" "in_i64 (?x * ?q)" "in_i64 (?a * ?c + ?x * ?q)"
    unfolding in_i64_def by linarith+
  have d: "cdiv (?a * ?c + ?x * ?q) (?c + ?q) = (?a * ?c + ?x * ?q) div (?c + ?q)"
    using p b by (intro cdiv_nonneg) auto
  show ?thesis
  proof (cases "fe_side f")
    case BUY
    then have c: "sl_net_qty sl = ?c" using assms(2) by simp
    have "in_i64 (?c + ?q)" using b by (simp add: in_i64_def)
    then show ?thesis using BUY c b n p
      by (simp add: pm_fill_slot_def Let_def i64_id cdiv_nonneg)
  next
    case SELL
    then have c: "sl_net_qty sl = - ?c" using assms(2) by simp
    have "in_i64 (- ?c - ?q)" "in_i64 ?c" "in_i64 (?c + ?q)" using b by (auto simp: in_i64_def)
    then show ?thesis using SELL c b n d
      by (simp add: pm_fill_slot_def Let_def i64_id)
  qed
qed

lemma pm_fill_slot_reduce:
  assumes "fill_room L P Q sl f"
    and "if fe_side f = BUY then sl_net_qty sl < 0 else 0 < sl_net_qty sl"
  shows "pm_fill_slot f sl = sl\<lparr>
    sl_net_qty := sl_net_qty sl + signed_qty (fe_side f) (fe_fill_qty f),
    sl_avg_cost := (if \<bar>sl_net_qty sl\<bar> < fe_fill_qty f then fe_fill_price f
       else if \<bar>sl_net_qty sl\<bar> = fe_fill_qty f then 0 else sl_avg_cost sl),
    sl_realized_pnl := i64 (sl_realized_pnl sl + (fe_fill_price f - sl_avg_cost sl)
       * sgn (sl_net_qty sl) * min (fe_fill_qty f) \<bar>sl_net_qty sl\<bar>)\<rparr>"
proof -
  let ?c = "\<bar>sl_net_qty sl\<bar>" and ?a = "sl_avg_cost sl" and ?q = "fe_fill_qty f" and ?x = "fe_fill_price f"
  let ?m = "min ?q ?c"
  note b = fill_room_bounds [OF assms(1)]
  have d: "\<bar>?x - ?a\<bar> \<le> P" "\<bar>?m\<bar> \<le> Q" using b by auto
  have "P \<le> P * Q" using b mult_left_mono [of 1 Q P] by simp
  then have n: "in_i64 (?x - ?a)" "in_i64 (?a - ?x)"
    using d(1) b(8) unfolding in_i64_def by linarith+
  have "\<bar>(?x - ?a) * ?m\<bar> \<le> P * Q" by (rule abs_mult_le [OF d])
  then have m: "in_i64 ((?x - ?a) * ?m)" "in_i64 ((?a - ?x) * ?m)"
    using b(8) by (auto simp: in_i64_def left_diff_distrib)
  have s: "(?a - ?x) * ?m = - ((?x - ?a) * ?m)" by (simp add: left_diff_distrib)
  show ?thesis
  proof (cases "fe_side f")
    case BUY
    then have c: "sl_net_qty sl = - ?c" "0 < ?c" "sgn (sl_net_qty sl) = -1" using assms(2) by simp_all
    have "in_i64 (sl_net_qty sl + ?q)" "in_i64 (- sl_net_qty sl)" using b by (auto simp: in_i64_def)
    then show ?thesis using BUY c n m s
      by (auto simp: pm_fill_slot_def Let_def i64_id add_realized_def min_def)
  next
    case SELL
    then have c: "sl_net_qty sl = ?c" "0 < ?c" "sgn (sl_net_qty sl) = 1" using assms(2) by simp_all
    have "in_i64 (sl_net_qty sl - ?q)" using b by (auto simp: in_i64_def)
    then show ?thesis using SELL c n m
      by (auto simp: pm_fill_slot_def Let_def i64_id add_realized_def min_def)
  qed
qed

lemma slot_ok_mono: "slot_ok L P Q sl \<Longrightarrow> Q \<le> Q' \<Longrightarrow> 0 \<le> P \<Longrightarrow> slot_ok L P Q' sl"
  using mult_left_mono [of Q Q' P] by (auto simp: slot_ok_def)

text \<open>One fill keeps the slot within its budget and moves the equity by the fill's value, up to
  the remainder of the average's division.\<close>

lemma pm_fill_slot_step:
  assumes room: "fill_room L P Q sl f"
  shows "slot_ok L P Q (pm_fill_slot f sl)
    \<and> \<bar>slot_equity m (pm_fill_slot f sl) - slot_equity m sl - fill_value m f\<bar> \<le> Q"
proof (cases "if fe_side f = BUY then 0 \<le> sl_net_qty sl else sl_net_qty sl \<le> 0")
  case True
  obtain c s :: int where sq: "sl_net_qty sl = s * c" "\<bar>sl_net_qty sl\<bar> = c" "\<bar>s\<bar> = 1"
    "signed_qty (fe_side f) (fe_fill_qty f) = s * fe_fill_qty f"
    using True that [of 1 "sl_net_qty sl"] that [of "-1" "- sl_net_qty sl"]
    by (cases "fe_side f") auto
  let ?a = "sl_avg_cost sl" and ?q = "fe_fill_qty f" and ?x = "fe_fill_price f"
  let ?n = "?a * c + ?x * ?q" and ?w = "c + ?q"
  note b = fill_room_bounds [OF room, unfolded sq(2)]
  note eq = pm_fill_slot_add [OF room True, unfolded sq(2)]
  have net: "sl_net_qty (pm_fill_slot f sl) = s * ?w"
    unfolding eq sq(1,4) by (simp add: sq(1,4) distrib_left)
  have c0: "0 \<le> c" using sq(2) by auto
  have ok: "\<bar>sl_realized_pnl sl\<bar> \<le> P * (Q - ?q)" using room by (simp add: fill_room_def slot_ok_def)
  also have "\<dots> \<le> P * Q" using b by (intro mult_left_mono) auto
  finally have r: "\<bar>sl_realized_pnl sl\<bar> \<le> P * Q" .
  have avg: "L \<le> ?n div ?w \<and> ?n div ?w \<le> P"
    using b sq c0 by (intro weighted_average) auto
  have "\<bar>s * ?w\<bar> = ?w" using c0 b(2) sq(3) by (simp add: abs_mult)
  then have "slot_ok L P Q (pm_fill_slot f sl)"
    unfolding slot_ok_def net using b(1,2) r avg c0 by (auto simp: eq)
  moreover have "slot_equity m (pm_fill_slot f sl) - slot_equity m sl - fill_value m f = s * (?n mod ?w)"
  proof -
    have d: "(?n div ?w) * ?w = ?n - ?n mod ?w" by (simp add: minus_mod_eq_div_mult)
    have e: "slot_equity m (pm_fill_slot f sl) = sl_realized_pnl sl + s * (m * ?w - (?n div ?w) * ?w)"
      unfolding slot_equity_def net by (simp add: eq algebra_simps)
    show ?thesis
      unfolding e d slot_equity_def [of m sl] fill_value_def sq(1,4) by (simp add: algebra_simps)
  qed
  moreover have "0 \<le> ?n mod ?w" "?n mod ?w < ?w" using b(2) c0 by auto
  ultimately show ?thesis using b(1) sq(3) by (simp add: abs_mult)
next
  case False
  then have opp: "if fe_side f = BUY then sl_net_qty sl < 0 else 0 < sl_net_qty sl" by (auto split: if_splits)
  let ?c = "\<bar>sl_net_qty sl\<bar>" and ?a = "sl_avg_cost sl" and ?q = "fe_fill_qty f" and ?x = "fe_fill_price f"
  let ?m = "min ?q ?c"
  let ?d = "(?x - ?a) * sgn (sl_net_qty sl) * ?m"
  note b = fill_room_bounds [OF room] and eq = pm_fill_slot_reduce [OF room opp]
  have "\<bar>?x - ?a\<bar> \<le> P" "\<bar>?m\<bar> \<le> ?q" "\<bar>sgn (sl_net_qty sl)\<bar> = 1" using b opp by (auto split: if_splits)
  then have "\<bar>?d\<bar> \<le> P * ?q" using abs_mult_le [of "?x - ?a" P ?m ?q] by (simp add: abs_mult)
  moreover have "\<bar>sl_realized_pnl sl\<bar> \<le> P * (Q - ?q)" using room by (simp add: fill_room_def slot_ok_def)
  ultimately have r: "\<bar>sl_realized_pnl sl + ?d\<bar> \<le> P * Q" by (simp add: right_diff_distrib)
  then have i: "i64 (sl_realized_pnl sl + ?d) = sl_realized_pnl sl + ?d"
    using b(8) by (intro i64_id in_i64_abs) simp
  have "slot_ok L P Q (pm_fill_slot f sl)"
    unfolding eq i slot_ok_def using r b opp by (cases "fe_side f") (auto split: if_splits)
  moreover have "slot_equity m (pm_fill_slot f sl) - slot_equity m sl - fill_value m f = 0"
    unfolding eq i slot_equity_def fill_value_def using opp
    by (cases "fe_side f")
      (auto simp: min_def sgn_if algebra_simps split: if_splits,
        metis add.right_inverse mult_minus_right)
  ultimately show ?thesis using b by simp
qed

lemma fold_slot_steps:
  assumes "0 \<le> L" "0 < P" "P * Q < 2 ^ 63"
  shows "slot_ok L P (Q - (\<Sum>f\<leftarrow>fs. fe_fill_qty f)) sl \<Longrightarrow> \<forall>f \<in> set fs. fill_ok L P f \<Longrightarrow>
    slot_ok L P Q (fold pm_fill_slot fs sl)
    \<and> \<bar>slot_equity m (fold pm_fill_slot fs sl) - slot_equity m sl - (\<Sum>f\<leftarrow>fs. fill_value m f)\<bar>
        \<le> int (length fs) * Q"
proof (induction fs arbitrary: sl)
  case (Cons f fs)
  let ?Q = "Q - (\<Sum>f\<leftarrow>fs. fe_fill_qty f)"
  have "0 \<le> (\<Sum>f\<leftarrow>fs. fe_fill_qty f)"
    using Cons.prems(2) by (intro sum_list_nonneg) (auto simp: fill_ok_def)
  then have q: "?Q \<le> Q" "P * ?Q \<le> P * Q" using assms by (auto intro: mult_left_mono)
  have "fill_room L P ?Q sl f"
    unfolding fill_room_def
  proof (intro conjI)
    show "P * ?Q < 2 ^ 63" using q(2) assms(3) by linarith
    have "?Q - fe_fill_qty f = Q - (\<Sum>f\<leftarrow>f # fs. fe_fill_qty f)" by simp
    with Cons.prems(1) show "slot_ok L P (?Q - fe_fill_qty f) sl" by metis
  qed (use assms Cons.prems in auto)
  from pm_fill_slot_step [OF this, of m]
  have s: "slot_ok L P ?Q (pm_fill_slot f sl)"
    "\<bar>slot_equity m (pm_fill_slot f sl) - slot_equity m sl - fill_value m f\<bar> \<le> Q" using q by auto
  with Cons.IH [OF s(1)] Cons.prems(2) show ?case by (auto simp: distrib_right)
qed (use assms in simp)

text \<open>
  Claim C16.  Average cost is sound: after any fills of positive quantity at prices in
  \<open>[L, P]\<close>, an instrument that is flat has cost 0 and one that is not has a cost within the
  range of its own fill prices, whatever sequence of adds, reductions and flips led there, and
  no product or sum overflows on the way.
\<close>

theorem avg_cost_within_fill_prices:
  assumes "unat ident < MAX_INSTRUMENTS" and "0 \<le> L" and "0 < P"
    and "\<forall>f \<in> set fs. fe_instrument_id f = ident \<longrightarrow> fill_ok L P f"
    and "P * (\<Sum>f\<leftarrow>filter (\<lambda>f. fe_instrument_id f = ident) fs. fe_fill_qty f) < 2 ^ 63"
  shows "let pm = fold pm_on_fill fs pm_new in
    if get_net_qty pm ident = 0 then get_avg_cost pm ident = 0
    else L \<le> get_avg_cost pm ident \<and> get_avg_cost pm ident \<le> P"
proof -
  let ?fs = "filter (\<lambda>f. fe_instrument_id f = ident) fs"
  have "slot_ok L P 0 slot0" by (simp add: slot_ok_def slot0_def)
  then have "slot_ok L P (\<Sum>f\<leftarrow>?fs. fe_fill_qty f) (fold pm_fill_slot ?fs slot0)"
    using fold_slot_steps [OF assms(2,3,5), of ?fs slot0] assms(4) by simp
  then show ?thesis
    using assms(1) by (simp add: get_net_qty_def get_avg_cost_def pm_fold_slot pm_new_def Let_def
        slot_ok_def split: if_splits)
qed

theorem avg_cost_within_fill_prices_witness:
  "get_avg_cost (fold pm_on_fill [fill0\<lparr>fe_fill_price := 100, fe_fill_qty := 5\<rparr>,
      fill0\<lparr>fe_fill_price := 103, fe_fill_qty := 2\<rparr>] pm_new) 0 \<in> {100..103}"
  using avg_cost_within_fill_prices [of 0 100 103 "[fill0\<lparr>fe_fill_price := 100, fe_fill_qty := 5\<rparr>,
      fill0\<lparr>fe_fill_price := 103, fe_fill_qty := 2\<rparr>]"]
  by (simp add: MAX_INSTRUMENTS_def fill_ok_def fill0_def get_net_qty_def pm_on_fill_def
      pm_fill_slot_net Let_def pm_new_def slot0_def i64_id in_i64_def)

text \<open>
  Claim C17.  The books balance: realised plus unrealised profit at any mark equals the value
  of the fills at that mark (the position marked to market plus the cash the fills moved) up to
  the integer division of the average cost, at most one position's worth of ticks per fill.
\<close>

theorem pnl_matches_cash:
  assumes "unat ident < MAX_INSTRUMENTS" and "0 < P" and "0 \<le> m" and "m \<le> P"
    and "\<forall>f \<in> set fs. fe_instrument_id f = ident \<longrightarrow> fill_ok 0 P f"
    and "P * (\<Sum>f\<leftarrow>filter (\<lambda>f. fe_instrument_id f = ident) fs. fe_fill_qty f) < 2 ^ 63"
  shows "let pm = fold pm_on_fill fs pm_new; own = filter (\<lambda>f. fe_instrument_id f = ident) fs in
    \<bar>get_realized_pnl pm ident + calc_unrealized_pnl pm ident m
       - (\<Sum>f\<leftarrow>own. (m - fe_fill_price f) * signed_qty (fe_side f) (fe_fill_qty f))\<bar>
    \<le> int (length own) * (\<Sum>f\<leftarrow>own. fe_fill_qty f)"
proof -
  let ?fs = "filter (\<lambda>f. fe_instrument_id f = ident) fs"
  let ?Q = "\<Sum>f\<leftarrow>?fs. fe_fill_qty f" and ?sl = "fold pm_fill_slot ?fs slot0"
  have "slot_ok 0 P 0 slot0" by (simp add: slot_ok_def slot0_def)
  then have ok: "slot_ok 0 P ?Q ?sl"
    "\<bar>slot_equity m ?sl - slot_equity m slot0 - (\<Sum>f\<leftarrow>?fs. fill_value m f)\<bar> \<le> int (length ?fs) * ?Q"
    using fold_slot_steps [OF order_refl assms(2,6), of ?fs slot0 m] assms(5) by simp_all
  have Q0: "0 \<le> ?Q" using assms(5) by (intro sum_list_nonneg) (auto simp: fill_ok_def)
  have d: "\<bar>m - sl_avg_cost ?sl\<bar> \<le> P" "\<bar>sl_net_qty ?sl\<bar> \<le> ?Q"
    using ok(1) assms(2,3,4) by (auto simp: slot_ok_def split: if_splits)
  from abs_mult_le [OF d] have p: "in_i64 ((m - sl_avg_cost ?sl) * sl_net_qty ?sl)"
    using assms(6) by (intro in_i64_abs) simp
  have eq: "get_realized_pnl (fold pm_on_fill fs pm_new) ident
      + calc_unrealized_pnl (fold pm_on_fill fs pm_new) ident m = slot_equity m ?sl"
    using assms(1) p i64_mult(1) [of "m - sl_avg_cost ?sl" "sl_net_qty ?sl"]
    by (simp add: get_realized_pnl_def calc_unrealized_pnl_def pm_fold_slot pm_new_def Let_def
        slot_equity_def i64_id)
  show ?thesis
    using ok(2) unfolding Let_def eq by (simp add: slot_equity_def slot0_def fill_value_def)
qed

theorem pnl_matches_cash_witness:
  "\<bar>get_realized_pnl (fold pm_on_fill [fill0\<lparr>fe_fill_price := 100, fe_fill_qty := 5\<rparr>,
      fill0\<lparr>fe_side := SELL, fe_fill_price := 103, fe_fill_qty := 2\<rparr>] pm_new) 0
    + calc_unrealized_pnl (fold pm_on_fill [fill0\<lparr>fe_fill_price := 100, fe_fill_qty := 5\<rparr>,
      fill0\<lparr>fe_side := SELL, fe_fill_price := 103, fe_fill_qty := 2\<rparr>] pm_new) 0 110 - 36\<bar> \<le> 14"
  using pnl_matches_cash [of 0 200 110 "[fill0\<lparr>fe_fill_price := 100, fe_fill_qty := 5\<rparr>,
      fill0\<lparr>fe_side := SELL, fe_fill_price := 103, fe_fill_qty := 2\<rparr>]"]
  by (simp add: MAX_INSTRUMENTS_def fill_ok_def fill0_def Let_def)

end
