(* ===== verification/Circuit_Breaker.thy ===== *)
theory Circuit_Breaker
  imports Types
begin

text \<open>
  \<^verbatim>\<open>src/risk/circuit_breaker.cpp\<close>: the loss breaker.  First its operations as sequential
  functions, then the same operations cut at their atomic accesses, run by any number of threads.
\<close>

subsection \<open>The operations\<close>

record breaker =
  cb_state :: CBState
  cb_daily_pnl :: int
  cb_open_threshold :: int
  cb_half_open_threshold :: int

definition cb_new :: "int \<Rightarrow> breaker" where
  "cb_new th = \<lparr>cb_state = CB_CLOSED, cb_daily_pnl = 0, cb_open_threshold = th,
     cb_half_open_threshold = cdiv th 2\<rparr>"

definition cb_allow_order :: "breaker \<Rightarrow> bool" where
  "cb_allow_order cb \<longleftrightarrow> cb_state cb = CB_CLOSED"

definition cas_state :: "CBState \<Rightarrow> CBState \<Rightarrow> breaker \<Rightarrow> breaker" where
  "cas_state expected desired cb = (if cb_state cb = expected then cb\<lparr>cb_state := desired\<rparr> else cb)"

text \<open>\<open>update_pnl\<close>: the \<open>fetch_add\<close>, and the decision on the value it produced.\<close>

definition cb_fetch_add :: "int \<Rightarrow> breaker \<Rightarrow> breaker \<times> int" where
  "cb_fetch_add delta cb =
     (let new_pnl = i64 (cb_daily_pnl cb + delta) in (cb\<lparr>cb_daily_pnl := new_pnl\<rparr>, new_pnl))"

definition cb_decide :: "int \<Rightarrow> breaker \<Rightarrow> breaker" where
  "cb_decide new_pnl cb =
     (if new_pnl \<le> cb_open_threshold cb then cas_state CB_CLOSED CB_OPEN cb
      else if new_pnl > cb_half_open_threshold cb then cas_state CB_OPEN CB_HALF_OPEN cb
      else cb)"

definition cb_update_pnl :: "int \<Rightarrow> breaker \<Rightarrow> breaker" where
  "cb_update_pnl delta cb = (let (cb1, new_pnl) = cb_fetch_add delta cb in cb_decide new_pnl cb1)"

definition cb_reset :: "breaker \<Rightarrow> breaker" where
  "cb_reset cb = cb\<lparr>cb_daily_pnl := 0, cb_state := CB_CLOSED\<rparr>"

lemma cb_decide_fields [simp]:
  "cb_daily_pnl (cb_decide n cb) = cb_daily_pnl cb"
  "cb_open_threshold (cb_decide n cb) = cb_open_threshold cb"
  "cb_half_open_threshold (cb_decide n cb) = cb_half_open_threshold cb"
  by (simp_all add: cb_decide_def cas_state_def)

lemma cb_decide_allow:
  "cb_allow_order (cb_decide n cb) \<longleftrightarrow> cb_allow_order cb \<and> cb_open_threshold cb < n"
  by (auto simp: cb_decide_def cas_state_def cb_allow_order_def)

lemma cb_update_pnl_fields [simp]:
  "cb_daily_pnl (cb_update_pnl d cb) = i64 (cb_daily_pnl cb + d)"
  "cb_open_threshold (cb_update_pnl d cb) = cb_open_threshold cb"
  "cb_half_open_threshold (cb_update_pnl d cb) = cb_half_open_threshold cb"
  by (simp_all add: cb_update_pnl_def cb_fetch_add_def Let_def)

lemma cb_update_pnl_allow:
  "cb_allow_order (cb_update_pnl d cb) \<longleftrightarrow>
   cb_allow_order cb \<and> cb_open_threshold cb < i64 (cb_daily_pnl cb + d)"
  by (simp add: cb_update_pnl_def cb_fetch_add_def Let_def cb_decide_allow)
    (simp add: cb_allow_order_def)

lemma cb_updates:
  "in_i64 (cb_daily_pnl cb) \<Longrightarrow>
   cb_daily_pnl (fold cb_update_pnl ds cb) = i64 (cb_daily_pnl cb + sum_list ds)
   \<and> (cb_allow_order (fold cb_update_pnl ds cb) \<longleftrightarrow> cb_allow_order cb \<and>
        (\<forall>k < length ds. cb_open_threshold cb < i64 (cb_daily_pnl cb + sum_list (take (Suc k) ds))))"
proof (induction ds arbitrary: cb)
  case (Cons d ds)
  have "(\<forall>k < length (d # ds). cb_open_threshold cb < i64 (cb_daily_pnl cb + sum_list (take (Suc k) (d # ds))))
    \<longleftrightarrow> cb_open_threshold cb < i64 (cb_daily_pnl cb + d) \<and>
      (\<forall>k < length ds. cb_open_threshold cb < i64 (cb_daily_pnl cb + d + sum_list (take (Suc k) ds)))"
    by (auto simp: All_less_Suc2 add.assoc)
  with Cons.IH [of "cb_update_pnl d cb"] show ?case
    by (auto simp: cb_update_pnl_allow i64_simps add.assoc)
qed (simp add: i64_id)

text \<open>
  Claim C19.  The breaker's contract, sequentially: after a reset (from any state) and any
  sequence of profit updates, orders are allowed exactly when no running total since the reset has
  reached the threshold; a later recovery does not close the breaker again.
\<close>

theorem breaker_trips_iff_threshold_reached:
  "let cb' = fold cb_update_pnl ds (cb_reset cb) in
     cb_daily_pnl cb' = i64 (sum_list ds)
   \<and> (cb_allow_order cb' \<longleftrightarrow>
       (\<forall>k < length ds. cb_open_threshold cb < i64 (sum_list (take (Suc k) ds))))"
  using cb_updates [of "cb_reset cb" ds]
  by (simp add: cb_reset_def cb_allow_order_def in_i64_def Let_def)

lemma breaker_trips_witness:
  "\<not> cb_allow_order (fold cb_update_pnl [-60, -50, 30] (cb_reset (cb_new (-100))))
   \<and> cb_daily_pnl (fold cb_update_pnl [-60, -50, 30] (cb_reset (cb_new (-100)))) = -80"
proof -
  let ?cb = "fold cb_update_pnl [-60, -50, 30] (cb_reset (cb_new (-100)))"
  have th: "cb_open_threshold (cb_new (-100)) = -100" by (simp add: cb_new_def)
  note contract = breaker_trips_iff_threshold_reached [of "[-60, -50, 30]" "cb_new (-100)", unfolded Let_def]
  have pnl: "cb_daily_pnl ?cb = i64 (sum_list [-60, -50, 30])" using contract by (rule conjunct1)
  have "\<not> (\<forall>k < length [-60, -50, 30 :: int]. cb_open_threshold (cb_new (-100)) < i64 (sum_list (take (Suc k) [-60, -50, 30])))"
    unfolding th by (auto intro!: exI [of _ 1] simp: i64_id in_i64_def)
  then have "\<not> cb_allow_order ?cb" using contract by blast
  with pnl show ?thesis by (simp add: i64_id in_i64_def)
qed

subsection \<open>Concurrent updates\<close>

datatype cb_pc = Cb_idle | Cb_added int | Cb_resetting

record cb_sys =
  cbs_cb :: breaker
  cbs_pcs :: "nat \<Rightarrow> cb_pc"
  cbs_deltas :: "int list"     \<comment> \<open>ghost: the deltas added so far\<close>
  cbs_seen :: "int list"       \<comment> \<open>ghost: the totals on which finished updates decided\<close>

definition cbs_init :: "int \<Rightarrow> cb_sys" where
  "cbs_init th = \<lparr>cbs_cb = cb_new th, cbs_pcs = (\<lambda>_. Cb_idle), cbs_deltas = [], cbs_seen = []\<rparr>"

inductive cb_update_step :: "cb_sys \<Rightarrow> cb_sys \<Rightarrow> bool" where
  add: "cbs_pcs s t = Cb_idle \<Longrightarrow> cb_fetch_add d (cbs_cb s) = (cb', n) \<Longrightarrow>
    cb_update_step s (s\<lparr>cbs_cb := cb', cbs_pcs := (cbs_pcs s)(t := Cb_added n),
                       cbs_deltas := d # cbs_deltas s\<rparr>)"
| decide: "cbs_pcs s t = Cb_added n \<Longrightarrow>
    cb_update_step s (s\<lparr>cbs_cb := cb_decide n (cbs_cb s), cbs_pcs := (cbs_pcs s)(t := Cb_idle),
                       cbs_seen := n # cbs_seen s\<rparr>)"

inductive cb_reset_step :: "cb_sys \<Rightarrow> cb_sys \<Rightarrow> bool" where
  clear_pnl: "cbs_pcs s t = Cb_idle \<Longrightarrow>
    cb_reset_step s (s\<lparr>cbs_cb := (cbs_cb s)\<lparr>cb_daily_pnl := 0\<rparr>, cbs_pcs := (cbs_pcs s)(t := Cb_resetting)\<rparr>)"
| close: "cbs_pcs s t = Cb_resetting \<Longrightarrow>
    cb_reset_step s (s\<lparr>cbs_cb := (cbs_cb s)\<lparr>cb_state := CB_CLOSED\<rparr>, cbs_pcs := (cbs_pcs s)(t := Cb_idle)\<rparr>)"

definition cb_step :: "cb_sys \<Rightarrow> cb_sys \<Rightarrow> bool" where
  "cb_step a b \<longleftrightarrow> cb_update_step a b \<or> cb_reset_step a b"

definition cb_inv :: "int \<Rightarrow> cb_sys \<Rightarrow> bool" where
  "cb_inv th s \<longleftrightarrow> cb_open_threshold (cbs_cb s) = th
     \<and> cb_daily_pnl (cbs_cb s) = i64 (sum_list (cbs_deltas s))
     \<and> (cb_allow_order (cbs_cb s) \<longleftrightarrow> (\<forall>n \<in> set (cbs_seen s). th < n))"

lemma cb_update_step_inv: "cb_update_step s s' \<Longrightarrow> cb_inv th s \<Longrightarrow> cb_inv th s'"
proof (induction rule: cb_update_step.induct)
  case (add s t d cb' n)
  then show ?case
    by (auto simp: cb_inv_def cb_fetch_add_def Let_def cb_allow_order_def i64_simps add.commute)
next
  case (decide s t n)
  then show ?case by (auto simp: cb_inv_def cb_decide_allow)
qed

lemma cb_update_steps_inv: "cb_update_step\<^sup>*\<^sup>* s s' \<Longrightarrow> cb_inv th s \<Longrightarrow> cb_inv th s'"
  by (induction rule: rtranclp_induct) (auto intro: cb_update_step_inv)

text \<open>
  The breaker under concurrency: with any number of threads updating in any
  interleaving, no delta is lost, and once every update has returned orders are blocked exactly
  when one of the updates produced a total at or below the threshold.
\<close>

theorem breaker_concurrent_updates:
  assumes "cb_update_step\<^sup>*\<^sup>* (cbs_init th) s"
  shows "cb_daily_pnl (cbs_cb s) = i64 (sum_list (cbs_deltas s))
    \<and> (cb_allow_order (cbs_cb s) \<longleftrightarrow> (\<forall>n \<in> set (cbs_seen s). th < n))"
proof -
  have "cb_inv th (cbs_init th)"
    by (simp add: cb_inv_def cbs_init_def cb_new_def cb_allow_order_def)
  from cb_update_steps_inv [OF assms this] show ?thesis by (simp add: cb_inv_def)
qed

theorem breaker_concurrent_updates_witness:
  "\<exists>s. cb_update_step\<^sup>*\<^sup>* (cbs_init (-100)) s \<and> cbs_seen s = [-120] \<and> \<not> cb_allow_order (cbs_cb s)"
proof -
  let ?s0 = "cbs_init (-100)"
  let ?s1 = "?s0\<lparr>cbs_cb := fst (cb_fetch_add (-120) (cbs_cb ?s0)),
    cbs_pcs := (cbs_pcs ?s0)(0 := Cb_added (-120)), cbs_deltas := [-120]\<rparr>"
  let ?s2 = "?s1\<lparr>cbs_cb := cb_decide (-120) (cbs_cb ?s1), cbs_pcs := (cbs_pcs ?s1)(0 := Cb_idle),
    cbs_seen := [-120]\<rparr>"
  have "cb_update_step ?s0 ?s1"
    using cb_update_step.add [of ?s0 0 "-120" "fst (cb_fetch_add (-120) (cbs_cb ?s0))" "-120"]
    by (simp add: cbs_init_def cb_fetch_add_def cb_new_def i64_id in_i64_def)
  moreover have "cb_update_step ?s1 ?s2"
    using cb_update_step.decide [of ?s1 0 "-120"] by (simp add: cbs_init_def)
  ultimately have r: "cb_update_step\<^sup>*\<^sup>* ?s0 ?s2" by simp
  from breaker_concurrent_updates [OF r] have "\<not> cb_allow_order (cbs_cb ?s2)" by simp
  with r show ?thesis by (intro exI [of _ ?s2]) simp
qed

lemma cb_path: "cb_step a b \<Longrightarrow> cb_step b c \<Longrightarrow> cb_step c d \<Longrightarrow> cb_step d e \<Longrightarrow> cb_step\<^sup>*\<^sup>* a e"
  by (meson converse_rtranclp_into_rtranclp r_into_rtranclp)

text \<open>
  A reset is not atomic: run against an update that has added but not yet decided,
  it can return with the total cleared and the breaker open nevertheless.
\<close>

theorem breaker_reset_race:
  "\<exists>s. cb_step\<^sup>*\<^sup>* (cbs_init (-100)) s
     \<and> (\<forall>t. cbs_pcs s t = Cb_idle) \<and> cb_daily_pnl (cbs_cb s) = 0 \<and> cb_state (cbs_cb s) = CB_OPEN"
proof -
  let ?s0 = "cbs_init (-100)"
  let ?s1 = "?s0\<lparr>cbs_cb := fst (cb_fetch_add (-120) (cbs_cb ?s0)),
    cbs_pcs := (cbs_pcs ?s0)(0 := Cb_added (-120)), cbs_deltas := [-120]\<rparr>"
  let ?s2 = "?s1\<lparr>cbs_cb := (cbs_cb ?s1)\<lparr>cb_daily_pnl := 0\<rparr>, cbs_pcs := (cbs_pcs ?s1)(1 := Cb_resetting)\<rparr>"
  let ?s3 = "?s2\<lparr>cbs_cb := (cbs_cb ?s2)\<lparr>cb_state := CB_CLOSED\<rparr>, cbs_pcs := (cbs_pcs ?s2)(1 := Cb_idle)\<rparr>"
  let ?s4 = "?s3\<lparr>cbs_cb := cb_decide (-120) (cbs_cb ?s3), cbs_pcs := (cbs_pcs ?s3)(0 := Cb_idle),
    cbs_seen := [-120]\<rparr>"
  have r1: "cb_step ?s0 ?s1"
    unfolding cb_step_def using cb_update_step.add [of ?s0 0 "-120" "fst (cb_fetch_add (-120) (cbs_cb ?s0))" "-120"]
    by (simp add: cbs_init_def cb_fetch_add_def cb_new_def i64_id in_i64_def)
  have r2: "cb_step ?s1 ?s2" "cb_step ?s2 ?s3"
    unfolding cb_step_def using cb_reset_step.clear_pnl [of ?s1 1] cb_reset_step.close [of ?s2 1]
    by (simp_all add: cbs_init_def)
  have r3: "cb_step ?s3 ?s4"
    unfolding cb_step_def using cb_update_step.decide [of ?s3 0 "-120"] by (simp add: cbs_init_def)
  note cb_path [OF r1 r2 r3]
  moreover have "cb_state (cbs_cb ?s4) = CB_OPEN" "cb_daily_pnl (cbs_cb ?s4) = 0"
    "\<forall>t. cbs_pcs ?s4 t = Cb_idle"
    by (simp_all add: cbs_init_def cb_new_def cb_fetch_add_def cb_decide_def cas_state_def Let_def)
  ultimately show ?thesis by blast
qed

end
