(* ===== verification/Atomic_Cell.thy ===== *)
theory Atomic_Cell
  imports Prelude
begin

text \<open>
  Compare-and-swap loops on one \<^verbatim>\<open>std::atomic\<close>, the shape of
  \<^verbatim>\<open>PositionLimits::check_and_reserve\<close>, \<^verbatim>\<open>RateLimiter::refill\<close> and \<^verbatim>\<open>RateLimiter::try_acquire\<close>:
  load the cell, compute the next value or give up, \<^verbatim>\<open>compare_exchange_weak\<close>, and on failure
  start again with the value the exchange loaded.  The body of the loop is the parameter
  \<open>f :: 'op \<Rightarrow> 'v \<Rightarrow> 'v option\<close>.  Any number of threads run such loops in any interleaving; a
  ghost log records the operations in the order in which they take effect.  The main lemma is
  linearizability: running the log sequentially gives every outcome and the cell.
\<close>

subsection \<open>The concurrent loop\<close>

datatype ('op, 'v) cas_pc =
    Cas_idle
  | Cas_start 'op          \<comment> \<open>before the first load\<close>
  | Cas_loaded 'op 'v      \<comment> \<open>holds the last value seen\<close>
  | Cas_done 'op bool      \<comment> \<open>returned\<close>

record ('op, 'v) cas_sys =
  cas_cell :: 'v
  cas_threads :: "nat \<Rightarrow> ('op, 'v) cas_pc"
  cas_log :: "('op \<times> bool) list"

definition cas_init :: "'v \<Rightarrow> ('op, 'v) cas_sys" where
  "cas_init v = \<lparr>cas_cell = v, cas_threads = (\<lambda>_. Cas_idle), cas_log = []\<rparr>"

text \<open>Seeing \<open>v\<close>: the loop body is decided; a refusal takes effect here.\<close>

definition cas_see :: "('op \<Rightarrow> 'v \<Rightarrow> 'v option) \<Rightarrow> nat \<Rightarrow> 'op \<Rightarrow> ('op, 'v) cas_sys \<Rightarrow> ('op, 'v) cas_sys" where
  "cas_see f t a s = s\<lparr>cas_threads := (cas_threads s)(t := Cas_loaded a (cas_cell s)),
     cas_log := (case f a (cas_cell s) of None \<Rightarrow> cas_log s @ [(a, False)] | Some v \<Rightarrow> cas_log s)\<rparr>"

inductive cas_step :: "('op \<Rightarrow> 'v \<Rightarrow> 'v option) \<Rightarrow> ('op, 'v) cas_sys \<Rightarrow> ('op, 'v) cas_sys \<Rightarrow> bool" for f where
  call: "cas_threads s t = Cas_idle \<or> cas_threads s t = Cas_done b ok \<Longrightarrow>
    cas_step f s (s\<lparr>cas_threads := (cas_threads s)(t := Cas_start a)\<rparr>)"
| load: "cas_threads s t = Cas_start a \<Longrightarrow> cas_step f s (cas_see f t a s)"
| give_up: "cas_threads s t = Cas_loaded a v \<Longrightarrow> f a v = None \<Longrightarrow>
    cas_step f s (s\<lparr>cas_threads := (cas_threads s)(t := Cas_done a False)\<rparr>)"
| exchange: "cas_threads s t = Cas_loaded a v \<Longrightarrow> f a v = Some w \<Longrightarrow> cas_cell s = v \<Longrightarrow>
    cas_step f s (s\<lparr>cas_cell := w, cas_threads := (cas_threads s)(t := Cas_done a True),
                   cas_log := cas_log s @ [(a, True)]\<rparr>)"
| retry: "cas_threads s t = Cas_loaded a v \<Longrightarrow> f a v = Some w \<Longrightarrow>
    cas_step f s (cas_see f t a s)"   \<comment> \<open>the exchange failed, for a change of the cell or spuriously\<close>

inductive cas_reachable :: "('op \<Rightarrow> 'v \<Rightarrow> 'v option) \<Rightarrow> 'v \<Rightarrow> ('op, 'v) cas_sys \<Rightarrow> bool" for f v0 where
  init: "cas_reachable f v0 (cas_init v0)"
| step: "cas_reachable f v0 s \<Longrightarrow> cas_step f s s' \<Longrightarrow> cas_reachable f v0 s'"

subsection \<open>Linearizability\<close>

fun cas_seq :: "('op \<Rightarrow> 'v \<Rightarrow> 'v option) \<Rightarrow> ('op \<times> bool) list \<Rightarrow> 'v \<Rightarrow> 'v option" where
  "cas_seq f [] v = Some v"
| "cas_seq f ((a, ok) # l) v = (case f a v of
     None \<Rightarrow> if ok then None else cas_seq f l v
   | Some w \<Rightarrow> if ok then cas_seq f l w else None)"

lemma cas_seq_append:
  "cas_seq f (l1 @ l2) v = (case cas_seq f l1 v of None \<Rightarrow> None | Some w \<Rightarrow> cas_seq f l2 w)"
  by (induction f l1 v rule: cas_seq.induct) (auto split: option.splits)

fun cas_pc_ok :: "('op \<Rightarrow> 'v \<Rightarrow> 'v option) \<Rightarrow> ('op \<times> bool) list \<Rightarrow> ('op, 'v) cas_pc \<Rightarrow> bool" where
  "cas_pc_ok f l (Cas_loaded a v) = (f a v = None \<longrightarrow> (a, False) \<in> set l)"
| "cas_pc_ok f l (Cas_done a ok) = ((a, ok) \<in> set l)"
| "cas_pc_ok f l Cas_idle = True"
| "cas_pc_ok f l (Cas_start a) = True"

definition cas_linear :: "('op \<Rightarrow> 'v \<Rightarrow> 'v option) \<Rightarrow> 'v \<Rightarrow> ('op, 'v) cas_sys \<Rightarrow> bool" where
  "cas_linear f v0 s \<longleftrightarrow> cas_seq f (cas_log s) v0 = Some (cas_cell s)
     \<and> (\<forall>t. cas_pc_ok f (cas_log s) (cas_threads s t))"

lemma cas_pc_ok_mono: "cas_pc_ok f l p \<Longrightarrow> cas_pc_ok f (l @ l') p"
  by (cases p) auto

lemma cas_see_linear: "cas_linear f v0 s \<Longrightarrow> cas_linear f v0 (cas_see f t a s)"
  by (auto simp: cas_linear_def cas_see_def cas_seq_append cas_pc_ok_mono split: option.splits)

lemma cas_step_linear: "cas_step f s s' \<Longrightarrow> cas_linear f v0 s \<Longrightarrow> cas_linear f v0 s'"
proof (induction rule: cas_step.induct)
  case (give_up s t a v)
  then have "cas_pc_ok f (cas_log s) (Cas_loaded a v)" by (metis cas_linear_def)
  with give_up show ?case by (auto simp: cas_linear_def)
next
  case (exchange s t a v w)
  then show ?case by (auto simp: cas_linear_def cas_seq_append cas_pc_ok_mono)
qed (auto simp: cas_linear_def intro!: cas_see_linear [unfolded cas_linear_def])

lemma cas_reachable_linear: "cas_reachable f v0 s \<Longrightarrow> cas_linear f v0 s"
proof (induction rule: cas_reachable.induct)
  case init
  show ?case by (simp add: cas_linear_def cas_init_def)
qed (rule cas_step_linear)

text \<open>An operation that returned has its outcome in the log.\<close>

lemma cas_reachable_done:
  "cas_reachable f v0 s \<Longrightarrow> cas_threads s t = Cas_done a ok \<Longrightarrow> (a, ok) \<in> set (cas_log s)"
  using cas_reachable_linear by (metis cas_linear_def cas_pc_ok.simps(2))

subsection \<open>The contract of a loop body\<close>

text \<open>
  What a client of the loop promises about its body: legal operations keep an invariant of the
  cell and raise its measure by at most their weight.  Both then hold of the concurrent
  object, in every interleaving.
\<close>

locale cas_object =
  fixes f :: "'op \<Rightarrow> 'v \<Rightarrow> 'v option" and invar :: "'v \<Rightarrow> bool"
    and legal :: "'op \<Rightarrow> bool" and meas :: "'v \<Rightarrow> int" and weight :: "'op \<Rightarrow> int"
  assumes keeps: "invar v \<Longrightarrow> legal a \<Longrightarrow> f a v = Some w \<Longrightarrow> invar w"
    and raises: "invar v \<Longrightarrow> legal a \<Longrightarrow> f a v = Some w \<Longrightarrow> meas w \<le> meas v + weight a"
begin

lemma seq_bound:
  "cas_seq f l v = Some w \<Longrightarrow> invar v \<Longrightarrow> \<forall>(a, ok) \<in> set l. legal a \<Longrightarrow>
   invar w \<and> meas w \<le> meas v + (\<Sum>(a, ok)\<leftarrow>l. if ok then weight a else 0)"
proof (induction l arbitrary: v)
  case (Cons e l)
  obtain a ok where e: "e = (a, ok)" by force
  then have leg: "legal a" "\<forall>(a, ok) \<in> set l. legal a" using Cons.prems(3) by auto
  show ?case
  proof (cases "f a v")
    case None
    then show ?thesis using Cons.IH [OF _ Cons.prems(2) leg(2)] Cons.prems(1) e
      by (simp split: if_splits)
  next
    case (Some u)
    then have "cas_seq f l u = Some w" "ok" using Cons.prems(1) e by (simp_all split: if_splits)
    from Cons.IH [OF this(1) keeps [OF Cons.prems(2) leg(1) Some] leg(2)] this(2)
    show ?thesis using raises [OF Cons.prems(2) leg(1) Some] e by simp
  qed
qed simp

lemma reachable_bound:
  assumes "cas_reachable f v0 s" and "invar v0" and "\<forall>(a, ok) \<in> set (cas_log s). legal a"
  shows "invar (cas_cell s)"
    and "meas (cas_cell s) \<le> meas v0 + (\<Sum>(a, ok)\<leftarrow>cas_log s. if ok then weight a else 0)"
  using seq_bound [of "cas_log s" v0 "cas_cell s"] cas_reachable_linear [OF assms(1)] assms(2,3)
  by (auto simp: cas_linear_def)

end

end
