(* ===== verification/Rate_Limiter.thy ===== *)
theory Rate_Limiter
  imports Types Atomic_Cell
begin

text \<open>
  \<^verbatim>\<open>src/risk/rate_limiter.cpp\<close>: the token bucket, in thousandths of a token.  \<open>get_ns()\<close> is the
  argument \<open>now\<close> of each call.  The sequential functions model a call that is not interrupted;
  the two loops on \<open>tokens_\<close> are also an instance of \<open>Atomic_Cell\<close>.
\<close>

subsection \<open>The operations\<close>

record rate_limiter =
  rl_tokens :: int
  rl_last_refill_ns :: int
  rl_burst_scaled :: int
  rl_rate_ns_scaled :: int

definition rl_new :: "int \<Rightarrow> int \<Rightarrow> int \<Rightarrow> rate_limiter" where
  "rl_new now rate_per_sec burst = \<lparr>rl_tokens = i64 (burst * 1000), rl_last_refill_ns = now,
     rl_burst_scaled = i64 (burst * 1000), rl_rate_ns_scaled = i64 (rate_per_sec * 1000)\<rparr>"

definition refill_amount :: "int \<Rightarrow> int \<Rightarrow> int" where
  "refill_amount elapsed_ns rate = cdiv (i64 (elapsed_ns * rate)) 1000000000"

datatype token_op = Add_tokens int | Take_tokens int

text \<open>The bodies of the two loops on \<open>tokens_\<close>.\<close>

definition token_body :: "int \<Rightarrow> token_op \<Rightarrow> int \<Rightarrow> int option" where
  "token_body burst_scaled a cur = (case a of
       Add_tokens add_scaled \<Rightarrow>
         (let new_tokens = i64 (cur + add_scaled)
          in Some (if new_tokens > burst_scaled then burst_scaled else new_tokens))
     | Take_tokens need \<Rightarrow> if cur < need then None else Some (i64 (cur - need)))"

definition rl_refill :: "int \<Rightarrow> rate_limiter \<Rightarrow> rate_limiter \<times> int" where
  "rl_refill now rl =
     (let elapsed_ns = i64 (now - rl_last_refill_ns rl) in
      if elapsed_ns \<le> 0 then (rl, rl_tokens rl)
      else let add_scaled = refill_amount elapsed_ns (rl_rate_ns_scaled rl) in
        if add_scaled \<le> 0 then (rl, rl_tokens rl)
        else case token_body (rl_burst_scaled rl) (Add_tokens add_scaled) (rl_tokens rl) of
               None \<Rightarrow> (rl, rl_tokens rl)
             | Some new_tokens \<Rightarrow> (rl\<lparr>rl_last_refill_ns := now, rl_tokens := new_tokens\<rparr>, new_tokens))"

definition rl_try_acquire :: "int \<Rightarrow> int \<Rightarrow> rate_limiter \<Rightarrow> rate_limiter \<times> bool" where
  "rl_try_acquire now n rl =
     (let (rl1, _) = rl_refill now rl; need = i64 (n * 1000) in
      case token_body (rl_burst_scaled rl1) (Take_tokens need) (rl_tokens rl1) of
        None \<Rightarrow> (rl1, False)
      | Some t \<Rightarrow> (rl1\<lparr>rl_tokens := t\<rparr>, True))"

subsection \<open>The bucket under concurrent loops\<close>

definition token_legal :: "token_op \<Rightarrow> bool" where
  "token_legal a = (case a of Add_tokens d \<Rightarrow> 0 \<le> d \<and> d < 2 ^ 62 | Take_tokens n \<Rightarrow> 0 \<le> n)"

definition token_weight :: "token_op \<Rightarrow> int" where
  "token_weight a = (case a of Add_tokens d \<Rightarrow> d | Take_tokens n \<Rightarrow> - n)"

definition bucket_ok :: "int \<Rightarrow> int \<Rightarrow> bool" where
  "bucket_ok burst v \<longleftrightarrow> 0 \<le> v \<and> v \<le> burst \<and> burst < 2 ^ 62"

lemma token_body_Some:
  assumes "bucket_ok burst v" and "token_legal a" and "token_body burst a v = Some w"
  shows "bucket_ok burst w" and "w \<le> v + token_weight a"
proof -
  have "bucket_ok burst w \<and> w \<le> v + token_weight a"
  proof (cases a)
    case (Add_tokens d)
    then have "in_i64 (v + d)" using assms(1,2) by (auto simp: bucket_ok_def token_legal_def in_i64_def)
    then show ?thesis using assms Add_tokens
      by (auto simp: token_body_def Let_def i64_id bucket_ok_def token_legal_def token_weight_def)
  next
    case (Take_tokens n)
    then have "in_i64 (v - n)" if "n \<le> v"
      using assms(1,2) that by (auto simp: bucket_ok_def token_legal_def in_i64_def)
    then show ?thesis using assms Take_tokens
      by (auto simp: token_body_def i64_id bucket_ok_def token_legal_def token_weight_def split: if_splits)
  qed
  then show "bucket_ok burst w" "w \<le> v + token_weight a" by auto
qed

interpretation bucket: cas_object "token_body burst" "bucket_ok burst" token_legal "\<lambda>v. v" token_weight
  for burst
  by unfold_locales (auto intro: token_body_Some)

text \<open>
  Claim C20.  The bucket under concurrency: however refills and acquisitions interleave, the
  tokens stay between 0 and the burst, and the tokens granted never exceed the tokens at the start
  plus the tokens added.
\<close>

theorem concurrent_bucket_bound:
  assumes "cas_reachable (token_body burst) v0 s" and "0 \<le> v0" and "v0 \<le> burst" and "burst < 2 ^ 62"
    and "\<forall>(a, ok) \<in> set (cas_log s). token_legal a"
  shows "0 \<le> cas_cell s \<and> cas_cell s \<le> burst
    \<and> (\<Sum>(a, ok)\<leftarrow>cas_log s. case a of Take_tokens n \<Rightarrow> if ok then n else 0 | Add_tokens d \<Rightarrow> 0)
      \<le> v0 + (\<Sum>(a, ok)\<leftarrow>cas_log s. case a of Add_tokens d \<Rightarrow> if ok then d else 0 | Take_tokens n \<Rightarrow> 0)"
proof -
  have v0: "bucket_ok burst v0" using assms(2,3,4) by (simp add: bucket_ok_def)
  note b = bucket.reachable_bound [OF assms(1) v0 assms(5)]
  have "(\<Sum>(a, ok)\<leftarrow>l. if ok then token_weight a else 0)
    = (\<Sum>(a, ok)\<leftarrow>l. case a of Add_tokens d \<Rightarrow> if ok then d else 0 | Take_tokens n \<Rightarrow> 0)
    - (\<Sum>(a, ok)\<leftarrow>l. case a of Take_tokens n \<Rightarrow> if ok then n else 0 | Add_tokens d \<Rightarrow> 0)"
    for l :: "(token_op \<times> bool) list"
    by (induction l) (auto simp: token_weight_def split: token_op.splits)
  with b show ?thesis by (simp add: bucket_ok_def)
qed

theorem concurrent_bucket_bound_witness:
  "\<exists>s. cas_reachable (token_body 5000) 0 s \<and> cas_log s = [(Take_tokens 1000, False)]
     \<and> cas_cell s \<le> 5000"
proof -
  let ?f = "token_body 5000" and ?s0 = "cas_init 0 :: (token_op, int) cas_sys"
  let ?s1 = "?s0\<lparr>cas_threads := (cas_threads ?s0)(0 := Cas_start (Take_tokens 1000))\<rparr>"
  let ?s2 = "cas_see ?f 0 (Take_tokens 1000) ?s1"
  have "cas_reachable ?f 0 ?s1"
    by (rule cas_reachable.step [OF cas_reachable.init], rule cas_step.call) (simp add: cas_init_def)
  then have r: "cas_reachable ?f 0 ?s2"
    by (rule cas_reachable.step, intro cas_step.load) (simp add: cas_init_def)
  have l: "cas_log ?s2 = [(Take_tokens 1000, False)]"
    by (simp add: cas_init_def cas_see_def token_body_def)
  from concurrent_bucket_bound [OF r] l have "cas_cell ?s2 \<le> 5000" by (simp add: token_legal_def)
  with r l show ?thesis by blast
qed

subsection \<open>Sequential calls\<close>

definition rl_ok :: "rate_limiter \<Rightarrow> bool" where
  "rl_ok rl \<longleftrightarrow> bucket_ok (rl_burst_scaled rl) (rl_tokens rl) \<and> 0 \<le> rl_rate_ns_scaled rl
     \<and> 0 \<le> rl_last_refill_ns rl \<and> rl_last_refill_ns rl < 2 ^ 63"

lemma refill_amount_bounds:
  assumes "0 \<le> e" and "0 \<le> r"
  shows "refill_amount e r * 1000000000 \<le> e * r" and "refill_amount e r < 2 ^ 61"
proof -
  let ?p = "i64 (e * r)"
  have p: "?p \<le> e * r" using i64_le_self assms by simp
  have "?p < 2 ^ 63" using in_i64_i64 [of "e * r"] by (simp add: in_i64_def)
  moreover have "0 \<le> ?p \<Longrightarrow> refill_amount e r = ?p div 1000000000"
    by (simp add: refill_amount_def cdiv_nonneg)
  moreover have "?p < 0 \<Longrightarrow> refill_amount e r \<le> 0"
    by (simp add: refill_amount_def cdiv_def signed_divide_int_def sgn_if)
  moreover have "0 \<le> e * r" using assms by simp
  ultimately show "refill_amount e r * 1000000000 \<le> e * r" "refill_amount e r < 2 ^ 61"
    using p by (cases "0 \<le> ?p"; force)+
qed

lemma rl_refill_step:
  assumes "rl_ok rl" and "0 \<le> now" and "now < 2 ^ 63"
  shows "let rl' = fst (rl_refill now rl) in rl_ok rl'
    \<and> rl_burst_scaled rl' = rl_burst_scaled rl \<and> rl_rate_ns_scaled rl' = rl_rate_ns_scaled rl
    \<and> rl_last_refill_ns rl \<le> rl_last_refill_ns rl' \<and> rl_last_refill_ns rl' \<le> max now (rl_last_refill_ns rl)
    \<and> (rl_tokens rl' - rl_tokens rl) * 1000000000
        \<le> (rl_last_refill_ns rl' - rl_last_refill_ns rl) * rl_rate_ns_scaled rl"
proof -
  let ?e = "now - rl_last_refill_ns rl" and ?r = "rl_rate_ns_scaled rl"
  let ?add = "refill_amount ?e ?r"
  have e: "i64 ?e = ?e" using assms by (intro i64_id) (simp add: rl_ok_def in_i64_def)
  show ?thesis
  proof (cases "0 < ?e \<and> 0 < ?add")
    case False
    then have "fst (rl_refill now rl) = rl" by (auto simp: rl_refill_def Let_def e)
    then show ?thesis using assms(1) by (simp add: Let_def)
  next
    case True
    note a = refill_amount_bounds [of ?e ?r]
    have leg: "token_legal (Add_tokens ?add)"
      using True a(2) assms(1) by (simp add: token_legal_def rl_ok_def)
    obtain w where w: "token_body (rl_burst_scaled rl) (Add_tokens ?add) (rl_tokens rl) = Some w"
      by (simp add: token_body_def Let_def)
    have rf: "fst (rl_refill now rl) = rl\<lparr>rl_last_refill_ns := now, rl_tokens := w\<rparr>"
      using True w by (simp add: rl_refill_def Let_def e)
    have ok: "bucket_ok (rl_burst_scaled rl) (rl_tokens rl)" using assms(1) by (simp add: rl_ok_def)
    note s = token_body_Some [OF ok leg w]
    have "(w - rl_tokens rl) * 1000000000 \<le> ?add * 1000000000"
      using s(2) by (simp add: token_weight_def)
    also have "\<dots> \<le> ?e * ?r" using True a(1) assms(1) by (simp add: rl_ok_def)
    finally show ?thesis
      using s(1) True assms by (simp add: rf Let_def rl_ok_def)
  qed
qed

lemma rl_try_acquire_step:
  assumes "rl_ok rl" and "0 \<le> now" and "now < 2 ^ 63" and "0 \<le> n" and "n \<le> 2 ^ 52"
    and "rl_try_acquire now n rl = (rl', ok)"
  shows "rl_ok rl' \<and> rl_burst_scaled rl' = rl_burst_scaled rl \<and> rl_rate_ns_scaled rl' = rl_rate_ns_scaled rl
    \<and> rl_last_refill_ns rl \<le> rl_last_refill_ns rl' \<and> rl_last_refill_ns rl' \<le> max now (rl_last_refill_ns rl)
    \<and> (rl_tokens rl' + (if ok then n * 1000 else 0) - rl_tokens rl) * 1000000000
        \<le> (rl_last_refill_ns rl' - rl_last_refill_ns rl) * rl_rate_ns_scaled rl"
proof -
  let ?r = "fst (rl_refill now rl)"
  note r = rl_refill_step [OF assms(1,2,3), unfolded Let_def]
  have need: "i64 (n * 1000) = n * 1000" using assms(4,5) by (intro i64_id) (simp add: in_i64_def)
  have eq: "rl_try_acquire now n rl = (case token_body (rl_burst_scaled ?r) (Take_tokens (n * 1000)) (rl_tokens ?r) of
      None \<Rightarrow> (?r, False) | Some t \<Rightarrow> (?r\<lparr>rl_tokens := t\<rparr>, True))"
    by (simp add: rl_try_acquire_def need Let_def case_prod_beta)
  show ?thesis
  proof (cases "token_body (rl_burst_scaled ?r) (Take_tokens (n * 1000)) (rl_tokens ?r)")
    case None
    then have "rl' = ?r" "\<not> ok" using eq assms(6) by auto
    then show ?thesis using r by simp
  next
    case (Some t)
    then have eq': "rl' = ?r\<lparr>rl_tokens := t\<rparr>" "ok" using eq assms(6) by auto
    have "bucket_ok (rl_burst_scaled ?r) (rl_tokens ?r)" using r unfolding rl_ok_def by blast
    moreover have "token_legal (Take_tokens (n * 1000))" using assms(4) by (simp add: token_legal_def)
    ultimately have "bucket_ok (rl_burst_scaled ?r) t" "t + n * 1000 \<le> rl_tokens ?r"
      using token_body_Some [OF _ _ Some] by (auto simp: token_weight_def)
    then show ?thesis using r by (auto simp: eq' rl_ok_def)
  qed
qed

text \<open>A run of calls \<open>(now, n)\<close>; the result is what each call returned.\<close>

fun rl_run :: "(int \<times> int) list \<Rightarrow> rate_limiter \<Rightarrow> rate_limiter \<times> int" where
  "rl_run [] rl = (rl, 0)"
| "rl_run ((now, n) # cs) rl =
     (let (rl1, ok) = rl_try_acquire now n rl; (rl2, g) = rl_run cs rl1
      in (rl2, (if ok then n else 0) + g))"

lemma rl_run_step:
  "rl_ok rl \<Longrightarrow> \<forall>(now, n) \<in> set cs. 0 \<le> now \<and> now \<le> T \<and> 0 \<le> n \<and> n \<le> 2 ^ 52 \<Longrightarrow> T < 2 ^ 63 \<Longrightarrow>
   rl_last_refill_ns rl \<le> T \<Longrightarrow> rl_run cs rl = (rl', g) \<Longrightarrow>
   rl_ok rl' \<and> rl_last_refill_ns rl' \<le> T
   \<and> (rl_tokens rl' + g * 1000 - rl_tokens rl) * 1000000000
       \<le> (rl_last_refill_ns rl' - rl_last_refill_ns rl) * rl_rate_ns_scaled rl"
proof (induction cs arbitrary: rl rl' g)
  case (Cons c cs)
  obtain now n where c: "c = (now, n)" by force
  obtain rl1 ok where 1: "rl_try_acquire now n rl = (rl1, ok)" by force
  obtain rl2 g2 where 2: "rl_run cs rl1 = (rl2, g2)" by force
  have fin: "rl' = rl2" "g = (if ok then n else 0) + g2"
    using Cons.prems(5) 1 2 by (simp_all add: c Let_def)
  have s: "rl_ok rl1" "rl_rate_ns_scaled rl1 = rl_rate_ns_scaled rl"
    "rl_last_refill_ns rl1 \<le> T" "(rl_tokens rl1 + (if ok then n * 1000 else 0) - rl_tokens rl) * 1000000000
        \<le> (rl_last_refill_ns rl1 - rl_last_refill_ns rl) * rl_rate_ns_scaled rl"
    using rl_try_acquire_step [OF Cons.prems(1) _ _ _ _ 1] Cons.prems(2,3,4) by (auto simp: c)
  from Cons.IH [OF s(1) _ Cons.prems(3) s(3) 2] Cons.prems(2)
  have "rl_ok rl2 \<and> rl_last_refill_ns rl2 \<le> T \<and> (rl_tokens rl2 + g2 * 1000 - rl_tokens rl1) * 1000000000
       \<le> (rl_last_refill_ns rl2 - rl_last_refill_ns rl1) * rl_rate_ns_scaled rl"
    by (simp add: s(2))
  with s(4) show ?case by (simp add: fin left_diff_distrib distrib_right split: if_splits)
qed simp

text \<open>
  Claim C21.  The rate limit: in any window of calls that do not interrupt each other (two threads that
  refill at once are both credited, see \<open>concurrent_refill_credits_twice\<close>), starting from any state the
  bucket can be in, the tokens granted are at most the tokens available at its start plus the rate
  times the elapsed time.  It holds whatever the arithmetic does: an overflowing refill only
  grants less.
\<close>

theorem rate_limit_holds:
  assumes "rl_ok rl" and "rl_last_refill_ns rl \<le> T" and "T < 2 ^ 63"
    and "\<forall>(now, n) \<in> set cs. 0 \<le> now \<and> now \<le> T \<and> 0 \<le> n \<and> n \<le> 2 ^ 52"
  shows "let (rl', granted) = rl_run cs rl in rl_ok rl'
    \<and> granted * 1000 * 1000000000
        \<le> rl_tokens rl * 1000000000 + (T - rl_last_refill_ns rl) * rl_rate_ns_scaled rl"
proof -
  obtain rl' g where r: "rl_run cs rl = (rl', g)" by force
  note s = rl_run_step [OF assms(1,4,3,2) r]
  have "(rl_last_refill_ns rl' - rl_last_refill_ns rl) * rl_rate_ns_scaled rl
      \<le> (T - rl_last_refill_ns rl) * rl_rate_ns_scaled rl"
    using s assms(1) by (intro mult_right_mono) (auto simp: rl_ok_def)
  moreover have "0 \<le> rl_tokens rl'" using s by (simp add: rl_ok_def bucket_ok_def)
  ultimately show ?thesis using s by (simp add: r left_diff_distrib distrib_right)
qed

theorem rate_limit_holds_witness:
  "let (rl', granted) = rl_run [(0, 1), (0, 1), (0, 1), (1500000000, 1), (1500000000, 1)] (rl_new 0 1 2)
   in granted * 1000 * 1000000000 \<le> 2000 * 1000000000 + 1500000000 * 1000"
  using rate_limit_holds [of "rl_new 0 1 2" 1500000000
      "[(0, 1), (0, 1), (0, 1), (1500000000, 1), (1500000000, 1)]"]
  by (simp add: rl_ok_def rl_new_def i64_id in_i64_def bucket_ok_def case_prod_beta Let_def)

text \<open>
  The bucket does refill: if the elapsed time has earned enough tokens for the
  request, the request fits in the burst, and the product of elapsed nanoseconds and scaled rate
  fits in 64 bits, then the acquisition succeeds.
\<close>

theorem acquire_succeeds_when_earned:
  assumes "rl_ok rl" and "0 \<le> now" and "now < 2 ^ 63" and "0 \<le> n" and "n * 1000 \<le> rl_burst_scaled rl"
    and "(now - rl_last_refill_ns rl) * rl_rate_ns_scaled rl < 2 ^ 63"
    and "n * 1000 * 1000000000 \<le> (now - rl_last_refill_ns rl) * rl_rate_ns_scaled rl"
  shows "snd (rl_try_acquire now n rl)"
proof -
  let ?e = "now - rl_last_refill_ns rl" and ?r = "rl_rate_ns_scaled rl"
  let ?t = "rl_tokens (fst (rl_refill now rl))" and ?add = "refill_amount ?e ?r"
  have r0: "0 \<le> ?r" "0 \<le> rl_tokens rl" "rl_tokens rl \<le> rl_burst_scaled rl" "rl_burst_scaled rl < 2 ^ 62"
    using assms(1) by (auto simp: rl_ok_def bucket_ok_def)
  have need: "i64 (n * 1000) = n * 1000" using assms(4,5) r0 by (intro i64_id) (simp add: in_i64_def)
  have "n * 1000 \<le> ?t"
  proof (cases "n = 0")
    case True
    have "rl_ok (fst (rl_refill now rl))" using rl_refill_step [OF assms(1,2,3)] by (simp add: Let_def)
    then show ?thesis using True by (simp add: rl_ok_def bucket_ok_def)
  next
    case False
    have p: "0 < ?e * ?r" using assms(4,7) False by linarith
    then have e: "0 < ?e" using r0(1) by (auto simp: zero_less_mult_iff)
    have e': "i64 ?e = ?e" using assms(1-3) by (intro i64_id) (simp add: rl_ok_def in_i64_def)
    have pr: "i64 (?e * ?r) = ?e * ?r" using assms(6) p by (intro i64_id) (simp add: in_i64_def)
    have add: "?add = ?e * ?r div 1000000000" using p pr by (simp add: refill_amount_def cdiv_nonneg)
    then have add': "n * 1000 \<le> ?add" using zdiv_mono1 [OF assms(7), of 1000000000] by simp
    then have pos: "0 < ?add" using assms(4) False by linarith
    have "?add < 2 ^ 61" using refill_amount_bounds(2) [of ?e ?r] e r0(1) by simp
    then have "i64 (rl_tokens rl + ?add) = rl_tokens rl + ?add"
      using r0 pos by (intro i64_id) (simp add: in_i64_def)
    then have "?t = min (rl_burst_scaled rl) (rl_tokens rl + ?add)"
      using e e' pos by (simp add: rl_refill_def token_body_def Let_def)
    then show ?thesis using add' assms(5) r0 by simp
  qed
  then show ?thesis
    by (simp add: rl_try_acquire_def need token_body_def case_prod_beta Let_def)
qed

theorem acquire_succeeds_when_earned_witness:
  "snd (rl_try_acquire 1000000 1 ((rl_new 0 1000 200)\<lparr>rl_tokens := 0\<rparr>))"
  using acquire_succeeds_when_earned [of "(rl_new 0 1000 200)\<lparr>rl_tokens := 0\<rparr>" 1000000 1]
  by (simp add: rl_ok_def rl_new_def bucket_ok_def i64_id in_i64_def)

text \<open>
  Past 64 bits the refill stops: when elapsed time times scaled rate lies in
  \<open>[2 ^ 63, 2 ^ 64)\<close> (2.6 idle hours at 1000 orders per second) the wrapped product is negative,
  nothing is added, \<open>last_refill_ns_\<close> is not advanced, and an empty bucket keeps refusing.
\<close>

theorem idle_overflow_starves:
  assumes "rl_ok rl" and "0 \<le> now" and "now < 2 ^ 63" and "0 \<le> n" and "n \<le> 2 ^ 52"
    and "2 ^ 63 \<le> (now - rl_last_refill_ns rl) * rl_rate_ns_scaled rl"
    and "(now - rl_last_refill_ns rl) * rl_rate_ns_scaled rl < 2 ^ 64"
    and "rl_tokens rl < n * 1000"
  shows "rl_try_acquire now n rl = (rl, False)"
proof -
  let ?e = "now - rl_last_refill_ns rl" and ?r = "rl_rate_ns_scaled rl"
  have e: "i64 ?e = ?e" using assms(1-3) by (intro i64_id) (simp add: rl_ok_def in_i64_def)
  have "i64 (?e * ?r) = i64 (?e * ?r - 2 ^ 64)" by (simp add: i64_eq_iff mod_diff_right_eq)
  also have "\<dots> = ?e * ?r - 2 ^ 64" using assms(6,7) by (intro i64_id) (simp add: in_i64_def)
  finally have "i64 (?e * ?r) < 0" using assms(7) by linarith
  then have "refill_amount ?e ?r \<le> 0"
    by (simp add: refill_amount_def cdiv_def signed_divide_int_def sgn_if)
  then have rf: "fst (rl_refill now rl) = rl" by (simp add: rl_refill_def Let_def e)
  have need: "i64 (n * 1000) = n * 1000" using assms(4,5) by (intro i64_id) (simp add: in_i64_def)
  show ?thesis using assms(8)
    by (simp add: rl_try_acquire_def rf need token_body_def case_prod_beta Let_def)
qed

theorem idle_overflow_starves_witness:
  "let rl = (rl_new 0 1000 200)\<lparr>rl_tokens := 0\<rparr>
   in rl_try_acquire 10000000000000 1 rl = (rl, False)"
  using idle_overflow_starves [of "(rl_new 0 1000 200)\<lparr>rl_tokens := 0\<rparr>" 10000000000000 1]
  by (simp add: rl_ok_def rl_new_def bucket_ok_def i64_id in_i64_def)

subsection \<open>Concurrent refills\<close>

text \<open>\<open>refill\<close> cut at its atomic accesses: the load of \<open>last_refill_ns_\<close>, the exchange on it (whose
  result the code ignores), and the loop on \<open>tokens_\<close>.\<close>

datatype refill_pc =
    Refill_idle
  | Refill_loaded int int      \<comment> \<open>now, last\<close>
  | Refill_adding int int      \<comment> \<open>add_scaled, old_tokens\<close>

record refill_sys =
  rfs_rl :: rate_limiter
  rfs_pcs :: "nat \<Rightarrow> refill_pc"

definition exchange_last :: "int \<Rightarrow> int \<Rightarrow> rate_limiter \<Rightarrow> rate_limiter" where
  "exchange_last expected desired rl =
     (if rl_last_refill_ns rl = expected then rl\<lparr>rl_last_refill_ns := desired\<rparr> else rl)"

definition refill_elapsed_add :: "int \<Rightarrow> int \<Rightarrow> rate_limiter \<Rightarrow> int" where
  "refill_elapsed_add now prev rl = (if i64 (now - prev) \<le> 0 then 0
     else refill_amount (i64 (now - prev)) (rl_rate_ns_scaled rl))"

inductive refill_step :: "refill_sys \<Rightarrow> refill_sys \<Rightarrow> bool" where
  load: "rfs_pcs s t = Refill_idle \<Longrightarrow>
    refill_step s (s\<lparr>rfs_pcs := (rfs_pcs s)(t := Refill_loaded now (rl_last_refill_ns (rfs_rl s)))\<rparr>)"
| nothing: "rfs_pcs s t = Refill_loaded now prev \<Longrightarrow> refill_elapsed_add now prev (rfs_rl s) \<le> 0 \<Longrightarrow>
    refill_step s (s\<lparr>rfs_pcs := (rfs_pcs s)(t := Refill_idle)\<rparr>)"
| advance: "rfs_pcs s t = Refill_loaded now prev \<Longrightarrow> refill_elapsed_add now prev (rfs_rl s) = d \<Longrightarrow> 0 < d \<Longrightarrow>
    refill_step s (s\<lparr>rfs_rl := exchange_last prev now (rfs_rl s),
                    rfs_pcs := (rfs_pcs s)(t := Refill_adding d (rl_tokens (rfs_rl s)))\<rparr>)"
| add: "rfs_pcs s t = Refill_adding d old \<Longrightarrow> rl_tokens (rfs_rl s) = old \<Longrightarrow>
    token_body (rl_burst_scaled (rfs_rl s)) (Add_tokens d) old = Some w \<Longrightarrow>
    refill_step s (s\<lparr>rfs_rl := (rfs_rl s)\<lparr>rl_tokens := w\<rparr>, rfs_pcs := (rfs_pcs s)(t := Refill_idle)\<rparr>)"
| retry: "rfs_pcs s t = Refill_adding d old \<Longrightarrow>
    refill_step s (s\<lparr>rfs_pcs := (rfs_pcs s)(t := Refill_adding d (rl_tokens (rfs_rl s)))\<rparr>)"

lemma refill_path6:
  "refill_step a b \<Longrightarrow> refill_step b c \<Longrightarrow> refill_step c d \<Longrightarrow> refill_step d e \<Longrightarrow> refill_step e f \<Longrightarrow>
   refill_step f g \<Longrightarrow> refill_step\<^sup>*\<^sup>* a g"
  by (meson converse_rtranclp_into_rtranclp r_into_rtranclp)

text \<open>
  Two threads that refill at once are both credited: the exchange on
  \<open>last_refill_ns_\<close> fails for the second, but its tokens are added all the same, so one elapsed
  millisecond at 1000 orders per second yields two tokens.
\<close>

theorem concurrent_refill_credits_twice:
  "\<exists>s. refill_step\<^sup>*\<^sup>* \<lparr>rfs_rl = (rl_new 0 1000 200)\<lparr>rl_tokens := 0\<rparr>, rfs_pcs = (\<lambda>_. Refill_idle)\<rparr> s
     \<and> (\<forall>t. rfs_pcs s t = Refill_idle) \<and> rl_last_refill_ns (rfs_rl s) = 1000000
     \<and> rl_tokens (rfs_rl s) = 2000"
proof -
  let ?rl = "\<lparr>rl_tokens = 0, rl_last_refill_ns = 0, rl_burst_scaled = 200000, rl_rate_ns_scaled = 1000000\<rparr>"
  let ?now = "1000000 :: int"
  have rl: "(rl_new 0 1000 200)\<lparr>rl_tokens := 0\<rparr> = ?rl" by (simp add: rl_new_def i64_id in_i64_def)
  have amount: "refill_elapsed_add ?now 0 r = 1000" if "rl_rate_ns_scaled r = 1000000" for r
    using that by (simp add: refill_elapsed_add_def refill_amount_def i64_id in_i64_def cdiv_nonneg)
  have body: "token_body 200000 (Add_tokens 1000) 0 = Some 1000"
    "token_body 200000 (Add_tokens 1000) 1000 = Some 2000"
    by (simp_all add: token_body_def i64_id in_i64_def)
  define pc :: "refill_pc \<Rightarrow> refill_pc \<Rightarrow> nat \<Rightarrow> refill_pc"
    where "pc a b = (\<lambda>_. Refill_idle)(0 := a, 1 := b)" for a b
  define sys where "sys r a b = \<lparr>rfs_rl = r, rfs_pcs = pc a b\<rparr>" for r a b
  have upd: "(pc a b)(0 := c) = pc c b" "(pc a b)(Suc 0 := c) = pc a c" "pc a b 0 = a" "pc a b (Suc 0) = b" for a b c
    by (auto simp: pc_def)
  let ?l = "Refill_loaded ?now 0" and ?i = Refill_idle and ?rl1 = "?rl\<lparr>rl_last_refill_ns := ?now\<rparr>"
  let ?w = "Refill_adding 1000"
  have "refill_step (sys ?rl ?i ?i) (sys ?rl ?l ?i)"
    using refill_step.load [of "sys ?rl ?i ?i" 0 ?now] by (simp add: sys_def upd)
  moreover have "refill_step (sys ?rl ?l ?i) (sys ?rl ?l ?l)"
    using refill_step.load [of "sys ?rl ?l ?i" 1 ?now] by (simp add: sys_def upd)
  moreover have "refill_step (sys ?rl ?l ?l) (sys ?rl1 (?w 0) ?l)"
    using refill_step.advance [of "sys ?rl ?l ?l" 0 ?now 0 1000]
    by (simp add: sys_def upd amount exchange_last_def)
  moreover have "refill_step (sys ?rl1 (?w 0) ?l) (sys (?rl1\<lparr>rl_tokens := 1000\<rparr>) ?i ?l)"
    using refill_step.add [of "sys ?rl1 (?w 0) ?l" 0 1000 0] by (simp add: sys_def upd body)
  moreover have "refill_step (sys (?rl1\<lparr>rl_tokens := 1000\<rparr>) ?i ?l) (sys (?rl1\<lparr>rl_tokens := 1000\<rparr>) ?i (?w 1000))"
    using refill_step.advance [of "sys (?rl1\<lparr>rl_tokens := 1000\<rparr>) ?i ?l" 1 ?now 0 1000]
    by (simp add: sys_def upd amount exchange_last_def)
  moreover have "refill_step (sys (?rl1\<lparr>rl_tokens := 1000\<rparr>) ?i (?w 1000)) (sys (?rl1\<lparr>rl_tokens := 2000\<rparr>) ?i ?i)"
    using refill_step.add [of "sys (?rl1\<lparr>rl_tokens := 1000\<rparr>) ?i (?w 1000)" 1 1000 1000]
    by (simp add: sys_def upd body)
  ultimately have "refill_step\<^sup>*\<^sup>* (sys ?rl ?i ?i) (sys (?rl1\<lparr>rl_tokens := 2000\<rparr>) ?i ?i)"
    by (rule refill_path6)
  moreover have "pc ?i ?i = (\<lambda>_. Refill_idle)" by (auto simp: pc_def)
  ultimately show ?thesis unfolding rl by (intro exI) (auto simp: sys_def)
qed

end
