(* ===== verification/Position_Limits.thy ===== *)
theory Position_Limits
  imports Types Atomic_Cell
begin

text \<open>
  \<^verbatim>\<open>src/risk/position_limits.cpp\<close>: the notional check and the reservation of net position.
  \<open>check_and_reserve\<close> is given as the sequential function of the whole call, and its
  compare-and-swap loop on one slot as an instance of \<open>Atomic_Cell\<close>, which carries the limit
  over to any number of threads.
\<close>

record position_limits =
  pl_slots :: "nat \<Rightarrow> Qty"
  pl_max_net_qty :: Qty
  pl_max_notional :: Price

definition pl_new :: "Qty \<Rightarrow> Price \<Rightarrow> position_limits" where
  "pl_new mq mn = \<lparr>pl_slots = (\<lambda>_. 0), pl_max_net_qty = mq, pl_max_notional = mn\<rparr>"

definition notional_ok :: "Price \<Rightarrow> Qty \<Rightarrow> Price \<Rightarrow> bool" where
  "notional_ok price q max_notional \<longleftrightarrow>
     \<not> (price > 0 \<and> q > 0 \<and> i64 (price * q) > max_notional)"

definition reserve_delta :: "Side \<Rightarrow> Qty \<Rightarrow> Qty" where
  "reserve_delta s q = (if s = BUY then q else i64 (- q))"

text \<open>The body of the loop: the next value of the slot, or refusal.\<close>

definition reserve_body :: "Qty \<Rightarrow> Qty \<Rightarrow> Qty \<Rightarrow> Qty option" where
  "reserve_body maxq delta old_qty =
     (let new_qty = i64 (old_qty + delta)
      in if new_qty > maxq \<or> new_qty < i64 (- maxq) then None else Some new_qty)"

definition check_and_reserve ::
  "InstrumentId \<Rightarrow> Side \<Rightarrow> Qty \<Rightarrow> Price \<Rightarrow> position_limits \<Rightarrow> position_limits \<times> bool" where
  "check_and_reserve ident s q price pl =
     (let k = unat ident in
      if k \<ge> MAX_INSTRUMENTS then (pl, False)
      else if \<not> notional_ok price q (pl_max_notional pl) then (pl, False)
      else case reserve_body (pl_max_net_qty pl) (reserve_delta s q) (pl_slots pl k) of
             None \<Rightarrow> (pl, False)
           | Some new_qty \<Rightarrow> (pl\<lparr>pl_slots := (pl_slots pl)(k := new_qty)\<rparr>, True))"

definition pl_on_fill :: "InstrumentId \<Rightarrow> Side \<Rightarrow> Qty \<Rightarrow> position_limits \<Rightarrow> position_limits" where
  "pl_on_fill ident s fill_q pl = pl"

definition pl_on_cancel :: "InstrumentId \<Rightarrow> Side \<Rightarrow> Qty \<Rightarrow> position_limits \<Rightarrow> position_limits" where
  "pl_on_cancel ident s q pl =
     (let k = unat ident in
      if k \<ge> MAX_INSTRUMENTS then pl
      else let delta = (if s = BUY then i64 (- q) else q)
           in pl\<lparr>pl_slots := (pl_slots pl)(k := i64 (pl_slots pl k + delta))\<rparr>)"

definition pl_get_net_qty :: "position_limits \<Rightarrow> InstrumentId \<Rightarrow> Qty" where
  "pl_get_net_qty pl ident = (if unat ident \<ge> MAX_INSTRUMENTS then 0 else pl_slots pl (unat ident))"

subsection \<open>The reservation loop as an atomic object\<close>

definition within_limit :: "Qty \<Rightarrow> Qty \<Rightarrow> bool" where
  "within_limit maxq v \<longleftrightarrow> \<bar>v\<bar> \<le> maxq \<and> maxq < 2 ^ 62"

definition small_delta :: "Qty \<Rightarrow> bool" where
  "small_delta d \<longleftrightarrow> \<bar>d\<bar> \<le> 2 ^ 62"

lemma reserve_body_Some:
  assumes "within_limit maxq v" and "small_delta d" and "reserve_body maxq d v = Some w"
  shows "w = v + d" and "within_limit maxq w"
proof -
  have "in_i64 (v + d)" "in_i64 (- maxq)"
    using assms(1,2) by (auto simp: within_limit_def small_delta_def in_i64_def)
  then show "w = v + d" "within_limit maxq w"
    using assms by (auto simp: reserve_body_def Let_def i64_id within_limit_def split: if_splits)
qed

interpretation reserve_up: cas_object "reserve_body maxq" "within_limit maxq" small_delta "\<lambda>v. v" "\<lambda>d. d"
  for maxq
  by unfold_locales (auto dest: reserve_body_Some)

interpretation reserve_down: cas_object "reserve_body maxq" "within_limit maxq" small_delta uminus uminus
  for maxq
  by unfold_locales (auto dest: reserve_body_Some)

text \<open>
  Claim C18.  Position limits under concurrency: any number of threads reserving on one
  instrument, in any interleaving and with spurious exchange failures, never take the net
  position beyond the limit, and the slot holds exactly the sum of the reservations that
  succeeded: none is lost and none is counted twice.
\<close>

theorem concurrent_reserve_limit:
  assumes "cas_reachable (reserve_body maxq) v0 s" and "\<bar>v0\<bar> \<le> maxq" and "maxq < 2 ^ 62"
    and "\<forall>(d, ok) \<in> set (cas_log s). \<bar>d\<bar> \<le> 2 ^ 62"
  shows "\<bar>cas_cell s\<bar> \<le> maxq
    \<and> cas_cell s = v0 + (\<Sum>(d, ok)\<leftarrow>cas_log s. if ok then d else 0)
    \<and> (\<forall>t d ok. cas_threads s t = Cas_done d ok \<longrightarrow> (d, ok) \<in> set (cas_log s))"
proof -
  have v0: "within_limit maxq v0" using assms(2,3) by (simp add: within_limit_def)
  have leg: "\<forall>(d, ok) \<in> set (cas_log s). small_delta d" using assms(4) by (simp add: small_delta_def)
  have neg: "(\<Sum>(d, ok)\<leftarrow>l. if ok then - d else 0) = - (\<Sum>(d, ok)\<leftarrow>l. if ok then d else 0)"
    for l :: "(int \<times> bool) list" by (induction l) auto
  note up = reserve_up.reachable_bound [OF assms(1) v0 leg]
  note down = reserve_down.reachable_bound(2) [OF assms(1) v0 leg]
  have "cas_cell s = v0 + (\<Sum>(d, ok)\<leftarrow>cas_log s. if ok then d else 0)"
    using up(2) down unfolding neg by linarith
  moreover have "\<bar>cas_cell s\<bar> \<le> maxq" using up(1) by (simp add: within_limit_def)
  ultimately show ?thesis using cas_reachable_done [OF assms(1)] by blast
qed

theorem concurrent_reserve_limit_witness:
  "\<exists>s. cas_reachable (reserve_body 10) 0 s \<and> \<bar>cas_cell s\<bar> \<le> 10 \<and> cas_threads s 1 = Cas_loaded 7 0
     \<and> cas_cell s = 5"
proof -
  let ?f = "reserve_body 10" and ?s0 = "cas_init 0 :: (int, int) cas_sys"
  let ?s1 = "?s0\<lparr>cas_threads := (cas_threads ?s0)(0 := Cas_start 5)\<rparr>"
  let ?s2 = "?s1\<lparr>cas_threads := (cas_threads ?s1)(1 := Cas_start 7)\<rparr>"
  let ?s3 = "cas_see ?f 0 5 ?s2"
  let ?s4 = "cas_see ?f 1 7 ?s3"
  let ?s5 = "?s4\<lparr>cas_cell := 5, cas_threads := (cas_threads ?s4)(0 := Cas_done 5 True),
    cas_log := cas_log ?s4 @ [(5, True)]\<rparr>"
  note sims = cas_init_def cas_see_def reserve_body_def i64_id in_i64_def
  have "cas_reachable ?f 0 ?s1"
    by (rule cas_reachable.step [OF cas_reachable.init], rule cas_step.call) (simp add: sims)
  then have "cas_reachable ?f 0 ?s2"
    by (rule cas_reachable.step, intro cas_step.call) (simp add: sims)
  then have "cas_reachable ?f 0 ?s3"
    by (rule cas_reachable.step, intro cas_step.load) (simp add: sims)
  then have "cas_reachable ?f 0 ?s4"
    by (rule cas_reachable.step, intro cas_step.load) (simp add: sims)
  moreover have "cas_step ?f ?s4 ?s5"
    by (rule cas_step.exchange) (simp_all add: sims)
  ultimately have r: "cas_reachable ?f 0 ?s5" by (rule cas_reachable.step)
  from concurrent_reserve_limit [OF r] have "\<bar>cas_cell ?s5\<bar> \<le> 10" by (simp add: sims)
  with r show ?thesis by (intro exI [of _ ?s5]) (simp add: sims)
qed

subsection \<open>Sequential behaviour of the whole call\<close>

lemma cancel_delta: "i64 (i64 (x + reserve_delta s q) + (if s = BUY then i64 (- q) else q)) = i64 x"
  by (cases s) (simp_all add: reserve_delta_def i64_simps)

text \<open>
  A successful check means what the header promises: the instrument exists, the
  notional (when it does not overflow) is within its limit, exactly one slot moved, by the signed
  quantity and within the limit; and cancelling that order gives the whole reservation back.
\<close>

theorem reserve_then_cancel:
  assumes "check_and_reserve ident s q price pl = (pl', True)"
    and "within_limit (pl_max_net_qty pl) (pl_slots pl (unat ident))" and "\<bar>q\<bar> \<le> 2 ^ 62"
  shows "unat ident < MAX_INSTRUMENTS
    \<and> (0 < price \<and> 0 < q \<and> in_i64 (price * q) \<longrightarrow> price * q \<le> pl_max_notional pl)
    \<and> pl' = pl\<lparr>pl_slots := (pl_slots pl)(unat ident := pl_get_net_qty pl ident + signed_qty s q)\<rparr>
    \<and> within_limit (pl_max_net_qty pl) (pl_get_net_qty pl' ident)
    \<and> pl_on_cancel ident s q pl' = pl"
proof -
  let ?k = "unat ident"
  obtain w where w: "?k < MAX_INSTRUMENTS" "notional_ok price q (pl_max_notional pl)"
    "reserve_body (pl_max_net_qty pl) (reserve_delta s q) (pl_slots pl ?k) = Some w"
    "pl' = pl\<lparr>pl_slots := (pl_slots pl)(?k := w)\<rparr>"
    using assms(1) by (auto simp: check_and_reserve_def Let_def split: if_splits option.splits)
  have "in_i64 (- q)" using assms(3) by (simp add: in_i64_def abs_le_iff)
  then have d: "reserve_delta s q = signed_qty s q" "small_delta (signed_qty s q)"
    using assms(3) by (cases s; simp add: reserve_delta_def small_delta_def i64_id)+
  note b = reserve_body_Some [OF assms(2) d(2) w(3) [unfolded d(1)]]
  have "in_i64 (pl_slots pl ?k)" using assms(2) by (auto simp: within_limit_def in_i64_def)
  then have "i64 (w + (if s = BUY then i64 (- q) else q)) = pl_slots pl ?k"
    using b(1) by (cases s) (simp_all add: i64_simps i64_id)
  then have "pl_on_cancel ident s q pl' = pl"
    using w by (simp add: pl_on_cancel_def Let_def)
  moreover have "0 < price \<and> 0 < q \<and> in_i64 (price * q) \<longrightarrow> price * q \<le> pl_max_notional pl"
    using w(2) by (auto simp: notional_ok_def i64_id)
  moreover have "within_limit (pl_max_net_qty pl) (pl_get_net_qty pl' ident)"
    using w(1,4) b(2) by (simp add: pl_get_net_qty_def)
  moreover have "pl' = pl\<lparr>pl_slots := (pl_slots pl)(?k := pl_get_net_qty pl ident + signed_qty s q)\<rparr>"
    using w(1,4) b(1) by (simp add: pl_get_net_qty_def)
  ultimately show ?thesis using w(1) by blast
qed

theorem reserve_then_cancel_witness:
  "pl_on_cancel 3 SELL 40 (fst (check_and_reserve 3 SELL 40 7 (pl_new 100 1000))) = pl_new 100 1000"
proof -
  have "check_and_reserve 3 SELL 40 7 (pl_new 100 1000)
      = (fst (check_and_reserve 3 SELL 40 7 (pl_new 100 1000)), True)"
    by (simp add: check_and_reserve_def pl_new_def notional_ok_def reserve_body_def reserve_delta_def
        i64_id in_i64_def MAX_INSTRUMENTS_def)
  moreover have "within_limit (pl_max_net_qty (pl_new 100 1000)) (pl_slots (pl_new 100 1000) (unat (3 :: u32)))"
    by (simp add: within_limit_def pl_new_def)
  ultimately show ?thesis using reserve_then_cancel [of 3 SELL 40 7 "pl_new 100 1000"] by fastforce
qed

text \<open>
  The notional check compares the wrapped product: two positive factors whose
  product is a multiple of \<open>2 ^ 64\<close> pass any non-negative limit, and an order with price 0 (a
  market order) has no notional check at all.
\<close>

theorem notional_check_gaps:
  "notional_ok (2 ^ 32) (2 ^ 32) 0 \<and> notional_ok 0 q max_notional"
proof -
  have "i64 (2 ^ 32 * 2 ^ 32) = i64 0" by (subst i64_eq_iff) simp
  then show ?thesis by (simp add: notional_ok_def)
qed

end
