(* ===== verification/Pre_Trade_Risk.thy ===== *)
theory Pre_Trade_Risk
  imports Circuit_Breaker Rate_Limiter Position_Limits
begin

text \<open>
  \<^verbatim>\<open>src/risk/pre_trade_risk.cpp\<close>: the three checks in their short-circuit order.  The class holds
  references to its parts; here the parts are the state that a check returns updated.
\<close>

record pre_trade_risk =
  ptr_breaker :: breaker
  ptr_limiter :: rate_limiter
  ptr_limits :: position_limits

definition ptr_check :: "int \<Rightarrow> OrderRequest \<Rightarrow> pre_trade_risk \<Rightarrow> pre_trade_risk \<times> bool" where
  "ptr_check now req r =
     (if \<not> cb_allow_order (ptr_breaker r) then (r, False)
      else let (rl, got) = rl_try_acquire now 1 (ptr_limiter r); r1 = r\<lparr>ptr_limiter := rl\<rparr> in
        if \<not> got then (r1, False)
        else let (pl, ok) = check_and_reserve (req_instrument_id req) (req_side req) (req_qty req)
                              (req_price req) (ptr_limits r1)
             in if \<not> ok then (r1\<lparr>ptr_limits := pl\<rparr>, False) else (r1\<lparr>ptr_limits := pl\<rparr>, True))"

text \<open>A run of checks; the result lists the requests that were accepted.\<close>

fun ptr_run :: "(int \<times> OrderRequest) list \<Rightarrow> pre_trade_risk \<Rightarrow> pre_trade_risk \<times> OrderRequest list" where
  "ptr_run [] r = (r, [])"
| "ptr_run ((now, req) # cs) r =
     (let (r1, ok) = ptr_check now req r; (r2, acc) = ptr_run cs r1
      in (r2, if ok then req # acc else acc))"

lemma check_and_reserve_False:
  "check_and_reserve i s q p pl = (pl', False) \<Longrightarrow> pl' = pl"
  by (auto simp: check_and_reserve_def Let_def split: if_splits option.splits)

text \<open>
  Short-circuit semantics: a check accepts exactly when all three parts accept, in
  order; a refusal by the breaker changes nothing, one by the limiter touches only the limiter, and
  one by the position limits has already spent its token but reserved nothing.
\<close>

theorem check_short_circuit:
  "ptr_check now req r =
    (let allow = cb_allow_order (ptr_breaker r);
         (rl, got) = rl_try_acquire now 1 (ptr_limiter r);
         (pl, reserved) = check_and_reserve (req_instrument_id req) (req_side req) (req_qty req)
                            (req_price req) (ptr_limits r)
     in (r\<lparr>ptr_limiter := if allow then rl else ptr_limiter r,
           ptr_limits := if allow \<and> got \<and> reserved then pl else ptr_limits r\<rparr>,
         allow \<and> got \<and> reserved))"
  by (auto simp: ptr_check_def Let_def split: prod.splits dest: check_and_reserve_False)

definition ptr_ok :: "pre_trade_risk \<Rightarrow> bool" where
  "ptr_ok r \<longleftrightarrow> (\<forall>k. within_limit (pl_max_net_qty (ptr_limits r)) (pl_slots (ptr_limits r) k))"

lemma reserve_accept:
  assumes "check_and_reserve i s q p pl = (pl', True)" and "\<bar>q\<bar> \<le> 2 ^ 62"
    and "\<forall>k. within_limit (pl_max_net_qty pl) (pl_slots pl k)"
  shows "unat i < MAX_INSTRUMENTS \<and> pl_max_net_qty pl' = pl_max_net_qty pl
    \<and> pl_slots pl' = (pl_slots pl)(unat i := pl_slots pl (unat i) + signed_qty s q)
    \<and> (\<forall>k. within_limit (pl_max_net_qty pl) (pl_slots pl' k))"
proof -
  have "in_i64 (- q)" using assms(2) by (simp add: in_i64_def abs_le_iff)
  then have d: "reserve_delta s q = signed_qty s q" "small_delta (signed_qty s q)"
    using assms(2) by (cases s; simp add: reserve_delta_def small_delta_def i64_id)+
  obtain w where w: "unat i < MAX_INSTRUMENTS" "reserve_body (pl_max_net_qty pl) (signed_qty s q) (pl_slots pl (unat i)) = Some w"
    "pl' = pl\<lparr>pl_slots := (pl_slots pl)(unat i := w)\<rparr>"
    using assms(1) d(1) by (auto simp: check_and_reserve_def Let_def split: if_splits option.splits)
  note b = reserve_body_Some [OF assms(3) [rule_format] d(2) w(2)]
  show ?thesis using w(1,3) b assms(3) by simp
qed

lemma ptr_check_step:
  assumes "ptr_check now req r = (r', ok)" and "ptr_ok r" and "\<bar>req_qty req\<bar> \<le> 2 ^ 62"
  shows "ptr_ok r' \<and> ptr_breaker r' = ptr_breaker r
    \<and> pl_max_net_qty (ptr_limits r') = pl_max_net_qty (ptr_limits r)
    \<and> (ok \<longrightarrow> unat (req_instrument_id req) < MAX_INSTRUMENTS)
    \<and> pl_slots (ptr_limits r') k = pl_slots (ptr_limits r) k
        + (if ok \<and> unat (req_instrument_id req) = k then signed_qty (req_side req) (req_qty req) else 0)"
proof (cases ok)
  case True
  then have "snd (check_and_reserve (req_instrument_id req) (req_side req) (req_qty req) (req_price req)
      (ptr_limits r))" and lim: "ptr_limits r' = fst (check_and_reserve (req_instrument_id req)
      (req_side req) (req_qty req) (req_price req) (ptr_limits r))" and br: "ptr_breaker r' = ptr_breaker r"
    using assms(1) by (auto simp: ptr_check_def Let_def split: prod.splits if_splits)
  then have "check_and_reserve (req_instrument_id req) (req_side req) (req_qty req) (req_price req)
      (ptr_limits r) = (ptr_limits r', True)" by (simp add: prod_eq_iff)
  note a = reserve_accept [OF this assms(3) assms(2) [unfolded ptr_ok_def]]
  have "ptr_ok r'" unfolding ptr_ok_def using a by metis
  then show ?thesis using a br True by auto
next
  case False
  then have "ptr_limits r' = ptr_limits r" "ptr_breaker r' = ptr_breaker r"
    using assms(1) by (auto simp: ptr_check_def Let_def split: prod.splits if_splits dest: check_and_reserve_False)
  then show ?thesis using False assms(2) by (simp add: ptr_ok_def)
qed

lemma ptr_run_step:
  "ptr_run cs r = (r', acc) \<Longrightarrow> ptr_ok r \<Longrightarrow> \<forall>(now, req) \<in> set cs. \<bar>req_qty req\<bar> \<le> 2 ^ 62 \<Longrightarrow>
   ptr_ok r' \<and> pl_max_net_qty (ptr_limits r') = pl_max_net_qty (ptr_limits r)
   \<and> pl_slots (ptr_limits r') k = pl_slots (ptr_limits r) k
      + (\<Sum>q\<leftarrow>filter (\<lambda>q. unat (req_instrument_id q) = k) acc. signed_qty (req_side q) (req_qty q))
   \<and> (\<not> cb_allow_order (ptr_breaker r) \<longrightarrow> acc = [])"
proof (induction cs arbitrary: r r' acc)
  case (Cons c cs)
  obtain now req where c: "c = (now, req)" by force
  obtain r1 ok where 1: "ptr_check now req r = (r1, ok)" by force
  obtain r2 acc2 where 2: "ptr_run cs r1 = (r2, acc2)" by force
  have fin: "r' = r2" "acc = (if ok then req # acc2 else acc2)"
    using Cons.prems(1) 1 2 by (simp_all add: c)
  have q: "\<bar>req_qty req\<bar> \<le> 2 ^ 62" using Cons.prems(3) by (simp add: c)
  note s = ptr_check_step [OF 1 Cons.prems(2) q, of k]
  have "ok \<longrightarrow> cb_allow_order (ptr_breaker r)" using 1 by (auto simp: ptr_check_def split: if_splits)
  with Cons.IH [OF 2] s Cons.prems(3) show ?case by (auto simp: fin c)
qed simp

text \<open>
  Claim C22.  The gate protects the book: over any run of checks the reserved net position of
  every instrument stays within the limit and equals its start plus the signed quantities of the
  orders the gate let through, and with the breaker open none gets through.
\<close>

theorem gate_keeps_limits:
  assumes "ptr_ok r" and "\<forall>(now, req) \<in> set cs. \<bar>req_qty req\<bar> \<le> 2 ^ 62"
  shows "let (r', acc) = ptr_run cs r in
      \<bar>pl_slots (ptr_limits r') k\<bar> \<le> pl_max_net_qty (ptr_limits r)
    \<and> pl_slots (ptr_limits r') k = pl_slots (ptr_limits r) k
        + (\<Sum>q\<leftarrow>filter (\<lambda>q. unat (req_instrument_id q) = k) acc. signed_qty (req_side q) (req_qty q))
    \<and> (\<not> cb_allow_order (ptr_breaker r) \<longrightarrow> acc = [])"
proof -
  obtain r' acc where r: "ptr_run cs r = (r', acc)" by force
  note s = ptr_run_step [OF r assms, of k]
  then have "within_limit (pl_max_net_qty (ptr_limits r)) (pl_slots (ptr_limits r') k)"
    unfolding ptr_ok_def by metis
  with s show ?thesis unfolding r within_limit_def Let_def prod.case by blast
qed

theorem gate_keeps_limits_witness:
  "\<exists>r' acc. ptr_run [(0, req0\<lparr>req_qty := 8\<rparr>), (0, req0\<lparr>req_qty := 8\<rparr>)]
      \<lparr>ptr_breaker = cb_new (-100), ptr_limiter = rl_new 0 1000 200, ptr_limits = pl_new 10 1000\<rparr> = (r', acc)
    \<and> \<bar>pl_slots (ptr_limits r') 0\<bar> \<le> 10"
proof -
  let ?r = "\<lparr>ptr_breaker = cb_new (-100), ptr_limiter = rl_new 0 1000 200, ptr_limits = pl_new 10 1000\<rparr>"
  let ?cs = "[(0, req0\<lparr>req_qty := 8\<rparr>), (0, req0\<lparr>req_qty := 8\<rparr>)]"
  have "ptr_ok ?r" "\<forall>(now, req) \<in> set ?cs. \<bar>req_qty req\<bar> \<le> 2 ^ 62" "pl_max_net_qty (ptr_limits ?r) = 10"
    by (simp_all add: ptr_ok_def pl_new_def within_limit_def)
  moreover obtain r' acc where "ptr_run ?cs ?r = (r', acc)" by force
  ultimately show ?thesis using gate_keeps_limits [of ?r ?cs 0] by fastforce
qed

end
