(* ===== verification/Binary64.thy ===== *)
theory Binary64
  imports Prelude "HOL-Library.Log_Nat"
begin

text \<open>
  C++ \<^verbatim>\<open>double\<close> as the sources use it: IEEE binary64 with rounding to nearest, ties to even,
  gradual underflow and overflow to infinity.  A finite double is the rational number it denotes,
  so every operation is exact arithmetic followed by \<open>b64_round\<close>; zeros carry no sign (the code
  never observes one).  A cast of a double outside the range of \<open>int64_t\<close> is undefined in C++; the
  model gives it the value of the x86-64 conversion instruction, \<open>INT64_MIN\<close>.
\<close>

datatype b64 = Fin rat | PInf | NInf | NaN

subsection \<open>Rounding\<close>

definition rne :: "rat \<Rightarrow> int" where
  "rne x = (let f = \<lfloor>x\<rfloor>; d = x - of_int f in
     if d < 1 / 2 then f else if d > 1 / 2 then f + 1 else if even f then f else f + 1)"

text \<open>The binary exponent of a positive rational.\<close>

definition rat_exp :: "rat \<Rightarrow> int" where
  "rat_exp x = (let (p, q) = quotient_of x; e = bitlen p - bitlen q
     in if 2 powi e \<le> x then e else e - 1)"

definition ulp_exp :: "rat \<Rightarrow> int" where
  "ulp_exp x = max (rat_exp x - 52) (-1074)"

definition round_pos :: "rat \<Rightarrow> rat" where
  "round_pos x = of_int (rne (x / 2 powi ulp_exp x)) * 2 powi ulp_exp x"

definition round_rat :: "rat \<Rightarrow> rat" where
  "round_rat x = (if x = 0 then 0 else if 0 < x then round_pos x else - round_pos (- x))"

definition b64_round :: "rat \<Rightarrow> b64" where
  "b64_round x = (let r = round_rat x in
     if r \<ge> 2 ^ 1024 then PInf else if r \<le> - (2 ^ 1024) then NInf else Fin r)"

subsection \<open>Operations\<close>

definition b64_of_int :: "int \<Rightarrow> b64" where
  "b64_of_int n = b64_round (of_int n)"

fun b64_neg :: "b64 \<Rightarrow> b64" where
  "b64_neg (Fin x) = Fin (- x)"
| "b64_neg PInf = NInf"
| "b64_neg NInf = PInf"
| "b64_neg NaN = NaN"

fun b64_add :: "b64 \<Rightarrow> b64 \<Rightarrow> b64" where
  "b64_add (Fin x) (Fin y) = b64_round (x + y)"
| "b64_add NaN b = NaN"
| "b64_add a NaN = NaN"
| "b64_add PInf NInf = NaN"
| "b64_add NInf PInf = NaN"
| "b64_add PInf b = PInf"
| "b64_add NInf b = NInf"
| "b64_add a PInf = PInf"
| "b64_add a NInf = NInf"

definition b64_sub :: "b64 \<Rightarrow> b64 \<Rightarrow> b64" where
  "b64_sub a b = b64_add a (b64_neg b)"

definition b64_inf :: "bool \<Rightarrow> b64" where
  "b64_inf pos = (if pos then PInf else NInf)"

fun b64_mult :: "b64 \<Rightarrow> b64 \<Rightarrow> b64" where
  "b64_mult (Fin x) (Fin y) = b64_round (x * y)"
| "b64_mult NaN b = NaN"
| "b64_mult a NaN = NaN"
| "b64_mult (Fin x) PInf = (if x = 0 then NaN else b64_inf (0 < x))"
| "b64_mult (Fin x) NInf = (if x = 0 then NaN else b64_inf (x < 0))"
| "b64_mult PInf (Fin x) = (if x = 0 then NaN else b64_inf (0 < x))"
| "b64_mult NInf (Fin x) = (if x = 0 then NaN else b64_inf (x < 0))"
| "b64_mult PInf PInf = PInf"
| "b64_mult PInf NInf = NInf"
| "b64_mult NInf PInf = NInf"
| "b64_mult NInf NInf = PInf"

fun b64_div :: "b64 \<Rightarrow> b64 \<Rightarrow> b64" where
  "b64_div (Fin x) (Fin y) =
     (if y = 0 then (if x = 0 then NaN else b64_inf (0 < x)) else b64_round (x / y))"
| "b64_div NaN b = NaN"
| "b64_div a NaN = NaN"
| "b64_div (Fin x) PInf = Fin 0"
| "b64_div (Fin x) NInf = Fin 0"
| "b64_div PInf (Fin y) = b64_inf (0 \<le> y)"
| "b64_div NInf (Fin y) = b64_inf (y < 0)"
| "b64_div PInf b = NaN"
| "b64_div NInf b = NaN"

fun b64_less :: "b64 \<Rightarrow> b64 \<Rightarrow> bool" where
  "b64_less (Fin x) (Fin y) = (x < y)"
| "b64_less NaN b = False"
| "b64_less a NaN = False"
| "b64_less a PInf = (a \<noteq> PInf)"
| "b64_less NInf b = (b \<noteq> NInf)"
| "b64_less a b = False"

definition b64_le :: "b64 \<Rightarrow> b64 \<Rightarrow> bool" where
  "b64_le a b \<longleftrightarrow> b64_less a b \<or> (a = b \<and> a \<noteq> NaN)"

definition rat_trunc :: "rat \<Rightarrow> int" where
  "rat_trunc x = (if 0 \<le> x then \<lfloor>x\<rfloor> else \<lceil>x\<rceil>)"

fun b64_to_i64 :: "b64 \<Rightarrow> int" where
  "b64_to_i64 (Fin x) = (if in_i64 (rat_trunc x) then rat_trunc x else - (2 ^ 63))"
| "b64_to_i64 b = - (2 ^ 63)"

text \<open>
  \<^verbatim>\<open>std::sqrt\<close> is correctly rounded: the integer root of the value scaled to 53 significant bits, moved to
  the nearer neighbour.  A root is never subnormal, so its exponent is at least \<open>-537\<close>.
\<close>

function isqrt :: "int \<Rightarrow> int" where
  "isqrt n = (if n \<le> 0 then 0 else let r = 2 * isqrt (n div 4) in if (r + 1) * (r + 1) \<le> n then r + 1 else r)"
  by pat_completeness auto

termination by (relation "measure nat") auto

declare isqrt.simps [simp del]

definition sqrt_pos :: "rat \<Rightarrow> rat" where
  "sqrt_pos x = (let u = rat_exp x div 2 - 52; y = x / 2 powi (2 * u); s = isqrt \<lfloor>y\<rfloor> in
     of_int (if 4 * y < of_int ((2 * s + 1) * (2 * s + 1)) then s else s + 1) * 2 powi u)"

fun b64_sqrt :: "b64 \<Rightarrow> b64" where
  "b64_sqrt (Fin x) = (if x < 0 then NaN else if x = 0 then Fin 0 else Fin (sqrt_pos x))"
| "b64_sqrt PInf = PInf"
| "b64_sqrt _ = NaN"

subsection \<open>Rounding to integers\<close>

lemma rne_of_int [simp]: "rne (of_int n) = n"
  by (simp add: rne_def)

lemma rne_floor: "\<lfloor>x\<rfloor> \<le> rne x" "rne x \<le> \<lfloor>x\<rfloor> + 1"
  by (auto simp: rne_def Let_def)

lemma rne_mono: "x \<le> y \<Longrightarrow> rne x \<le> rne y"
proof (cases "\<lfloor>x\<rfloor> = \<lfloor>y\<rfloor>")
  case True
  assume "x \<le> y"
  with True show ?thesis by (auto simp: rne_def Let_def)
next
  case False
  assume "x \<le> y"
  then have "\<lfloor>x\<rfloor> + 1 \<le> \<lfloor>y\<rfloor>" using False floor_mono [of x y] by linarith
  with rne_floor [of x] rne_floor [of y] show ?thesis by linarith
qed

lemma rne_nonneg: "0 \<le> x \<Longrightarrow> 0 \<le> rne x"
  using rne_mono [of 0 x] rne_of_int [of 0] by simp

subsection \<open>The exponent\<close>

lemma two_powi_pos [simp]: "0 < (2 :: rat) powi e"
  by (simp add: zero_less_power_int)

lemma two_powi_not_neg [simp]: "\<not> (2 :: rat) powi e < 0"
  by (simp add: not_less less_imp_le)

lemma two_powi_less_iff: "(2 :: rat) powi a < 2 powi b \<longleftrightarrow> a < b"
  by (metis not_less_iff_gr_or_eq one_less_numeral_iff power_int_strict_increasing semiring_norm(76))

lemma two_powi_le_iff: "(2 :: rat) powi a \<le> 2 powi b \<longleftrightarrow> a \<le> b"
  by (meson linorder_not_le two_powi_less_iff)

lemma two_powi_add: "(2 :: rat) powi (a + b) = 2 powi a * 2 powi b"
  by (simp add: power_int_add)

lemma rat_exp_bounds:
  assumes "0 < x" shows "2 powi rat_exp x \<le> x" and "x < 2 powi (rat_exp x + 1)"
proof -
  obtain p q where pq: "quotient_of x = (p, q)" by force
  then have q0: "0 < q" by (rule quotient_of_denom_pos)
  have x: "x = of_int p / of_int q" using pq by (rule quotient_of_div)
  then have p0: "0 < p" using assms q0 by (simp add: zero_less_divide_iff)
  let ?b = "nat (bitlen p)" and ?c = "nat (bitlen q)"
  have bp: "2 ^ nat (bitlen p - 1) \<le> p" "p < 2 ^ ?b" and bq: "2 ^ nat (bitlen q - 1) \<le> q" "q < 2 ^ ?c"
    using bitlen_bounds [OF p0] bitlen_bounds [OF q0] by simp_all
  have b1: "0 < bitlen p" "0 < bitlen q"
    using p0 q0 bitlen_nonneg [of p] bitlen_nonneg [of q] bitlen_eq_zero_iff [of p] bitlen_eq_zero_iff [of q]
    by linarith+
  have pw: "(2 :: rat) powi bitlen p = of_int (2 ^ ?b)" "(2 :: rat) powi (bitlen p - 1) = of_int (2 ^ nat (bitlen p - 1))"
    "(2 :: rat) powi bitlen q = of_int (2 ^ ?c)" "(2 :: rat) powi (bitlen q - 1) = of_int (2 ^ nat (bitlen q - 1))"
    using b1 by (simp_all add: power_int_def)
  let ?e = "bitlen p - bitlen q"
  have "x < 2 powi bitlen p / 2 powi (bitlen q - 1)"
    unfolding x pw using bp bq p0 q0
    by (intro frac_less) (simp_all only: of_int_le_iff of_int_less_iff of_int_0_less_iff of_int_0_le_iff less_imp_le zero_less_power zero_less_numeral)
  also have "\<dots> = 2 powi (?e + 1)"
    by (simp add: power_int_diff power_int_add)
  finally have up: "x < 2 powi (?e + 1)" .
  have "2 powi (bitlen p - 1) / 2 powi bitlen q \<le> x"
    unfolding x pw using bp bq p0 q0
    by (intro frac_le) (simp_all only: of_int_le_iff of_int_less_iff of_int_0_less_iff of_int_0_le_iff less_imp_le)
  also have "2 powi (bitlen p - 1) / 2 powi bitlen q = (2 :: rat) powi (?e - 1)"
    by (simp add: power_int_diff)
  finally have lo: "2 powi (?e - 1) \<le> x" .
  have e: "rat_exp x = (if 2 powi ?e \<le> x then ?e else ?e - 1)" by (simp add: rat_exp_def pq)
  show "2 powi rat_exp x \<le> x" using lo by (simp add: e)
  show "x < 2 powi (rat_exp x + 1)" using up by (simp add: e)
qed

lemma rat_exp_mono:
  assumes "0 < x" and "x \<le> y" shows "rat_exp x \<le> rat_exp y"
proof -
  have "2 powi rat_exp x < (2 :: rat) powi (rat_exp y + 1)"
    using rat_exp_bounds [OF assms(1)] rat_exp_bounds [of y] assms by linarith
  then show ?thesis by (simp add: two_powi_less_iff)
qed

lemma rat_exp_eqI: "0 < x \<Longrightarrow> 2 powi e \<le> x \<Longrightarrow> x < 2 powi (e + 1) \<Longrightarrow> rat_exp x = e"
  using rat_exp_bounds [of x] two_powi_less_iff [of e "rat_exp x + 1"]
    two_powi_less_iff [of "rat_exp x" "e + 1"] by linarith

subsection \<open>Rounding is monotone and exact on representable numbers\<close>

lemma scaled_int: "u \<le> e \<Longrightarrow> (2 :: rat) powi e / 2 powi u = of_int (2 ^ nat (e - u))"
proof -
  assume "u \<le> e"
  have "(2 :: rat) powi e / 2 powi u = 2 powi (e - u)" by (simp add: power_int_diff)
  also have "\<dots> = of_int (2 ^ nat (e - u))" using \<open>u \<le> e\<close> by (simp add: power_int_def)
  finally show ?thesis .
qed

lemma round_pos_le_pow:
  assumes "0 < x" and "x \<le> 2 powi e" and "ulp_exp x \<le> e"
  shows "round_pos x \<le> 2 powi e"
proof -
  let ?u = "2 powi ulp_exp x :: rat"
  have "x / ?u \<le> 2 powi e / ?u" using assms(2) by (simp add: divide_right_mono less_imp_le)
  then have "rne (x / ?u) \<le> 2 ^ nat (e - ulp_exp x)"
    using rne_mono [of "x / ?u" "of_int (2 ^ nat (e - ulp_exp x))"] scaled_int [OF assms(3)]
    by (metis rne_of_int)
  then have "of_int (rne (x / ?u)) * ?u \<le> of_int (2 ^ nat (e - ulp_exp x)) * ?u"
    by (intro mult_right_mono) (simp_all only: of_int_le_iff less_imp_le two_powi_pos)
  also have "\<dots> = 2 powi e"
    using scaled_int [OF assms(3)] two_powi_pos [of "ulp_exp x"] by (metis nonzero_eq_divide_eq less_irrefl)
  finally show ?thesis by (simp add: round_pos_def)
qed

lemma round_pos_ge_pow:
  assumes "0 < x" and "2 powi e \<le> x" and "ulp_exp x \<le> e"
  shows "2 powi e \<le> round_pos x"
proof -
  let ?u = "2 powi ulp_exp x :: rat"
  have "2 powi e / ?u \<le> x / ?u" using assms(2) by (simp add: divide_right_mono less_imp_le)
  then have "2 ^ nat (e - ulp_exp x) \<le> rne (x / ?u)"
    using rne_mono [of "of_int (2 ^ nat (e - ulp_exp x))" "x / ?u"] scaled_int [OF assms(3)]
    by (metis rne_of_int)
  then have le: "of_int (2 ^ nat (e - ulp_exp x)) * ?u \<le> of_int (rne (x / ?u)) * ?u"
    by (intro mult_right_mono) (simp_all only: of_int_le_iff less_imp_le two_powi_pos)
  have "2 powi e = of_int (2 ^ nat (e - ulp_exp x)) * ?u"
    using scaled_int [OF assms(3)] two_powi_pos [of "ulp_exp x"] by (metis nonzero_eq_divide_eq less_irrefl)
  also note le
  finally show ?thesis by (simp add: round_pos_def)
qed

lemma round_pos_mono:
  assumes "0 < x" and "x \<le> y" shows "round_pos x \<le> round_pos y"
proof (cases "ulp_exp x = ulp_exp y")
  case True
  have "x / 2 powi ulp_exp x \<le> y / 2 powi ulp_exp x"
    using assms(2) by (simp add: divide_right_mono less_imp_le)
  from rne_mono [OF this] show ?thesis
    unfolding round_pos_def True [symmetric] by (intro mult_right_mono) (simp_all add: less_imp_le)
next
  case False
  have y: "0 < y" using assms by linarith
  have "rat_exp x \<le> rat_exp y" by (rule rat_exp_mono [OF assms])
  with False have e: "ulp_exp x < ulp_exp y" "ulp_exp y = rat_exp y - 52" "rat_exp x < rat_exp y"
    by (auto simp: ulp_exp_def max_def split: if_splits)
  have "x < 2 powi (rat_exp x + 1)" by (rule rat_exp_bounds(2) [OF assms(1)])
  also have "\<dots> \<le> 2 powi rat_exp y" using e(3) by (simp add: two_powi_le_iff)
  finally have "round_pos x \<le> 2 powi rat_exp y"
    using e by (intro round_pos_le_pow assms(1)) auto
  also have "\<dots> \<le> round_pos y"
    using e by (intro round_pos_ge_pow y rat_exp_bounds(1)) auto
  finally show ?thesis .
qed

lemma round_pos_nonneg: "0 < x \<Longrightarrow> 0 \<le> round_pos x"
  by (simp add: round_pos_def rne_nonneg less_imp_le)

lemma round_rat_mono: "x \<le> y \<Longrightarrow> round_rat x \<le> round_rat y"
  using round_pos_mono [of x y] round_pos_mono [of "- y" "- x"] round_pos_nonneg [of y] round_pos_nonneg [of "- x"]
  by (auto simp: round_rat_def)

lemma round_rat_neg: "round_rat (- x) = - round_rat x"
  by (simp add: round_rat_def)

text \<open>Numbers with at most 53 significant bits.\<close>

definition representable :: "rat \<Rightarrow> bool" where
  "representable x \<longleftrightarrow> (\<exists>m e. x = of_int m * 2 powi e \<and> \<bar>m\<bar> \<le> 2 ^ 53 \<and> -1074 \<le> e)"

lemma round_pos_exact:
  assumes "0 < x" and "representable x" shows "round_pos x = x"
proof -
  obtain m e where m: "x = of_int m * 2 powi e" "\<bar>m\<bar> \<le> 2 ^ 53" "-1074 \<le> e"
    using assms(2) by (auto simp: representable_def)
  have m0: "0 < m" using assms(1) m(1) by (simp add: zero_less_mult_iff)
  obtain k where k: "x / 2 powi ulp_exp x = of_int k"
  proof (cases "ulp_exp x \<le> e")
    case True
    have "of_int m * 2 powi e / (2 :: rat) powi ulp_exp x = of_int (m * 2 ^ nat (e - ulp_exp x))"
      using scaled_int [OF True] by (simp only: times_divide_eq_right [symmetric] of_int_mult)
    then have "x / 2 powi ulp_exp x = of_int (m * 2 ^ nat (e - ulp_exp x))" using m(1) by metis
    then show ?thesis by (rule that)
  next
    case False
    have "(2 :: rat) powi rat_exp x \<le> of_int m * 2 powi e" using rat_exp_bounds(1) [OF assms(1)] m(1) by simp
    also have "\<dots> \<le> of_int (2 ^ 53) * 2 powi e"
      using m(2) by (intro mult_right_mono) (simp_all only: of_int_le_iff abs_le_iff less_imp_le two_powi_pos)
    also have "\<dots> = 2 powi (53 + e)" by (simp add: two_powi_add)
    finally have "rat_exp x \<le> 53 + e" by (simp add: two_powi_le_iff)
    with False m(3) have e: "rat_exp x = 53 + e" "ulp_exp x = e + 1"
      by (auto simp: ulp_exp_def max_def split: if_splits)
    have "(2 :: rat) powi (53 + e) \<le> of_int m * 2 powi e" using rat_exp_bounds(1) [OF assms(1)] m(1) e by simp
    then have "of_int (2 ^ 53) * 2 powi e \<le> (of_int m * 2 powi e :: rat)"
      by (simp add: two_powi_add)
    then have "of_int (2 ^ 53) \<le> (of_int m :: rat)"
      using two_powi_pos [of e] by (simp only: mult_le_cancel_right_pos)
    then have "m = 2 ^ 53" using m(2) unfolding of_int_le_iff by linarith
    then have "x = of_int (2 ^ 52) * 2 powi (e + 1)"
      using m(1) by (simp add: two_powi_add)
    then have "x / 2 powi (e + 1) = of_int (2 ^ 52)" by simp
    then have "x / 2 powi ulp_exp x = of_int (2 ^ 52)" by (simp only: e(2))
    then show ?thesis by (rule that)
  qed
  then have "round_pos x = x / 2 powi ulp_exp x * 2 powi ulp_exp x"
    unfolding round_pos_def k rne_of_int by simp
  then show ?thesis by simp
qed

lemma representable_neg: "representable x \<Longrightarrow> representable (- x)"
proof -
  assume "representable x"
  then obtain m e where "x = of_int m * 2 powi e" "\<bar>m\<bar> \<le> 2 ^ 53" "-1074 \<le> e"
    by (auto simp: representable_def)
  then show ?thesis
    unfolding representable_def by (intro exI [of _ "- m"] exI [of _ e]) simp
qed

lemma round_rat_exact: "representable x \<Longrightarrow> round_rat x = x"
  using round_pos_exact [of x] round_pos_exact [of "- x"] representable_neg [of x]
  by (auto simp: round_rat_def)

lemma representable_of_int: "\<bar>n\<bar> \<le> 2 ^ 53 \<Longrightarrow> representable (of_int n)"
  unfolding representable_def by (intro exI [of _ n] exI [of _ 0]) simp

lemma round_rat_0 [simp]: "round_rat 0 = 0"
  by (simp add: round_rat_def)

lemma round_rat_between:
  assumes "of_int a \<le> x" and "x \<le> of_int b" and "\<bar>a\<bar> \<le> 2 ^ 53" and "\<bar>b\<bar> \<le> 2 ^ 53"
  shows "of_int a \<le> round_rat x" and "round_rat x \<le> of_int b"
  using round_rat_mono [OF assms(1)] round_rat_mono [OF assms(2)]
    round_rat_exact [OF representable_of_int [OF assms(3)]]
    round_rat_exact [OF representable_of_int [OF assms(4)]] by simp_all

lemma pow_1024: "(2 ^ 53 :: rat) < 2 ^ 1024"
  by (rule power_strict_increasing) simp_all

lemma b64_round_between:
  assumes "of_int a \<le> x" and "x \<le> of_int b" and "\<bar>a\<bar> \<le> 2 ^ 53" and "\<bar>b\<bar> \<le> 2 ^ 53"
  shows "b64_round x = Fin (round_rat x)"
proof -
  note b = round_rat_between [OF assms]
  have "of_int b \<le> (of_int (2 ^ 53) :: rat)" "of_int (- (2 ^ 53)) \<le> (of_int a :: rat)"
    using assms(3,4) unfolding of_int_le_iff by linarith+
  then have "round_rat x < 2 ^ 1024" "- (2 ^ 1024) < round_rat x"
    using b pow_1024 by simp_all
  then show ?thesis by (simp add: b64_round_def Let_def)
qed

lemma b64_of_int_exact: "\<bar>n\<bar> \<le> 2 ^ 53 \<Longrightarrow> b64_of_int n = Fin (of_int n)"
  by (simp add: b64_of_int_def b64_round_between [of n _ n] round_rat_exact representable_of_int)

lemma rat_trunc_between:
  assumes "of_int a \<le> x" and "x \<le> of_int b" and "a \<le> 0" and "0 \<le> b"
  shows "a \<le> rat_trunc x" and "rat_trunc x \<le> b"
proof -
  have "a \<le> \<lfloor>x\<rfloor>" "\<lceil>x\<rceil> \<le> b" using assms by (simp_all add: le_floor_iff ceiling_le_iff)
  moreover have "\<lfloor>x\<rfloor> \<le> \<lceil>x\<rceil>" by (rule floor_le_ceiling)
  ultimately have "a \<le> \<lfloor>x\<rfloor>" "a \<le> \<lceil>x\<rceil>" "\<lfloor>x\<rfloor> \<le> b" "\<lceil>x\<rceil> \<le> b" by linarith+
  then show "a \<le> rat_trunc x" "rat_trunc x \<le> b" unfolding rat_trunc_def by simp_all
qed

text \<open>Scaling a quantity by a ratio in the unit interval never leaves \<open>[0, q]\<close>.\<close>

lemma b64_scale_bounds:
  assumes "0 \<le> q" and "q \<le> 2 ^ 53" and "0 \<le> r" and "r \<le> 1"
  shows "0 \<le> b64_to_i64 (b64_mult (b64_of_int q) (Fin r))"
    and "b64_to_i64 (b64_mult (b64_of_int q) (Fin r)) \<le> q"
proof -
  have x: "of_int 0 \<le> of_int q * r" "of_int q * r \<le> of_int q"
    using assms mult_left_mono [OF assms(4), of "of_int q"] by simp_all
  have q: "\<bar>0 :: int\<bar> \<le> 2 ^ 53" "\<bar>q\<bar> \<le> 2 ^ 53" using assms by simp_all
  have t: "0 \<le> rat_trunc (round_rat (of_int q * r))" "rat_trunc (round_rat (of_int q * r)) \<le> q"
    using rat_trunc_between [OF round_rat_between [OF x q]] assms(1) by simp_all
  then have "in_i64 (rat_trunc (round_rat (of_int q * r)))" using assms(2) by (simp add: in_i64_def)
  then show "0 \<le> b64_to_i64 (b64_mult (b64_of_int q) (Fin r))"
    "b64_to_i64 (b64_mult (b64_of_int q) (Fin r)) \<le> q"
    using t by (simp_all add: b64_of_int_exact [OF q(2)] b64_round_between [OF x q])
qed

lemma b64_round_bounded:
  assumes "representable L" and "representable U" and "L \<le> x" and "x \<le> U"
    and "- (2 ^ 1024) < L" and "U < 2 ^ 1024"
  shows "b64_round x = Fin (round_rat x)" and "L \<le> round_rat x" and "round_rat x \<le> U"
proof -
  show b: "L \<le> round_rat x" "round_rat x \<le> U"
    using round_rat_mono [OF assms(3)] round_rat_mono [OF assms(4)]
      round_rat_exact [OF assms(1)] round_rat_exact [OF assms(2)] by simp_all
  have "round_rat x < 2 ^ 1024" "- (2 ^ 1024) < round_rat x" using b assms(5,6) by linarith+
  then show "b64_round x = Fin (round_rat x)" by (simp add: b64_round_def Let_def)
qed

lemma representable_pow: "-1074 \<le> e \<Longrightarrow> representable (2 powi e)"
  unfolding representable_def by (intro exI [of _ 1] exI [of _ e]) simp

lemma b64_scale_mono:
  assumes "0 \<le> a" and "a \<le> b" and "b \<le> 2 ^ 53" and "0 \<le> r" and "r \<le> 1"
  shows "b64_to_i64 (b64_mult (b64_of_int a) (Fin r)) \<le> b64_to_i64 (b64_mult (b64_of_int b) (Fin r))"
proof -
  have *: "b64_to_i64 (b64_mult (b64_of_int q) (Fin r)) = \<lfloor>round_rat (of_int q * r)\<rfloor>"
    if "0 \<le> q" "q \<le> b" for q
  proof -
    have x: "of_int 0 \<le> of_int q * r" "of_int q * r \<le> of_int q"
      using assms that mult_left_mono [OF assms(5), of "of_int q"] by simp_all
    have q: "\<bar>0 :: int\<bar> \<le> 2 ^ 53" "\<bar>q\<bar> \<le> 2 ^ 53" using assms that by simp_all
    have z: "0 \<le> round_rat (of_int q * r)" using round_rat_between(1) [OF x q] by simp
    have t: "0 \<le> rat_trunc (round_rat (of_int q * r))" "rat_trunc (round_rat (of_int q * r)) \<le> q"
      using rat_trunc_between [OF round_rat_between [OF x q]] that by simp_all
    then have "in_i64 (rat_trunc (round_rat (of_int q * r)))"
      using assms(3) that by (simp add: in_i64_def)
    then show ?thesis
      using z by (simp add: b64_of_int_exact [OF q(2)] b64_round_between [OF x q] rat_trunc_def)
  qed
  have "of_int a * r \<le> of_int b * r" using assms by (intro mult_right_mono) simp_all
  then show ?thesis
    using assms * [of a] * [of b] by (simp add: floor_mono round_rat_mono)
qed

subsection \<open>The square root\<close>

lemma isqrt_bounds: "0 \<le> n \<Longrightarrow> 0 \<le> isqrt n \<and> isqrt n * isqrt n \<le> n \<and> n < (isqrt n + 1) * (isqrt n + 1)"
proof (induction n rule: isqrt.induct)
  case (1 n)
  show ?case
  proof (cases "n = 0")
    case True
    then show ?thesis by (simp add: isqrt.simps)
  next
    case False
    let ?k = "isqrt (n div 4)"
    have k: "0 \<le> ?k" "?k * ?k \<le> n div 4" "n div 4 < (?k + 1) * (?k + 1)" using 1 False by simp_all
    have "4 * (n div 4) \<le> n" "n < 4 * (n div 4 + 1)" by simp_all
    with k have r: "4 * (?k * ?k) \<le> n" "n < 4 * ((?k + 1) * (?k + 1))" by linarith+
    have eq: "isqrt n = (if (2 * ?k + 1) * (2 * ?k + 1) \<le> n then 2 * ?k + 1 else 2 * ?k)"
      using 1(2) False by (simp add: isqrt.simps [of n] Let_def)
    show ?thesis
    proof (cases "(2 * ?k + 1) * (2 * ?k + 1) \<le> n")
      case True
      then have "isqrt n = 2 * ?k + 1" using eq by simp
      then show ?thesis using True k(1) r(2) by (simp add: algebra_simps)
    next
      case False
      then have "isqrt n = 2 * ?k" using eq by simp
      then show ?thesis using False k(1) r(1) by (simp add: algebra_simps)
    qed
  qed
qed

text \<open>The root is the nearest multiple of its unit \<open>2 powi u\<close>: its square brackets the scaled argument.\<close>

lemma sqrt_pos_nearest:
  assumes "0 < x"
  shows "\<exists>r \<ge> 0. sqrt_pos x = of_int r * 2 powi (rat_exp x div 2 - 52)
    \<and> (r > 0 \<longrightarrow> of_int ((2 * r - 1) * (2 * r - 1)) \<le> 4 * (x / 2 powi (2 * (rat_exp x div 2 - 52))))
    \<and> 4 * (x / 2 powi (2 * (rat_exp x div 2 - 52))) < of_int ((2 * r + 1) * (2 * r + 1))"
proof -
  define y where "y = x / 2 powi (2 * (rat_exp x div 2 - 52))"
  define s where "s = isqrt \<lfloor>y\<rfloor>"
  define r where "r = (if 4 * y < of_int ((2 * s + 1) * (2 * s + 1)) then s else s + 1)"
  have y0: "0 \<le> y" using assms by (simp add: y_def)
  then have b: "0 \<le> s" "s * s \<le> \<lfloor>y\<rfloor>" "\<lfloor>y\<rfloor> < (s + 1) * (s + 1)"
    using isqrt_bounds [of "\<lfloor>y\<rfloor>"] by (simp_all add: s_def)
  have lo: "of_int (s * s) \<le> y" using b(2) by (simp add: le_floor_iff)
  have hi: "y < of_int ((s + 1) * (s + 1))" using b(3) by (simp only: floor_less_iff)
  have "of_int ((2 * r - 1) * (2 * r - 1)) \<le> 4 * y" if "0 < r"
  proof (cases "4 * y < of_int ((2 * s + 1) * (2 * s + 1))")
    case True
    then have "r = s" by (simp add: r_def)
    then have "(2 * r - 1) * (2 * r - 1) \<le> 4 * (s * s)" using that by (simp add: algebra_simps)
    then have "of_int ((2 * r - 1) * (2 * r - 1)) \<le> (of_int (4 * (s * s)) :: rat)" by (simp only: of_int_le_iff)
    then show ?thesis using lo by simp
  next
    case False
    then show ?thesis by (simp add: r_def algebra_simps)
  qed
  moreover have "4 * y < of_int ((2 * r + 1) * (2 * r + 1))"
  proof (cases "4 * y < of_int ((2 * s + 1) * (2 * s + 1))")
    case False
    then have "r = s + 1" by (simp add: r_def)
    then have "4 * ((s + 1) * (s + 1)) \<le> (2 * r + 1) * (2 * r + 1)" using b(1) by (simp add: algebra_simps)
    then have "of_int (4 * ((s + 1) * (s + 1))) \<le> (of_int ((2 * r + 1) * (2 * r + 1)) :: rat)" by (simp only: of_int_le_iff)
    then show ?thesis using hi by simp
  qed (simp add: r_def)
  moreover have "sqrt_pos x = of_int r * 2 powi (rat_exp x div 2 - 52)"
    by (simp add: sqrt_pos_def Let_def r_def s_def y_def)
  ultimately show ?thesis using b(1) unfolding y_def [symmetric] by (intro exI [of _ r]) (simp add: r_def)
qed

lemma sqrt_pos_1 [simp]: "sqrt_pos 1 = 1"
  by code_simp

lemma sqrt_pos_nonneg: "0 < x \<Longrightarrow> 0 \<le> sqrt_pos x"
  using sqrt_pos_nearest [of x] by auto

subsection \<open>Rounding at most doubles\<close>

lemma rne_le_double: "0 \<le> z \<Longrightarrow> of_int (rne z) \<le> 2 * z"
proof -
  assume z: "0 \<le> z"
  have f: "0 \<le> \<lfloor>z\<rfloor>" "of_int \<lfloor>z\<rfloor> \<le> z" using z by simp_all
  show ?thesis
  proof (cases "z - of_int \<lfloor>z\<rfloor> < 1 / 2")
    case True
    then have "rne z = \<lfloor>z\<rfloor>" by (simp add: rne_def Let_def)
    then show ?thesis using z f(2) by linarith
  next
    case False
    then have "1 / 2 \<le> z - of_int \<lfloor>z\<rfloor>" by linarith
    moreover have "of_int (rne z) \<le> (of_int (\<lfloor>z\<rfloor> + 1) :: rat)" using rne_floor(2) [of z] by (simp only: of_int_le_iff)
    then have "of_int (rne z) \<le> of_int \<lfloor>z\<rfloor> + (1 :: rat)" by simp
    moreover have "(0 :: rat) \<le> of_int \<lfloor>z\<rfloor>" using f(1) by simp
    ultimately show ?thesis using f(2) by linarith
  qed
qed

lemma round_rat_le_double: "0 \<le> x \<Longrightarrow> round_rat x \<le> 2 * x"
proof (cases "x = 0")
  case False
  assume "0 \<le> x"
  with False have x: "0 < x" by simp
  let ?u = "2 powi ulp_exp x :: rat"
  have "of_int (rne (x / ?u)) * ?u \<le> 2 * (x / ?u) * ?u"
    using x by (intro mult_right_mono rne_le_double) simp_all
  then show ?thesis using x by (simp add: round_rat_def round_pos_def)
qed simp

lemma round_rat_nonneg: "0 \<le> x \<Longrightarrow> 0 \<le> round_rat x"
  using round_rat_mono [of 0 x] by simp

subsection \<open>Small integers are exact\<close>

lemma b64_round_int: "\<bar>n\<bar> \<le> 2 ^ 53 \<Longrightarrow> b64_round (of_int n) = Fin (of_int n)"
  using b64_round_between [of n "of_int n" n] by (simp add: round_rat_exact representable_of_int)

lemma b64_round_numerals [simp]:
  "b64_round 0 = Fin 0" "b64_round 1 = Fin 1" "b64_round (- 1) = Fin (- 1)"
  "numeral k \<le> (2 ^ 53 :: int) \<Longrightarrow> b64_round (numeral k) = Fin (numeral k)"
  "numeral k \<le> (2 ^ 53 :: int) \<Longrightarrow> b64_round (- numeral k) = Fin (- numeral k)"
  using b64_round_int [of 0] b64_round_int [of 1] b64_round_int [of "- 1"] b64_round_int [of "numeral k"]
    b64_round_int [of "- numeral k"] by simp_all

end
