(* ===== verification/Gateway.thy ===== *)
theory Gateway
  imports Types Binary64
begin

text \<open>
  \<^verbatim>\<open>src/connectivity/gateway.hpp\<close> and \<^verbatim>\<open>src/connectivity/sim_gateway.cpp\<close>: the gateway interface as
  a locale, and the simulated gateway that provides it.  Calls of \<open>rdtsc_ns()\<close> are arguments; the
  draws of the \<open>std::mt19937\<close> seeded from the random device are a stream in the state.
\<close>

subsection \<open>The interface\<close>

text \<open>
  \<open>sent\<close> is what the gateway has been given so far; sending appends to it and does not change
  the connection or the reported round-trip time.
\<close>

locale gateway =
  fixes send :: "Timestamp \<Rightarrow> OrderRequest \<Rightarrow> 'g \<Rightarrow> 'g"
    and sent :: "'g \<Rightarrow> OrderRequest list"
    and connected :: "'g \<Rightarrow> bool"
    and rtt :: "'g \<Rightarrow> u64"
  assumes sent_send: "sent (send now req g) = sent g @ [req]"
    and connected_send: "connected (send now req g) = connected g"
    and rtt_send: "rtt (send now req g) = rtt g"
begin

lemma sent_fold: "sent (fold (\<lambda>(now, req). send now req) rs g) = sent g @ map snd rs"
  by (induction rs arbitrary: g) (simp_all add: sent_send case_prod_beta)

lemma connected_fold: "connected (fold (\<lambda>(now, req). send now req) rs g) = connected g"
  by (induction rs arbitrary: g) (simp_all add: connected_send case_prod_beta)

end

subsection \<open>SimGateway\<close>

record sim_gateway =
  sg_fill_probability :: b64
  sg_ack_latency_ns :: u64
  sg_connected :: bool
  sg_submitted :: "OrderRequest list"
  sg_fill_queue :: "FillEvent list"
  sg_next_exchange_id :: u64
  sg_draws :: "nat \<Rightarrow> b64"
  sg_drawn :: nat

definition sg_new :: "b64 \<Rightarrow> u64 \<Rightarrow> (nat \<Rightarrow> b64) \<Rightarrow> sim_gateway" where
  "sg_new p latency draws = \<lparr>sg_fill_probability = p, sg_ack_latency_ns = latency,
     sg_connected = True, sg_submitted = [], sg_fill_queue = [], sg_next_exchange_id = 1,
     sg_draws = draws, sg_drawn = 0\<rparr>"

definition sg_will_fill :: "sim_gateway \<Rightarrow> sim_gateway \<times> bool" where
  "sg_will_fill g =
     (if b64_le (Fin 1) (sg_fill_probability g) then (g, True)
      else if b64_less (Fin 0) (sg_fill_probability g)
      then (g\<lparr>sg_drawn := Suc (sg_drawn g)\<rparr>,
            b64_less (sg_draws g (sg_drawn g)) (sg_fill_probability g))
      else (g, False))"

definition sg_fill_of :: "Timestamp \<Rightarrow> u64 \<Rightarrow> OrderRequest \<Rightarrow> FillEvent" where
  "sg_fill_of now xid req = fill0\<lparr>fe_client_order_id := 0, fe_exchange_order_id := xid,
     fe_instrument_id := req_instrument_id req, fe_side := req_side req,
     fe_fill_price := req_price req, fe_fill_qty := req_qty req, fe_remaining_qty := 0,
     fe_fill_ts_ns := now\<rparr>"

definition sg_send_new_order :: "Timestamp \<Rightarrow> OrderRequest \<Rightarrow> sim_gateway \<Rightarrow> sim_gateway" where
  "sg_send_new_order now req g =
     (let g1 = g\<lparr>sg_submitted := sg_submitted g @ [req]\<rparr>; (g2, will_fill) = sg_will_fill g1 in
      if will_fill
      then g2\<lparr>sg_next_exchange_id := sg_next_exchange_id g2 + 1,
              sg_fill_queue := sg_fill_queue g2 @ [sg_fill_of now (sg_next_exchange_id g2) req]\<rparr>
      else g2)"

definition sg_send_cancel :: "u64 \<Rightarrow> sim_gateway \<Rightarrow> sim_gateway" where
  "sg_send_cancel oid g = g"

definition sg_send_modify :: "ModifyRequest \<Rightarrow> sim_gateway \<Rightarrow> sim_gateway" where
  "sg_send_modify req g = g"

definition sg_is_connected :: "sim_gateway \<Rightarrow> bool" where
  "sg_is_connected g = sg_connected g"

definition sg_get_rtt_ns :: "sim_gateway \<Rightarrow> u64" where
  "sg_get_rtt_ns g = sg_ack_latency_ns g"

definition sg_pop_fill :: "sim_gateway \<Rightarrow> sim_gateway \<times> FillEvent option" where
  "sg_pop_fill g = (case sg_fill_queue g of [] \<Rightarrow> (g, None)
     | f # fs \<Rightarrow> (g\<lparr>sg_fill_queue := fs\<rparr>, Some f))"

definition sg_order_count :: "sim_gateway \<Rightarrow> nat" where
  "sg_order_count g = length (sg_submitted g)"

definition sg_set_connected :: "bool \<Rightarrow> sim_gateway \<Rightarrow> sim_gateway" where
  "sg_set_connected v g = g\<lparr>sg_connected := v\<rparr>"

lemma sg_will_fill_frame [simp]:
  "sg_submitted (fst (sg_will_fill g)) = sg_submitted g"
  "sg_connected (fst (sg_will_fill g)) = sg_connected g"
  "sg_ack_latency_ns (fst (sg_will_fill g)) = sg_ack_latency_ns g"
  "sg_fill_queue (fst (sg_will_fill g)) = sg_fill_queue g"
  "sg_fill_probability (fst (sg_will_fill g)) = sg_fill_probability g"
  "sg_next_exchange_id (fst (sg_will_fill g)) = sg_next_exchange_id g"
  by (simp_all add: sg_will_fill_def)

interpretation sim: gateway sg_send_new_order sg_submitted sg_is_connected sg_get_rtt_ns
  by unfold_locales
    (simp_all add: sg_send_new_order_def sg_is_connected_def sg_get_rtt_ns_def Let_def case_prod_beta)

text \<open>A gateway that always fills: each order yields one full fill, in order, with fresh exchange
  identifiers.\<close>

lemma sg_send_fills:
  "b64_le (Fin 1) (sg_fill_probability g) \<Longrightarrow>
   sg_fill_queue (sg_send_new_order now req g) =
     sg_fill_queue g @ [sg_fill_of now (sg_next_exchange_id g) req]
   \<and> sg_next_exchange_id (sg_send_new_order now req g) = sg_next_exchange_id g + 1
   \<and> sg_fill_probability (sg_send_new_order now req g) = sg_fill_probability g"
  by (simp add: sg_send_new_order_def sg_will_fill_def Let_def)

lemma sg_fold_fills:
  "b64_le (Fin 1) (sg_fill_probability g) \<Longrightarrow>
   map fe_fill_qty (sg_fill_queue (fold (\<lambda>(now, req). sg_send_new_order now req) rs g)) =
     map fe_fill_qty (sg_fill_queue g) @ map (req_qty \<circ> snd) rs"
proof (induction rs arbitrary: g)
  case (Cons r rs)
  obtain now req where r: "r = (now, req)" by force
  from Cons.IH [of "sg_send_new_order now req g"] sg_send_fills [OF Cons.prems, of now req] Cons.prems
  show ?case by (simp add: r sg_fill_of_def)
qed simp

end
