(* ===== verification/Twap.thy ===== *)
theory Twap
  imports Gateway
begin

text \<open>
  \<^verbatim>\<open>src/execution/twap.cpp\<close>: time-weighted slicing.  \<open>tick\<close> takes the three clock readings of the
  call (the check, the request's time stamp, the gateway's own) and the gateway operation \<open>send\<close>
  as arguments; the lemmas hold for every gateway that satisfies the interface.
\<close>

subsection \<open>Slice arithmetic shared with VWAP\<close>

text \<open>The guard of a slice that is not the last one: at least 1, otherwise at most the headroom.\<close>

definition guard_qty :: "Qty \<Rightarrow> Qty \<Rightarrow> Qty" where
  "guard_qty q headroom = max 1 (min q headroom)"

text \<open>
  What the guard maintains, for a total of \<open>tot\<close> over \<open>n\<close> slices with \<open>k\<close> slices gone and
  \<open>s\<close> sent: with enough quantity every later slice still has its 1 reserved; with too little,
  exactly 1 has gone out per slice.
\<close>

definition slices_ok :: "Qty \<Rightarrow> int \<Rightarrow> int \<Rightarrow> Qty \<Rightarrow> bool" where
  "slices_ok tot n k s \<longleftrightarrow> 0 \<le> tot \<and> 1 \<le> n \<and> 0 \<le> k \<and> k \<le> n \<and> tot < 2 ^ 62 \<and> n < 2 ^ 31
     \<and> (if k = n then s = max tot (n - 1)
        else if n \<le> tot then k \<le> s \<and> s \<le> tot - (n - k) else s = k)"

lemma slices_ok_bounds:
  "slices_ok tot n k s \<Longrightarrow> 0 \<le> s \<and> s \<le> max tot (n - 1) \<and> 0 \<le> k \<and> k \<le> n \<and> tot < 2 ^ 62 \<and> n < 2 ^ 31"
  by (auto simp: slices_ok_def split: if_splits)

lemma slices_ok_next:
  assumes "slices_ok tot n k s" and "k < n - 1"
  shows "slices_ok tot n (k + 1) (s + guard_qty q (tot - s - (n - 1 - k)))"
  using assms by (auto simp: slices_ok_def guard_qty_def split: if_splits)

lemma slices_ok_last:
  assumes "slices_ok tot n (n - 1) s"
  shows "slices_ok tot n n (s + max 0 (tot - s))"
  using assms by (auto simp: slices_ok_def split: if_splits)

lemma slice_headroom:
  assumes "slices_ok tot n k s" and "k < n"
  shows "i64 (i64 (tot - s) - (n - 1 - k)) = tot - s - (n - 1 - k)" and "i64 (tot - s) = tot - s"
proof -
  note b = slices_ok_bounds [OF assms(1)]
  have "0 \<le> s" "s < 2 ^ 62 + 2 ^ 31" "0 \<le> tot" using b assms(1) by (auto simp: slices_ok_def)
  then have *: "in_i64 (tot - s)" "in_i64 (tot - s - (n - 1 - k))"
    using b assms(2) by (auto simp: in_i64_def)
  then show "i64 (tot - s) = tot - s" by (simp add: i64_id)
  with * show "i64 (i64 (tot - s) - (n - 1 - k)) = tot - s - (n - 1 - k)" by (simp add: i64_id)
qed

subsection \<open>Twap\<close>

record twap =
  tw_instrument_id :: InstrumentId
  tw_side :: Side
  tw_total_qty :: Qty
  tw_duration_ns :: u64
  tw_slices :: int
  tw_jitter_ratio :: b64
  tw_slice_qty :: Qty
  tw_sent_qty :: Qty
  tw_slice_index :: int
  tw_start_ns :: u64
  tw_interval_ns :: u64
  tw_lcg_state :: u64

definition lcg_next :: "u64 \<Rightarrow> u64" where
  "lcg_next s = s * 6364136223846793005 + 1442695040888963407"

definition twap_new :: "InstrumentId \<Rightarrow> Side \<Rightarrow> Qty \<Rightarrow> u64 \<Rightarrow> int \<Rightarrow> b64 \<Rightarrow> twap" where
  "twap_new ident side tot dur slices jitter =
     (let n = (if slices > 0 then slices else 1) in
      \<lparr>tw_instrument_id = ident, tw_side = side, tw_total_qty = tot, tw_duration_ns = dur,
       tw_slices = n, tw_jitter_ratio = jitter, tw_slice_qty = cdiv tot n, tw_sent_qty = 0,
       tw_slice_index = 0, tw_start_ns = 0,
       tw_interval_ns = (if n > 0 then dur div of_int n else dur),
       tw_lcg_state = 0x9e3779b97f4a7c15 XOR of_int tot\<rparr>)"

definition twap_start :: "u64 \<Rightarrow> twap \<Rightarrow> twap" where
  "twap_start now t = t\<lparr>tw_start_ns := now, tw_sent_qty := 0, tw_slice_index := 0\<rparr>"

definition apply_jitter :: "Qty \<Rightarrow> twap \<Rightarrow> twap \<times> Qty" where
  "apply_jitter base t =
     (let s = lcg_next (tw_lcg_state t);
          r = b64_div (b64_of_int (uint (drop_bit 32 s))) (b64_of_int 0xFFFFFFFF);
          jitter = b64_mult (b64_sub (b64_mult r (Fin 2)) (Fin 1)) (tw_jitter_ratio t);
          result = b64_to_i64 (b64_mult (b64_of_int base) (b64_add (Fin 1) jitter))
      in (t\<lparr>tw_lcg_state := s\<rparr>, max 1 result))"

definition market_order :: "InstrumentId \<Rightarrow> Side \<Rightarrow> Qty \<Rightarrow> Timestamp \<Rightarrow> OrderRequest" where
  "market_order ident side q ts = req0\<lparr>req_instrument_id := ident, req_side := side,
     req_type := MARKET, req_price := 0, req_qty := q, req_strategy_ts_ns := ts\<rparr>"

definition twap_threshold :: "twap \<Rightarrow> u64" where
  "twap_threshold t = tw_start_ns t + of_int (tw_slice_index t) * tw_interval_ns t"

definition twap_slice :: "twap \<Rightarrow> twap \<times> Qty" where
  "twap_slice t =
     (if tw_slice_index t = tw_slices t - 1 then (t, i64 (tw_total_qty t - tw_sent_qty t))
      else let (t1, q) = apply_jitter (tw_slice_qty t) t;
               headroom = i64 (i64 (tw_total_qty t1 - tw_sent_qty t1)
                               - (tw_slices t1 - 1 - tw_slice_index t1))
           in (t1, guard_qty q headroom))"

definition twap_tick :: "(Timestamp \<Rightarrow> OrderRequest \<Rightarrow> 'g \<Rightarrow> 'g) \<Rightarrow> u64 \<times> u64 \<times> u64 \<Rightarrow> twap \<times> 'g
    \<Rightarrow> (twap \<times> 'g) \<times> bool" where
  "twap_tick send clk tg = (case (clk, tg) of ((now, ts, gts), (t, g)) \<Rightarrow>
     if tw_slice_index t \<ge> tw_slices t then ((t, g), False)
     else if now < twap_threshold t then ((t, g), False)
     else let (t1, q) = twap_slice t;
              (t2, g2) = (if q > 0
                then (t1\<lparr>tw_sent_qty := i64 (tw_sent_qty t1 + q)\<rparr>,
                      send gts (market_order (tw_instrument_id t1) (tw_side t1) q ts) g)
                else (t1, g))
          in ((t2\<lparr>tw_slice_index := tw_slice_index t2 + 1\<rparr>, g2), True))"

definition twap_is_done :: "twap \<Rightarrow> bool" where
  "twap_is_done t \<longleftrightarrow> tw_slice_index t \<ge> tw_slices t"

definition twap_remaining_qty :: "twap \<Rightarrow> Qty" where
  "twap_remaining_qty t = i64 (tw_total_qty t - tw_sent_qty t)"

definition twap_run :: "(Timestamp \<Rightarrow> OrderRequest \<Rightarrow> 'g \<Rightarrow> 'g) \<Rightarrow> (u64 \<times> u64 \<times> u64) list
    \<Rightarrow> twap \<times> 'g \<Rightarrow> twap \<times> 'g" where
  "twap_run send clks tg = fold (\<lambda>clk tg. fst (twap_tick send clk tg)) clks tg"

subsection \<open>What one tick does\<close>

definition twap_ok :: "twap \<Rightarrow> bool" where
  "twap_ok t \<longleftrightarrow> slices_ok (tw_total_qty t) (tw_slices t) (tw_slice_index t) (tw_sent_qty t)"

lemma apply_jitter_frame [simp]:
  "tw_total_qty (fst (apply_jitter b t)) = tw_total_qty t" "tw_sent_qty (fst (apply_jitter b t)) = tw_sent_qty t"
  "tw_slices (fst (apply_jitter b t)) = tw_slices t" "tw_slice_index (fst (apply_jitter b t)) = tw_slice_index t"
  "tw_side (fst (apply_jitter b t)) = tw_side t" "tw_instrument_id (fst (apply_jitter b t)) = tw_instrument_id t"
  "tw_start_ns (fst (apply_jitter b t)) = tw_start_ns t" "tw_interval_ns (fst (apply_jitter b t)) = tw_interval_ns t"
  by (simp_all add: apply_jitter_def Let_def)

lemma twap_slice_frame [simp]:
  "tw_total_qty (fst (twap_slice t)) = tw_total_qty t" "tw_sent_qty (fst (twap_slice t)) = tw_sent_qty t"
  "tw_slices (fst (twap_slice t)) = tw_slices t" "tw_slice_index (fst (twap_slice t)) = tw_slice_index t"
  "tw_side (fst (twap_slice t)) = tw_side t" "tw_instrument_id (fst (twap_slice t)) = tw_instrument_id t"
  "tw_start_ns (fst (twap_slice t)) = tw_start_ns t" "tw_interval_ns (fst (twap_slice t)) = tw_interval_ns t"
  by (simp_all add: twap_slice_def Let_def case_prod_beta)

lemma twap_slice_step:
  assumes "twap_ok t" and "tw_slice_index t < tw_slices t"
  shows "slices_ok (tw_total_qty t) (tw_slices t) (tw_slice_index t + 1)
     (tw_sent_qty t + max 0 (snd (twap_slice t)))"
proof (cases "tw_slice_index t = tw_slices t - 1")
  case True
  then show ?thesis
    using assms slices_ok_last [of "tw_total_qty t" "tw_slices t" "tw_sent_qty t"]
      slice_headroom(2) [of "tw_total_qty t" "tw_slices t" "tw_slice_index t" "tw_sent_qty t"]
    by (simp add: twap_slice_def twap_ok_def)
next
  case False
  let ?q = "snd (apply_jitter (tw_slice_qty t) t)"
  have "snd (twap_slice t) = guard_qty ?q (tw_total_qty t - tw_sent_qty t - (tw_slices t - 1 - tw_slice_index t))"
    using False assms slice_headroom(1) [of "tw_total_qty t" "tw_slices t" "tw_slice_index t" "tw_sent_qty t"]
    by (simp add: twap_slice_def Let_def case_prod_beta twap_ok_def)
  moreover from this have "0 < snd (twap_slice t)" by (simp add: guard_qty_def)
  ultimately show ?thesis
    using slices_ok_next [of "tw_total_qty t" "tw_slices t" "tw_slice_index t" "tw_sent_qty t" ?q] assms False
    by (simp add: twap_ok_def max_def)
qed

lemma twap_tick_cases:
  obtains (idle) "fst (twap_tick send (now, ts, gts) (t, g)) = (t, g)"
      "tw_slices t \<le> tw_slice_index t \<or> now < twap_threshold t"
    | (slice) q t' where "tw_slice_index t < tw_slices t" "\<not> now < twap_threshold t" "q = snd (twap_slice t)"
      "fst (twap_tick send (now, ts, gts) (t, g)) = (t',
         if 0 < q then send gts (market_order (tw_instrument_id t) (tw_side t) q ts) g else g)"
      "t' = (fst (twap_slice t))\<lparr>tw_sent_qty := if 0 < q then i64 (tw_sent_qty t + q) else tw_sent_qty t,
              tw_slice_index := tw_slice_index t + 1\<rparr>"
proof (cases "tw_slices t \<le> tw_slice_index t \<or> now < twap_threshold t")
  case True
  then have "fst (twap_tick send (now, ts, gts) (t, g)) = (t, g)" by (auto simp: twap_tick_def)
  then show thesis using True by (rule idle)
next
  case False
  then show thesis
    by (intro slice [of "snd (twap_slice t)"]) (auto simp: twap_tick_def Let_def case_prod_beta)
qed

subsection \<open>Execution against any gateway\<close>

definition twap_same :: "twap \<Rightarrow> twap \<Rightarrow> bool" where
  "twap_same t t' \<longleftrightarrow> tw_total_qty t' = tw_total_qty t \<and> tw_slices t' = tw_slices t
     \<and> tw_side t' = tw_side t \<and> tw_instrument_id t' = tw_instrument_id t
     \<and> tw_start_ns t' = tw_start_ns t \<and> tw_interval_ns t' = tw_interval_ns t"

definition slice_request :: "InstrumentId \<Rightarrow> Side \<Rightarrow> OrderRequest \<Rightarrow> bool" where
  "slice_request ident side r \<longleftrightarrow> 0 < req_qty r \<and> req_type r = MARKET \<and> req_price r = 0
     \<and> req_instrument_id r = ident \<and> req_side r = side"

lemma slice_request_market: "0 < q \<Longrightarrow> slice_request ident side (market_order ident side q ts)"
  by (simp add: slice_request_def market_order_def)

lemma market_order_qty [simp]: "req_qty (market_order ident side q ts) = q"
  by (simp add: market_order_def)

context gateway begin

lemma twap_tick_step:
  assumes "twap_ok t" and "fst (twap_tick send clk (t, g)) = (t', g')"
  shows "twap_ok t' \<and> twap_same t t' \<and> (\<exists>reqs. sent g' = sent g @ reqs
    \<and> (\<forall>r \<in> set reqs. slice_request (tw_instrument_id t) (tw_side t) r)
    \<and> (\<Sum>r\<leftarrow>reqs. req_qty r) = tw_sent_qty t' - tw_sent_qty t)"
proof -
  obtain now ts gts where clk: "clk = (now, ts, gts)" by (cases clk)
  show ?thesis
  proof (rule twap_tick_cases [of send now ts gts t g])
    assume "fst (twap_tick send (now, ts, gts) (t, g)) = (t, g)"
    then show ?thesis using assms by (simp add: clk twap_same_def)
  next
    fix q t1
    assume i: "tw_slice_index t < tw_slices t" and q: "q = snd (twap_slice t)"
      and r: "fst (twap_tick send (now, ts, gts) (t, g)) = (t1,
         if 0 < q then send gts (market_order (tw_instrument_id t) (tw_side t) q ts) g else g)"
      and t1: "t1 = (fst (twap_slice t))\<lparr>tw_sent_qty := if 0 < q then i64 (tw_sent_qty t + q) else tw_sent_qty t,
              tw_slice_index := tw_slice_index t + 1\<rparr>"
    have eq: "t' = t1" "g' = (if 0 < q then send gts (market_order (tw_instrument_id t) (tw_side t) q ts) g else g)"
      using assms(2) r by (simp_all add: clk)
    have s: "slices_ok (tw_total_qty t) (tw_slices t) (tw_slice_index t + 1) (tw_sent_qty t + max 0 q)"
      using twap_slice_step [OF assms(1) i] q by simp
    have w: "i64 (tw_sent_qty t + max 0 q) = tw_sent_qty t + max 0 q"
      using slices_ok_bounds [OF s] by (intro i64_id) (auto simp: in_i64_def)
    have ok: "twap_ok t1 \<and> twap_same t t1 \<and> tw_sent_qty t1 = tw_sent_qty t + max 0 q"
    proof -
      have m: "max 0 q = (if 0 < q then q else 0)" by simp
      show ?thesis using s w unfolding m by (cases "0 < q") (simp_all add: t1 twap_ok_def twap_same_def)
    qed
    show ?thesis
    proof (cases "0 < q")
      case True
      then have "sent g' = sent g @ [market_order (tw_instrument_id t) (tw_side t) q ts]"
        by (simp add: eq(2) sent_send)
      with True ok show ?thesis
        by (intro conjI exI [of _ "[market_order (tw_instrument_id t) (tw_side t) q ts]"])
          (auto simp: eq(1) slice_request_market)
    next
      case False
      with ok show ?thesis by (intro conjI exI [of _ "[]"]) (auto simp: eq)
    qed
  qed
qed

lemma twap_run_steps:
  "twap_ok t \<Longrightarrow> twap_run send clks (t, g) = (t', g') \<Longrightarrow>
   twap_ok t' \<and> twap_same t t' \<and> (\<exists>reqs. sent g' = sent g @ reqs
    \<and> (\<forall>r \<in> set reqs. slice_request (tw_instrument_id t) (tw_side t) r)
    \<and> (\<Sum>r\<leftarrow>reqs. req_qty r) = tw_sent_qty t' - tw_sent_qty t)"
proof (induction clks arbitrary: t g)
  case Nil
  then show ?case by (auto simp: twap_run_def twap_same_def)
next
  case (Cons clk clks)
  obtain t1 g1 where 1: "fst (twap_tick send clk (t, g)) = (t1, g1)" by force
  then have 2: "twap_run send clks (t1, g1) = (t', g')" using Cons.prems(2) by (simp add: twap_run_def)
  from twap_tick_step [OF Cons.prems(1) 1] obtain r1 where r1: "twap_ok t1" "twap_same t t1"
    "sent g1 = sent g @ r1" "\<forall>r \<in> set r1. slice_request (tw_instrument_id t) (tw_side t) r"
    "(\<Sum>r\<leftarrow>r1. req_qty r) = tw_sent_qty t1 - tw_sent_qty t" by blast
  from Cons.IH [OF r1(1) 2] obtain r2 where r2: "twap_ok t'" "twap_same t1 t'"
    "sent g' = sent g1 @ r2" "\<forall>r \<in> set r2. slice_request (tw_instrument_id t1) (tw_side t1) r"
    "(\<Sum>r\<leftarrow>r2. req_qty r) = tw_sent_qty t' - tw_sent_qty t1" by blast
  show ?case
    using r1 r2 by (intro conjI exI [of _ "r1 @ r2"]) (auto simp: twap_same_def)
qed

end

lemma twap_start_ok:
  assumes "0 \<le> tot" and "tot < 2 ^ 62" and "slices < 2 ^ 31"
  shows "twap_ok (twap_start now (twap_new ident side tot dur slices jitter))"
  using assms by (simp add: twap_ok_def twap_start_def twap_new_def Let_def slices_ok_def)

lemma twap_start_fields:
  "tw_total_qty (twap_start now (twap_new ident side tot dur slices jitter)) = tot"
  "tw_slices (twap_start now (twap_new ident side tot dur slices jitter)) = max 1 slices"
  "tw_sent_qty (twap_start now (twap_new ident side tot dur slices jitter)) = 0"
  "tw_slice_index (twap_start now (twap_new ident side tot dur slices jitter)) = 0"
  "tw_side (twap_start now (twap_new ident side tot dur slices jitter)) = side"
  "tw_instrument_id (twap_start now (twap_new ident side tot dur slices jitter)) = ident"
  "tw_start_ns (twap_start now (twap_new ident side tot dur slices jitter)) = now"
  "tw_interval_ns (twap_start now (twap_new ident side tot dur slices jitter)) = dur div of_int (max 1 slices)"
  by (simp_all add: twap_start_def twap_new_def Let_def max_def)

text \<open>
  Claim C23.  TWAP conserves quantity: against the simulated gateway, at any time and for any
  clock, jitter and random state, the orders sent are positive market orders of the right
  instrument and side that add up to \<open>sent_qty_\<close>; once all slices are out they add up to exactly
  the total, provided the total is at least the number of slices.  With a smaller total each slice but the
  last still sends 1, so \<open>slices - 1\<close> is dispatched: the code then overshoots.
\<close>

theorem twap_dispatches_total:
  assumes "0 \<le> tot" and "tot < 2 ^ 62" and "slices < 2 ^ 31"
    and "twap_run sg_send_new_order clks
           (twap_start now (twap_new ident side tot dur slices jitter), g) = (t', g')"
  shows "\<exists>reqs. sg_submitted g' = sg_submitted g @ reqs
    \<and> (\<forall>r \<in> set reqs. 0 < req_qty r \<and> req_type r = MARKET \<and> req_instrument_id r = ident \<and> req_side r = side)
    \<and> (\<Sum>r\<leftarrow>reqs. req_qty r) = tw_sent_qty t'
    \<and> tw_sent_qty t' \<le> max tot (slices - 1)
    \<and> (twap_is_done t' \<longrightarrow> tw_sent_qty t' = max tot (slices - 1))"
proof -
  let ?t = "twap_start now (twap_new ident side tot dur slices jitter)"
  from sim.twap_run_steps [OF twap_start_ok [OF assms(1-3)] assms(4)] obtain reqs where r:
    "twap_ok t'" "twap_same ?t t'" "sg_submitted g' = sg_submitted g @ reqs"
    "\<forall>r \<in> set reqs. slice_request ident side r" "(\<Sum>r\<leftarrow>reqs. req_qty r) = tw_sent_qty t'"
    by (auto simp: twap_start_fields)
  have f: "tw_total_qty t' = tot" "tw_slices t' = max 1 slices"
    using r(2) by (simp_all add: twap_same_def twap_start_fields)
  have s: "slices_ok tot (max 1 slices) (tw_slice_index t') (tw_sent_qty t')"
    using r(1) by (simp add: twap_ok_def f)
  have "max tot (max 1 slices - 1) = max tot (slices - 1)" using assms(1) by simp
  moreover have "tw_sent_qty t' \<le> max tot (max 1 slices - 1)" using slices_ok_bounds [OF s] by simp
  moreover have "twap_is_done t' \<longrightarrow> tw_sent_qty t' = max tot (max 1 slices - 1)"
    using s by (auto simp: twap_is_done_def f slices_ok_def split: if_splits)
  ultimately show ?thesis using r(3-5) by (intro exI [of _ reqs]) (auto simp: slice_request_def)
qed

theorem twap_dispatches_total_witness:
  "\<exists>t' g'. twap_run sg_send_new_order [(10, 10, 10), (20, 20, 20)]
      (twap_start 5 (twap_new 1 BUY 2 100 5 (Fin 0)), sg_new (Fin 1) 1000 (\<lambda>_. Fin 0)) = (t', g')
    \<and> tw_sent_qty t' \<le> 4"
proof -
  obtain t' g' where r: "twap_run sg_send_new_order [(10, 10, 10), (20, 20, 20)]
      (twap_start 5 (twap_new 1 BUY 2 100 5 (Fin 0)), sg_new (Fin 1) 1000 (\<lambda>_. Fin 0)) = (t', g')"
    by force
  from twap_dispatches_total [OF _ _ _ r] have "tw_sent_qty t' \<le> 4" by auto
  with r show ?thesis by blast
qed

subsection \<open>The schedule\<close>

lemma twap_tick_due:
  assumes "tw_slice_index t < tw_slices t" and "\<not> now < twap_threshold t"
    and "fst (twap_tick send (now, ts, gts) (t, g)) = (t', g')"
  shows "tw_slice_index t' = tw_slice_index t + 1 \<and> tw_slices t' = tw_slices t
    \<and> tw_start_ns t' = tw_start_ns t \<and> tw_interval_ns t' = tw_interval_ns t"
  using assms(3)
  by (rule_tac twap_tick_cases [of send now ts gts t g]) (use assms(1,2) in auto)

lemma threshold_no_wrap:
  assumes "0 \<le> k" and "k \<le> n" and "1 \<le> n" and "n < 2 ^ 31" and "unat start + unat dur < 2 ^ 64"
  shows "unat (start + of_int k * ((dur :: u64) div of_int n)) \<le> unat start + unat dur"
proof -
  have n: "unat (of_int n :: u64) = nat n" and k: "unat (of_int k :: u64) = nat k"
    using assms(1-4) by (simp_all add: unat_of_int_u64)
  have "nat k * (unat dur div nat n) \<le> nat n * (unat dur div nat n)" using assms(2) by (intro mult_right_mono) auto
  also have "\<dots> \<le> unat dur" by simp
  finally have p: "unat (of_int k :: u64) * unat (dur div of_int n) \<le> unat dur"
    by (simp add: unat_div_distrib n k)
  then have m: "unat (of_int k * (dur div of_int n)) = unat (of_int k :: u64) * unat (dur div of_int n)"
    using unat_less_u64 [of dur] by (simp add: unat_mult_lem [symmetric])
  have "unat (start + of_int k * (dur div of_int n)) = unat start + unat (of_int k * (dur div of_int n))"
    using p assms(5) by (intro unat_add_lem [THEN iffD1]) (simp add: m)
  then show ?thesis using p by (simp add: m)
qed

lemma twap_due_run:
  "tw_slices t = n \<Longrightarrow> tw_start_ns t = start \<Longrightarrow> tw_interval_ns t = dur div of_int n \<Longrightarrow>
   1 \<le> n \<Longrightarrow> n < 2 ^ 31 \<Longrightarrow> 0 \<le> tw_slice_index t \<Longrightarrow> unat start + unat dur < 2 ^ 64 \<Longrightarrow>
   \<forall>(now, ts, gts) \<in> set clks. unat start + unat dur \<le> unat now \<Longrightarrow>
   twap_run send clks (t, g) = (t', g') \<Longrightarrow> n \<le> tw_slice_index t + int (length clks) \<Longrightarrow> twap_is_done t'"
proof (induction clks arbitrary: t g)
  case Nil
  then show ?case by (simp add: twap_run_def twap_is_done_def)
next
  case (Cons clk clks)
  obtain now ts gts where clk: "clk = (now, ts, gts)" by (cases clk)
  obtain t1 g1 where 1: "fst (twap_tick send clk (t, g)) = (t1, g1)" by force
  then have 2: "twap_run send clks (t1, g1) = (t', g')" using Cons.prems(9) by (simp add: twap_run_def)
  show ?case
  proof (cases "tw_slice_index t < tw_slices t")
    case True
    have "unat (twap_threshold t) \<le> unat start + unat dur"
      using threshold_no_wrap [of "tw_slice_index t" n start dur] Cons.prems True
      by (simp add: twap_threshold_def)
    then have "\<not> now < twap_threshold t" using Cons.prems(8) by (auto simp: clk word_less_nat_alt)
    from twap_tick_due [OF True this 1 [unfolded clk]] Cons.prems 2 show ?thesis
      by (intro Cons.IH [of t1 g1]) auto
  next
    case False
    then have "t1 = t" using 1 by (simp add: clk twap_tick_def)
    with Cons.prems 2 False show ?thesis by (intro Cons.IH [of t1 g1]) auto
  qed
qed

text \<open>
  TWAP finishes: \<open>slices\<close> ticks taken after the execution window are enough to send
  every slice, and then nothing remains.
\<close>

theorem twap_completes:
  assumes "1 \<le> slices" and "slices \<le> tot" and "tot < 2 ^ 62" and "slices < 2 ^ 31"
    and "unat start + unat dur < 2 ^ 64"
    and "\<forall>(now, ts, gts) \<in> set clks. unat start + unat dur \<le> unat now" and "slices \<le> int (length clks)"
    and "twap_run sg_send_new_order clks
           (twap_start start (twap_new ident side tot dur slices jitter), g) = (t', g')"
  shows "twap_is_done t' \<and> twap_remaining_qty t' = 0"
proof -
  let ?t = "twap_start start (twap_new ident side tot dur slices jitter)"
  have done_t: "twap_is_done t'"
    by (rule twap_due_run [OF _ _ _ assms(1,4) _ assms(5,6,8)])
      (use assms(1,7) in \<open>simp_all add: twap_start_fields max_def\<close>)
  have "twap_ok ?t" using assms by (intro twap_start_ok) auto
  from sim.twap_run_steps [OF this assms(8)] have "twap_ok t'" "twap_same ?t t'" by auto
  then have "slices_ok tot slices (tw_slice_index t') (tw_sent_qty t')" "tw_slices t' = slices" "tw_total_qty t' = tot"
    using assms(1) by (simp_all add: twap_ok_def twap_same_def twap_start_fields max_def)
  with done_t assms(1,2) show ?thesis
    by (auto simp: twap_is_done_def twap_remaining_qty_def slices_ok_def split: if_splits)
qed

theorem twap_completes_witness:
  "\<exists>t' g'. twap_run sg_send_new_order [(200, 0, 0), (200, 0, 0)]
      (twap_start 5 (twap_new 1 BUY 10 100 2 (Fin 0)), sg_new (Fin 1) 1000 (\<lambda>_. Fin 0)) = (t', g')
    \<and> twap_remaining_qty t' = 0"
proof -
  obtain t' g' where r: "twap_run sg_send_new_order [(200, 0, 0), (200, 0, 0)]
      (twap_start 5 (twap_new 1 BUY 10 100 2 (Fin 0)), sg_new (Fin 1) 1000 (\<lambda>_. Fin 0)) = (t', g')"
    by force
  from twap_completes [OF _ _ _ _ _ _ _ r] have "twap_remaining_qty t' = 0" by simp
  with r show ?thesis by blast
qed

end
