(* ===== verification/Vwap.thy ===== *)
theory Vwap
  imports Twap
begin

text \<open>
  \<^verbatim>\<open>src/execution/vwap.cpp\<close>: volume-weighted slicing with its fixed arrays of \<open>kVwapMaxSlices\<close>
  entries.  An index outside an array is undefined behaviour and is the fault \<open>Inl\<close>.  What the
  arrays contain before the constructor writes them is a parameter.
\<close>

subsection \<open>State and operations\<close>

datatype vwap_fault = Index_out_of_bounds

definition VWAP_MAX_SLICES :: nat where "VWAP_MAX_SLICES = 128"

record vwap =
  vw_instrument_id :: InstrumentId
  vw_side :: Side
  vw_total_qty :: Qty
  vw_slices :: nat
  vw_duration_ns :: u64
  vw_profile :: "b64 list"
  vw_target_qty :: "Qty list"
  vw_dispatched_qty :: Qty
  vw_total_filled :: Qty
  vw_slice_index :: nat
  vw_start_ns :: u64
  vw_interval_ns :: u64

definition arr_get :: "nat \<Rightarrow> 'a list \<Rightarrow> vwap_fault + 'a" where
  "arr_get i xs = (if i < length xs then Inr (xs ! i) else Inl Index_out_of_bounds)"

definition arr_set :: "nat \<Rightarrow> 'a \<Rightarrow> 'a list \<Rightarrow> vwap_fault + 'a list" where
  "arr_set i x xs = (if i < length xs then Inr (xs[i := x]) else Inl Index_out_of_bounds)"

text \<open>A loop over indices whose body may fault.\<close>

fun for_each :: "nat list \<Rightarrow> (nat \<Rightarrow> 's \<Rightarrow> vwap_fault + 's) \<Rightarrow> 's \<Rightarrow> vwap_fault + 's" where
  "for_each [] body s = Inr s"
| "for_each (i # is) body s = rbind (body i s) (for_each is body)"

definition profile_entry :: "b64 list option \<Rightarrow> nat \<Rightarrow> nat \<Rightarrow> vwap_fault + b64" where
  "profile_entry profile n i = (case profile of
     Some ps \<Rightarrow> arr_get i ps | None \<Rightarrow> Inr (b64_div (Fin 1) (b64_of_int (int n))))"

definition vwap_init_body :: "Qty \<Rightarrow> b64 list option \<Rightarrow> nat \<Rightarrow> nat
    \<Rightarrow> b64 list \<times> Qty list \<times> Qty \<Rightarrow> vwap_fault + b64 list \<times> Qty list \<times> Qty" where
  "vwap_init_body tot profile n i = (\<lambda>(ps, ts, assigned).
     rbind (profile_entry profile n i) (\<lambda>p.
     let q = b64_to_i64 (b64_mult (b64_of_int tot) p) in
     rbind (arr_set i p ps) (\<lambda>ps'.
     rbind (arr_set i q ts) (\<lambda>ts'. Inr (ps', ts', i64 (assigned + q))))))"

definition vwap_new :: "b64 list \<Rightarrow> Qty list \<Rightarrow> InstrumentId \<Rightarrow> Side \<Rightarrow> Qty \<Rightarrow> b64 list option
    \<Rightarrow> int \<Rightarrow> u64 \<Rightarrow> vwap_fault + vwap" where
  "vwap_new ps0 ts0 ident side tot profile slices dur =
     (let s = (if slices > 0 then nat slices else 1);
          n = (if s < VWAP_MAX_SLICES then s else VWAP_MAX_SLICES) in
      rbind (for_each [0..<n - 1] (vwap_init_body tot profile n) (ps0, ts0, 0)) (\<lambda>(ps, ts, assigned).
      rbind (profile_entry profile n (n - 1)) (\<lambda>p.
      rbind (arr_set (n - 1) p ps) (\<lambda>ps'.
      rbind (arr_set (n - 1) (i64 (tot - assigned)) ts) (\<lambda>ts'.
        Inr \<lparr>vw_instrument_id = ident, vw_side = side, vw_total_qty = tot, vw_slices = s,
             vw_duration_ns = dur, vw_profile = ps', vw_target_qty = ts', vw_dispatched_qty = 0,
             vw_total_filled = 0, vw_slice_index = 0, vw_start_ns = 0,
             vw_interval_ns = dur div of_nat s\<rparr>)))))"

definition vwap_start :: "u64 \<Rightarrow> vwap \<Rightarrow> vwap" where
  "vwap_start now v = v\<lparr>vw_start_ns := now, vw_dispatched_qty := 0, vw_total_filled := 0,
     vw_slice_index := 0\<rparr>"

definition vwap_on_fill :: "Qty \<Rightarrow> vwap \<Rightarrow> vwap" where
  "vwap_on_fill q v = v\<lparr>vw_total_filled := i64 (vw_total_filled v + q)\<rparr>"

definition sum_profile :: "b64 list \<Rightarrow> nat \<Rightarrow> nat \<Rightarrow> vwap_fault + b64" where
  "sum_profile ps a b =
     for_each [a..<b] (\<lambda>i acc. rbind (arr_get i ps) (\<lambda>p. Inr (b64_add acc p))) (Fin 0)"

definition rebalance_body :: "b64 list \<Rightarrow> Qty \<Rightarrow> b64 \<Rightarrow> nat \<Rightarrow> Qty list \<times> Qty
    \<Rightarrow> vwap_fault + Qty list \<times> Qty" where
  "rebalance_body ps remaining psum i = (\<lambda>(ts, assigned).
     rbind (arr_get i ps) (\<lambda>p.
     let q = b64_to_i64 (b64_div (b64_mult (b64_of_int remaining) p) psum) in
     rbind (arr_set i q ts) (\<lambda>ts'. Inr (ts', i64 (assigned + q)))))"

definition vwap_redistribute :: "vwap \<Rightarrow> vwap_fault + vwap" where
  "vwap_redistribute v =
     (let remaining = i64 (vw_total_qty v - vw_total_filled v) in
      if remaining \<le> 0 then Inr v
      else if vw_slices v - vw_slice_index v \<le> 0 then Inr v
      else rbind (sum_profile (vw_profile v) (vw_slice_index v) (vw_slices v)) (\<lambda>psum.
        if b64_le psum (Fin 0) then Inr v
        else rbind (for_each [vw_slice_index v..<vw_slices v - 1]
               (rebalance_body (vw_profile v) remaining psum) (vw_target_qty v, 0)) (\<lambda>(ts, assigned).
             rbind (arr_set (vw_slices v - 1) (i64 (remaining - assigned)) ts) (\<lambda>ts'.
               Inr (v\<lparr>vw_target_qty := ts'\<rparr>)))))"

definition deviates :: "Qty \<Rightarrow> Qty \<Rightarrow> bool" where
  "deviates filled expected =
     (let d = b64_div (b64_of_int (i64 (filled - expected))) (b64_of_int expected)
      in b64_less (b64_round (1 / 5)) d \<or> b64_less d (b64_round (- 1 / 5)))"

definition maybe_rebalance :: "vwap \<Rightarrow> vwap_fault + vwap" where
  "maybe_rebalance v =
     (if vw_slice_index v = 0 then Inr v
      else if vw_total_filled v = 0 then Inr v
      else rbind (sum_profile (vw_profile v) 0 (vw_slice_index v)) (\<lambda>orig_frac.
        let expected = b64_to_i64 (b64_mult (b64_of_int (vw_total_qty v)) orig_frac) in
        if expected \<le> 0 then Inr v
        else if deviates (vw_total_filled v) expected then vwap_redistribute v
        else Inr v))"

definition vwap_slice :: "vwap \<Rightarrow> vwap_fault + Qty" where
  "vwap_slice v =
     (if vw_slice_index v = vw_slices v - 1 then Inr (i64 (vw_total_qty v - vw_dispatched_qty v))
      else rbind (arr_get (vw_slice_index v) (vw_target_qty v)) (\<lambda>q.
        let available = i64 (i64 (vw_total_qty v - vw_dispatched_qty v)
                             - (int (vw_slices v) - 1 - int (vw_slice_index v)))
        in Inr (guard_qty q available)))"

definition vwap_threshold :: "vwap \<Rightarrow> u64" where
  "vwap_threshold v = vw_start_ns v + of_nat (vw_slice_index v) * vw_interval_ns v"

definition vwap_tick :: "(Timestamp \<Rightarrow> OrderRequest \<Rightarrow> 'g \<Rightarrow> 'g) \<Rightarrow> u64 \<times> u64 \<times> u64 \<Rightarrow> vwap \<times> 'g
    \<Rightarrow> vwap_fault + (vwap \<times> 'g) \<times> bool" where
  "vwap_tick send clk vg = (case (clk, vg) of ((now, ts, gts), (v, g)) \<Rightarrow>
     if vw_slice_index v \<ge> vw_slices v then Inr ((v, g), False)
     else if now < vwap_threshold v then Inr ((v, g), False)
     else rbind (maybe_rebalance v) (\<lambda>v1. rbind (vwap_slice v1) (\<lambda>q.
       let (v2, g2) = (if q > 0
             then (v1\<lparr>vw_dispatched_qty := i64 (vw_dispatched_qty v1 + q)\<rparr>,
                   send gts (market_order (vw_instrument_id v1) (vw_side v1) q ts) g)
             else (v1, g))
       in Inr ((v2\<lparr>vw_slice_index := vw_slice_index v2 + 1\<rparr>, g2), True))))"

definition vwap_is_done :: "vwap \<Rightarrow> bool" where
  "vwap_is_done v \<longleftrightarrow> vw_slice_index v \<ge> vw_slices v"

text \<open>A run interleaves ticks and reported fills.\<close>

datatype vwap_event = Vw_tick u64 u64 u64 | Vw_fill Qty

fun vwap_run :: "(Timestamp \<Rightarrow> OrderRequest \<Rightarrow> 'g \<Rightarrow> 'g) \<Rightarrow> vwap_event list \<Rightarrow> vwap \<times> 'g
    \<Rightarrow> vwap_fault + vwap \<times> 'g" where
  "vwap_run send [] vg = Inr vg"
| "vwap_run send (Vw_tick now ts gts # es) vg =
     rbind (vwap_tick send (now, ts, gts) vg) (\<lambda>(vg', _). vwap_run send es vg')"
| "vwap_run send (Vw_fill q # es) vg = vwap_run send es (vwap_on_fill q (fst vg), snd vg)"

subsection \<open>No fault while the slices fit in the arrays\<close>

lemma for_each_inv:
  assumes "P s" and "\<And>i s. i \<in> set idx \<Longrightarrow> P s \<Longrightarrow> \<exists>s'. body i s = Inr s' \<and> P s'"
  shows "\<exists>s'. for_each idx body s = Inr s' \<and> P s'"
  using assms
proof (induction idx arbitrary: s)
  case (Cons i idx)
  from Cons.prems(2) [of i s] Cons.prems(1) obtain s1 where "body i s = Inr s1" "P s1" by auto
  moreover have "\<And>j u. j \<in> set idx \<Longrightarrow> P u \<Longrightarrow> \<exists>u'. body j u = Inr u' \<and> P u'"
    using Cons.prems(2) by simp
  ultimately show ?case using Cons.IH [of s1] by simp
qed simp

lemma for_each_append: "for_each (xs @ ys) body s = rbind (for_each xs body s) (for_each ys body)"
  by (induction xs arbitrary: s) (auto simp: rbind_def split: sum.splits)

lemma for_each_upt:
  assumes "P 0 s" and "\<And>i s. i < n \<Longrightarrow> P i s \<Longrightarrow> \<exists>s'. body i s = Inr s' \<and> P (Suc i) s'"
  shows "\<exists>s'. for_each [0..<n] body s = Inr s' \<and> P n s'"
  using assms(2)
proof (induction n)
  case 0
  show ?case using assms(1) by simp
next
  case (Suc n)
  then obtain s1 where s1: "for_each [0..<n] body s = Inr s1" "P n s1" by (meson less_Suc_eq)
  from Suc.prems [of n s1] s1 obtain s2 where "body n s1 = Inr s2" "P (Suc n) s2" by auto
  then show ?case using s1 by (simp add: for_each_append)
qed

definition vwap_ok :: "vwap \<Rightarrow> bool" where
  "vwap_ok v \<longleftrightarrow> vw_slices v \<le> VWAP_MAX_SLICES \<and> length (vw_profile v) = VWAP_MAX_SLICES
     \<and> length (vw_target_qty v) = VWAP_MAX_SLICES
     \<and> slices_ok (vw_total_qty v) (int (vw_slices v)) (int (vw_slice_index v)) (vw_dispatched_qty v)"

lemma sum_profile_ok: "b \<le> length ps \<Longrightarrow> \<exists>r. sum_profile ps a b = Inr r"
  using for_each_inv [where P = "\<lambda>_. True" and s = "Fin 0" and idx = "[a..<b]"
      and body = "\<lambda>i acc. rbind (arr_get i ps) (\<lambda>p. Inr (b64_add acc p))"]
  by (auto simp: sum_profile_def arr_get_def)

lemma vwap_redistribute_ok:
  assumes "vwap_ok v" and "vw_slice_index v < vw_slices v"
  shows "\<exists>ts. vwap_redistribute v = Inr (v\<lparr>vw_target_qty := ts\<rparr>) \<and> length ts = VWAP_MAX_SLICES"
proof -
  have len: "vw_slices v \<le> length (vw_profile v)" "length (vw_target_qty v) = VWAP_MAX_SLICES"
    "length (vw_profile v) = VWAP_MAX_SLICES" "vw_slices v \<le> VWAP_MAX_SLICES"
    using assms(1) by (auto simp: vwap_ok_def)
  obtain psum where ps: "sum_profile (vw_profile v) (vw_slice_index v) (vw_slices v) = Inr psum"
    using sum_profile_ok [OF len(1)] by blast
  let ?rem = "i64 (vw_total_qty v - vw_total_filled v)"
  have "\<exists>s. for_each [vw_slice_index v..<vw_slices v - 1] (rebalance_body (vw_profile v) ?rem psum)
      (vw_target_qty v, 0) = Inr s \<and> length (fst s) = VWAP_MAX_SLICES"
    by (rule for_each_inv) (use len in \<open>auto simp: rebalance_body_def arr_get_def arr_set_def Let_def\<close>)
  then obtain ts a where ts: "for_each [vw_slice_index v..<vw_slices v - 1]
      (rebalance_body (vw_profile v) ?rem psum) (vw_target_qty v, 0) = Inr (ts, a)" "length ts = VWAP_MAX_SLICES"
    by (metis prod.collapse)
  have "vw_slices v - 1 < length ts" using ts(2) len(4) assms(2) by simp
  moreover have "v\<lparr>vw_target_qty := vw_target_qty v\<rparr> = v" by simp
  ultimately show ?thesis
    using ps ts len(2) by (auto simp: vwap_redistribute_def Let_def arr_set_def intro: exI [of _ "vw_target_qty v"])
qed

lemma maybe_rebalance_ok:
  assumes "vwap_ok v" and "vw_slice_index v < vw_slices v"
  shows "\<exists>ts. maybe_rebalance v = Inr (v\<lparr>vw_target_qty := ts\<rparr>) \<and> length ts = VWAP_MAX_SLICES"
proof -
  have len: "vw_slice_index v \<le> length (vw_profile v)" "length (vw_target_qty v) = VWAP_MAX_SLICES"
    using assms by (auto simp: vwap_ok_def)
  obtain fr where fr: "sum_profile (vw_profile v) 0 (vw_slice_index v) = Inr fr"
    using sum_profile_ok [OF len(1)] by blast
  have same: "\<exists>ts. Inr v = Inr (v\<lparr>vw_target_qty := ts\<rparr>) \<and> length ts = VWAP_MAX_SLICES"
    by (intro exI [of _ "vw_target_qty v"]) (simp add: len)
  show ?thesis
    unfolding maybe_rebalance_def
    using fr same vwap_redistribute_ok [OF assms] by (simp add: Let_def)
qed

lemma vwap_slice_step:
  assumes "vwap_ok v" and "vw_slice_index v < vw_slices v"
  shows "\<exists>q. vwap_slice v = Inr q \<and> slices_ok (vw_total_qty v) (int (vw_slices v))
     (int (vw_slice_index v) + 1) (vw_dispatched_qty v + max 0 q)"
proof (cases "vw_slice_index v = vw_slices v - 1")
  case True
  then have k: "int (vw_slice_index v) = int (vw_slices v) - 1" using assms(2) by simp
  have s: "slices_ok (vw_total_qty v) (int (vw_slices v)) (int (vw_slices v) - 1) (vw_dispatched_qty v)"
    using assms(1) k by (simp add: vwap_ok_def)
  have "i64 (vw_total_qty v - vw_dispatched_qty v) = vw_total_qty v - vw_dispatched_qty v"
    by (rule slice_headroom(2) [OF s]) simp
  with slices_ok_last [OF s] True k show ?thesis by (simp add: vwap_slice_def)
next
  case False
  have "vw_slice_index v < length (vw_target_qty v)" using assms by (simp add: vwap_ok_def)
  then obtain q0 where q0: "arr_get (vw_slice_index v) (vw_target_qty v) = Inr q0" by (simp add: arr_get_def)
  have s: "slices_ok (vw_total_qty v) (int (vw_slices v)) (int (vw_slice_index v)) (vw_dispatched_qty v)"
    using assms(1) by (simp add: vwap_ok_def)
  let ?q = "guard_qty q0 (vw_total_qty v - vw_dispatched_qty v - (int (vw_slices v) - 1 - int (vw_slice_index v)))"
  have "vwap_slice v = Inr ?q"
    using False q0 slice_headroom(1) [OF s] assms(2) by (simp add: vwap_slice_def)
  moreover have "0 < ?q" by (simp add: guard_qty_def)
  moreover have "int (vw_slice_index v) < int (vw_slices v) - 1" using assms(2) False by linarith
  ultimately show ?thesis using slices_ok_next [OF s] by (simp add: max_def)
qed

context gateway begin

lemma vwap_tick_step:
  assumes "vwap_ok v"
  shows "\<exists>v' g' b reqs. vwap_tick send clk (v, g) = Inr ((v', g'), b) \<and> vwap_ok v'
    \<and> vw_total_qty v' = vw_total_qty v \<and> vw_slices v' = vw_slices v \<and> vw_side v' = vw_side v
    \<and> vw_instrument_id v' = vw_instrument_id v \<and> sent g' = sent g @ reqs
    \<and> (\<forall>r \<in> set reqs. slice_request (vw_instrument_id v) (vw_side v) r)
    \<and> (\<Sum>r\<leftarrow>reqs. req_qty r) = vw_dispatched_qty v' - vw_dispatched_qty v"
proof -
  obtain now ts gts where clk: "clk = (now, ts, gts)" by (cases clk)
  show ?thesis
  proof (cases "vw_slices v \<le> vw_slice_index v \<or> now < vwap_threshold v")
    case True
    then have "vwap_tick send clk (v, g) = Inr ((v, g), False)" by (auto simp: vwap_tick_def clk)
    then show ?thesis using assms by (intro exI [of _ v] exI [of _ g] exI [of _ False] exI [of _ "[]"]) simp
  next
    case False
    then have i: "vw_slice_index v < vw_slices v" by simp
    obtain ts' where mr: "maybe_rebalance v = Inr (v\<lparr>vw_target_qty := ts'\<rparr>)" "length ts' = VWAP_MAX_SLICES"
      using maybe_rebalance_ok [OF assms i] by blast
    let ?v1 = "v\<lparr>vw_target_qty := ts'\<rparr>"
    have ok1: "vwap_ok ?v1" "vw_slice_index ?v1 < vw_slices ?v1" using assms mr(2) i by (simp_all add: vwap_ok_def)
    obtain q where q: "vwap_slice ?v1 = Inr q" "slices_ok (vw_total_qty v) (int (vw_slices v))
        (int (vw_slice_index v) + 1) (vw_dispatched_qty v + max 0 q)"
      using vwap_slice_step [OF ok1] by auto
    let ?req = "market_order (vw_instrument_id v) (vw_side v) q ts"
    let ?v2 = "?v1\<lparr>vw_dispatched_qty := vw_dispatched_qty v + max 0 q, vw_slice_index := vw_slice_index v + 1\<rparr>"
    have w: "i64 (vw_dispatched_qty v + max 0 q) = vw_dispatched_qty v + max 0 q"
      using slices_ok_bounds [OF q(2)] by (intro i64_id) (auto simp: in_i64_def)
    have m: "max 0 q = (if 0 < q then q else 0)" by simp
    have e: "vwap_tick send clk (v, g) = Inr ((?v2, if 0 < q then send gts ?req g else g), True)"
      using False mr(1) q(1) w unfolding m by (cases "0 < q") (simp_all add: vwap_tick_def clk Let_def)
    have ok2: "vwap_ok ?v2" using assms mr(2) q(2) by (simp add: vwap_ok_def add.commute)
    show ?thesis
      by (intro exI [of _ ?v2] exI [of _ "if 0 < q then send gts ?req g else g"] exI [of _ True]
          exI [of _ "if 0 < q then [?req] else []"])
        (use e ok2 in \<open>simp add: sent_send slice_request_market\<close>)
  qed
qed

lemma vwap_run_steps:
  "vwap_ok v \<Longrightarrow> \<exists>v' g' reqs. vwap_run send es (v, g) = Inr (v', g') \<and> vwap_ok v'
    \<and> vw_total_qty v' = vw_total_qty v \<and> vw_slices v' = vw_slices v \<and> sent g' = sent g @ reqs
    \<and> (\<forall>r \<in> set reqs. slice_request (vw_instrument_id v) (vw_side v) r)
    \<and> (\<Sum>r\<leftarrow>reqs. req_qty r) = vw_dispatched_qty v' - vw_dispatched_qty v"
proof (induction es arbitrary: v g)
  case Nil
  then show ?case by (intro exI [of _ v] exI [of _ g] exI [of _ "[]"]) simp
next
  case (Cons e es)
  show ?case
  proof (cases e)
    case (Vw_tick now ts gts)
    from vwap_tick_step [OF Cons.prems, of "(now, ts, gts)" g] obtain v1 g1 b r1 where 1:
      "vwap_tick send (now, ts, gts) (v, g) = Inr ((v1, g1), b)" "vwap_ok v1"
      "vw_total_qty v1 = vw_total_qty v" "vw_slices v1 = vw_slices v" "vw_side v1 = vw_side v"
      "vw_instrument_id v1 = vw_instrument_id v" "sent g1 = sent g @ r1"
      "\<forall>r \<in> set r1. slice_request (vw_instrument_id v) (vw_side v) r"
      "(\<Sum>r\<leftarrow>r1. req_qty r) = vw_dispatched_qty v1 - vw_dispatched_qty v" by blast
    from Cons.IH [OF 1(2), of g1] obtain v2 g2 r2 where 2:
      "vwap_run send es (v1, g1) = Inr (v2, g2)" "vwap_ok v2" "vw_total_qty v2 = vw_total_qty v1"
      "vw_slices v2 = vw_slices v1" "sent g2 = sent g1 @ r2"
      "\<forall>r \<in> set r2. slice_request (vw_instrument_id v1) (vw_side v1) r"
      "(\<Sum>r\<leftarrow>r2. req_qty r) = vw_dispatched_qty v2 - vw_dispatched_qty v1" by blast
    show ?thesis
      using 1 2 by (intro exI [of _ v2] exI [of _ g2] exI [of _ "r1 @ r2"]) (auto simp: Vw_tick)
  next
    case (Vw_fill q)
    have "vwap_ok (vwap_on_fill q v)" using Cons.prems by (simp add: vwap_ok_def vwap_on_fill_def)
    from Cons.IH [OF this, of g] show ?thesis by (simp add: Vw_fill vwap_on_fill_def)
  qed
qed

end

subsection \<open>Construction\<close>

definition profile_fits :: "b64 list option \<Rightarrow> nat \<Rightarrow> bool" where
  "profile_fits profile n \<longleftrightarrow> (case profile of None \<Rightarrow> True | Some ps \<Rightarrow> n \<le> length ps)"

lemma profile_entry_ok: "profile_fits profile n \<Longrightarrow> i < n \<Longrightarrow> \<exists>p. profile_entry profile n i = Inr p"
  by (auto simp: profile_entry_def profile_fits_def arr_get_def split: option.splits)

lemma sum_list_update_i64:
  "i < length ts \<Longrightarrow> (\<Sum>j\<leftarrow>[0..<i]. ts[i := q] ! j) = (\<Sum>j\<leftarrow>[0..<i]. ts ! j)"
  by (intro arg_cong [of _ _ sum_list] map_cong) auto

lemma vwap_init_loop:
  assumes "profile_fits profile n" and "k < n" and "n \<le> VWAP_MAX_SLICES"
    and "length ps0 = VWAP_MAX_SLICES" and "length ts0 = VWAP_MAX_SLICES"
  shows "\<exists>ps ts a. for_each [0..<k] (vwap_init_body tot profile n) (ps0, ts0, 0) = Inr (ps, ts, a)
    \<and> length ps = VWAP_MAX_SLICES \<and> length ts = VWAP_MAX_SLICES \<and> a = i64 (\<Sum>j\<leftarrow>[0..<k]. ts ! j)"
proof -
  let ?P = "\<lambda>i (ps :: b64 list, ts :: int list, a). length ps = VWAP_MAX_SLICES \<and> length ts = VWAP_MAX_SLICES
    \<and> a = i64 (\<Sum>j\<leftarrow>[0..<i]. ts ! j)"
  have step: "\<exists>s'. vwap_init_body tot profile n i s = Inr s' \<and> ?P (Suc i) s'" if ik: "i < k" and P: "?P i s" for i s
  proof -
    obtain ps ts a where s: "s = (ps, ts, a)" by (cases s)
    obtain p where p: "profile_entry profile n i = Inr p"
      using profile_entry_ok [OF assms(1), of i] ik assms(2) by auto
    have i: "i < length ps" "i < length ts" using ik P assms(2,3) by (auto simp: s)
    with p P show ?thesis
      by (simp add: vwap_init_body_def s arr_set_def Let_def i64_simps sum_list_update_i64)
  qed
  have "\<exists>s'. for_each [0..<k] (vwap_init_body tot profile n) (ps0, ts0, 0) = Inr s' \<and> ?P k s'"
    by (rule for_each_upt [where P = ?P, OF _ step]) (use assms(4,5) in simp_all)
  then obtain s' where "for_each [0..<k] (vwap_init_body tot profile n) (ps0, ts0, 0) = Inr s'" "?P k s'"
    by blast
  then show ?thesis by (cases s') auto
qed

lemma vwap_new_ok:
  assumes "slices \<le> int VWAP_MAX_SLICES" and "profile_fits profile (nat (max 1 slices))"
    and "length ps0 = VWAP_MAX_SLICES" and "length ts0 = VWAP_MAX_SLICES"
    and "0 \<le> tot" and "tot < 2 ^ 62"
  shows "\<exists>v. vwap_new ps0 ts0 ident side tot profile slices dur = Inr v
    \<and> vw_total_qty v = tot \<and> vw_slices v = nat (max 1 slices) \<and> vw_side v = side
    \<and> vw_instrument_id v = ident \<and> vw_dispatched_qty v = 0
    \<and> i64 (\<Sum>j\<leftarrow>[0..<vw_slices v]. vw_target_qty v ! j) = tot
    \<and> vwap_ok (vwap_start now v)"
proof -
  define n where "n = nat (max 1 slices)"
  have n: "0 < n" "n \<le> VWAP_MAX_SLICES" using assms(1) by (auto simp: n_def VWAP_MAX_SLICES_def)
  have s: "(if slices > 0 then nat slices else 1) = n" by (auto simp: n_def max_def)
  have m: "(if n < VWAP_MAX_SLICES then n else VWAP_MAX_SLICES) = n" using n by simp
  have fits: "profile_fits profile n" using assms(2) by (simp add: n_def)
  obtain ps ts a where l: "for_each [0..<n - 1] (vwap_init_body tot profile n) (ps0, ts0, 0) = Inr (ps, ts, a)"
    "length ps = VWAP_MAX_SLICES" "length ts = VWAP_MAX_SLICES" "a = i64 (\<Sum>j\<leftarrow>[0..<n - 1]. ts ! j)"
    using vwap_init_loop [OF fits _ n(2) assms(3,4), where tot = tot and k = "n - 1"] n(1) by auto
  obtain p where p: "profile_entry profile n (n - 1) = Inr p"
    using profile_entry_ok [OF fits, of "n - 1"] n(1) by auto
  have lt: "n - 1 < VWAP_MAX_SLICES" using n by simp
  let ?ts = "ts[n - 1 := i64 (tot - a)]"
  have "[0..<n] = [0..<n - 1] @ [n - 1]" using n(1) by (metis Suc_pred' upt_Suc_append zero_le)
  then have "(\<Sum>j\<leftarrow>[0..<n]. ?ts ! j) = (\<Sum>j\<leftarrow>[0..<n - 1]. ts ! j) + i64 (tot - a)"
    using lt l(3) by (simp add: sum_list_update_i64)
  then have sum: "i64 (\<Sum>j\<leftarrow>[0..<n]. ?ts ! j) = tot"
    using assms(5,6) by (simp add: l(4) i64_simps) (simp add: i64_id in_i64_def)
  have "slices_ok tot (int n) 0 0" using n assms(5,6) by (auto simp: slices_ok_def VWAP_MAX_SLICES_def)
  then show ?thesis
    using l(1,2,3) p lt sum n(2) unfolding vwap_new_def s Let_def m n_def [symmetric]
    by (simp add: arr_set_def vwap_start_def vwap_ok_def)
qed

text \<open>
  Claim C24.  VWAP with at most 128 slices never indexes outside its arrays and plans target quantities
  that add up to the total; whatever the profile, the fills and the rebalancing they trigger, the orders
  sent are positive market orders of the right instrument and side, and once all slices are out they add
  up to exactly the total, provided the total is at least the number of slices less one.  With a smaller
  total each slice but the last still sends 1, so \<open>slices - 1\<close> is dispatched: the code then overshoots.
\<close>

theorem vwap_dispatches_total:
  assumes "slices \<le> int VWAP_MAX_SLICES" and "profile_fits profile (nat (max 1 slices))"
    and "length ps0 = VWAP_MAX_SLICES" and "length ts0 = VWAP_MAX_SLICES" and "0 \<le> tot" and "tot < 2 ^ 62"
  shows "\<exists>v v' g' reqs. vwap_new ps0 ts0 ident side tot profile slices dur = Inr v
    \<and> i64 (\<Sum>j\<leftarrow>[0..<vw_slices v]. vw_target_qty v ! j) = tot
    \<and> vwap_run sg_send_new_order es (vwap_start now v, g) = Inr (v', g')
    \<and> sg_submitted g' = sg_submitted g @ reqs
    \<and> (\<forall>r \<in> set reqs. 0 < req_qty r \<and> req_type r = MARKET \<and> req_instrument_id r = ident \<and> req_side r = side)
    \<and> (\<Sum>r\<leftarrow>reqs. req_qty r) \<le> max tot (slices - 1)
    \<and> (vwap_is_done v' \<longrightarrow> (\<Sum>r\<leftarrow>reqs. req_qty r) = max tot (slices - 1))"
proof -
  obtain v where v: "vwap_new ps0 ts0 ident side tot profile slices dur = Inr v" "vw_total_qty v = tot"
    "vw_slices v = nat (max 1 slices)" "vw_side v = side" "vw_instrument_id v = ident" "vw_dispatched_qty v = 0"
    "i64 (\<Sum>j\<leftarrow>[0..<vw_slices v]. vw_target_qty v ! j) = tot" "vwap_ok (vwap_start now v)"
    using vwap_new_ok [OF assms] by blast
  from sim.vwap_run_steps [OF v(8), of es g] obtain v' g' reqs where r:
    "vwap_run sg_send_new_order es (vwap_start now v, g) = Inr (v', g')" "vwap_ok v'"
    "vw_total_qty v' = tot" "vw_slices v' = nat (max 1 slices)" "sg_submitted g' = sg_submitted g @ reqs"
    "\<forall>r \<in> set reqs. slice_request ident side r" "(\<Sum>r\<leftarrow>reqs. req_qty r) = vw_dispatched_qty v'"
    by (auto simp: vwap_start_def v)
  have "int (vw_slices v') = max 1 slices" using r(4) by simp
  then have s: "slices_ok tot (max 1 slices) (int (vw_slice_index v')) (vw_dispatched_qty v')"
    using r(2,3) unfolding vwap_ok_def by metis
  have m: "max tot (max 1 slices - 1) = max tot (slices - 1)" using assms(5) by simp
  have "vw_dispatched_qty v' \<le> max tot (slices - 1)" using slices_ok_bounds [OF s] m by simp
  moreover have "vwap_is_done v' \<longrightarrow> vw_dispatched_qty v' = max tot (max 1 slices - 1)"
    using s r(4) by (auto simp: vwap_is_done_def slices_ok_def split: if_splits)
  ultimately show ?thesis
    using v(1,7) r(1,5,6,7) m unfolding slice_request_def
    by (intro exI [of _ v] exI [of _ v'] exI [of _ g'] exI [of _ reqs]) auto
qed

theorem vwap_dispatches_total_witness:
  "\<exists>v v' g'. vwap_new (replicate VWAP_MAX_SLICES NaN) (replicate VWAP_MAX_SLICES 0) 1 SELL 10 None 2 100 = Inr v
    \<and> vwap_run sg_send_new_order [Vw_tick 1 1 1, Vw_fill 3, Vw_tick 99 99 99]
        (vwap_start 0 v, sg_new (Fin 1) 1000 (\<lambda>_. Fin 0)) = Inr (v', g')
    \<and> i64 (\<Sum>j\<leftarrow>[0..<vw_slices v]. vw_target_qty v ! j) = 10 \<and> (\<Sum>r\<leftarrow>sg_submitted g'. req_qty r) \<le> 10"
  using vwap_dispatches_total [of 2 None "replicate VWAP_MAX_SLICES NaN" "replicate VWAP_MAX_SLICES 0" 10 1 SELL
      100 "[Vw_tick 1 1 1, Vw_fill 3, Vw_tick 99 99 99]" 0 "sg_new (Fin 1) 1000 (\<lambda>_. Fin 0)"]
  by (auto simp: VWAP_MAX_SLICES_def profile_fits_def sg_new_def)

lemma vwap_unfilled_run:
  "129 < vw_slices v \<Longrightarrow> length (vw_target_qty v) = VWAP_MAX_SLICES \<Longrightarrow> vw_total_filled v = 0 \<Longrightarrow>
   vw_slice_index v + k = VWAP_MAX_SLICES \<Longrightarrow>
   vwap_run send (replicate (Suc k) (Vw_tick (-1) ts gts)) (v, g) = Inl Index_out_of_bounds"
proof (induction k arbitrary: v g)
  case 0
  then have "vw_slices v - Suc 0 \<noteq> 128" by linarith
  with 0 show ?case
    by (simp add: vwap_tick_def maybe_rebalance_def vwap_slice_def arr_get_def VWAP_MAX_SLICES_def not_less)
next
  case (Suc k)
  have i: "vw_slice_index v < vw_slices v" "vw_slice_index v \<noteq> vw_slices v - 1"
    "vw_slice_index v < VWAP_MAX_SLICES" using Suc.prems by (auto simp: VWAP_MAX_SLICES_def)
  define q where "q = guard_qty (vw_target_qty v ! vw_slice_index v)
    (i64 (i64 (vw_total_qty v - vw_dispatched_qty v) - (int (vw_slices v) - 1 - int (vw_slice_index v))))"
  have q: "0 < q" by (simp add: q_def guard_qty_def)
  have s: "vwap_slice v = Inr q"
    using i Suc.prems(2) unfolding vwap_slice_def q_def by (simp add: arr_get_def Let_def)
  have r: "maybe_rebalance v = Inr v" using Suc.prems(3) by (simp add: maybe_rebalance_def)
  let ?v1 = "v\<lparr>vw_dispatched_qty := i64 (vw_dispatched_qty v + q), vw_slice_index := vw_slice_index v + 1\<rparr>"
  let ?g1 = "send gts (market_order (vw_instrument_id v) (vw_side v) q ts) g"
  have "vwap_tick send (-1, ts, gts) (v, g) = Inr ((?v1, ?g1), True)"
    using i(1) q by (simp add: vwap_tick_def r s not_less)
  moreover have "vwap_run send (replicate (Suc k) (Vw_tick (-1) ts gts)) (?v1, ?g1) = Inl Index_out_of_bounds"
    using Suc.prems by (intro Suc.IH) simp_all
  ultimately show ?case by simp
qed

text \<open>
  The slice count is not clamped to the arrays: with more than 129 slices the
  constructor succeeds, and the tick that reaches slice 128 reads past the end of an array.
\<close>

theorem vwap_overruns_arrays:
  assumes "129 < slices" and "profile_fits profile VWAP_MAX_SLICES"
    and "length ps0 = VWAP_MAX_SLICES" and "length ts0 = VWAP_MAX_SLICES"
  shows "\<exists>v. vwap_new ps0 ts0 ident side tot profile slices dur = Inr v
    \<and> vwap_run sg_send_new_order (replicate 129 (Vw_tick (-1) ts gts)) (vwap_start now v, g)
        = Inl Index_out_of_bounds"
proof -
  let ?n = VWAP_MAX_SLICES
  have n: "(if nat slices < ?n then nat slices else ?n) = ?n" "0 < slices"
    using assms(1) by (auto simp: VWAP_MAX_SLICES_def)
  obtain ps ts' a where l: "for_each [0..<?n - 1] (vwap_init_body tot profile ?n) (ps0, ts0, 0) = Inr (ps, ts', a)"
    "length ps = ?n" "length ts' = ?n"
    using vwap_init_loop [OF assms(2) _ order_refl assms(3,4), where tot = tot and k = "?n - 1"]
    by (auto simp: VWAP_MAX_SLICES_def)
  obtain p where p: "profile_entry profile ?n (?n - 1) = Inr p"
    using profile_entry_ok [OF assms(2), of "?n - 1"] by (auto simp: VWAP_MAX_SLICES_def)
  have lt: "?n - 1 < ?n" by (simp add: VWAP_MAX_SLICES_def)
  obtain v where v: "vwap_new ps0 ts0 ident side tot profile slices dur = Inr v" "vw_slices v = nat slices"
    "length (vw_target_qty v) = ?n"
    using l p lt n by (simp add: vwap_new_def arr_set_def Let_def)
  have "vwap_run sg_send_new_order (replicate (Suc ?n) (Vw_tick (-1) ts gts)) (vwap_start now v, g)
      = Inl Index_out_of_bounds"
    by (rule vwap_unfilled_run) (use v assms(1) in \<open>simp_all add: vwap_start_def\<close>)
  moreover have "Suc ?n = 129" by (simp add: VWAP_MAX_SLICES_def)
  ultimately show ?thesis using v(1) by metis
qed

theorem vwap_overruns_arrays_witness:
  "\<exists>v. vwap_new (replicate VWAP_MAX_SLICES NaN) (replicate VWAP_MAX_SLICES 0) 1 SELL 1000 None 200 100 = Inr v
    \<and> vwap_run sg_send_new_order (replicate 129 (Vw_tick (-1) 0 0))
        (vwap_start 0 v, sg_new (Fin 1) 1000 (\<lambda>_. Fin 0)) = Inl Index_out_of_bounds"
  by (rule vwap_overruns_arrays) (simp_all add: profile_fits_def)

end
