(* ===== verification/Routing.thy ===== *)
theory Routing
  imports Twap
begin

text \<open>
  \<^verbatim>\<open>src/execution/pov.cpp\<close> (participation of volume), \<^verbatim>\<open>src/execution/smart_router.cpp\<close> (gateway
  selection) and \<^verbatim>\<open>src/execution/execution_engine.cpp\<close>.  A vector of \<open>IGateway*\<close> is a list of
  optional gateways; routing updates the selected element.
\<close>

subsection \<open>Pov\<close>

record pov =
  pv_instrument_id :: InstrumentId
  pv_side :: Side
  pv_total_qty :: Qty
  pv_participation_rate :: b64
  pv_market_volume :: Qty
  pv_sent_qty :: Qty
  pv_ordered_qty :: Qty

definition pov_new :: "InstrumentId \<Rightarrow> Side \<Rightarrow> Qty \<Rightarrow> b64 \<Rightarrow> pov" where
  "pov_new ident side tot rate = \<lparr>pv_instrument_id = ident, pv_side = side, pv_total_qty = tot,
     pv_participation_rate = rate, pv_market_volume = 0, pv_sent_qty = 0, pv_ordered_qty = 0\<rparr>"

definition POV_MIN_ORDER_SIZE :: Qty where "POV_MIN_ORDER_SIZE = 1"

definition pov_target :: "Qty \<Rightarrow> b64 \<Rightarrow> Qty" where
  "pov_target volume rate = b64_to_i64 (b64_mult (b64_of_int volume) rate)"

definition pov_on_market_trade :: "(Timestamp \<Rightarrow> OrderRequest \<Rightarrow> 'g \<Rightarrow> 'g) \<Rightarrow> Timestamp \<Rightarrow> Qty
    \<Rightarrow> pov \<times> 'g \<Rightarrow> pov \<times> 'g" where
  "pov_on_market_trade send gts trade_qty pg = (case pg of (p, g) \<Rightarrow>
     let p1 = p\<lparr>pv_market_volume := i64 (pv_market_volume p + trade_qty)\<rparr>;
         gap = i64 (pov_target (pv_market_volume p1) (pv_participation_rate p1) - pv_ordered_qty p1) in
     if gap \<le> POV_MIN_ORDER_SIZE then (p1, g)
     else let order_qty = min gap (i64 (pv_total_qty p1 - pv_ordered_qty p1)) in
       if order_qty \<le> 0 then (p1, g)
       else (p1\<lparr>pv_ordered_qty := i64 (pv_ordered_qty p1 + order_qty)\<rparr>,
             send gts (market_order (pv_instrument_id p1) (pv_side p1) order_qty 0) g))"

definition pov_on_fill :: "Qty \<Rightarrow> pov \<Rightarrow> pov" where
  "pov_on_fill q p = p\<lparr>pv_sent_qty := i64 (pv_sent_qty p + q)\<rparr>"

definition pov_is_done :: "pov \<Rightarrow> bool" where
  "pov_is_done p \<longleftrightarrow> pv_sent_qty p \<ge> pv_total_qty p"

definition pov_run :: "(Timestamp \<Rightarrow> OrderRequest \<Rightarrow> 'g \<Rightarrow> 'g) \<Rightarrow> (Timestamp \<times> Qty) list
    \<Rightarrow> pov \<times> 'g \<Rightarrow> pov \<times> 'g" where
  "pov_run send trades pg = fold (\<lambda>(gts, q). pov_on_market_trade send gts q) trades pg"

text \<open>Between trades: what is ordered is within the total and the participation target.\<close>

definition pov_ok :: "rat \<Rightarrow> pov \<Rightarrow> bool" where
  "pov_ok r p \<longleftrightarrow> pv_participation_rate p = Fin r \<and> 0 \<le> r \<and> r \<le> 1
     \<and> 0 \<le> pv_market_volume p \<and> pv_market_volume p \<le> 2 ^ 53
     \<and> 0 \<le> pv_total_qty p \<and> pv_total_qty p < 2 ^ 62
     \<and> 0 \<le> pv_ordered_qty p \<and> pv_ordered_qty p \<le> pv_total_qty p
     \<and> pv_ordered_qty p \<le> pov_target (pv_market_volume p) (Fin r)"

lemma in_i64_small: "0 \<le> x \<Longrightarrow> x < 2 ^ 62 \<Longrightarrow> in_i64 x"
  by (simp add: in_i64_def)

context gateway begin

lemma pov_trade_step:
  assumes "pov_ok r p" and "0 \<le> q" and "pv_market_volume p + q \<le> 2 ^ 53"
    and "pov_on_market_trade send gts q (p, g) = (p', g')"
  shows "pov_ok r p' \<and> pv_market_volume p' = pv_market_volume p + q \<and> pv_total_qty p' = pv_total_qty p
    \<and> pv_instrument_id p' = pv_instrument_id p \<and> pv_side p' = pv_side p
    \<and> (\<exists>reqs. sent g' = sent g @ reqs
        \<and> (\<forall>x \<in> set reqs. slice_request (pv_instrument_id p) (pv_side p) x)
        \<and> (\<Sum>x\<leftarrow>reqs. req_qty x) = pv_ordered_qty p' - pv_ordered_qty p)"
proof -
  let ?v = "pv_market_volume p + q" and ?o = "pv_ordered_qty p" and ?t = "pv_total_qty p"
  let ?target = "pov_target ?v (Fin r)"
  have ok: "pv_participation_rate p = Fin r" "0 \<le> r" "r \<le> 1" "0 \<le> pv_market_volume p" "0 \<le> ?o" "?o \<le> ?t"
    "?t < 2 ^ 62" "?o \<le> pov_target (pv_market_volume p) (Fin r)" using assms(1) by (auto simp: pov_ok_def)
  have v: "i64 ?v = ?v" using assms(2,3) ok(4) by (intro i64_id) (simp add: in_i64_def)
  have t: "0 \<le> ?target" "?target \<le> ?v"
    using b64_scale_bounds [of ?v r] assms(2,3) ok by (simp_all add: pov_target_def)
  have m: "?o \<le> ?target"
    using b64_scale_mono [of "pv_market_volume p" ?v r] assms(2,3) ok by (simp add: pov_target_def)
  have gap: "i64 (?target - ?o) = ?target - ?o"
    using t m ok(5) assms(3) by (intro i64_id) (simp add: in_i64_def)
  have room: "i64 (?t - ?o) = ?t - ?o" using ok by (intro i64_id) (simp add: in_i64_def)
  let ?q = "min (?target - ?o) (?t - ?o)"
  have "0 \<le> ?q" "?q \<le> ?t - ?o" using ok(6) m by simp_all
  then have sum: "i64 (?o + ?q) = ?o + ?q" using ok(5,7) by (intro i64_id in_i64_small) linarith+
  let ?p1 = "p\<lparr>pv_market_volume := ?v\<rparr>"
  have ok1: "pov_ok r ?p1" using assms(1,2,3) m by (simp add: pov_ok_def)
  define oq where "oq = ?q"
  have eq: "pov_on_market_trade send gts q (p, g) =
      (if ?target - ?o \<le> 1 then (?p1, g) else if oq \<le> 0 then (?p1, g)
       else (?p1\<lparr>pv_ordered_qty := i64 (?o + oq)\<rparr>, send gts (market_order (pv_instrument_id p) (pv_side p) oq 0) g))"
    unfolding oq_def
    by (simp add: pov_on_market_trade_def Let_def POV_MIN_ORDER_SIZE_def v gap room ok(1) cong: if_cong)
  show ?thesis
  proof (cases "?target - ?o \<le> 1 \<or> oq \<le> 0")
    case True
    then have "p' = ?p1" "g' = g" using assms(4) eq by (auto split: if_splits)
    with ok1 show ?thesis by (intro conjI exI [of _ "[]"]) auto
  next
    case False
    then have e: "p' = ?p1\<lparr>pv_ordered_qty := ?o + oq\<rparr>"
      "g' = send gts (market_order (pv_instrument_id p) (pv_side p) oq 0) g"
      using assms(4) eq sum by (simp_all add: oq_def)
    have q: "oq \<le> ?t - ?o" "oq \<le> ?target - ?o" by (simp_all add: oq_def)
    have "pov_ok r p'" using ok1 False q ok(5) by (simp add: e pov_ok_def)
    moreover have "slice_request (pv_instrument_id p) (pv_side p) (market_order (pv_instrument_id p) (pv_side p) oq 0)"
      using False by (intro slice_request_market) simp
    ultimately show ?thesis
      by (intro conjI exI [of _ "[market_order (pv_instrument_id p) (pv_side p) oq 0]"])
        (simp_all add: e sent_send)
  qed
qed

lemma pov_run_steps:
  "pov_ok r p \<Longrightarrow> \<forall>(ts, q) \<in> set trades. 0 \<le> q \<Longrightarrow>
   pv_market_volume p + (\<Sum>(ts, q)\<leftarrow>trades. q) \<le> 2 ^ 53 \<Longrightarrow> pov_run send trades (p, g) = (p', g') \<Longrightarrow>
   pov_ok r p' \<and> pv_market_volume p' = pv_market_volume p + (\<Sum>(ts, q)\<leftarrow>trades. q)
   \<and> pv_total_qty p' = pv_total_qty p
   \<and> (\<exists>reqs. sent g' = sent g @ reqs
        \<and> (\<forall>x \<in> set reqs. slice_request (pv_instrument_id p) (pv_side p) x)
        \<and> (\<Sum>x\<leftarrow>reqs. req_qty x) = pv_ordered_qty p' - pv_ordered_qty p)"
proof (induction trades arbitrary: p g)
  case Nil
  then show ?case by (simp add: pov_run_def)
next
  case (Cons tr trades)
  obtain gts q where tr: "tr = (gts, q)" by force
  obtain p1 g1 where 1: "pov_on_market_trade send gts q (p, g) = (p1, g1)" by force
  then have 2: "pov_run send trades (p1, g1) = (p', g')" using Cons.prems(4) by (simp add: pov_run_def tr)
  have q: "0 \<le> q" "\<forall>(ts, q) \<in> set trades. 0 \<le> q" using Cons.prems(2) by (auto simp: tr)
  then have s: "0 \<le> (\<Sum>(ts, q)\<leftarrow>trades. q)" by (intro sum_list_nonneg) auto
  have "pv_market_volume p + q \<le> 2 ^ 53" using Cons.prems(3) s by (simp add: tr)
  from pov_trade_step [OF Cons.prems(1) q(1) this 1] obtain r1 where r1: "pov_ok r p1"
    "pv_market_volume p1 = pv_market_volume p + q" "pv_total_qty p1 = pv_total_qty p"
    "pv_instrument_id p1 = pv_instrument_id p" "pv_side p1 = pv_side p" "sent g1 = sent g @ r1"
    "\<forall>x \<in> set r1. slice_request (pv_instrument_id p) (pv_side p) x"
    "(\<Sum>x\<leftarrow>r1. req_qty x) = pv_ordered_qty p1 - pv_ordered_qty p" by blast
  have "pv_market_volume p1 + (\<Sum>(ts, q)\<leftarrow>trades. q) \<le> 2 ^ 53" using Cons.prems(3) r1(2) by (simp add: tr)
  from Cons.IH [OF r1(1) q(2) this 2] obtain r2 where r2: "pov_ok r p'"
    "pv_market_volume p' = pv_market_volume p1 + (\<Sum>(ts, q)\<leftarrow>trades. q)" "pv_total_qty p' = pv_total_qty p1"
    "sent g' = sent g1 @ r2" "\<forall>x \<in> set r2. slice_request (pv_instrument_id p1) (pv_side p1) x"
    "(\<Sum>x\<leftarrow>r2. req_qty x) = pv_ordered_qty p' - pv_ordered_qty p1" by blast
  show ?case using r1 r2 by (intro conjI exI [of _ "r1 @ r2"]) (auto simp: tr)
qed

end

text \<open>
  Claim C25.  POV respects both of its limits: after any non-negative trades (up to \<open>2 ^ 53\<close>
  lots) the orders it sent add up to \<open>ordered_qty_\<close>, which never exceeds the total nor the
  participation rate times the market volume, rounded as the code rounds it.
\<close>

theorem pov_respects_limits:
  assumes "0 \<le> r" and "r \<le> 1" and "0 \<le> tot" and "tot < 2 ^ 62"
    and "\<forall>(ts, q) \<in> set trades. 0 \<le> q" and "(\<Sum>(ts, q)\<leftarrow>trades. q) \<le> 2 ^ 53"
    and "pov_run sg_send_new_order trades (pov_new ident side tot (Fin r), g) = (p', g')"
  shows "\<exists>reqs. sg_submitted g' = sg_submitted g @ reqs
    \<and> (\<forall>x \<in> set reqs. 0 < req_qty x \<and> req_type x = MARKET \<and> req_instrument_id x = ident \<and> req_side x = side)
    \<and> (\<Sum>x\<leftarrow>reqs. req_qty x) = pv_ordered_qty p'
    \<and> pv_ordered_qty p' \<le> tot
    \<and> pv_ordered_qty p' \<le> pov_target (\<Sum>(ts, q)\<leftarrow>trades. q) (Fin r)"
proof -
  let ?p = "pov_new ident side tot (Fin r)"
  have "0 \<le> pov_target 0 (Fin r)" using b64_scale_bounds(1) [of 0 r] assms(1,2) by (simp add: pov_target_def)
  then have ok: "pov_ok r ?p" using assms(1-4) by (simp add: pov_ok_def pov_new_def)
  have "pv_market_volume ?p + (\<Sum>(ts, q)\<leftarrow>trades. q) \<le> 2 ^ 53" using assms(6) by (simp add: pov_new_def)
  from sim.pov_run_steps [OF ok assms(5) this assms(7)] show ?thesis
    by (auto simp: pov_ok_def pov_new_def slice_request_def)
qed

theorem pov_respects_limits_witness:
  "\<exists>p' g'. pov_run sg_send_new_order [(1, 100), (2, 300)]
      (pov_new 1 BUY 50 (Fin (1 / 4)), sg_new (Fin 1) 1000 (\<lambda>_. Fin 0)) = (p', g')
    \<and> pv_ordered_qty p' \<le> 50"
proof -
  obtain p' g' where r: "pov_run sg_send_new_order [(1, 100), (2, 300)]
      (pov_new 1 BUY 50 (Fin (1 / 4)), sg_new (Fin 1) 1000 (\<lambda>_. Fin 0)) = (p', g')" by force
  from pov_respects_limits [OF _ _ _ _ _ _ r] have "pv_ordered_qty p' \<le> 50" by auto
  with r show ?thesis by blast
qed

subsection \<open>SmartRouter\<close>

record 'g smart_router =
  sr_gateways :: "'g option list"
  sr_depth_proxy :: "int list"
  sr_dropped :: u64

definition router_new :: "'g option list \<Rightarrow> 'g smart_router" where
  "router_new gws = \<lparr>sr_gateways = gws, sr_depth_proxy = replicate (length gws) 1, sr_dropped = 0\<rparr>"

definition router_update_depth :: "nat \<Rightarrow> int \<Rightarrow> 'g smart_router \<Rightarrow> 'g smart_router" where
  "router_update_depth i depth s =
     (if i < length (sr_depth_proxy s)
      then s\<lparr>sr_depth_proxy := (sr_depth_proxy s)[i := if depth > 0 then depth else 1]\<rparr> else s)"

definition route_score :: "int \<Rightarrow> u64 \<Rightarrow> b64" where
  "route_score depth r = b64_div (b64_of_int depth)
     (if r > 0 then b64_of_int (uint r) else Fin 1)"

definition select_step :: "('g \<Rightarrow> bool) \<Rightarrow> ('g \<Rightarrow> u64) \<Rightarrow> 'g smart_router \<Rightarrow> nat
    \<Rightarrow> nat option \<times> b64 \<Rightarrow> nat option \<times> b64" where
  "select_step conn rtt s i = (\<lambda>(best, best_score).
     case sr_gateways s ! i of
       None \<Rightarrow> (best, best_score)
     | Some gw \<Rightarrow>
         if \<not> conn gw then (best, best_score)
         else let score = route_score (sr_depth_proxy s ! i) (rtt gw)
              in if b64_less best_score score then (Some i, score) else (best, best_score))"

definition router_select :: "('g \<Rightarrow> bool) \<Rightarrow> ('g \<Rightarrow> u64) \<Rightarrow> 'g smart_router \<Rightarrow> nat option" where
  "router_select conn rtt s =
     fst (fold (select_step conn rtt s) [0..<length (sr_gateways s)] (None, Fin (-1)))"

definition router_send :: "(Timestamp \<Rightarrow> OrderRequest \<Rightarrow> 'g \<Rightarrow> 'g) \<Rightarrow> ('g \<Rightarrow> bool) \<Rightarrow> ('g \<Rightarrow> u64)
    \<Rightarrow> Timestamp \<Rightarrow> OrderRequest \<Rightarrow> 'g smart_router \<Rightarrow> 'g smart_router" where
  "router_send send conn rtt gts req s = (case router_select conn rtt s of
       Some i \<Rightarrow> s\<lparr>sr_gateways := (sr_gateways s)[i := map_option (send gts req) (sr_gateways s ! i)]\<rparr>
     | None \<Rightarrow> s\<lparr>sr_dropped := sr_dropped s + 1\<rparr>)"

text \<open>\<open>ExecutionEngine::submit\<close> hands the request to its router.\<close>

definition engine_submit :: "(Timestamp \<Rightarrow> OrderRequest \<Rightarrow> 'g \<Rightarrow> 'g) \<Rightarrow> ('g \<Rightarrow> bool) \<Rightarrow> ('g \<Rightarrow> u64)
    \<Rightarrow> Timestamp \<Rightarrow> OrderRequest \<Rightarrow> 'g smart_router \<Rightarrow> 'g smart_router" where
  "engine_submit send conn rtt gts req s = router_send send conn rtt gts req s"

definition router_wf :: "'g smart_router \<Rightarrow> bool" where
  "router_wf s \<longleftrightarrow> length (sr_depth_proxy s) = length (sr_gateways s)
     \<and> (\<forall>d \<in> set (sr_depth_proxy s). 1 \<le> d \<and> d < 2 ^ 63)"

lemma router_new_wf: "router_wf (router_new gws)"
  by (simp add: router_wf_def router_new_def)

lemma router_update_depth_wf: "router_wf s \<Longrightarrow> in_i64 d \<Longrightarrow> router_wf (router_update_depth i d s)"
  by (auto simp: router_wf_def router_update_depth_def in_i64_def dest!: set_update_subset_insert [THEN subsetD])

lemma pow64_below: "(2 ^ 64 :: rat) < 2 ^ 1024"
  by (rule power_strict_increasing) simp_all

lemma b64_of_int_finite:
  assumes "1 \<le> n" and "n \<le> 2 ^ 64"
  shows "\<exists>x. b64_of_int n = Fin x \<and> 1 \<le> x \<and> x \<le> 2 ^ 64"
proof -
  have r: "representable 1" "representable (2 ^ 64)"
    using representable_pow [of 0] representable_pow [of 64] by simp_all
  have n: "1 \<le> (of_int n :: rat)" "(of_int n :: rat) \<le> 2 ^ 64"
    using assms(1) of_int_le_iff [of n "2 ^ 64", where 'a = rat] assms(2) by simp_all
  have "- (2 ^ 1024) < (1 :: rat)" by (rule less_trans [of _ 0]) simp_all
  from b64_round_bounded [OF r n this pow64_below] show ?thesis by (simp add: b64_of_int_def)
qed

lemma route_score_finite:
  assumes "1 \<le> d" and "d < 2 ^ 63"
  shows "\<exists>x. route_score d r = Fin x \<and> 0 \<le> x"
proof -
  obtain x where x: "b64_of_int d = Fin x" "1 \<le> x" "x \<le> 2 ^ 64"
    using b64_of_int_finite [of d] assms by auto
  have u: "uint r < 2 ^ 64" using unsigned_less [of r] by simp
  obtain y where y: "(if r > 0 then b64_of_int (uint r) else Fin 1) = Fin y" "1 \<le> y"
  proof (cases "r > 0")
    case True
    then have "1 \<le> uint r" by (simp add: word_less_def)
    with b64_of_int_finite [of "uint r"] u True show ?thesis by (auto intro: that)
  qed (auto intro: that)
  have d: "0 \<le> x / y" "x / y \<le> 2 ^ 64"
    using x y divide_left_mono [of 1 y x] by (auto simp: order_trans)
  have r: "representable 0" "representable (2 ^ 64)"
    using representable_of_int [of 0] representable_pow [of 64] by simp_all
  from b64_round_bounded [OF r d _ pow64_below] x y show ?thesis by (simp add: route_score_def)
qed

text \<open>The loop invariant: the best so far is the first connected gateway with the highest score.\<close>

definition candidate :: "('g \<Rightarrow> bool) \<Rightarrow> ('g \<Rightarrow> u64) \<Rightarrow> 'g smart_router \<Rightarrow> nat \<Rightarrow> b64 option" where
  "candidate conn rtt s i = (case sr_gateways s ! i of None \<Rightarrow> None
     | Some gw \<Rightarrow> if conn gw then Some (route_score (sr_depth_proxy s ! i) (rtt gw)) else None)"

definition best_upto :: "('g \<Rightarrow> bool) \<Rightarrow> ('g \<Rightarrow> u64) \<Rightarrow> 'g smart_router \<Rightarrow> nat \<Rightarrow> nat option \<times> b64 \<Rightarrow> bool" where
  "best_upto conn rtt s n r = (case fst r of
     None \<Rightarrow> snd r = Fin (-1) \<and> (\<forall>j < n. candidate conn rtt s j = None)
   | Some i \<Rightarrow> i < n \<and> candidate conn rtt s i = Some (snd r) \<and> (\<exists>x. snd r = Fin x)
       \<and> (\<forall>j < n. \<forall>c. candidate conn rtt s j = Some c \<longrightarrow>
             \<not> b64_less (snd r) c \<and> (j < i \<longrightarrow> b64_less c (snd r))))"

lemma candidate_finite:
  "router_wf s \<Longrightarrow> i < length (sr_gateways s) \<Longrightarrow> candidate conn rtt s i = Some c \<Longrightarrow>
   \<exists>x. c = Fin x \<and> 0 \<le> x"
  using route_score_finite [of "sr_depth_proxy s ! i"]
  by (auto simp: candidate_def router_wf_def split: option.splits if_splits)

lemma select_step_best:
  assumes "router_wf s" and "n < length (sr_gateways s)" and "best_upto conn rtt s n r"
  shows "best_upto conn rtt s (Suc n) (select_step conn rtt s n r)"
proof -
  obtain best sc where r: "r = (best, sc)" by force
  have step: "select_step conn rtt s n r = (case candidate conn rtt s n of None \<Rightarrow> r
      | Some c \<Rightarrow> if b64_less sc c then (Some n, c) else r)"
    by (simp add: select_step_def candidate_def r Let_def split: option.split)
  show ?thesis
  proof (cases "candidate conn rtt s n")
    case None
    then show ?thesis
      using assms(3) by (auto simp: step best_upto_def less_Suc_eq split: option.splits)
  next
    case (Some c)
    obtain x where x: "c = Fin x" "0 \<le> x" using candidate_finite [OF assms(1,2) Some] by auto
    have fin: "\<exists>y. d = Fin y" if "j < n" "candidate conn rtt s j = Some d" for j d
      using candidate_finite [OF assms(1) _ that(2)] that(1) assms(2) by auto
    show ?thesis
    proof (cases best)
      case None
      then have "sc = Fin (-1)" "\<forall>j < n. candidate conn rtt s j = None"
        using assms(3) by (simp_all add: best_upto_def r)
      then show ?thesis using Some x by (auto simp: step best_upto_def less_Suc_eq)
    next
      case (Some i)
      then have h: "i < n" "candidate conn rtt s i = Some sc" "\<exists>y. sc = Fin y"
        "\<forall>j < n. \<forall>d. candidate conn rtt s j = Some d \<longrightarrow> \<not> b64_less sc d \<and> (j < i \<longrightarrow> b64_less d sc)"
        using assms(3) by (simp_all add: best_upto_def r)
      then obtain y where y: "sc = Fin y" by auto
      show ?thesis
      proof (cases "y < x")
        case True
        have "\<not> b64_less c d \<and> b64_less d c" if "j < n" "candidate conn rtt s j = Some d" for j d
          using fin [OF that] h(4) that True x(1) y by fastforce
        with True show ?thesis
          using \<open>candidate conn rtt s n = Some c\<close> x y
          by (auto simp: step best_upto_def less_Suc_eq)
      next
        case False
        then have "select_step conn rtt s n r = r"
          using step \<open>candidate conn rtt s n = Some c\<close> x y by simp
        then show ?thesis
          using \<open>candidate conn rtt s n = Some c\<close> x y h \<open>best = Some i\<close> False
          by (auto simp: best_upto_def less_Suc_eq r)
      qed
    qed
  qed
qed

lemma select_fold_best:
  "router_wf s \<Longrightarrow> n \<le> length (sr_gateways s) \<Longrightarrow>
   best_upto conn rtt s n (fold (select_step conn rtt s) [0..<n] (None, Fin (-1)))"
proof (induction n)
  case 0
  show ?case by (simp add: best_upto_def)
next
  case (Suc n)
  then show ?case using select_step_best [of s n] by simp
qed

text \<open>
  Claim C26.  Routing: a request is dropped only when no gateway of the pool is connected;
  otherwise it goes to a connected one whose score (depth over round-trip time, in \<open>double\<close>) is
  maximal, the first such in pool order, and no other gateway is touched.
\<close>

theorem router_picks_best:
  assumes "router_wf s"
  shows "case router_select sg_is_connected sg_get_rtt_ns s of
      None \<Rightarrow> (\<forall>g \<in> set (sr_gateways s). \<forall>gw. g = Some gw \<longrightarrow> \<not> sg_is_connected gw)
        \<and> router_send sg_send_new_order sg_is_connected sg_get_rtt_ns now req s = s\<lparr>sr_dropped := sr_dropped s + 1\<rparr>
    | Some i \<Rightarrow> (\<exists>gw. i < length (sr_gateways s) \<and> sr_gateways s ! i = Some gw \<and> sg_is_connected gw
        \<and> router_send sg_send_new_order sg_is_connected sg_get_rtt_ns now req s
            = s\<lparr>sr_gateways := (sr_gateways s)[i := Some (sg_send_new_order now req gw)]\<rparr>
        \<and> (\<forall>j gj. j < length (sr_gateways s) \<and> sr_gateways s ! j = Some gj \<and> sg_is_connected gj \<longrightarrow>
             \<not> b64_less (route_score (sr_depth_proxy s ! i) (sg_get_rtt_ns gw))
                        (route_score (sr_depth_proxy s ! j) (sg_get_rtt_ns gj))
             \<and> (j < i \<longrightarrow> b64_less (route_score (sr_depth_proxy s ! j) (sg_get_rtt_ns gj))
                                    (route_score (sr_depth_proxy s ! i) (sg_get_rtt_ns gw)))))"
proof -
  let ?n = "length (sr_gateways s)" and ?c = "candidate sg_is_connected sg_get_rtt_ns s"
  obtain best sc where f: "fold (select_step sg_is_connected sg_get_rtt_ns s) [0..<?n] (None, Fin (-1)) = (best, sc)"
    by force
  have b: "best_upto sg_is_connected sg_get_rtt_ns s ?n (best, sc)"
    using select_fold_best [OF assms order_refl, of sg_is_connected sg_get_rtt_ns] by (simp add: f)
  have sel: "router_select sg_is_connected sg_get_rtt_ns s = best" by (simp add: router_select_def f)
  show ?thesis
  proof (cases best)
    case None
    then have "\<forall>j < ?n. ?c j = None" using b by (simp add: best_upto_def)
    then have "\<forall>g \<in> set (sr_gateways s). \<forall>gw. g = Some gw \<longrightarrow> \<not> sg_is_connected gw"
      by (auto simp: candidate_def in_set_conv_nth split: option.splits if_splits)
    with sel None show ?thesis by (simp add: router_send_def)
  next
    case (Some i)
    then have i: "i < ?n" "?c i = Some sc" and mx: "\<forall>j < ?n. \<forall>c. ?c j = Some c \<longrightarrow>
        \<not> b64_less sc c \<and> (j < i \<longrightarrow> b64_less c sc)"
      using b by (simp_all add: best_upto_def)
    obtain gw where gw: "sr_gateways s ! i = Some gw" "sg_is_connected gw"
      "sc = route_score (sr_depth_proxy s ! i) (sg_get_rtt_ns gw)"
      using i(2) by (auto simp: candidate_def split: option.splits if_splits)
    have cj: "?c j = Some (route_score (sr_depth_proxy s ! j) (sg_get_rtt_ns gj))"
      if "sr_gateways s ! j = Some gj" "sg_is_connected gj" for j gj
      using that by (simp add: candidate_def)
    show ?thesis
      unfolding sel Some using gw i(1) mx cj by (auto simp: router_send_def sel Some)
  qed
qed

theorem router_picks_best_witness:
  "let s = router_new [None, Some (sg_new (Fin 1) 1000 (\<lambda>_. Fin 0))] in
   router_select sg_is_connected sg_get_rtt_ns s \<noteq> Some 0"
proof -
  let ?s = "router_new [None, Some (sg_new (Fin 1) 1000 (\<lambda>_. Fin 0))]"
  show ?thesis
    using router_picks_best [OF router_new_wf, of "[None, Some (sg_new (Fin 1) 1000 (\<lambda>_. Fin 0))]" 0 req0]
    by (auto simp: router_new_def Let_def nth_Cons split: option.splits nat.splits)
qed

end
