(* ===== verification/Order_Book.thy ===== *)
theory Order_Book
  imports Types
begin

text \<open>
  \<^verbatim>\<open>src/market_data/order_book.cpp\<close> and \<^verbatim>\<open>src/market_data/book_builder.cpp\<close>: one instrument's book
  and the map of books.  Every operation of a book runs under its spin lock, so it is one step.
  The arrays have 20 levels; the event's arrays have \<open>MARKET_DEPTH\<close>, and reading past those is a
  fault.
\<close>

subsection \<open>OrderBook\<close>

definition MAX_LEVELS :: nat where "MAX_LEVELS = 20"

datatype book_fault = Event_array_overrun

record order_book =
  ob_instrument_id :: InstrumentId
  ob_bid_count :: nat
  ob_ask_count :: nat
  ob_bids :: "PriceLevel list"
  ob_asks :: "PriceLevel list"

definition book_new :: "InstrumentId \<Rightarrow> order_book" where
  "book_new ident = \<lparr>ob_instrument_id = ident, ob_bid_count = 0, ob_ask_count = 0,
     ob_bids = replicate MAX_LEVELS level0, ob_asks = replicate MAX_LEVELS level0\<rparr>"

definition apply_bbo :: "BBOEvent \<Rightarrow> order_book \<Rightarrow> order_book" where
  "apply_bbo e b = b\<lparr>
     ob_bids := (ob_bids b)[0 := \<lparr>lvl_price = bid_px e, lvl_qty = bid_qty e\<rparr>],
     ob_asks := (ob_asks b)[0 := \<lparr>lvl_price = ask_px e, lvl_qty = ask_qty e\<rparr>],
     ob_bid_count := (if ob_bid_count b = 0 then 1 else ob_bid_count b),
     ob_ask_count := (if ob_ask_count b = 0 then 1 else ob_ask_count b)\<rparr>"

text \<open>\<open>for (i = 0; i < n; ++i) dst[i] = src[i]\<close>\<close>

fun copy_levels :: "nat \<Rightarrow> PriceLevel list \<Rightarrow> PriceLevel list \<Rightarrow> book_fault + PriceLevel list" where
  "copy_levels 0 src dst = Inr dst"
| "copy_levels (Suc n) src dst = rbind (copy_levels n src dst) (\<lambda>d.
     if n < length src then Inr (d[n := src ! n]) else Inl Event_array_overrun)"

definition clamp_levels :: "u8 \<Rightarrow> nat" where
  "clamp_levels n = (if unat n \<le> MAX_LEVELS then unat n else MAX_LEVELS)"

definition apply_depth :: "DepthEvent \<Rightarrow> order_book \<Rightarrow> book_fault + order_book" where
  "apply_depth e b =
     (let nb = clamp_levels (dep_bid_levels e); na = clamp_levels (dep_ask_levels e) in
      rbind (copy_levels nb (dep_bids e) (ob_bids b)) (\<lambda>bids.
      rbind (copy_levels na (dep_asks e) (ob_asks b)) (\<lambda>asks.
        Inr (b\<lparr>ob_bids := bids, ob_asks := asks, ob_bid_count := nb, ob_ask_count := na\<rparr>))))"

definition snapshot_bbo :: "order_book \<Rightarrow> BBOEvent" where
  "snapshot_bbo b =
     (let ev = bbo0\<lparr>bbo_instrument_id := ob_instrument_id b, bbo_type := BBO_UPDATE\<rparr>;
          ev1 = (if ob_bid_count b > 0
                 then ev\<lparr>bid_px := lvl_price (ob_bids b ! 0), bid_qty := lvl_qty (ob_bids b ! 0)\<rparr> else ev)
      in if ob_ask_count b > 0
         then ev1\<lparr>ask_px := lvl_price (ob_asks b ! 0), ask_qty := lvl_qty (ob_asks b ! 0)\<rparr> else ev1)"

definition snapshot_levels :: "nat \<Rightarrow> PriceLevel list \<Rightarrow> PriceLevel list" where
  "snapshot_levels n xs = map (\<lambda>i. if i < n then xs ! i else level0) [0..<MARKET_DEPTH]"

definition snapshot_count :: "nat \<Rightarrow> nat" where
  "snapshot_count n = (if n < MARKET_DEPTH then n else MARKET_DEPTH)"

definition snapshot_depth :: "order_book \<Rightarrow> DepthEvent" where
  "snapshot_depth b =
     (let nb = snapshot_count (ob_bid_count b); na = snapshot_count (ob_ask_count b)
      in depth0\<lparr>dep_instrument_id := ob_instrument_id b, dep_bid_levels := of_nat nb,
           dep_ask_levels := of_nat na, dep_bids := snapshot_levels nb (ob_bids b),
           dep_asks := snapshot_levels na (ob_asks b)\<rparr>)"

definition best_prices :: "order_book \<Rightarrow> (Price \<times> Price) option" where
  "best_prices b = (if ob_bid_count b > 0 \<and> ob_ask_count b > 0
     then Some (lvl_price (ob_bids b ! 0), lvl_price (ob_asks b ! 0)) else None)"

definition book_mid_price :: "order_book \<Rightarrow> Price" where
  "book_mid_price b = (case best_prices b of None \<Rightarrow> 0
     | Some (p, q) \<Rightarrow> if p > 0 \<and> q > 0 then cdiv (i64 (p + q)) 2 else 0)"

definition book_spread :: "order_book \<Rightarrow> Price" where
  "book_spread b = (case best_prices b of None \<Rightarrow> 0
     | Some (p, q) \<Rightarrow> if p > 0 \<and> q > 0 then i64 (q - p) else 0)"

definition book_is_crossed :: "order_book \<Rightarrow> bool" where
  "book_is_crossed b \<longleftrightarrow> (case best_prices b of None \<Rightarrow> False | Some (p, q) \<Rightarrow> p \<ge> q)"

definition book_wf :: "order_book \<Rightarrow> bool" where
  "book_wf b \<longleftrightarrow> length (ob_bids b) = MAX_LEVELS \<and> length (ob_asks b) = MAX_LEVELS
     \<and> ob_bid_count b \<le> MAX_LEVELS \<and> ob_ask_count b \<le> MAX_LEVELS"

lemma copy_levels_eq:
  "n \<le> length dst \<Longrightarrow> copy_levels n src dst =
     (if n \<le> length src then Inr (take n src @ drop n dst) else Inl Event_array_overrun)"
proof (induction n)
  case (Suc n)
  then show ?case
    by (auto simp: take_Suc_conv_app_nth list_update_append Cons_nth_drop_Suc [symmetric])
qed simp

lemma clamp_levels_le: "clamp_levels n \<le> MAX_LEVELS"
  by (simp add: clamp_levels_def)

lemma book_new_wf: "book_wf (book_new ident)"
  by (simp add: book_wf_def book_new_def)

lemma book_new_id [simp]: "ob_instrument_id (book_new ident) = ident"
  by (simp add: book_new_def)

lemma apply_bbo_wf: "book_wf b \<Longrightarrow> book_wf (apply_bbo e b)"
  by (simp add: book_wf_def apply_bbo_def MAX_LEVELS_def)

lemma apply_depth_eq:
  assumes "book_wf b"
  shows "apply_depth e b =
    (let nb = clamp_levels (dep_bid_levels e); na = clamp_levels (dep_ask_levels e) in
     if nb \<le> length (dep_bids e) \<and> na \<le> length (dep_asks e)
     then Inr (b\<lparr>ob_bids := take nb (dep_bids e) @ drop nb (ob_bids b),
                 ob_asks := take na (dep_asks e) @ drop na (ob_asks b),
                 ob_bid_count := nb, ob_ask_count := na\<rparr>)
     else Inl Event_array_overrun)"
  using assms clamp_levels_le [of "dep_bid_levels e"] clamp_levels_le [of "dep_ask_levels e"]
  by (simp add: apply_depth_def copy_levels_eq book_wf_def Let_def)

lemma apply_depth_wf: "book_wf b \<Longrightarrow> apply_depth e b = Inr b' \<Longrightarrow> book_wf b'"
  using clamp_levels_le [of "dep_bid_levels e"] clamp_levels_le [of "dep_ask_levels e"]
  by (auto simp: apply_depth_eq Let_def book_wf_def split: if_splits)

subsection \<open>BookBuilder\<close>

type_synonym book_builder = "InstrumentId \<rightharpoonup> order_book"

definition get_or_create :: "InstrumentId \<Rightarrow> book_builder \<Rightarrow> book_builder \<times> order_book" where
  "get_or_create ident bs = (case bs ident of Some b \<Rightarrow> (bs, b)
     | None \<Rightarrow> (bs(ident \<mapsto> book_new ident), book_new ident))"

definition bb_on_bbo :: "BBOEvent \<Rightarrow> book_builder \<Rightarrow> book_builder" where
  "bb_on_bbo e bs = (let (bs1, b) = get_or_create (bbo_instrument_id e) bs
                     in bs1(bbo_instrument_id e \<mapsto> apply_bbo e b))"

definition bb_on_depth :: "DepthEvent \<Rightarrow> book_builder \<Rightarrow> book_fault + book_builder" where
  "bb_on_depth e bs = (let (bs1, b) = get_or_create (dep_instrument_id e) bs
                       in rbind (apply_depth e b) (\<lambda>b'. Inr (bs1(dep_instrument_id e \<mapsto> b'))))"

definition bb_find :: "InstrumentId \<Rightarrow> book_builder \<Rightarrow> order_book option" where
  "bb_find ident bs = bs ident"

definition bb_book_count :: "book_builder \<Rightarrow> nat" where
  "bb_book_count bs = card (dom bs)"

definition bb_wf :: "book_builder \<Rightarrow> bool" where
  "bb_wf bs \<longleftrightarrow> (\<forall>ident b. bs ident = Some b \<longrightarrow> book_wf b \<and> ob_instrument_id b = ident)"

lemma get_or_create_wf:
  assumes "bb_wf bs" and "get_or_create ident bs = (bs1, b)"
  shows "bb_wf bs1" and "book_wf b" and "ob_instrument_id b = ident" and "bs1 ident = Some b"
    and "\<And>k. k \<noteq> ident \<Longrightarrow> bs1 k = bs k"
  using assms by (auto simp: get_or_create_def bb_wf_def book_new_wf split: option.splits if_splits)

lemma bb_on_bbo_wf: "bb_wf bs \<Longrightarrow> bb_wf (bb_on_bbo e bs)"
proof -
  assume wf: "bb_wf bs"
  obtain bs1 b where g: "get_or_create (bbo_instrument_id e) bs = (bs1, b)" by force
  note w = get_or_create_wf [OF wf g]
  have "ob_instrument_id (apply_bbo e b) = bbo_instrument_id e" using w(3) by (simp add: apply_bbo_def)
  then show ?thesis using w(1) apply_bbo_wf [OF w(2), of e] by (simp add: bb_on_bbo_def g bb_wf_def)
qed

lemma depth_fits:
  assumes "depth_wf e"
  shows "clamp_levels (dep_bid_levels e) \<le> length (dep_bids e) \<longleftrightarrow> unat (dep_bid_levels e) \<le> MARKET_DEPTH"
    and "clamp_levels (dep_ask_levels e) \<le> length (dep_asks e) \<longleftrightarrow> unat (dep_ask_levels e) \<le> MARKET_DEPTH"
  using assms by (auto simp: depth_wf_def clamp_levels_def MAX_LEVELS_def MARKET_DEPTH_def)

text \<open>
  Depth round trip: a depth update with at most \<open>MARKET_DEPTH\<close> levels per side
  creates the instrument's book if needed; its depth snapshot then shows exactly those levels, its
  best prices are the first ones, and no other instrument's book changes.
\<close>

theorem depth_update_snapshot:
  assumes "bb_wf bs" and "depth_wf e"
    and "unat (dep_bid_levels e) \<le> MARKET_DEPTH" and "unat (dep_ask_levels e) \<le> MARKET_DEPTH"
  shows "\<exists>bs' b. bb_on_depth e bs = Inr bs' \<and> bb_wf bs' \<and> bb_find (dep_instrument_id e) bs' = Some b
    \<and> dep_instrument_id (snapshot_depth b) = dep_instrument_id e
    \<and> dep_bid_levels (snapshot_depth b) = dep_bid_levels e \<and> dep_ask_levels (snapshot_depth b) = dep_ask_levels e
    \<and> (\<forall>i < unat (dep_bid_levels e). dep_bids (snapshot_depth b) ! i = dep_bids e ! i)
    \<and> (\<forall>i < unat (dep_ask_levels e). dep_asks (snapshot_depth b) ! i = dep_asks e ! i)
    \<and> (0 < unat (dep_bid_levels e) \<longrightarrow> bid_px (snapshot_bbo b) = lvl_price (dep_bids e ! 0))
    \<and> (\<forall>k. k \<noteq> dep_instrument_id e \<longrightarrow> bb_find k bs' = bb_find k bs)"
proof -
  obtain bs1 b0 where g: "get_or_create (dep_instrument_id e) bs = (bs1, b0)" by force
  note w = get_or_create_wf [OF assms(1) g]
  let ?nb = "unat (dep_bid_levels e)" and ?na = "unat (dep_ask_levels e)"
  have c: "clamp_levels (dep_bid_levels e) = ?nb" "clamp_levels (dep_ask_levels e) = ?na"
    using assms(3,4) by (simp_all add: clamp_levels_def MAX_LEVELS_def MARKET_DEPTH_def)
  have len: "length (dep_bids e) = MARKET_DEPTH" "length (dep_asks e) = MARKET_DEPTH"
    using assms(2) by (simp_all add: depth_wf_def)
  let ?b = "b0\<lparr>ob_bids := take ?nb (dep_bids e) @ drop ?nb (ob_bids b0),
    ob_asks := take ?na (dep_asks e) @ drop ?na (ob_asks b0), ob_bid_count := ?nb, ob_ask_count := ?na\<rparr>"
  have d: "apply_depth e b0 = Inr ?b" using w(2) assms(3,4) len by (simp add: apply_depth_eq c Let_def)
  have wb: "book_wf ?b" by (rule apply_depth_wf [OF w(2) d])
  have o: "bb_on_depth e bs = Inr (bs1(dep_instrument_id e \<mapsto> ?b))" by (simp add: bb_on_depth_def g d)
  have wf': "bb_wf (bs1(dep_instrument_id e \<mapsto> ?b))" using w(1,3) wb by (auto simp: bb_wf_def)
  have n: "snapshot_count ?nb = ?nb" "snapshot_count ?na = ?na"
    using assms(3,4) by (simp_all add: snapshot_count_def)
  have s: "snapshot_depth ?b = depth0\<lparr>dep_instrument_id := dep_instrument_id e, dep_bid_levels := dep_bid_levels e,
      dep_ask_levels := dep_ask_levels e, dep_bids := snapshot_levels ?nb (ob_bids ?b),
      dep_asks := snapshot_levels ?na (ob_asks ?b)\<rparr>"
    using w(3) by (simp add: snapshot_depth_def n Let_def)
  have lv: "snapshot_levels k (take k xs @ ys) ! i = xs ! i" if "k \<le> MARKET_DEPTH" "i < k" "length xs = MARKET_DEPTH" for k i xs ys
    using that by (simp add: snapshot_levels_def nth_append)
  have top: "0 < ?nb \<longrightarrow> bid_px (snapshot_bbo ?b) = lvl_price (dep_bids e ! 0)"
    using len assms(3) by (auto simp: snapshot_bbo_def Let_def nth_append)
  show ?thesis
    by (intro exI [of _ "bs1(dep_instrument_id e \<mapsto> ?b)"] exI [of _ ?b] conjI)
      (use o wf' s w(5) lv len assms(3,4) top in \<open>auto simp: bb_find_def\<close>)
qed

theorem depth_update_snapshot_witness:
  "\<exists>bs' b. bb_on_depth (depth0\<lparr>dep_instrument_id := 3, dep_bid_levels := 1,
      dep_bids := [\<lparr>lvl_price = 100, lvl_qty = 5\<rparr>, level0, level0, level0, level0]\<rparr>) Map.empty = Inr bs'
    \<and> bb_find 3 bs' = Some b \<and> bid_px (snapshot_bbo b) = 100"
  using depth_update_snapshot [of Map.empty "depth0\<lparr>dep_instrument_id := 3, dep_bid_levels := 1,
      dep_bids := [\<lparr>lvl_price = 100, lvl_qty = 5\<rparr>, level0, level0, level0, level0]\<rparr>"]
  by (auto simp: bb_wf_def depth_wf_def depth0_def MARKET_DEPTH_def)

text \<open>
  \<open>apply_depth\<close> clamps to the capacity of the book, not of the event: a depth event
  that announces more than \<open>MARKET_DEPTH\<close> levels on a side makes it read past the event's array, and
  only such an event does.
\<close>

theorem apply_depth_overrun:
  assumes "book_wf b" and "depth_wf e"
  shows "apply_depth e b = Inl Event_array_overrun \<longleftrightarrow>
    unat (dep_bid_levels e) > MARKET_DEPTH \<or> unat (dep_ask_levels e) > MARKET_DEPTH"
  using assms depth_fits [OF assms(2)] by (auto simp: apply_depth_eq Let_def)

theorem apply_depth_overrun_witness:
  "apply_depth (depth0\<lparr>dep_bid_levels := 6\<rparr>) (book_new 1) = Inl Event_array_overrun"
  using apply_depth_overrun [OF book_new_wf, of "depth0\<lparr>dep_bid_levels := 6\<rparr>" 1]
  by (simp add: depth_wf_def depth0_def MARKET_DEPTH_def)

subsection \<open>The order of the levels\<close>

definition bids_sorted :: "order_book \<Rightarrow> bool" where
  "bids_sorted b \<longleftrightarrow> sorted_wrt (\<lambda>x y. lvl_price x \<ge> lvl_price y) (take (ob_bid_count b) (ob_bids b))"

definition asks_sorted :: "order_book \<Rightarrow> bool" where
  "asks_sorted b \<longleftrightarrow> sorted_wrt (\<lambda>x y. lvl_price x \<le> lvl_price y) (take (ob_ask_count b) (ob_asks b))"

lemma sorted_wrt_head:
  assumes "transp P" and "sorted_wrt P (take n xs)" and "0 < length xs"
  shows "sorted_wrt P (take n (xs[0 := y])) \<longleftrightarrow> n \<le> 1 \<or> length xs = 1 \<or> P y (xs ! 1)"
proof -
  obtain z zs where xs: "xs = z # zs" using assms(3) by (cases xs) auto
  show ?thesis
  proof (cases n)
    case (Suc k)
    have tail: "sorted_wrt P (take k zs)" using assms(2) by (simp add: xs Suc)
    show ?thesis
    proof (cases "take k zs")
      case Nil
      then show ?thesis by (auto simp: xs Suc)
    next
      case (Cons w ws)
      then have w: "zs ! 0 = w" "k \<noteq> 0" "zs \<noteq> []" by (cases zs; cases k; auto)+
      have "(\<forall>v \<in> set (w # ws). P y v) \<longleftrightarrow> P y w"
        using tail Cons assms(1) by (auto dest: transpD)
      then show ?thesis using tail Cons w by (auto simp: xs Suc)
    qed
  qed simp
qed

text \<open>
  A top-of-book update overwrites level 0 only: on a sorted book it keeps the
  documented order of the levels exactly when the new best prices are not worse than the second
  levels; otherwise the book is left with a stale better level behind level 0.
\<close>

theorem bbo_update_order:
  assumes "book_wf b" and "bids_sorted b" and "asks_sorted b"
  shows "(bids_sorted (apply_bbo e b) \<longleftrightarrow> ob_bid_count b \<le> 1 \<or> bid_px e \<ge> lvl_price (ob_bids b ! 1))
    \<and> (asks_sorted (apply_bbo e b) \<longleftrightarrow> ob_ask_count b \<le> 1 \<or> ask_px e \<le> lvl_price (ob_asks b ! 1))"
proof -
  have len: "length (ob_bids b) = 20" "length (ob_asks b) = 20"
    using assms(1) by (simp_all add: book_wf_def MAX_LEVELS_def)
  have t: "transp (\<lambda>x y. lvl_price x \<ge> lvl_price y)" "transp (\<lambda>x y. lvl_price x \<le> lvl_price y)"
    by (auto simp: transp_def)
  let ?y = "\<lparr>lvl_price = bid_px e, lvl_qty = bid_qty e\<rparr>" and ?z = "\<lparr>lvl_price = ask_px e, lvl_qty = ask_qty e\<rparr>"
  have one: "sorted_wrt P (take (if n = 0 then 1 else n) xs) \<longleftrightarrow> sorted_wrt P (take n xs)"
    for P :: "PriceLevel \<Rightarrow> PriceLevel \<Rightarrow> bool" and n xs
    by (cases n; cases xs) auto
  have "bids_sorted (apply_bbo e b) \<longleftrightarrow> ob_bid_count b \<le> 1 \<or> bid_px e \<ge> lvl_price (ob_bids b ! 1)"
    using sorted_wrt_head [OF t(1) assms(2) [unfolded bids_sorted_def], of ?y] len
    by (simp add: bids_sorted_def apply_bbo_def one)
  moreover have "asks_sorted (apply_bbo e b) \<longleftrightarrow> ob_ask_count b \<le> 1 \<or> ask_px e \<le> lvl_price (ob_asks b ! 1)"
    using sorted_wrt_head [OF t(2) assms(3) [unfolded asks_sorted_def], of ?z] len
    by (simp add: asks_sorted_def apply_bbo_def one)
  ultimately show ?thesis by simp
qed

theorem bbo_update_order_witness:
  "\<not> bids_sorted (apply_bbo (bbo0\<lparr>bid_px := 90, ask_px := 110\<rparr>)
     ((book_new 1)\<lparr>ob_bid_count := 2, ob_bids := \<lparr>lvl_price = 100, lvl_qty = 1\<rparr> #
        \<lparr>lvl_price = 99, lvl_qty = 1\<rparr> # replicate 18 level0\<rparr>))"
  using bbo_update_order [of "(book_new 1)\<lparr>ob_bid_count := 2, ob_bids := \<lparr>lvl_price = 100, lvl_qty = 1\<rparr> #
        \<lparr>lvl_price = 99, lvl_qty = 1\<rparr> # replicate 18 level0\<rparr>" "bbo0\<lparr>bid_px := 90, ask_px := 110\<rparr>"]
  by (simp add: book_wf_def book_new_def MAX_LEVELS_def bids_sorted_def asks_sorted_def bbo0_def numeral_2_eq_2)

end
