(* ===== verification/Bytes.thy ===== *)
theory Bytes
  imports Prelude
begin

text \<open>
  Byte strings as the wire formats lay them out: little-endian fields of fixed width, the
  \<open>memcpy\<close> of a packed struct, and the byte swap of \<^verbatim>\<open>pcap_replayer.cpp\<close>.
\<close>

type_synonym bytes = "u8 list"

primrec nat_bytes :: "nat \<Rightarrow> nat \<Rightarrow> bytes" where
  "nat_bytes 0 v = []"
| "nat_bytes (Suc n) v = of_nat v # nat_bytes n (v div 256)"

primrec le_nat :: "bytes \<Rightarrow> nat" where
  "le_nat [] = 0"
| "le_nat (b # bs) = unat b + 256 * le_nat bs"

lemma length_nat_bytes [simp]: "length (nat_bytes n v) = n"
  by (induction n arbitrary: v) simp_all

lemma unat_of_nat_u8: "unat (of_nat v :: u8) = v mod 256"
  by (simp add: unsigned_of_nat take_bit_eq_mod)

lemma le_nat_bytes [simp]: "le_nat (nat_bytes n v) = v mod 256 ^ n"
proof (induction n arbitrary: v)
  case (Suc n)
  then show ?case by (simp add: unat_of_nat_u8 mod_mult2_eq del: unsigned_of_nat)
qed simp

lemma unat_u8_less: "unat (b :: u8) < 256"
  using unsigned_less [of b] by simp

lemma nat_bytes_le_nat: "nat_bytes (length bs) (le_nat bs) = bs"
proof (induction bs)
  case (Cons b bs)
  have "(of_nat (unat b + 256 * le_nat bs) :: u8) = b"
    by (simp add: word_unat_eq_iff unat_of_nat_u8 unat_u8_less del: of_nat_add of_nat_mult unsigned_of_nat)
  then show ?case using Cons.IH unat_u8_less [of b] by simp
qed simp

lemma le_nat_less: "le_nat bs < 256 ^ length bs"
proof (induction bs)
  case (Cons b bs)
  then have "256 * (le_nat bs + 1) \<le> 256 * 256 ^ length bs" by (intro mult_le_mono2) simp
  then show ?case using unat_u8_less [of b] by simp
qed simp

subsection \<open>Fields\<close>

definition rd :: "nat \<Rightarrow> nat \<Rightarrow> bytes \<Rightarrow> nat" where
  "rd off n buf = le_nat (take n (drop off buf))"

definition rd8 :: "nat \<Rightarrow> bytes \<Rightarrow> u8" where "rd8 off buf = of_nat (rd off 1 buf)"
definition rd16 :: "nat \<Rightarrow> bytes \<Rightarrow> u16" where "rd16 off buf = of_nat (rd off 2 buf)"
definition rd32 :: "nat \<Rightarrow> bytes \<Rightarrow> u32" where "rd32 off buf = of_nat (rd off 4 buf)"
definition rd64 :: "nat \<Rightarrow> bytes \<Rightarrow> u64" where "rd64 off buf = of_nat (rd off 8 buf)"
definition rdi64 :: "nat \<Rightarrow> bytes \<Rightarrow> int" where "rdi64 off buf = i64 (int (rd off 8 buf))"

definition wr8 :: "u8 \<Rightarrow> bytes" where "wr8 w = nat_bytes 1 (unat w)"
definition wr16 :: "u16 \<Rightarrow> bytes" where "wr16 w = nat_bytes 2 (unat w)"
definition wr32 :: "u32 \<Rightarrow> bytes" where "wr32 w = nat_bytes 4 (unat w)"
definition wr64 :: "u64 \<Rightarrow> bytes" where "wr64 w = nat_bytes 8 (unat w)"
definition wri64 :: "int \<Rightarrow> bytes" where "wri64 x = nat_bytes 8 (nat (x mod 2 ^ 64))"

named_theorems bytes_simps \<open>layout of byte strings\<close>

lemma length_wr [simp, bytes_simps]:
  "length (wr8 a) = 1" "length (wr16 b) = 2" "length (wr32 c) = 4" "length (wr64 d) = 8" "length (wri64 x) = 8"
  by (simp_all add: wr8_def wr16_def wr32_def wr64_def wri64_def)

text \<open>A field at the front of what remains after \<open>off\<close> bytes.\<close>

lemma rd_here: "drop off buf = xs @ rest \<Longrightarrow> length xs = n \<Longrightarrow> rd off n buf = le_nat xs"
  by (simp add: rd_def)

lemma rd8_here: "drop off buf = wr8 w @ rest \<Longrightarrow> rd8 off buf = w"
  using unat_u8_less [of w]
  by (simp add: rd8_def wr8_def rd_here [of off buf "nat_bytes 1 (unat w)" rest])

lemma rd16_here: "drop off buf = wr16 w @ rest \<Longrightarrow> rd16 off buf = w"
  using unsigned_less [of w, where 'a = nat]
  by (simp add: rd16_def wr16_def rd_here [of off buf "nat_bytes 2 (unat w)" rest] word_unat_eq_iff
      unsigned_of_nat take_bit_eq_mod)

lemma rd32_here: "drop off buf = wr32 w @ rest \<Longrightarrow> rd32 off buf = w"
  using unsigned_less [of w, where 'a = nat]
  by (simp add: rd32_def wr32_def rd_here [of off buf "nat_bytes 4 (unat w)" rest] word_unat_eq_iff
      unsigned_of_nat take_bit_eq_mod)

lemma rd64_here: "drop off buf = wr64 w @ rest \<Longrightarrow> rd64 off buf = w"
  using unsigned_less [of w, where 'a = nat]
  by (simp add: rd64_def wr64_def rd_here [of off buf "nat_bytes 8 (unat w)" rest] word_unat_eq_iff
      unsigned_of_nat take_bit_eq_mod)

lemma rdi64_here: "drop off buf = wri64 x @ rest \<Longrightarrow> in_i64 x \<Longrightarrow> rdi64 off buf = x"
proof -
  assume d: "drop off buf = wri64 x @ rest" and x: "in_i64 x"
  let ?v = "nat (x mod 2 ^ 64)"
  have "?v < 2 ^ 64" by (simp add: nat_less_iff)
  then have "rd off 8 buf = ?v"
    using rd_here [of off buf "nat_bytes 8 ?v" rest] d by (simp add: wri64_def)
  then have "rdi64 off buf = i64 (x mod 2 ^ 64)" by (simp add: rdi64_def)
  also have "\<dots> = i64 x" by (simp add: i64_eq_iff)
  finally show ?thesis using x by (simp add: i64_id)
qed

lemma in_i64_rdi64 [simp]: "in_i64 (rdi64 off buf)"
  by (simp add: rdi64_def)

subsection \<open>Byte swap\<close>

definition bswap32 :: "u32 \<Rightarrow> u32" where
  "bswap32 v = (push_bit 24 (v AND 0xFF) OR push_bit 8 (v AND 0xFF00))
     OR (drop_bit 8 v AND 0xFF00) OR (drop_bit 24 v AND 0xFF)"

lemma byte_masks: "(0xFF :: u32) = mask 8" "(0xFF00 :: u32) = push_bit 8 (mask 8)"
  by (simp_all add: mask_eq_exp_minus_1 push_bit_eq_mult)

lemma bit_bswap32:
  assumes "n < 32"
  shows "bit (bswap32 v) n = bit v (8 * (3 - n div 8) + n mod 8)"
proof -
  have q: "n div 8 = k \<and> n mod 8 = n - 8 * k" if "8 * k \<le> n" "n < 8 * k + 8" for k
    using that by (simp add: div_nat_eqI modulo_nat_def)
  consider "n < 8" | "8 \<le> n" "n < 16" | "16 \<le> n" "n < 24" | "24 \<le> n" by linarith
  then show ?thesis
  proof cases
    case 1
    then show ?thesis using q [of 0] by (simp add: bswap32_def byte_masks bit_simps add.commute)
  next
    case 2
    then have "8 * (3 - n div 8) + n mod 8 = 8 + n" using q [of 1] by simp
    with 2 show ?thesis by (auto simp: bswap32_def byte_masks bit_simps)
  next
    case 3
    then have "8 * (3 - n div 8) + n mod 8 = n - 8" using q [of 2] by simp
    with 3 show ?thesis by (auto simp: bswap32_def byte_masks bit_simps)
  next
    case 4
    then have "8 * (3 - n div 8) + n mod 8 = n - 24" using q [of 3] assms by simp
    with 4 assms show ?thesis by (auto simp: bswap32_def byte_masks bit_simps)
  qed
qed

lemma bswap32_involution [simp]: "bswap32 (bswap32 v) = v"
proof (rule bit_word_eqI)
  fix n assume "n < LENGTH(32)"
  then have n: "n < 32" by simp
  then have k: "n div 8 \<le> 3" by simp
  let ?m = "8 * (3 - n div 8) + n mod 8"
  have m: "?m div 8 = 3 - n div 8" "?m mod 8 = n mod 8" by simp_all
  have "?m < 32"
  proof -
    have "n mod 8 < 8" by simp
    then show ?thesis using diff_le_self [of 3 "n div 8"] by linarith
  qed
  moreover have "8 * (3 - ?m div 8) + ?m mod 8 = n" using k unfolding m by simp
  ultimately show "bit (bswap32 (bswap32 v)) n = bit v n" using n bit_bswap32 by metis
qed

end
