(* ===== verification/Normalizer.thy ===== *)
theory Normalizer
  imports Order_Book Bytes
begin

text \<open>
  \<^verbatim>\<open>src/market_data/normalizer.hpp\<close> and \<^verbatim>\<open>src/market_data/normalizer.cpp\<close>: the packed wire
  structs, their layout in memory (\<open>bytes_of_\<dots>\<close>, \<open>load_\<dots>\<close>: what \<open>memcpy\<close> does on a little-endian
  machine), the parsers of one message and the batch parser of a packet.
\<close>

subsection \<open>Wire structs\<close>

datatype ExchangeType = INTERNAL | BINANCE | CFFEX | SSE_STEP

definition WIRE_MAGIC :: u32 where "WIRE_MAGIC = 0x48465420"
definition WIRE_BBO :: u8 where "WIRE_BBO = 0x01"
definition WIRE_TRADE :: u8 where "WIRE_TRADE = 0x02"
definition WIRE_DEPTH :: u8 where "WIRE_DEPTH = 0x03"

record WireBBO =
  wb_magic :: u32
  wb_msg_type :: u8
  wb_pad :: bytes
  wb_instrument_id :: u32
  wb_exchange_ts_ns :: u64
  wb_bid_price :: int
  wb_ask_price :: int
  wb_bid_qty :: int
  wb_ask_qty :: int

record WireDepth =
  wd_magic :: u32
  wd_msg_type :: u8
  wd_bid_levels :: u8
  wd_ask_levels :: u8
  wd_pad :: bytes
  wd_instrument_id :: u32
  wd_exchange_ts_ns :: u64
  wd_bids :: "PriceLevel list"
  wd_asks :: "PriceLevel list"

definition SIZEOF_BBO :: nat where "SIZEOF_BBO = 52"
definition SIZEOF_DEPTH :: nat where "SIZEOF_DEPTH = 180"

definition bytes_of_BBO :: "WireBBO \<Rightarrow> bytes" where
  "bytes_of_BBO w = wr32 (wb_magic w) @ wr8 (wb_msg_type w) @ wb_pad w @ wr32 (wb_instrument_id w)
     @ wr64 (wb_exchange_ts_ns w) @ wri64 (wb_bid_price w) @ wri64 (wb_ask_price w)
     @ wri64 (wb_bid_qty w) @ wri64 (wb_ask_qty w)"

definition load_BBO :: "bytes \<Rightarrow> WireBBO" where
  "load_BBO buf = \<lparr>wb_magic = rd32 0 buf, wb_msg_type = rd8 4 buf, wb_pad = take 3 (drop 5 buf),
     wb_instrument_id = rd32 8 buf, wb_exchange_ts_ns = rd64 12 buf, wb_bid_price = rdi64 20 buf,
     wb_ask_price = rdi64 28 buf, wb_bid_qty = rdi64 36 buf, wb_ask_qty = rdi64 44 buf\<rparr>"

definition level_bytes :: "PriceLevel \<Rightarrow> bytes" where
  "level_bytes l = wri64 (lvl_price l) @ wri64 (lvl_qty l)"

definition load_level :: "nat \<Rightarrow> bytes \<Rightarrow> PriceLevel" where
  "load_level off buf = \<lparr>lvl_price = rdi64 off buf, lvl_qty = rdi64 (off + 8) buf\<rparr>"

definition bytes_of_Depth :: "WireDepth \<Rightarrow> bytes" where
  "bytes_of_Depth w = wr32 (wd_magic w) @ wr8 (wd_msg_type w) @ wr8 (wd_bid_levels w)
     @ wr8 (wd_ask_levels w) @ wd_pad w @ wr32 (wd_instrument_id w) @ wr64 (wd_exchange_ts_ns w)
     @ concat (map level_bytes (wd_bids w)) @ concat (map level_bytes (wd_asks w))"

definition load_Depth :: "bytes \<Rightarrow> WireDepth" where
  "load_Depth buf = \<lparr>wd_magic = rd32 0 buf, wd_msg_type = rd8 4 buf, wd_bid_levels = rd8 5 buf,
     wd_ask_levels = rd8 6 buf, wd_pad = take 1 (drop 7 buf), wd_instrument_id = rd32 8 buf,
     wd_exchange_ts_ns = rd64 12 buf,
     wd_bids = map (\<lambda>i. load_level (20 + 16 * i) buf) [0..<MARKET_DEPTH],
     wd_asks = map (\<lambda>i. load_level (100 + 16 * i) buf) [0..<MARKET_DEPTH]\<rparr>"

subsection \<open>Parsers\<close>

definition event_of_BBO :: "WireBBO \<Rightarrow> BBOEvent" where
  "event_of_BBO w = \<lparr>exchange_ts_ns = wb_exchange_ts_ns w, local_ts_ns = wb_exchange_ts_ns w,
     bbo_instrument_id = wb_instrument_id w,
     bbo_type = (if wb_msg_type w = WIRE_TRADE then TRADE else BBO_UPDATE),
     bid_px = wb_bid_price w, ask_px = wb_ask_price w, bid_qty = wb_bid_qty w, ask_qty = wb_ask_qty w\<rparr>"

definition is_bbo_type :: "u8 \<Rightarrow> bool" where
  "is_bbo_type t \<longleftrightarrow> t = WIRE_BBO \<or> t = WIRE_TRADE"

definition parse_internal_bbo :: "bytes \<Rightarrow> BBOEvent option" where
  "parse_internal_bbo buf =
     (if length buf < SIZEOF_BBO then None
      else let w = load_BBO buf in
        if wb_magic w \<noteq> WIRE_MAGIC then None
        else if \<not> is_bbo_type (wb_msg_type w) then None
        else Some (event_of_BBO w))"

definition parse_binance_bbo :: "bytes \<Rightarrow> BBOEvent option" where
  "parse_binance_bbo buf =
     (if length buf < SIZEOF_BBO then None
      else let w = load_BBO buf in
        if \<not> is_bbo_type (wb_msg_type w) then None else Some (event_of_BBO w))"

definition depth_count :: "u8 \<Rightarrow> u8" where
  "depth_count n = (if unat n < MARKET_DEPTH then n else of_nat MARKET_DEPTH)"

definition event_levels :: "u8 \<Rightarrow> PriceLevel list \<Rightarrow> PriceLevel list" where
  "event_levels n ls = map (\<lambda>i. if i < unat n then ls ! i else level0) [0..<MARKET_DEPTH]"

definition event_of_Depth :: "WireDepth \<Rightarrow> DepthEvent" where
  "event_of_Depth w = (let nb = depth_count (wd_bid_levels w); na = depth_count (wd_ask_levels w) in
     \<lparr>dep_ts_ns = wd_exchange_ts_ns w, dep_instrument_id = wd_instrument_id w,
      dep_bid_levels = nb, dep_ask_levels = na,
      dep_bids = event_levels nb (wd_bids w), dep_asks = event_levels na (wd_asks w)\<rparr>)"

definition parse_internal_depth :: "bytes \<Rightarrow> DepthEvent option" where
  "parse_internal_depth buf =
     (if length buf < SIZEOF_DEPTH then None
      else let w = load_Depth buf in
        if wd_magic w \<noteq> WIRE_MAGIC then None
        else if wd_msg_type w \<noteq> WIRE_DEPTH then None
        else Some (event_of_Depth w))"

definition parse_bbo :: "ExchangeType \<Rightarrow> bytes \<Rightarrow> BBOEvent option" where
  "parse_bbo ex buf = (case ex of
       INTERNAL \<Rightarrow> parse_internal_bbo buf | CFFEX \<Rightarrow> parse_internal_bbo buf
     | SSE_STEP \<Rightarrow> parse_internal_bbo buf | BINANCE \<Rightarrow> parse_binance_bbo buf)"

definition parse_depth :: "ExchangeType \<Rightarrow> bytes \<Rightarrow> DepthEvent option" where
  "parse_depth ex buf = (case ex of
       INTERNAL \<Rightarrow> parse_internal_depth buf | CFFEX \<Rightarrow> parse_internal_depth buf
     | SSE_STEP \<Rightarrow> parse_internal_depth buf | BINANCE \<Rightarrow> parse_internal_depth buf)"

definition is_bbo :: "bytes \<Rightarrow> bool" where
  "is_bbo buf \<longleftrightarrow> \<not> length buf < SIZEOF_BBO \<and> is_bbo_type (rd8 4 buf)"

definition is_depth :: "bytes \<Rightarrow> bool" where
  "is_depth buf \<longleftrightarrow> \<not> length buf < SIZEOF_DEPTH \<and> rd8 4 buf = WIRE_DEPTH"

text \<open>
  \<open>buf\<close> is what remains of the packet from \<open>offset\<close> on, \<open>room\<close> what remains of the output array.
\<close>

function parse_batch :: "ExchangeType \<Rightarrow> bytes \<Rightarrow> nat \<Rightarrow> BBOEvent list" where
  "parse_batch ex buf room =
     (if buf = [] \<or> room = 0 then []
      else if length buf < SIZEOF_BBO then []
      else let t = rd8 4 buf in
        if is_bbo_type t then
          (case parse_bbo ex buf of
             Some e \<Rightarrow> e # parse_batch ex (drop SIZEOF_BBO buf) (room - 1)
           | None \<Rightarrow> parse_batch ex (drop SIZEOF_BBO buf) room)
        else if t = WIRE_DEPTH then parse_batch ex (drop SIZEOF_DEPTH buf) room
        else [])"
  by pat_completeness auto
termination
  by (relation "measure (\<lambda>(ex, buf, room). length buf)")
    (auto simp: SIZEOF_BBO_def SIZEOF_DEPTH_def)

declare parse_batch.simps [simp del]

subsection \<open>Layout: what is stored is what is loaded\<close>

definition wire_bbo_wf :: "WireBBO \<Rightarrow> bool" where
  "wire_bbo_wf w \<longleftrightarrow> length (wb_pad w) = 3 \<and> in_i64 (wb_bid_price w) \<and> in_i64 (wb_ask_price w)
     \<and> in_i64 (wb_bid_qty w) \<and> in_i64 (wb_ask_qty w)"

definition level_wf :: "PriceLevel \<Rightarrow> bool" where
  "level_wf l \<longleftrightarrow> in_i64 (lvl_price l) \<and> in_i64 (lvl_qty l)"

definition wire_depth_wf :: "WireDepth \<Rightarrow> bool" where
  "wire_depth_wf w \<longleftrightarrow> length (wd_pad w) = 1 \<and> length (wd_bids w) = MARKET_DEPTH
     \<and> length (wd_asks w) = MARKET_DEPTH \<and> list_all level_wf (wd_bids w) \<and> list_all level_wf (wd_asks w)"

lemma length_bytes_of_BBO [simp]: "wire_bbo_wf w \<Longrightarrow> length (bytes_of_BBO w) = SIZEOF_BBO"
  by (simp add: wire_bbo_wf_def bytes_of_BBO_def SIZEOF_BBO_def)

lemma length_level_bytes [simp]: "length (level_bytes l) = 16"
  by (simp add: level_bytes_def)

lemma length_levels_bytes [simp]: "length (concat (map level_bytes ls)) = 16 * length ls"
  by (induction ls) simp_all

lemma length_bytes_of_Depth [simp]: "wire_depth_wf w \<Longrightarrow> length (bytes_of_Depth w) = SIZEOF_DEPTH"
  by (simp add: wire_depth_wf_def bytes_of_Depth_def SIZEOF_DEPTH_def MARKET_DEPTH_def)

lemma load_bytes_of_BBO:
  assumes "wire_bbo_wf w"
  shows "load_BBO (bytes_of_BBO w @ rest) = w"
proof -
  have p: "length (wb_pad w) = 3" and i: "in_i64 (wb_bid_price w)" "in_i64 (wb_ask_price w)"
    "in_i64 (wb_bid_qty w)" "in_i64 (wb_ask_qty w)"
    using assms by (simp_all add: wire_bbo_wf_def)
  note b = bytes_of_BBO_def
  have "rd32 0 (bytes_of_BBO w @ rest) = wb_magic w" by (rule rd32_here) (simp add: b)
  moreover have "rd8 4 (bytes_of_BBO w @ rest) = wb_msg_type w" by (rule rd8_here) (simp add: b)
  moreover have "take 3 (drop 5 (bytes_of_BBO w @ rest)) = wb_pad w" using p by (simp add: b)
  moreover have "rd32 8 (bytes_of_BBO w @ rest) = wb_instrument_id w"
    by (rule rd32_here) (simp add: b p)
  moreover have "rd64 12 (bytes_of_BBO w @ rest) = wb_exchange_ts_ns w"
    by (rule rd64_here) (simp add: b p)
  moreover have "rdi64 20 (bytes_of_BBO w @ rest) = wb_bid_price w"
    by (rule rdi64_here [OF _ i(1)]) (simp add: b p)
  moreover have "rdi64 28 (bytes_of_BBO w @ rest) = wb_ask_price w"
    by (rule rdi64_here [OF _ i(2)]) (simp add: b p)
  moreover have "rdi64 36 (bytes_of_BBO w @ rest) = wb_bid_qty w"
    by (rule rdi64_here [OF _ i(3)]) (simp add: b p)
  moreover have "rdi64 44 (bytes_of_BBO w @ rest) = wb_ask_qty w"
    by (rule rdi64_here [OF _ i(4)]) (simp add: b p)
  ultimately show ?thesis by (simp add: load_BBO_def)
qed

lemma drop_levels_bytes:
  "i < length ls \<Longrightarrow> drop (16 * i) (concat (map level_bytes ls) @ rest)
     = level_bytes (ls ! i) @ concat (map level_bytes (drop (Suc i) ls)) @ rest"
proof (induction ls arbitrary: i)
  case (Cons l ls)
  then show ?case by (cases i) simp_all
qed simp

lemma load_level_here:
  "drop off buf = level_bytes l @ rest \<Longrightarrow> level_wf l \<Longrightarrow> load_level off buf = l"
proof -
  assume d: "drop off buf = level_bytes l @ rest" and l: "level_wf l"
  have "drop (off + 8) buf = drop 8 (drop off buf)" by (simp add: add.commute)
  then have e: "drop (off + 8) buf = wri64 (lvl_qty l) @ rest" using d by (simp add: level_bytes_def)
  from d have "drop off buf = wri64 (lvl_price l) @ wri64 (lvl_qty l) @ rest" by (simp add: level_bytes_def)
  with e l show ?thesis by (simp add: load_level_def rdi64_here level_wf_def)
qed

lemma load_levels_here:
  assumes "drop off buf = concat (map level_bytes ls) @ rest"
    and "length ls = MARKET_DEPTH" and "list_all level_wf ls"
  shows "map (\<lambda>i. load_level (off + 16 * i) buf) [0..<MARKET_DEPTH] = ls"
proof (rule nth_equalityI)
  fix i assume "i < length (map (\<lambda>i. load_level (off + 16 * i) buf) [0..<MARKET_DEPTH])"
  then have i: "i < length ls" using assms(2) by simp
  have "drop (off + 16 * i) buf = drop (16 * i) (drop off buf)" by (simp add: add.commute)
  then have "drop (off + 16 * i) buf
      = level_bytes (ls ! i) @ concat (map level_bytes (drop (Suc i) ls)) @ rest"
    using assms(1) drop_levels_bytes [OF i] by simp
  moreover have "level_wf (ls ! i)" using assms(3) i by (simp add: list_all_length)
  ultimately have "load_level (off + 16 * i) buf = ls ! i" by (rule load_level_here)
  then show "map (\<lambda>i. load_level (off + 16 * i) buf) [0..<MARKET_DEPTH] ! i = ls ! i"
    using i assms(2) by simp
qed (simp add: assms(2))

lemma load_bytes_of_Depth:
  assumes "wire_depth_wf w"
  shows "load_Depth (bytes_of_Depth w @ rest) = w"
proof -
  have p: "length (wd_pad w) = 1" and n: "length (wd_bids w) = MARKET_DEPTH" "length (wd_asks w) = MARKET_DEPTH"
    and l: "list_all level_wf (wd_bids w)" "list_all level_wf (wd_asks w)"
    using assms by (simp_all add: wire_depth_wf_def)
  note b = bytes_of_Depth_def
  have "rd32 0 (bytes_of_Depth w @ rest) = wd_magic w" by (rule rd32_here) (simp add: b)
  moreover have "rd8 4 (bytes_of_Depth w @ rest) = wd_msg_type w" by (rule rd8_here) (simp add: b)
  moreover have "rd8 5 (bytes_of_Depth w @ rest) = wd_bid_levels w" by (rule rd8_here) (simp add: b)
  moreover have "rd8 6 (bytes_of_Depth w @ rest) = wd_ask_levels w" by (rule rd8_here) (simp add: b)
  moreover have "take 1 (drop 7 (bytes_of_Depth w @ rest)) = wd_pad w" using p by (simp add: b)
  moreover have "rd32 8 (bytes_of_Depth w @ rest) = wd_instrument_id w"
    by (rule rd32_here) (simp add: b p)
  moreover have "rd64 12 (bytes_of_Depth w @ rest) = wd_exchange_ts_ns w"
    by (rule rd64_here) (simp add: b p)
  moreover have "map (\<lambda>i. load_level (20 + 16 * i) (bytes_of_Depth w @ rest)) [0..<MARKET_DEPTH] = wd_bids w"
    by (rule load_levels_here [OF _ n(1) l(1)]) (simp add: b p)
  moreover have "map (\<lambda>i. load_level (100 + 16 * i) (bytes_of_Depth w @ rest)) [0..<MARKET_DEPTH] = wd_asks w"
    by (rule load_levels_here [OF _ n(2) l(2)]) (simp add: b p n MARKET_DEPTH_def)
  ultimately show ?thesis by (simp add: load_Depth_def)
qed

lemma parse_internal_bbo_bytes:
  "wire_bbo_wf w \<Longrightarrow> parse_internal_bbo (bytes_of_BBO w @ rest) =
     (if wb_magic w = WIRE_MAGIC \<and> is_bbo_type (wb_msg_type w) then Some (event_of_BBO w) else None)"
  by (simp add: parse_internal_bbo_def load_bytes_of_BBO Let_def)

lemma parse_binance_bbo_bytes:
  "wire_bbo_wf w \<Longrightarrow> parse_binance_bbo (bytes_of_BBO w @ rest) =
     (if is_bbo_type (wb_msg_type w) then Some (event_of_BBO w) else None)"
  by (simp add: parse_binance_bbo_def load_bytes_of_BBO Let_def)

lemma rd8_bytes_of_BBO: "wire_bbo_wf w \<Longrightarrow> rd8 4 (bytes_of_BBO w @ rest) = wb_msg_type w"
  using load_bytes_of_BBO [of w rest] by (metis WireBBO.select_convs(2) load_BBO_def)

lemma rd8_bytes_of_Depth: "wire_depth_wf w \<Longrightarrow> rd8 4 (bytes_of_Depth w @ rest) = wd_msg_type w"
  using load_bytes_of_Depth [of w rest] by (metis WireDepth.select_convs(2) load_Depth_def)

lemma parse_depth_bytes:
  assumes "wire_depth_wf w"
  shows "parse_depth ex (bytes_of_Depth w @ rest) =
     (if wd_magic w = WIRE_MAGIC \<and> wd_msg_type w = WIRE_DEPTH then Some (event_of_Depth w) else None)"
proof -
  have "parse_depth ex buf = parse_internal_depth buf" for buf
    by (cases ex) (simp_all add: parse_depth_def)
  then show ?thesis using assms by (simp add: parse_internal_depth_def load_bytes_of_Depth Let_def)
qed

subsection \<open>A packet of messages\<close>

datatype wire_msg = Msg_bbo WireBBO | Msg_depth WireDepth

primrec msg_bytes :: "wire_msg \<Rightarrow> bytes" where
  "msg_bytes (Msg_bbo w) = bytes_of_BBO w"
| "msg_bytes (Msg_depth w) = bytes_of_Depth w"

primrec msg_ok :: "wire_msg \<Rightarrow> bool" where
  "msg_ok (Msg_bbo w) \<longleftrightarrow> wire_bbo_wf w \<and> is_bbo_type (wb_msg_type w)"
| "msg_ok (Msg_depth w) \<longleftrightarrow> wire_depth_wf w \<and> wd_msg_type w = WIRE_DEPTH"

text \<open>The events a packet carries: best quotes and trades, with the magic number checked except for Binance.\<close>

primrec msg_event :: "ExchangeType \<Rightarrow> wire_msg \<Rightarrow> BBOEvent option" where
  "msg_event ex (Msg_bbo w) =
     (if ex = BINANCE \<or> wb_magic w = WIRE_MAGIC then Some (event_of_BBO w) else None)"
| "msg_event ex (Msg_depth w) = None"

lemma parse_bbo_msg:
  "msg_ok (Msg_bbo w) \<Longrightarrow> parse_bbo ex (bytes_of_BBO w @ rest) = msg_event ex (Msg_bbo w)"
  by (cases ex) (simp_all add: parse_bbo_def parse_internal_bbo_bytes parse_binance_bbo_bytes)

lemma depth_type_not_bbo [simp]: "\<not> is_bbo_type WIRE_DEPTH"
  by (simp add: is_bbo_type_def WIRE_DEPTH_def WIRE_BBO_def WIRE_TRADE_def)

lemma parse_batch_room_0 [simp]: "parse_batch ex buf 0 = []"
  by (simp add: parse_batch.simps)

lemma parse_batch_unfold:
  assumes "SIZEOF_BBO \<le> length buf" and "0 < room"
  shows "parse_batch ex buf room =
    (if is_bbo_type (rd8 4 buf) then
       (case parse_bbo ex buf of Some e \<Rightarrow> e # parse_batch ex (drop SIZEOF_BBO buf) (room - 1)
        | None \<Rightarrow> parse_batch ex (drop SIZEOF_BBO buf) room)
     else if rd8 4 buf = WIRE_DEPTH then parse_batch ex (drop SIZEOF_DEPTH buf) room else [])"
proof -
  have "buf \<noteq> []" using assms(1) by (auto simp: SIZEOF_BBO_def)
  with assms show ?thesis by (subst parse_batch.simps) (simp add: Let_def)
qed

lemma parse_batch_cons:
  assumes "msg_ok m" and "0 < room"
  shows "parse_batch ex (msg_bytes m @ rest) room =
     (case msg_event ex m of Some e \<Rightarrow> e # parse_batch ex rest (room - 1) | None \<Rightarrow> parse_batch ex rest room)"
proof (cases m)
  case (Msg_bbo w)
  then have w: "wire_bbo_wf w" "is_bbo_type (wb_msg_type w)" "msg_ok (Msg_bbo w)" using assms(1) by simp_all
  then have "SIZEOF_BBO \<le> length (bytes_of_BBO w @ rest)" by simp
  from parse_batch_unfold [OF this assms(2)] show ?thesis
    using w Msg_bbo parse_bbo_msg [OF w(3), of ex rest] by (simp add: rd8_bytes_of_BBO)
next
  case (Msg_depth w)
  then have w: "wire_depth_wf w" "wd_msg_type w = WIRE_DEPTH" using assms(1) by simp_all
  then have "SIZEOF_BBO \<le> length (bytes_of_Depth w @ rest)"
    by (simp add: SIZEOF_BBO_def SIZEOF_DEPTH_def)
  from parse_batch_unfold [OF this assms(2)] show ?thesis
    using w Msg_depth by (simp add: rd8_bytes_of_Depth)
qed

lemma parse_batch_short: "length buf < SIZEOF_BBO \<Longrightarrow> parse_batch ex buf room = []"
  by (simp add: parse_batch.simps)

text \<open>
  A packet made of well-formed messages and a tail shorter than a message is parsed
  into exactly the best-quote and trade events of its messages, in order, cut at the size of the
  output array; depth messages are skipped by their own length, and messages with a wrong magic
  number yield no event except for Binance.
\<close>

theorem parse_batch_packet:
  assumes "list_all msg_ok ms" and "length tail < SIZEOF_BBO"
  shows "parse_batch ex (concat (map msg_bytes ms) @ tail) room = take room (List.map_filter (msg_event ex) ms)"
  using assms(1)
proof (induction ms arbitrary: room)
  case Nil
  then show ?case using assms(2) by (simp add: parse_batch_short List.map_filter_simps)
next
  case (Cons m ms)
  show ?case
  proof (cases room)
    case (Suc r)
    then show ?thesis using Cons parse_batch_cons [of m room ex "concat (map msg_bytes ms) @ tail"]
      by (simp add: List.map_filter_simps split: option.split)
  qed simp
qed

definition sample_bbo :: WireBBO where
  "sample_bbo = \<lparr>wb_magic = WIRE_MAGIC, wb_msg_type = WIRE_BBO, wb_pad = [0, 0, 0], wb_instrument_id = 7,
     wb_exchange_ts_ns = 1000, wb_bid_price = 100, wb_ask_price = 101, wb_bid_qty = 5, wb_ask_qty = 6\<rparr>"

definition sample_depth :: WireDepth where
  "sample_depth = \<lparr>wd_magic = WIRE_MAGIC, wd_msg_type = WIRE_DEPTH, wd_bid_levels = 9, wd_ask_levels = 2,
     wd_pad = [0], wd_instrument_id = 7, wd_exchange_ts_ns = 1000,
     wd_bids = map (\<lambda>i. \<lparr>lvl_price = 100 - i, lvl_qty = 3\<rparr>) [0, 1, 2, 3, 4],
     wd_asks = map (\<lambda>i. \<lparr>lvl_price = 101 + i, lvl_qty = 3\<rparr>) [0, 1, 2, 3, 4]\<rparr>"

lemma sample_ok:
  "msg_ok (Msg_bbo sample_bbo)" "msg_ok (Msg_depth sample_depth)" "wire_depth_wf sample_depth"
  by (simp_all add: sample_bbo_def sample_depth_def wire_bbo_wf_def wire_depth_wf_def level_wf_def in_i64_def
      is_bbo_type_def MARKET_DEPTH_def)

lemma parse_batch_packet_witness:
  "parse_batch INTERNAL (concat (map msg_bytes [Msg_bbo sample_bbo, Msg_depth sample_depth, Msg_bbo sample_bbo]) @ [1, 2]) 64
     = [event_of_BBO sample_bbo, event_of_BBO sample_bbo]"
  using parse_batch_packet [of "[Msg_bbo sample_bbo, Msg_depth sample_depth, Msg_bbo sample_bbo]" "[1, 2]" INTERNAL 64]
    sample_ok
  by (simp add: SIZEOF_BBO_def List.map_filter_simps sample_bbo_def)

subsection \<open>Parsed depth and the book\<close>

lemma depth_count_le: "unat (depth_count n) \<le> MARKET_DEPTH"
  by (simp add: depth_count_def MARKET_DEPTH_def)

lemma length_event_levels [simp]: "length (event_levels n ls) = MARKET_DEPTH"
  by (simp add: event_levels_def)

lemma parse_depth_Some:
  "parse_depth ex buf = Some e \<Longrightarrow> e = event_of_Depth (load_Depth buf)"
  by (cases ex) (simp_all add: parse_depth_def parse_internal_depth_def Let_def split: if_splits)

lemma event_levels_beyond: "unat n \<le> i \<Longrightarrow> i < MARKET_DEPTH \<Longrightarrow> event_levels n ls ! i = level0"
  by (simp add: event_levels_def)

lemma parsed_depth_wf:
  assumes "parse_depth ex buf = Some e"
  shows "depth_wf e" and "unat (dep_bid_levels e) \<le> MARKET_DEPTH" and "unat (dep_ask_levels e) \<le> MARKET_DEPTH"
  using parse_depth_Some [OF assms] depth_count_le by (simp_all add: event_of_Depth_def depth_wf_def Let_def)

lemma snapshot_of_event_levels:
  assumes "unat n \<le> MARKET_DEPTH"
  shows "snapshot_levels (unat n) (take (unat n) (event_levels n ls) @ ys) = event_levels n ls"
proof (rule nth_equalityI)
  fix i assume "i < length (snapshot_levels (unat n) (take (unat n) (event_levels n ls) @ ys))"
  then have i: "i < MARKET_DEPTH" by (simp add: snapshot_levels_def)
  then show "snapshot_levels (unat n) (take (unat n) (event_levels n ls) @ ys) ! i = event_levels n ls ! i"
    using assms by (cases "i < unat n") (simp_all add: snapshot_levels_def nth_append event_levels_beyond)
qed (simp add: snapshot_levels_def)

text \<open>
  Whatever bytes arrive, a depth message that parses can be applied to the books without
  leaving any array, and the depth snapshot of its instrument is then the parsed event itself, but
  for the time stamp the book does not keep.
\<close>

theorem parsed_depth_applies:
  assumes "bb_wf bs" and "parse_depth ex buf = Some e"
  shows "\<exists>bs' b. bb_on_depth e bs = Inr bs' \<and> bb_wf bs' \<and> bb_find (dep_instrument_id e) bs' = Some b
    \<and> snapshot_depth b = e\<lparr>dep_ts_ns := 0\<rparr>"
proof -
  obtain bs1 b0 where g: "get_or_create (dep_instrument_id e) bs = (bs1, b0)" by force
  note w = get_or_create_wf [OF assms(1) g]
  note pw = parsed_depth_wf [OF assms(2)]
  let ?nb = "unat (dep_bid_levels e)" and ?na = "unat (dep_ask_levels e)"
  have c: "clamp_levels (dep_bid_levels e) = ?nb" "clamp_levels (dep_ask_levels e) = ?na"
    using pw(2,3) by (simp_all add: clamp_levels_def MAX_LEVELS_def MARKET_DEPTH_def)
  have len: "length (dep_bids e) = MARKET_DEPTH" "length (dep_asks e) = MARKET_DEPTH"
    using pw(1) by (simp_all add: depth_wf_def)
  let ?b = "b0\<lparr>ob_bids := take ?nb (dep_bids e) @ drop ?nb (ob_bids b0),
    ob_asks := take ?na (dep_asks e) @ drop ?na (ob_asks b0), ob_bid_count := ?nb, ob_ask_count := ?na\<rparr>"
  have d: "apply_depth e b0 = Inr ?b" using w(2) pw(2,3) len by (simp add: apply_depth_eq c Let_def)
  have o: "bb_on_depth e bs = Inr (bs1(dep_instrument_id e \<mapsto> ?b))" by (simp add: bb_on_depth_def g d)
  have wf': "bb_wf (bs1(dep_instrument_id e \<mapsto> ?b))"
    using w(1,3) apply_depth_wf [OF w(2) d] by (auto simp: bb_wf_def)
  have n: "snapshot_count ?nb = ?nb" "snapshot_count ?na = ?na"
    using pw(2,3) by (simp_all add: snapshot_count_def)
  obtain wd where e: "e = event_of_Depth wd" using parse_depth_Some [OF assms(2)] by blast
  have "dep_bids e = event_levels (dep_bid_levels e) (wd_bids wd)"
    "dep_asks e = event_levels (dep_ask_levels e) (wd_asks wd)"
    by (simp_all add: e event_of_Depth_def Let_def)
  then have "snapshot_levels ?nb (take ?nb (dep_bids e) @ drop ?nb (ob_bids b0)) = dep_bids e"
    "snapshot_levels ?na (take ?na (dep_asks e) @ drop ?na (ob_asks b0)) = dep_asks e"
    using snapshot_of_event_levels [OF pw(2)] snapshot_of_event_levels [OF pw(3)] by metis+
  then have s: "snapshot_depth ?b = e\<lparr>dep_ts_ns := 0\<rparr>"
    using w(3) by (simp add: snapshot_depth_def n Let_def depth0_def)
  show ?thesis
    using o wf' s by (intro exI [of _ "bs1(dep_instrument_id e \<mapsto> ?b)"] exI [of _ ?b]) (simp add: bb_find_def)
qed

lemma parsed_depth_applies_witness:
  "\<exists>bs' b. bb_on_depth (event_of_Depth sample_depth) Map.empty = Inr bs' \<and> bb_find 7 bs' = Some b
    \<and> snapshot_depth b = (event_of_Depth sample_depth)\<lparr>dep_ts_ns := 0\<rparr>"
proof -
  have p: "parse_depth INTERNAL (bytes_of_Depth sample_depth @ []) = Some (event_of_Depth sample_depth)"
    using parse_depth_bytes [OF sample_ok(3), of INTERNAL "[]"] by (simp add: sample_depth_def)
  have "dep_instrument_id (event_of_Depth sample_depth) = 7"
    by (simp add: event_of_Depth_def sample_depth_def Let_def)
  then show ?thesis
    using parsed_depth_applies [OF _ p, of Map.empty] by (auto simp: bb_wf_def)
qed

end
