(* ===== verification/Feed.thy ===== *)
theory Feed
  imports Normalizer Spsc_Queue "HOL-Library.Sublist"
begin

text \<open>
  \<^verbatim>\<open>src/market_data/feed_handler.cpp\<close>: the receive loop of the market data thread.  A poll of the
  socket is an input: the clock reading and the packets it returned (none for a timeout), each cut
  at the size of its buffer.  The ring to the strategy thread is \<open>Spsc_Queue\<close>; calls of the
  registered callback are recorded in order.
\<close>

subsection \<open>FeedHandler\<close>

definition BATCH_SIZE :: nat where "BATCH_SIZE = 64"
definition QUEUE_DEPTH :: nat where "QUEUE_DEPTH = 4096"
definition MAX_PKT_BYTES :: nat where "MAX_PKT_BYTES = 2048"

record feed =
  fh_exchange :: ExchangeType
  fh_bbo_queue :: "BBOEvent spsc"
  fh_has_callback :: bool
  fh_called :: "BBOEvent list"
  fh_rx_pkts :: u64
  fh_rx_msgs :: u64
  fh_dropped :: u64

definition feed_new :: "ExchangeType \<Rightarrow> BBOEvent list \<Rightarrow> bool \<Rightarrow> feed" where
  "feed_new ex mem cb = \<lparr>fh_exchange = ex, fh_bbo_queue = spsc_new mem, fh_has_callback = cb,
     fh_called = [], fh_rx_pkts = 0, fh_rx_msgs = 0, fh_dropped = 0\<rparr>"

definition fh_deliver :: "u64 \<Rightarrow> BBOEvent \<Rightarrow> feed \<Rightarrow> feed" where
  "fh_deliver local_ts ev f =
     (let e = ev\<lparr>local_ts_ns := local_ts\<rparr>;
          f1 = (if fh_has_callback f then f\<lparr>fh_called := fh_called f @ [e]\<rparr> else f);
          (q, ok) = spsc_push QUEUE_DEPTH e (fh_bbo_queue f1);
          f2 = f1\<lparr>fh_bbo_queue := q\<rparr>
      in if \<not> ok then f2\<lparr>fh_dropped := fh_dropped f2 + 1\<rparr> else f2)"

definition process_packet :: "u64 \<Rightarrow> bytes \<Rightarrow> feed \<Rightarrow> feed" where
  "process_packet local_ts buf f =
     (let events = parse_batch (fh_exchange f) buf BATCH_SIZE;
          f1 = fold (fh_deliver local_ts) events f
      in f1\<lparr>fh_rx_msgs := fh_rx_msgs f1 + of_nat (length events)\<rparr>)"

text \<open>One iteration of the loop: \<open>recvmmsg\<close> returned \<open>pkts\<close>.\<close>

definition recv_poll :: "u64 \<Rightarrow> bytes list \<Rightarrow> feed \<Rightarrow> feed" where
  "recv_poll local_ts pkts f =
     (if pkts = [] then f
      else let f1 = f\<lparr>fh_rx_pkts := fh_rx_pkts f + of_nat (length pkts)\<rparr>
           in fold (\<lambda>p. process_packet local_ts (take MAX_PKT_BYTES p)) pkts f1)"

definition pop_bbo :: "feed \<Rightarrow> feed \<times> BBOEvent option" where
  "pop_bbo f = (let (q, r) = spsc_pop QUEUE_DEPTH (fh_bbo_queue f) in (f\<lparr>fh_bbo_queue := q\<rparr>, r))"

datatype feed_op = Poll u64 "bytes list" | Consume

text \<open>A run of polls of the market data thread and of \<open>pop_bbo\<close> calls, and what the calls delivered.\<close>

fun feed_run :: "feed_op list \<Rightarrow> feed \<Rightarrow> feed \<times> BBOEvent list" where
  "feed_run [] f = (f, [])"
| "feed_run (Poll ts pkts # ops) f = feed_run ops (recv_poll ts pkts f)"
| "feed_run (Consume # ops) f =
     (let (f1, r) = pop_bbo f; (f2, out) = feed_run ops f1
      in (f2, case r of None \<Rightarrow> out | Some e \<Rightarrow> e # out))"

subsection \<open>A packet never holds more events than a batch\<close>

lemma length_parse_batch: "SIZEOF_BBO * length (parse_batch ex buf room) \<le> length buf"
proof (induction ex buf room rule: parse_batch.induct)
  case (1 ex buf room)
  show ?case
  proof (cases "SIZEOF_BBO \<le> length buf \<and> 0 < room")
    case True
    then have ne: "\<not> (buf = [] \<or> room = 0)" "\<not> length buf < SIZEOF_BBO" by (auto simp: SIZEOF_BBO_def)
    show ?thesis
      using True 1 [OF ne refl] by (auto simp: parse_batch_unfold split: option.split)
  next
    case False
    then show ?thesis by (auto simp: parse_batch_short not_le)
  qed
qed

lemma parse_batch_room:
  "length buf < SIZEOF_BBO * Suc room \<Longrightarrow> room \<le> r \<Longrightarrow> parse_batch ex buf r = parse_batch ex buf room"
proof (induction ex buf room arbitrary: r rule: parse_batch.induct)
  case (1 ex buf room)
  show ?case
  proof (cases "SIZEOF_BBO \<le> length buf")
    case True
    then have pos: "0 < room" using 1(4) by (cases room) simp_all
    then have ne: "\<not> (buf = [] \<or> room = 0)" "\<not> length buf < SIZEOF_BBO" using True by (auto simp: SIZEOF_BBO_def)
    have l: "length (drop SIZEOF_BBO buf) < SIZEOF_BBO * Suc (room - 1)"
      "length (drop SIZEOF_BBO buf) < SIZEOF_BBO * Suc room"
      "length (drop SIZEOF_DEPTH buf) < SIZEOF_BBO * Suc room"
      using 1(4) True pos by (auto simp: SIZEOF_BBO_def)
    have r: "0 < r" "room - 1 \<le> r - 1" using pos 1(5) by simp_all
    show ?thesis
      unfolding parse_batch_unfold [OF True pos] parse_batch_unfold [OF True r(1)]
      using 1(1) [OF ne refl _ _ l(2) 1(5)] 1(2) [OF ne refl _ _ l(1) r(2)] 1(3) [OF ne refl _ _ l(3) 1(5)]
      by (auto split: option.split)
  qed (simp add: parse_batch_short)
qed

lemma batch_not_cut: "parse_batch ex (take MAX_PKT_BYTES p) BATCH_SIZE = parse_batch ex (take MAX_PKT_BYTES p) 39"
  by (rule parse_batch_room) (simp_all add: SIZEOF_BBO_def MAX_PKT_BYTES_def BATCH_SIZE_def)

subsection \<open>Nothing is lost without being counted\<close>

abbreviation feed_contents :: "feed \<Rightarrow> BBOEvent list" where
  "feed_contents f \<equiv> spsc_contents QUEUE_DEPTH (fh_bbo_queue f)"

text \<open>
  What a stretch of execution did: \<open>evs\<close> were parsed, \<open>acc\<close> of them accepted by the ring, \<open>out\<close> popped;
  \<open>nm\<close> messages and \<open>np\<close> packets were counted.
\<close>

definition feed_moves ::
  "feed \<Rightarrow> BBOEvent list \<Rightarrow> BBOEvent list \<Rightarrow> BBOEvent list \<Rightarrow> nat \<Rightarrow> nat \<Rightarrow> feed \<Rightarrow> bool" where
  "feed_moves f evs acc out nm np f' \<longleftrightarrow>
     spsc_wf QUEUE_DEPTH (fh_bbo_queue f') \<and> fh_exchange f' = fh_exchange f \<and> fh_has_callback f' = fh_has_callback f
     \<and> feed_contents f @ acc = out @ feed_contents f' \<and> subseq acc evs
     \<and> fh_called f' = fh_called f @ (if fh_has_callback f then evs else [])
     \<and> fh_dropped f' = fh_dropped f + of_nat (length evs - length acc)
     \<and> fh_rx_msgs f' = fh_rx_msgs f + of_nat nm \<and> fh_rx_pkts f' = fh_rx_pkts f + of_nat np
     \<and> (length (feed_contents f) + length evs \<le> QUEUE_DEPTH \<longrightarrow> acc = evs)"

lemma feed_moves_refl:
  "spsc_wf QUEUE_DEPTH (fh_bbo_queue f) \<Longrightarrow> feed_moves f [] [] [] 0 0 f"
  by (simp add: feed_moves_def)

lemma feed_moves_trans:
  assumes a: "feed_moves f e1 a1 o1 m1 p1 g" and b: "feed_moves g e2 a2 o2 m2 p2 h"
  shows "feed_moves f (e1 @ e2) (a1 @ a2) (o1 @ o2) (m1 + m2) (p1 + p2) h"
proof -
  have len: "length a1 \<le> length e1" "length a2 \<le> length e2"
    using a b by (auto simp: feed_moves_def intro: list_emb_length)
  have c: "feed_contents f @ a1 @ a2 = (o1 @ o2) @ feed_contents h"
    using a b unfolding feed_moves_def by (metis append.assoc)
  have "length (feed_contents f) + length a1 = length o1 + length (feed_contents g)"
    using a unfolding feed_moves_def by (metis length_append)
  then have "length (feed_contents g) \<le> length (feed_contents f) + length a1" by linarith
  then have n: "a1 @ a2 = e1 @ e2" if "length (feed_contents f) + length (e1 @ e2) \<le> QUEUE_DEPTH"
    using that a b len unfolding feed_moves_def by auto
  have d: "length (e1 @ e2) - length (a1 @ a2) = (length e1 - length a1) + (length e2 - length a2)"
    using len by simp
  show ?thesis
    using a b c n d unfolding feed_moves_def
    by (simp add: list_emb_append_mono add.assoc)
qed

lemma feed_moves_deliver:
  assumes "spsc_wf QUEUE_DEPTH (fh_bbo_queue f)"
  shows "\<exists>acc. feed_moves f [ev\<lparr>local_ts_ns := ts\<rparr>] acc [] 0 0 (fh_deliver ts ev f)"
proof -
  let ?e = "ev\<lparr>local_ts_ns := ts\<rparr>"
  let ?ok = "length (feed_contents f) < QUEUE_DEPTH"
  obtain q ok where p: "spsc_push QUEUE_DEPTH ?e (fh_bbo_queue f) = (q, ok)" by force
  have ok: "ok \<longleftrightarrow> ?ok" using ring.push_ok [OF assms, of ?e] p by simp
  have w: "spsc_wf QUEUE_DEPTH q" using ring.push_wf [OF assms, of ?e] p by simp
  have c: "spsc_contents QUEUE_DEPTH q = (if ?ok then feed_contents f @ [?e] else feed_contents f)"
    using ring.push_contents [OF assms, of ?e] p by simp
  have "feed_moves f [?e] (if ?ok then [?e] else []) [] 0 0 (fh_deliver ts ev f)"
    using p ok w c by (cases "fh_has_callback f"; cases ok) (simp_all add: feed_moves_def fh_deliver_def Let_def)
  then show ?thesis by blast
qed

lemma feed_moves_wf: "feed_moves f evs acc out nm np f' \<Longrightarrow> spsc_wf QUEUE_DEPTH (fh_bbo_queue f')"
  by (simp add: feed_moves_def)

lemma feed_moves_delivers:
  "spsc_wf QUEUE_DEPTH (fh_bbo_queue f) \<Longrightarrow>
   \<exists>acc. feed_moves f (map (\<lambda>e. e\<lparr>local_ts_ns := ts\<rparr>) evs) acc [] 0 0 (fold (fh_deliver ts) evs f)"
proof (induction evs arbitrary: f)
  case Nil
  then show ?case using feed_moves_refl by auto
next
  case (Cons e evs)
  from feed_moves_deliver [OF Cons.prems, where ev = e and ts = ts]
  obtain a1 where a1: "feed_moves f [e\<lparr>local_ts_ns := ts\<rparr>] a1 [] 0 0 (fh_deliver ts e f)" by blast
  from Cons.IH [OF feed_moves_wf [OF a1]]
  obtain a2 where "feed_moves (fh_deliver ts e f) (map (\<lambda>e. e\<lparr>local_ts_ns := ts\<rparr>) evs) a2 [] 0 0
      (fold (fh_deliver ts) evs (fh_deliver ts e f))" by blast
  from feed_moves_trans [OF a1 this] show ?case by (metis append_Cons append_Nil add_0 fold_simps(2) list.simps(9))
qed

definition packet_events :: "ExchangeType \<Rightarrow> u64 \<Rightarrow> bytes \<Rightarrow> BBOEvent list" where
  "packet_events ex ts p = map (\<lambda>e. e\<lparr>local_ts_ns := ts\<rparr>) (parse_batch ex (take MAX_PKT_BYTES p) BATCH_SIZE)"

lemma feed_moves_packet:
  assumes "spsc_wf QUEUE_DEPTH (fh_bbo_queue f)"
  shows "\<exists>acc. feed_moves f (packet_events (fh_exchange f) ts p) acc []
    (length (packet_events (fh_exchange f) ts p)) 0 (process_packet ts (take MAX_PKT_BYTES p) f)"
  using feed_moves_delivers [OF assms, of ts "parse_batch (fh_exchange f) (take MAX_PKT_BYTES p) BATCH_SIZE"]
  by (auto simp: feed_moves_def process_packet_def packet_events_def Let_def)

lemma feed_moves_packets:
  "spsc_wf QUEUE_DEPTH (fh_bbo_queue f) \<Longrightarrow>
   \<exists>acc. feed_moves f (concat (map (packet_events (fh_exchange f) ts) pkts)) acc []
     (length (concat (map (packet_events (fh_exchange f) ts) pkts))) 0
     (fold (\<lambda>p. process_packet ts (take MAX_PKT_BYTES p)) pkts f)"
proof (induction pkts arbitrary: f)
  case Nil
  then show ?case using feed_moves_refl by auto
next
  case (Cons p pkts)
  let ?g = "process_packet ts (take MAX_PKT_BYTES p) f"
  from feed_moves_packet [OF Cons.prems, of ts p] obtain a1 where
    a1: "feed_moves f (packet_events (fh_exchange f) ts p) a1 [] (length (packet_events (fh_exchange f) ts p)) 0 ?g"
    by blast
  then have ex: "fh_exchange ?g = fh_exchange f" by (simp add: feed_moves_def)
  from Cons.IH [OF feed_moves_wf [OF a1]] obtain a2 where
    "feed_moves ?g (concat (map (packet_events (fh_exchange f) ts) pkts)) a2 []
     (length (concat (map (packet_events (fh_exchange f) ts) pkts))) 0
     (fold (\<lambda>p. process_packet ts (take MAX_PKT_BYTES p)) pkts ?g)" unfolding ex by blast
  from feed_moves_trans [OF a1 this] show ?case by auto
qed

fun op_events :: "ExchangeType \<Rightarrow> feed_op \<Rightarrow> BBOEvent list" where
  "op_events ex (Poll ts pkts) = concat (map (packet_events ex ts) pkts)"
| "op_events ex Consume = []"

fun op_packets :: "feed_op \<Rightarrow> nat" where
  "op_packets (Poll ts pkts) = length pkts"
| "op_packets Consume = 0"

lemma feed_moves_poll:
  assumes "spsc_wf QUEUE_DEPTH (fh_bbo_queue f)"
  shows "\<exists>acc. feed_moves f (op_events (fh_exchange f) (Poll ts pkts)) acc []
     (length (op_events (fh_exchange f) (Poll ts pkts))) (length pkts) (recv_poll ts pkts f)"
proof (cases "pkts = []")
  case True
  then show ?thesis using feed_moves_refl [OF assms] by (auto simp: recv_poll_def)
next
  case False
  let ?g = "f\<lparr>fh_rx_pkts := fh_rx_pkts f + of_nat (length pkts)\<rparr>"
  have "feed_moves f [] [] [] 0 (length pkts) ?g" using assms by (simp add: feed_moves_def)
  moreover obtain acc where "feed_moves ?g (concat (map (packet_events (fh_exchange f) ts) pkts)) acc []
     (length (concat (map (packet_events (fh_exchange f) ts) pkts))) 0
     (fold (\<lambda>p. process_packet ts (take MAX_PKT_BYTES p)) pkts ?g)"
    using feed_moves_packets [of ?g ts pkts] assms by auto
  ultimately show ?thesis using False feed_moves_trans by (fastforce simp: recv_poll_def)
qed

lemma feed_moves_pop:
  assumes "spsc_wf QUEUE_DEPTH (fh_bbo_queue f)"
  shows "feed_moves f [] [] (case snd (pop_bbo f) of None \<Rightarrow> [] | Some e \<Rightarrow> [e]) 0 0 (fst (pop_bbo f))"
proof -
  obtain q r where p: "spsc_pop QUEUE_DEPTH (fh_bbo_queue f) = (q, r)" by force
  have "spsc_wf QUEUE_DEPTH q" using ring.pop_wf [OF assms] p by simp
  moreover have "feed_contents f = (case r of None \<Rightarrow> [] | Some e \<Rightarrow> [e]) @ spsc_contents QUEUE_DEPTH q"
    using ring.pop_value [OF assms] ring.pop_contents [OF assms] p by (cases "feed_contents f") auto
  ultimately show ?thesis by (simp add: feed_moves_def pop_bbo_def p)
qed

text \<open>
  Claim C28. Over any sequence of receive polls and \<open>pop_bbo\<close> calls: the consumer obtains, in order,
  a part of the events the packets hold, each with the clock reading of its poll; what is neither
  obtained nor still in the ring is counted in \<open>dropped\<close>; no packet is cut by the batch size; the
  callback sees every event once, in order; and nothing is dropped while the ring's 4096 slots suffice.
\<close>

theorem feed_conserves_events:
  assumes "spsc_wf QUEUE_DEPTH (fh_bbo_queue f)" and "feed_run ops f = (f', out)"
  shows "\<exists>acc. feed_moves f (concat (map (op_events (fh_exchange f)) ops)) acc out
    (length (concat (map (op_events (fh_exchange f)) ops))) (\<Sum>op\<leftarrow>ops. op_packets op) f'"
  using assms
proof (induction ops arbitrary: f out)
  case Nil
  then show ?case using feed_moves_refl by auto
next
  case (Cons op ops)
  show ?case
  proof (cases op)
    case (Poll ts pkts)
    let ?g = "recv_poll ts pkts f"
    obtain a1 where a1: "feed_moves f (op_events (fh_exchange f) op) a1 []
      (length (op_events (fh_exchange f) op)) (length pkts) ?g"
      using feed_moves_poll [OF Cons.prems(1)] Poll by blast
    then have ex: "fh_exchange ?g = fh_exchange f" by (simp add: feed_moves_def)
    have "feed_run ops ?g = (f', out)" using Cons.prems(2) Poll by simp
    from Cons.IH [OF feed_moves_wf [OF a1] this] obtain a2 where
      "feed_moves ?g (concat (map (op_events (fh_exchange f)) ops)) a2 out
        (length (concat (map (op_events (fh_exchange f)) ops))) (\<Sum>op\<leftarrow>ops. op_packets op) f'" unfolding ex by blast
    from feed_moves_trans [OF a1 this] Poll show ?thesis by auto
  next
    case Consume
    obtain g r where p: "pop_bbo f = (g, r)" by force
    obtain out2 where r: "feed_run ops g = (f', out2)" and out: "out = (case r of None \<Rightarrow> [] | Some e \<Rightarrow> [e]) @ out2"
      using Cons.prems(2) Consume p by (auto split: prod.splits option.splits)
    have a1: "feed_moves f [] [] (case r of None \<Rightarrow> [] | Some e \<Rightarrow> [e]) 0 0 g"
      using feed_moves_pop [OF Cons.prems(1)] p by simp
    then have ex: "fh_exchange g = fh_exchange f" by (simp add: feed_moves_def)
    from Cons.IH [OF feed_moves_wf [OF a1] r] obtain a2 where
      "feed_moves g (concat (map (op_events (fh_exchange f)) ops)) a2 out2
        (length (concat (map (op_events (fh_exchange f)) ops))) (\<Sum>op\<leftarrow>ops. op_packets op) f'" unfolding ex by blast
    from feed_moves_trans [OF a1 this] Consume out show ?thesis by auto
  qed
qed

lemma feed_conserves_events_witness:
  "\<exists>f' out. feed_run [Poll 9 [bytes_of_BBO sample_bbo], Consume, Consume] (feed_new INTERNAL (replicate QUEUE_DEPTH bbo0) True)
     = (f', out) \<and> out @ feed_contents f' = [event_of_BBO sample_bbo\<lparr>local_ts_ns := 9\<rparr>] \<and> fh_dropped f' = 0"
proof -
  let ?f = "feed_new INTERNAL (replicate QUEUE_DEPTH bbo0) True"
  let ?ops = "[Poll 9 [bytes_of_BBO sample_bbo], Consume, Consume]"
  let ?e = "event_of_BBO sample_bbo\<lparr>local_ts_ns := 9\<rparr>"
  obtain f' out where r: "feed_run ?ops ?f = (f', out)" by force
  have "pow2 QUEUE_DEPTH" unfolding pow2_def by (rule exI [of _ 12]) (simp add: QUEUE_DEPTH_def)
  then have w: "spsc_wf QUEUE_DEPTH (fh_bbo_queue ?f)" by (simp add: feed_new_def spsc_new_wf)
  have b: "wire_bbo_wf sample_bbo" using sample_ok(1) by simp
  have "parse_batch INTERNAL (bytes_of_BBO sample_bbo @ []) 64 = [event_of_BBO sample_bbo]"
    using parse_batch_cons [OF sample_ok(1), of 64 INTERNAL "[]"]
    by (simp add: parse_batch_short SIZEOF_BBO_def) (simp add: sample_bbo_def)
  moreover have "take MAX_PKT_BYTES (bytes_of_BBO sample_bbo) = bytes_of_BBO sample_bbo"
    using length_bytes_of_BBO [OF b] by (simp add: MAX_PKT_BYTES_def SIZEOF_BBO_def)
  ultimately have e: "concat (map (op_events INTERNAL) ?ops) = [?e]"
    by (simp add: packet_events_def BATCH_SIZE_def)
  have ex: "fh_exchange ?f = INTERNAL" and c: "feed_contents ?f = []" and d: "fh_dropped ?f = 0"
    by (simp_all add: feed_new_def)
  have q: "1 \<le> QUEUE_DEPTH" by (simp add: QUEUE_DEPTH_def)
  from feed_conserves_events [OF w r] obtain acc where
    m: "feed_moves ?f [?e] acc out (length [?e]) (\<Sum>op\<leftarrow>?ops. op_packets op) f'" unfolding ex e by blast
  have a: "acc = [?e]" using m q unfolding feed_moves_def c by (metis (no_types) One_nat_def add_0 length_Cons list.size(3))
  have "out @ feed_contents f' = feed_contents ?f @ acc" using m unfolding feed_moves_def by metis
  moreover have "fh_dropped f' = fh_dropped ?f + of_nat (length [?e] - length acc)"
    using m unfolding feed_moves_def by blast
  ultimately have "out @ feed_contents f' = [?e] \<and> fh_dropped f' = 0" by (simp only: a c d) simp
  then show ?thesis using r by blast
qed

end
