(* ===== verification/Pcap.thy ===== *)
theory Pcap
  imports Normalizer
begin

text \<open>
  \<^verbatim>\<open>src/market_data/pcap_replayer.cpp\<close>: replaying a capture file.  The file is a byte string, of which
  \<open>fread\<close> takes what it can and \<open>fseek\<close> drops; the packet buffer keeps its bytes between packets, as
  the array on the stack does.  The \<open>running_\<close> flag, which another thread may clear, is a function of
  the number of the iteration; the sleeps of the real-time mode have no effect on the state.
\<close>

subsection \<open>PcapReplayer\<close>

definition PCAP_MAGIC_LE :: u32 where "PCAP_MAGIC_LE = 0xa1b2c3d4"
definition PCAP_MAGIC_NS :: u32 where "PCAP_MAGIC_NS = 0xa1b23c4d"
definition PCAP_MAGIC_BE_LE :: u32 where "PCAP_MAGIC_BE_LE = 0xd4c3b2a1"
definition L2L3L4_OFFSET :: nat where "L2L3L4_OFFSET = 14 + 20 + 8"
definition PKT_BUF_SIZE :: nat where "PKT_BUF_SIZE = 65536"

datatype pcap_event = Ev_bbo BBOEvent | Ev_depth DepthEvent

record pcap =
  pr_exchange :: ExchangeType
  pr_nano_ts :: bool
  pr_swap_endian :: bool
  pr_pkt_buf :: bytes
  pr_has_bbo_cb :: bool
  pr_has_depth_cb :: bool
  pr_log :: "pcap_event list"
  pr_pkts_replayed :: u64
  pr_msgs_replayed :: u64
  pr_parse_errors :: u64

definition pcap_open :: "bytes option \<Rightarrow> pcap \<Rightarrow> pcap \<times> bytes option" where
  "pcap_open file p = (case file of None \<Rightarrow> (p, None)
     | Some bs \<Rightarrow>
         if length bs < 24 then (p, None)
         else if rd32 0 bs = PCAP_MAGIC_LE then
           (p\<lparr>pr_nano_ts := False, pr_swap_endian := False\<rparr>, Some (drop 24 bs))
         else if rd32 0 bs = PCAP_MAGIC_NS then
           (p\<lparr>pr_nano_ts := True, pr_swap_endian := False\<rparr>, Some (drop 24 bs))
         else if rd32 0 bs = PCAP_MAGIC_BE_LE then
           (p\<lparr>pr_nano_ts := False, pr_swap_endian := True\<rparr>, Some (drop 24 bs))
         else (p, None))"

text \<open>\<open>payload[4]\<close> is read from the whole buffer, before the length of the payload is checked.\<close>

definition dispatch_payload :: "nat \<Rightarrow> u64 \<Rightarrow> pcap \<Rightarrow> pcap" where
  "dispatch_payload len pkt_ts_ns p =
     (if len < 1 then p
      else let payload = drop L2L3L4_OFFSET (pr_pkt_buf p); msg_type = rd8 4 payload in
        if msg_type = WIRE_BBO \<or> msg_type = WIRE_TRADE then
          (case parse_bbo (pr_exchange p) (take len payload) of
             Some e \<Rightarrow> let p1 = p\<lparr>pr_msgs_replayed := pr_msgs_replayed p + 1\<rparr> in
               if pr_has_bbo_cb p1 then p1\<lparr>pr_log := pr_log p1 @ [Ev_bbo (e\<lparr>local_ts_ns := pkt_ts_ns\<rparr>)]\<rparr> else p1
           | None \<Rightarrow> p\<lparr>pr_parse_errors := pr_parse_errors p + 1\<rparr>)
        else if msg_type = WIRE_DEPTH then
          (case parse_depth (pr_exchange p) (take len payload) of
             Some e \<Rightarrow> let p1 = p\<lparr>pr_msgs_replayed := pr_msgs_replayed p + 1\<rparr> in
               if pr_has_depth_cb p1 then p1\<lparr>pr_log := pr_log p1 @ [Ev_depth (e\<lparr>dep_ts_ns := pkt_ts_ns\<rparr>)]\<rparr> else p1
           | None \<Rightarrow> p\<lparr>pr_parse_errors := pr_parse_errors p + 1\<rparr>)
        else p)"

record pcap_pkt_header =
  ph_ts_sec :: u32
  ph_ts_usec :: u32
  ph_incl_len :: u32
  ph_orig_len :: u32

definition load_pkt_header :: "bool \<Rightarrow> bytes \<Rightarrow> pcap_pkt_header" where
  "load_pkt_header sw bs =
     (let fix = (\<lambda>v. if sw then bswap32 v else v)
      in \<lparr>ph_ts_sec = fix (rd32 0 bs), ph_ts_usec = fix (rd32 4 bs),
          ph_incl_len = fix (rd32 8 bs), ph_orig_len = fix (rd32 12 bs)\<rparr>)"

definition pkt_timestamp :: "bool \<Rightarrow> u32 \<Rightarrow> u32 \<Rightarrow> u64" where
  "pkt_timestamp nano sec usec =
     (if nano then ucast sec * 1000000000 + ucast usec else ucast sec * 1000000000 + ucast usec * 1000)"

text \<open>The body of the loop once the packet's bytes are in the buffer.\<close>

definition replay_packet :: "pcap_pkt_header \<Rightarrow> pcap \<Rightarrow> pcap" where
  "replay_packet ph p =
     (let read_len = unat (ph_incl_len ph);
          ts = pkt_timestamp (pr_nano_ts p) (ph_ts_sec ph) (ph_ts_usec ph);
          p1 = p\<lparr>pr_pkts_replayed := pr_pkts_replayed p + 1\<rparr>
      in if read_len \<le> L2L3L4_OFFSET then p1 else dispatch_payload (read_len - L2L3L4_OFFSET) ts p1)"

function replay_loop :: "(nat \<Rightarrow> bool) \<Rightarrow> nat \<Rightarrow> bytes \<Rightarrow> pcap \<Rightarrow> pcap" where
  "replay_loop running i file p =
     (if \<not> running i then p
      else if length file < 16 then p
      else let ph = load_pkt_header (pr_swap_endian p) file; body = drop 16 file;
               read_len = unat (ph_incl_len ph) in
        if read_len > PKT_BUF_SIZE then replay_loop running (Suc i) (drop read_len body) p
        else if length body < read_len then p
        else let p1 = p\<lparr>pr_pkt_buf := take read_len body @ drop read_len (pr_pkt_buf p)\<rparr>
             in replay_loop running (Suc i) (drop read_len body) (replay_packet ph p1))"
  by pat_completeness auto
termination
  by (relation "measure (\<lambda>(running, i, file, p). length file)") auto

declare replay_loop.simps [simp del]

definition pcap_replay :: "(nat \<Rightarrow> bool) \<Rightarrow> bytes option \<Rightarrow> pcap \<Rightarrow> pcap \<times> bool" where
  "pcap_replay running file p =
     (let (p1, opened) = pcap_open file p in
      case opened of None \<Rightarrow> (p1, False) | Some rest \<Rightarrow> (replay_loop running 0 rest p1, True))"

subsection \<open>Capture files of either byte order\<close>

lemma byte_of_word: "(of_nat (unat (w :: u32) div 2 ^ k) :: u8) = ucast (drop_bit k w)"
  by (rule bit_word_eqI) (simp add: drop_bit_eq_div [symmetric] bit_simps)

lemma nat_bytes_4: "nat_bytes 4 v = [of_nat v, of_nat (v div 2 ^ 8), of_nat (v div 2 ^ 16), of_nat (v div 2 ^ 24)]"
proof -
  have "nat_bytes 4 v = nat_bytes (Suc (Suc (Suc (Suc 0)))) v" by (rule arg_cong2 [where f = nat_bytes]) simp_all
  then show ?thesis by (simp add: div_mult2_eq [symmetric])
qed

lemma nat_bytes_word:
  "nat_bytes 4 (unat (w :: u32)) = map (\<lambda>i. ucast (drop_bit (8 * i) w)) [0, 1, 2, 3]"
  unfolding nat_bytes_4 byte_of_word using byte_of_word [of w 0] by simp

lemma byte_of_bswap32:
  "i < 4 \<Longrightarrow> (ucast (drop_bit (8 * i) (bswap32 v)) :: u8) = ucast (drop_bit (8 * (3 - i)) v)"
proof (rule bit_word_eqI)
  fix n assume i: "i < 4" and "n < LENGTH(8)"
  then have n: "n < 8" by simp
  then have "bit (bswap32 v) (8 * i + n) = bit v (8 * (3 - (8 * i + n) div 8) + (8 * i + n) mod 8)"
    using i by (intro bit_bswap32) simp
  also have "\<dots> = bit v (8 * (3 - i) + n)" using n by simp
  finally show "bit (ucast (drop_bit (8 * i) (bswap32 v)) :: u8) n = bit (ucast (drop_bit (8 * (3 - i)) v) :: u8) n"
    using n by (simp add: bit_simps)
qed

text \<open>The byte swap reverses the bytes in memory.\<close>

lemma rev_wr32: "rev (wr32 v) = wr32 (bswap32 v)"
  using byte_of_bswap32 [of 0 v] byte_of_bswap32 [of 1 v] byte_of_bswap32 [of 2 v] byte_of_bswap32 [of 3 v]
  by (simp add: wr32_def nat_bytes_word)

subsection \<open>What a capture file replays\<close>

text \<open>A capture as a machine of either byte order writes it.\<close>

record capture_packet =
  cp_sec :: u32
  cp_usec :: u32
  cp_orig :: u32
  cp_data :: bytes

datatype capture_format = Micros | Nanos | Micros_swapped

definition put32 :: "capture_format \<Rightarrow> u32 \<Rightarrow> bytes" where
  "put32 fmt v = (if fmt = Micros_swapped then rev (wr32 v) else wr32 v)"

definition capture_magic :: "capture_format \<Rightarrow> u32" where
  "capture_magic fmt = (if fmt = Nanos then PCAP_MAGIC_NS else PCAP_MAGIC_LE)"

definition packet_bytes :: "capture_format \<Rightarrow> capture_packet \<Rightarrow> bytes" where
  "packet_bytes fmt c = put32 fmt (cp_sec c) @ put32 fmt (cp_usec c)
     @ put32 fmt (of_nat (length (cp_data c))) @ put32 fmt (cp_orig c) @ cp_data c"

definition capture_bytes :: "capture_format \<Rightarrow> bytes \<Rightarrow> capture_packet list \<Rightarrow> bytes" where
  "capture_bytes fmt hdr cs = put32 fmt (capture_magic fmt) @ hdr @ concat (map (packet_bytes fmt) cs)"

text \<open>The event one packet stands for: only its first message counts.\<close>

definition payload_event :: "ExchangeType \<Rightarrow> u64 \<Rightarrow> bytes \<Rightarrow> pcap_event option" where
  "payload_event ex ts payload =
     (if is_bbo payload then map_option (\<lambda>e. Ev_bbo (e\<lparr>local_ts_ns := ts\<rparr>)) (parse_bbo ex payload)
      else if is_depth payload then map_option (\<lambda>e. Ev_depth (e\<lparr>dep_ts_ns := ts\<rparr>)) (parse_depth ex payload)
      else None)"

definition packet_event :: "ExchangeType \<Rightarrow> bool \<Rightarrow> capture_packet \<Rightarrow> pcap_event option" where
  "packet_event ex nano c =
     payload_event ex (pkt_timestamp nano (cp_sec c) (cp_usec c)) (drop L2L3L4_OFFSET (cp_data c))"

definition wanted :: "pcap \<Rightarrow> pcap_event \<Rightarrow> bool" where
  "wanted p ev = (case ev of Ev_bbo _ \<Rightarrow> pr_has_bbo_cb p | Ev_depth _ \<Rightarrow> pr_has_depth_cb p)"

definition fits_buffer :: "capture_packet \<Rightarrow> bool" where
  "fits_buffer c \<longleftrightarrow> length (cp_data c) \<le> PKT_BUF_SIZE"

lemma put32_eq: "put32 fmt v = wr32 (if fmt = Micros_swapped then bswap32 v else v)"
  by (simp add: put32_def rev_wr32)

lemma load_pkt_header_packet:
  assumes "length (cp_data c) < 2 ^ 32"
  shows "load_pkt_header (fmt = Micros_swapped) (packet_bytes fmt c @ rest) =
    \<lparr>ph_ts_sec = cp_sec c, ph_ts_usec = cp_usec c, ph_incl_len = of_nat (length (cp_data c)), ph_orig_len = cp_orig c\<rparr>"
proof -
  let ?b = "packet_bytes fmt c @ rest" and ?f = "\<lambda>v. if fmt = Micros_swapped then bswap32 v else v"
  have "rd32 0 ?b = ?f (cp_sec c)" by (rule rd32_here) (simp add: packet_bytes_def put32_eq)
  moreover have "rd32 4 ?b = ?f (cp_usec c)" by (rule rd32_here) (simp add: packet_bytes_def put32_eq)
  moreover have "rd32 8 ?b = ?f (of_nat (length (cp_data c)))" by (rule rd32_here) (simp add: packet_bytes_def put32_eq)
  moreover have "rd32 12 ?b = ?f (cp_orig c)" by (rule rd32_here) (simp add: packet_bytes_def put32_eq)
  ultimately show ?thesis by (simp add: load_pkt_header_def)
qed

lemma length_packet_bytes [simp]: "length (packet_bytes fmt c) = 16 + length (cp_data c)"
  by (simp add: packet_bytes_def put32_eq)

lemma drop_packet_header: "drop 16 (packet_bytes fmt c @ rest) = cp_data c @ rest"
  by (simp add: packet_bytes_def put32_eq)

text \<open>What dispatching does to the state, for a buffer that starts with the packet.\<close>

definition replays :: "pcap \<Rightarrow> nat \<Rightarrow> pcap_event list \<Rightarrow> pcap \<Rightarrow> bool" where
  "replays p n evs p' \<longleftrightarrow> pr_exchange p' = pr_exchange p \<and> pr_nano_ts p' = pr_nano_ts p
     \<and> pr_swap_endian p' = pr_swap_endian p \<and> pr_has_bbo_cb p' = pr_has_bbo_cb p
     \<and> pr_has_depth_cb p' = pr_has_depth_cb p \<and> length (pr_pkt_buf p') = length (pr_pkt_buf p)
     \<and> pr_log p' = pr_log p @ filter (wanted p) evs
     \<and> pr_pkts_replayed p' = pr_pkts_replayed p + of_nat n
     \<and> pr_msgs_replayed p' = pr_msgs_replayed p + of_nat (length evs)"

lemma replays_trans:
  assumes "replays p m evs q" and "replays q n evs' r"
  shows "replays p (m + n) (evs @ evs') r"
proof -
  have "wanted q = wanted p" using assms(1) by (auto simp: replays_def wanted_def fun_eq_iff split: pcap_event.split)
  then show ?thesis using assms by (simp add: replays_def add.assoc)
qed

lemma rd8_take: "5 \<le> n \<Longrightarrow> rd8 4 (take n bs) = rd8 4 bs"
  by (simp add: rd8_def rd_def drop_take min_def)

lemma parse_short_bbo: "length bs < SIZEOF_BBO \<Longrightarrow> parse_bbo ex bs = None"
  by (cases ex) (simp_all add: parse_bbo_def parse_internal_bbo_def parse_binance_bbo_def)

lemma parse_short_depth: "length bs < SIZEOF_DEPTH \<Longrightarrow> parse_depth ex bs = None"
  by (cases ex) (simp_all add: parse_depth_def parse_internal_depth_def)

lemma dispatch_replays:
  assumes "take len (drop L2L3L4_OFFSET (pr_pkt_buf p)) = payload" and "length payload = len"
  shows "replays p 0 (case payload_event (pr_exchange p) ts payload of None \<Rightarrow> [] | Some ev \<Rightarrow> [ev])
    (dispatch_payload len ts p)"
proof (cases "len < SIZEOF_BBO")
  case True
  then have "\<not> is_bbo payload" "\<not> is_depth payload"
    using assms(2) by (simp_all add: is_bbo_def is_depth_def SIZEOF_BBO_def SIZEOF_DEPTH_def)
  moreover have "parse_bbo (pr_exchange p) payload = None" "parse_depth (pr_exchange p) payload = None"
    using True assms(2) parse_short_bbo parse_short_depth by (simp_all add: SIZEOF_BBO_def SIZEOF_DEPTH_def)
  ultimately show ?thesis using assms(1) by (simp add: dispatch_payload_def replays_def payload_event_def Let_def)
next
  case False
  then have t: "rd8 4 payload = rd8 4 (drop L2L3L4_OFFSET (pr_pkt_buf p))"
    using rd8_take [of len "drop L2L3L4_OFFSET (pr_pkt_buf p)"] assms(1) by (simp add: SIZEOF_BBO_def)
  have b: "is_bbo payload \<longleftrightarrow> rd8 4 payload = WIRE_BBO \<or> rd8 4 payload = WIRE_TRADE"
    using False assms(2) by (simp add: is_bbo_def is_bbo_type_def)
  have d: "parse_depth (pr_exchange p) payload = None" if "\<not> is_depth payload" "rd8 4 payload = WIRE_DEPTH"
    using that parse_short_depth by (simp add: is_depth_def)
  have n: "is_depth payload \<Longrightarrow> rd8 4 payload = WIRE_DEPTH" by (simp add: is_depth_def)
  have l: "\<not> len < 1" using False by (simp add: SIZEOF_BBO_def)
  show ?thesis
  proof (cases "is_bbo payload")
    case True
    then show ?thesis using b t assms(1) l
      by (cases "parse_bbo (pr_exchange p) payload") (simp_all add: dispatch_payload_def replays_def payload_event_def Let_def wanted_def)
  next
    case nb: False
    show ?thesis
    proof (cases "rd8 4 payload = WIRE_DEPTH")
      case True
      then show ?thesis using nb b d t assms(1) l
        by (cases "parse_depth (pr_exchange p) payload"; cases "is_depth payload")
          (simp_all add: dispatch_payload_def replays_def payload_event_def Let_def wanted_def)
    next
      case False
      then have "\<not> is_depth payload" using n by blast
      then show ?thesis using False nb b t l by (simp add: dispatch_payload_def replays_def payload_event_def Let_def)
    qed
  qed
qed

lemma replay_packet_replays:
  assumes "take (length (cp_data c)) (pr_pkt_buf p) = cp_data c" and "length (cp_data c) < 2 ^ 32"
    and "ph_ts_sec ph = cp_sec c" and "ph_ts_usec ph = cp_usec c" and "ph_incl_len ph = of_nat (length (cp_data c))"
  shows "replays p 1 (case packet_event (pr_exchange p) (pr_nano_ts p) c of None \<Rightarrow> [] | Some ev \<Rightarrow> [ev]) (replay_packet ph p)"
proof -
  let ?n = "length (cp_data c)" and ?p = "p\<lparr>pr_pkts_replayed := pr_pkts_replayed p + 1\<rparr>"
    and ?ts = "pkt_timestamp (pr_nano_ts p) (cp_sec c) (cp_usec c)"
  have n: "unat (ph_incl_len ph) = ?n" using assms(2,5) by (simp add: unsigned_of_nat take_bit_nat_eq_self)
  have r1: "replays p 1 [] ?p" by (simp add: replays_def)
  show ?thesis
  proof (cases "?n \<le> L2L3L4_OFFSET")
    case True
    then have "drop L2L3L4_OFFSET (cp_data c) = []" by simp
    then have "packet_event (pr_exchange p) (pr_nano_ts p) c = None"
      by (simp add: packet_event_def payload_event_def is_bbo_def is_depth_def SIZEOF_BBO_def SIZEOF_DEPTH_def)
    then show ?thesis using True r1 n by (simp add: replay_packet_def Let_def)
  next
    case False
    have pl: "take (?n - L2L3L4_OFFSET) (drop L2L3L4_OFFSET (pr_pkt_buf ?p)) = drop L2L3L4_OFFSET (cp_data c)"
      using assms(1) by (metis drop_take pcap.select_convs(4) pcap.surjective pcap.update_convs(8))
    have "replays ?p 0 (case packet_event (pr_exchange p) (pr_nano_ts p) c of None \<Rightarrow> [] | Some ev \<Rightarrow> [ev])
       (dispatch_payload (?n - L2L3L4_OFFSET) ?ts ?p)"
      using dispatch_replays [OF pl, of ?ts] by (simp add: packet_event_def)
    from replays_trans [OF r1 this] show ?thesis
      using False n assms(3,4) by (simp add: replay_packet_def Let_def)
  qed
qed

definition capture_events :: "ExchangeType \<Rightarrow> bool \<Rightarrow> capture_packet list \<Rightarrow> pcap_event list" where
  "capture_events ex nano cs = List.map_filter (packet_event ex nano) (filter fits_buffer cs)"

lemma capture_events_Cons:
  "capture_events ex nano (c # cs) =
     (if fits_buffer c then (case packet_event ex nano c of None \<Rightarrow> [] | Some ev \<Rightarrow> [ev]) else []) @ capture_events ex nano cs"
  by (simp add: capture_events_def List.map_filter_simps split: option.split)

lemma replay_loop_replays:
  assumes "length tail < 16"
  shows "list_all (\<lambda>c. length (cp_data c) < 2 ^ 32) cs \<Longrightarrow> pr_swap_endian p = (fmt = Micros_swapped) \<Longrightarrow>
    length (pr_pkt_buf p) = PKT_BUF_SIZE \<Longrightarrow>
    replays p (length (filter fits_buffer (take (m - i) cs))) (capture_events (pr_exchange p) (pr_nano_ts p) (take (m - i) cs))
      (replay_loop (\<lambda>k. k < m) i (concat (map (packet_bytes fmt) cs) @ tail) p)"
proof (induction cs arbitrary: i p)
  case Nil
  then show ?case using assms by (simp add: replay_loop.simps replays_def capture_events_def List.map_filter_simps)
next
  case (Cons c cs)
  show ?case
  proof (cases "i < m")
    case False
    then show ?thesis by (simp add: replay_loop.simps replays_def capture_events_def List.map_filter_simps)
  next
    case True
    then have mi: "m - i = Suc (m - Suc i)" by simp
    let ?file = "packet_bytes fmt c @ concat (map (packet_bytes fmt) cs) @ tail"
    let ?rest = "concat (map (packet_bytes fmt) cs) @ tail"
    have small: "length (cp_data c) < 2 ^ 32" and cs: "list_all (\<lambda>c. length (cp_data c) < 2 ^ 32) cs"
      using Cons.prems(1) by simp_all
    define ph where "ph = load_pkt_header (pr_swap_endian p) ?file"
    have ph: "ph = \<lparr>ph_ts_sec = cp_sec c, ph_ts_usec = cp_usec c, ph_incl_len = of_nat (length (cp_data c)), ph_orig_len = cp_orig c\<rparr>"
      unfolding ph_def Cons.prems(2) by (rule load_pkt_header_packet [OF small])
    have n: "unat (ph_incl_len ph) = length (cp_data c)"
      using small by (simp add: ph unsigned_of_nat take_bit_nat_eq_self)
    have b: "drop 16 ?file = cp_data c @ ?rest" by (rule drop_packet_header)
    show ?thesis
    proof (cases "fits_buffer c")
      case False
      then have "replay_loop (\<lambda>k. k < m) i ?file p = replay_loop (\<lambda>k. k < m) (Suc i) ?rest p"
        using True n b by (subst replay_loop.simps) (simp add: fits_buffer_def ph_def [symmetric] Let_def)
      then show ?thesis using Cons.IH [OF cs Cons.prems(2,3), of "Suc i"] False
        by (simp add: mi capture_events_Cons)
    next
      case fit: True
      let ?p = "p\<lparr>pr_pkt_buf := cp_data c @ drop (length (cp_data c)) (pr_pkt_buf p)\<rparr>"
      have step: "replay_loop (\<lambda>k. k < m) i ?file p = replay_loop (\<lambda>k. k < m) (Suc i) ?rest (replay_packet ph ?p)"
        using True n b fit by (subst replay_loop.simps) (simp add: fits_buffer_def ph_def [symmetric] Let_def)
      have r0: "replays p 0 [] ?p" using fit Cons.prems(3) by (simp add: replays_def fits_buffer_def)
      have "replays ?p 1 (case packet_event (pr_exchange ?p) (pr_nano_ts ?p) c of None \<Rightarrow> [] | Some ev \<Rightarrow> [ev]) (replay_packet ph ?p)"
        by (rule replay_packet_replays [OF _ small]) (simp_all add: ph)
      from replays_trans [OF r0 this]
      have r1: "replays p 1 (case packet_event (pr_exchange p) (pr_nano_ts p) c of None \<Rightarrow> [] | Some ev \<Rightarrow> [ev]) (replay_packet ph ?p)"
        by simp
      then have q: "pr_swap_endian (replay_packet ph ?p) = (fmt = Micros_swapped)"
        "length (pr_pkt_buf (replay_packet ph ?p)) = PKT_BUF_SIZE"
        "pr_exchange (replay_packet ph ?p) = pr_exchange p" "pr_nano_ts (replay_packet ph ?p) = pr_nano_ts p"
        using Cons.prems(2,3) by (simp_all add: replays_def)
      from replays_trans [OF r1 Cons.IH [OF cs q(1,2), of "Suc i"]]
      show ?thesis unfolding q(3,4) by (simp add: step fit mi capture_events_Cons)
    qed
  qed
qed

lemma bswap_magic: "bswap32 PCAP_MAGIC_LE = PCAP_MAGIC_BE_LE"
  by (simp add: bswap32_def PCAP_MAGIC_LE_def PCAP_MAGIC_BE_LE_def)

lemma pcap_open_capture:
  assumes "length hdr = 20"
  shows "pcap_open (Some (capture_bytes fmt hdr cs @ tail)) p =
    (p\<lparr>pr_nano_ts := (fmt = Nanos), pr_swap_endian := (fmt = Micros_swapped)\<rparr>, Some (concat (map (packet_bytes fmt) cs) @ tail))"
proof -
  let ?b = "capture_bytes fmt hdr cs @ tail"
  have put: "put32 fmt (capture_magic fmt) = wr32 (if fmt = Micros_swapped then PCAP_MAGIC_BE_LE else capture_magic fmt)"
    by (cases fmt) (simp_all add: put32_eq bswap_magic capture_magic_def)
  have m: "rd32 0 ?b = (if fmt = Micros_swapped then PCAP_MAGIC_BE_LE else capture_magic fmt)"
    by (rule rd32_here) (simp add: capture_bytes_def put)
  have "\<not> length ?b < 24" and "drop 24 ?b = concat (map (packet_bytes fmt) cs) @ tail"
    using assms by (simp_all add: capture_bytes_def put32_eq)
  with m show ?thesis
    by (cases fmt) (simp_all add: pcap_open_def capture_magic_def PCAP_MAGIC_LE_def PCAP_MAGIC_NS_def PCAP_MAGIC_BE_LE_def)
qed

text \<open>
  Claim C29. A capture file in microseconds, in nanoseconds or written by a machine of the other
  byte order replays successfully: if \<open>stop\<close> comes after \<open>m\<close> iterations, exactly the first \<open>m\<close>
  packets are replayed, those larger than the buffer are skipped, and each of the others yields the
  event of its first message, in order and with the packet's own time stamp; the counters agree, and
  stale bytes in the packet buffer never show.
\<close>

theorem replay_capture:
  assumes "length hdr = 20" and "length tail < 16" and "list_all (\<lambda>c. length (cp_data c) < 2 ^ 32) cs"
    and "length (pr_pkt_buf p) = PKT_BUF_SIZE"
    and "pcap_replay (\<lambda>k. k < m) (Some (capture_bytes fmt hdr cs @ tail)) p = (p', ok)"
  shows "ok \<and> pr_log p' = pr_log p @ filter (wanted p) (capture_events (pr_exchange p) (fmt = Nanos) (take m cs))
    \<and> pr_pkts_replayed p' = pr_pkts_replayed p + of_nat (length (filter fits_buffer (take m cs)))
    \<and> pr_msgs_replayed p' = pr_msgs_replayed p + of_nat (length (capture_events (pr_exchange p) (fmt = Nanos) (take m cs)))"
proof -
  let ?p = "p\<lparr>pr_nano_ts := (fmt = Nanos), pr_swap_endian := (fmt = Micros_swapped)\<rparr>"
  have r: "replays ?p (length (filter fits_buffer (take (m - 0) cs))) (capture_events (pr_exchange ?p) (pr_nano_ts ?p) (take (m - 0) cs))
      (replay_loop (\<lambda>k. k < m) 0 (concat (map (packet_bytes fmt) cs) @ tail) ?p)"
    by (rule replay_loop_replays [OF assms(2,3)]) (simp_all add: assms(4))
  have p': "p' = replay_loop (\<lambda>k. k < m) 0 (concat (map (packet_bytes fmt) cs) @ tail) ?p" and ok
    using assms(5) by (simp_all add: pcap_replay_def pcap_open_capture [OF assms(1)])
  have "wanted ?p = wanted p" by (auto simp: wanted_def fun_eq_iff split: pcap_event.split)
  with r \<open>ok\<close> show ?thesis by (simp add: replays_def p' [symmetric])
qed

definition sample_pcap :: pcap where
  "sample_pcap = \<lparr>pr_exchange = INTERNAL, pr_nano_ts = False, pr_swap_endian = False,
     pr_pkt_buf = replicate PKT_BUF_SIZE 0, pr_has_bbo_cb = True, pr_has_depth_cb = True, pr_log = [],
     pr_pkts_replayed = 0, pr_msgs_replayed = 0, pr_parse_errors = 0\<rparr>"

lemma replay_capture_witness:
  "\<exists>p'. pcap_replay (\<lambda>k. k < 9) (Some (capture_bytes Micros_swapped (replicate 20 0)
      [\<lparr>cp_sec = 2, cp_usec = 3, cp_orig = 94, cp_data = replicate 42 0 @ bytes_of_BBO sample_bbo\<rparr>] @ [])) sample_pcap = (p', True)
    \<and> pr_log p' = [Ev_bbo (event_of_BBO sample_bbo\<lparr>local_ts_ns := 2000003000\<rparr>)] \<and> pr_pkts_replayed p' = 1"
proof -
  let ?c = "\<lparr>cp_sec = 2, cp_usec = 3, cp_orig = 94, cp_data = replicate 42 0 @ bytes_of_BBO sample_bbo\<rparr>"
  let ?f = "capture_bytes Micros_swapped (replicate 20 0) [?c] @ []"
  obtain p' ok where r: "pcap_replay (\<lambda>k. k < 9) (Some ?f) sample_pcap = (p', ok)" by force
  have s: "wire_bbo_wf sample_bbo" "is_bbo_type (wb_msg_type sample_bbo)" using sample_ok(1) by simp_all
  have n: "length (bytes_of_BBO sample_bbo) = 52" using length_bytes_of_BBO [OF s(1)] by (simp add: SIZEOF_BBO_def)
  have i: "is_bbo (bytes_of_BBO sample_bbo)"
    using rd8_bytes_of_BBO [OF s(1), of "[]"] s n by (simp add: is_bbo_def SIZEOF_BBO_def)
  have b: "parse_bbo INTERNAL (bytes_of_BBO sample_bbo) = Some (event_of_BBO sample_bbo)"
    using parse_bbo_msg [OF sample_ok(1), of INTERNAL "[]"] by (simp add: sample_bbo_def)
  have e: "capture_events INTERNAL False [?c] = [Ev_bbo (event_of_BBO sample_bbo\<lparr>local_ts_ns := 2000003000\<rparr>)]"
    using n i b by (simp add: capture_events_def List.map_filter_simps fits_buffer_def PKT_BUF_SIZE_def
        packet_event_def payload_event_def L2L3L4_OFFSET_def pkt_timestamp_def)
  have "ok \<and> pr_log p' = pr_log sample_pcap @ filter (wanted sample_pcap) (capture_events (pr_exchange sample_pcap) (Micros_swapped = Nanos) (take 9 [?c]))
    \<and> pr_pkts_replayed p' = pr_pkts_replayed sample_pcap + of_nat (length (filter fits_buffer (take 9 [?c])))
    \<and> pr_msgs_replayed p' = pr_msgs_replayed sample_pcap + of_nat (length (capture_events (pr_exchange sample_pcap) (Micros_swapped = Nanos) (take 9 [?c])))"
    by (rule replay_capture [OF _ _ _ _ r]) (use n in \<open>simp_all add: sample_pcap_def PKT_BUF_SIZE_def\<close>)
  then show ?thesis using r e n
    by (simp add: sample_pcap_def wanted_def fits_buffer_def PKT_BUF_SIZE_def)
qed

end
