(* ===== verification/Session_Manager.thy ===== *)
theory Session_Manager
  imports Prelude
begin

text \<open>
  \<^verbatim>\<open>src/connectivity/session_manager.cpp\<close>: the heartbeat thread that watches a gateway.  The state
  holds the members and the loop's local \<open>backoff_ms\<close>; one beat is one iteration of the loop with
  what \<open>is_connected\<close> returned, and yields the time it waits, which only \<open>stop\<close> cuts short.
\<close>

datatype session_state = DISCONNECTED | CONNECTING | CONNECTED | RECONNECTING

record session =
  sm_heartbeat_ms :: u32
  sm_state :: session_state
  sm_reconnect_count :: u64
  sm_running :: bool
  sm_backoff_ms :: u32

definition MIN_BACKOFF_MS :: u32 where "MIN_BACKOFF_MS = 100"
definition MAX_BACKOFF_MS :: u32 where "MAX_BACKOFF_MS = 30000"

definition sm_new :: "u32 \<Rightarrow> session" where
  "sm_new hb = \<lparr>sm_heartbeat_ms = hb, sm_state = DISCONNECTED, sm_reconnect_count = 0, sm_running = False,
     sm_backoff_ms = MIN_BACKOFF_MS\<rparr>"

definition sm_start :: "session \<Rightarrow> session" where
  "sm_start s = (if sm_running s then s
     else s\<lparr>sm_running := True, sm_state := CONNECTING, sm_backoff_ms := MIN_BACKOFF_MS\<rparr>)"

definition sm_stop :: "session \<Rightarrow> session" where
  "sm_stop s = (if \<not> sm_running s then s else s\<lparr>sm_running := False, sm_state := DISCONNECTED\<rparr>)"

definition heartbeat :: "bool \<Rightarrow> session \<Rightarrow> session \<times> u32" where
  "heartbeat conn s =
     (if conn then (s\<lparr>sm_state := CONNECTED, sm_backoff_ms := MIN_BACKOFF_MS\<rparr>, sm_heartbeat_ms s)
      else let s1 = (if sm_state s \<noteq> RECONNECTING then s\<lparr>sm_state := RECONNECTING\<rparr> else s);
               s2 = s1\<lparr>sm_reconnect_count := sm_reconnect_count s1 + 1\<rparr>
           in (s2\<lparr>sm_backoff_ms := min (sm_backoff_ms s2 * 2) MAX_BACKOFF_MS\<rparr>, sm_backoff_ms s2))"

text \<open>The loop, as long as \<open>running_\<close> holds, and the waits of its iterations.\<close>

fun heartbeat_loop :: "bool list \<Rightarrow> session \<Rightarrow> session \<times> u32 list" where
  "heartbeat_loop [] s = (s, [])"
| "heartbeat_loop (c # cs) s =
     (if sm_running s
      then let (s1, w) = heartbeat c s; (s2, ws) = heartbeat_loop cs s1 in (s2, w # ws)
      else (s, []))"

subsection \<open>Exponential backoff\<close>

text \<open>How many checks in a row had failed when the checks \<open>cs\<close> (latest first) were done.\<close>

definition failures :: "bool list \<Rightarrow> nat" where
  "failures cs = length (takeWhile (\<lambda>c. \<not> c) cs)"

lemma failures_simps [simp]:
  "failures [] = 0" "failures (True # cs) = 0" "failures (False # cs) = Suc (failures cs)"
  by (simp_all add: failures_def)

definition backoff_after :: "nat \<Rightarrow> nat" where
  "backoff_after k = min (100 * 2 ^ k) 30000"

fun waits_of :: "u32 \<Rightarrow> bool list \<Rightarrow> bool list \<Rightarrow> u32 list" where
  "waits_of hb past [] = []"
| "waits_of hb past (c # cs) =
     (if c then hb else of_nat (backoff_after (failures past))) # waits_of hb (c # past) cs"

lemma backoff_double: "min (backoff_after k * 2) 30000 = backoff_after (Suc k)"
  by (simp add: backoff_after_def min_def)

lemma backoff_word: "min (of_nat (backoff_after k) * 2) MAX_BACKOFF_MS = (of_nat (backoff_after (Suc k)) :: u32)"
proof -
  have b: "backoff_after k \<le> 30000" "backoff_after (Suc k) \<le> 30000" by (simp_all add: backoff_after_def)
  have u: "unat (of_nat n :: u32) = n" if "n \<le> 60000" for n
    using that by (simp add: unsigned_of_nat take_bit_nat_eq_self)
  have d: "(of_nat (backoff_after k) * 2 :: u32) = of_nat (backoff_after k * 2)" by simp
  have m: "(MAX_BACKOFF_MS :: u32) = of_nat 30000" by (simp add: MAX_BACKOFF_MS_def)
  have "unat (min (of_nat (backoff_after k * 2) :: u32) (of_nat 30000)) = min (backoff_after k * 2) 30000"
    using b u [of "backoff_after k * 2"] u [of 30000] by (simp add: min_def word_le_nat_alt del: of_nat_mult of_nat_numeral)
  also have "\<dots> = unat (of_nat (backoff_after (Suc k)) :: u32)"
    using b(2) u [of "backoff_after (Suc k)"] backoff_double [of k] by simp
  finally show ?thesis unfolding d m by (simp only: word_unat_eq_iff)
qed

lemma heartbeat_loop_spec:
  assumes "sm_running s" and "sm_backoff_ms s = of_nat (backoff_after (failures past))"
    and "heartbeat_loop cs s = (s', ws)"
  shows "ws = waits_of (sm_heartbeat_ms s) past cs \<and> sm_running s' \<and> sm_heartbeat_ms s' = sm_heartbeat_ms s
    \<and> sm_state s' = (case rev cs of [] \<Rightarrow> sm_state s | c # _ \<Rightarrow> if c then CONNECTED else RECONNECTING)
    \<and> sm_reconnect_count s' = sm_reconnect_count s + of_nat (length (filter Not cs))"
  using assms
proof (induction cs arbitrary: s past ws)
  case (Cons c cs)
  obtain s1 w where h: "heartbeat c s = (s1, w)" by force
  obtain s2 ws2 where l: "heartbeat_loop cs s1 = (s2, ws2)" by force
  have w: "w = (if c then sm_heartbeat_ms s else of_nat (backoff_after (failures past)))"
    and r: "sm_running s1" and hb: "sm_heartbeat_ms s1 = sm_heartbeat_ms s"
    and st: "sm_state s1 = (if c then CONNECTED else RECONNECTING)"
    and n: "sm_reconnect_count s1 = sm_reconnect_count s + (if c then 0 else 1)"
    using h Cons.prems(1,2) by (auto simp: heartbeat_def Let_def split: if_splits)
  have b: "sm_backoff_ms s1 = of_nat (backoff_after (failures (c # past)))"
  proof (cases c)
    case True
    then show ?thesis using h by (auto simp: heartbeat_def MIN_BACKOFF_MS_def backoff_after_def)
  next
    case False
    then have "sm_backoff_ms s1 = min (sm_backoff_ms s * 2) MAX_BACKOFF_MS"
      using h by (auto simp: heartbeat_def Let_def split: if_splits)
    then show ?thesis using False Cons.prems(2) backoff_word by simp
  qed
  have eq: "s' = s2" "ws = w # ws2" using Cons.prems(1,3) h l by simp_all
  from Cons.IH [OF r b l [folded eq(1)]] show ?case
    using w hb st n eq by (cases "rev cs") auto
qed simp

text \<open>
  From a start until \<open>stop\<close>, over any sequence of connection checks: a failed check after
  \<open>k\<close> failures in a row waits \<open>min (100 * 2^k) 30000\<close> milliseconds and counts one reconnect, a successful one
  waits the heartbeat interval and resets the backoff; the state is CONNECTED or RECONNECTING as the last
  check found, CONNECTING before the first, and DISCONNECTED once stopped.
\<close>

theorem session_backoff:
  assumes "\<not> sm_running s" and "heartbeat_loop cs (sm_start s) = (s', ws)"
  shows "ws = waits_of (sm_heartbeat_ms s) [] cs
    \<and> sm_state s' = (case rev cs of [] \<Rightarrow> CONNECTING | c # _ \<Rightarrow> if c then CONNECTED else RECONNECTING)
    \<and> sm_reconnect_count s' = sm_reconnect_count s + of_nat (length (filter Not cs))
    \<and> sm_start s' = s' \<and> sm_state (sm_stop s') = DISCONNECTED \<and> heartbeat_loop cs' (sm_stop s') = (sm_stop s', [])"
proof -
  have b: "sm_backoff_ms (sm_start s) = of_nat (backoff_after (failures []))"
    using assms(1) by (simp add: sm_start_def MIN_BACKOFF_MS_def backoff_after_def)
  have r: "sm_running (sm_start s)" and h: "sm_heartbeat_ms (sm_start s) = sm_heartbeat_ms s"
    and st: "sm_state (sm_start s) = CONNECTING" and n: "sm_reconnect_count (sm_start s) = sm_reconnect_count s"
    using assms(1) by (simp_all add: sm_start_def)
  note spec = heartbeat_loop_spec [OF r b assms(2), unfolded h st n]
  have "sm_running s'" using spec by blast
  then have "sm_start s' = s'" "sm_state (sm_stop s') = DISCONNECTED" "\<not> sm_running (sm_stop s')"
    by (simp_all add: sm_start_def sm_stop_def)
  then show ?thesis using spec by (cases cs') simp_all
qed

lemma session_backoff_witness:
  "snd (heartbeat_loop [True, False, False, False, True, False] (sm_start (sm_new 5000))) =
    [5000, 100, 200, 400, 5000, 100]"
proof -
  obtain s' ws where r: "heartbeat_loop [True, False, False, False, True, False] (sm_start (sm_new 5000)) = (s', ws)"
    by force
  have "\<not> sm_running (sm_new 5000)" by (simp add: sm_new_def)
  from session_backoff [OF this r, of "[]"] show ?thesis using r
    by (simp add: sm_new_def backoff_after_def)
qed

end
