(* ===== verification/Binary_Protocol.thy ===== *)
theory Binary_Protocol
  imports Types Bytes
begin

text \<open>
  \<^verbatim>\<open>src/connectivity/binary_protocol.cpp\<close>: the exchange gateway with a framed binary protocol over
  TCP.  The socket is the environment: \<open>bg_accept k\<close> bytes are taken by the \<open>k\<close>-th \<open>writev\<close> and
  appended to \<open>bg_wire\<close>; the received stream is a byte string of which each \<open>recv\<close> delivers a piece whose
  size is an input.  The clock readings are a stream; the callbacks append to \<open>bg_log\<close>.
\<close>

subsection \<open>Messages\<close>

definition BP_MAGIC :: u16 where "BP_MAGIC = 0x4846"
definition BP_VERSION :: u8 where "BP_VERSION = 0x01"

definition MSG_NEW_ORDER :: u8 where "MSG_NEW_ORDER = 0x01"
definition MSG_CANCEL :: u8 where "MSG_CANCEL = 0x02"
definition MSG_MODIFY :: u8 where "MSG_MODIFY = 0x03"
definition MSG_ORDER_ACK :: u8 where "MSG_ORDER_ACK = 0x11"
definition MSG_ORDER_FILL :: u8 where "MSG_ORDER_FILL = 0x12"
definition MSG_ORDER_REJECT :: u8 where "MSG_ORDER_REJECT = 0x13"
definition MSG_HEARTBEAT :: u8 where "MSG_HEARTBEAT = 0x20"
definition MSG_LOGON :: u8 where "MSG_LOGON = 0x21"
definition MSG_LOGOFF :: u8 where "MSG_LOGOFF = 0x22"

record msg_header =
  mh_magic :: u16
  mh_version :: u8
  mh_msg_type :: u8
  mh_body_len :: u16
  mh_checksum :: u16

definition SIZEOF_HEADER :: nat where "SIZEOF_HEADER = 8"

definition header_bytes :: "msg_header \<Rightarrow> bytes" where
  "header_bytes h = wr16 (mh_magic h) @ wr8 (mh_version h) @ wr8 (mh_msg_type h) @ wr16 (mh_body_len h)
     @ wr16 (mh_checksum h)"

definition load_header :: "bytes \<Rightarrow> msg_header" where
  "load_header buf = \<lparr>mh_magic = rd16 0 buf, mh_version = rd8 2 buf, mh_msg_type = rd8 3 buf,
     mh_body_len = rd16 4 buf, mh_checksum = rd16 6 buf\<rparr>"

definition calc_checksum :: "msg_header \<Rightarrow> u16" where
  "calc_checksum h = foldl (\<lambda>acc b. acc + ucast b) 0 (take 6 (header_bytes h))"

definition make_header :: "u8 \<Rightarrow> u16 \<Rightarrow> msg_header" where
  "make_header ty body_len =
     (let hdr = \<lparr>mh_magic = BP_MAGIC, mh_version = BP_VERSION, mh_msg_type = ty, mh_body_len = body_len, mh_checksum = 0\<rparr>
      in hdr\<lparr>mh_checksum := calc_checksum hdr\<rparr>)"

primrec side_byte :: "Side \<Rightarrow> u8" where
  "side_byte BUY = 0" | "side_byte SELL = 1"

primrec order_type_byte :: "OrderType \<Rightarrow> u8" where
  "order_type_byte MARKET = 0" | "order_type_byte LIMIT = 1" | "order_type_byte IOC = 2"
| "order_type_byte FOK = 3" | "order_type_byte FAK = 4"

definition new_order_body :: "Timestamp \<Rightarrow> OrderRequest \<Rightarrow> bytes" where
  "new_order_body now req = wr64 (req_strategy_ts_ns req) @ wr32 (req_instrument_id req)
     @ wr8 (side_byte (req_side req)) @ wr8 (order_type_byte (req_type req)) @ [0, 0]
     @ wri64 (req_price req) @ wri64 (req_qty req) @ wr64 now"

definition cancel_body :: "u64 \<Rightarrow> bytes" where
  "cancel_body cloid = wr64 cloid @ wr64 0 @ wr32 0 @ [0, 0, 0, 0]"

definition modify_body :: "ModifyRequest \<Rightarrow> bytes" where
  "modify_body m = wr64 (mod_client_order_id m) @ wri64 (mod_new_price m) @ wri64 (mod_new_qty m)"

record AckBody =
  ab_client_order_id :: u64
  ab_exchange_order_id :: u64
  ab_status :: u8
  ab_reject_reason :: u8
  ab_timestamp_ns :: u64

definition load_ack :: "bytes \<Rightarrow> AckBody" where
  "load_ack body = \<lparr>ab_client_order_id = rd64 0 body, ab_exchange_order_id = rd64 8 body,
     ab_status = rd8 16 body, ab_reject_reason = rd8 17 body, ab_timestamp_ns = rd64 24 body\<rparr>"

record FillBody =
  fb_client_order_id :: u64
  fb_exchange_order_id :: u64
  fb_instrument_id :: u32
  fb_side :: u8
  fb_fill_price :: int
  fb_fill_qty :: int
  fb_remaining_qty :: int
  fb_timestamp_ns :: u64

definition load_fill :: "bytes \<Rightarrow> FillBody" where
  "load_fill body = \<lparr>fb_client_order_id = rd64 0 body, fb_exchange_order_id = rd64 8 body,
     fb_instrument_id = rd32 16 body, fb_side = rd8 20 body, fb_fill_price = rdi64 24 body,
     fb_fill_qty = rdi64 32 body, fb_remaining_qty = rdi64 40 body, fb_timestamp_ns = rd64 48 body\<rparr>"

definition SIZEOF_ACK :: nat where "SIZEOF_ACK = 32"
definition SIZEOF_FILL :: nat where "SIZEOF_FILL = 56"

subsection \<open>The gateway\<close>

datatype bin_event = Bin_ack OrderAck | Bin_fill FillEvent

record bin_gateway =
  bg_connected :: bool
  bg_last_rtt_ns :: u64
  bg_has_ack_cb :: bool
  bg_has_fill_cb :: bool
  bg_log :: "bin_event list"
  bg_wire :: bytes
  bg_accept :: "nat \<Rightarrow> nat"
  bg_writes :: nat
  bg_clock :: "nat \<Rightarrow> u64"
  bg_readings :: nat

definition send_msg :: "u8 \<Rightarrow> bytes \<Rightarrow> u16 \<Rightarrow> bin_gateway \<Rightarrow> bin_gateway \<times> bool" where
  "send_msg ty body body_len g =
     (let msg = header_bytes (make_header ty body_len) @ take (unat body_len) body;
          n = bg_accept g (bg_writes g)
      in (g\<lparr>bg_wire := bg_wire g @ take n msg, bg_writes := Suc (bg_writes g)\<rparr>,
          min n (length msg) = SIZEOF_HEADER + unat body_len))"

definition read_clock :: "bin_gateway \<Rightarrow> bin_gateway \<times> u64" where
  "read_clock g = (g\<lparr>bg_readings := Suc (bg_readings g)\<rparr>, bg_clock g (bg_readings g))"

text \<open>\<open>established\<close>: the socket could be created, the host resolved and the connection made.\<close>

definition bin_connect :: "bool \<Rightarrow> bytes \<Rightarrow> bin_gateway \<Rightarrow> bin_gateway \<times> bool" where
  "bin_connect established session_id g =
     (if \<not> established then (g, False)
      else let (g1, ok) = send_msg MSG_LOGON session_id (of_nat (length session_id)) g in
        if \<not> ok then (g1, False) else (g1\<lparr>bg_connected := True\<rparr>, True))"

definition bin_disconnect :: "bin_gateway \<Rightarrow> bin_gateway" where
  "bin_disconnect g = (if bg_connected g then (fst (send_msg MSG_LOGOFF [] 0 g))\<lparr>bg_connected := False\<rparr> else g)"

definition bin_send_new_order :: "OrderRequest \<Rightarrow> bin_gateway \<Rightarrow> bin_gateway" where
  "bin_send_new_order req g =
     (let (g1, now) = read_clock g in fst (send_msg MSG_NEW_ORDER (new_order_body now req) 40 g1))"

definition bin_send_cancel :: "u64 \<Rightarrow> bin_gateway \<Rightarrow> bin_gateway" where
  "bin_send_cancel cloid g = fst (send_msg MSG_CANCEL (cancel_body cloid) 24 g)"

definition bin_send_modify :: "ModifyRequest \<Rightarrow> bin_gateway \<Rightarrow> bin_gateway" where
  "bin_send_modify m g = fst (send_msg MSG_MODIFY (modify_body m) 24 g)"

definition handle_ack :: "AckBody \<Rightarrow> bin_gateway \<Rightarrow> bin_gateway" where
  "handle_ack ack g =
     (let out = \<lparr>ak_client_order_id = ab_client_order_id ack, ak_exchange_order_id = ab_exchange_order_id ack,
                 ak_status = (if ab_status ack = 0 then NEW else REJECTED), ak_ack_ts_ns = ab_timestamp_ns ack\<rparr>
      in if bg_has_ack_cb g then g\<lparr>bg_log := bg_log g @ [Bin_ack out]\<rparr> else g)"

text \<open>
  The cast keeps any byte; the program compares a side with \<open>BUY\<close> only, so every byte but 0 is a sell
  to it.
\<close>

definition side_of_byte :: "u8 \<Rightarrow> Side" where
  "side_of_byte b = (if b = 0 then BUY else SELL)"

definition handle_fill :: "FillBody \<Rightarrow> bin_gateway \<Rightarrow> bin_gateway" where
  "handle_fill fill g =
     (let out = \<lparr>fe_client_order_id = fb_client_order_id fill, fe_exchange_order_id = fb_exchange_order_id fill,
                 fe_instrument_id = fb_instrument_id fill, fe_side = side_of_byte (fb_side fill),
                 fe_fill_price = fb_fill_price fill, fe_fill_qty = fb_fill_qty fill,
                 fe_remaining_qty = fb_remaining_qty fill, fe_fill_ts_ns = fb_timestamp_ns fill\<rparr>
      in if bg_has_fill_cb g then g\<lparr>bg_log := bg_log g @ [Bin_fill out]\<rparr> else g)"

text \<open>The \<open>switch\<close> on the message type; \<open>body\<close> is the buffer from the end of the header on.\<close>

definition handle_msg :: "msg_header \<Rightarrow> bytes \<Rightarrow> bin_gateway \<Rightarrow> bin_gateway" where
  "handle_msg hdr body g =
     (if mh_msg_type hdr = MSG_ORDER_ACK then
        (if unat (mh_body_len hdr) \<ge> SIZEOF_ACK then handle_ack (load_ack body) g else g)
      else if mh_msg_type hdr = MSG_ORDER_FILL then
        (if unat (mh_body_len hdr) \<ge> SIZEOF_FILL then handle_fill (load_fill body) g else g)
      else if mh_msg_type hdr = MSG_HEARTBEAT then
        let (g1, now) = read_clock g;
            g2 = g1\<lparr>bg_last_rtt_ns := now - ucast (mh_body_len hdr)\<rparr>
        in fst (send_msg MSG_HEARTBEAT [] 0 g2)
      else g)"

text \<open>The inner loop: the buffer left, the state, and whether the outer loop goes on.\<close>

function bin_drain :: "bytes \<Rightarrow> bin_gateway \<Rightarrow> bytes \<times> bin_gateway \<times> bool" where
  "bin_drain rbuf g =
     (if length rbuf < SIZEOF_HEADER then (rbuf, g, True)
      else let hdr = load_header rbuf; msg_len = SIZEOF_HEADER + unat (mh_body_len hdr) in
        if mh_magic hdr \<noteq> BP_MAGIC then (rbuf, g\<lparr>bg_connected := False\<rparr>, False)
        else if length rbuf < msg_len then (rbuf, g, True)
        else bin_drain (drop msg_len rbuf) (handle_msg hdr (drop SIZEOF_HEADER rbuf) g))"
  by pat_completeness auto
termination
  by (relation "measure (\<lambda>(rbuf, g). length rbuf)") (auto simp: SIZEOF_HEADER_def)

declare bin_drain.simps [simp del]

definition RBUF_SIZE :: nat where "RBUF_SIZE = 65536"

text \<open>
  The outer loop: each number is what one \<open>recv\<close> delivers at most of the stream; nothing delivered,
  because the stream ended or the buffer is full, ends the connection.
\<close>

fun bin_run :: "nat list \<Rightarrow> bytes \<Rightarrow> bytes \<Rightarrow> bin_gateway \<Rightarrow> bytes \<times> bytes \<times> bin_gateway" where
  "bin_run [] stream rbuf g = (stream, rbuf, g)"
| "bin_run (n # ns) stream rbuf g =
     (if \<not> bg_connected g then (stream, rbuf, g)
      else let got = take (min n (RBUF_SIZE - length rbuf)) stream in
        if got = [] then (stream, rbuf, g\<lparr>bg_connected := False\<rparr>)
        else let (rbuf1, g1, alive) = bin_drain (rbuf @ got) g; stream1 = drop (length got) stream in
          if alive then bin_run ns stream1 rbuf1 g1 else (stream1, rbuf1, g1))"

subsection \<open>Frames\<close>

type_synonym frame = "msg_header \<times> bytes"

definition frame_bytes :: "frame \<Rightarrow> bytes" where
  "frame_bytes f = header_bytes (fst f) @ snd f"

definition frame_ok :: "frame \<Rightarrow> bool" where
  "frame_ok f \<longleftrightarrow> mh_magic (fst f) = BP_MAGIC \<and> unat (mh_body_len (fst f)) = length (snd f)
     \<and> SIZEOF_HEADER + length (snd f) \<le> RBUF_SIZE"

definition handle_frame :: "frame \<Rightarrow> bin_gateway \<Rightarrow> bin_gateway" where
  "handle_frame f = handle_msg (fst f) (snd f)"

lemma length_header_bytes [simp]: "length (header_bytes h) = SIZEOF_HEADER"
  by (simp add: header_bytes_def SIZEOF_HEADER_def)

lemma load_header_bytes [simp]: "load_header (header_bytes h @ rest) = h"
proof -
  let ?b = "header_bytes h @ rest"
  have "rd16 0 ?b = mh_magic h" by (rule rd16_here) (simp add: header_bytes_def)
  moreover have "rd8 2 ?b = mh_version h" by (rule rd8_here) (simp add: header_bytes_def)
  moreover have "rd8 3 ?b = mh_msg_type h" by (rule rd8_here) (simp add: header_bytes_def)
  moreover have "rd16 4 ?b = mh_body_len h" by (rule rd16_here) (simp add: header_bytes_def)
  moreover have "rd16 6 ?b = mh_checksum h" by (rule rd16_here) (simp add: header_bytes_def)
  ultimately show ?thesis by (simp add: load_header_def)
qed

lemma rd_append: "off + n \<le> length bs \<Longrightarrow> rd off n (bs @ rest) = rd off n bs"
  by (simp add: rd_def)

lemma load_ack_append: "SIZEOF_ACK \<le> length bs \<Longrightarrow> load_ack (bs @ rest) = load_ack bs"
  by (simp add: load_ack_def rd8_def rd64_def rd_append SIZEOF_ACK_def)

lemma load_fill_append: "SIZEOF_FILL \<le> length bs \<Longrightarrow> load_fill (bs @ rest) = load_fill bs"
  by (simp add: load_fill_def rd8_def rd32_def rd64_def rdi64_def rd_append SIZEOF_FILL_def)

lemma handle_msg_append:
  "unat (mh_body_len h) = length b \<Longrightarrow> handle_msg h (b @ rest) g = handle_msg h b g"
  by (simp add: handle_msg_def load_ack_append load_fill_append)

lemma bg_connected_send_msg [simp]: "bg_connected (fst (send_msg ty b n g)) = bg_connected g"
  by (simp add: send_msg_def Let_def)

lemma bg_connected_handle [simp]: "bg_connected (handle_msg h b g) = bg_connected g"
  by (simp add: handle_msg_def handle_ack_def handle_fill_def read_clock_def Let_def)

lemma bg_connected_frames: "bg_connected (fold handle_frame fs g) = bg_connected g"
  by (induction fs arbitrary: g) (simp_all add: handle_frame_def)

definition incomplete :: "bytes \<Rightarrow> frame list \<Rightarrow> bool" where
  "incomplete rbuf fs \<longleftrightarrow> (case fs of [] \<Rightarrow> rbuf = [] | f # _ \<Rightarrow> length rbuf < length (frame_bytes f))"

lemma bin_drain_partial:
  assumes "rbuf @ s = frame_bytes f @ rest" and "frame_ok f" and "length rbuf < length (frame_bytes f)"
  shows "bin_drain rbuf g = (rbuf, g, True)"
proof (cases "length rbuf < SIZEOF_HEADER")
  case True
  then show ?thesis by (simp add: bin_drain.simps)
next
  case False
  then have "take SIZEOF_HEADER (rbuf @ s) = take SIZEOF_HEADER rbuf" by simp
  then have t: "take SIZEOF_HEADER rbuf = header_bytes (fst f)"
    unfolding assms(1) by (simp add: frame_bytes_def)
  have h: "load_header rbuf = fst f"
    using load_header_bytes [of "fst f" "drop SIZEOF_HEADER rbuf"] t append_take_drop_id [of SIZEOF_HEADER rbuf] by metis
  have l: "length rbuf < SIZEOF_HEADER + unat (mh_body_len (fst f))"
    using assms(2,3) by (simp add: frame_ok_def frame_bytes_def)
  have m: "mh_magic (fst f) = BP_MAGIC" using assms(2) by (simp add: frame_ok_def)
  show ?thesis using False l m by (subst bin_drain.simps) (simp add: h Let_def)
qed

lemma bin_drain_frame:
  assumes "frame_ok f"
  shows "bin_drain (frame_bytes f @ r) g = bin_drain r (handle_frame f g)"
proof -
  let ?b = "frame_bytes f @ r"
  have h: "load_header ?b = fst f" by (simp add: frame_bytes_def)
  have m: "mh_magic (fst f) = BP_MAGIC" and n: "unat (mh_body_len (fst f)) = length (snd f)"
    using assms by (simp_all add: frame_ok_def)
  have "\<not> length ?b < SIZEOF_HEADER" "\<not> length ?b < SIZEOF_HEADER + length (snd f)"
    and "drop (SIZEOF_HEADER + length (snd f)) ?b = r" and "drop SIZEOF_HEADER ?b = snd f @ r"
    by (simp_all add: frame_bytes_def)
  then show ?thesis using m n handle_msg_append [OF n]
    by (subst bin_drain.simps) (simp add: h handle_frame_def Let_def)
qed

lemma bin_drain_frames:
  "rbuf @ s = concat (map frame_bytes fs) \<Longrightarrow> list_all frame_ok fs \<Longrightarrow>
   \<exists>k rbuf'. k \<le> length fs \<and> bin_drain rbuf g = (rbuf', fold handle_frame (take k fs) g, True)
     \<and> rbuf' @ s = concat (map frame_bytes (drop k fs)) \<and> incomplete rbuf' (drop k fs)"
proof (induction fs arbitrary: rbuf g)
  case Nil
  then show ?case by (simp add: bin_drain.simps SIZEOF_HEADER_def incomplete_def)
next
  case (Cons f fs)
  have ok: "frame_ok f" "list_all frame_ok fs" using Cons.prems(2) by simp_all
  have c: "rbuf @ s = frame_bytes f @ concat (map frame_bytes fs)" using Cons.prems(1) by simp
  show ?case
  proof (cases "length rbuf < length (frame_bytes f)")
    case True
    then show ?thesis using bin_drain_partial [OF c ok(1) True, of g] Cons.prems(1)
      by (intro exI [of _ 0] exI [of _ rbuf]) (simp add: incomplete_def)
  next
    case False
    let ?F = "frame_bytes f"
    define r where "r = drop (length ?F) rbuf"
    have "take (length ?F) (rbuf @ s) = take (length ?F) rbuf" using False by simp
    then have "take (length ?F) rbuf = ?F" unfolding c by simp
    then have r1: "rbuf = ?F @ r" unfolding r_def by (metis append_take_drop_id)
    then have r: "rbuf = ?F @ r" "r @ s = concat (map frame_bytes fs)" using c by simp_all
    from Cons.IH [OF r(2) ok(2), of "handle_frame f g"] obtain k rbuf' where
      "k \<le> length fs" "bin_drain r (handle_frame f g) = (rbuf', fold handle_frame (take k fs) (handle_frame f g), True)"
      "rbuf' @ s = concat (map frame_bytes (drop k fs))" "incomplete rbuf' (drop k fs)" by blast
    then show ?thesis using r(1) bin_drain_frame [OF ok(1), of r g]
      by (intro exI [of _ "Suc k"] exI [of _ rbuf']) simp
  qed
qed

lemma incomplete_room:
  "incomplete rbuf fs \<Longrightarrow> list_all frame_ok fs \<Longrightarrow> length rbuf < RBUF_SIZE"
  by (cases fs) (auto simp: incomplete_def frame_ok_def frame_bytes_def RBUF_SIZE_def)

lemma bin_run_step:
  assumes "bg_connected g" and "got = take (min n (RBUF_SIZE - length rbuf)) stream" and "got \<noteq> []"
    and "bin_drain (rbuf @ got) g = (rb, g1, True)"
  shows "bin_run (n # ns) stream rbuf g = bin_run ns (drop (length got) stream) rb g1"
  using assms(1,3,4) by (simp add: assms(2) [symmetric] Let_def del: take_eq_Nil)

lemma bin_run_frames:
  "rbuf @ stream = concat (map frame_bytes fs) \<Longrightarrow> list_all frame_ok fs \<Longrightarrow> incomplete rbuf fs \<Longrightarrow>
   bg_connected g \<Longrightarrow> bin_run ns stream rbuf g = (rest, rbuf', g') \<Longrightarrow>
   \<exists>k \<le> length fs. rbuf' @ rest = concat (map frame_bytes (drop k fs)) \<and> incomplete rbuf' (drop k fs)
     \<and> (g' = fold handle_frame (take k fs) g \<or> g' = (fold handle_frame (take k fs) g)\<lparr>bg_connected := False\<rparr>)"
proof (induction ns arbitrary: rbuf stream fs g)
  case Nil
  then show ?case by (intro exI [of _ 0]) simp
next
  case (Cons n ns)
  define got where "got = take (min n (RBUF_SIZE - length rbuf)) stream"
  show ?case
  proof (cases "got = []")
    case True
    then have "rest = stream \<and> rbuf' = rbuf \<and> g' = g\<lparr>bg_connected := False\<rparr>"
      using Cons.prems(4,5) by (simp add: got_def [symmetric] Let_def del: take_eq_Nil)
    then show ?thesis using Cons.prems(1,3) by (intro exI [of _ 0]) simp
  next
    case False
    let ?s = "drop (length got) stream"
    have "got @ ?s = stream" unfolding got_def by (metis append_take_drop_id append_eq_conv_conj)
    then have c: "(rbuf @ got) @ ?s = concat (map frame_bytes fs)" using Cons.prems(1) by (metis append.assoc)
    from bin_drain_frames [OF c Cons.prems(2), of g] obtain k rb where k: "k \<le> length fs"
      "bin_drain (rbuf @ got) g = (rb, fold handle_frame (take k fs) g, True)"
      "rb @ ?s = concat (map frame_bytes (drop k fs))" "incomplete rb (drop k fs)" by blast
    have run: "bin_run ns ?s rb (fold handle_frame (take k fs) g) = (rest, rbuf', g')"
      using Cons.prems(5) bin_run_step [OF Cons.prems(4) got_def False k(2)] by simp
    have ok: "list_all frame_ok (drop k fs)"
      using Cons.prems(2) by (metis append_take_drop_id list_all_append)
    from Cons.IH [OF k(3) ok k(4) _ run] obtain j where j: "j \<le> length (drop k fs)"
      "rbuf' @ rest = concat (map frame_bytes (drop j (drop k fs)))" "incomplete rbuf' (drop j (drop k fs))"
      "g' = fold handle_frame (take j (drop k fs)) (fold handle_frame (take k fs) g)
       \<or> g' = (fold handle_frame (take j (drop k fs)) (fold handle_frame (take k fs) g))\<lparr>bg_connected := False\<rparr>"
      using Cons.prems(4) bg_connected_frames by blast
    have t: "fold handle_frame (take j (drop k fs)) (fold handle_frame (take k fs) g) = fold handle_frame (take (j + k) fs) g"
      by (simp add: take_add add.commute [of j])
    have d: "drop j (drop k fs) = drop (j + k) fs" by simp
    have "j + k \<le> length fs" using j(1) k(1) by simp
    then show ?thesis using j(2,3,4) unfolding t d by blast
  qed
qed

lemma bin_run_stays_connected:
  "rbuf @ stream = concat (map frame_bytes fs) \<Longrightarrow> list_all frame_ok fs \<Longrightarrow> incomplete rbuf fs \<Longrightarrow>
   bg_connected g \<Longrightarrow> list_all (\<lambda>n. 0 < n) ns \<Longrightarrow> bin_run ns stream rbuf g = (rest, rbuf', g') \<Longrightarrow>
   rest \<noteq> [] \<Longrightarrow> bg_connected g' \<and> length rest + length ns \<le> length stream"
proof (induction ns arbitrary: rbuf stream fs g)
  case (Cons n ns)
  define got where "got = take (min n (RBUF_SIZE - length rbuf)) stream"
  have room: "length rbuf < RBUF_SIZE" by (rule incomplete_room [OF Cons.prems(3,2)])
  show ?case
  proof (cases "stream = []")
    case True
    then show ?thesis using Cons.prems(4,6,7) by simp
  next
    case False
    then have ne: "got \<noteq> []" using room Cons.prems(5) by (simp add: got_def)
    let ?s = "drop (length got) stream"
    have "got @ ?s = stream" unfolding got_def by (metis append_take_drop_id append_eq_conv_conj)
    then have c: "(rbuf @ got) @ ?s = concat (map frame_bytes fs)" using Cons.prems(1) by (metis append.assoc)
    from bin_drain_frames [OF c Cons.prems(2), of g] obtain k rb where k: "k \<le> length fs"
      "bin_drain (rbuf @ got) g = (rb, fold handle_frame (take k fs) g, True)"
      "rb @ ?s = concat (map frame_bytes (drop k fs))" "incomplete rb (drop k fs)" by blast
    have run: "bin_run ns ?s rb (fold handle_frame (take k fs) g) = (rest, rbuf', g')"
      using Cons.prems(6) bin_run_step [OF Cons.prems(4) got_def ne k(2)] by simp
    have ok: "list_all frame_ok (drop k fs)"
      using Cons.prems(2) by (metis append_take_drop_id list_all_append)
    have "bg_connected g' \<and> length rest + length ns \<le> length ?s"
      by (rule Cons.IH [OF k(3) ok k(4) _ _ run Cons.prems(7)])
        (use Cons.prems(4,5) bg_connected_frames in simp_all)
    moreover have "length ?s < length stream" using ne False by simp
    ultimately show ?thesis by simp
  qed
qed simp

text \<open>
  Claim C30. The receive loop does not depend on how TCP cuts the stream: whatever sizes the receives
  return, the messages of the stream that arrived completely have been handled one by one in order, the
  buffer and the rest of the stream are exactly the messages not yet handled; the buffer never overflows
  or fills; the connection is lost only at the end of the stream, and enough receives reach it with every
  message handled.
\<close>

theorem receive_any_chunking:
  assumes "list_all frame_ok fs" and "bg_connected g" and "list_all (\<lambda>n. 0 < n) ns"
    and "bin_run ns (concat (map frame_bytes fs)) [] g = (rest, rbuf, g')"
  shows "(\<exists>k \<le> length fs. rbuf @ rest = concat (map frame_bytes (drop k fs)) \<and> incomplete rbuf (drop k fs)
      \<and> (g' = fold handle_frame (take k fs) g \<or> rest = [] \<and> g' = (fold handle_frame (take k fs) g)\<lparr>bg_connected := False\<rparr>)
      \<and> (rest = [] \<longrightarrow> k = length fs))
    \<and> length rbuf < RBUF_SIZE \<and> (length (concat (map frame_bytes fs)) \<le> length ns \<longrightarrow> rest = [])"
proof -
  have c: "[] @ concat (map frame_bytes fs) = concat (map frame_bytes fs)" by simp
  have i: "incomplete [] fs"
    by (cases fs) (simp_all add: incomplete_def frame_bytes_def SIZEOF_HEADER_def header_bytes_def)
  from bin_run_frames [OF c assms(1) i assms(2,4)] obtain k where k: "k \<le> length fs"
    "rbuf @ rest = concat (map frame_bytes (drop k fs))" "incomplete rbuf (drop k fs)"
    "g' = fold handle_frame (take k fs) g \<or> g' = (fold handle_frame (take k fs) g)\<lparr>bg_connected := False\<rparr>" by blast
  note stay = bin_run_stays_connected [OF c assms(1) i assms(2,3,4)]
  have ok: "list_all frame_ok (drop k fs)" using assms(1) by (metis append_take_drop_id list_all_append)
  have all: "k = length fs" if "rest = []"
  proof (rule ccontr)
    assume "k \<noteq> length fs"
    then obtain f r where "drop k fs = f # r" using k(1) by (cases "drop k fs") auto
    then show False using k(2,3) that by (simp add: incomplete_def)
  qed
  have conn: "bg_connected g'" if "rest \<noteq> []" using stay [OF that] by blast
  have "g' = fold handle_frame (take k fs) g \<or> rest = [] \<and> g' = (fold handle_frame (take k fs) g)\<lparr>bg_connected := False\<rparr>"
    using k(4) conn by (cases "rest = []") auto
  moreover have "rest = []" if "length (concat (map frame_bytes fs)) \<le> length ns"
  proof (rule ccontr)
    assume r: "rest \<noteq> []"
    from stay [OF this] that have "length rest = 0" by linarith
    with r show False by simp
  qed
  ultimately show ?thesis using k(1,2,3) all incomplete_room [OF k(3) ok] by blast
qed

definition sample_fill_frame :: frame where
  "sample_fill_frame = (make_header MSG_ORDER_FILL 56, replicate 56 0)"

lemma make_header_fields [simp]:
  "mh_magic (make_header ty n) = BP_MAGIC" "mh_msg_type (make_header ty n) = ty" "mh_body_len (make_header ty n) = n"
  "mh_version (make_header ty n) = BP_VERSION"
  by (simp_all add: make_header_def Let_def)

lemma sample_frame_ok: "frame_ok sample_fill_frame"
  by (simp add: frame_ok_def sample_fill_frame_def SIZEOF_HEADER_def RBUF_SIZE_def)

definition bin_new :: "bin_gateway" where
  "bin_new = \<lparr>bg_connected = False, bg_last_rtt_ns = 0, bg_has_ack_cb = True, bg_has_fill_cb = True, bg_log = [],
     bg_wire = [], bg_accept = (\<lambda>_. 1000), bg_writes = 0, bg_clock = of_nat, bg_readings = 0\<rparr>"

lemma receive_any_chunking_witness:
  "\<exists>rbuf g'. bin_run (replicate 200 1) (concat (map frame_bytes [sample_fill_frame, sample_fill_frame])) []
      (bin_new\<lparr>bg_connected := True\<rparr>) = ([], rbuf, g') \<and> rbuf = []
    \<and> bg_log g' = bg_log (fold handle_frame [sample_fill_frame, sample_fill_frame] (bin_new\<lparr>bg_connected := True\<rparr>))"
proof -
  let ?fs = "[sample_fill_frame, sample_fill_frame]" and ?g = "bin_new\<lparr>bg_connected := True\<rparr>"
  obtain rest rbuf g' where r: "bin_run (replicate 200 1) (concat (map frame_bytes ?fs)) [] ?g = (rest, rbuf, g')"
    by (metis prod_cases3)
  have len: "length (concat (map frame_bytes ?fs)) \<le> length (replicate 200 (1 :: nat))"
    by (simp add: frame_bytes_def sample_fill_frame_def SIZEOF_HEADER_def)
  have a: "list_all frame_ok ?fs" "bg_connected ?g" "list_all (\<lambda>n. 0 < n) (replicate 200 (1 :: nat))"
    using sample_frame_ok by (simp_all add: bin_new_def list_all_iff)
  note spec = receive_any_chunking [OF a r]
  have rest: "rest = []" using spec len by blast
  then obtain k where k: "incomplete rbuf (drop k ?fs)" "k = length ?fs"
    "g' = fold handle_frame (take k ?fs) ?g \<or> g' = (fold handle_frame (take k ?fs) ?g)\<lparr>bg_connected := False\<rparr>"
    using spec by blast
  have "rbuf = []" using k(1,2) by (simp add: incomplete_def)
  moreover have "bg_log g' = bg_log (fold handle_frame ?fs ?g)" using k(2,3) by auto
  ultimately show ?thesis using r rest by blast
qed

subsection \<open>Orders on the wire\<close>

datatype bin_op = Op_new OrderRequest | Op_cancel u64 | Op_modify ModifyRequest

primrec bin_op_apply :: "bin_op \<Rightarrow> bin_gateway \<Rightarrow> bin_gateway" where
  "bin_op_apply (Op_new req) = bin_send_new_order req"
| "bin_op_apply (Op_cancel cloid) = bin_send_cancel cloid"
| "bin_op_apply (Op_modify m) = bin_send_modify m"

text \<open>What the exchange reads in a frame, by the documented layout of the bodies.\<close>

definition order_type_of_byte :: "u8 \<Rightarrow> OrderType" where
  "order_type_of_byte b =
     (if b = 0 then MARKET else if b = 1 then LIMIT else if b = 2 then IOC else if b = 3 then FOK else FAK)"

definition decode_op :: "frame \<Rightarrow> bin_op option" where
  "decode_op f = (let b = snd f in
     if mh_msg_type (fst f) = MSG_NEW_ORDER then
       Some (Op_new \<lparr>req_instrument_id = rd32 8 b, req_side = side_of_byte (rd8 12 b),
         req_type = order_type_of_byte (rd8 13 b), req_price = rdi64 16 b, req_qty = rdi64 24 b, req_strategy_ts_ns = rd64 0 b\<rparr>)
     else if mh_msg_type (fst f) = MSG_CANCEL then Some (Op_cancel (rd64 0 b))
     else if mh_msg_type (fst f) = MSG_MODIFY then
       Some (Op_modify \<lparr>mod_client_order_id = rd64 0 b, mod_new_price = rdi64 8 b, mod_new_qty = rdi64 16 b\<rparr>)
     else None)"

primrec op_in_range :: "bin_op \<Rightarrow> bool" where
  "op_in_range (Op_new req) \<longleftrightarrow> in_i64 (req_price req) \<and> in_i64 (req_qty req)"
| "op_in_range (Op_cancel cloid) \<longleftrightarrow> True"
| "op_in_range (Op_modify m) \<longleftrightarrow> in_i64 (mod_new_price m) \<and> in_i64 (mod_new_qty m)"

definition sealed :: "frame \<Rightarrow> bool" where
  "sealed f \<longleftrightarrow> mh_version (fst f) = BP_VERSION
     \<and> mh_checksum (fst f) = calc_checksum (fst f\<lparr>mh_checksum := 0\<rparr>)"

lemma sealed_make_header: "sealed (make_header ty n, b)"
  by (simp add: sealed_def) (simp add: make_header_def Let_def)

lemma msg_types_distinct [simp]:
  "MSG_CANCEL \<noteq> MSG_NEW_ORDER" "MSG_MODIFY \<noteq> MSG_NEW_ORDER" "MSG_MODIFY \<noteq> MSG_CANCEL"
  by (simp_all add: MSG_NEW_ORDER_def MSG_CANCEL_def MSG_MODIFY_def)

lemma side_of_byte_side [simp]: "side_of_byte (side_byte s) = s"
  by (cases s) (simp_all add: side_of_byte_def)

lemma order_type_of_byte_type [simp]: "order_type_of_byte (order_type_byte t) = t"
  by (cases t) (simp_all add: order_type_of_byte_def)

lemma length_bodies [simp]:
  "length (new_order_body now req) = 40" "length (cancel_body c) = 24" "length (modify_body m) = 24"
  by (simp_all add: new_order_body_def cancel_body_def modify_body_def)

lemma decode_new_order:
  assumes "in_i64 (req_price req)" and "in_i64 (req_qty req)"
  shows "decode_op (make_header MSG_NEW_ORDER 40, new_order_body now req) = Some (Op_new req)"
proof -
  let ?b = "new_order_body now req"
  note b = new_order_body_def
  have "rd64 0 ?b = req_strategy_ts_ns req" by (rule rd64_here) (simp add: b)
  moreover have "rd32 8 ?b = req_instrument_id req" by (rule rd32_here) (simp add: b)
  moreover have "rd8 12 ?b = side_byte (req_side req)" by (rule rd8_here) (simp add: b)
  moreover have "rd8 13 ?b = order_type_byte (req_type req)" by (rule rd8_here) (simp add: b)
  moreover have "rdi64 16 ?b = req_price req" by (rule rdi64_here [OF _ assms(1)]) (simp add: b)
  moreover have "rdi64 24 ?b = req_qty req" by (rule rdi64_here [OF _ assms(2)]) (simp add: b)
  ultimately show ?thesis by (simp add: decode_op_def)
qed

lemma decode_cancel: "decode_op (make_header MSG_CANCEL 24, cancel_body c) = Some (Op_cancel c)"
proof -
  have "rd64 0 (cancel_body c) = c" by (rule rd64_here) (simp add: cancel_body_def)
  then show ?thesis by (simp add: decode_op_def)
qed

lemma decode_modify:
  assumes "in_i64 (mod_new_price m)" and "in_i64 (mod_new_qty m)"
  shows "decode_op (make_header MSG_MODIFY 24, modify_body m) = Some (Op_modify m)"
proof -
  let ?b = "modify_body m"
  have "rd64 0 ?b = mod_client_order_id m" by (rule rd64_here) (simp add: modify_body_def)
  moreover have "rdi64 8 ?b = mod_new_price m" by (rule rdi64_here [OF _ assms(1)]) (simp add: modify_body_def)
  moreover have "rdi64 16 ?b = mod_new_qty m" by (rule rdi64_here [OF _ assms(2), where rest = "[]"]) (simp add: modify_body_def)
  ultimately show ?thesis by (simp add: decode_op_def)
qed

lemma send_msg_full:
  assumes "SIZEOF_HEADER + length body \<le> bg_accept g (bg_writes g)" and "unat n = length body"
  shows "bg_wire (fst (send_msg ty body n g)) = bg_wire g @ frame_bytes (make_header ty n, body)"
    and "bg_accept (fst (send_msg ty body n g)) = bg_accept g"
  using assms by (simp_all add: send_msg_def frame_bytes_def Let_def)

lemma bin_op_apply_frame:
  assumes "\<And>k. 48 \<le> bg_accept g k" and "op_in_range op"
  shows "\<exists>f. bg_wire (bin_op_apply op g) = bg_wire g @ frame_bytes f \<and> frame_ok f \<and> sealed f \<and> decode_op f = Some op
    \<and> bg_accept (bin_op_apply op g) = bg_accept g"
proof (cases op)
  case (Op_new req)
  obtain g1 now where c: "read_clock g = (g1, now)" by force
  then have g1: "bg_wire g1 = bg_wire g" "bg_accept g1 = bg_accept g" by (auto simp: read_clock_def)
  let ?b = "new_order_body now req"
  have "SIZEOF_HEADER + length ?b \<le> bg_accept g1 (bg_writes g1)" using assms(1) g1 by (simp add: SIZEOF_HEADER_def)
  note s = send_msg_full [OF this, of 40 MSG_NEW_ORDER]
  have "frame_ok (make_header MSG_NEW_ORDER 40, ?b)" by (simp add: frame_ok_def SIZEOF_HEADER_def RBUF_SIZE_def)
  then show ?thesis
    using s g1 c Op_new sealed_make_header decode_new_order [of req now] assms(2)
    by (intro exI [of _ "(make_header MSG_NEW_ORDER 40, ?b)"]) (simp add: bin_send_new_order_def)
next
  case (Op_cancel i)
  have "SIZEOF_HEADER + length (cancel_body i) \<le> bg_accept g (bg_writes g)"
    using assms(1) [of "bg_writes g"] by (simp add: SIZEOF_HEADER_def)
  note s = send_msg_full [OF this, of 24 MSG_CANCEL]
  have "frame_ok (make_header MSG_CANCEL 24, cancel_body i)" by (simp add: frame_ok_def SIZEOF_HEADER_def RBUF_SIZE_def)
  then show ?thesis using s Op_cancel sealed_make_header decode_cancel
    by (intro exI [of _ "(make_header MSG_CANCEL 24, cancel_body i)"]) (simp add: bin_send_cancel_def)
next
  case (Op_modify m)
  have "SIZEOF_HEADER + length (modify_body m) \<le> bg_accept g (bg_writes g)"
    using assms(1) [of "bg_writes g"] by (simp add: SIZEOF_HEADER_def)
  note s = send_msg_full [OF this, of 24 MSG_MODIFY]
  have "frame_ok (make_header MSG_MODIFY 24, modify_body m)" by (simp add: frame_ok_def SIZEOF_HEADER_def RBUF_SIZE_def)
  then show ?thesis using s Op_modify sealed_make_header decode_modify [of m] assms(2)
    by (intro exI [of _ "(make_header MSG_MODIFY 24, modify_body m)"]) (simp add: bin_send_modify_def)
qed

text \<open>
  Claim C31. Orders, cancels and modifications sent over a socket that takes each message whole appear on the
  wire as well-formed frames with the right version and checksum, in order, from which the documented layout
  gives back exactly the requests; the receive loop's own framing accepts these frames.
\<close>

theorem orders_on_the_wire:
  assumes "\<And>k. 48 \<le> bg_accept g k" and "list_all op_in_range ops"
  shows "\<exists>fs. bg_wire (fold bin_op_apply ops g) = bg_wire g @ concat (map frame_bytes fs)
    \<and> list_all frame_ok fs \<and> list_all sealed fs \<and> map decode_op fs = map Some ops"
  using assms
proof (induction ops arbitrary: g)
  case Nil
  show ?case by (intro exI [of _ "[]"]) simp
next
  case (Cons op ops)
  obtain f where f: "bg_wire (bin_op_apply op g) = bg_wire g @ frame_bytes f" "frame_ok f" "sealed f"
    "decode_op f = Some op" "bg_accept (bin_op_apply op g) = bg_accept g"
    using bin_op_apply_frame [OF Cons.prems(1), of op] Cons.prems(2) by auto
  have "\<And>k. 48 \<le> bg_accept (bin_op_apply op g) k" using Cons.prems(1) f(5) by simp
  from Cons.IH [OF this] Cons.prems(2) obtain fs where
    "bg_wire (fold bin_op_apply ops (bin_op_apply op g)) = bg_wire (bin_op_apply op g) @ concat (map frame_bytes fs)"
    "list_all frame_ok fs" "list_all sealed fs" "map decode_op fs = map Some ops" by auto
  then show ?case using f by (intro exI [of _ "f # fs"]) simp
qed

lemma orders_on_the_wire_witness:
  "\<exists>fs. bg_wire (fold bin_op_apply [Op_new (req0\<lparr>req_qty := 5\<rparr>), Op_cancel 7] bin_new) = concat (map frame_bytes fs)
    \<and> map decode_op fs = [Some (Op_new (req0\<lparr>req_qty := 5\<rparr>)), Some (Op_cancel 7)]"
  using orders_on_the_wire [of bin_new "[Op_new (req0\<lparr>req_qty := 5\<rparr>), Op_cancel 7]"]
  by (auto simp: bin_new_def req0_def in_i64_def)

end
