(* ===== verification/Backtest.thy ===== *)
theory Backtest
  imports Gateway Position
begin

text \<open>
  \<^verbatim>\<open>backtest/sim_exchange.cpp\<close> and \<^verbatim>\<open>backtest/backtester.cpp\<close>: the simulated exchange and the engine that
  feeds it quotes.  The handlers of the engine are functions of a user state that may send orders in
  reply, which is all a handler can do to the exchange.  \<open>bt_sent\<close> and \<open>bt_filled\<close> record what happened.
\<close>

subsection \<open>SimExchange\<close>

record pending_entry =
  pe_req :: OrderRequest
  pe_arrive_ts_ns :: Timestamp
  pe_client_order_id :: u64
  pe_exchange_order_id :: u64

record sim_exchange =
  sx_slippage_ticks :: b64
  sx_fill_ratio :: b64
  sx_next_client_order_id :: u64
  sx_next_exchange_order_id :: u64
  sx_pending :: "pending_entry list"
  sx_acks :: "OrderAck list"
  sx_fills :: "FillEvent list"

definition sx_new :: "b64 \<Rightarrow> b64 \<Rightarrow> sim_exchange" where
  "sx_new slippage ratio = \<lparr>sx_slippage_ticks = slippage, sx_fill_ratio = ratio, sx_next_client_order_id = 1,
     sx_next_exchange_order_id = 1, sx_pending = [], sx_acks = [], sx_fills = []\<rparr>"

definition sx_send_new_order :: "OrderRequest \<Rightarrow> sim_exchange \<Rightarrow> sim_exchange" where
  "sx_send_new_order req x =
     (let entry = \<lparr>pe_req = req, pe_arrive_ts_ns = req_strategy_ts_ns req,
                   pe_client_order_id = sx_next_client_order_id x, pe_exchange_order_id = sx_next_exchange_order_id x\<rparr>
      in x\<lparr>sx_next_client_order_id := sx_next_client_order_id x + 1,
           sx_next_exchange_order_id := sx_next_exchange_order_id x + 1, sx_pending := sx_pending x @ [entry]\<rparr>)"

definition sx_send_cancel :: "u64 \<Rightarrow> sim_exchange \<Rightarrow> sim_exchange" where "sx_send_cancel cloid x = x"
definition sx_send_modify :: "ModifyRequest \<Rightarrow> sim_exchange \<Rightarrow> sim_exchange" where "sx_send_modify m x = x"
definition sx_is_connected :: "sim_exchange \<Rightarrow> bool" where "sx_is_connected x = True"
definition sx_get_rtt_ns :: "sim_exchange \<Rightarrow> u64" where "sx_get_rtt_ns x = 500000"
definition sx_pending_count :: "sim_exchange \<Rightarrow> nat" where "sx_pending_count x = length (sx_pending x)"

definition sx_can_fill :: "BBOEvent \<Rightarrow> Price \<Rightarrow> OrderRequest \<Rightarrow> bool" where
  "sx_can_fill bbo slippage req =
     (if req_type req = LIMIT then
        (if req_side req = BUY then ask_px bbo \<le> i64 (req_price req + slippage)
         else bid_px bbo \<ge> i64 (req_price req - slippage))
      else req_type req = MARKET)"

definition sx_fill_qty :: "b64 \<Rightarrow> Qty \<Rightarrow> Qty" where
  "sx_fill_qty ratio q = b64_to_i64 (b64_mult (b64_of_int q) ratio)"

definition sx_ack_of :: "BBOEvent \<Rightarrow> pending_entry \<Rightarrow> OrderAck" where
  "sx_ack_of bbo e = \<lparr>ak_client_order_id = pe_client_order_id e, ak_exchange_order_id = pe_exchange_order_id e,
     ak_status = NEW, ak_ack_ts_ns = local_ts_ns bbo\<rparr>"

definition sx_fill_of :: "BBOEvent \<Rightarrow> b64 \<Rightarrow> pending_entry \<Rightarrow> FillEvent" where
  "sx_fill_of bbo ratio e =
     (let req = pe_req e; q = sx_fill_qty ratio (req_qty req) in
      \<lparr>fe_client_order_id = pe_client_order_id e, fe_exchange_order_id = pe_exchange_order_id e,
       fe_instrument_id = req_instrument_id req, fe_side = req_side req,
       fe_fill_price = (if req_side req = BUY then ask_px bbo else bid_px bbo), fe_fill_qty = q,
       fe_remaining_qty = i64 (req_qty req - q), fe_fill_ts_ns = local_ts_ns bbo\<rparr>)"

text \<open>The body of the loop, for the entry taken from the front of the queue.\<close>

definition match_entry :: "BBOEvent \<Rightarrow> Price \<Rightarrow> pending_entry \<Rightarrow> sim_exchange \<Rightarrow> sim_exchange" where
  "match_entry bbo slippage entry x =
     (let req = pe_req entry in
      if \<not> sx_can_fill bbo slippage req then x\<lparr>sx_pending := sx_pending x @ [entry]\<rparr>
      else let q = sx_fill_qty (sx_fill_ratio x) (req_qty req) in
        if q \<le> 0 then x
        else let x1 = x\<lparr>sx_acks := sx_acks x @ [sx_ack_of bbo entry],
                        sx_fills := sx_fills x @ [sx_fill_of bbo (sx_fill_ratio x) entry]\<rparr>;
                 remaining = i64 (req_qty req - q)
             in if remaining > 0
                then x1\<lparr>sx_pending := sx_pending x1 @ [entry\<lparr>pe_req := req\<lparr>req_qty := remaining\<rparr>\<rparr>]\<rparr> else x1)"

definition match_front :: "BBOEvent \<Rightarrow> Price \<Rightarrow> sim_exchange \<Rightarrow> sim_exchange" where
  "match_front bbo slippage x =
     match_entry bbo slippage (hd (sx_pending x)) (x\<lparr>sx_pending := tl (sx_pending x)\<rparr>)"

definition sx_process_bbo :: "BBOEvent \<Rightarrow> sim_exchange \<Rightarrow> sim_exchange" where
  "sx_process_bbo bbo x =
     (if \<not> is_valid_bbo bbo then x
      else let slippage = b64_to_i64 (sx_slippage_ticks x)
           in (match_front bbo slippage ^^ length (sx_pending x)) x)"

definition sx_pop_ack :: "sim_exchange \<Rightarrow> sim_exchange \<times> OrderAck option" where
  "sx_pop_ack x = (case sx_acks x of [] \<Rightarrow> (x, None) | a # r \<Rightarrow> (x\<lparr>sx_acks := r\<rparr>, Some a))"

definition sx_pop_fill :: "sim_exchange \<Rightarrow> sim_exchange \<times> FillEvent option" where
  "sx_pop_fill x = (case sx_fills x of [] \<Rightarrow> (x, None) | f # r \<Rightarrow> (x\<lparr>sx_fills := r\<rparr>, Some f))"

text \<open>It is a gateway in the sense of the interface, with the queue of pending requests as what was sent.\<close>

interpretation exchange: gateway "\<lambda>now. sx_send_new_order" "\<lambda>x. map pe_req (sx_pending x)" sx_is_connected sx_get_rtt_ns
  by unfold_locales (simp_all add: sx_send_new_order_def sx_is_connected_def sx_get_rtt_ns_def Let_def)

subsection \<open>Backtester\<close>

record 'u backtester =
  bt_exchange :: sim_exchange
  bt_pm :: position_manager
  bt_bbo_count :: u64
  bt_fill_count :: u64
  bt_user :: 'u
  bt_sent :: "OrderRequest list"
  bt_filled :: "FillEvent list"

definition bt_new :: "b64 \<Rightarrow> b64 \<Rightarrow> 'u \<Rightarrow> 'u backtester" where
  "bt_new slippage ratio u = \<lparr>bt_exchange = sx_new slippage ratio, bt_pm = pm_new, bt_bbo_count = 0, bt_fill_count = 0,
     bt_user = u, bt_sent = [], bt_filled = []\<rparr>"

definition bt_send :: "OrderRequest \<Rightarrow> 'u backtester \<Rightarrow> 'u backtester" where
  "bt_send req b = b\<lparr>bt_exchange := sx_send_new_order req (bt_exchange b), bt_sent := bt_sent b @ [req]\<rparr>"

text \<open>Calling a registered handler: it changes the user state and sends orders; without one, nothing.\<close>

definition bt_call :: "('e \<Rightarrow> 'u \<Rightarrow> 'u \<times> OrderRequest list) option \<Rightarrow> 'e \<Rightarrow> 'u backtester \<Rightarrow> 'u backtester" where
  "bt_call h e b = (case h of None \<Rightarrow> b
     | Some f \<Rightarrow> let (u, reqs) = f e (bt_user b) in fold bt_send reqs (b\<lparr>bt_user := u\<rparr>))"

lemma bt_send_queues [simp]:
  "sx_acks (bt_exchange (bt_send r b)) = sx_acks (bt_exchange b)"
  "sx_fills (bt_exchange (bt_send r b)) = sx_fills (bt_exchange b)"
  by (simp_all add: bt_send_def sx_send_new_order_def Let_def)

lemma bt_sends_queues [simp]:
  "sx_acks (bt_exchange (fold bt_send rs b)) = sx_acks (bt_exchange b)"
  "sx_fills (bt_exchange (fold bt_send rs b)) = sx_fills (bt_exchange b)"
  by (induction rs arbitrary: b) simp_all

lemma bt_call_queues [simp]:
  "sx_acks (bt_exchange (bt_call h e b)) = sx_acks (bt_exchange b)"
  "sx_fills (bt_exchange (bt_call h e b)) = sx_fills (bt_exchange b)"
  by (simp_all add: bt_call_def case_prod_beta Let_def split: option.split)

text \<open>The two \<open>while\<close> loops; they end because a handler cannot add to the queues they empty.\<close>

function drain_acks :: "(OrderAck \<Rightarrow> 'u \<Rightarrow> 'u \<times> OrderRequest list) option \<Rightarrow> 'u backtester \<Rightarrow> 'u backtester" where
  "drain_acks h b =
     (case sx_pop_ack (bt_exchange b) of
        (x, None) \<Rightarrow> b
      | (x, Some a) \<Rightarrow> drain_acks h (bt_call h a (b\<lparr>bt_exchange := x\<rparr>)))"
  by pat_completeness auto
termination
  by (relation "measure (\<lambda>(h, b). length (sx_acks (bt_exchange b)))")
    (auto simp: sx_pop_ack_def split: list.splits)

definition take_fill :: "(FillEvent \<Rightarrow> 'u \<Rightarrow> 'u \<times> OrderRequest list) option \<Rightarrow> FillEvent \<Rightarrow> 'u backtester \<Rightarrow> 'u backtester" where
  "take_fill h f b = bt_call h f (b\<lparr>bt_fill_count := bt_fill_count b + 1, bt_pm := pm_on_fill f (bt_pm b),
     bt_filled := bt_filled b @ [f]\<rparr>)"

function drain_fills :: "(FillEvent \<Rightarrow> 'u \<Rightarrow> 'u \<times> OrderRequest list) option \<Rightarrow> 'u backtester \<Rightarrow> 'u backtester" where
  "drain_fills h b =
     (case sx_pop_fill (bt_exchange b) of
        (x, None) \<Rightarrow> b
      | (x, Some f) \<Rightarrow> drain_fills h (take_fill h f (b\<lparr>bt_exchange := x\<rparr>)))"
  by pat_completeness auto
termination
  by (relation "measure (\<lambda>(h, b). length (sx_fills (bt_exchange b)))")
    (auto simp: sx_pop_fill_def take_fill_def split: list.splits)

declare drain_acks.simps [simp del] drain_fills.simps [simp del]

definition feed_bbo :: "(OrderAck \<Rightarrow> 'u \<Rightarrow> 'u \<times> OrderRequest list) option
    \<Rightarrow> (FillEvent \<Rightarrow> 'u \<Rightarrow> 'u \<times> OrderRequest list) option \<Rightarrow> BBOEvent \<Rightarrow> 'u backtester \<Rightarrow> 'u backtester" where
  "feed_bbo ha hf bbo b =
     (let b1 = b\<lparr>bt_bbo_count := bt_bbo_count b + 1\<rparr>;
          b2 = b1\<lparr>bt_exchange := sx_process_bbo bbo (bt_exchange b1)\<rparr>
      in drain_fills hf (drain_acks ha b2))"

datatype bt_op = Bt_order OrderRequest | Bt_bbo BBOEvent

primrec bt_step :: "(OrderAck \<Rightarrow> 'u \<Rightarrow> 'u \<times> OrderRequest list) option
    \<Rightarrow> (FillEvent \<Rightarrow> 'u \<Rightarrow> 'u \<times> OrderRequest list) option \<Rightarrow> bt_op \<Rightarrow> 'u backtester \<Rightarrow> 'u backtester" where
  "bt_step ha hf (Bt_order req) b = bt_send req b"
| "bt_step ha hf (Bt_bbo bbo) b = feed_bbo ha hf bbo b"

definition bt_run :: "(OrderAck \<Rightarrow> 'u \<Rightarrow> 'u \<times> OrderRequest list) option
    \<Rightarrow> (FillEvent \<Rightarrow> 'u \<Rightarrow> 'u \<times> OrderRequest list) option \<Rightarrow> bt_op list \<Rightarrow> 'u backtester \<Rightarrow> 'u backtester" where
  "bt_run ha hf ops b = fold (bt_step ha hf) ops b"

subsection \<open>The ledger of a run\<close>

definition known :: "OrderRequest list \<Rightarrow> u64 \<Rightarrow> bool" where
  "known sent ident \<longleftrightarrow> 1 \<le> unat ident \<and> unat ident \<le> length sent"

definition order_of :: "OrderRequest list \<Rightarrow> u64 \<Rightarrow> OrderRequest" where
  "order_of sent ident = sent ! (unat ident - 1)"

definition filled_for :: "u64 \<Rightarrow> FillEvent list \<Rightarrow> int" where
  "filled_for ident fs = (\<Sum>f\<leftarrow>filter (\<lambda>f. fe_client_order_id f = ident) fs. fe_fill_qty f)"

definition pending_for :: "u64 \<Rightarrow> pending_entry list \<Rightarrow> int" where
  "pending_for ident ps = (\<Sum>e\<leftarrow>filter (\<lambda>e. pe_client_order_id e = ident) ps. req_qty (pe_req e))"

definition order_ok :: "OrderRequest \<Rightarrow> bool" where
  "order_ok req \<longleftrightarrow> 0 < req_qty req \<and> req_qty req \<le> 2 ^ 53"

text \<open>A fill is justified when its order was sent, is of a type that trades, and its limit allows the price.\<close>

definition fill_justified :: "Price \<Rightarrow> OrderRequest list \<Rightarrow> FillEvent \<Rightarrow> bool" where
  "fill_justified slip sent f \<longleftrightarrow> known sent (fe_client_order_id f) \<and>
     (let r = order_of sent (fe_client_order_id f) in
        fe_instrument_id f = req_instrument_id r \<and> fe_side f = req_side r \<and> 0 < fe_fill_qty f
      \<and> (req_type r = LIMIT \<or> req_type r = MARKET)
      \<and> (req_type r = LIMIT \<longrightarrow>
           (if req_side r = BUY then fe_fill_price f \<le> i64 (req_price r + slip)
            else fe_fill_price f \<ge> i64 (req_price r - slip))))"

definition pending_ok :: "OrderRequest list \<Rightarrow> pending_entry \<Rightarrow> bool" where
  "pending_ok sent e \<longleftrightarrow> known sent (pe_client_order_id e) \<and> order_ok (pe_req e)
     \<and> pe_req e = (order_of sent (pe_client_order_id e))\<lparr>req_qty := req_qty (pe_req e)\<rparr>"

definition ledger :: "Price \<Rightarrow> OrderRequest list \<Rightarrow> sim_exchange \<Rightarrow> FillEvent list \<Rightarrow> bool" where
  "ledger slip sent x fs \<longleftrightarrow> sx_next_client_order_id x = of_nat (Suc (length sent))
     \<and> list_all (pending_ok sent) (sx_pending x) \<and> list_all (fill_justified slip sent) fs
     \<and> (\<forall>k. known sent k \<longrightarrow> filled_for k fs + pending_for k (sx_pending x) \<le> req_qty (order_of sent k))"

lemma for_simps [simp]:
  "filled_for k [] = 0" "filled_for k (fs @ gs) = filled_for k fs + filled_for k gs"
  "filled_for k (f # fs) = (if fe_client_order_id f = k then fe_fill_qty f else 0) + filled_for k fs"
  "pending_for k [] = 0" "pending_for k (ps @ qs) = pending_for k ps + pending_for k qs"
  "pending_for k (e # ps) = (if pe_client_order_id e = k then req_qty (pe_req e) else 0) + pending_for k ps"
  by (simp_all add: filled_for_def pending_for_def)

lemma known_append: "known sent k \<Longrightarrow> known (sent @ rs) k \<and> order_of (sent @ rs) k = order_of sent k"
  by (auto simp: known_def order_of_def nth_append)

lemma pending_ok_append: "pending_ok sent e \<Longrightarrow> pending_ok (sent @ rs) e"
  unfolding pending_ok_def using known_append by metis

lemma fill_justified_append: "fill_justified slip sent f \<Longrightarrow> fill_justified slip (sent @ rs) f"
  unfolding fill_justified_def using known_append by metis

lemma filled_for_unknown: "list_all (fill_justified slip sent) fs \<Longrightarrow> \<not> known sent k \<Longrightarrow> filled_for k fs = 0"
  by (induction fs) (auto simp: fill_justified_def)

lemma pending_for_unknown: "list_all (pending_ok sent) ps \<Longrightarrow> \<not> known sent k \<Longrightarrow> pending_for k ps = 0"
  by (induction ps) (auto simp: pending_ok_def)

lemma ledger_send:
  assumes "ledger slip sent x fs" and "order_ok req" and "length sent + 2 < 2 ^ 64"
  shows "ledger slip (sent @ [req]) (sx_send_new_order req x) fs"
proof -
  let ?id = "sx_next_client_order_id x"
  let ?e = "\<lparr>pe_req = req, pe_arrive_ts_ns = req_strategy_ts_ns req, pe_client_order_id = ?id,
             pe_exchange_order_id = sx_next_exchange_order_id x\<rparr>"
  note l = assms(1) [unfolded ledger_def]
  have ident: "unat ?id = Suc (length sent)" using l assms(3) unat_of_nat_u64 [of "Suc (length sent)"] by simp
  then have new: "known (sent @ [req]) ?id" "order_of (sent @ [req]) ?id = req" "\<not> known sent ?id"
    by (simp_all add: known_def order_of_def nth_append)
  have p: "sx_pending (sx_send_new_order req x) = sx_pending x @ [?e]"
    by (simp add: sx_send_new_order_def Let_def)
  have n: "sx_next_client_order_id (sx_send_new_order req x) = of_nat (Suc (length (sent @ [req])))"
    using l by (simp add: sx_send_new_order_def Let_def)
  have e: "pending_ok (sent @ [req]) ?e" using new assms(2) by (simp add: pending_ok_def)
  have c: "filled_for k fs + pending_for k (sx_pending x @ [?e]) \<le> req_qty (order_of (sent @ [req]) k)"
    if k: "known (sent @ [req]) k" for k
  proof (cases "known sent k")
    case True
    then have "k \<noteq> ?id" using new(3) by blast
    then show ?thesis using l True known_append [OF True, of "[req]"] by simp
  next
    case False
    then have "unat k = Suc (length sent)" using k by (simp add: known_def)
    then have "k = ?id" using ident by (metis word_unat_eq_iff)
    moreover have "filled_for k fs = 0" "pending_for k (sx_pending x) = 0"
      using l False filled_for_unknown pending_for_unknown by blast+
    ultimately show ?thesis using new(2) by simp
  qed
  show ?thesis
    unfolding ledger_def p n using l c e pending_ok_append fill_justified_append
    by (simp add: list_all_iff)
qed

lemma ledger_match_front:
  assumes "ledger slip sent x (fs @ sx_fills x)" and "sx_pending x \<noteq> []"
    and "sx_fill_ratio x = Fin r" "0 \<le> r" "r \<le> 1"
  shows "ledger slip sent (match_front bbo slip x) (fs @ sx_fills (match_front bbo slip x))"
proof -
  obtain e ps where p: "sx_pending x = e # ps" using assms(2) by (cases "sx_pending x") auto
  note l = assms(1) [unfolded ledger_def p]
  let ?id = "pe_client_order_id e" and ?req = "pe_req e"
  let ?q = "sx_fill_qty (Fin r) (req_qty ?req)"
  have ok: "known sent ?id" "order_ok ?req" "?req = (order_of sent ?id)\<lparr>req_qty := req_qty ?req\<rparr>"
    using l by (simp_all add: pending_ok_def)
  have q: "0 \<le> ?q" "?q \<le> req_qty ?req"
    using b64_scale_bounds [of "req_qty ?req" r] ok(2) assms(4,5) by (simp_all add: sx_fill_qty_def order_ok_def)
  have rem: "i64 (req_qty ?req - ?q) = req_qty ?req - ?q"
    using q ok(2) by (intro i64_id) (simp add: in_i64_def order_ok_def)
  show ?thesis
  proof (cases "sx_can_fill bbo slip ?req")
    case False
    then have m: "match_front bbo slip x = x\<lparr>sx_pending := ps @ [e]\<rparr>"
      by (simp add: match_front_def match_entry_def p Let_def)
    show ?thesis unfolding m ledger_def using l by (simp add: add.commute add.left_commute)
  next
    case can: True
    have fields: "req_type (order_of sent ?id) = req_type ?req" "req_side (order_of sent ?id) = req_side ?req"
      "req_price (order_of sent ?id) = req_price ?req" "req_instrument_id (order_of sent ?id) = req_instrument_id ?req"
      using arg_cong [OF ok(3), of req_type] arg_cong [OF ok(3), of req_side] arg_cong [OF ok(3), of req_price]
        arg_cong [OF ok(3), of req_instrument_id] by simp_all
    show ?thesis
    proof (cases "?q \<le> 0")
      case True
      then have m: "match_front bbo slip x = x\<lparr>sx_pending := ps\<rparr>"
        using can by (simp add: match_front_def match_entry_def p assms(3) Let_def)
      have "filled_for k (fs @ sx_fills x) + pending_for k ps \<le> req_qty (order_of sent k)" if "known sent k" for k
        using l that ok(2) by (force simp: order_ok_def split: if_splits)
      then show ?thesis unfolding m ledger_def using l by simp
    next
      case False
      let ?f = "sx_fill_of bbo (Fin r) e"
      let ?left = "if req_qty ?req - ?q > 0 then [e\<lparr>pe_req := ?req\<lparr>req_qty := req_qty ?req - ?q\<rparr>\<rparr>] else []"
      have m: "sx_pending (match_front bbo slip x) = ps @ ?left"
        "sx_fills (match_front bbo slip x) = sx_fills x @ [?f]"
        "sx_next_client_order_id (match_front bbo slip x) = sx_next_client_order_id x"
        using can False by (simp_all add: match_front_def match_entry_def p assms(3) Let_def rem)
      have j: "fill_justified slip sent ?f"
        using ok(1) fields False can
        by (auto simp: fill_justified_def sx_fill_of_def sx_can_fill_def Let_def split: if_splits)
      have o: "order_ok (?req\<lparr>req_qty := req_qty ?req - ?q\<rparr>)" if "req_qty ?req - ?q > 0"
        using that ok(2) q(1) by (simp add: order_ok_def)
      have pl: "list_all (pending_ok sent) ?left"
        using ok(1,3) o by (simp add: pending_ok_def) (metis OrderRequest.surjective OrderRequest.update_convs(5))
      have fq: "fe_fill_qty ?f = ?q" "fe_client_order_id ?f = ?id" by (simp_all add: sx_fill_of_def Let_def)
      have "filled_for k (fs @ sx_fills x @ [?f]) + pending_for k (ps @ ?left) \<le> req_qty (order_of sent k)"
        if "known sent k" for k
      proof -
        have "filled_for k (fs @ sx_fills x) + pending_for k (e # ps) \<le> req_qty (order_of sent k)" using l that by blast
        moreover have "filled_for k [?f] + pending_for k ?left \<le> pending_for k [e]" using fq q by simp
        ultimately show ?thesis by simp
      qed
      then show ?thesis unfolding ledger_def m using l j pl by simp
    qed
  qed
qed

lemma match_front_shape:
  "sx_pending x \<noteq> [] \<Longrightarrow> length (sx_pending x) \<le> Suc (length (sx_pending (match_front bbo slip x)))"
  "sx_fill_ratio (match_front bbo slip x) = sx_fill_ratio x"
  "sx_slippage_ticks (match_front bbo slip x) = sx_slippage_ticks x"
  by (auto simp: match_front_def match_entry_def Let_def)

lemma ledger_matches:
  "ledger slip sent x (fs @ sx_fills x) \<Longrightarrow> n \<le> length (sx_pending x) \<Longrightarrow> sx_fill_ratio x = Fin r \<Longrightarrow> 0 \<le> r \<Longrightarrow> r \<le> 1 \<Longrightarrow>
   ledger slip sent ((match_front bbo slip ^^ n) x) (fs @ sx_fills ((match_front bbo slip ^^ n) x))"
proof (induction n arbitrary: x)
  case (Suc n)
  then have ne: "sx_pending x \<noteq> []" by auto
  have "n \<le> length (sx_pending (match_front bbo slip x))" using match_front_shape(1) [OF ne, of bbo slip] Suc.prems(2) by simp
  from Suc.IH [OF ledger_match_front [OF Suc.prems(1) ne Suc.prems(3-5)] this] Suc.prems(3-5) match_front_shape(2)
  show ?case by (simp add: funpow_swap1)
qed simp

lemma matches_shape:
  "sx_fill_ratio ((match_front bbo slip ^^ n) x) = sx_fill_ratio x"
  "sx_slippage_ticks ((match_front bbo slip ^^ n) x) = sx_slippage_ticks x"
  by (induction n) (simp_all add: match_front_shape)

definition bt_inv :: "b64 \<Rightarrow> rat \<Rightarrow> 'u backtester \<Rightarrow> bool" where
  "bt_inv slippage r b \<longleftrightarrow> sx_slippage_ticks (bt_exchange b) = slippage \<and> sx_fill_ratio (bt_exchange b) = Fin r
     \<and> (list_all order_ok (bt_sent b) \<longrightarrow> length (bt_sent b) + 1 < 2 ^ 64 \<longrightarrow>
          ledger (b64_to_i64 slippage) (bt_sent b) (bt_exchange b) (bt_filled b @ sx_fills (bt_exchange b)))
     \<and> bt_pm b = fold pm_on_fill (bt_filled b) pm_new \<and> bt_fill_count b = of_nat (length (bt_filled b))"

lemma bt_inv_new: "bt_inv slippage r (bt_new slippage (Fin r) u)"
  by (simp add: bt_inv_def bt_new_def sx_new_def ledger_def known_def)

lemma bt_inv_send: "bt_inv slippage r b \<Longrightarrow> bt_inv slippage r (bt_send req b)"
proof -
  assume inv: "bt_inv slippage r b"
  let ?b = "bt_send req b" and ?slip = "b64_to_i64 slippage"
  have "ledger ?slip (bt_sent ?b) (bt_exchange ?b) (bt_filled ?b @ sx_fills (bt_exchange ?b))"
    if "list_all order_ok (bt_sent ?b)" "length (bt_sent ?b) + 1 < 2 ^ 64"
  proof -
    have l: "list_all order_ok (bt_sent b)" "order_ok req" "length (bt_sent b) + 2 < 2 ^ 64"
      using that by (simp_all add: bt_send_def)
    then have "ledger ?slip (bt_sent b) (bt_exchange b) (bt_filled b @ sx_fills (bt_exchange b))"
      using inv by (simp add: bt_inv_def)
    from ledger_send [OF this l(2,3)] show ?thesis
      using bt_send_queues(2) [of req b] by (simp add: bt_send_def)
  qed
  then show ?thesis using inv
    by (simp add: bt_inv_def) (simp add: bt_send_def sx_send_new_order_def Let_def)
qed

lemma bt_inv_sends: "bt_inv slippage r b \<Longrightarrow> bt_inv slippage r (fold bt_send reqs b)"
  by (induction reqs arbitrary: b) (simp_all add: bt_inv_send)

lemma bt_inv_user: "bt_inv slippage r (b\<lparr>bt_user := u\<rparr>) = bt_inv slippage r b"
  by (simp add: bt_inv_def)

lemma bt_inv_call: "bt_inv slippage r b \<Longrightarrow> bt_inv slippage r (bt_call h e b)"
  by (simp add: bt_call_def case_prod_beta Let_def bt_inv_sends bt_inv_user split: option.split)

lemma ledger_queues [simp]:
  "ledger slip sent (x\<lparr>sx_acks := a\<rparr>) fs = ledger slip sent x fs"
  "ledger slip sent (x\<lparr>sx_fills := q\<rparr>) fs = ledger slip sent x fs"
  by (simp_all add: ledger_def)

lemma bt_inv_pop_ack:
  "bt_inv slippage r b \<Longrightarrow> bt_inv slippage r (b\<lparr>bt_exchange := (bt_exchange b)\<lparr>sx_acks := q\<rparr>\<rparr>)"
  by (simp add: bt_inv_def)

lemma bt_inv_take_fill:
  assumes "bt_inv slippage r b" and "sx_fills (bt_exchange b) = f # q"
  shows "bt_inv slippage r (take_fill h f (b\<lparr>bt_exchange := (bt_exchange b)\<lparr>sx_fills := q\<rparr>\<rparr>))"
  unfolding take_fill_def by (rule bt_inv_call) (use assms in \<open>simp add: bt_inv_def\<close>)

lemma drain_acks_inv:
  "bt_inv slippage r b \<Longrightarrow> bt_inv slippage r (drain_acks h b) \<and> sx_acks (bt_exchange (drain_acks h b)) = []"
proof (induction h b rule: drain_acks.induct)
  case (1 h b)
  show ?case
  proof (cases "sx_acks (bt_exchange b)")
    case Nil
    then show ?thesis using 1(2) by (simp add: drain_acks.simps [of h b] sx_pop_ack_def)
  next
    case (Cons a q)
    let ?x = "(bt_exchange b)\<lparr>sx_acks := q\<rparr>"
    have p: "sx_pop_ack (bt_exchange b) = (?x, Some a)" using Cons by (simp add: sx_pop_ack_def)
    have "bt_inv slippage r (bt_call h a (b\<lparr>bt_exchange := ?x\<rparr>))" by (rule bt_inv_call [OF bt_inv_pop_ack [OF 1(2)]])
    from 1(1) [OF p [symmetric] refl this] show ?thesis by (simp add: drain_acks.simps [of h b] p)
  qed
qed

lemma drain_fills_inv:
  "bt_inv slippage r b \<Longrightarrow> bt_inv slippage r (drain_fills h b) \<and> sx_fills (bt_exchange (drain_fills h b)) = []
     \<and> sx_acks (bt_exchange (drain_fills h b)) = sx_acks (bt_exchange b)"
proof (induction h b rule: drain_fills.induct)
  case (1 h b)
  show ?case
  proof (cases "sx_fills (bt_exchange b)")
    case Nil
    then show ?thesis using 1(2) by (simp add: drain_fills.simps [of h b] sx_pop_fill_def)
  next
    case (Cons f q)
    let ?x = "(bt_exchange b)\<lparr>sx_fills := q\<rparr>"
    have p: "sx_pop_fill (bt_exchange b) = (?x, Some f)" using Cons by (simp add: sx_pop_fill_def)
    from 1(1) [OF p [symmetric] refl bt_inv_take_fill [OF 1(2) Cons]] show ?thesis
      by (simp add: drain_fills.simps [of h b] p take_fill_def)
  qed
qed

definition quiet :: "'u backtester \<Rightarrow> bool" where
  "quiet b \<longleftrightarrow> sx_acks (bt_exchange b) = [] \<and> sx_fills (bt_exchange b) = []"

lemma bt_inv_process:
  assumes "bt_inv slippage r b" and "0 \<le> r" and "r \<le> 1"
  shows "bt_inv slippage r (b\<lparr>bt_exchange := sx_process_bbo bbo (bt_exchange b)\<rparr>)"
proof (cases "is_valid_bbo bbo")
  case True
  let ?x = "bt_exchange b" and ?slip = "b64_to_i64 slippage"
  let ?y = "(match_front bbo ?slip ^^ length (sx_pending ?x)) ?x"
  have y: "sx_process_bbo bbo ?x = ?y" using True assms(1) by (simp add: sx_process_bbo_def bt_inv_def)
  have "ledger ?slip (bt_sent b) ?y (bt_filled b @ sx_fills ?y)"
    if "list_all order_ok (bt_sent b)" "length (bt_sent b) + 1 < 2 ^ 64"
    by (rule ledger_matches) (use assms that in \<open>simp_all add: bt_inv_def\<close>)
  then show ?thesis unfolding y using assms(1) by (simp add: bt_inv_def matches_shape)
qed (use assms(1) in \<open>simp add: sx_process_bbo_def\<close>)

lemma bt_inv_step:
  assumes "bt_inv slippage r b" and "quiet b" and "0 \<le> r" and "r \<le> 1"
  shows "bt_inv slippage r (bt_step ha hf op b) \<and> quiet (bt_step ha hf op b)"
proof (cases op)
  case (Bt_order req)
  then show ?thesis using assms(1,2) bt_inv_send [OF assms(1), of req] by (simp add: quiet_def)
next
  case (Bt_bbo bbo)
  let ?b1 = "b\<lparr>bt_bbo_count := bt_bbo_count b + 1\<rparr>"
  have "bt_inv slippage r ?b1" using assms(1) by (simp add: bt_inv_def)
  note p = bt_inv_process [OF this assms(3,4), of bbo]
  note a = drain_acks_inv [OF p, of ha]
  then have "bt_inv slippage r (drain_acks ha (?b1\<lparr>bt_exchange := sx_process_bbo bbo (bt_exchange ?b1)\<rparr>))" by blast
  from drain_fills_inv [OF this, of hf] a Bt_bbo show ?thesis
    by (simp add: feed_bbo_def quiet_def Let_def)
qed

lemma bt_inv_run:
  assumes "0 \<le> r" and "r \<le> 1"
  shows "bt_inv slippage r b \<Longrightarrow> quiet b \<Longrightarrow> bt_inv slippage r (bt_run ha hf ops b) \<and> quiet (bt_run ha hf ops b)"
  unfolding bt_run_def
proof (induction ops arbitrary: b)
  case (Cons op ops)
  from bt_inv_step [OF Cons.prems assms] Cons.IH show ?case by simp
qed simp

text \<open>
  Claim C34. Backtest ledger: whatever the handlers do and whatever orders and quotes arrive, with a fill
  ratio in [0, 1] and order quantities that a double represents exactly, every fill belongs to an order
  that was sent, on its side and instrument and at a price its limit allows within the slippage; the fills
  and the open rest of an order never exceed its quantity; the position is the signed sum of the fills;
  and the counters and queues agree with it after every step.
\<close>

theorem backtest_ledger:
  assumes "0 \<le> r" and "r \<le> 1" and "bt_run ha hf ops (bt_new slippage (Fin r) u) = b"
    and "list_all order_ok (bt_sent b)" and "length (bt_sent b) + 1 < 2 ^ 64" and "unat ident < MAX_INSTRUMENTS"
  shows "list_all (fill_justified (b64_to_i64 slippage) (bt_sent b)) (bt_filled b)
    \<and> (\<forall>k. known (bt_sent b) k \<longrightarrow>
         filled_for k (bt_filled b) + pending_for k (sx_pending (bt_exchange b)) \<le> req_qty (order_of (bt_sent b) k))
    \<and> get_net_qty (bt_pm b) ident =
        i64 (\<Sum>f\<leftarrow>filter (\<lambda>f. fe_instrument_id f = ident) (bt_filled b). signed_qty (fe_side f) (fe_fill_qty f))
    \<and> bt_fill_count b = of_nat (length (bt_filled b))
    \<and> sx_acks (bt_exchange b) = [] \<and> sx_fills (bt_exchange b) = []"
proof -
  have "quiet (bt_new slippage (Fin r) u)" by (simp add: quiet_def bt_new_def sx_new_def)
  from bt_inv_run [OF assms(1,2) bt_inv_new this, of ha hf ops]
  have i: "bt_inv slippage r b" and q: "quiet b" unfolding assms(3) by blast+
  then have l: "ledger (b64_to_i64 slippage) (bt_sent b) (bt_exchange b) (bt_filled b)"
    using assms(4,5) by (simp add: bt_inv_def quiet_def)
  have "bt_pm b = fold pm_on_fill (bt_filled b) pm_new" using i by (simp add: bt_inv_def)
  then have "get_net_qty (bt_pm b) ident =
        i64 (\<Sum>f\<leftarrow>filter (\<lambda>f. fe_instrument_id f = ident) (bt_filled b). signed_qty (fe_side f) (fe_fill_qty f))"
    using assms(6) by (simp add: get_net_qty_def pm_fold_slot fold_slot_net pm_new_def slot0_def in_i64_def)
  then show ?thesis using l i q by (simp add: ledger_def bt_inv_def quiet_def)
qed

lemma backtest_ledger_witness:
  "\<exists>b. bt_run None None [Bt_order (req0\<lparr>req_price := 101, req_qty := 5\<rparr>), Bt_bbo (bbo0\<lparr>bid_px := 100, ask_px := 101\<rparr>)]
        (bt_new (Fin 0) (Fin 1) ()) = b
    \<and> filled_for 1 (bt_filled b) + pending_for 1 (sx_pending (bt_exchange b)) \<le> 5
    \<and> get_net_qty (bt_pm b) 0 = i64 (\<Sum>f\<leftarrow>filter (\<lambda>f. fe_instrument_id f = 0) (bt_filled b). signed_qty (fe_side f) (fe_fill_qty f))"
proof -
  let ?o = "req0\<lparr>req_price := 101, req_qty := 5\<rparr>"
  let ?b = "bt_run None None [Bt_order ?o, Bt_bbo (bbo0\<lparr>bid_px := 100, ask_px := 101\<rparr>)] (bt_new (Fin 0) (Fin 1) ())"
  have call: "bt_sent (bt_call None e b) = bt_sent b" for e :: 'x and b :: "unit backtester"
    by (simp add: bt_call_def)
  have da: "bt_sent (drain_acks None b) = bt_sent b" for b :: "unit backtester"
    by (induction "None :: (OrderAck \<Rightarrow> unit \<Rightarrow> unit \<times> OrderRequest list) option" b rule: drain_acks.induct)
      (subst drain_acks.simps, auto simp: bt_call_def split: prod.split option.split)
  have df: "bt_sent (drain_fills None b) = bt_sent b" for b :: "unit backtester"
    by (induction "None :: (FillEvent \<Rightarrow> unit \<Rightarrow> unit \<times> OrderRequest list) option" b rule: drain_fills.induct)
      (subst drain_fills.simps, auto simp: bt_call_def take_fill_def split: prod.split option.split)
  have s: "bt_sent ?b = [?o]"
    by (simp add: bt_run_def feed_bbo_def da df Let_def) (simp add: bt_send_def bt_new_def)
  define b where "b = ?b"
  have sb: "bt_sent b = [?o]" unfolding b_def by (rule s)
  have run: "bt_run None None [Bt_order ?o, Bt_bbo (bbo0\<lparr>bid_px := 100, ask_px := 101\<rparr>)] (bt_new (Fin 0) (Fin 1) ()) = b"
    by (simp only: b_def)
  have ok: "list_all order_ok (bt_sent b)" "length (bt_sent b) + 1 < 2 ^ 64" unfolding sb by (simp_all add: order_ok_def)
  have inst: "unat (0 :: u32) < MAX_INSTRUMENTS" by (simp add: MAX_INSTRUMENTS_def)
  note l = backtest_ledger [OF _ _ run ok inst]
  have k: "known (bt_sent b) 1" "req_qty (order_of (bt_sent b) 1) = 5" unfolding sb by (simp_all add: known_def order_of_def)
  have "filled_for 1 (bt_filled b) + pending_for 1 (sx_pending (bt_exchange b)) \<le> req_qty (order_of (bt_sent b) 1)"
    using l k(1) by simp
  moreover have "get_net_qty (bt_pm b) 0 = i64 (\<Sum>f\<leftarrow>filter (\<lambda>f. fe_instrument_id f = 0) (bt_filled b). signed_qty (fe_side f) (fe_fill_qty f))"
    using l by simp
  ultimately show ?thesis using run k(2) by metis
qed

subsection \<open>Matching with full fills\<close>

lemma sx_fill_qty_full: "0 < q \<Longrightarrow> q \<le> 2 ^ 53 \<Longrightarrow> sx_fill_qty (Fin 1) q = q"
proof -
  assume q: "0 < q" "q \<le> 2 ^ 53"
  then have e: "b64_of_int q = Fin (of_int q)" by (intro b64_of_int_exact) simp
  have "b64_mult (b64_of_int q) (Fin 1) = b64_of_int q" unfolding e by (simp add: b64_of_int_def [symmetric] e)
  then have "b64_mult (b64_of_int q) (Fin 1) = Fin (of_int q)" by (simp add: e)
  then show ?thesis using q by (simp add: sx_fill_qty_def rat_trunc_def in_i64_def)
qed

definition crosses :: "BBOEvent \<Rightarrow> Price \<Rightarrow> pending_entry \<Rightarrow> bool" where
  "crosses bbo slip e \<longleftrightarrow> sx_can_fill bbo slip (pe_req e)"

definition full_fill :: "BBOEvent \<Rightarrow> pending_entry \<Rightarrow> FillEvent" where
  "full_fill bbo e = (sx_fill_of bbo (Fin 1) e)\<lparr>fe_fill_qty := req_qty (pe_req e), fe_remaining_qty := 0\<rparr>"

lemma match_entry_full:
  assumes "order_ok (pe_req e)" and "sx_fill_ratio x = Fin 1"
  shows "match_entry bbo slip e x =
    (if crosses bbo slip e
     then x\<lparr>sx_acks := sx_acks x @ [sx_ack_of bbo e], sx_fills := sx_fills x @ [full_fill bbo e]\<rparr>
     else x\<lparr>sx_pending := sx_pending x @ [e]\<rparr>)"
proof -
  have q: "sx_fill_qty (Fin 1) (req_qty (pe_req e)) = req_qty (pe_req e)"
    using assms(1) by (simp add: sx_fill_qty_full order_ok_def)
  have f: "sx_fill_of bbo (Fin 1) e = full_fill bbo e"
    by (simp add: full_fill_def sx_fill_of_def q Let_def)
  show ?thesis using assms(1) by (simp add: match_entry_def crosses_def assms(2) q f order_ok_def)
qed

lemma matches_full:
  "sx_fill_ratio x = Fin 1 \<Longrightarrow> list_all (\<lambda>e. order_ok (pe_req e)) ps \<Longrightarrow> sx_pending x = ps @ qs \<Longrightarrow>
   (match_front bbo slip ^^ length ps) x =
     x\<lparr>sx_pending := qs @ filter (\<lambda>e. \<not> crosses bbo slip e) ps,
       sx_acks := sx_acks x @ map (sx_ack_of bbo) (filter (crosses bbo slip) ps),
       sx_fills := sx_fills x @ map (full_fill bbo) (filter (crosses bbo slip) ps)\<rparr>"
proof (induction ps arbitrary: x qs)
  case Nil
  then show ?case by simp
next
  case (Cons e ps)
  have e: "order_ok (pe_req e)" and ps: "list_all (\<lambda>e. order_ok (pe_req e)) ps" using Cons.prems(2) by simp_all
  have step: "match_front bbo slip x =
    (if crosses bbo slip e
     then x\<lparr>sx_pending := ps @ qs, sx_acks := sx_acks x @ [sx_ack_of bbo e], sx_fills := sx_fills x @ [full_fill bbo e]\<rparr>
     else x\<lparr>sx_pending := ps @ (qs @ [e])\<rparr>)"
    using Cons.prems(1,3) match_entry_full [OF e, of "x\<lparr>sx_pending := ps @ qs\<rparr>" bbo slip] by (simp add: match_front_def)
  have "(match_front bbo slip ^^ length (e # ps)) x = (match_front bbo slip ^^ length ps) (match_front bbo slip x)"
    by (simp add: funpow_swap1)
  also have "\<dots> = x\<lparr>sx_pending := qs @ filter (\<lambda>e. \<not> crosses bbo slip e) (e # ps),
       sx_acks := sx_acks x @ map (sx_ack_of bbo) (filter (crosses bbo slip) (e # ps)),
       sx_fills := sx_fills x @ map (full_fill bbo) (filter (crosses bbo slip) (e # ps))\<rparr>"
  proof (cases "crosses bbo slip e")
    case True
    then show ?thesis using Cons.IH [OF _ ps, of "match_front bbo slip x" qs] Cons.prems(1) by (simp add: step)
  next
    case False
    then show ?thesis using Cons.IH [OF _ ps, of "match_front bbo slip x" "qs @ [e]"] Cons.prems(1) by (simp add: step)
  qed
  finally show ?case .
qed

text \<open>
  With a fill ratio of 1, a valid quote fills exactly the pending orders it crosses, in the order
  they were sent, each once and completely at the opposite best price, acknowledges each of them, and leaves the
  others pending in order; orders of the types IOC, FOK and FAK never trade, and the instrument of the quote
  plays no part.
\<close>

theorem full_fill_matching:
  assumes "sx_fill_ratio x = Fin 1" and "list_all (\<lambda>e. order_ok (pe_req e)) (sx_pending x)" and "is_valid_bbo bbo"
  shows "let slip = b64_to_i64 (sx_slippage_ticks x); hit = filter (crosses bbo slip) (sx_pending x) in
      sx_process_bbo bbo x = x\<lparr>sx_pending := filter (\<lambda>e. \<not> crosses bbo slip e) (sx_pending x),
        sx_acks := sx_acks x @ map (sx_ack_of bbo) hit, sx_fills := sx_fills x @ map (full_fill bbo) hit\<rparr>
    \<and> (\<forall>e \<in> set hit. req_type (pe_req e) = LIMIT \<or> req_type (pe_req e) = MARKET)
    \<and> sx_process_bbo (bbo\<lparr>bbo_instrument_id := i\<rparr>) x = sx_process_bbo bbo x"
proof -
  let ?slip = "b64_to_i64 (sx_slippage_ticks x)"
  have v: "is_valid_bbo (bbo\<lparr>bbo_instrument_id := i\<rparr>)" using assms(3) by (simp add: is_valid_bbo_def)
  have p: "sx_process_bbo b x = x\<lparr>sx_pending := filter (\<lambda>e. \<not> crosses b ?slip e) (sx_pending x),
        sx_acks := sx_acks x @ map (sx_ack_of b) (filter (crosses b ?slip) (sx_pending x)),
        sx_fills := sx_fills x @ map (full_fill b) (filter (crosses b ?slip) (sx_pending x))\<rparr>" if "is_valid_bbo b" for b
    using matches_full [OF assms(1,2), of "[]" b ?slip] that by (simp add: sx_process_bbo_def)
  have same: "crosses (bbo\<lparr>bbo_instrument_id := i\<rparr>) = crosses bbo" "sx_ack_of (bbo\<lparr>bbo_instrument_id := i\<rparr>) = sx_ack_of bbo"
    "full_fill (bbo\<lparr>bbo_instrument_id := i\<rparr>) = full_fill bbo"
    by (simp_all add: fun_eq_iff crosses_def sx_can_fill_def sx_ack_of_def full_fill_def sx_fill_of_def Let_def)
  have eq: "sx_process_bbo (bbo\<lparr>bbo_instrument_id := i\<rparr>) x = sx_process_bbo bbo x"
    unfolding p [OF assms(3)] p [OF v] same by (rule refl)
  have types: "\<forall>e \<in> set (filter (crosses bbo ?slip) (sx_pending x)). req_type (pe_req e) = LIMIT \<or> req_type (pe_req e) = MARKET"
    by (auto simp: crosses_def sx_can_fill_def split: if_splits)
  show ?thesis unfolding Let_def by (intro conjI p [OF assms(3)] types eq)
qed

lemma full_fill_matching_witness:
  "map fe_fill_qty (sx_fills (sx_process_bbo (bbo0\<lparr>bid_px := 100, ask_px := 101\<rparr>)
      (sx_send_new_order (req0\<lparr>req_price := 101, req_qty := 5\<rparr>) (sx_new (Fin 0) (Fin 1))))) = [5]"
proof -
  let ?x = "sx_send_new_order (req0\<lparr>req_price := 101, req_qty := 5\<rparr>) (sx_new (Fin 0) (Fin 1))"
  let ?bbo = "bbo0\<lparr>bid_px := 100, ask_px := 101\<rparr>"
  have r: "sx_fill_ratio ?x = Fin 1" "list_all (\<lambda>e. order_ok (pe_req e)) (sx_pending ?x)" "is_valid_bbo ?bbo"
    by (simp_all add: sx_send_new_order_def sx_new_def Let_def order_ok_def is_valid_bbo_def)
  have s: "sx_slippage_ticks ?x = Fin 0" by (simp add: sx_send_new_order_def sx_new_def Let_def)
  have z: "b64_to_i64 (Fin 0) = 0" by (simp add: rat_trunc_def in_i64_def)
  show ?thesis using full_fill_matching [OF r, of 0]
    by (simp add: Let_def s z del: b64_to_i64.simps)
      (simp add: sx_send_new_order_def sx_new_def crosses_def sx_can_fill_def full_fill_def req0_def i64_id in_i64_def Let_def)
qed

end
