(* ===== verification/Metrics_Report.thy ===== *)
theory Metrics_Report
  imports Prelude Binary64
begin

text \<open>
  \<^verbatim>\<open>backtest/metrics_report.cpp\<close>: the performance figures of a backtest.  Doubles are binary64 values.
\<close>

type_synonym metrics_report = "int list"

definition record_pnl :: "int \<Rightarrow> metrics_report \<Rightarrow> metrics_report" where
  "record_pnl v r = r @ [v]"

definition copysign_inf :: "b64 \<Rightarrow> b64" where
  "copysign_inf x = (if b64_less x (Fin 0) then NInf else PInf)"

text \<open>\<open>tiny\<close> is the literal \<open>1e-12\<close>.\<close>

definition tiny :: b64 where "tiny = b64_round (1 / 10 ^ 12)"

definition sharpe_mean :: "metrics_report \<Rightarrow> b64" where
  "sharpe_mean r = b64_div (fold (\<lambda>v acc. b64_add acc (b64_of_int v)) r (Fin 0)) (b64_of_int (int (length r)))"

definition sharpe_sq_sum :: "b64 \<Rightarrow> metrics_report \<Rightarrow> b64" where
  "sharpe_sq_sum mean r =
     fold (\<lambda>v acc. let diff = b64_sub (b64_of_int v) mean in b64_add acc (b64_mult diff diff)) r (Fin 0)"

definition sharpe_ratio :: "metrics_report \<Rightarrow> b64" where
  "sharpe_ratio r =
     (let n = length r in
      if n < 2 then Fin 0
      else let mean = sharpe_mean r;
               std_dev = b64_sqrt (b64_div (sharpe_sq_sum mean r) (b64_of_int (int (n - 1))))
           in if b64_less std_dev tiny then copysign_inf mean
              else b64_mult (b64_div mean std_dev) (b64_sqrt (Fin 252)))"

definition drawdown_step :: "int \<Rightarrow> b64 \<times> b64 \<times> b64 \<Rightarrow> b64 \<times> b64 \<times> b64" where
  "drawdown_step v = (\<lambda>(peak, cumulative, max_dd).
     let cumulative' = b64_add cumulative (b64_of_int v);
         peak' = (if b64_less peak cumulative' then cumulative' else peak);
         dd = b64_sub peak' cumulative'
     in (peak', cumulative', if b64_less max_dd dd then dd else max_dd))"

definition max_drawdown :: "metrics_report \<Rightarrow> b64" where
  "max_drawdown r = (if r = [] then Fin 0 else snd (snd (fold drawdown_step r (Fin 0, Fin 0, Fin 0))))"

definition win_rate :: "metrics_report \<Rightarrow> b64" where
  "win_rate r = (if r = [] then Fin 0
     else b64_div (b64_of_int (int (length (filter (\<lambda>v. v > 0) r)))) (b64_of_int (int (length r))))"

definition total_pnl :: "metrics_report \<Rightarrow> int" where
  "total_pnl r = fold (\<lambda>v tot. i64 (tot + v)) r 0"

definition max_daily_pnl :: "metrics_report \<Rightarrow> int" where
  "max_daily_pnl r = (if r = [] then 0 else fold (\<lambda>v m. if v > m then v else m) r (- (2 ^ 63)))"

definition min_daily_pnl :: "metrics_report \<Rightarrow> int" where
  "min_daily_pnl r = (if r = [] then 0 else fold (\<lambda>v m. if v < m then v else m) r (2 ^ 63 - 1))"

subsection \<open>The drawdown over integers\<close>

definition int_step :: "int \<Rightarrow> int \<times> int \<times> int \<Rightarrow> int \<times> int \<times> int" where
  "int_step v = (\<lambda>(peak, cum, dd). let c = cum + v; p = max peak c in (p, c, max dd (p - c)))"

text \<open>The largest loss from an earlier point of the cumulative curve (0 included) to a later one.\<close>

definition curve :: "metrics_report \<Rightarrow> nat \<Rightarrow> int" where
  "curve r k = sum_list (take k r)"

definition drawdowns :: "metrics_report \<Rightarrow> int set" where
  "drawdowns r = {curve r i - curve r j | i j. i \<le> j \<and> j \<le> length r}"

lemma finite_drawdowns: "finite (drawdowns r)"
proof -
  have "drawdowns r \<subseteq> (\<lambda>(i, j). curve r i - curve r j) ` ({0..length r} \<times> {0..length r})"
    by (auto simp: drawdowns_def)
  then show ?thesis by (rule finite_subset) simp
qed

lemma curve_snoc:
  "curve (r @ [v]) k = (if k \<le> length r then curve r k else curve r (length r) + v)"
  by (simp add: curve_def not_le)

lemma drawdowns_snoc:
  "drawdowns (r @ [v]) = drawdowns r \<union> {curve r i - (curve r (length r) + v) | i. i \<le> length r} \<union> {0}"
  (is "?L = ?R")
proof
  show "?L \<subseteq> ?R"
  proof
    fix d assume "d \<in> ?L"
    then obtain i j where d: "d = curve (r @ [v]) i - curve (r @ [v]) j" "i \<le> j" "j \<le> Suc (length r)"
      by (auto simp: drawdowns_def)
    show "d \<in> ?R"
    proof (cases "j \<le> length r")
      case True
      then have "d = curve r i - curve r j" using d by (simp add: curve_snoc)
      then show ?thesis using d(2) True unfolding drawdowns_def by blast
    next
      case False
      then show ?thesis using d by (cases "i \<le> length r") (auto simp: curve_snoc)
    qed
  qed
  show "?R \<subseteq> ?L"
  proof
    fix d assume "d \<in> ?R"
    then consider i j where "d = curve r i - curve r j" "i \<le> j" "j \<le> length r"
      | i where "d = curve r i - (curve r (length r) + v)" "i \<le> length r" | "d = 0"
      by (auto simp: drawdowns_def)
    then show "d \<in> ?L"
    proof cases
      case 1
      then have "d = curve (r @ [v]) i - curve (r @ [v]) j" "i \<le> j" "j \<le> length (r @ [v])" by (simp_all add: curve_snoc)
      then show ?thesis unfolding drawdowns_def by blast
    next
      case 2
      then have "d = curve (r @ [v]) i - curve (r @ [v]) (Suc (length r))" by (simp add: curve_snoc)
      moreover have "i \<le> Suc (length r)" "Suc (length r) \<le> length (r @ [v])" using 2 by simp_all
      ultimately show ?thesis unfolding drawdowns_def by blast
    next
      case 3
      then have "d = curve (r @ [v]) 0 - curve (r @ [v]) 0" by simp
      then show ?thesis unfolding drawdowns_def by blast
    qed
  qed
qed

lemma int_fold:
  "fold int_step r (0, 0, 0) = (Max (curve r ` {0..length r}), curve r (length r), Max (drawdowns r))"
proof (induction r rule: rev_induct)
  case Nil
  then show ?case by (simp add: curve_def drawdowns_def)
next
  case (snoc v r)
  let ?c = "curve r (length r) + v" and ?C = "curve r ` {0..length r}"
  have fin: "finite ?C" "?C \<noteq> {}" by auto
  have C': "curve (r @ [v]) ` {0..length (r @ [v])} = insert ?c ?C"
  proof -
    have "{0..length (r @ [v])} = insert (Suc (length r)) {0..length r}" by auto
    moreover have "curve (r @ [v]) ` {0..length r} = ?C" by (rule image_cong) (simp_all add: curve_snoc)
    moreover have "curve (r @ [v]) (Suc (length r)) = ?c" by (simp add: curve_snoc)
    ultimately show ?thesis by simp
  qed
  have p: "Max (insert ?c ?C) = max (Max ?C) ?c" using fin by (simp add: max.commute)
  let ?D = "{curve r i - ?c | i. i \<le> length r}"
  have D: "?D = (\<lambda>x. x - ?c) ` ?C" by auto
  have "Max ?D = Max ?C - ?c"
    unfolding D using fin by (intro mono_Max_commute [symmetric]) (auto intro: monoI)
  have D': "drawdowns (r @ [v]) = drawdowns r \<union> (?D \<union> {0})" by (simp add: drawdowns_snoc Un_assoc)
  have zero: "0 \<in> drawdowns r" unfolding drawdowns_def by (force intro: exI [of _ 0])
  have finD: "finite ?D" "?D \<noteq> {}" using fin unfolding D by auto
  have "Max (drawdowns (r @ [v])) = max (Max (drawdowns r)) (max (Max ?D) 0)"
    unfolding D' using finite_drawdowns [of r] zero finD by (subst Max_Un) (auto simp: Max_Un max.commute)
  also have "\<dots> = max (Max (drawdowns r)) (max (Max ?C) ?c - ?c)"
    unfolding \<open>Max ?D = Max ?C - ?c\<close> by (simp add: max_def)
  finally have dd: "Max (drawdowns (r @ [v])) = max (Max (drawdowns r)) (max (Max ?C) ?c - ?c)" .
  have "fold int_step (r @ [v]) (0, 0, 0) = int_step v (Max ?C, curve r (length r), Max (drawdowns r))"
    using snoc.IH by simp
  also have "\<dots> = (max (Max ?C) ?c, ?c, Max (drawdowns (r @ [v])))" by (simp add: int_step_def dd Let_def)
  also have "\<dots> = (Max (curve (r @ [v]) ` {0..length (r @ [v])}), curve (r @ [v]) (length (r @ [v])), Max (drawdowns (r @ [v])))"
    unfolding C' p by (simp add: curve_snoc)
  finally show ?case .
qed

subsection \<open>The double loop computes it\<close>

definition curve_small :: "metrics_report \<Rightarrow> bool" where
  "curve_small r \<longleftrightarrow> (\<forall>v \<in> set r. \<bar>v\<bar> \<le> 2 ^ 52) \<and> (\<forall>k \<le> length r. \<bar>curve r k\<bar> \<le> 2 ^ 52)"

lemma curve_small_snoc: "curve_small (r @ [v]) \<Longrightarrow> curve_small r"
  unfolding curve_small_def by (auto simp: curve_snoc split: if_splits)

lemma b64_max_int:
  "(if b64_less (Fin (of_int a)) (Fin (of_int b)) then Fin (of_int b) else Fin (of_int a)) = Fin (of_int (max a b))"
  by (simp add: max_def)

lemma drawdown_step_int:
  assumes "\<bar>v\<bar> \<le> 2 ^ 52" and "\<bar>cum + v\<bar> \<le> 2 ^ 52" and "\<bar>peak\<bar> \<le> 2 ^ 52"
  shows "drawdown_step v (Fin (of_int peak), Fin (of_int cum), Fin (of_int dd)) =
    (case int_step v (peak, cum, dd) of (p, c, d) \<Rightarrow> (Fin (of_int p), Fin (of_int c), Fin (of_int d)))"
proof -
  let ?c = "cum + v"
  have v: "b64_of_int v = Fin (of_int v)" using assms(1) by (intro b64_of_int_exact) simp
  have "rat_of_int cum + rat_of_int v = of_int ?c" by simp
  moreover have "b64_round (of_int ?c) = Fin (of_int ?c)" using assms(2) by (intro b64_round_int) simp
  ultimately have c: "b64_add (Fin (of_int cum)) (b64_of_int v) = Fin (of_int ?c)" by (simp only: v b64_add.simps)
  have "rat_of_int (max peak ?c) + - rat_of_int ?c = of_int (max peak ?c - ?c)" by simp
  moreover have "b64_round (of_int (max peak ?c - ?c)) = Fin (of_int (max peak ?c - ?c))"
    using assms(2,3) by (intro b64_round_int) (auto simp: max_def abs_le_iff)
  ultimately have d: "b64_sub (Fin (of_int (max peak ?c))) (Fin (of_int ?c)) = Fin (of_int (max peak ?c - ?c))"
    by (simp only: b64_sub_def b64_neg.simps b64_add.simps)
  show ?thesis by (simp only: drawdown_step_def int_step_def prod.case Let_def c b64_max_int d)
qed

lemma drawdown_fold:
  "curve_small r \<Longrightarrow> fold drawdown_step r (Fin 0, Fin 0, Fin 0) =
    (case fold int_step r (0, 0, 0) of (p, c, d) \<Rightarrow> (Fin (of_int p), Fin (of_int c), Fin (of_int d)))"
proof (induction r rule: rev_induct)
  case (snoc v r)
  let ?p = "Max (curve r ` {0..length r})" and ?c = "curve r (length r)" and ?d = "Max (drawdowns r)"
  have small: "\<bar>v\<bar> \<le> 2 ^ 52" "\<bar>?c + v\<bar> \<le> 2 ^ 52"
    using snoc.prems spec [of _ "Suc (length r)"] by (auto simp: curve_small_def curve_snoc)
  have r: "curve_small r" by (rule curve_small_snoc [OF snoc.prems])
  then have c: "\<bar>?c\<bar> \<le> 2 ^ 52" by (simp add: curve_small_def)
  have "?p \<in> curve r ` {0..length r}" by (rule Max_in) auto
  then obtain k where "k \<in> {0..length r}" "?p = curve r k" by (rule imageE)
  then have "k \<le> length r" by simp
  note k = this \<open>?p = curve r k\<close>
  then have p: "\<bar>?p\<bar> \<le> 2 ^ 52" using r k unfolding curve_small_def by metis
  have "fold drawdown_step (r @ [v]) (Fin 0, Fin 0, Fin 0) = drawdown_step v (Fin (of_int ?p), Fin (of_int ?c), Fin (of_int ?d))"
    using snoc.IH [OF r] by (simp add: int_fold)
  also have "\<dots> = (case int_step v (?p, ?c, ?d) of (p, c, d) \<Rightarrow> (Fin (of_int p), Fin (of_int c), Fin (of_int d)))"
    by (rule drawdown_step_int [OF small p])
  also have "int_step v (?p, ?c, ?d) = fold int_step (r @ [v]) (0, 0, 0)" by (simp add: int_fold)
  finally show ?case .
qed simp

text \<open>
  As long as the cumulative profit stays within 2^52, \<open>max_drawdown\<close> is exact: it is the
  largest amount the cumulative curve, which starts at 0, ever lost from an earlier point.  It is an amount
  in ticks, not a ratio.
\<close>

theorem max_drawdown_exact:
  assumes "curve_small r"
  shows "max_drawdown r = Fin (of_int (Max (drawdowns r)))"
proof (cases "r = []")
  case True
  then show ?thesis by (simp add: max_drawdown_def drawdowns_def curve_def)
next
  case False
  then show ?thesis using drawdown_fold [OF assms] by (simp add: max_drawdown_def int_fold)
qed

lemma max_drawdown_exact_witness: "max_drawdown [100, -30, 10, -50, 200] = Fin 70"
proof -
  let ?r = "[100, -30, 10, -50, 200] :: int list"
  have "\<bar>curve ?r k\<bar> \<le> 2 ^ 52" for k
    by (cases k; simp add: curve_def; rename_tac k1; case_tac k1; simp; rename_tac k2; case_tac k2; simp;
        rename_tac k3; case_tac k3; simp; rename_tac k4; case_tac k4; simp)
  then have s: "curve_small ?r" by (simp add: curve_small_def)
  have "Max (drawdowns ?r) = snd (snd (fold int_step ?r (0, 0, 0)))" by (simp only: int_fold snd_conv)
  also have "\<dots> = 70" by (simp add: int_step_def)
  finally show ?thesis using max_drawdown_exact [OF s] by simp
qed

end
