(* ===== verification/Strategy.thy ===== *)
theory Strategy
  imports Types Spsc_Queue
begin

text \<open>
  \<^verbatim>\<open>src/strategy/strategy_base.hpp\<close> and \<^verbatim>\<open>src/strategy/strategy_manager.cpp\<close>.  The members of the base
  class are a record that the strategies extend, as the classes do; \<open>on_bbo\<close>, \<open>on_fill\<close> and
  \<open>on_order_ack\<close> of a strategy are its \<open>\<dots>_impl\<close> functions.  What all strategies promise about their
  inventory is the locale \<open>inventory_keeper\<close>.
\<close>

subsection \<open>StrategyBase\<close>

definition ORDER_QUEUE_DEPTH :: nat where "ORDER_QUEUE_DEPTH = 1024"

record strategy_base =
  st_instrument_id :: InstrumentId
  st_order_queue :: "OrderRequest spsc"

definition send_order :: "OrderRequest \<Rightarrow> 'a strategy_base_scheme \<Rightarrow> 'a strategy_base_scheme \<times> bool" where
  "send_order req s = (let (q, ok) = spsc_push ORDER_QUEUE_DEPTH req (st_order_queue s)
                       in (s\<lparr>st_order_queue := q\<rparr>, ok))"

definition pop_order :: "'a strategy_base_scheme \<Rightarrow> 'a strategy_base_scheme \<times> OrderRequest option" where
  "pop_order s = (let (q, r) = spsc_pop ORDER_QUEUE_DEPTH (st_order_queue s) in (s\<lparr>st_order_queue := q\<rparr>, r))"

abbreviation orders :: "'a strategy_base_scheme \<Rightarrow> OrderRequest list" where
  "orders s \<equiv> spsc_contents ORDER_QUEUE_DEPTH (st_order_queue s)"

abbreviation orders_wf :: "'a strategy_base_scheme \<Rightarrow> bool" where
  "orders_wf s \<equiv> spsc_wf ORDER_QUEUE_DEPTH (st_order_queue s)"

definition order_room :: "'a strategy_base_scheme \<Rightarrow> nat" where
  "order_room s = ORDER_QUEUE_DEPTH - length (orders s)"

lemma pow2_order_queue: "pow2 ORDER_QUEUE_DEPTH"
  unfolding pow2_def by (rule exI [of _ 10]) (simp add: ORDER_QUEUE_DEPTH_def)

lemma send_order_room:
  assumes "orders_wf s" and "0 < order_room s"
  shows "\<exists>q. send_order req s = (s\<lparr>st_order_queue := q\<rparr>, True) \<and> spsc_wf ORDER_QUEUE_DEPTH q
    \<and> spsc_contents ORDER_QUEUE_DEPTH q = orders s @ [req]"
proof -
  obtain q ok where p: "spsc_push ORDER_QUEUE_DEPTH req (st_order_queue s) = (q, ok)" by force
  have "length (orders s) < ORDER_QUEUE_DEPTH" using assms(2) by (simp add: order_room_def)
  then show ?thesis
    using ring.push_ok [OF assms(1), of req] ring.push_wf [OF assms(1), of req] ring.push_contents [OF assms(1), of req] p
    by (intro exI [of _ q]) (simp add: send_order_def)
qed

lemma send_order_frames:
  "st_instrument_id (fst (send_order r s)) = st_instrument_id s"
  by (simp add: send_order_def case_prod_beta)

lemma send_order_queue:
  assumes "orders_wf s" and "0 < order_room s"
  shows "orders_wf (fst (send_order r s)) \<and> orders (fst (send_order r s)) = orders s @ [r]"
  using send_order_room [OF assms, of r] by auto

lemma send_order_wf: "orders_wf s \<Longrightarrow> orders_wf (fst (send_order r s))"
  using ring.push_wf [of ORDER_QUEUE_DEPTH "st_order_queue s" r] by (simp add: send_order_def case_prod_beta)

lemma send_order_subset: "orders_wf s \<Longrightarrow> set (orders (fst (send_order r s))) \<subseteq> insert r (set (orders s))"
  using ring.push_contents [of ORDER_QUEUE_DEPTH "st_order_queue s" r]
  by (auto simp: send_order_def case_prod_beta split: if_splits)

text \<open>Both taking strategies send immediate-or-cancel orders.\<close>

definition ioc_order :: "InstrumentId \<Rightarrow> Side \<Rightarrow> Price \<Rightarrow> Qty \<Rightarrow> OrderRequest" where
  "ioc_order ident s px q = req0\<lparr>req_instrument_id := ident, req_side := s, req_type := IOC, req_price := px, req_qty := q\<rparr>"

lemma ioc_order_simps [simp]:
  "req_instrument_id (ioc_order i s p q) = i" "req_side (ioc_order i s p q) = s"
  "req_type (ioc_order i s p q) = IOC" "req_price (ioc_order i s p q) = p" "req_qty (ioc_order i s p q) = q"
  by (simp_all add: ioc_order_def)

subsection \<open>StrategyManager\<close>

text \<open>A registered strategy is its \<open>on_bbo\<close> on the state of all strategies.\<close>

type_synonym 's strategy_manager = "(BBOEvent \<Rightarrow> 's \<Rightarrow> 's) list"

definition register_strategy :: "(BBOEvent \<Rightarrow> 's \<Rightarrow> 's) \<Rightarrow> 's strategy_manager \<Rightarrow> 's strategy_manager" where
  "register_strategy h m = m @ [h]"

definition dispatch_bbo :: "'s strategy_manager \<Rightarrow> BBOEvent \<Rightarrow> 's \<Rightarrow> 's" where
  "dispatch_bbo m e s = fold (\<lambda>h. h e) m s"

definition strategy_count :: "'s strategy_manager \<Rightarrow> nat" where
  "strategy_count m = length m"

subsection \<open>What a strategy keeps of its fills\<close>

datatype strategy_event = Se_bbo BBOEvent | Se_fill FillEvent | Se_ack OrderAck | Se_pop

fun strategy_step :: "(BBOEvent \<Rightarrow> 's \<Rightarrow> 's) \<Rightarrow> (FillEvent \<Rightarrow> 's \<Rightarrow> 's) \<Rightarrow> (OrderAck \<Rightarrow> 's \<Rightarrow> 's) \<Rightarrow> ('s \<Rightarrow> 's)
    \<Rightarrow> strategy_event \<Rightarrow> 's \<Rightarrow> 's" where
  "strategy_step on_bbo on_fill on_ack pop (Se_bbo e) s = on_bbo e s"
| "strategy_step on_bbo on_fill on_ack pop (Se_fill f) s = on_fill f s"
| "strategy_step on_bbo on_fill on_ack pop (Se_ack a) s = on_ack a s"
| "strategy_step on_bbo on_fill on_ack pop Se_pop s = pop s"

definition strategy_run :: "(BBOEvent \<Rightarrow> 's \<Rightarrow> 's) \<Rightarrow> (FillEvent \<Rightarrow> 's \<Rightarrow> 's) \<Rightarrow> (OrderAck \<Rightarrow> 's \<Rightarrow> 's) \<Rightarrow> ('s \<Rightarrow> 's)
    \<Rightarrow> strategy_event list \<Rightarrow> 's \<Rightarrow> 's" where
  "strategy_run on_bbo on_fill on_ack pop evs s = fold (strategy_step on_bbo on_fill on_ack pop) evs s"

fun event_fill :: "InstrumentId \<Rightarrow> strategy_event \<Rightarrow> int" where
  "event_fill ident (Se_fill f) = (if fe_instrument_id f = ident then signed_qty (fe_side f) (fe_fill_qty f) else 0)"
| "event_fill ident _ = 0"

locale inventory_keeper =
  fixes on_bbo :: "BBOEvent \<Rightarrow> 's \<Rightarrow> 's"
    and on_fill :: "FillEvent \<Rightarrow> 's \<Rightarrow> 's"
    and on_ack :: "OrderAck \<Rightarrow> 's \<Rightarrow> 's"
    and pop :: "'s \<Rightarrow> 's"
    and inventory :: "'s \<Rightarrow> int"
    and instrument :: "'s \<Rightarrow> InstrumentId"
    and sound :: "'s \<Rightarrow> bool"
  assumes sound_step: "sound s \<Longrightarrow> sound (strategy_step on_bbo on_fill on_ack pop ev s)"
    and instrument_step: "instrument (strategy_step on_bbo on_fill on_ack pop ev s) = instrument s"
    and inventory_bbo: "sound s \<Longrightarrow> inventory (on_bbo e s) = inventory s"
    and inventory_ack: "sound s \<Longrightarrow> inventory (on_ack a s) = inventory s"
    and inventory_pop: "sound s \<Longrightarrow> inventory (pop s) = inventory s"
    and inventory_fill: "sound s \<Longrightarrow> inventory (on_fill f s) = i64 (inventory s + event_fill (instrument s) (Se_fill f))"
    and inventory_range: "sound s \<Longrightarrow> in_i64 (inventory s)"
begin

lemma inventory_step:
  "sound s \<Longrightarrow> inventory (strategy_step on_bbo on_fill on_ack pop ev s) = i64 (inventory s + event_fill (instrument s) ev)"
  by (cases ev) (simp_all add: inventory_bbo inventory_ack inventory_pop inventory_fill inventory_range i64_id)

lemma inventory_run:
  "sound s \<Longrightarrow> inventory (strategy_run on_bbo on_fill on_ack pop evs s) =
     i64 (inventory s + (\<Sum>ev\<leftarrow>evs. event_fill (instrument s) ev))"
  unfolding strategy_run_def
proof (induction evs arbitrary: s)
  case Nil
  then show ?case by (simp add: inventory_range i64_id)
next
  case (Cons ev evs)
  note IH = Cons.IH [OF sound_step [OF Cons.prems, of ev]]
  then show ?case
    by (simp add: inventory_step [OF Cons.prems] instrument_step i64_simps add.assoc)
qed

lemma sound_run: "sound s \<Longrightarrow> sound (strategy_run on_bbo on_fill on_ack pop evs s)"
  unfolding strategy_run_def by (induction evs arbitrary: s) (simp_all add: sound_step)

end

end
