(* ===== verification/Market_Maker.thy ===== *)
theory Market_Maker
  imports Strategy
begin

text \<open>
  \<^verbatim>\<open>src/strategy/market_maker.cpp\<close>: quoting both sides around the mid price with an inventory skew, and
  the two queues that connect the quotes with their acknowledgements and cancels.
\<close>

definition CANCEL_DEPTH :: nat where "CANCEL_DEPTH = 256"
definition SIDE_DEPTH :: nat where "SIDE_DEPTH = 64"

record market_maker = strategy_base +
  mm_spread_ticks :: Price
  mm_order_qty :: Qty
  mm_max_inventory :: Qty
  mm_inventory :: Qty
  mm_last_mid :: Price
  mm_bid_order_id :: u64
  mm_ask_order_id :: u64
  mm_cancel_queue :: "u64 spsc"
  mm_pending_side_queue :: "Side spsc"

definition mm_new :: "OrderRequest list \<Rightarrow> u64 list \<Rightarrow> Side list \<Rightarrow> InstrumentId \<Rightarrow> Price \<Rightarrow> Qty \<Rightarrow> Qty \<Rightarrow> market_maker" where
  "mm_new m1 m2 m3 ident spread q maxinv = \<lparr>st_instrument_id = ident, st_order_queue = spsc_new m1,
     mm_spread_ticks = spread, mm_order_qty = q, mm_max_inventory = maxinv, mm_inventory = 0, mm_last_mid = 0,
     mm_bid_order_id = 0, mm_ask_order_id = 0, mm_cancel_queue = spsc_new m2, mm_pending_side_queue = spsc_new m3\<rparr>"

definition push_cancel :: "u64 \<Rightarrow> market_maker \<Rightarrow> market_maker" where
  "push_cancel ident m = m\<lparr>mm_cancel_queue := fst (spsc_push CANCEL_DEPTH ident (mm_cancel_queue m))\<rparr>"

definition cancel_active_orders :: "market_maker \<Rightarrow> market_maker" where
  "cancel_active_orders m =
     (let m1 = (if mm_bid_order_id m \<noteq> 0 then (push_cancel (mm_bid_order_id m) m)\<lparr>mm_bid_order_id := 0\<rparr> else m)
      in if mm_ask_order_id m1 \<noteq> 0 then (push_cancel (mm_ask_order_id m1) m1)\<lparr>mm_ask_order_id := 0\<rparr> else m1)"

definition limit_order :: "InstrumentId \<Rightarrow> Side \<Rightarrow> Price \<Rightarrow> Qty \<Rightarrow> OrderRequest" where
  "limit_order ident s px q = req0\<lparr>req_instrument_id := ident, req_side := s, req_type := LIMIT, req_price := px, req_qty := q\<rparr>"

definition push_side :: "Side \<Rightarrow> market_maker \<Rightarrow> market_maker" where
  "push_side s m = m\<lparr>mm_pending_side_queue := fst (spsc_push SIDE_DEPTH s (mm_pending_side_queue m))\<rparr>"

definition quote_side :: "Side \<Rightarrow> Price \<Rightarrow> market_maker \<Rightarrow> market_maker" where
  "quote_side s px m =
     (let (m1, ok) = send_order (limit_order (st_instrument_id m) s px (mm_order_qty m)) m
      in if ok then push_side s m1 else m1)"

definition quote :: "Price \<Rightarrow> Price \<Rightarrow> Qty \<Rightarrow> market_maker \<Rightarrow> market_maker" where
  "quote bid_price ask_price inventory m =
     (let m1 = (if inventory < mm_max_inventory m then quote_side BUY bid_price m else m)
      in if inventory > i64 (- mm_max_inventory m1) then quote_side SELL ask_price m1 else m1)"

definition quote_prices :: "Price \<Rightarrow> Price \<Rightarrow> Qty \<Rightarrow> Price \<times> Price" where
  "quote_prices new_sum spread inventory =
     (let mid = cdiv new_sum 2; half_spread = cdiv spread 2;
          bid_price = i64 (mid - half_spread); ask_price = i64 (mid + i64 (spread - half_spread))
      in (if inventory < 0 then i64 (bid_price + 1) else bid_price,
          if inventory > 0 then i64 (ask_price - 1) else ask_price))"

definition mm_on_bbo :: "BBOEvent \<Rightarrow> market_maker \<Rightarrow> market_maker" where
  "mm_on_bbo e m =
     (if bbo_instrument_id e \<noteq> st_instrument_id m then m
      else if \<not> is_valid_bbo e then m
      else let new_sum = i64 (bid_px e + ask_px e); old_sum = mm_last_mid m;
               delta = (if new_sum > old_sum then i64 (new_sum - old_sum) else i64 (old_sum - new_sum)) in
        if old_sum \<noteq> 0 \<and> delta = 0 then m
        else let m1 = cancel_active_orders (m\<lparr>mm_last_mid := new_sum\<rparr>);
                 (bid_price, ask_price) = quote_prices new_sum (mm_spread_ticks m1) (mm_inventory m1)
             in quote bid_price ask_price (mm_inventory m1) m1)"

definition mm_on_fill :: "FillEvent \<Rightarrow> market_maker \<Rightarrow> market_maker" where
  "mm_on_fill f m =
     (if fe_instrument_id f \<noteq> st_instrument_id m then m
      else m\<lparr>mm_inventory := i64 (mm_inventory m + i64 (signed_qty (fe_side f) (fe_fill_qty f)))\<rparr>)"

definition set_order_id :: "Side \<Rightarrow> u64 \<Rightarrow> market_maker \<Rightarrow> market_maker" where
  "set_order_id s ident m = (if s = BUY then m\<lparr>mm_bid_order_id := ident\<rparr> else m\<lparr>mm_ask_order_id := ident\<rparr>)"

definition mm_on_order_ack :: "OrderAck \<Rightarrow> market_maker \<Rightarrow> market_maker" where
  "mm_on_order_ack a m =
     (let (q, r) = spsc_pop SIDE_DEPTH (mm_pending_side_queue m); m1 = m\<lparr>mm_pending_side_queue := q\<rparr> in
      case r of None \<Rightarrow> m1
      | Some s \<Rightarrow> if ak_status a = REJECTED then set_order_id s 0 m1
                  else set_order_id s (ak_client_order_id a) m1)"

definition mm_pop_cancel :: "market_maker \<Rightarrow> market_maker \<times> u64 option" where
  "mm_pop_cancel m = (let (q, r) = spsc_pop CANCEL_DEPTH (mm_cancel_queue m) in (m\<lparr>mm_cancel_queue := q\<rparr>, r))"

subsection \<open>Frame facts\<close>

named_theorems mm_frames \<open>what the operations of the market maker leave alone\<close>

lemma push_frames [mm_frames]:
  "st_instrument_id (push_cancel i m) = st_instrument_id m" "mm_inventory (push_cancel i m) = mm_inventory m"
  "st_instrument_id (push_side s m) = st_instrument_id m" "mm_inventory (push_side s m) = mm_inventory m"
  by (simp_all add: push_cancel_def push_side_def)

lemma cancel_frames [mm_frames]:
  "st_instrument_id (cancel_active_orders m) = st_instrument_id m" "mm_inventory (cancel_active_orders m) = mm_inventory m"
  "st_order_queue (cancel_active_orders m) = st_order_queue m" "mm_spread_ticks (cancel_active_orders m) = mm_spread_ticks m"
  "mm_order_qty (cancel_active_orders m) = mm_order_qty m" "mm_max_inventory (cancel_active_orders m) = mm_max_inventory m"
  "mm_pending_side_queue (cancel_active_orders m) = mm_pending_side_queue m"
  "mm_bid_order_id (cancel_active_orders m) = 0" "mm_ask_order_id (cancel_active_orders m) = 0"
  "mm_last_mid (cancel_active_orders m) = mm_last_mid m"
  by (simp_all add: cancel_active_orders_def push_cancel_def Let_def)

lemma quote_side_frames [mm_frames]:
  "st_instrument_id (quote_side s px m) = st_instrument_id m" "mm_inventory (quote_side s px m) = mm_inventory m"
  "mm_max_inventory (quote_side s px m) = mm_max_inventory m" "mm_order_qty (quote_side s px m) = mm_order_qty m"
  "mm_bid_order_id (quote_side s px m) = mm_bid_order_id m" "mm_ask_order_id (quote_side s px m) = mm_ask_order_id m"
  by (simp_all add: quote_side_def send_order_def push_side_def case_prod_beta Let_def)

lemma quote_frames [mm_frames]:
  "st_instrument_id (quote b a i m) = st_instrument_id m" "mm_inventory (quote b a i m) = mm_inventory m"
  "mm_bid_order_id (quote b a i m) = mm_bid_order_id m" "mm_ask_order_id (quote b a i m) = mm_ask_order_id m"
  by (simp_all add: quote_def mm_frames Let_def)

lemma mm_on_bbo_frames [mm_frames]:
  "st_instrument_id (mm_on_bbo e m) = st_instrument_id m" "mm_inventory (mm_on_bbo e m) = mm_inventory m"
  by (simp_all add: mm_on_bbo_def mm_frames case_prod_beta Let_def)

lemma mm_on_order_ack_frames [mm_frames]:
  "st_instrument_id (mm_on_order_ack a m) = st_instrument_id m" "mm_inventory (mm_on_order_ack a m) = mm_inventory m"
  by (simp_all add: mm_on_order_ack_def set_order_id_def case_prod_beta Let_def split: option.split)

lemma i64_add_signed: "i64 (x + i64 y) = i64 (x + y)"
  by (simp add: i64_simps)

text \<open>The market maker keeps its inventory as the interface demands.\<close>

interpretation mm: inventory_keeper mm_on_bbo mm_on_fill mm_on_order_ack "\<lambda>m. fst (pop_order m)" mm_inventory
  st_instrument_id "\<lambda>m. in_i64 (mm_inventory m)"
proof unfold_locales
  fix m :: market_maker and ev e a f
  have pop: "st_instrument_id (fst (pop_order m)) = st_instrument_id m" "mm_inventory (fst (pop_order m)) = mm_inventory m"
    by (simp_all add: pop_order_def case_prod_beta)
  show "in_i64 (mm_inventory (strategy_step mm_on_bbo mm_on_fill mm_on_order_ack (\<lambda>m. fst (pop_order m)) ev m))"
    if "in_i64 (mm_inventory m)"
    using that by (cases ev) (simp_all add: mm_frames pop mm_on_fill_def)
  show "st_instrument_id (strategy_step mm_on_bbo mm_on_fill mm_on_order_ack (\<lambda>m. fst (pop_order m)) ev m) = st_instrument_id m"
    by (cases ev) (simp_all add: mm_frames pop mm_on_fill_def)
  show "mm_inventory (mm_on_bbo e m) = mm_inventory m" "mm_inventory (mm_on_order_ack a m) = mm_inventory m"
    "mm_inventory (fst (pop_order m)) = mm_inventory m" by (simp_all add: mm_frames pop)
  show "mm_inventory (mm_on_fill f m) = i64 (mm_inventory m + event_fill (st_instrument_id m) (Se_fill f))"
    if "in_i64 (mm_inventory m)"
    using that by (simp add: mm_on_fill_def i64_add_signed i64_id)
  show "in_i64 (mm_inventory m)" if "in_i64 (mm_inventory m)" using that .
qed

subsection \<open>Quoting\<close>

definition mm_wf :: "market_maker \<Rightarrow> bool" where
  "mm_wf m \<longleftrightarrow> orders_wf m \<and> spsc_wf CANCEL_DEPTH (mm_cancel_queue m) \<and> spsc_wf SIDE_DEPTH (mm_pending_side_queue m)"

abbreviation mm_sides :: "market_maker \<Rightarrow> Side list" where
  "mm_sides m \<equiv> spsc_contents SIDE_DEPTH (mm_pending_side_queue m)"

abbreviation mm_cancels :: "market_maker \<Rightarrow> u64 list" where
  "mm_cancels m \<equiv> spsc_contents CANCEL_DEPTH (mm_cancel_queue m)"

lemma push_side_contents:
  assumes "spsc_wf SIDE_DEPTH (mm_pending_side_queue m)"
  shows "spsc_wf SIDE_DEPTH (mm_pending_side_queue (push_side s m))"
    and "mm_sides (push_side s m) = (if length (mm_sides m) < SIDE_DEPTH then mm_sides m @ [s] else mm_sides m)"
  using ring.push_wf [OF assms, of s] ring.push_contents [OF assms, of s] by (simp_all add: push_side_def)

lemma push_cancel_contents:
  assumes "spsc_wf CANCEL_DEPTH (mm_cancel_queue m)"
  shows "spsc_wf CANCEL_DEPTH (mm_cancel_queue (push_cancel i m))"
    and "mm_cancels (push_cancel i m) = (if length (mm_cancels m) < CANCEL_DEPTH then mm_cancels m @ [i] else mm_cancels m)"
  using ring.push_wf [OF assms, of i] ring.push_contents [OF assms, of i] by (simp_all add: push_cancel_def)

lemma push_side_other:
  "st_order_queue (push_side s m) = st_order_queue m" "mm_cancel_queue (push_side s m) = mm_cancel_queue m"
  by (simp_all add: push_side_def)

lemma quote_side_room:
  assumes "mm_wf m" and "0 < order_room m"
  shows "mm_wf (quote_side s px m)"
    and "orders (quote_side s px m) = orders m @ [limit_order (st_instrument_id m) s px (mm_order_qty m)]"
    and "mm_sides (quote_side s px m) = (if length (mm_sides m) < SIDE_DEPTH then mm_sides m @ [s] else mm_sides m)"
    and "mm_cancel_queue (quote_side s px m) = mm_cancel_queue m"
proof -
  let ?r = "limit_order (st_instrument_id m) s px (mm_order_qty m)"
  from assms have w: "orders_wf m" "spsc_wf CANCEL_DEPTH (mm_cancel_queue m)" "spsc_wf SIDE_DEPTH (mm_pending_side_queue m)"
    by (simp_all add: mm_wf_def)
  from send_order_room [OF w(1) assms(2), of ?r] obtain q where
    q: "send_order ?r m = (m\<lparr>st_order_queue := q\<rparr>, True)" "spsc_wf ORDER_QUEUE_DEPTH q"
      "spsc_contents ORDER_QUEUE_DEPTH q = orders m @ [?r]" by blast
  let ?m = "m\<lparr>st_order_queue := q\<rparr>"
  have eq: "quote_side s px m = push_side s ?m" by (simp add: quote_side_def q(1))
  have ws: "spsc_wf SIDE_DEPTH (mm_pending_side_queue ?m)" using w(3) by simp
  show "mm_wf (quote_side s px m)"
    using push_side_contents(1) [OF ws, of s] w(2) q(2) by (simp add: mm_wf_def eq push_side_other)
  show "orders (quote_side s px m) = orders m @ [?r]" using q(3) by (simp add: eq push_side_other)
  show "mm_sides (quote_side s px m) = (if length (mm_sides m) < SIDE_DEPTH then mm_sides m @ [s] else mm_sides m)"
    using push_side_contents(2) [OF ws, of s] by (simp add: eq)
  show "mm_cancel_queue (quote_side s px m) = mm_cancel_queue m" by (simp add: eq push_side_other)
qed

lemma quote_side_wf:
  assumes wf: "mm_wf m" shows "mm_wf (quote_side s px m)"
proof (cases "0 < order_room m")
  case True
  with wf show ?thesis by (rule quote_side_room(1))
next
  case False
  let ?r = "limit_order (st_instrument_id m) s px (mm_order_qty m)"
  have w: "orders_wf m" using wf by (simp add: mm_wf_def)
  obtain q ok where p: "spsc_push ORDER_QUEUE_DEPTH ?r (st_order_queue m) = (q, ok)" by force
  have "\<not> ok" "spsc_wf ORDER_QUEUE_DEPTH q"
    using ring.push_ok [OF w, of ?r] ring.push_wf [OF w, of ?r] p False by (simp_all add: order_room_def)
  then show ?thesis using wf p by (simp add: quote_side_def send_order_def mm_wf_def)
qed

definition mm_requotes :: "BBOEvent \<Rightarrow> market_maker \<Rightarrow> bool" where
  "mm_requotes e m \<longleftrightarrow> bbo_instrument_id e = st_instrument_id m \<and> is_valid_bbo e
     \<and> (mm_last_mid m = 0 \<or> mm_last_mid m \<noteq> bid_px e + ask_px e)"

definition mm_small :: "BBOEvent \<Rightarrow> market_maker \<Rightarrow> bool" where
  "mm_small e m \<longleftrightarrow> ask_px e < 2 ^ 60 \<and> 0 < mm_spread_ticks m \<and> mm_spread_ticks m < 2 ^ 60
     \<and> 0 < mm_max_inventory m \<and> mm_max_inventory m < 2 ^ 63 \<and> 0 \<le> mm_last_mid m \<and> mm_last_mid m < 2 ^ 62"

text \<open>The two prices, over the integers.\<close>

definition mm_bid_quote :: "BBOEvent \<Rightarrow> market_maker \<Rightarrow> Price" where
  "mm_bid_quote e m = (bid_px e + ask_px e) div 2 - mm_spread_ticks m div 2 + (if mm_inventory m < 0 then 1 else 0)"

definition mm_ask_quote :: "BBOEvent \<Rightarrow> market_maker \<Rightarrow> Price" where
  "mm_ask_quote e m = (bid_px e + ask_px e) div 2 + (mm_spread_ticks m - mm_spread_ticks m div 2)
     - (if mm_inventory m > 0 then 1 else 0)"

lemma quote_prices_eq:
  assumes "is_valid_bbo e" and "mm_small e m"
  shows "quote_prices (bid_px e + ask_px e) (mm_spread_ticks m) (mm_inventory m) = (mm_bid_quote e m, mm_ask_quote e m)"
proof -
  let ?sum = "bid_px e + ask_px e" and ?s = "mm_spread_ticks m"
  have r: "0 < ?sum" "?sum < 2 ^ 61" "0 < ?s" "?s < 2 ^ 60"
    using assms by (auto simp: is_valid_bbo_def mm_small_def)
  then have d: "cdiv ?sum 2 = ?sum div 2" "cdiv ?s 2 = ?s div 2" by (simp_all add: cdiv_nonneg)
  have b: "0 \<le> ?sum div 2" "?sum div 2 < 2 ^ 60" "0 \<le> ?s div 2" "?s div 2 < 2 ^ 60" "?s div 2 \<le> ?s" using r by auto
  have i: "in_i64 x" if "- (2 ^ 62) \<le> x" "x < 2 ^ 62" for x using that by (simp add: in_i64_def)
  have "i64 (?sum div 2 - ?s div 2) = ?sum div 2 - ?s div 2" "i64 (?s - ?s div 2) = ?s - ?s div 2"
    "i64 (?sum div 2 + (?s - ?s div 2)) = ?sum div 2 + (?s - ?s div 2)"
    "i64 (?sum div 2 - ?s div 2 + 1) = ?sum div 2 - ?s div 2 + 1"
    "i64 (?sum div 2 + (?s - ?s div 2) - 1) = ?sum div 2 + (?s - ?s div 2) - 1"
    using b r by (intro i64_id i; simp)+
  then show ?thesis by (simp add: quote_prices_def mm_bid_quote_def mm_ask_quote_def d Let_def)
qed

definition mm_new_orders :: "BBOEvent \<Rightarrow> market_maker \<Rightarrow> OrderRequest list" where
  "mm_new_orders e m =
     (if mm_inventory m < mm_max_inventory m
      then [limit_order (st_instrument_id m) BUY (mm_bid_quote e m) (mm_order_qty m)] else [])
   @ (if - mm_max_inventory m < mm_inventory m
      then [limit_order (st_instrument_id m) SELL (mm_ask_quote e m) (mm_order_qty m)] else [])"

lemma mm_on_bbo_eq:
  assumes "mm_requotes e m" and "mm_small e m"
  shows "mm_on_bbo e m = quote (mm_bid_quote e m) (mm_ask_quote e m) (mm_inventory m)
    (cancel_active_orders (m\<lparr>mm_last_mid := bid_px e + ask_px e\<rparr>))"
proof -
  let ?sum = "bid_px e + ask_px e"
  have v: "is_valid_bbo e" using assms(1) by (simp add: mm_requotes_def)
  then have s: "0 < ?sum" "?sum < 2 ^ 61" "0 \<le> mm_last_mid m" "mm_last_mid m < 2 ^ 62"
    using assms(2) by (auto simp: is_valid_bbo_def mm_small_def)
  then have "i64 ?sum = ?sum" "i64 (?sum - mm_last_mid m) = ?sum - mm_last_mid m"
    "i64 (mm_last_mid m - ?sum) = mm_last_mid m - ?sum"
    by (auto intro!: i64_id simp: in_i64_def)
  then show ?thesis
    using assms(1) quote_prices_eq [OF v assms(2)] v
    by (auto simp: mm_on_bbo_def mm_requotes_def mm_frames Let_def)
qed

lemma order_room_cong: "st_order_queue m = st_order_queue n \<Longrightarrow> order_room m = order_room n"
  by (simp add: order_room_def)

lemma quote_orders:
  assumes "mm_wf m" and "2 \<le> order_room m" and "in_i64 (- mm_max_inventory m)"
  shows "mm_wf (quote b a i m)"
    and "orders (quote b a i m) = orders m
      @ (if i < mm_max_inventory m then [limit_order (st_instrument_id m) BUY b (mm_order_qty m)] else [])
      @ (if - mm_max_inventory m < i then [limit_order (st_instrument_id m) SELL a (mm_order_qty m)] else [])"
    and "mm_cancel_queue (quote b a i m) = mm_cancel_queue m"
    and "length (mm_sides m) + 2 \<le> SIDE_DEPTH \<Longrightarrow> mm_sides (quote b a i m) = mm_sides m
      @ (if i < mm_max_inventory m then [BUY] else []) @ (if - mm_max_inventory m < i then [SELL] else [])"
proof -
  let ?m1 = "if i < mm_max_inventory m then quote_side BUY b m else m"
  have r0: "0 < order_room m" using assms(2) by simp
  note b1 = quote_side_room [OF assms(1) r0, of BUY b]
  have w1: "mm_wf ?m1" using assms(1) b1(1) by simp
  have r1: "0 < order_room ?m1" using assms(2) b1(2) by (auto simp: order_room_def simp del: length_spsc_contents)
  note s1 = quote_side_room [OF w1 r1, of SELL a]
  have q: "quote b a i m = (if - mm_max_inventory m < i then quote_side SELL a ?m1 else ?m1)"
    by (simp add: quote_def Let_def mm_frames i64_id [OF assms(3)])
  show "mm_wf (quote b a i m)" using w1 s1(1) q by simp
  show "orders (quote b a i m) = orders m
      @ (if i < mm_max_inventory m then [limit_order (st_instrument_id m) BUY b (mm_order_qty m)] else [])
      @ (if - mm_max_inventory m < i then [limit_order (st_instrument_id m) SELL a (mm_order_qty m)] else [])"
    using b1(2) s1(2) q by (simp add: mm_frames)
  show "mm_cancel_queue (quote b a i m) = mm_cancel_queue m" using b1(4) s1(4) q by simp
  show "mm_sides (quote b a i m) = mm_sides m
      @ (if i < mm_max_inventory m then [BUY] else []) @ (if - mm_max_inventory m < i then [SELL] else [])"
    if "length (mm_sides m) + 2 \<le> SIDE_DEPTH"
    using that b1(3) s1(3) q by (auto simp del: length_spsc_contents)
qed

lemma cancel_active_orders_wf:
  assumes "mm_wf m"
  shows "mm_wf (cancel_active_orders m)"
    and "length (mm_cancels m) + 2 \<le> CANCEL_DEPTH \<Longrightarrow>
      mm_cancels (cancel_active_orders m) = mm_cancels m @ filter (\<lambda>i. i \<noteq> 0) [mm_bid_order_id m, mm_ask_order_id m]"
proof -
  have w: "spsc_wf CANCEL_DEPTH (mm_cancel_queue m)" using assms by (simp add: mm_wf_def)
  let ?m1 = "if mm_bid_order_id m \<noteq> 0 then (push_cancel (mm_bid_order_id m) m)\<lparr>mm_bid_order_id := 0\<rparr> else m"
  have w1: "spsc_wf CANCEL_DEPTH (mm_cancel_queue ?m1)" using w push_cancel_contents(1) [OF w] by simp
  have a1: "mm_ask_order_id ?m1 = mm_ask_order_id m" by (simp add: push_cancel_def)
  have w2: "spsc_wf CANCEL_DEPTH (mm_cancel_queue (cancel_active_orders m))"
    using push_cancel_contents(1) [OF w1] w1 by (simp add: cancel_active_orders_def Let_def)
  then show "mm_wf (cancel_active_orders m)" using assms by (simp add: mm_wf_def mm_frames)
  show "mm_cancels (cancel_active_orders m) = mm_cancels m @ filter (\<lambda>i. i \<noteq> 0) [mm_bid_order_id m, mm_ask_order_id m]"
    if "length (mm_cancels m) + 2 \<le> CANCEL_DEPTH"
    using that push_cancel_contents(2) [OF w] push_cancel_contents(2) [OF w1] a1
    by (auto simp: cancel_active_orders_def Let_def simp del: length_spsc_contents)
qed

text \<open>
  Claim C36. A quote update of the market maker: on a valid quote of its instrument whose mid moved, the
  tracked orders are queued for cancelling and forgotten, and exactly one bid and one ask go to the order
  queue, on the sides the inventory limit still allows, at the spread around the mid with the skew of one
  tick; the bid is below the ask except when a spread of one tick meets a non-zero inventory.
\<close>

theorem mm_quotes_both_sides:
  assumes "mm_wf m" and "mm_requotes e m" and "mm_small e m" and "2 \<le> order_room m"
    and "length (mm_cancels m) + 2 \<le> CANCEL_DEPTH"
  shows "orders (mm_on_bbo e m) = orders m @ mm_new_orders e m
    \<and> mm_cancels (mm_on_bbo e m) = mm_cancels m @ filter (\<lambda>i. i \<noteq> 0) [mm_bid_order_id m, mm_ask_order_id m]
    \<and> mm_bid_order_id (mm_on_bbo e m) = 0 \<and> mm_ask_order_id (mm_on_bbo e m) = 0
    \<and> (mm_bid_quote e m < mm_ask_quote e m \<longleftrightarrow> 2 \<le> mm_spread_ticks m \<or> mm_inventory m = 0)
    \<and> mm_ask_quote e m - mm_bid_quote e m = mm_spread_ticks m - (if mm_inventory m = 0 then 0 else 1)
    \<and> mm_wf (mm_on_bbo e m)"
proof -
  let ?m0 = "m\<lparr>mm_last_mid := bid_px e + ask_px e\<rparr>"
  let ?m1 = "cancel_active_orders ?m0"
  have w0: "mm_wf ?m0" using assms(1) by (simp add: mm_wf_def)
  note c = cancel_active_orders_wf [OF w0]
  have room: "2 \<le> order_room ?m1" using assms(4) order_room_cong [of ?m1 m] by (simp add: mm_frames)
  have neg: "in_i64 (- mm_max_inventory ?m1)" using assms(3) by (simp add: mm_frames mm_small_def in_i64_def)
  note q = quote_orders [OF c(1) room neg, of "mm_bid_quote e m" "mm_ask_quote e m" "mm_inventory m"]
  have eq: "mm_on_bbo e m = quote (mm_bid_quote e m) (mm_ask_quote e m) (mm_inventory m) ?m1"
    by (rule mm_on_bbo_eq [OF assms(2,3)])
  have "orders (mm_on_bbo e m) = orders m @ mm_new_orders e m"
    using q(2) by (simp add: eq mm_frames mm_new_orders_def)
  moreover have "mm_cancels (mm_on_bbo e m) = mm_cancels m @ filter (\<lambda>i. i \<noteq> 0) [mm_bid_order_id m, mm_ask_order_id m]"
    using q(3) c(2) assms(5) by (simp add: eq)
  moreover have "mm_ask_quote e m - mm_bid_quote e m = mm_spread_ticks m - (if mm_inventory m = 0 then 0 else 1)"
    by (simp add: mm_bid_quote_def mm_ask_quote_def)
  moreover have "mm_bid_quote e m < mm_ask_quote e m \<longleftrightarrow> 2 \<le> mm_spread_ticks m \<or> mm_inventory m = 0"
    using assms(3) by (auto simp: mm_bid_quote_def mm_ask_quote_def mm_small_def)
  moreover have "mm_bid_order_id (mm_on_bbo e m) = 0" "mm_ask_order_id (mm_on_bbo e m) = 0"
    by (simp_all add: eq mm_frames)
  moreover have "mm_wf (mm_on_bbo e m)" using q(1) by (simp add: eq mm_frames)
  ultimately show ?thesis by (intro conjI)
qed

lemma mm_new_wf:
  "length m1 = ORDER_QUEUE_DEPTH \<Longrightarrow> length m2 = CANCEL_DEPTH \<Longrightarrow> length m3 = SIDE_DEPTH \<Longrightarrow>
   mm_wf (mm_new m1 m2 m3 ident spread q maxinv)"
proof -
  have "pow2 CANCEL_DEPTH" unfolding pow2_def by (rule exI [of _ 8]) (simp add: CANCEL_DEPTH_def)
  moreover have "pow2 SIDE_DEPTH" unfolding pow2_def by (rule exI [of _ 6]) (simp add: SIDE_DEPTH_def)
  ultimately show "length m1 = ORDER_QUEUE_DEPTH \<Longrightarrow> length m2 = CANCEL_DEPTH \<Longrightarrow> length m3 = SIDE_DEPTH \<Longrightarrow>
   mm_wf (mm_new m1 m2 m3 ident spread q maxinv)"
    using pow2_order_queue by (simp add: mm_wf_def mm_new_def spsc_new_wf)
qed

definition sample_mm :: market_maker where
  "sample_mm = mm_new (replicate ORDER_QUEUE_DEPTH req0) (replicate CANCEL_DEPTH 0) (replicate SIDE_DEPTH BUY) 7 2 10 100"

lemma sample_mm_simps:
  "mm_wf sample_mm" "orders sample_mm = []" "mm_sides sample_mm = []" "mm_cancels sample_mm = []"
  "st_instrument_id sample_mm = 7" "mm_spread_ticks sample_mm = 2" "mm_order_qty sample_mm = 10"
  "mm_max_inventory sample_mm = 100" "mm_inventory sample_mm = 0" "mm_last_mid sample_mm = 0"
  "mm_bid_order_id sample_mm = 0" "mm_ask_order_id sample_mm = 0" "order_room sample_mm = ORDER_QUEUE_DEPTH"
  by (simp_all add: sample_mm_def mm_new_wf) (simp_all add: mm_new_def order_room_def spsc_new_contents)

definition quote_event :: "Price \<Rightarrow> Price \<Rightarrow> BBOEvent" where
  "quote_event b a = bbo0\<lparr>bbo_instrument_id := 7, bid_px := b, ask_px := a\<rparr>"

lemma mm_quotes_both_sides_witness:
  "orders (mm_on_bbo (quote_event 1000 1004) sample_mm) = [limit_order 7 BUY 1001 10, limit_order 7 SELL 1003 10]"
proof -
  have "mm_requotes (quote_event 1000 1004) sample_mm" "mm_small (quote_event 1000 1004) sample_mm"
    by (simp_all add: mm_requotes_def mm_small_def quote_event_def is_valid_bbo_def sample_mm_simps bbo0_def)
  note q = mm_quotes_both_sides [OF sample_mm_simps(1) this]
  have "mm_new_orders (quote_event 1000 1004) sample_mm = [limit_order 7 BUY 1001 10, limit_order 7 SELL 1003 10]"
    by (simp add: mm_new_orders_def mm_bid_quote_def mm_ask_quote_def sample_mm_simps quote_event_def)
  moreover have "2 \<le> order_room sample_mm" unfolding sample_mm_simps by (simp add: ORDER_QUEUE_DEPTH_def)
  moreover have "length (mm_cancels sample_mm) + 2 \<le> CANCEL_DEPTH" unfolding sample_mm_simps by (simp add: CANCEL_DEPTH_def)
  ultimately show ?thesis using q unfolding sample_mm_simps by simp
qed

subsection \<open>Acknowledgements\<close>

lemma ack_queue:
  assumes "mm_wf m" and "mm_sides m = s # ss"
  shows "mm_wf (mm_on_order_ack a m)" and "mm_sides (mm_on_order_ack a m) = ss"
    and "mm_cancels (mm_on_order_ack a m) = mm_cancels m"
    and "mm_bid_order_id (mm_on_order_ack a m) =
      (if s = BUY then if ak_status a = REJECTED then 0 else ak_client_order_id a else mm_bid_order_id m)"
    and "mm_ask_order_id (mm_on_order_ack a m) =
      (if s = SELL then if ak_status a = REJECTED then 0 else ak_client_order_id a else mm_ask_order_id m)"
proof -
  have w: "spsc_wf SIDE_DEPTH (mm_pending_side_queue m)" using assms(1) by (simp add: mm_wf_def)
  obtain q r where p: "spsc_pop SIDE_DEPTH (mm_pending_side_queue m) = (q, r)" by force
  have r: "r = Some s" "spsc_contents SIDE_DEPTH q = ss" "spsc_wf SIDE_DEPTH q"
    using ring.pop_value [OF w] ring.pop_contents [OF w] ring.pop_wf [OF w] assms(2) p by simp_all
  show "mm_wf (mm_on_order_ack a m)" "mm_sides (mm_on_order_ack a m) = ss"
    "mm_cancels (mm_on_order_ack a m) = mm_cancels m"
    using assms(1) p r by (simp_all add: mm_on_order_ack_def mm_wf_def set_order_id_def Let_def)
  show "mm_bid_order_id (mm_on_order_ack a m) =
      (if s = BUY then if ak_status a = REJECTED then 0 else ak_client_order_id a else mm_bid_order_id m)"
    "mm_ask_order_id (mm_on_order_ack a m) =
      (if s = SELL then if ak_status a = REJECTED then 0 else ak_client_order_id a else mm_ask_order_id m)"
    using p r(1) by (cases s; simp add: mm_on_order_ack_def set_order_id_def Let_def)+
qed

text \<open>The identifier that a run of acknowledgements leaves for a side: the last one of that side.\<close>

fun last_ack :: "Side \<Rightarrow> Side list \<Rightarrow> OrderAck list \<Rightarrow> u64 \<Rightarrow> u64" where
  "last_ack d (s # ss) (a # as) ident =
     last_ack d ss as (if s = d then if ak_status a = REJECTED then 0 else ak_client_order_id a else ident)"
| "last_ack d ss as ident = ident"

text \<open>
  Acknowledgements go to the orders in the order they were sent: each takes the oldest pending
  side, and after any number of them the strategy tracks, for each side, only the identifier of the last
  acknowledged order of that side.  The identifiers of the earlier ones are overwritten and nothing queues
  their cancellation.
\<close>

theorem acks_track_last_order:
  assumes "mm_wf m" and "length as \<le> length (mm_sides m)"
  shows "mm_bid_order_id (fold mm_on_order_ack as m) = last_ack BUY (mm_sides m) as (mm_bid_order_id m)
    \<and> mm_ask_order_id (fold mm_on_order_ack as m) = last_ack SELL (mm_sides m) as (mm_ask_order_id m)
    \<and> mm_sides (fold mm_on_order_ack as m) = drop (length as) (mm_sides m)
    \<and> mm_cancels (fold mm_on_order_ack as m) = mm_cancels m \<and> mm_wf (fold mm_on_order_ack as m)"
  using assms
proof (induction as arbitrary: m)
  case Nil
  then show ?case by simp
next
  case (Cons a as)
  from Cons.prems(2) obtain s ss where s: "mm_sides m = s # ss" by (cases "mm_sides m") simp_all
  note q = ack_queue [OF Cons.prems(1) s, of a]
  from Cons.prems(2) have "length as \<le> length (mm_sides (mm_on_order_ack a m))" unfolding q(2) s by simp
  note IH = Cons.IH [OF q(1) this]
  show ?case using IH unfolding q s by simp
qed

lemma sample_mm_acks:
  "mm_wf (fold (\<lambda>s. push_side s) ss sample_mm)
   \<and> (length ss \<le> 64 \<longrightarrow> mm_sides (fold (\<lambda>s. push_side s) ss sample_mm) = ss)
   \<and> mm_bid_order_id (fold (\<lambda>s. push_side s) ss sample_mm) = 0"
proof (induction ss rule: rev_induct)
  case Nil
  then show ?case by (simp add: sample_mm_simps)
next
  case (snoc s ss)
  let ?m = "fold (\<lambda>s. push_side s) ss sample_mm"
  have w: "spsc_wf SIDE_DEPTH (mm_pending_side_queue ?m)" using snoc by (simp add: mm_wf_def)
  have "mm_wf (push_side s ?m)" using snoc push_side_contents(1) [OF w, of s] by (simp add: mm_wf_def push_side_other)
  moreover have "mm_bid_order_id (push_side s ?m) = mm_bid_order_id ?m" by (simp add: push_side_def)
  ultimately show ?case using snoc push_side_contents(2) [OF w, of s] by (auto simp: SIDE_DEPTH_def [symmetric] simp del: length_spsc_contents)
qed

lemma acks_track_last_order_witness:
  "mm_bid_order_id (fold mm_on_order_ack (map (\<lambda>i. ack0\<lparr>ak_client_order_id := i, ak_status := NEW\<rparr>) [1, 2, 3, 4])
     (fold (\<lambda>s. push_side s) [BUY, SELL, BUY, SELL] sample_mm)) = 3"
proof -
  let ?m = "fold (\<lambda>s. push_side s) [BUY, SELL, BUY, SELL] sample_mm"
  have m: "mm_wf ?m" "mm_sides ?m = [BUY, SELL, BUY, SELL]" "mm_bid_order_id ?m = 0"
    using sample_mm_acks [of "[BUY, SELL, BUY, SELL]"] by simp_all
  let ?as = "map (\<lambda>i. ack0\<lparr>ak_client_order_id := i, ak_status := NEW\<rparr>) [1, 2, 3, 4]"
  have "length ?as \<le> length (mm_sides ?m)" unfolding m(2) by simp
  from acks_track_last_order [OF m(1) this] show ?thesis unfolding m by simp
qed

end
