(* ===== verification/Momentum.thy ===== *)
theory Momentum
  imports Strategy Binary64
begin

text \<open>
  \<^verbatim>\<open>src/strategy/momentum.cpp\<close>: two exponential moving averages of the mid price, opening and closing by
  IOC orders, and a stop loss.  Periods are \<open>int\<close>, averages binary64.
\<close>

datatype mo_signal = Sig_none | Sig_long | Sig_short

record momentum = strategy_base +
  mo_fast_alpha :: b64
  mo_slow_alpha :: b64
  mo_fast_ema :: b64
  mo_slow_ema :: b64
  mo_warmup_count :: int
  mo_warmup_needed :: int
  mo_order_qty :: Qty
  mo_signal_band :: Price
  mo_max_adverse :: Price
  mo_last_signal :: mo_signal
  mo_entry_price :: Price
  mo_inventory :: Qty

definition mo_new :: "OrderRequest list \<Rightarrow> InstrumentId \<Rightarrow> int \<Rightarrow> int \<Rightarrow> Qty \<Rightarrow> Price \<Rightarrow> Price \<Rightarrow> momentum" where
  "mo_new mem ident fast_period slow_period q band adverse =
     \<lparr>st_instrument_id = ident, st_order_queue = spsc_new mem,
      mo_fast_alpha = b64_div (Fin 2) (b64_of_int (fast_period + 1)),
      mo_slow_alpha = b64_div (Fin 2) (b64_of_int (slow_period + 1)),
      mo_fast_ema = Fin 0, mo_slow_ema = Fin 0, mo_warmup_count = 0, mo_warmup_needed = slow_period,
      mo_order_qty = q, mo_signal_band = band, mo_max_adverse = adverse,
      mo_last_signal = Sig_none, mo_entry_price = 0, mo_inventory = 0\<rparr>"

definition ema_update :: "b64 \<Rightarrow> b64 \<Rightarrow> b64 \<Rightarrow> b64" where
  "ema_update prev price alpha = b64_add prev (b64_mult alpha (b64_sub price prev))"

definition update_ema :: "b64 \<Rightarrow> momentum \<Rightarrow> momentum" where
  "update_ema mid m =
     (let m1 = (if mo_warmup_count m = 0 then m\<lparr>mo_fast_ema := mid, mo_slow_ema := mid\<rparr>
                else m\<lparr>mo_fast_ema := ema_update (mo_fast_ema m) mid (mo_fast_alpha m),
                       mo_slow_ema := ema_update (mo_slow_ema m) mid (mo_slow_alpha m)\<rparr>)
      in if mo_warmup_count m1 < mo_warmup_needed m1 then m1\<lparr>mo_warmup_count := mo_warmup_count m1 + 1\<rparr> else m1)"

definition compute_signal :: "momentum \<Rightarrow> mo_signal" where
  "compute_signal m =
     (if mo_warmup_count m < mo_warmup_needed m then Sig_none
      else let diff = b64_sub (mo_fast_ema m) (mo_slow_ema m) in
        if b64_less (b64_of_int (mo_signal_band m)) diff then Sig_long
        else if b64_less diff (b64_neg (b64_of_int (mo_signal_band m))) then Sig_short else Sig_none)"

definition open_position :: "mo_signal \<Rightarrow> momentum \<Rightarrow> momentum" where
  "open_position sig m =
     (let px = b64_to_i64 (mo_fast_ema m);
          req = (if sig = Sig_long then ioc_order (st_instrument_id m) BUY (i64 (px + 1)) (mo_order_qty m)
                 else ioc_order (st_instrument_id m) SELL (i64 (px - 1)) (mo_order_qty m))
      in fst (send_order req (m\<lparr>mo_entry_price := px, mo_last_signal := sig\<rparr>)))"

definition close_position :: "momentum \<Rightarrow> momentum" where
  "close_position m =
     (let inv = mo_inventory m; m1 = m\<lparr>mo_last_signal := Sig_none, mo_entry_price := 0\<rparr> in
      if inv = 0 then m1
      else let px = b64_to_i64 (mo_fast_ema m);
               req = (if inv > 0 then ioc_order (st_instrument_id m) SELL (i64 (px - 1)) inv
                      else ioc_order (st_instrument_id m) BUY (i64 (px + 1)) (i64 (- inv)))
           in fst (send_order req m1))"

definition stop_loss_hit :: "Price \<Rightarrow> momentum \<Rightarrow> bool" where
  "stop_loss_hit mid m \<longleftrightarrow> mo_entry_price m \<noteq> 0 \<and> mo_inventory m \<noteq> 0
     \<and> (if mo_inventory m > 0 then i64 (mo_entry_price m - mid) else i64 (mid - mo_entry_price m)) > mo_max_adverse m"

definition check_stop_loss :: "Price \<Rightarrow> momentum \<Rightarrow> momentum" where
  "check_stop_loss mid m = (if stop_loss_hit mid m then close_position m else m)"

definition exit_signal :: "momentum \<Rightarrow> bool" where
  "exit_signal m \<longleftrightarrow> (let sig = compute_signal m; long_pos = mo_inventory m > 0 in
     sig = Sig_none \<or> (sig = Sig_short \<and> long_pos) \<or> (sig = Sig_long \<and> \<not> long_pos))"

definition mo_on_bbo :: "BBOEvent \<Rightarrow> momentum \<Rightarrow> momentum" where
  "mo_on_bbo e m =
     (if bbo_instrument_id e \<noteq> st_instrument_id m then m
      else if \<not> is_valid_bbo e then m
      else let m1 = update_ema (b64_of_int (bbo_mid_price e)) m;
               m2 = check_stop_loss (bbo_mid_price e) m1;
               sig = compute_signal m2
           in if mo_inventory m2 = 0
              then (if sig \<noteq> Sig_none \<and> sig \<noteq> mo_last_signal m2 then open_position sig m2 else m2)
              else if exit_signal m2 then close_position m2 else m2)"

definition mo_on_fill :: "FillEvent \<Rightarrow> momentum \<Rightarrow> momentum" where
  "mo_on_fill f m =
     (if fe_instrument_id f \<noteq> st_instrument_id m then m
      else m\<lparr>mo_inventory := i64 (mo_inventory m + i64 (signed_qty (fe_side f) (fe_fill_qty f)))\<rparr>)"

definition mo_on_order_ack :: "OrderAck \<Rightarrow> momentum \<Rightarrow> momentum" where
  "mo_on_order_ack a m = m"

subsection \<open>Frame facts\<close>

named_theorems mo_frames \<open>what the operations of the momentum strategy leave alone\<close>

lemma update_ema_frames [mo_frames]:
  "st_instrument_id (update_ema x m) = st_instrument_id m" "mo_inventory (update_ema x m) = mo_inventory m"
  "st_order_queue (update_ema x m) = st_order_queue m" "mo_order_qty (update_ema x m) = mo_order_qty m"
  "mo_entry_price (update_ema x m) = mo_entry_price m" "mo_max_adverse (update_ema x m) = mo_max_adverse m"
  "mo_last_signal (update_ema x m) = mo_last_signal m"
  by (simp_all add: update_ema_def Let_def)

lemma open_frames [mo_frames]:
  "st_instrument_id (open_position sig m) = st_instrument_id m" "mo_inventory (open_position sig m) = mo_inventory m"
  "mo_fast_ema (open_position sig m) = mo_fast_ema m" "mo_slow_ema (open_position sig m) = mo_slow_ema m"
  "mo_warmup_count (open_position sig m) = mo_warmup_count m" "mo_warmup_needed (open_position sig m) = mo_warmup_needed m"
  "mo_fast_alpha (open_position sig m) = mo_fast_alpha m" "mo_slow_alpha (open_position sig m) = mo_slow_alpha m"
  by (simp_all add: open_position_def send_order_def case_prod_beta Let_def)

lemma close_frames [mo_frames]:
  "st_instrument_id (close_position m) = st_instrument_id m" "mo_inventory (close_position m) = mo_inventory m"
  "mo_fast_ema (close_position m) = mo_fast_ema m" "mo_slow_ema (close_position m) = mo_slow_ema m"
  "mo_warmup_count (close_position m) = mo_warmup_count m" "mo_warmup_needed (close_position m) = mo_warmup_needed m"
  "mo_fast_alpha (close_position m) = mo_fast_alpha m" "mo_slow_alpha (close_position m) = mo_slow_alpha m"
  "mo_order_qty (close_position m) = mo_order_qty m" "mo_signal_band (close_position m) = mo_signal_band m"
  by (simp_all add: close_position_def send_order_def case_prod_beta Let_def)

lemma stop_frames [mo_frames]:
  "st_instrument_id (check_stop_loss p m) = st_instrument_id m" "mo_inventory (check_stop_loss p m) = mo_inventory m"
  "mo_fast_ema (check_stop_loss p m) = mo_fast_ema m" "mo_slow_ema (check_stop_loss p m) = mo_slow_ema m"
  "mo_warmup_count (check_stop_loss p m) = mo_warmup_count m" "mo_warmup_needed (check_stop_loss p m) = mo_warmup_needed m"
  "mo_fast_alpha (check_stop_loss p m) = mo_fast_alpha m" "mo_slow_alpha (check_stop_loss p m) = mo_slow_alpha m"
  "mo_order_qty (check_stop_loss p m) = mo_order_qty m"  "mo_signal_band (check_stop_loss p m) = mo_signal_band m"
  by (simp_all add: check_stop_loss_def mo_frames)

lemma compute_signal_stop [simp]: "compute_signal (check_stop_loss p m) = compute_signal m"
  by (simp add: compute_signal_def mo_frames Let_def)

lemma mo_on_bbo_frames [mo_frames]:
  "st_instrument_id (mo_on_bbo e m) = st_instrument_id m" "mo_inventory (mo_on_bbo e m) = mo_inventory m"
  by (simp_all add: mo_on_bbo_def mo_frames Let_def)

interpretation mo: inventory_keeper mo_on_bbo mo_on_fill mo_on_order_ack "\<lambda>m. fst (pop_order m)" mo_inventory
  st_instrument_id "\<lambda>m. in_i64 (mo_inventory m)"
proof unfold_locales
  fix m :: momentum and ev e a f
  have pop: "st_instrument_id (fst (pop_order m)) = st_instrument_id m" "mo_inventory (fst (pop_order m)) = mo_inventory m"
    by (simp_all add: pop_order_def case_prod_beta)
  show "in_i64 (mo_inventory (strategy_step mo_on_bbo mo_on_fill mo_on_order_ack (\<lambda>m. fst (pop_order m)) ev m))"
    if "in_i64 (mo_inventory m)"
    using that by (cases ev) (simp_all add: mo_frames pop mo_on_fill_def mo_on_order_ack_def)
  show "st_instrument_id (strategy_step mo_on_bbo mo_on_fill mo_on_order_ack (\<lambda>m. fst (pop_order m)) ev m) = st_instrument_id m"
    by (cases ev) (simp_all add: mo_frames pop mo_on_fill_def mo_on_order_ack_def)
  show "mo_inventory (mo_on_bbo e m) = mo_inventory m" "mo_inventory (mo_on_order_ack a m) = mo_inventory m"
    "mo_inventory (fst (pop_order m)) = mo_inventory m" by (simp_all add: mo_frames pop mo_on_order_ack_def)
  show "mo_inventory (mo_on_fill f m) = i64 (mo_inventory m + event_fill (st_instrument_id m) (Se_fill f))"
    if "in_i64 (mo_inventory m)"
    using that by (simp add: mo_on_fill_def i64_simps i64_id)
  show "in_i64 (mo_inventory m)" if "in_i64 (mo_inventory m)" using that .
qed

subsection \<open>The orders of one quote\<close>

definition closing_order :: "momentum \<Rightarrow> OrderRequest" where
  "closing_order m = (if mo_inventory m > 0
     then ioc_order (st_instrument_id m) SELL (i64 (b64_to_i64 (mo_fast_ema m) - 1)) (mo_inventory m)
     else ioc_order (st_instrument_id m) BUY (i64 (b64_to_i64 (mo_fast_ema m) + 1)) (i64 (- mo_inventory m)))"

definition opening_order :: "mo_signal \<Rightarrow> momentum \<Rightarrow> OrderRequest" where
  "opening_order sig m = (if sig = Sig_long
     then ioc_order (st_instrument_id m) BUY (i64 (b64_to_i64 (mo_fast_ema m) + 1)) (mo_order_qty m)
     else ioc_order (st_instrument_id m) SELL (i64 (b64_to_i64 (mo_fast_ema m) - 1)) (mo_order_qty m))"

lemma open_position_queue:
  "st_order_queue (open_position sig m) = st_order_queue (fst (send_order (opening_order sig m) m))"
  by (simp add: open_position_def opening_order_def send_order_def case_prod_beta Let_def)

lemma close_position_queue:
  "st_order_queue (close_position m) =
     (if mo_inventory m = 0 then st_order_queue m else st_order_queue (fst (send_order (closing_order m) m)))"
  by (simp add: close_position_def closing_order_def send_order_def case_prod_beta Let_def)

lemma closing_order_stop [simp]: "closing_order (check_stop_loss p m) = closing_order m"
  by (simp add: closing_order_def mo_frames)

lemma exit_signal_stop [simp]: "exit_signal (check_stop_loss p m) = exit_signal m"
  by (simp add: exit_signal_def mo_frames)

text \<open>The state after the averages have seen the quote.\<close>

definition mo_seen :: "BBOEvent \<Rightarrow> momentum \<Rightarrow> momentum" where
  "mo_seen e m = update_ema (b64_of_int (bbo_mid_price e)) m"

definition mo_new_orders :: "BBOEvent \<Rightarrow> momentum \<Rightarrow> OrderRequest list" where
  "mo_new_orders e m = (let m1 = mo_seen e m; sig = compute_signal m1 in
     if mo_inventory m = 0
     then (if sig \<noteq> Sig_none \<and> sig \<noteq> mo_last_signal m then [opening_order sig m1] else [])
     else (if stop_loss_hit (bbo_mid_price e) m1 then [closing_order m1] else [])
        @ (if exit_signal m1 then [closing_order m1] else []))"

lemma mo_on_bbo_orders:
  assumes "bbo_instrument_id e = st_instrument_id m" and "is_valid_bbo e" and "orders_wf m" and "2 \<le> order_room m"
  shows "orders (mo_on_bbo e m) = orders m @ mo_new_orders e m"
proof -
  let ?m1 = "mo_seen e m" and ?p = "bbo_mid_price e"
  have q1: "st_order_queue ?m1 = st_order_queue m" and i1: "mo_inventory ?m1 = mo_inventory m"
    by (simp_all add: mo_seen_def mo_frames)
  have w1: "orders_wf ?m1" "2 \<le> order_room ?m1" using assms(3,4) q1 by (simp_all add: order_room_def)
  show ?thesis
  proof (cases "mo_inventory m = 0")
    case True
    then have n: "\<not> stop_loss_hit ?p ?m1" by (simp add: stop_loss_hit_def i1)
    have ls: "mo_last_signal ?m1 = mo_last_signal m" by (simp add: mo_seen_def mo_frames)
    show ?thesis
      using send_order_queue [of ?m1 "opening_order (compute_signal ?m1) ?m1"] w1 assms(1,2) True n ls q1 i1
      by (simp add: mo_on_bbo_def mo_new_orders_def mo_seen_def [symmetric] Let_def check_stop_loss_def open_position_queue)
  next
    case False
    let ?m2 = "check_stop_loss ?p ?m1"
    have i2: "mo_inventory ?m2 = mo_inventory m" by (simp add: mo_frames i1)
    have s2: "orders_wf ?m2 \<and> orders ?m2 = orders m @ (if stop_loss_hit ?p ?m1 then [closing_order ?m1] else [])"
      using send_order_queue [of ?m1 "closing_order ?m1"] w1 False q1 i1
      by (simp add: check_stop_loss_def close_position_queue)
    then have "0 < order_room ?m2" using assms(4) by (auto simp: order_room_def simp del: length_spsc_contents)
    then have "orders (fst (send_order (closing_order ?m1) ?m2)) = orders ?m2 @ [closing_order ?m1]"
      using send_order_queue [of ?m2 "closing_order ?m1"] s2 by blast
    then show ?thesis
      using assms(1,2) False i2 s2
      by (simp add: mo_on_bbo_def mo_new_orders_def mo_seen_def [symmetric] Let_def close_position_queue)
  qed
qed

text \<open>
  Claim C37. The orders a quote makes the momentum strategy send: all are IOC orders on its instrument; when
  flat it sends at most one, of the configured size; in a position it sends only orders for exactly the
  opposite of the position, and it sends two of them precisely when the stop loss and the exit signal meet.
\<close>

theorem momentum_orders:
  assumes "bbo_instrument_id e = st_instrument_id m" and "is_valid_bbo e" and "orders_wf m" and "2 \<le> order_room m"
    and "in_i64 (mo_inventory m)" and "mo_inventory m \<noteq> - (2 ^ 63)"
  shows "\<exists>new. orders (mo_on_bbo e m) = orders m @ new
    \<and> list_all (\<lambda>r. req_type r = IOC \<and> req_instrument_id r = st_instrument_id m
        \<and> (if mo_inventory m = 0 then req_qty r = mo_order_qty m
           else signed_qty (req_side r) (req_qty r) = - mo_inventory m)) new
    \<and> length new \<le> (if mo_inventory m = 0 then 1 else 2)
    \<and> (length new = 2 \<longleftrightarrow> mo_inventory m \<noteq> 0 \<and> stop_loss_hit (bbo_mid_price e) (mo_seen e m) \<and> exit_signal (mo_seen e m))"
proof (intro exI [of _ "mo_new_orders e m"] conjI)
  have f: "st_instrument_id (mo_seen e m) = st_instrument_id m" "mo_inventory (mo_seen e m) = mo_inventory m"
    "mo_order_qty (mo_seen e m) = mo_order_qty m" by (simp_all add: mo_seen_def mo_frames)
  have neg: "i64 (- mo_inventory m) = - mo_inventory m" using assms(5,6) by (intro i64_id) (auto simp: in_i64_def)
  show "orders (mo_on_bbo e m) = orders m @ mo_new_orders e m" by (rule mo_on_bbo_orders [OF assms(1-4)])
  show "list_all (\<lambda>r. req_type r = IOC \<and> req_instrument_id r = st_instrument_id m
        \<and> (if mo_inventory m = 0 then req_qty r = mo_order_qty m
           else signed_qty (req_side r) (req_qty r) = - mo_inventory m)) (mo_new_orders e m)"
    by (simp add: mo_new_orders_def opening_order_def closing_order_def f neg Let_def)
  show "length (mo_new_orders e m) \<le> (if mo_inventory m = 0 then 1 else 2)"
    by (simp add: mo_new_orders_def Let_def)
  show "length (mo_new_orders e m) = 2 \<longleftrightarrow>
      mo_inventory m \<noteq> 0 \<and> stop_loss_hit (bbo_mid_price e) (mo_seen e m) \<and> exit_signal (mo_seen e m)"
    by (simp add: mo_new_orders_def Let_def)
qed

definition sample_mo :: "Qty \<Rightarrow> momentum" where
  "sample_mo n = (mo_new (replicate ORDER_QUEUE_DEPTH req0) 7 7 21 100 1 10)
     \<lparr>mo_inventory := n, mo_entry_price := 1000, mo_last_signal := Sig_long, mo_warmup_count := 1,
      mo_fast_ema := Fin 1000, mo_slow_ema := Fin 1000\<rparr>"

lemma sample_mo_simps:
  "orders_wf (sample_mo n)" "orders (sample_mo n) = []" "order_room (sample_mo n) = ORDER_QUEUE_DEPTH"
  "st_instrument_id (sample_mo n) = 7" "mo_inventory (sample_mo n) = n"
proof -
  show "orders_wf (sample_mo n)" by (simp add: sample_mo_def mo_new_def spsc_new_wf pow2_order_queue)
qed (simp_all add: sample_mo_def mo_new_def order_room_def)

definition mo_quote :: "Price \<Rightarrow> Price \<Rightarrow> BBOEvent" where
  "mo_quote b a = bbo0\<lparr>bbo_instrument_id := 7, bid_px := b, ask_px := a\<rparr>"

lemma mo_quote_simps [simp]:
  "bbo_instrument_id (mo_quote b a) = 7" "bid_px (mo_quote b a) = b" "ask_px (mo_quote b a) = a"
  by (simp_all add: mo_quote_def)

lemma mo_seen_stop:
  "mo_entry_price (mo_seen e m) = mo_entry_price m" "mo_inventory (mo_seen e m) = mo_inventory m"
  "mo_max_adverse (mo_seen e m) = mo_max_adverse m"
  by (simp_all add: mo_seen_def mo_frames)

lemma sample_mo_crash: "stop_loss_hit 980 (mo_seen (mo_quote 979 981) (sample_mo 100))"
  "exit_signal (mo_seen (mo_quote 979 981) (sample_mo 100))"
proof -
  show "stop_loss_hit 980 (mo_seen (mo_quote 979 981) (sample_mo 100))"
    by (simp add: stop_loss_hit_def mo_seen_stop) (simp add: sample_mo_def mo_new_def i64_def)
  have "mo_warmup_count (mo_seen (mo_quote 979 981) (sample_mo 100)) < mo_warmup_needed (mo_seen (mo_quote 979 981) (sample_mo 100))"
    by (simp add: mo_seen_def update_ema_def Let_def sample_mo_def mo_new_def)
  then show "exit_signal (mo_seen (mo_quote 979 981) (sample_mo 100))"
    by (simp add: exit_signal_def compute_signal_def Let_def)
qed

lemma mo_quote_mid: "is_valid_bbo (mo_quote 979 981)" "bbo_mid_price (mo_quote 979 981) = 980"
  by (simp_all add: is_valid_bbo_def bbo_mid_price_def i64_def cdiv_def)

lemma momentum_orders_witness:
  "\<exists>a b. orders (mo_on_bbo (mo_quote 979 981) (sample_mo 100)) = [a, b]
    \<and> req_qty a = 100 \<and> req_side a = SELL \<and> req_qty b = 100 \<and> req_side b = SELL"
proof -
  have room: "2 \<le> order_room (sample_mo 100)" unfolding sample_mo_simps by (simp add: ORDER_QUEUE_DEPTH_def)
  have "in_i64 (mo_inventory (sample_mo 100))" "mo_inventory (sample_mo 100) \<noteq> - (2 ^ 63)"
    unfolding sample_mo_simps by (simp_all add: in_i64_def)
  from momentum_orders [OF _ mo_quote_mid(1) sample_mo_simps(1) room this] obtain new where
    n: "orders (mo_on_bbo (mo_quote 979 981) (sample_mo 100)) = new" "length new = 2"
      "list_all (\<lambda>r. signed_qty (req_side r) (req_qty r) = - 100) new"
    unfolding sample_mo_simps by (auto simp: sample_mo_crash mo_quote_mid(2) list_all_iff)
  from n(2) obtain a b where ab: "new = [a, b]" by (auto simp: numeral_2_eq_2 length_Suc_conv)
  have "mo_new_orders (mo_quote 979 981) (sample_mo 100) = new"
    using mo_on_bbo_orders [OF _ mo_quote_mid(1) sample_mo_simps(1) room] n(1) unfolding sample_mo_simps by simp
  then have "req_side a = SELL" "req_side b = SELL"
    by (auto simp: ab mo_new_orders_def sample_mo_simps sample_mo_crash mo_quote_mid closing_order_def mo_seen_stop Let_def
      split: if_splits)
  then show ?thesis using n(1,3) ab by simp
qed

subsection \<open>The averages stay in the range of the mids\<close>

lemma ema_up:
  assumes "0 \<le> a" and "a \<le> 1 / 4" and "p \<le> x"
  shows "0 \<le> round_rat (a * round_rat (x - p))" and "round_rat (a * round_rat (x - p)) \<le> x - p"
proof -
  have d: "0 \<le> round_rat (x - p)" "round_rat (x - p) \<le> 2 * (x - p)"
    using assms(3) round_rat_nonneg [of "x - p"] round_rat_le_double [of "x - p"] by simp_all
  show "0 \<le> round_rat (a * round_rat (x - p))" using assms(1) d(1) by (simp add: round_rat_nonneg)
  have "a * round_rat (x - p) \<le> 1 / 4 * (2 * (x - p))"
    using assms d by (intro mult_mono) simp_all
  moreover have "round_rat (a * round_rat (x - p)) \<le> 2 * (a * round_rat (x - p))"
    using assms(1) d(1) by (intro round_rat_le_double) simp
  ultimately show "round_rat (a * round_rat (x - p)) \<le> x - p" by simp
qed

lemma ema_step:
  assumes "0 \<le> a" and "a \<le> 1 / 4" and "l \<le> p" and "p \<le> h" and "l \<le> x" and "x \<le> h"
  shows "l \<le> p + round_rat (a * round_rat (x - p))" and "p + round_rat (a * round_rat (x - p)) \<le> h"
proof -
  have "l \<le> p + round_rat (a * round_rat (x - p)) \<and> p + round_rat (a * round_rat (x - p)) \<le> h"
  proof (cases "p \<le> x")
    case True
    from ema_up [OF assms(1,2) True] assms show ?thesis by simp
  next
    case False
    then have "x \<le> p" by simp
    note u = ema_up [OF assms(1,2), of "- p" "- x"]
    have "round_rat (a * round_rat (x - p)) = - round_rat (a * round_rat (p - x))"
      using round_rat_neg [of "p - x"] round_rat_neg [of "a * round_rat (p - x)"] by simp
    with u \<open>x \<le> p\<close> assms show ?thesis by simp
  qed
  then show "l \<le> p + round_rat (a * round_rat (x - p))" "p + round_rat (a * round_rat (x - p)) \<le> h" by simp_all
qed

lemma ema_update_between:
  assumes a: "0 \<le> a" "a \<le> 1 / 4" and p: "of_int lo \<le> p" "p \<le> of_int hi" and x: "lo \<le> x" "x \<le> hi"
    and lo: "0 \<le> lo" and hi: "hi \<le> 2 ^ 53"
  shows "\<exists>r. ema_update (Fin p) (Fin (of_int x)) (Fin a) = Fin r \<and> of_int lo \<le> r \<and> r \<le> of_int hi"
proof -
  let ?d = "round_rat (of_int x - p)"
  let ?t = "round_rat (a * ?d)"
  have x': "of_int lo \<le> (of_int x :: rat)" "of_int x \<le> (of_int hi :: rat)" using x by simp_all
  have hi0: "0 \<le> hi" using lo x by simp
  have rep: "\<bar>- hi\<bar> \<le> 2 ^ 53" "\<bar>hi\<bar> \<le> 2 ^ 53" "\<bar>lo\<bar> \<le> 2 ^ 53" using lo hi x hi0 by simp_all
  have lo': "(0 :: rat) \<le> of_int lo" using lo by simp
  have dx: "of_int (- hi) \<le> of_int x - p" "of_int x - p \<le> of_int hi"
    using p x' lo' by simp_all
  have d: "b64_sub (Fin (of_int x)) (Fin p) = Fin ?d" "of_int (- hi) \<le> ?d" "?d \<le> of_int hi"
    using b64_round_between [OF dx rep(1,2)] round_rat_between [OF dx rep(1,2)] by (simp_all add: b64_sub_def)
  have ad: "of_int (- hi) \<le> a * ?d" "a * ?d \<le> of_int hi"
  proof -
    have "\<bar>a * ?d\<bar> \<le> 1 * of_int hi" using a d(2,3) unfolding abs_mult by (intro mult_mono) (simp_all add: abs_le_iff)
    then show "of_int (- hi) \<le> a * ?d" "a * ?d \<le> of_int hi" by (simp_all add: abs_le_iff)
  qed
  have t: "b64_mult (Fin a) (Fin ?d) = Fin ?t" using b64_round_between [OF ad rep(1,2)] by simp
  have s: "of_int lo \<le> p + ?t" "p + ?t \<le> of_int hi" using ema_step [OF a p x'] by simp_all
  show ?thesis
    using b64_round_between [OF s rep(3,2)] round_rat_between [OF s rep(3,2)] d(1) t
    by (simp add: ema_update_def)
qed

definition ema_inv :: "Price \<Rightarrow> Price \<Rightarrow> momentum \<Rightarrow> bool" where
  "ema_inv lo hi m \<longleftrightarrow> (\<exists>a b. mo_fast_alpha m = Fin a \<and> mo_slow_alpha m = Fin b \<and> 0 \<le> a \<and> a \<le> 1 / 4 \<and> 0 \<le> b \<and> b \<le> 1 / 4)
     \<and> 0 \<le> mo_warmup_count m \<and> 0 < mo_warmup_needed m
     \<and> (0 < mo_warmup_count m \<longrightarrow> (\<exists>f s. mo_fast_ema m = Fin f \<and> mo_slow_ema m = Fin s
          \<and> of_int lo \<le> f \<and> f \<le> of_int hi \<and> of_int lo \<le> s \<and> s \<le> of_int hi))"

definition price_inv :: "Price \<Rightarrow> Price \<Rightarrow> momentum \<Rightarrow> bool" where
  "price_inv lo hi m \<longleftrightarrow> orders_wf m \<and> (\<forall>r \<in> set (orders m). lo - 1 \<le> req_price r \<and> req_price r \<le> hi + 1)"

lemma ema_inv_cong:
  assumes "mo_fast_alpha n = mo_fast_alpha m" "mo_slow_alpha n = mo_slow_alpha m" "mo_fast_ema n = mo_fast_ema m"
    "mo_slow_ema n = mo_slow_ema m" "mo_warmup_count n = mo_warmup_count m" "mo_warmup_needed n = mo_warmup_needed m"
  shows "ema_inv lo hi n = ema_inv lo hi m"
  by (simp add: ema_inv_def assms)

lemma update_ema_inv:
  assumes "ema_inv lo hi m" and "0 \<le> lo" and "hi \<le> 2 ^ 53" and x: "lo \<le> x" "x \<le> hi"
  shows "ema_inv lo hi (update_ema (b64_of_int x) m) \<and> 0 < mo_warmup_count (update_ema (b64_of_int x) m)"
proof -
  have mid: "b64_of_int x = Fin (of_int x)" using assms by (intro b64_of_int_exact) simp
  from assms(1) obtain a b where ab: "mo_fast_alpha m = Fin a" "mo_slow_alpha m = Fin b"
    "0 \<le> a" "a \<le> 1 / 4" "0 \<le> b" "b \<le> 1 / 4" and c: "0 \<le> mo_warmup_count m" "0 < mo_warmup_needed m"
    by (auto simp: ema_inv_def)
  show ?thesis
  proof (cases "mo_warmup_count m = 0")
    case True
    with ab c x show ?thesis by (auto simp: ema_inv_def update_ema_def mid Let_def)
  next
    case False
    with c have pos: "0 < mo_warmup_count m" by simp
    with assms(1) obtain f s where fs: "mo_fast_ema m = Fin f" "mo_slow_ema m = Fin s"
      "of_int lo \<le> f" "f \<le> of_int hi" "of_int lo \<le> s" "s \<le> of_int hi" by (auto simp: ema_inv_def)
    from ema_update_between [OF ab(3,4) fs(3,4) x assms(2,3)] obtain f' where
      f': "ema_update (Fin f) (Fin (of_int x)) (Fin a) = Fin f'" "of_int lo \<le> f'" "f' \<le> of_int hi" by blast
    from ema_update_between [OF ab(5,6) fs(5,6) x assms(2,3)] obtain s' where
      s': "ema_update (Fin s) (Fin (of_int x)) (Fin b) = Fin s'" "of_int lo \<le> s'" "s' \<le> of_int hi" by blast
    show ?thesis using pos ab c fs(1,2) f' s' by (auto simp: ema_inv_def update_ema_def mid Let_def)
  qed
qed

lemma in_i64_within: "0 \<le> lo \<Longrightarrow> lo \<le> n \<Longrightarrow> n \<le> hi \<Longrightarrow> hi \<le> 2 ^ 53 \<Longrightarrow> in_i64 n"
  by (simp add: in_i64_def)

lemma ema_price:
  assumes "of_int lo \<le> f" and "f \<le> of_int hi" and "0 \<le> lo" and "hi \<le> 2 ^ 53"
  shows "lo \<le> b64_to_i64 (Fin f) \<and> b64_to_i64 (Fin f) \<le> hi"
proof -
  have f0: "0 \<le> f" using assms(1,3) by (meson of_int_0_le_iff order_trans)
  have "lo \<le> \<lfloor>f\<rfloor>" "\<lfloor>f\<rfloor> \<le> hi" using assms(1,2) by (simp_all add: le_floor_iff floor_le_iff)
  moreover from this have "in_i64 \<lfloor>f\<rfloor>" using in_i64_within assms(3,4) by blast
  ultimately show ?thesis using f0 by (simp add: rat_trunc_def)
qed

lemma sent_price:
  assumes "price_inv lo hi m" and "lo - 1 \<le> req_price r" and "req_price r \<le> hi + 1"
  shows "price_inv lo hi (fst (send_order r m))"
  using send_order_subset [of m r] send_order_wf [of m r] assms unfolding price_inv_def by blast

lemma price_inv_cong: "st_order_queue n = st_order_queue m \<Longrightarrow> price_inv lo hi n = price_inv lo hi m"
  by (simp add: price_inv_def)

lemma new_prices:
  assumes "ema_inv lo hi m" and "0 < mo_warmup_count m" and "0 \<le> lo" and "hi \<le> 2 ^ 53"
  shows "lo - 1 \<le> req_price (closing_order m) \<and> req_price (closing_order m) \<le> hi + 1"
    and "lo - 1 \<le> req_price (opening_order sig m) \<and> req_price (opening_order sig m) \<le> hi + 1"
proof -
  from assms(1,2) obtain f where f: "mo_fast_ema m = Fin f" "of_int lo \<le> f" "f \<le> of_int hi" by (auto simp: ema_inv_def)
  have p: "lo \<le> b64_to_i64 (mo_fast_ema m)" "b64_to_i64 (mo_fast_ema m) \<le> hi"
    using ema_price [OF f(2,3) assms(3,4)] by (simp_all add: f(1))
  then have "i64 (b64_to_i64 (mo_fast_ema m) + 1) = b64_to_i64 (mo_fast_ema m) + 1"
    "i64 (b64_to_i64 (mo_fast_ema m) - 1) = b64_to_i64 (mo_fast_ema m) - 1"
    using assms(3,4) by (intro i64_id; simp add: in_i64_def)+
  then show "lo - 1 \<le> req_price (closing_order m) \<and> req_price (closing_order m) \<le> hi + 1"
    "lo - 1 \<le> req_price (opening_order sig m) \<and> req_price (opening_order sig m) \<le> hi + 1"
    using p by (simp_all add: closing_order_def opening_order_def)
qed

lemma close_price_inv:
  assumes "price_inv lo hi m" and "ema_inv lo hi m" and "0 < mo_warmup_count m" and "0 \<le> lo" and "hi \<le> 2 ^ 53"
  shows "price_inv lo hi (close_position m)"
proof (cases "mo_inventory m = 0")
  case True
  then show ?thesis using assms(1) price_inv_cong [of "close_position m" m] by (simp add: close_position_queue)
next
  case False
  then show ?thesis
    using sent_price [OF assms(1) new_prices(1) [OF assms(2-5), THEN conjunct1] new_prices(1) [OF assms(2-5), THEN conjunct2]]
      price_inv_cong [of "close_position m" "fst (send_order (closing_order m) m)"]
    by (simp add: close_position_queue)
qed

lemma mo_on_bbo_inv:
  assumes "price_inv lo hi m" and "ema_inv lo hi m" and "0 \<le> lo" and "hi \<le> 2 ^ 53"
    and mid: "bbo_instrument_id e = st_instrument_id m \<Longrightarrow> is_valid_bbo e \<Longrightarrow> lo \<le> bbo_mid_price e \<and> bbo_mid_price e \<le> hi"
  shows "price_inv lo hi (mo_on_bbo e m) \<and> ema_inv lo hi (mo_on_bbo e m)"
proof (cases "bbo_instrument_id e = st_instrument_id m \<and> is_valid_bbo e")
  case False
  then show ?thesis using assms(1,2) by (auto simp: mo_on_bbo_def)
next
  case True
  let ?m1 = "update_ema (b64_of_int (bbo_mid_price e)) m"
  let ?m2 = "check_stop_loss (bbo_mid_price e) ?m1"
  have i1: "ema_inv lo hi ?m1" "0 < mo_warmup_count ?m1"
    using update_ema_inv [OF assms(2-4), of "bbo_mid_price e"] mid True by simp_all
  have p1: "price_inv lo hi ?m1" using assms(1) price_inv_cong [of ?m1 m] by (simp add: mo_frames)
  have i2: "ema_inv lo hi ?m2" "0 < mo_warmup_count ?m2"
    using i1 ema_inv_cong [of ?m2 ?m1] by (simp_all add: mo_frames)
  have p2: "price_inv lo hi ?m2"
    using p1 close_price_inv [OF p1 i1 assms(3,4)] by (simp add: check_stop_loss_def)
  have open_inv: "price_inv lo hi (open_position sig ?m2)" "ema_inv lo hi (open_position sig ?m2)" for sig
    using sent_price [OF p2, of "opening_order sig ?m2"] new_prices(2) [OF i2 assms(3,4), of sig] i2(1)
      price_inv_cong [of "open_position sig ?m2" "fst (send_order (opening_order sig ?m2) ?m2)"]
      ema_inv_cong [of "open_position sig ?m2" ?m2]
    by (simp_all add: open_position_queue mo_frames)
  have close_inv: "price_inv lo hi (close_position ?m2)" "ema_inv lo hi (close_position ?m2)"
    using close_price_inv [OF p2 i2 assms(3,4)] i2(1) ema_inv_cong [of "close_position ?m2" ?m2]
    by (simp_all add: mo_frames)
  show ?thesis using True p2 i2 open_inv close_inv by (simp add: mo_on_bbo_def Let_def)
qed

definition mids_within :: "Price \<Rightarrow> Price \<Rightarrow> InstrumentId \<Rightarrow> strategy_event \<Rightarrow> bool" where
  "mids_within lo hi ident ev \<longleftrightarrow> (case ev of
     Se_bbo e \<Rightarrow> bbo_instrument_id e = ident \<and> is_valid_bbo e \<longrightarrow> lo \<le> bbo_mid_price e \<and> bbo_mid_price e \<le> hi
   | _ \<Rightarrow> True)"

abbreviation mo_step :: "strategy_event \<Rightarrow> momentum \<Rightarrow> momentum" where
  "mo_step \<equiv> strategy_step mo_on_bbo mo_on_fill mo_on_order_ack (\<lambda>m. fst (pop_order m))"

abbreviation mo_run :: "strategy_event list \<Rightarrow> momentum \<Rightarrow> momentum" where
  "mo_run \<equiv> strategy_run mo_on_bbo mo_on_fill mo_on_order_ack (\<lambda>m. fst (pop_order m))"

lemma pop_order_inv:
  assumes "orders_wf m"
  shows "orders_wf (fst (pop_order m))" and "set (orders (fst (pop_order m))) \<subseteq> set (orders m)"
  using ring.pop_wf [OF assms] ring.pop_contents [OF assms]
  by (simp_all add: pop_order_def case_prod_beta) (cases "orders m"; auto)

lemma mo_step_inv:
  assumes "price_inv lo hi m" and "ema_inv lo hi m" and "0 \<le> lo" and "hi \<le> 2 ^ 53"
    and "mids_within lo hi (st_instrument_id m) ev"
  shows "price_inv lo hi (mo_step ev m) \<and> ema_inv lo hi (mo_step ev m)"
proof (cases ev)
  case (Se_bbo e)
  then show ?thesis using mo_on_bbo_inv [OF assms(1-4), of e] assms(5) by (simp add: mids_within_def)
next
  case (Se_fill f)
  then show ?thesis
    using assms(1,2) price_inv_cong [of "mo_on_fill f m" m] ema_inv_cong [of "mo_on_fill f m" m]
    by (simp add: mo_on_fill_def)
next
  case (Se_ack a)
  then show ?thesis using assms(1,2) by (simp add: mo_on_order_ack_def)
next
  case Se_pop
  have "ema_inv lo hi (fst (pop_order m)) = ema_inv lo hi m"
    by (rule ema_inv_cong) (simp_all add: pop_order_def case_prod_beta)
  then show ?thesis using Se_pop assms(1,2) pop_order_inv [of m] unfolding price_inv_def by auto
qed

lemma mo_run_inv:
  assumes "price_inv lo hi m" and "ema_inv lo hi m" and "0 \<le> lo" and "hi \<le> 2 ^ 53"
    and "list_all (mids_within lo hi (st_instrument_id m)) evs"
  shows "price_inv lo hi (mo_run evs m)"
  using assms unfolding strategy_run_def
proof (induction evs arbitrary: m)
  case Nil
  then show ?case by simp
next
  case (Cons ev evs)
  have "mids_within lo hi (st_instrument_id m) ev" using Cons.prems(5) by simp
  note s = mo_step_inv [OF Cons.prems(1-4) this]
  show ?case using Cons.IH [of "mo_step ev m"] s Cons.prems(3-5) by (simp add: mo.instrument_step)
qed

lemma alpha_small:
  assumes "7 \<le> n" and "n < 2 ^ 31"
  shows "\<exists>a. b64_div (Fin 2) (b64_of_int (n + 1)) = Fin a \<and> 0 \<le> a \<and> a \<le> 1 / 4"
proof -
  have e: "b64_of_int (n + 1) = Fin (of_int (n + 1))" using assms by (intro b64_of_int_exact) simp
  have d: "0 \<le> 2 / (of_int (n + 1) :: rat)" "2 / (of_int (n + 1) :: rat) \<le> 1 / 4" using assms by (simp_all add: field_simps)
  have r: "representable 0" "representable (1 / 4)"
    using representable_of_int [of 0] representable_pow [of "- 2"] by (simp_all add: power_int_minus)
  have p: "(1 / 4 :: rat) < 2 ^ 1024" using pow_1024 by simp
  show ?thesis
    using b64_round_bounded [OF r d _ p] assms by (simp add: e)
qed

lemma mo_new_inv:
  assumes "length mem = ORDER_QUEUE_DEPTH" and "7 \<le> fast_period" "fast_period < 2 ^ 31" "7 \<le> slow_period" "slow_period < 2 ^ 31"
  shows "price_inv lo hi (mo_new mem ident fast_period slow_period q band adverse)"
    and "ema_inv lo hi (mo_new mem ident fast_period slow_period q band adverse)"
  using assms alpha_small [OF assms(2,3)] alpha_small [OF assms(4,5)]
  by (auto simp: price_inv_def ema_inv_def mo_new_def spsc_new_wf pow2_order_queue)

text \<open>
  Price bound of the momentum strategy: with periods of at least seven samples, both averages
  stay between the lowest and the highest mid price seen, whatever the rounding, so after any sequence of
  quotes, fills and acknowledgements every queued order is priced within one tick of that range.
\<close>

theorem momentum_prices_in_range:
  assumes "0 \<le> lo" and "hi \<le> 2 ^ 53" and "length mem = ORDER_QUEUE_DEPTH"
    and "7 \<le> fast_period" "fast_period < 2 ^ 31" "7 \<le> slow_period" "slow_period < 2 ^ 31"
    and "list_all (mids_within lo hi ident) evs"
  shows "list_all (\<lambda>r. lo - 1 \<le> req_price r \<and> req_price r \<le> hi + 1)
    (orders (mo_run evs (mo_new mem ident fast_period slow_period q band adverse)))"
proof -
  let ?m = "mo_new mem ident fast_period slow_period q band adverse"
  have "list_all (mids_within lo hi (st_instrument_id ?m)) evs" using assms(8) by (simp add: mo_new_def)
  from mo_run_inv [OF mo_new_inv [OF assms(3-7)] assms(1,2) this] show ?thesis by (simp add: price_inv_def list_all_iff)
qed

lemma momentum_prices_in_range_witness:
  "list_all (\<lambda>r. 979 \<le> req_price r \<and> req_price r \<le> 981)
    (orders (mo_run [Se_bbo (mo_quote 979 981), Se_pop] (mo_new (replicate ORDER_QUEUE_DEPTH req0) 7 8 21 100 1 10)))"
proof -
  have "list_all (mids_within 980 980 7) [Se_bbo (mo_quote 979 981), Se_pop]"
    by (simp add: mids_within_def mo_quote_mid)
  from momentum_prices_in_range [OF _ _ _ _ _ _ _ this, of "replicate ORDER_QUEUE_DEPTH req0" 8 21 100 1 10]
  show ?thesis by simp
qed

end
