(* ===== verification/Stat_Arb.thy ===== *)
theory Stat_Arb
  imports Strategy Binary64
begin

text \<open>
  \<^verbatim>\<open>src/strategy/stat_arb.cpp\<close>: a pair of instruments traded on the z-score of their spread.  The
  running statistics are binary64 values, every operation rounded on its own.
\<close>

datatype arb_state = FLAT | LONG_SPREAD | SHORT_SPREAD

record welford =
  wf_mean :: b64
  wf_m2 :: b64
  wf_count :: nat
  wf_window :: nat

definition welford_update :: "b64 \<Rightarrow> welford \<Rightarrow> welford" where
  "welford_update x w =
     (if wf_count w < wf_window w
      then let n = wf_count w + 1; delta = b64_sub x (wf_mean w);
               mean = b64_add (wf_mean w) (b64_div delta (b64_of_int (int n)));
               delta2 = b64_sub x mean
           in w\<lparr>wf_count := n, wf_mean := mean, wf_m2 := b64_add (wf_m2 w) (b64_mult delta delta2)\<rparr>
      else let alpha = b64_div (Fin 2) (b64_add (b64_of_int (int (wf_window w))) (Fin 1));
               delta = b64_sub x (wf_mean w)
           in w\<lparr>wf_mean := b64_add (wf_mean w) (b64_mult alpha delta),
                wf_m2 := b64_mult (b64_sub (Fin 1) alpha)
                  (b64_add (wf_m2 w) (b64_mult (b64_mult alpha delta) delta))\<rparr>)"

definition welford_variance :: "welford \<Rightarrow> b64" where
  "welford_variance w =
     (if wf_count w < 2 then Fin 1
      else if wf_count w < wf_window w then b64_div (wf_m2 w) (b64_of_int (int (wf_count w - 1)))
      else wf_m2 w)"

definition welford_stddev :: "welford \<Rightarrow> b64" where
  "welford_stddev w = (let v = welford_variance w in if b64_less (Fin 0) v then b64_sqrt v else Fin 1)"

record stat_arb = strategy_base +
  sa_instrument_b :: InstrumentId
  sa_hedge_ratio :: b64
  sa_order_qty :: Qty
  sa_entry_z :: b64
  sa_exit_z :: b64
  sa_stop_z :: b64
  sa_last_mid_a :: Price
  sa_last_mid_b :: Price
  sa_stat :: welford
  sa_current_z :: b64
  sa_state :: arb_state
  sa_inventory_a :: Qty
  sa_inventory_b :: Qty

definition sa_new :: "OrderRequest list \<Rightarrow> InstrumentId \<Rightarrow> InstrumentId \<Rightarrow> b64 \<Rightarrow> Qty \<Rightarrow> b64 \<Rightarrow> b64 \<Rightarrow> b64 \<Rightarrow> nat \<Rightarrow> stat_arb" where
  "sa_new mem ident_a ident_b hedge q entry_z exit_z stop_z lookback =
     \<lparr>st_instrument_id = ident_a, st_order_queue = spsc_new mem, sa_instrument_b = ident_b, sa_hedge_ratio = hedge,
      sa_order_qty = q, sa_entry_z = entry_z, sa_exit_z = exit_z, sa_stop_z = stop_z,
      sa_last_mid_a = 0, sa_last_mid_b = 0,
      sa_stat = \<lparr>wf_mean = Fin 0, wf_m2 = Fin 0, wf_count = 0, wf_window = lookback\<rparr>,
      sa_current_z = Fin 0, sa_state = FLAT, sa_inventory_a = 0, sa_inventory_b = 0\<rparr>"

definition send_pair :: "Side \<Rightarrow> Side \<Rightarrow> stat_arb \<Rightarrow> stat_arb" where
  "send_pair side_a side_b m =
     (let req_a = ioc_order (st_instrument_id m) side_a (sa_last_mid_a m) (sa_order_qty m);
          req_b = ioc_order (sa_instrument_b m) side_b (sa_last_mid_b m) (sa_order_qty m)
      in fst (send_order req_b (fst (send_order req_a m))))"

definition try_open :: "stat_arb \<Rightarrow> stat_arb" where
  "try_open m =
     (if b64_less (sa_entry_z m) (sa_current_z m) then (send_pair SELL BUY m)\<lparr>sa_state := SHORT_SPREAD\<rparr>
      else if b64_less (sa_current_z m) (b64_neg (sa_entry_z m)) then (send_pair BUY SELL m)\<lparr>sa_state := LONG_SPREAD\<rparr>
      else m)"

definition try_close :: "stat_arb \<Rightarrow> stat_arb" where
  "try_close m =
     (let az = (if b64_less (sa_current_z m) (Fin 0) then b64_neg (sa_current_z m) else sa_current_z m);
          revert = b64_less az (sa_exit_z m); stop = b64_less (sa_stop_z m) az in
      if \<not> revert \<and> \<not> stop then m
      else (if sa_state m = LONG_SPREAD then send_pair SELL BUY m else send_pair BUY SELL m)\<lparr>sa_state := FLAT\<rparr>)"

definition sa_trade :: "stat_arb \<Rightarrow> stat_arb" where
  "sa_trade m =
     (let spread = b64_sub (b64_of_int (sa_last_mid_a m)) (b64_mult (sa_hedge_ratio m) (b64_of_int (sa_last_mid_b m)));
          w = welford_update spread (sa_stat m); m1 = m\<lparr>sa_stat := w\<rparr> in
      if wf_count w < wf_window w div 4 then m1
      else let m2 = m1\<lparr>sa_current_z := b64_div (b64_sub spread (wf_mean w)) (welford_stddev w)\<rparr>
           in if sa_state m2 = FLAT then try_open m2 else try_close m2)"

definition sa_on_bbo :: "BBOEvent \<Rightarrow> stat_arb \<Rightarrow> stat_arb" where
  "sa_on_bbo e m =
     (if \<not> is_valid_bbo e then m
      else let mid = bbo_mid_price e in
        if bbo_instrument_id e = st_instrument_id m \<or> bbo_instrument_id e = sa_instrument_b m
        then let m1 = (if bbo_instrument_id e = st_instrument_id m then m\<lparr>sa_last_mid_a := mid\<rparr> else m\<lparr>sa_last_mid_b := mid\<rparr>)
             in if sa_last_mid_a m1 = 0 \<or> sa_last_mid_b m1 = 0 then m1 else sa_trade m1
        else m)"

definition sa_on_fill :: "FillEvent \<Rightarrow> stat_arb \<Rightarrow> stat_arb" where
  "sa_on_fill f m =
     (let delta = i64 (signed_qty (fe_side f) (fe_fill_qty f)) in
      if fe_instrument_id f = st_instrument_id m then m\<lparr>sa_inventory_a := i64 (sa_inventory_a m + delta)\<rparr>
      else if fe_instrument_id f = sa_instrument_b m then m\<lparr>sa_inventory_b := i64 (sa_inventory_b m + delta)\<rparr>
      else m)"

definition sa_on_order_ack :: "OrderAck \<Rightarrow> stat_arb \<Rightarrow> stat_arb" where
  "sa_on_order_ack a m = m"

definition position_state :: "stat_arb \<Rightarrow> int" where
  "position_state m = (case sa_state m of LONG_SPREAD \<Rightarrow> 1 | SHORT_SPREAD \<Rightarrow> - 1 | FLAT \<Rightarrow> 0)"

subsection \<open>Frame facts\<close>

named_theorems sa_frames \<open>what the operations of the pair strategy leave alone\<close>

lemma send_pair_frames [sa_frames]:
  "st_instrument_id (send_pair s t m) = st_instrument_id m" "sa_instrument_b (send_pair s t m) = sa_instrument_b m"
  "sa_inventory_a (send_pair s t m) = sa_inventory_a m" "sa_inventory_b (send_pair s t m) = sa_inventory_b m"
  "sa_order_qty (send_pair s t m) = sa_order_qty m" "sa_state (send_pair s t m) = sa_state m"
  by (simp_all add: send_pair_def send_order_def case_prod_beta Let_def)

lemma sa_trade_frames [sa_frames]:
  "st_instrument_id (sa_trade m) = st_instrument_id m" "sa_instrument_b (sa_trade m) = sa_instrument_b m"
  "sa_inventory_a (sa_trade m) = sa_inventory_a m" "sa_inventory_b (sa_trade m) = sa_inventory_b m"
  "sa_order_qty (sa_trade m) = sa_order_qty m"
  by (simp_all add: sa_trade_def try_open_def try_close_def sa_frames Let_def)

lemma sa_on_bbo_frames [sa_frames]:
  "st_instrument_id (sa_on_bbo e m) = st_instrument_id m" "sa_instrument_b (sa_on_bbo e m) = sa_instrument_b m"
  "sa_inventory_a (sa_on_bbo e m) = sa_inventory_a m" "sa_inventory_b (sa_on_bbo e m) = sa_inventory_b m"
  "sa_order_qty (sa_on_bbo e m) = sa_order_qty m"
  by (simp_all add: sa_on_bbo_def sa_frames Let_def)

lemma sa_on_fill_frames [sa_frames]:
  "st_instrument_id (sa_on_fill f m) = st_instrument_id m" "sa_instrument_b (sa_on_fill f m) = sa_instrument_b m"
  "sa_order_qty (sa_on_fill f m) = sa_order_qty m" "sa_state (sa_on_fill f m) = sa_state m"
  "st_order_queue (sa_on_fill f m) = st_order_queue m"
  by (simp_all add: sa_on_fill_def Let_def)

lemma sa_pop_frames [sa_frames]:
  fixes m :: stat_arb
  shows "st_instrument_id (fst (pop_order m)) = st_instrument_id m" "sa_instrument_b (fst (pop_order m)) = sa_instrument_b m"
    "sa_inventory_a (fst (pop_order m)) = sa_inventory_a m" "sa_inventory_b (fst (pop_order m)) = sa_inventory_b m"
    "sa_order_qty (fst (pop_order m)) = sa_order_qty m" "sa_state (fst (pop_order m)) = sa_state m"
  by (simp_all add: pop_order_def case_prod_beta)

definition sa_sound :: "stat_arb \<Rightarrow> bool" where
  "sa_sound m \<longleftrightarrow> in_i64 (sa_inventory_a m) \<and> in_i64 (sa_inventory_b m) \<and> st_instrument_id m \<noteq> sa_instrument_b m"

abbreviation sa_step :: "strategy_event \<Rightarrow> stat_arb \<Rightarrow> stat_arb" where
  "sa_step \<equiv> strategy_step sa_on_bbo sa_on_fill sa_on_order_ack (\<lambda>m. fst (pop_order m))"

lemma sa_step_frames [sa_frames]:
  "st_instrument_id (sa_step ev m) = st_instrument_id m" "sa_instrument_b (sa_step ev m) = sa_instrument_b m"
  "sa_order_qty (sa_step ev m) = sa_order_qty m"
  by (cases ev; simp add: sa_frames sa_on_order_ack_def)+

lemma sa_sound_step: "sa_sound m \<Longrightarrow> sa_sound (sa_step ev m)"
  by (cases ev) (simp_all add: sa_sound_def sa_frames sa_on_order_ack_def sa_on_fill_def Let_def)

text \<open>Each leg keeps its own inventory.\<close>

interpretation leg_a: inventory_keeper sa_on_bbo sa_on_fill sa_on_order_ack "\<lambda>m. fst (pop_order m)" sa_inventory_a
  st_instrument_id sa_sound
  by unfold_locales
    (simp_all add: sa_sound_step sa_frames sa_on_order_ack_def, auto simp: sa_on_fill_def sa_sound_def i64_simps i64_id Let_def)

interpretation leg_b: inventory_keeper sa_on_bbo sa_on_fill sa_on_order_ack "\<lambda>m. fst (pop_order m)" sa_inventory_b
  sa_instrument_b sa_sound
  by unfold_locales
    (simp_all add: sa_sound_step sa_frames sa_on_order_ack_def, auto simp: sa_on_fill_def sa_sound_def i64_simps i64_id Let_def)

subsection \<open>The pair stays hedged\<close>

definition leg_sum :: "InstrumentId \<Rightarrow> OrderRequest list \<Rightarrow> int" where
  "leg_sum ident os = (\<Sum>r\<leftarrow>os. if req_instrument_id r = ident then signed_qty (req_side r) (req_qty r) else 0)"

lemma leg_sum_simps [simp]: "leg_sum i [] = 0" "leg_sum i (xs @ ys) = leg_sum i xs + leg_sum i ys"
  "leg_sum i (r # xs) = (if req_instrument_id r = i then signed_qty (req_side r) (req_qty r) else 0) + leg_sum i xs"
  by (simp_all add: leg_sum_def)

lemma send_pair_queue:
  assumes "orders_wf m" and "2 \<le> order_room m"
  shows "orders_wf (send_pair s t m) \<and> orders (send_pair s t m) = orders m @
    [ioc_order (st_instrument_id m) s (sa_last_mid_a m) (sa_order_qty m),
     ioc_order (sa_instrument_b m) t (sa_last_mid_b m) (sa_order_qty m)]"
proof -
  let ?ra = "ioc_order (st_instrument_id m) s (sa_last_mid_a m) (sa_order_qty m)"
  have 1: "orders_wf (fst (send_order ?ra m))" "orders (fst (send_order ?ra m)) = orders m @ [?ra]"
    using send_order_queue [of m ?ra] assms by simp_all
  then have "0 < order_room (fst (send_order ?ra m))" using assms(2) by (simp add: order_room_def del: length_spsc_contents)
  from send_order_queue [OF 1(1) this] 1(2) show ?thesis by (simp add: send_pair_def Let_def)
qed

text \<open>One quote either sends nothing and keeps the state, or sends both legs and moves the state by the
  direction of leg A.\<close>

definition hedged_step :: "stat_arb \<Rightarrow> stat_arb \<Rightarrow> bool" where
  "hedged_step m m' \<longleftrightarrow> orders_wf m' \<and>
     ((orders m' = orders m \<and> sa_state m' = sa_state m) \<or>
      (\<exists>s t px py. orders m' = orders m @ [ioc_order (st_instrument_id m) s px (sa_order_qty m), ioc_order (sa_instrument_b m) t py (sa_order_qty m)]
         \<and> signed_qty s 1 = position_state m' - position_state m \<and> signed_qty t 1 = position_state m - position_state m'))"

lemma hedged_step_refl: "orders_wf m' \<Longrightarrow> st_order_queue m' = st_order_queue m \<Longrightarrow> sa_state m' = sa_state m \<Longrightarrow> hedged_step m m'"
  by (simp add: hedged_step_def)

lemma hedged_step_trans:
  "st_order_queue n = st_order_queue m \<Longrightarrow> sa_state n = sa_state m \<Longrightarrow> st_instrument_id n = st_instrument_id m \<Longrightarrow>
   sa_instrument_b n = sa_instrument_b m \<Longrightarrow> sa_order_qty n = sa_order_qty m \<Longrightarrow> hedged_step n m' \<Longrightarrow> hedged_step m m'"
  by (simp add: hedged_step_def position_state_def)

lemma hedged_send_pair:
  assumes "orders_wf m" and "2 \<le> order_room m"
    and "signed_qty s 1 = position_state ((send_pair s t m)\<lparr>sa_state := st\<rparr>) - position_state m"
    and "signed_qty t 1 = - signed_qty s 1"
  shows "hedged_step m ((send_pair s t m)\<lparr>sa_state := st\<rparr>)"
  using send_pair_queue [OF assms(1,2), of s t] assms(3,4) unfolding hedged_step_def
  by (intro conjI disjI2 exI [of _ s] exI [of _ t]) auto

lemma hedged_open:
  assumes "orders_wf m" and "2 \<le> order_room m" and "sa_state m = FLAT"
  shows "hedged_step m (try_open m)"
  using hedged_send_pair [OF assms(1,2), of SELL SHORT_SPREAD BUY] hedged_send_pair [OF assms(1,2), of BUY LONG_SPREAD SELL]
    hedged_step_refl [of m m] assms(1,3)
  by (simp add: try_open_def position_state_def)

lemma hedged_close:
  assumes "orders_wf m" and "2 \<le> order_room m" and "sa_state m \<noteq> FLAT"
  shows "hedged_step m (try_close m)"
  using hedged_send_pair [OF assms(1,2), of SELL FLAT BUY] hedged_send_pair [OF assms(1,2), of BUY FLAT SELL]
    hedged_step_refl [of m m] assms(1,3)
  by (cases "sa_state m") (simp_all add: try_close_def position_state_def Let_def)

lemma hedged_trade:
  assumes "orders_wf m" and "2 \<le> order_room m"
  shows "hedged_step m (sa_trade m)"
proof -
  define spread where "spread = b64_sub (b64_of_int (sa_last_mid_a m)) (b64_mult (sa_hedge_ratio m) (b64_of_int (sa_last_mid_b m)))"
  define w where "w = welford_update spread (sa_stat m)"
  define m2 where "m2 = m\<lparr>sa_stat := w, sa_current_z := b64_div (b64_sub spread (wf_mean w)) (welford_stddev w)\<rparr>"
  have eq: "sa_trade m = (if wf_count w < wf_window w div 4 then m\<lparr>sa_stat := w\<rparr>
      else if sa_state m2 = FLAT then try_open m2 else try_close m2)"
    by (simp add: sa_trade_def Let_def w_def spread_def m2_def)
  have r: "orders_wf m2" "2 \<le> order_room m2" using assms by (simp_all add: m2_def order_room_def)
  have t: "hedged_step m2 x \<Longrightarrow> hedged_step m x" for x by (rule hedged_step_trans) (simp_all add: m2_def)
  have "hedged_step m (m\<lparr>sa_stat := w\<rparr>)" using assms(1) by (intro hedged_step_refl) simp_all
  with r show ?thesis unfolding eq by (auto intro!: t hedged_open hedged_close)
qed

lemma hedged_bbo:
  assumes "orders_wf m" and "2 \<le> order_room m"
  shows "hedged_step m (sa_on_bbo e m)"
proof -
  have refl: "hedged_step m (m\<lparr>sa_last_mid_a := x\<rparr>)" "hedged_step m (m\<lparr>sa_last_mid_b := x\<rparr>)" "hedged_step m m" for x
    using assms(1) by (simp_all add: hedged_step_def)
  have tr: "hedged_step m (sa_trade (m\<lparr>sa_last_mid_a := x\<rparr>))" "hedged_step m (sa_trade (m\<lparr>sa_last_mid_b := x\<rparr>))" for x
  proof -
    have "hedged_step (m\<lparr>sa_last_mid_a := x\<rparr>) (sa_trade (m\<lparr>sa_last_mid_a := x\<rparr>))"
      "hedged_step (m\<lparr>sa_last_mid_b := x\<rparr>) (sa_trade (m\<lparr>sa_last_mid_b := x\<rparr>))"
      using assms by (intro hedged_trade; simp add: order_room_def)+
    then show "hedged_step m (sa_trade (m\<lparr>sa_last_mid_a := x\<rparr>))" "hedged_step m (sa_trade (m\<lparr>sa_last_mid_b := x\<rparr>))"
      by (auto intro: hedged_step_trans [rotated 5])
  qed
  show ?thesis using refl tr by (simp add: sa_on_bbo_def Let_def)
qed

text \<open>A run of the strategy with the orders its consumer takes out of the queue.\<close>

fun sa_trace :: "strategy_event list \<Rightarrow> stat_arb \<Rightarrow> OrderRequest list \<Rightarrow> stat_arb \<times> OrderRequest list" where
  "sa_trace [] m out = (m, out)"
| "sa_trace (Se_pop # evs) m out = (let (m', r) = pop_order m in sa_trace evs m' (case r of None \<Rightarrow> out | Some q \<Rightarrow> out @ [q]))"
| "sa_trace (ev # evs) m out = sa_trace evs (sa_step ev m) out"

text \<open>The consumer keeps up: every quote finds two free slots.\<close>

fun sa_roomy :: "strategy_event list \<Rightarrow> stat_arb \<Rightarrow> bool" where
  "sa_roomy [] m = True"
| "sa_roomy (ev # evs) m = ((case ev of Se_bbo e \<Rightarrow> 2 \<le> order_room m | _ \<Rightarrow> True) \<and> sa_roomy evs (sa_step ev m))"

definition hedged :: "stat_arb \<Rightarrow> OrderRequest list \<Rightarrow> bool" where
  "hedged m out \<longleftrightarrow> leg_sum (st_instrument_id m) (out @ orders m) = sa_order_qty m * position_state m
     \<and> leg_sum (sa_instrument_b m) (out @ orders m) = - (sa_order_qty m * position_state m)"

lemma signed_qty_scale: "signed_qty s q = q * signed_qty s 1"
  by (cases s) simp_all

lemma hedged_step_hedged:
  assumes "hedged m out" and "hedged_step m m'" and "st_instrument_id m \<noteq> sa_instrument_b m"
    and "st_instrument_id m' = st_instrument_id m" "sa_instrument_b m' = sa_instrument_b m" "sa_order_qty m' = sa_order_qty m"
  shows "hedged m' out"
proof -
  consider "orders m' = orders m" "sa_state m' = sa_state m"
    | s t px py where "orders m' = orders m @ [ioc_order (st_instrument_id m) s px (sa_order_qty m), ioc_order (sa_instrument_b m) t py (sa_order_qty m)]"
      "signed_qty s 1 = position_state m' - position_state m" "signed_qty t 1 = position_state m - position_state m'"
    using assms(2) unfolding hedged_step_def by blast
  then show ?thesis
  proof cases
    case 1
    then show ?thesis using assms by (simp add: hedged_def position_state_def)
  next
    case 2
    show ?thesis
      using assms(1,3) unfolding hedged_def assms(4-6) 2(1)
      by (simp add: signed_qty_scale [of _ "sa_order_qty m"] 2(2,3) right_diff_distrib)
  qed
qed

lemma pop_order_hedged:
  assumes "orders_wf m" and "hedged m out" and "pop_order m = (m', r)"
  shows "hedged m' (case r of None \<Rightarrow> out | Some q \<Rightarrow> out @ [q])"
proof -
  have f: "st_instrument_id m' = st_instrument_id m" "sa_instrument_b m' = sa_instrument_b m"
    "sa_order_qty m' = sa_order_qty m" "sa_state m' = sa_state m"
    using assms(3) sa_pop_frames [of m] by simp_all
  have p: "orders m' = tl (orders m)" "r = (case orders m of [] \<Rightarrow> None | x # xs \<Rightarrow> Some x)"
    using ring.pop_contents [OF assms(1)] ring.pop_value [OF assms(1)] assms(3)
    by (auto simp: pop_order_def case_prod_beta)
  have "(case r of None \<Rightarrow> out | Some q \<Rightarrow> out @ [q]) @ orders m' = out @ orders m"
    unfolding p by (cases "orders m") simp_all
  then show ?thesis using assms(2) by (simp only: hedged_def f position_state_def)
qed

lemma sa_trace_hedged:
  assumes "orders_wf m" and "hedged m out" and "st_instrument_id m \<noteq> sa_instrument_b m" and "sa_roomy evs m"
    and "sa_trace evs m out = (m', out')"
  shows "hedged m' out' \<and> st_instrument_id m' = st_instrument_id m \<and> sa_instrument_b m' = sa_instrument_b m
    \<and> sa_order_qty m' = sa_order_qty m"
  using assms
proof (induction evs arbitrary: m out)
  case Nil
  then show ?case by simp
next
  case (Cons ev evs)
  show ?case
  proof (cases ev)
    case (Se_bbo e)
    have h: "hedged_step m (sa_on_bbo e m)" using Cons.prems Se_bbo by (intro hedged_bbo) simp_all
    have "hedged (sa_on_bbo e m) out"
      by (rule hedged_step_hedged [OF Cons.prems(2) h Cons.prems(3)]) (simp_all add: sa_frames)
    then show ?thesis
      using Cons.IH [of "sa_on_bbo e m" out] Cons.prems Se_bbo h by (simp add: sa_frames hedged_step_def)
  next
    case (Se_fill f)
    have "hedged (sa_on_fill f m) out"
      using Cons.prems(2) by (simp add: hedged_def sa_frames position_state_def)
    then show ?thesis using Cons.IH [of "sa_on_fill f m" out] Cons.prems Se_fill by (simp add: sa_frames)
  next
    case (Se_ack a)
    then show ?thesis using Cons.IH [of m out] Cons.prems by (simp add: sa_on_order_ack_def)
  next
    case Se_pop
    obtain m1 r where p: "pop_order m = (m1, r)" by force
    have f: "st_instrument_id m1 = st_instrument_id m" "sa_instrument_b m1 = sa_instrument_b m" "sa_order_qty m1 = sa_order_qty m"
      using sa_pop_frames [of m] p by simp_all
    have "orders_wf m1" using ring.pop_wf [OF Cons.prems(1)] p by (auto simp: pop_order_def case_prod_beta)
    with Cons.IH [OF this pop_order_hedged [OF Cons.prems(1,2) p]] Cons.prems p f Se_pop show ?thesis by simp
  qed
qed

text \<open>
  Claim C38. The pair is hedged: as long as the legs are different instruments and each quote finds two
  free slots in the order queue, after any sequence of quotes, fills and pops the orders sent on leg A add up
  to the order size times the direction of the strategy's state, and those on leg B to exactly the opposite.
\<close>

theorem pair_orders_hedged:
  assumes "length mem = ORDER_QUEUE_DEPTH" and "ident_a \<noteq> ident_b"
    and "sa_roomy evs (sa_new mem ident_a ident_b hedge q ez xz sz n)"
    and "sa_trace evs (sa_new mem ident_a ident_b hedge q ez xz sz n) [] = (m, out)"
  shows "leg_sum ident_a (out @ orders m) = q * position_state m \<and> leg_sum ident_b (out @ orders m) = - (q * position_state m)"
proof -
  let ?m = "sa_new mem ident_a ident_b hedge q ez xz sz n"
  have "orders_wf ?m" using assms(1) by (simp add: sa_new_def spsc_new_wf pow2_order_queue)
  moreover have "hedged ?m []" by (simp add: hedged_def sa_new_def position_state_def)
  moreover have "st_instrument_id ?m \<noteq> sa_instrument_b ?m" using assms(2) by (simp add: sa_new_def)
  ultimately have "hedged m out \<and> st_instrument_id m = ident_a \<and> sa_instrument_b m = ident_b \<and> sa_order_qty m = q"
    using sa_trace_hedged [OF _ _ _ assms(3,4)] by (simp add: sa_new_def)
  then show ?thesis by (auto simp: hedged_def)
qed

definition pair_quote :: "InstrumentId \<Rightarrow> Price \<Rightarrow> Price \<Rightarrow> BBOEvent" where
  "pair_quote ident b a = bbo0\<lparr>bbo_instrument_id := ident, bid_px := b, ask_px := a\<rparr>"

lemma pair_quote_simps [simp]:
  "bbo_instrument_id (pair_quote i b a) = i" "bid_px (pair_quote i b a) = b" "ask_px (pair_quote i b a) = a"
  by (simp_all add: pair_quote_def)

definition sample_sa :: stat_arb where
  "sample_sa = sa_new (replicate ORDER_QUEUE_DEPTH req0) 1 2 (Fin 1) 10 (Fin 2) (Fin (1 / 2)) (Fin 4) 0"

definition sample_pair_events :: "strategy_event list" where
  "sample_pair_events = [Se_bbo (pair_quote 1 999 1001), Se_bbo (pair_quote 2 989 991), Se_pop]"

lemma pair_mids: "is_valid_bbo (pair_quote 1 999 1001)" "is_valid_bbo (pair_quote 2 989 991)"
  "bbo_mid_price (pair_quote 1 999 1001) = 1000" "bbo_mid_price (pair_quote 2 989 991) = 990"
  by (simp_all add: is_valid_bbo_def bbo_mid_price_def i64_def cdiv_def)

lemma sample_pair_first: "sa_on_bbo (pair_quote 1 999 1001) sample_sa = sample_sa\<lparr>sa_last_mid_a := 1000\<rparr>"
  by (simp add: sa_on_bbo_def pair_mids Let_def) (simp add: sample_sa_def sa_new_def)

lemma sample_pair_roomy: "sa_roomy sample_pair_events sample_sa"
proof -
  have "order_room sample_sa = ORDER_QUEUE_DEPTH" "order_room (sample_sa\<lparr>sa_last_mid_a := 1000\<rparr>) = ORDER_QUEUE_DEPTH"
    by (simp_all add: order_room_def sample_sa_def sa_new_def)
  moreover have "2 \<le> ORDER_QUEUE_DEPTH" by (simp add: ORDER_QUEUE_DEPTH_def)
  ultimately show ?thesis by (simp add: sample_pair_events_def sample_pair_first)
qed

lemma sample_pair_opens:
  "position_state (sa_on_bbo (pair_quote 2 989 991) (sample_sa\<lparr>sa_last_mid_a := 1000\<rparr>)) = 1"
proof -
  let ?m = "sample_sa\<lparr>sa_last_mid_a := 1000, sa_last_mid_b := 990\<rparr>"
  have "b64_sub (b64_of_int (sa_last_mid_a ?m)) (b64_mult (sa_hedge_ratio ?m) (b64_of_int (sa_last_mid_b ?m))) = Fin 10"
    "sa_entry_z ?m = Fin 2" "sa_state ?m = FLAT"
    by (simp_all add: sample_sa_def sa_new_def b64_of_int_def b64_sub_def)
  moreover have "welford_update (Fin 10) (sa_stat ?m) = \<lparr>wf_mean = Fin 20, wf_m2 = Fin (- 200), wf_count = 0, wf_window = 0\<rparr>"
    by (simp add: sample_sa_def sa_new_def welford_update_def b64_of_int_def b64_sub_def)
  moreover have "b64_div (b64_sub (Fin 10) (Fin 20)) (welford_stddev \<lparr>wf_mean = Fin 20, wf_m2 = Fin (- 200), wf_count = 0, wf_window = 0\<rparr>) = Fin (- 10)"
    by (simp add: welford_stddev_def welford_variance_def b64_sub_def)
  ultimately have "sa_state (sa_trade ?m) = LONG_SPREAD" by (simp add: sa_trade_def try_open_def Let_def)
  moreover have "sa_on_bbo (pair_quote 2 989 991) (sample_sa\<lparr>sa_last_mid_a := 1000\<rparr>) = sa_trade ?m"
    by (simp add: sa_on_bbo_def pair_mids Let_def) (simp add: sample_sa_def sa_new_def)
  ultimately show ?thesis by (simp add: position_state_def)
qed

lemma pair_orders_hedged_witness:
  "(case sa_trace sample_pair_events sample_sa [] of (m, out) \<Rightarrow>
      position_state m = 1 \<and> leg_sum 1 (out @ orders m) = 10 \<and> leg_sum 2 (out @ orders m) = - 10)"
proof -
  obtain m out where t: "sa_trace sample_pair_events sample_sa [] = (m, out)" by force
  let ?m1 = "sa_on_bbo (pair_quote 2 989 991) (sample_sa\<lparr>sa_last_mid_a := 1000\<rparr>)"
  have "m = fst (pop_order ?m1)"
    using t by (simp add: sample_pair_events_def sample_pair_first case_prod_beta Let_def)
  then have "position_state m = 1" using sample_pair_opens by (simp add: position_state_def sa_frames)
  moreover have "leg_sum 1 (out @ orders m) = 10 * position_state m \<and> leg_sum 2 (out @ orders m) = - (10 * position_state m)"
    using pair_orders_hedged [OF _ _ sample_pair_roomy [unfolded sample_sa_def] t [unfolded sample_sa_def]] by simp
  ultimately show ?thesis by (simp add: t)
qed

subsection \<open>A full queue breaks the pair\<close>

text \<open>
  Nothing checks that both legs were queued: with a single free slot, an opening quote queues leg
  A alone and the strategy still believes it holds the pair.
\<close>

theorem pair_breaks_on_full_queue:
  assumes "orders_wf m" and "order_room m = 1" and "b64_less (sa_entry_z m) (sa_current_z m)"
  shows "orders (try_open m) = orders m @ [ioc_order (st_instrument_id m) SELL (sa_last_mid_a m) (sa_order_qty m)]
    \<and> position_state (try_open m) = - 1"
proof -
  let ?ra = "ioc_order (st_instrument_id m) SELL (sa_last_mid_a m) (sa_order_qty m)"
  let ?rb = "ioc_order (sa_instrument_b m) BUY (sa_last_mid_b m) (sa_order_qty m)"
  let ?s = "fst (send_order ?ra m)"
  have a: "orders_wf ?s" "orders ?s = orders m @ [?ra]" using send_order_queue [OF assms(1), of ?ra] assms(2) by simp_all
  have "length (orders ?s) = ORDER_QUEUE_DEPTH" using assms(2) unfolding a(2) order_room_def by (simp del: length_spsc_contents)
  then have "orders (fst (send_order ?rb ?s)) = orders ?s"
    using ring.push_contents [OF a(1), of ?rb] by (simp add: send_order_def case_prod_beta del: length_spsc_contents)
  then show ?thesis using assms(3) a(2) by (simp add: try_open_def send_pair_def position_state_def Let_def)
qed

definition full_but_one :: "OrderRequest spsc" where
  "full_but_one = \<lparr>sq_tail = 1023, sq_head = 0, sq_buffer = replicate ORDER_QUEUE_DEPTH req0\<rparr>"

lemma pair_breaks_on_full_queue_witness:
  "position_state (try_open (sample_sa\<lparr>sa_current_z := Fin 3, st_order_queue := full_but_one\<rparr>)) = - 1
   \<and> last (orders (try_open (sample_sa\<lparr>sa_current_z := Fin 3, st_order_queue := full_but_one\<rparr>))) = ioc_order 1 SELL 0 10"
proof -
  let ?m = "sample_sa\<lparr>sa_current_z := Fin 3, st_order_queue := full_but_one\<rparr>"
  have "orders_wf ?m" using pow2_order_queue by (simp add: full_but_one_def spsc_wf_def ORDER_QUEUE_DEPTH_def)
  moreover have "order_room ?m = 1" by (simp add: order_room_def full_but_one_def ORDER_QUEUE_DEPTH_def)
  moreover have "b64_less (sa_entry_z ?m) (sa_current_z ?m)" by (simp add: sample_sa_def sa_new_def)
  ultimately show ?thesis using pair_breaks_on_full_queue [of ?m] by (simp add: sample_sa_def sa_new_def)
qed

end
