(* ===== verification/Mpsc_Queue.thy ===== *)
theory Mpsc_Queue
  imports Spsc_Queue
begin

text \<open>
  \<^verbatim>\<open>src/infra/mpsc_queue.hpp\<close>: the bounded queue of many producers and one consumer, with a sequence
  number per slot.  Every atomic access of \<open>push\<close> and \<open>pop\<close> is a step of its thread, interleaved with the
  steps of the others; the accesses to a slot's data are steps of their own.
\<close>

record 'a mpsc =
  mq_tail :: u64
  mq_head :: u64
  mq_seq :: "u64 list"
  mq_data :: "'a list"

definition mpsc_new :: "nat \<Rightarrow> 'a list \<Rightarrow> 'a mpsc" where
  "mpsc_new N mem = \<lparr>mq_tail = 0, mq_head = 0, mq_seq = map of_nat [0..<N], mq_data = mem\<rparr>"

definition mpsc_size :: "'a mpsc \<Rightarrow> u64" where "mpsc_size q = mq_tail q - mq_head q"
definition mpsc_empty :: "'a mpsc \<Rightarrow> bool" where "mpsc_empty q \<longleftrightarrow> mq_tail q = mq_head q"

text \<open>The signed distance of the code, and the slot of a position.\<close>

definition mq_diff :: "u64 \<Rightarrow> u64 \<Rightarrow> int" where
  "mq_diff sq pos = i64 (sint sq - sint pos)"

definition mq_slot :: "nat \<Rightarrow> u64 \<Rightarrow> nat" where
  "mq_slot N pos = unat (pos AND (of_nat N - 1))"

text \<open>Where a producer is in \<open>push(v)\<close>, and the consumer in \<open>pop\<close>.\<close>

datatype 'a mpsc_pc = M_Idle | M_At 'a u64 | M_Claim 'a u64 | M_Own 'a u64 | M_Wrote 'a u64
datatype 'a mpsc_cpc = R_Idle | R_Ready | R_Got 'a | R_Stored 'a

text \<open>Two ghost lists: the values in the order their positions were claimed, and the values popped.\<close>

record 'a mpsc_sys =
  ms_q :: "'a mpsc"
  ms_prod :: "nat \<Rightarrow> 'a mpsc_pc"
  ms_cons :: "'a mpsc_cpc"
  ms_claims :: "'a list"
  ms_rcvd :: "'a list"

definition mpsc_sys_init :: "nat \<Rightarrow> 'a list \<Rightarrow> 'a mpsc_sys" where
  "mpsc_sys_init N mem = \<lparr>ms_q = mpsc_new N mem, ms_prod = (\<lambda>_. M_Idle), ms_cons = R_Idle, ms_claims = [], ms_rcvd = []\<rparr>"

abbreviation slot_diff :: "nat \<Rightarrow> 'a mpsc_sys \<Rightarrow> u64 \<Rightarrow> u64 \<Rightarrow> int" where
  "slot_diff N s pos target \<equiv> mq_diff (mq_seq (ms_q s) ! mq_slot N pos) target"

inductive mpsc_step :: "nat \<Rightarrow> 'a mpsc_sys \<Rightarrow> 'a mpsc_sys \<Rightarrow> bool" for N :: nat where
  push_start: "ms_prod s i = M_Idle \<Longrightarrow>
     mpsc_step N s (s\<lparr>ms_prod := (ms_prod s)(i := M_At v (mq_tail (ms_q s)))\<rparr>)"
| push_free: "ms_prod s i = M_At v pos \<Longrightarrow> slot_diff N s pos pos = 0 \<Longrightarrow>
     mpsc_step N s (s\<lparr>ms_prod := (ms_prod s)(i := M_Claim v pos)\<rparr>)"
| push_full: "ms_prod s i = M_At v pos \<Longrightarrow> slot_diff N s pos pos < 0 \<Longrightarrow>
     mpsc_step N s (s\<lparr>ms_prod := (ms_prod s)(i := M_Idle)\<rparr>)"
| push_late: "ms_prod s i = M_At v pos \<Longrightarrow> slot_diff N s pos pos > 0 \<Longrightarrow>
     mpsc_step N s (s\<lparr>ms_prod := (ms_prod s)(i := M_At v (mq_tail (ms_q s)))\<rparr>)"
| push_cas: "ms_prod s i = M_Claim v pos \<Longrightarrow> mq_tail (ms_q s) = pos \<Longrightarrow>
     mpsc_step N s (s\<lparr>ms_q := (ms_q s)\<lparr>mq_tail := pos + 1\<rparr>, ms_prod := (ms_prod s)(i := M_Own v pos),
       ms_claims := ms_claims s @ [v]\<rparr>)"
| push_cas_fail: "ms_prod s i = M_Claim v pos \<Longrightarrow>
     mpsc_step N s (s\<lparr>ms_prod := (ms_prod s)(i := M_At v (mq_tail (ms_q s)))\<rparr>)"
| push_write: "ms_prod s i = M_Own v pos \<Longrightarrow>
     mpsc_step N s (s\<lparr>ms_q := (ms_q s)\<lparr>mq_data := (mq_data (ms_q s))[mq_slot N pos := v]\<rparr>,
       ms_prod := (ms_prod s)(i := M_Wrote v pos)\<rparr>)"
| push_publish: "ms_prod s i = M_Wrote v pos \<Longrightarrow>
     mpsc_step N s (s\<lparr>ms_q := (ms_q s)\<lparr>mq_seq := (mq_seq (ms_q s))[mq_slot N pos := pos + 1]\<rparr>,
       ms_prod := (ms_prod s)(i := M_Idle)\<rparr>)"
| pop_empty: "ms_cons s = R_Idle \<Longrightarrow> slot_diff N s (mq_head (ms_q s)) (mq_head (ms_q s) + 1) < 0 \<Longrightarrow> mpsc_step N s s"
| pop_ready: "ms_cons s = R_Idle \<Longrightarrow> \<not> slot_diff N s (mq_head (ms_q s)) (mq_head (ms_q s) + 1) < 0 \<Longrightarrow>
     mpsc_step N s (s\<lparr>ms_cons := R_Ready\<rparr>)"
| pop_read: "ms_cons s = R_Ready \<Longrightarrow>
     mpsc_step N s (s\<lparr>ms_cons := R_Got (mq_data (ms_q s) ! mq_slot N (mq_head (ms_q s)))\<rparr>)"
| pop_release: "ms_cons s = R_Got v \<Longrightarrow>
     mpsc_step N s (s\<lparr>ms_q := (ms_q s)\<lparr>mq_seq := (mq_seq (ms_q s))[mq_slot N (mq_head (ms_q s)) := mq_head (ms_q s) + of_nat N]\<rparr>,
       ms_cons := R_Stored v, ms_rcvd := ms_rcvd s @ [v]\<rparr>)"
| pop_advance: "ms_cons s = R_Stored v \<Longrightarrow>
     mpsc_step N s (s\<lparr>ms_q := (ms_q s)\<lparr>mq_head := mq_head (ms_q s) + 1\<rparr>, ms_cons := R_Idle\<rparr>)"

inductive mpsc_reachable :: "nat \<Rightarrow> 'a list \<Rightarrow> 'a mpsc_sys \<Rightarrow> bool" for N :: nat and mem :: "'a list" where
  mpsc_start: "mpsc_reachable N mem (mpsc_sys_init N mem)"
| mpsc_more: "mpsc_reachable N mem s \<Longrightarrow> mpsc_step N s t \<Longrightarrow> mpsc_reachable N mem t"

subsection \<open>The invariant\<close>

text \<open>The position a producer owns: claimed and not yet published.\<close>

fun owns :: "'a mpsc_pc \<Rightarrow> nat option" where
  "owns (M_Own v pos) = Some (unat pos)"
| "owns (M_Wrote v pos) = Some (unat pos)"
| "owns _ = None"

definition seq_at :: "nat \<Rightarrow> 'a mpsc \<Rightarrow> nat \<Rightarrow> nat" where
  "seq_at N q p = unat (mq_seq q ! (p mod N))"

definition data_at :: "nat \<Rightarrow> 'a mpsc \<Rightarrow> nat \<Rightarrow> 'a" where
  "data_at N q p = mq_data q ! (p mod N)"

fun pc_ok :: "nat \<Rightarrow> nat \<Rightarrow> 'a list \<Rightarrow> 'a mpsc \<Rightarrow> 'a mpsc_pc \<Rightarrow> bool" where
  "pc_ok N E cs q M_Idle \<longleftrightarrow> True"
| "pc_ok N E cs q (M_At v pos) \<longleftrightarrow> unat pos \<le> length cs"
| "pc_ok N E cs q (M_Claim v pos) \<longleftrightarrow> unat pos \<le> length cs \<and> unat pos < E + N"
| "pc_ok N E cs q (M_Own v pos) \<longleftrightarrow> E \<le> unat pos \<and> unat pos < length cs \<and> seq_at N q (unat pos) = unat pos \<and> cs ! unat pos = v"
| "pc_ok N E cs q (M_Wrote v pos) \<longleftrightarrow> E \<le> unat pos \<and> unat pos < length cs \<and> seq_at N q (unat pos) = unat pos \<and> cs ! unat pos = v
     \<and> data_at N q (unat pos) = v"

definition unowned :: "(nat \<Rightarrow> 'a mpsc_pc) \<Rightarrow> nat \<Rightarrow> bool" where
  "unowned prods p \<longleftrightarrow> (\<forall>i. owns (prods i) \<noteq> Some p)"

definition queue_ok :: "nat \<Rightarrow> nat \<Rightarrow> 'a list \<Rightarrow> 'a mpsc \<Rightarrow> (nat \<Rightarrow> 'a mpsc_pc) \<Rightarrow> bool" where
  "queue_ok N E cs q prods \<longleftrightarrow>
     length (mq_seq q) = N \<and> length (mq_data q) = N \<and> unat (mq_tail q) = length cs \<and> E \<le> length cs \<and> length cs \<le> E + N
     \<and> (\<forall>p. length cs \<le> p \<longrightarrow> p < E + N \<longrightarrow> seq_at N q p = p)
     \<and> (\<forall>i. pc_ok N E cs q (prods i))
     \<and> (\<forall>i j p. owns (prods i) = Some p \<longrightarrow> owns (prods j) = Some p \<longrightarrow> i = j)
     \<and> (\<forall>p. E \<le> p \<longrightarrow> p < length cs \<longrightarrow> unowned prods p \<longrightarrow> seq_at N q p = p + 1 \<and> data_at N q p = cs ! p)"

fun mcons_ok :: "nat \<Rightarrow> 'a list \<Rightarrow> (nat \<Rightarrow> 'a mpsc_pc) \<Rightarrow> nat \<Rightarrow> 'a mpsc_cpc \<Rightarrow> bool" where
  "mcons_ok E cs prods h R_Idle \<longleftrightarrow> h = E"
| "mcons_ok E cs prods h R_Ready \<longleftrightarrow> h = E \<and> E < length cs \<and> unowned prods E"
| "mcons_ok E cs prods h (R_Got v) \<longleftrightarrow> h = E \<and> E < length cs \<and> unowned prods E \<and> cs ! E = v"
| "mcons_ok E cs prods h (R_Stored v) \<longleftrightarrow> h + 1 = E"

definition mpsc_inv :: "nat \<Rightarrow> 'a mpsc_sys \<Rightarrow> bool" where
  "mpsc_inv N s \<longleftrightarrow> ms_rcvd s = take (length (ms_rcvd s)) (ms_claims s)
     \<and> queue_ok N (length (ms_rcvd s)) (ms_claims s) (ms_q s) (ms_prod s)
     \<and> mcons_ok (length (ms_rcvd s)) (ms_claims s) (ms_prod s) (unat (mq_head (ms_q s))) (ms_cons s)"

subsection \<open>Positions and slots\<close>

lemma mq_slot_mod: "pow2 N \<Longrightarrow> mq_slot N w = unat w mod N"
  using spsc_slot_mod by (simp add: mq_slot_def spsc_slot_def)

lemma small_sint: "unat (w :: u64) < 2 ^ 63 \<Longrightarrow> sint w = int (unat w)"
proof -
  assume "unat w < 2 ^ 63"
  then have "int (unat w) < 2 ^ 63" by (simp only: of_nat_less_numeral_power_cancel_iff)
  then have "signed_take_bit 63 (int (unat w)) = int (unat w)" by (intro signed_take_bit_int_eq_self) linarith+
  then show ?thesis by (simp add: sint_uint)
qed

lemma mq_diff_small:
  assumes "unat a < 2 ^ 63" and "unat b < 2 ^ 63"
  shows "mq_diff a b = int (unat a) - int (unat b)"
proof -
  have "int (unat a) < 2 ^ 63" "int (unat b) < 2 ^ 63"
    using assms by (simp_all only: of_nat_less_numeral_power_cancel_iff)
  then have "in_i64 (int (unat a) - int (unat b))" unfolding in_i64_def by linarith
  then show ?thesis by (simp only: mq_diff_def small_sint [OF assms(1)] small_sint [OF assms(2)] i64_id)
qed

text \<open>Every slot stands for exactly one position of the window \<open>[E, E + N)\<close>.\<close>

lemma window_position:
  fixes N E p :: nat
  assumes "0 < N"
  shows "\<exists>w. E \<le> w \<and> w < E + N \<and> w mod N = p mod N"
proof -
  let ?w = "E + (p + N * E - E) mod N"
  have NE: "E \<le> N * E" using assms by (cases N) simp_all
  have "?w mod N = (E + (p + N * E - E)) mod N" by (simp add: mod_add_right_eq)
  also have "E + (p + N * E - E) = p + N * E" using NE by linarith
  finally have "?w mod N = p mod N" by simp
  then show ?thesis using assms by (intro exI [of _ ?w]) simp
qed

lemma window_distinct:
  fixes N E p w :: nat
  assumes "E \<le> p" "p < E + N" "E \<le> w" "w < E + N" "p mod N = w mod N"
  shows "p = w"
proof (rule ccontr)
  assume "p \<noteq> w"
  then show False
    using slots_distinct [of p w N 0] slots_distinct [of w p N 0] assms by (cases "p < w") auto
qed

lemma ahead_by_N:
  fixes N p w :: nat
  assumes "w < p" "p mod N = w mod N"
  shows "w + N \<le> p"
  using slots_distinct [of w p N 0] assms by (cases "p < w + N") auto

lemma queue_okD:
  assumes "queue_ok N E cs q prods"
  shows "length (mq_seq q) = N" "length (mq_data q) = N" "unat (mq_tail q) = length cs" "E \<le> length cs" "length cs \<le> E + N"
    and "length cs \<le> p \<Longrightarrow> p < E + N \<Longrightarrow> seq_at N q p = p"
    and "pc_ok N E cs q (prods i)"
    and "owns (prods i) = Some p \<Longrightarrow> owns (prods j) = Some p \<Longrightarrow> i = j"
    and "E \<le> p \<Longrightarrow> p < length cs \<Longrightarrow> unowned prods p \<Longrightarrow> seq_at N q p = p + 1 \<and> data_at N q p = cs ! p"
  using assms unfolding queue_ok_def by blast+

lemma queue_okI:
  assumes "length (mq_seq q) = N" "length (mq_data q) = N" "unat (mq_tail q) = length cs" "E \<le> length cs" "length cs \<le> E + N"
    and "\<And>p. length cs \<le> p \<Longrightarrow> p < E + N \<Longrightarrow> seq_at N q p = p"
    and "\<And>i. pc_ok N E cs q (prods i)"
    and "\<And>i j p. owns (prods i) = Some p \<Longrightarrow> owns (prods j) = Some p \<Longrightarrow> i = j"
    and "\<And>p. E \<le> p \<Longrightarrow> p < length cs \<Longrightarrow> unowned prods p \<Longrightarrow> seq_at N q p = p + 1 \<and> data_at N q p = cs ! p"
  shows "queue_ok N E cs q prods"
  using assms unfolding queue_ok_def by blast

lemma owned_position:
  assumes "pc_ok N E cs q pc" and "owns pc = Some p"
  shows "E \<le> p \<and> p < length cs \<and> seq_at N q p = p"
  using assms by (cases pc) auto

lemma slot_seq:
  assumes "queue_ok N E cs q prods" and "E \<le> w" and "w < E + N"
  shows "seq_at N q w = w \<or> (seq_at N q w = w + 1 \<and> w < length cs \<and> unowned prods w)"
proof (cases "w < length cs")
  case True
  show ?thesis
  proof (cases "unowned prods w")
    case unowned: True
    then show ?thesis using queue_okD(9) [OF assms(1,2) True unowned] True by simp
  next
    case False
    then obtain i where "owns (prods i) = Some w" by (auto simp: unowned_def)
    then show ?thesis using owned_position [OF queue_okD(7) [OF assms(1)]] by blast
  qed
next
  case False
  then show ?thesis using queue_okD(6) [OF assms(1)] assms(3) by simp
qed

lemma seq_at_update:
  assumes "pow2 N" and "length (mq_seq q) = N"
  shows "seq_at N (q\<lparr>mq_seq := (mq_seq q)[mq_slot N pos := x]\<rparr>) p = (if p mod N = unat pos mod N then unat x else seq_at N q p)"
    and "data_at N (q\<lparr>mq_seq := y\<rparr>) p = data_at N q p"
  using assms pow2_pos [OF assms(1)] by (auto simp: seq_at_def data_at_def mq_slot_mod)

lemma data_at_update:
  assumes "pow2 N" and "length (mq_data q) = N"
  shows "data_at N (q\<lparr>mq_data := (mq_data q)[mq_slot N pos := v]\<rparr>) p = (if p mod N = unat pos mod N then v else data_at N q p)"
    and "seq_at N (q\<lparr>mq_data := y\<rparr>) p = seq_at N q p"
  using assms pow2_pos [OF assms(1)] by (auto simp: seq_at_def data_at_def mq_slot_mod)

text \<open>What a producer learns from the sequence number of its slot.\<close>

lemma slot_window:
  assumes "queue_ok N E cs q prods" and "pow2 N"
  obtains w where "E \<le> w" "w < E + N" "w mod N = unat pos mod N" "unat (mq_seq q ! mq_slot N pos) = seq_at N q w"
proof -
  obtain w where "E \<le> w" "w < E + N" "w mod N = unat pos mod N"
    using window_position [OF pow2_pos [OF assms(2)], of E "unat pos"] by blast
  moreover from this have "unat (mq_seq q ! mq_slot N pos) = seq_at N q w"
    by (simp add: seq_at_def mq_slot_mod [OF assms(2)])
  ultimately show thesis by (rule that)
qed

lemma slot_seq_small:
  assumes "queue_ok N E cs q prods" and "pow2 N" and "N \<le> 2 ^ 62" and "length cs < 2 ^ 62"
  shows "unat (mq_seq q ! mq_slot N pos) < 2 ^ 63"
proof -
  obtain w where w: "E \<le> w" "w < E + N" "unat (mq_seq q ! mq_slot N pos) = seq_at N q w"
    using slot_window [OF assms(1,2)] by metis
  have "E \<le> length cs" by (rule queue_okD(4) [OF assms(1)])
  then have "w + 1 < 2 ^ 63" using w(2) assms(3,4) by simp
  then show ?thesis using slot_seq [OF assms(1) w(1,2)] w(3) by auto
qed

lemma free_slot_claimable:
  assumes "queue_ok N E cs q prods" and "pow2 N" and "2 \<le> N" and "unat (mq_seq q ! mq_slot N pos) = unat pos"
  shows "unat pos < E + N"
proof -
  obtain w where w: "E \<le> w" "w < E + N" "w mod N = unat pos mod N" "unat (mq_seq q ! mq_slot N pos) = seq_at N q w"
    using slot_window [OF assms(1,2)] by metis
  have d: "(w + 1) mod N \<noteq> w mod N" using slots_distinct [of w "w + 1" N 0] assms(3) by simp
  have "unat pos = seq_at N q w" using w(4) assms(4) by simp
  moreover have "seq_at N q w \<noteq> w + 1"
  proof
    assume "seq_at N q w = w + 1"
    then have "unat pos = w + 1" using calculation by simp
    then show False using d w(3) by simp
  qed
  ultimately show ?thesis using slot_seq [OF assms(1) w(1,2)] w(2) by simp
qed

lemma busy_slot_full:
  assumes "queue_ok N E cs q prods" and "pow2 N" and "unat (mq_seq q ! mq_slot N pos) < unat pos" and "unat pos \<le> length cs"
  shows "length cs = E + N"
proof -
  obtain w where w: "E \<le> w" "w < E + N" "w mod N = unat pos mod N" "unat (mq_seq q ! mq_slot N pos) = seq_at N q w"
    using slot_window [OF assms(1,2)] by metis
  have "w < unat pos" using slot_seq [OF assms(1) w(1,2)] w(4) assms(3) by auto
  then have "w + N \<le> unat pos" using ahead_by_N w(3) by metis
  then show ?thesis using w(1) assms(4) queue_okD(5) [OF assms(1)] by linarith
qed

subsection \<open>Every step keeps the invariant\<close>

lemma unowned_split: "unowned prods k \<longleftrightarrow> owns (prods i) \<noteq> Some k \<and> (\<forall>j. j \<noteq> i \<longrightarrow> owns (prods j) \<noteq> Some k)"
  unfolding unowned_def by metis

lemma unowned_upd:
  "unowned (prods(i := pc)) k \<longleftrightarrow> owns pc \<noteq> Some k \<and> (\<forall>j. j \<noteq> i \<longrightarrow> owns (prods j) \<noteq> Some k)"
  using unowned_split [of "prods(i := pc)" k i] by simp

lemma unowned_same: "owns pc = owns (prods i) \<Longrightarrow> unowned (prods(i := pc)) = unowned prods"
  by (rule ext) (simp only: unowned_upd unowned_split [of prods _ i])

lemma queue_ok_same_owner:
  assumes "queue_ok N E cs q prods" and "owns pc = owns (prods i)" and "pc_ok N E cs q pc"
  shows "queue_ok N E cs q (prods(i := pc))" and "unowned (prods(i := pc)) = unowned prods"
proof -
  show u: "unowned (prods(i := pc)) = unowned prods" by (rule unowned_same) (rule assms(2))
  show "queue_ok N E cs q (prods(i := pc))"
  proof (rule queue_okI)
    fix j k p
    assume "owns ((prods(i := pc)) j) = Some p" "owns ((prods(i := pc)) k) = Some p"
    moreover have "owns ((prods(i := pc)) l) = owns (prods l)" for l using assms(2) by simp
    ultimately show "j = k" using queue_okD(8) [OF assms(1)] by metis
  qed (use queue_okD [OF assms(1)] assms(3) in \<open>simp_all add: u\<close>)
qed

lemma unowned_update:
  assumes "owns (prods i) = None" "owns pc = Some p"
  shows "unowned (prods(i := pc)) k \<longleftrightarrow> unowned prods k \<and> k \<noteq> p"
  unfolding unowned_upd unowned_split [of prods k i] using assms by auto

lemma pc_ok_snoc:
  assumes "pc_ok N E cs q pc" and "mq_seq q' = mq_seq q" "mq_data q' = mq_data q"
  shows "pc_ok N E (cs @ [v]) q' pc"
proof -
  have "seq_at N q' = seq_at N q" "data_at N q' = data_at N q"
    using assms(2,3) by (simp_all add: seq_at_def data_at_def fun_eq_iff)
  then show ?thesis using assms(1) by (cases pc) (simp_all add: nth_append)
qed

lemma queue_ok_cas:
  assumes "queue_ok N E cs q prods" and "prods i = M_Claim v pos" and "mq_tail q = pos" and "length cs < 2 ^ 62"
  shows "queue_ok N E (cs @ [v]) (q\<lparr>mq_tail := pos + 1\<rparr>) (prods(i := M_Own v pos))"
proof -
  note D = queue_okD [OF assms(1)]
  have T: "unat pos = length cs" using D(3) assms(3) by simp
  have room: "unat pos < E + N" using D(7) [of i] assms(2) by simp
  have tail: "unat (pos + 1) = length cs + 1" using T assms(4) by (subst unat_Suc_u64) simp_all
  have same: "seq_at N (q\<lparr>mq_tail := pos + 1\<rparr>) = seq_at N q" "data_at N (q\<lparr>mq_tail := pos + 1\<rparr>) = data_at N q"
    by (simp_all add: seq_at_def data_at_def fun_eq_iff)
  have un: "unowned (prods(i := M_Own v pos)) k \<longleftrightarrow> unowned prods k \<and> k \<noteq> unat pos" for k
    using unowned_update [of prods i "M_Own v pos" "unat pos"] assms(2) by simp
  have low: "k < length cs" if "owns (prods j) = Some k" for j k using owned_position [OF D(7) that] by simp
  show ?thesis
  proof (rule queue_okI)
    show "pc_ok N E (cs @ [v]) (q\<lparr>mq_tail := pos + 1\<rparr>) ((prods(i := M_Own v pos)) j)" for j
      using pc_ok_snoc [OF D(7) [of j], of "q\<lparr>mq_tail := pos + 1\<rparr>" v] D(4) D(6) [of "unat pos"] room T
      by (simp add: same nth_append)
    show "j = k" if "owns ((prods(i := M_Own v pos)) j) = Some p" "owns ((prods(i := M_Own v pos)) k) = Some p" for j k p
      using that low [of j p] low [of k p] D(8) [of j p k] T by (auto split: if_splits)
    show "seq_at N (q\<lparr>mq_tail := pos + 1\<rparr>) p = p + 1 \<and> data_at N (q\<lparr>mq_tail := pos + 1\<rparr>) p = (cs @ [v]) ! p"
      if "E \<le> p" "p < length (cs @ [v])" "unowned (prods(i := M_Own v pos)) p" for p
      using that D(9) [of p] T by (auto simp: same un nth_append)
  qed (use D(1,2,4,6) T tail room in \<open>simp_all add: same\<close>)
qed

text \<open>Writing into the slot of an owned position touches nothing else in the window.\<close>

lemma window_slot:
  "E \<le> p \<Longrightarrow> p < E + N \<Longrightarrow> E \<le> w \<Longrightarrow> w < E + N \<Longrightarrow> p mod N = w mod N \<longleftrightarrow> p = (w :: nat)"
  using window_distinct by blast

lemma pc_ok_slot:
  assumes "pc_ok N E cs q pc" and "\<And>p. owns pc = Some p \<Longrightarrow> seq_at N q' p = seq_at N q p \<and> data_at N q' p = data_at N q p"
  shows "pc_ok N E cs q' pc"
  using assms by (cases pc) auto

lemma queue_ok_write:
  assumes "queue_ok N E cs q prods" and "prods i = M_Own v pos" and "pow2 N"
  shows "queue_ok N E cs (q\<lparr>mq_data := (mq_data q)[mq_slot N pos := v]\<rparr>) (prods(i := M_Wrote v pos))"
proof -
  note D = queue_okD [OF assms(1)]
  let ?q = "q\<lparr>mq_data := (mq_data q)[mq_slot N pos := v]\<rparr>"
  have own: "E \<le> unat pos" "unat pos < length cs" "seq_at N q (unat pos) = unat pos" "cs ! unat pos = v"
    using D(7) [of i] assms(2) by simp_all
  have w: "unat pos < E + N" using own(2) D(5) by simp
  have u: "unowned (prods(i := M_Wrote v pos)) = unowned prods"
    by (rule unowned_same) (simp add: assms(2))
  have o: "owns ((prods(i := M_Wrote v pos)) j) = owns (prods j)" for j using assms(2) by simp
  have d: "data_at N ?q p = (if p = unat pos then v else data_at N q p)" if "E \<le> p" "p < E + N" for p
    using that window_slot [OF that own(1) w] by (simp add: data_at_update(1) [OF assms(3) D(2)])
  have s: "seq_at N ?q p = seq_at N q p" for p by (rule data_at_update(2) [OF assms(3) D(2)])
  show ?thesis
  proof (rule queue_okI)
    show "pc_ok N E cs ?q ((prods(i := M_Wrote v pos)) j)" for j
    proof (cases "j = i")
      case True
      then show ?thesis using own d [OF own(1) w] by (simp add: s)
    next
      case False
      have "pc_ok N E cs ?q (prods j)"
      proof (rule pc_ok_slot [OF D(7)])
        fix p assume p: "owns (prods j) = Some p"
        then have "p \<noteq> unat pos" using D(8) [OF p, of i] assms(2) False by auto
        moreover have "E \<le> p" "p < E + N" using owned_position [OF D(7) p] D(5) by simp_all
        ultimately show "seq_at N ?q p = seq_at N q p \<and> data_at N ?q p = data_at N q p" using d s by simp
      qed
      then show ?thesis using False by simp
    qed
    show "j = k" if "owns ((prods(i := M_Wrote v pos)) j) = Some p" "owns ((prods(i := M_Wrote v pos)) k) = Some p" for j k p
      using that D(8) unfolding o by blast
    show "seq_at N ?q p = p + 1 \<and> data_at N ?q p = cs ! p"
      if "E \<le> p" "p < length cs" "unowned (prods(i := M_Wrote v pos)) p" for p
    proof -
      have "p \<noteq> unat pos" using that(3) assms(2) unfolding u unowned_def by (metis owns.simps(1))
      then show ?thesis using that D(9) [of p] d [of p] D(5) by (simp add: u s)
    qed
  qed (use D(1-6) in \<open>simp_all add: s\<close>)
qed

lemma queue_ok_publish:
  assumes "queue_ok N E cs q prods" and "prods i = M_Wrote v pos" and "pow2 N" and "length cs < 2 ^ 62"
  shows "queue_ok N E cs (q\<lparr>mq_seq := (mq_seq q)[mq_slot N pos := pos + 1]\<rparr>) (prods(i := M_Idle))"
proof -
  note D = queue_okD [OF assms(1)]
  let ?q = "q\<lparr>mq_seq := (mq_seq q)[mq_slot N pos := pos + 1]\<rparr>"
  have own: "E \<le> unat pos" "unat pos < length cs" "data_at N q (unat pos) = v" "cs ! unat pos = v"
    using D(7) [of i] assms(2) by simp_all
  have w: "unat pos < E + N" using own(2) D(5) by simp
  have next_pos: "unat (pos + 1) = unat pos + 1" using own(2) assms(4) by (subst unat_Suc_u64) simp_all
  have s: "seq_at N ?q p = (if p = unat pos then p + 1 else seq_at N q p)" if "E \<le> p" "p < E + N" for p
    using that window_slot [OF that own(1) w] next_pos by (simp add: seq_at_update(1) [OF assms(3) D(1)])
  have d: "data_at N ?q p = data_at N q p" for p by (rule seq_at_update(2) [OF assms(3) D(1)])
  have other: "p \<noteq> unat pos" if "owns (prods j) = Some p" "j \<noteq> i" for j p
    using D(8) [OF that(1), of i] assms(2) that(2) by auto
  show ?thesis
  proof (rule queue_okI)
    show "seq_at N ?q p = p" if "length cs \<le> p" "p < E + N" for p
      using that s [of p] D(4,6) own(2) by simp
    show "pc_ok N E cs ?q ((prods(i := M_Idle)) j)" for j
    proof (cases "j = i")
      case False
      have "pc_ok N E cs ?q (prods j)"
      proof (rule pc_ok_slot [OF D(7)])
        fix p assume p: "owns (prods j) = Some p"
        have "E \<le> p" "p < E + N" using owned_position [OF D(7) p] D(5) by simp_all
        then show "seq_at N ?q p = seq_at N q p \<and> data_at N ?q p = data_at N q p"
          using s d other [OF p False] by simp
      qed
      then show ?thesis using False by simp
    qed simp
    show "j = k" if "owns ((prods(i := M_Idle)) j) = Some p" "owns ((prods(i := M_Idle)) k) = Some p" for j k p
      using that D(8) [of j p k] by (auto split: if_splits)
    show "seq_at N ?q p = p + 1 \<and> data_at N ?q p = cs ! p"
      if p: "E \<le> p" "p < length cs" "unowned (prods(i := M_Idle)) p" for p
    proof (cases "p = unat pos")
      case True
      then show ?thesis using s [OF p(1)] w own by (simp add: d)
    next
      case False
      then have "unowned prods p" using p(3) assms(2) unfolding unowned_def by (metis fun_upd_other option.inject owns.simps(2))
      then show ?thesis using s [OF p(1)] D(5) D(9) [OF p(1,2)] p(2) False by (simp add: d)
    qed
  qed (use D(1-5) in simp_all)
qed

lemma queue_ok_release:
  assumes "queue_ok N E cs q prods" and "pow2 N" and "N \<le> 2 ^ 62" and "length cs < 2 ^ 62"
    and "unat (mq_head q) = E" and "E < length cs" and "unowned prods E"
  shows "queue_ok N (E + 1) cs (q\<lparr>mq_seq := (mq_seq q)[mq_slot N (mq_head q) := mq_head q + of_nat N]\<rparr>) prods"
proof -
  note D = queue_okD [OF assms(1)]
  let ?q = "q\<lparr>mq_seq := (mq_seq q)[mq_slot N (mq_head q) := mq_head q + of_nat N]\<rparr>"
  have N: "0 < N" by (rule pow2_pos [OF assms(2)])
  have nxt: "unat (mq_head q + of_nat N) = E + N"
    using assms(3-6) by (simp add: unat_word_ariths unat_of_nat_u64)
  have s: "seq_at N ?q p = (if p mod N = E mod N then E + N else seq_at N q p)" for p
    using nxt by (simp add: seq_at_update(1) [OF assms(2) D(1)] assms(5))
  have s_in: "seq_at N ?q p = seq_at N q p" if "E < p" "p < E + N" for p
    using that window_slot [of E p N E] N by (simp add: s)
  have d: "data_at N ?q p = data_at N q p" for p by (rule seq_at_update(2) [OF assms(2) D(1)])
  have own: "E < p \<and> p < length cs" if "owns (prods j) = Some p" for j p
    using owned_position [OF D(7) that] assms(7) that unfolding unowned_def by (metis le_neq_implies_less)
  show ?thesis
  proof (rule queue_okI)
    show "seq_at N ?q p = p" if "length cs \<le> p" "p < E + 1 + N" for p
    proof (cases "p = E + N")
      case True
      then show ?thesis by (simp add: s)
    next
      case False
      then show ?thesis using that s_in [of p] D(6) [of p] assms(6) by simp
    qed
    show "pc_ok N (E + 1) cs ?q (prods j)" for j
    proof -
      have "pc_ok N E cs ?q (prods j)"
      proof (rule pc_ok_slot [OF D(7)])
        fix p assume "owns (prods j) = Some p"
        then show "seq_at N ?q p = seq_at N q p \<and> data_at N ?q p = data_at N q p"
          using own s_in d D(5) by (metis order_less_le_trans)
      qed
      then show ?thesis using own [of j] by (cases "prods j") auto
    qed
    show "seq_at N ?q p = p + 1 \<and> data_at N ?q p = cs ! p" if "E + 1 \<le> p" "p < length cs" "unowned prods p" for p
      using that s_in [of p] D(5) D(9) [of p] by (simp add: d)
  qed (use D(1-5) D(8) assms(6) in \<open>auto\<close>)
qed

lemma mcons_ok_same:
  assumes "mcons_ok E cs prods h c" and "\<And>p. unowned prods p \<Longrightarrow> E = p \<Longrightarrow> E < length cs \<Longrightarrow> unowned prods' p"
  shows "mcons_ok E cs prods' h c"
  using assms by (cases c) auto

lemma mcons_ok_snoc: "mcons_ok E cs prods h c \<Longrightarrow> mcons_ok E (cs @ [v]) prods h c"
  by (cases c) (auto simp: nth_append)

lemma inv_same_owner:
  assumes "mpsc_inv N s" and "owns pc = owns (ms_prod s i)"
    and "pc_ok N (length (ms_rcvd s)) (ms_claims s) (ms_q s) pc"
  shows "mpsc_inv N (s\<lparr>ms_prod := (ms_prod s)(i := pc)\<rparr>)"
  using queue_ok_same_owner [of N "length (ms_rcvd s)" "ms_claims s" "ms_q s" "ms_prod s" pc i] assms
    mcons_ok_same [of "length (ms_rcvd s)" "ms_claims s" "ms_prod s" "unat (mq_head (ms_q s))" "ms_cons s" "(ms_prod s)(i := pc)"]
  by (simp add: mpsc_inv_def)

lemma mpsc_step_claims: "mpsc_step N s t \<Longrightarrow> length (ms_claims s) \<le> length (ms_claims t)"
  by (induction rule: mpsc_step.induct) simp_all

lemma mpsc_step_inv:
  assumes "mpsc_step N s t" and "mpsc_inv N s" and N: "pow2 N" "2 \<le> N" "N \<le> 2 ^ 62" and "length (ms_claims t) < 2 ^ 62"
  shows "mpsc_inv N t"
  using assms(1,2,6)
proof (induction rule: mpsc_step.induct)
  case (push_start s i v)
  note q = push_start(2) [unfolded mpsc_inv_def, THEN conjunct2, THEN conjunct1]
  show ?case
    using inv_same_owner [OF push_start(2), of "M_At v (mq_tail (ms_q s))" i] queue_okD(3) [OF q] push_start(1) by simp
next
  case (push_free s i v pos)
  note q = push_free(3) [unfolded mpsc_inv_def, THEN conjunct2, THEN conjunct1]
  have c: "length (ms_claims s) < 2 ^ 62" using push_free(4) by simp
  have p: "unat pos \<le> length (ms_claims s)" using queue_okD(7) [OF q, of i] push_free(1) by simp
  have "unat pos < 2 ^ 63" using p c by simp
  from mq_diff_small [OF slot_seq_small [OF q N(1,3) c, of pos] this] push_free(2)
  have "unat (mq_seq (ms_q s) ! mq_slot N pos) = unat pos" by linarith
  from free_slot_claimable [OF q N(1,2) this] p show ?case
    using inv_same_owner [OF push_free(3), of "M_Claim v pos" i] push_free(1) by simp
next
  case (push_full s i v pos)
  then show ?case using inv_same_owner [OF push_full(3), of M_Idle i] by simp
next
  case (push_late s i v pos)
  note q = push_late(3) [unfolded mpsc_inv_def, THEN conjunct2, THEN conjunct1]
  show ?case
    using inv_same_owner [OF push_late(3), of "M_At v (mq_tail (ms_q s))" i] queue_okD(3) [OF q] push_late(1) by simp
next
  case (push_cas s i v pos)
  note q = push_cas(3) [unfolded mpsc_inv_def, THEN conjunct2, THEN conjunct1]
  let ?E = "length (ms_rcvd s)" and ?cs = "ms_claims s"
  have c: "length ?cs < 2 ^ 62" using push_cas(4) by simp
  have own: "unowned ((ms_prod s)(i := M_Own v pos)) p" if "unowned (ms_prod s) p" "?E = p" "?E < length ?cs" for p
    using that unowned_update [of "ms_prod s" i "M_Own v pos" "unat pos" p] push_cas(1,2) queue_okD(3) [OF q] by simp
  have "mcons_ok ?E ?cs (ms_prod s) (unat (mq_head (ms_q s))) (ms_cons s)" using push_cas(3) by (simp add: mpsc_inv_def)
  from mcons_ok_snoc [OF mcons_ok_same [OF this, of "(ms_prod s)(i := M_Own v pos)"], of v] own
  show ?case
    using push_cas queue_ok_cas [OF q push_cas(1,2) c] queue_okD(4) [OF q] by (simp add: mpsc_inv_def)
next
  case (push_cas_fail s i v pos)
  note q = push_cas_fail(2) [unfolded mpsc_inv_def, THEN conjunct2, THEN conjunct1]
  show ?case
    using inv_same_owner [OF push_cas_fail(2), of "M_At v (mq_tail (ms_q s))" i] queue_okD(3) [OF q] push_cas_fail(1) by simp
next
  case (push_write s i v pos)
  note q = push_write(2) [unfolded mpsc_inv_def, THEN conjunct2, THEN conjunct1]
  have u: "unowned ((ms_prod s)(i := M_Wrote v pos)) = unowned (ms_prod s)"
    by (rule unowned_same) (simp add: push_write(1))
  show ?case
    using push_write queue_ok_write [OF q push_write(1) N(1)]
      mcons_ok_same [of "length (ms_rcvd s)" "ms_claims s" "ms_prod s" "unat (mq_head (ms_q s))" "ms_cons s" "(ms_prod s)(i := M_Wrote v pos)"]
    by (simp add: mpsc_inv_def u)
next
  case (push_publish s i v pos)
  note q = push_publish(2) [unfolded mpsc_inv_def, THEN conjunct2, THEN conjunct1]
  have c: "length (ms_claims s) < 2 ^ 62" using push_publish(3) by simp
  have u: "unowned ((ms_prod s)(i := M_Idle)) p" if "unowned (ms_prod s) p" for p
    using that unfolding unowned_upd unowned_split [of "ms_prod s" p i] by simp
  show ?case
    using push_publish queue_ok_publish [OF q push_publish(1) N(1) c]
      mcons_ok_same [of "length (ms_rcvd s)" "ms_claims s" "ms_prod s" "unat (mq_head (ms_q s))" "ms_cons s" "(ms_prod s)(i := M_Idle)"] u
    by (simp add: mpsc_inv_def)
next
  case (pop_empty s)
  then show ?case by simp
next
  case (pop_ready s)
  note q = pop_ready(3) [unfolded mpsc_inv_def, THEN conjunct2, THEN conjunct1]
  let ?E = "length (ms_rcvd s)"
  have c: "length (ms_claims s) < 2 ^ 62" using pop_ready(4) by simp
  have h: "unat (mq_head (ms_q s)) = ?E" using pop_ready(1,3) by (simp add: mpsc_inv_def)
  have E: "?E < 2 ^ 62" using queue_okD(4) [OF q] c by simp
  have h1: "unat (mq_head (ms_q s) + 1) = ?E + 1" using E h by (subst unat_Suc_u64) simp_all
  have "unat (mq_head (ms_q s) + 1) < 2 ^ 63" using h1 E by simp
  from mq_diff_small [OF slot_seq_small [OF q N(1,3) c, of "mq_head (ms_q s)"] this] pop_ready(2) h1
  have "?E + 1 \<le> unat (mq_seq (ms_q s) ! mq_slot N (mq_head (ms_q s)))" by linarith
  then have "?E + 1 \<le> seq_at N (ms_q s) ?E" by (simp add: seq_at_def mq_slot_mod [OF N(1)] h)
  then have "?E < length (ms_claims s) \<and> unowned (ms_prod s) ?E" using slot_seq [OF q, of ?E] N(2) by auto
  then show ?case using pop_ready(3) h by (simp add: mpsc_inv_def)
next
  case (pop_read s)
  note q = pop_read(2) [unfolded mpsc_inv_def, THEN conjunct2, THEN conjunct1]
  let ?E = "length (ms_rcvd s)"
  have r: "unat (mq_head (ms_q s)) = ?E" "?E < length (ms_claims s)" "unowned (ms_prod s) ?E"
    using pop_read(1,2) by (simp_all add: mpsc_inv_def)
  have "data_at N (ms_q s) ?E = ms_claims s ! ?E" using queue_okD(9) [OF q le_refl r(2,3)] by simp
  then show ?case using pop_read(2) r by (simp add: mpsc_inv_def data_at_def mq_slot_mod [OF N(1)])
next
  case (pop_release s v)
  note q = pop_release(2) [unfolded mpsc_inv_def, THEN conjunct2, THEN conjunct1]
  let ?E = "length (ms_rcvd s)"
  have c: "length (ms_claims s) < 2 ^ 62" using pop_release(3) by simp
  have r: "unat (mq_head (ms_q s)) = ?E" "?E < length (ms_claims s)" "unowned (ms_prod s) ?E" "ms_claims s ! ?E = v"
    "ms_rcvd s = take ?E (ms_claims s)"
    using pop_release(1,2) by (simp_all add: mpsc_inv_def)
  have "ms_rcvd s @ [v] = take (?E + 1) (ms_claims s)" using r(2,4,5) by (simp add: take_Suc_conv_app_nth)
  then show ?case using queue_ok_release [OF q N(1,3) c r(1-3)] r(1,2) by (simp add: mpsc_inv_def min_absorb2 Suc_le_eq)
next
  case (pop_advance s v)
  note q = pop_advance(2) [unfolded mpsc_inv_def, THEN conjunct2, THEN conjunct1]
  have h: "unat (mq_head (ms_q s)) + 1 = length (ms_rcvd s)" using pop_advance(1,2) by (simp add: mpsc_inv_def)
  have c: "length (ms_rcvd s) < 2 ^ 62" using queue_okD(4) [OF q] pop_advance(3) by simp
  have "unat (mq_head (ms_q s) + 1) = length (ms_rcvd s)" using h c by (subst unat_Suc_u64) simp_all
  moreover have "pc_ok N E cs (ms_q s\<lparr>mq_head := x\<rparr>) pc = pc_ok N E cs (ms_q s) pc" for E cs x pc
    by (cases pc) (simp_all add: seq_at_def data_at_def)
  ultimately show ?case
    using pop_advance(2) by (simp add: mpsc_inv_def queue_ok_def seq_at_def data_at_def)
qed

lemma mpsc_init_inv:
  assumes "pow2 N" and "N \<le> 2 ^ 62" and "length mem = N"
  shows "mpsc_inv N (mpsc_sys_init N mem)"
proof -
  have "unat (of_nat p :: u64) = p" if "p < N" for p using that assms(2) by (intro unat_of_nat_u64) simp
  then show ?thesis
    using assms pow2_pos [OF assms(1)]
    by (auto simp: mpsc_inv_def mpsc_sys_init_def mpsc_new_def queue_ok_def seq_at_def unowned_def)
qed

lemma mpsc_reachable_inv:
  assumes "mpsc_reachable N mem s" and "pow2 N" "2 \<le> N" "N \<le> 2 ^ 62" and "length mem = N" and "length (ms_claims s) < 2 ^ 62"
  shows "mpsc_inv N s"
  using assms(1,6)
proof (induction rule: mpsc_reachable.induct)
  case mpsc_start
  show ?case by (rule mpsc_init_inv [OF assms(2,4,5)])
next
  case (mpsc_more s t)
  have "length (ms_claims s) < 2 ^ 62" using mpsc_step_claims [OF mpsc_more(2)] mpsc_more(4) by simp
  then show ?case using mpsc_step_inv [OF mpsc_more(2) mpsc_more(3) assms(2-4) mpsc_more(4)] by simp
qed

text \<open>A push has returned when its producer is idle, or has not claimed a position yet.\<close>

definition mpsc_quiet :: "'a mpsc_sys \<Rightarrow> bool" where
  "mpsc_quiet s \<longleftrightarrow> (\<forall>i. owns (ms_prod s i) = None) \<and> ms_cons s = R_Idle"

text \<open>
  Claim C11. The queue of many producers is a FIFO queue under every interleaving, as long as it has at
  least two slots and fewer than \<open>2 ^ 62\<close> values pass through it: the consumer has received exactly the
  first values in the order their positions were claimed; at most \<open>N\<close> are in the queue; a push that gives
  up finds \<open>N\<close> claimed values not yet received; and when no push is under way and the queue looks empty to
  the consumer, every accepted value has been received.
\<close>

theorem mpsc_fifo:
  assumes "mpsc_reachable N mem s" and "pow2 N" "2 \<le> N" "N \<le> 2 ^ 62" and "length mem = N" and "length (ms_claims s) < 2 ^ 62"
  shows "ms_rcvd s = take (length (ms_rcvd s)) (ms_claims s)
    \<and> length (ms_claims s) \<le> length (ms_rcvd s) + N
    \<and> (ms_prod s i = M_At v pos \<and> slot_diff N s pos pos < 0 \<longrightarrow> length (ms_claims s) = length (ms_rcvd s) + N)
    \<and> (mpsc_quiet s \<and> slot_diff N s (mq_head (ms_q s)) (mq_head (ms_q s) + 1) < 0 \<longrightarrow> ms_rcvd s = ms_claims s)"
proof -
  have inv: "mpsc_inv N s" by (rule mpsc_reachable_inv [OF assms])
  then have q: "queue_ok N (length (ms_rcvd s)) (ms_claims s) (ms_q s) (ms_prod s)"
    and r: "ms_rcvd s = take (length (ms_rcvd s)) (ms_claims s)" by (simp_all add: mpsc_inv_def)
  let ?E = "length (ms_rcvd s)" and ?h = "mq_head (ms_q s)"
  have full: "length (ms_claims s) = ?E + N" if "ms_prod s i = M_At v pos" "slot_diff N s pos pos < 0"
  proof -
    have p: "unat pos \<le> length (ms_claims s)" using queue_okD(7) [OF q, of i] that(1) by simp
    then have "unat pos < 2 ^ 63" using assms(6) by simp
    from mq_diff_small [OF slot_seq_small [OF q assms(2,4,6), of pos] this] that(2)
    have "unat (mq_seq (ms_q s) ! mq_slot N pos) < unat pos" by linarith
    then show ?thesis by (rule busy_slot_full [OF q assms(2) _ p])
  qed
  have all: "ms_rcvd s = ms_claims s" if quiet: "mpsc_quiet s" and e: "slot_diff N s ?h (?h + 1) < 0"
  proof -
    have h: "unat ?h = ?E" using inv quiet by (simp add: mpsc_inv_def mpsc_quiet_def)
    have E: "?E < 2 ^ 62" using queue_okD(4) [OF q] assms(6) by simp
    have h1: "unat (?h + 1) = ?E + 1" using E h by (subst unat_Suc_u64) simp_all
    then have "unat (?h + 1) < 2 ^ 63" using E by simp
    from mq_diff_small [OF slot_seq_small [OF q assms(2,4,6), of ?h] this] e h1
    have "unat (mq_seq (ms_q s) ! mq_slot N ?h) < ?E + 1" by linarith
    then have "seq_at N (ms_q s) ?E < ?E + 1" by (simp add: seq_at_def mq_slot_mod [OF assms(2)] h)
    moreover have "unowned (ms_prod s) ?E" using quiet by (simp add: mpsc_quiet_def unowned_def)
    ultimately have "\<not> ?E < length (ms_claims s)" using queue_okD(9) [OF q, of ?E] by auto
    then have "length (ms_claims s) \<le> ?E" by simp
    with r show ?thesis by simp
  qed
  show ?thesis using r queue_okD(5) [OF q] full all by blast
qed

text \<open>
  No data race on a slot: two producers about to write, or a producer about to write and the
  consumer about to read, are never at the same slot.
\<close>

theorem mpsc_no_data_race:
  assumes "mpsc_reachable N mem s" and "pow2 N" "2 \<le> N" "N \<le> 2 ^ 62" and "length mem = N" and "length (ms_claims s) < 2 ^ 62"
    and "ms_prod s i = M_Own v pos"
  shows "(ms_prod s j = M_Own w pos' \<and> mq_slot N pos = mq_slot N pos' \<longrightarrow> i = j)
    \<and> (ms_cons s = R_Ready \<longrightarrow> mq_slot N pos \<noteq> mq_slot N (mq_head (ms_q s)))"
proof -
  have inv: "mpsc_inv N s" by (rule mpsc_reachable_inv [OF assms(1-6)])
  then have q: "queue_ok N (length (ms_rcvd s)) (ms_claims s) (ms_q s) (ms_prod s)" by (simp add: mpsc_inv_def)
  let ?E = "length (ms_rcvd s)"
  have own: "?E \<le> unat p \<and> unat p < ?E + N" if "ms_prod s k = M_Own x p" for k x p
    using queue_okD(7) [OF q, of k] queue_okD(5) [OF q] that by auto
  have "i = j" if "ms_prod s j = M_Own w pos'" "mq_slot N pos = mq_slot N pos'"
  proof -
    have "unat pos = unat pos'"
      using window_distinct [of ?E "unat pos" N "unat pos'"] own [OF assms(7)] own [OF that(1)] that(2)
      by (simp add: mq_slot_mod [OF assms(2)])
    then show ?thesis using queue_okD(8) [OF q, of i "unat pos" j] assms(7) that(1) by simp
  qed
  moreover have "mq_slot N pos \<noteq> mq_slot N (mq_head (ms_q s))" if "ms_cons s = R_Ready"
  proof
    have h: "unat (mq_head (ms_q s)) = ?E" "unowned (ms_prod s) ?E" using inv that by (simp_all add: mpsc_inv_def)
    assume "mq_slot N pos = mq_slot N (mq_head (ms_q s))"
    then have "unat pos mod N = ?E mod N" by (simp add: mq_slot_mod [OF assms(2)] h(1))
    then have "unat pos = ?E" using window_distinct [of ?E "unat pos" N ?E] own [OF assms(7)] assms(3) by simp
    then show False using h(2) assms(7) unfolding unowned_def by (metis owns.simps(1))
  qed
  ultimately show ?thesis by blast
qed

definition mpsc_two :: "u64 \<Rightarrow> nat mpsc_pc \<Rightarrow> nat list \<Rightarrow> nat mpsc_sys" where
  "mpsc_two tail pc cs = \<lparr>ms_q = \<lparr>mq_tail = tail, mq_head = 0, mq_seq = [0, 1], mq_data = [0, 0]\<rparr>,
     ms_prod = (\<lambda>_. M_Idle)(0 := pc), ms_cons = R_Idle, ms_claims = cs, ms_rcvd = []\<rparr>"

lemma mpsc_two_path:
  "mpsc_step 2 (mpsc_two 0 M_Idle []) (mpsc_two 0 (M_At 7 0) [])"
  "mpsc_step 2 (mpsc_two 0 (M_At 7 0) []) (mpsc_two 0 (M_Claim 7 0) [])"
  "mpsc_step 2 (mpsc_two 0 (M_Claim 7 0) []) (mpsc_two 1 (M_Own 7 0) [7])"
proof -
  show "mpsc_step 2 (mpsc_two 0 M_Idle []) (mpsc_two 0 (M_At 7 0) [])"
    using push_start [of "mpsc_two 0 M_Idle []" 0 2 7] by (simp add: mpsc_two_def)
  show "mpsc_step 2 (mpsc_two 0 (M_At 7 0) []) (mpsc_two 0 (M_Claim 7 0) [])"
    using push_free [of "mpsc_two 0 (M_At 7 0) []" 0 7 0 2] by (simp add: mpsc_two_def mq_diff_def mq_slot_def)
  show "mpsc_step 2 (mpsc_two 0 (M_Claim 7 0) []) (mpsc_two 1 (M_Own 7 0) [7])"
    using push_cas [of "mpsc_two 0 (M_Claim 7 0) []" 0 7 0 2] by (simp add: mpsc_two_def)
qed

lemma mpsc_two_reachable: "mpsc_reachable 2 [0, 0] (mpsc_two 1 (M_Own 7 0) [7])"
proof -
  have "mpsc_sys_init 2 [0, 0 :: nat] = mpsc_two 0 M_Idle []"
    by (simp add: mpsc_sys_init_def mpsc_two_def mpsc_new_def upt_rec fun_eq_iff)
  then have "mpsc_reachable 2 [0, 0] (mpsc_two 0 M_Idle [])" using mpsc_start [of 2 "[0, 0 :: nat]"] by simp
  then show ?thesis using mpsc_more mpsc_two_path by metis
qed

lemma pow2_2: "pow2 2"
  unfolding pow2_def by (rule exI [of _ 1]) simp

lemma mpsc_fifo_witness:
  "length (ms_claims (mpsc_two 1 (M_Own 7 0) [7])) \<le> length (ms_rcvd (mpsc_two 1 (M_Own 7 0) [7])) + 2"
proof -
  have "length (ms_claims (mpsc_two 1 (M_Own 7 0) [7])) < 2 ^ 62" by (simp add: mpsc_two_def)
  from mpsc_fifo [OF mpsc_two_reachable pow2_2 _ _ _ this] show ?thesis by simp
qed

lemma mpsc_no_data_race_witness:
  "ms_cons (mpsc_two 1 (M_Own 7 0) [7]) = R_Ready \<longrightarrow> mq_slot 2 0 \<noteq> mq_slot 2 (mq_head (ms_q (mpsc_two 1 (M_Own 7 0) [7])))"
proof -
  have "length (ms_claims (mpsc_two 1 (M_Own 7 0) [7])) < 2 ^ 62" "ms_prod (mpsc_two 1 (M_Own 7 0) [7]) 0 = M_Own 7 0"
    by (simp_all add: mpsc_two_def)
  from mpsc_no_data_race [OF mpsc_two_reachable pow2_2 _ _ _ this] show ?thesis by simp
qed

subsection \<open>One slot is not enough\<close>

text \<open>The state of a queue of one slot with one producer, head at 0.\<close>

definition mpsc_one :: "u64 \<Rightarrow> u64 \<Rightarrow> nat \<Rightarrow> nat mpsc_pc \<Rightarrow> nat mpsc_cpc \<Rightarrow> nat list \<Rightarrow> nat list \<Rightarrow> nat mpsc_sys" where
  "mpsc_one tail sq d pc cons cs rc = \<lparr>ms_q = \<lparr>mq_tail = tail, mq_head = 0, mq_seq = [sq], mq_data = [d]\<rparr>,
     ms_prod = (\<lambda>_. M_Idle)(0 := pc), ms_cons = cons, ms_claims = cs, ms_rcvd = rc\<rparr>"

lemma mpsc_one_start: "mpsc_step 1 (mpsc_one p sq d M_Idle R_Idle cs []) (mpsc_one p sq d (M_At v p) R_Idle cs [])"
  using push_start [of "mpsc_one p sq d M_Idle R_Idle cs []" 0 1 v] by (simp add: mpsc_one_def)

lemma mpsc_one_push:
  assumes "mpsc_reachable 1 mem (mpsc_one p p d M_Idle R_Idle cs [])"
  shows "mpsc_reachable 1 mem (mpsc_one (p + 1) (p + 1) v M_Idle R_Idle (cs @ [v]) [])"
proof -
  have d: "mq_diff p p = 0" by (simp add: mq_diff_def)
  have 1: "mpsc_step 1 (mpsc_one p p d (M_At v p) R_Idle cs []) (mpsc_one p p d (M_Claim v p) R_Idle cs [])"
    using push_free [of "mpsc_one p p d (M_At v p) R_Idle cs []" 0 v p 1] d by (simp add: mpsc_one_def mq_slot_def)
  have 2: "mpsc_step 1 (mpsc_one p p d (M_Claim v p) R_Idle cs []) (mpsc_one (p + 1) p d (M_Own v p) R_Idle (cs @ [v]) [])"
    using push_cas [of "mpsc_one p p d (M_Claim v p) R_Idle cs []" 0 v p 1] by (simp add: mpsc_one_def)
  have 3: "mpsc_step 1 (mpsc_one (p + 1) p d (M_Own v p) R_Idle (cs @ [v]) []) (mpsc_one (p + 1) p v (M_Wrote v p) R_Idle (cs @ [v]) [])"
    using push_write [of "mpsc_one (p + 1) p d (M_Own v p) R_Idle (cs @ [v]) []" 0 v p 1] by (simp add: mpsc_one_def mq_slot_def)
  have 4: "mpsc_step 1 (mpsc_one (p + 1) p v (M_Wrote v p) R_Idle (cs @ [v]) []) (mpsc_one (p + 1) (p + 1) v M_Idle R_Idle (cs @ [v]) [])"
    using push_publish [of "mpsc_one (p + 1) p v (M_Wrote v p) R_Idle (cs @ [v]) []" 0 v p 1] by (simp add: mpsc_one_def mq_slot_def)
  show ?thesis
    by (rule mpsc_more [OF mpsc_more [OF mpsc_more [OF mpsc_more [OF mpsc_more [OF assms mpsc_one_start] 1] 2] 3] 4])
qed

text \<open>
  The template admits a single slot, and there the sequence number of a full slot is the one of a free
  slot of the next lap: the second push overwrites the first value.
\<close>

lemma mpsc_one_slot_overwrites:
  "mpsc_reachable 1 [0] (mpsc_one 2 2 8 M_Idle R_Ready [7, 8] []) \<and>
   mpsc_step 1 (mpsc_one 2 2 8 M_Idle R_Ready [7, 8] []) (mpsc_one 2 2 8 M_Idle (R_Got 8) [7, 8] [])"
proof
  have "mpsc_sys_init 1 [0 :: nat] = mpsc_one 0 0 0 M_Idle R_Idle [] []"
    by (simp add: mpsc_sys_init_def mpsc_one_def mpsc_new_def fun_eq_iff)
  then have "mpsc_reachable 1 [0] (mpsc_one 0 0 0 M_Idle R_Idle [] [])" using mpsc_start [of 1 "[0 :: nat]"] by simp
  from mpsc_one_push [OF this, of 7] have "mpsc_reachable 1 [0] (mpsc_one 1 1 7 M_Idle R_Idle [7] [])" by simp
  from mpsc_one_push [OF this, of 8] have "mpsc_reachable 1 [0] (mpsc_one 2 2 8 M_Idle R_Idle [7, 8] [])" by simp
  moreover have "mpsc_step 1 (mpsc_one 2 2 8 M_Idle R_Idle [7, 8] []) (mpsc_one 2 2 8 M_Idle R_Ready [7, 8] [])"
    using pop_ready [of "mpsc_one 2 2 8 M_Idle R_Idle [7, 8] []" 1] by (simp add: mpsc_one_def mq_slot_def mq_diff_def i64_def)
  ultimately show "mpsc_reachable 1 [0] (mpsc_one 2 2 8 M_Idle R_Ready [7, 8] [])" by (rule mpsc_more)
  show "mpsc_step 1 (mpsc_one 2 2 8 M_Idle R_Ready [7, 8] []) (mpsc_one 2 2 8 M_Idle (R_Got 8) [7, 8] [])"
    using pop_read [of "mpsc_one 2 2 8 M_Idle R_Ready [7, 8] []" 1] by (simp add: mpsc_one_def mq_slot_def)
qed

end
