(* ===== verification/Text_Format.thy ===== *)
theory Text_Format
  imports Bytes
begin

text \<open>
  Text as bytes: literals, and numbers in decimal as \<open>snprintf\<close> (\<^verbatim>\<open>fix_session.cpp\<close>) and \<open>std::to_chars\<close>
  (\<^verbatim>\<open>metrics.cpp\<close>, \<^verbatim>\<open>alerting.cpp\<close>) write them.
\<close>

definition MINUS :: u8 where "MINUS = 45"
definition ZERO :: u8 where "ZERO = 48"

definition ascii :: "string \<Rightarrow> bytes" where
  "ascii s = map of_char s"

fun nat_digits :: "nat \<Rightarrow> bytes" where
  "nat_digits n = (if n < 10 then [ZERO + of_nat n] else nat_digits (n div 10) @ [ZERO + of_nat (n mod 10)])"

declare nat_digits.simps [simp del]

definition int_digits :: "int \<Rightarrow> bytes" where
  "int_digits v = (if v < 0 then MINUS # nat_digits (nat (- v)) else nat_digits (nat v))"

subsection \<open>Digits\<close>

definition digit :: "u8 \<Rightarrow> bool" where
  "digit b \<longleftrightarrow> 48 \<le> unat b \<and> unat b \<le> 57"

lemma digit_byte: "d < 10 \<Longrightarrow> unat (ZERO + of_nat d) = 48 + d"
  by (simp add: ZERO_def unat_word_ariths unat_of_nat_u8 del: unsigned_of_nat)

lemma digit_of_nat: "d < 10 \<Longrightarrow> digit (ZERO + of_nat d)"
  by (simp add: digit_def digit_byte)

lemma nat_digits_digit: "b \<in> set (nat_digits n) \<Longrightarrow> digit b"
proof (induction n rule: nat_digits.induct)
  case (1 n)
  then show ?case by (auto simp: nat_digits.simps [of n] digit_of_nat split: if_splits)
qed

lemma nat_digits_nonempty [simp]: "nat_digits n \<noteq> []"
  by (simp add: nat_digits.simps)

lemma length_nat_digits: "n < 10 ^ k \<Longrightarrow> 0 < k \<Longrightarrow> length (nat_digits n) \<le> k"
proof (induction n arbitrary: k rule: nat_digits.induct)
  case (1 n)
  show ?case
  proof (cases "n < 10")
    case True
    then show ?thesis using 1 by (simp add: nat_digits.simps [of n])
  next
    case False
    with 1 obtain j where j: "k = Suc j" "0 < j" by (cases k; cases "k - 1") auto
    then have "n div 10 < 10 ^ j" using 1(2) by (simp add: less_mult_imp_div_less mult.commute)
    with 1(1) [OF False _ j(2)] False show ?thesis by (simp add: nat_digits.simps [of n] j)
  qed
qed

definition digits_value :: "bytes \<Rightarrow> nat" where
  "digits_value bs = fold (\<lambda>b r. r * 10 + (unat b - 48)) bs 0"

lemma digits_value_nat_digits [simp]: "digits_value (nat_digits n) = n"
proof (induction n rule: nat_digits.induct)
  case (1 n)
  then show ?case by (simp add: nat_digits.simps [of n] digits_value_def digit_byte)
qed

lemma nat_digits_inj: "nat_digits m = nat_digits n \<longleftrightarrow> m = n"
  by (metis digits_value_nat_digits)

end
