(* ===== verification/Fix_Codec.thy ===== *)
theory Fix_Codec
  imports Types Text_Format
begin

text \<open>
  The text codec of \<^verbatim>\<open>src/connectivity/fix_session.cpp\<close>: appending \<open>TAG=VALUE\<close> fields to a bounded
  buffer, finding a field and reading a number.  A buffer is the bytes written so far; a pointer to a
  value is the rest of the message from there.
\<close>

definition SOH :: u8 where "SOH = 1"
definition EQUALS :: u8 where "EQUALS = 61"

text \<open>The conversion \<open>%03u\<close> of \<open>snprintf\<close>.\<close>

definition three_digits :: "nat \<Rightarrow> bytes" where
  "three_digits n = [ZERO + of_nat (n div 100), ZERO + of_nat (n div 10 mod 10), ZERO + of_nat (n mod 10)]"

subsection \<open>Appending\<close>

definition fix_append_str :: "nat \<Rightarrow> bytes \<Rightarrow> bytes \<Rightarrow> bytes" where
  "fix_append_str cap v out = (if length out + length v \<ge> cap then out else out @ v)"

definition fix_append_int :: "nat \<Rightarrow> int \<Rightarrow> bytes \<Rightarrow> bytes" where
  "fix_append_int cap v out =
     (if length out \<ge> cap then out
      else let tmp = int_digits v in if length out + length tmp \<ge> cap then out else out @ tmp)"

definition put_byte :: "nat \<Rightarrow> u8 \<Rightarrow> bytes \<Rightarrow> bytes" where
  "put_byte cap b out = (if length out < cap then out @ [b] else out)"

definition fix_append_field :: "nat \<Rightarrow> nat \<Rightarrow> int \<Rightarrow> bytes \<Rightarrow> bytes" where
  "fix_append_field cap tag v out =
     put_byte cap SOH (fix_append_int cap v (put_byte cap EQUALS (fix_append_int cap (int tag) out)))"

definition fix_append_field_str :: "nat \<Rightarrow> nat \<Rightarrow> bytes \<Rightarrow> bytes \<Rightarrow> bytes" where
  "fix_append_field_str cap tag v out =
     put_byte cap SOH (fix_append_str cap v (put_byte cap EQUALS (fix_append_int cap (int tag) out)))"

subsection \<open>Reading\<close>

text \<open>The loop of \<open>fix_find_field\<close>: the first place where the prefix matches and a byte follows it.\<close>

fun find_prefix :: "bytes \<Rightarrow> bytes \<Rightarrow> bytes option" where
  "find_prefix p [] = None"
| "find_prefix p (b # bs) =
     (if length p < length (b # bs)
      then if take (length p) (b # bs) = p then Some (drop (length p) (b # bs)) else find_prefix p bs
      else None)"

definition fix_find_field :: "bytes \<Rightarrow> nat \<Rightarrow> bytes option" where
  "fix_find_field buf tag = find_prefix (SOH # nat_digits tag @ [EQUALS]) buf"

fun read_digits :: "int \<Rightarrow> bytes \<Rightarrow> int" where
  "read_digits r [] = r"
| "read_digits r (b # bs) =
     (if b = 0 \<or> b = SOH then r else read_digits (i64 (i64 (r * 10) + (uint b - 48))) bs)"

definition fix_read_int :: "bytes option \<Rightarrow> int" where
  "fix_read_int p = (case p of
       None \<Rightarrow> 0
     | Some bs \<Rightarrow> (if bs \<noteq> [] \<and> hd bs = MINUS then i64 (- read_digits 0 (tl bs)) else read_digits 0 bs))"

subsection \<open>Digits\<close>

lemma digit_not_special: "digit b \<Longrightarrow> b \<noteq> SOH \<and> b \<noteq> 0 \<and> b \<noteq> EQUALS \<and> b \<noteq> MINUS"
  by (auto simp: digit_def SOH_def EQUALS_def MINUS_def)

lemma read_digits_append:
  "(\<And>b. b \<in> set xs \<Longrightarrow> b \<noteq> 0 \<and> b \<noteq> SOH) \<Longrightarrow> read_digits r (xs @ ys) = read_digits (read_digits r xs) ys"
  by (induction xs arbitrary: r) auto

lemma uint_digit_byte: "d < 10 \<Longrightarrow> uint (ZERO + of_nat d :: u8) = 48 + int d"
  using digit_byte [of d] by (metis of_nat_add of_nat_numeral uint_nat)

lemma digit_terminators: "d < 10 \<Longrightarrow> ZERO + of_nat d \<noteq> 0 \<and> ZERO + of_nat d \<noteq> SOH"
  using digit_not_special [OF digit_of_nat] by blast

lemma read_nat_digits: "read_digits 0 (nat_digits n) = i64 (int n)"
proof (induction n rule: nat_digits.induct)
  case (1 n)
  show ?case
  proof (cases "n < 10")
    case True
    then show ?thesis
      using digit_terminators [OF True] by (simp add: nat_digits.simps [of n] uint_digit_byte)
  next
    case False
    have "read_digits 0 (nat_digits n) = read_digits (i64 (int (n div 10))) [ZERO + of_nat (n mod 10)]"
      using False 1 [OF False] digit_not_special [OF nat_digits_digit]
      by (subst nat_digits.simps) (simp add: read_digits_append del: read_digits.simps)
    also have "\<dots> = i64 (i64 (i64 (int (n div 10)) * 10) + int (n mod 10))"
      using digit_terminators [of "n mod 10"] by (simp add: uint_digit_byte)
    also have "\<dots> = i64 (int (n div 10) * 10 + int (n mod 10))" by (simp only: i64_add i64_mult)
    also have "int (n div 10) * 10 + int (n mod 10) = int n" by presburger
    finally show ?thesis .
  qed
qed

subsection \<open>Messages as lists of fields\<close>

type_synonym fix_fields = "(nat \<times> bytes) list"

definition field_text :: "nat \<Rightarrow> bytes \<Rightarrow> bytes" where
  "field_text tag v = nat_digits tag @ EQUALS # v @ [SOH]"

definition fix_text :: "fix_fields \<Rightarrow> bytes" where
  "fix_text fs = concat (map (\<lambda>(tag, v). field_text tag v) fs)"

definition fields_ok :: "fix_fields \<Rightarrow> bool" where
  "fields_ok fs \<longleftrightarrow> list_all (\<lambda>(tag, v). SOH \<notin> set v) fs"

lemma fix_text_simps [simp]: "fix_text [] = []" "fix_text ((tag, v) # fs) = field_text tag v @ fix_text fs"
  "fix_text (fs @ gs) = fix_text fs @ fix_text gs"
  by (simp_all add: fix_text_def)

lemma fields_ok_simps [simp]: "fields_ok []" "fields_ok ((tag, v) # fs) \<longleftrightarrow> SOH \<notin> set v \<and> fields_ok fs"
  "fields_ok (fs @ gs) \<longleftrightarrow> fields_ok fs \<and> fields_ok gs"
  by (auto simp: fields_ok_def)

lemma fix_append_int_str: "fix_append_int cap v out = fix_append_str cap (int_digits v) out"
  by (simp add: fix_append_int_def fix_append_str_def Let_def)

lemma fix_append_field_eq: "fix_append_field cap tag v out = fix_append_field_str cap tag (int_digits v) out"
  by (simp add: fix_append_field_def fix_append_field_str_def fix_append_int_str)

text \<open>A field that fits is written whole.\<close>

lemma fix_append_field_str_fits:
  assumes "length out + length (field_text tag v) < cap"
  shows "fix_append_field_str cap tag v out = out @ field_text tag v"
proof -
  have "int_digits (int tag) = nat_digits tag" by (simp add: int_digits_def)
  then show ?thesis
    using assms by (simp add: fix_append_field_str_def fix_append_int_str fix_append_str_def put_byte_def field_text_def)
qed

lemma digit_bytes: "b \<in> set (nat_digits n) \<Longrightarrow> b \<noteq> SOH \<and> b \<noteq> EQUALS \<and> b \<noteq> MINUS \<and> b \<noteq> 0"
  using digit_not_special [OF nat_digits_digit] by blast

lemma special_bytes [simp]: "SOH \<noteq> EQUALS" "EQUALS \<noteq> SOH" "SOH \<noteq> MINUS" "MINUS \<noteq> SOH" "MINUS \<noteq> 0" "SOH \<noteq> 0"
  "MINUS \<noteq> EQUALS" "EQUALS \<noteq> 0"
  by (simp_all add: SOH_def EQUALS_def MINUS_def)

lemma int_digits_no_SOH [simp]: "SOH \<notin> set (int_digits v)" "SOH \<notin> set (nat_digits n)"
  using digit_bytes by (auto simp: int_digits_def)

text \<open>The tags are a prefix code: a field starts with the text of a tag only when it is that tag's.\<close>

lemma tag_prefix:
  assumes "take (length (nat_digits tag) + 1) (nat_digits t @ EQUALS # rest) = nat_digits tag @ [EQUALS]"
  shows "t = tag"
proof -
  have 1: "EQUALS \<notin> set (nat_digits t)" "EQUALS \<notin> set (nat_digits tag)" using digit_bytes by blast+
  from assms obtain ys where ys: "nat_digits t @ EQUALS # rest = nat_digits tag @ EQUALS # ys"
    by (metis append.assoc append_Cons append_Nil append_take_drop_id)
  have "takeWhile (\<lambda>b. b \<noteq> EQUALS) (nat_digits t @ EQUALS # rest) = nat_digits t"
    "takeWhile (\<lambda>b. b \<noteq> EQUALS) (nat_digits tag @ EQUALS # ys) = nat_digits tag"
    using 1 by (auto simp: takeWhile_append2 takeWhile_tail)
  then show ?thesis unfolding ys by (simp add: nat_digits_inj)
qed

lemma find_prefix_skip:
  assumes "SOH \<notin> set xs"
  shows "find_prefix (SOH # q) (xs @ ys) = find_prefix (SOH # q) ys"
  using assms
proof (induction xs)
  case (Cons x xs)
  have "find_prefix (SOH # q) zs = None" if "length zs \<le> Suc (length q)" for zs
    using that by (cases zs) simp_all
  then show ?case using Cons by auto
qed simp

fun field_rest :: "nat \<Rightarrow> fix_fields \<Rightarrow> bytes option" where
  "field_rest tag [] = None"
| "field_rest tag ((t, v) # fs) = (if t = tag then Some (v @ SOH # fix_text fs) else field_rest tag fs)"

lemma find_after_SOH:
  "fields_ok fs \<Longrightarrow> find_prefix (SOH # nat_digits tag @ [EQUALS]) (SOH # fix_text fs) = field_rest tag fs"
proof (induction fs)
  case Nil
  then show ?case by simp
next
  case (Cons f fs)
  obtain t v where f: "f = (t, v)" by force
  let ?q = "nat_digits tag @ [EQUALS]"
  let ?rest = "nat_digits t @ EQUALS # v @ SOH # fix_text fs"
  have body: "fix_text (f # fs) = ?rest" by (simp add: f field_text_def)
  show ?case
  proof (cases "t = tag")
    case True
    then show ?thesis by (simp add: f field_text_def)
  next
    case False
    then have "take (length ?q) ?rest \<noteq> ?q" using tag_prefix [of tag t "v @ SOH # fix_text fs"] by auto
    moreover have "find_prefix (SOH # ?q) ?rest = find_prefix (SOH # ?q) (SOH # fix_text fs)"
      using find_prefix_skip [of "nat_digits t @ EQUALS # v" ?q "SOH # fix_text fs"] Cons.prems digit_bytes
      by (auto simp: f)
    moreover have "find_prefix (SOH # ?q) zs = None" if "length zs \<le> Suc (length ?q)" for zs
      using that by (cases zs) simp_all
    ultimately show ?thesis using Cons False unfolding body by (auto simp: f)
  qed
qed

lemma find_field:
  assumes "fields_ok ((t, v) # fs)"
  shows "fix_find_field (fix_text ((t, v) # fs)) tag = field_rest tag fs"
proof -
  have "SOH \<notin> set (nat_digits t @ EQUALS # v)" using assms digit_bytes by auto
  from find_prefix_skip [OF this, of "nat_digits tag @ [EQUALS]" "SOH # fix_text fs"]
  show ?thesis using find_after_SOH [of fs tag] assms
    by (simp add: fix_find_field_def field_text_def del: find_prefix.simps)
qed

subsection \<open>Numbers\<close>

lemma read_digits_field: "SOH \<notin> set v \<Longrightarrow> read_digits r (v @ SOH # rest) = read_digits r v"
  by (induction v arbitrary: r) auto

lemma fix_read_int_field: "SOH \<notin> set v \<Longrightarrow> fix_read_int (Some (v @ SOH # rest)) = fix_read_int (Some v)"
  using read_digits_field [of v 0 rest] read_digits_field [of "tl v" 0 rest]
  by (cases v) (auto simp: fix_read_int_def)

lemma fix_read_int_digits: "fix_read_int (Some (int_digits v)) = i64 v"
proof -
  have "hd (nat_digits n) \<noteq> MINUS" for n using digit_bytes [OF hd_in_set] by simp
  then show ?thesis
    by (auto simp: fix_read_int_def int_digits_def read_nat_digits i64_simps)
qed

lemma fix_read_field:
  "fields_ok fs \<Longrightarrow> map_of fs tag = Some v \<Longrightarrow> fix_read_int (field_rest tag fs) = fix_read_int (Some v)"
  by (induction fs) (auto simp: fix_read_int_field split: if_splits)

lemma field_rest_None: "map_of fs tag = None \<Longrightarrow> field_rest tag fs = None"
  by (induction fs) (auto split: if_splits)

lemma field_rest_Some: "map_of fs tag = Some v \<Longrightarrow> \<exists>rest. field_rest tag fs = Some (v @ SOH # rest)"
  by (induction fs) (auto split: if_splits)

end
