(* ===== verification/Fix_Session.thy ===== *)
theory Fix_Session
  imports Fix_Codec
begin

text \<open>
  The session of \<^verbatim>\<open>src/connectivity/fix_session.cpp\<close>.  The socket is the environment: \<open>fx_accept\<close> says how
  many bytes each \<open>send\<close> takes, the receive loop is given what each \<open>recv\<close> delivers, and the clock is
  a stream of readings.  Callbacks append to a log.
\<close>

datatype fix_version = FIX42 | FIX44
datatype fix_state = NOT_CONNECTED | LOGGING_ON | ACTIVE | LOGGING_OUT
datatype fix_event = Fix_ack OrderAck | Fix_fill FillEvent

record fix_session =
  fx_sender :: bytes
  fx_target :: bytes
  fx_version :: fix_version
  fx_open :: bool
  fx_seq :: u32
  fx_state :: fix_state
  fx_last_rtt_ns :: u64
  fx_last_heartbeat :: u64
  fx_has_ack_cb :: bool
  fx_has_fill_cb :: bool
  fx_log :: "fix_event list"
  fx_wire :: bytes
  fx_accept :: "nat \<Rightarrow> nat"
  fx_writes :: nat
  fx_clock :: "nat \<Rightarrow> u64"
  fx_readings :: nat

definition HEARTBEAT_INTERVAL_S :: int where "HEARTBEAT_INTERVAL_S = 30"

definition fix_new :: "bytes \<Rightarrow> bytes \<Rightarrow> fix_version \<Rightarrow> bool \<Rightarrow> bool \<Rightarrow> (nat \<Rightarrow> nat) \<Rightarrow> (nat \<Rightarrow> u64) \<Rightarrow> fix_session" where
  "fix_new sender tgt version ack_cb fill_cb accept clock =
     \<lparr>fx_sender = sender, fx_target = tgt, fx_version = version, fx_open = False, fx_seq = 1,
      fx_state = NOT_CONNECTED, fx_last_rtt_ns = 0, fx_last_heartbeat = 0,
      fx_has_ack_cb = ack_cb, fx_has_fill_cb = fill_cb, fx_log = [],
      fx_wire = [], fx_accept = accept, fx_writes = 0, fx_clock = clock, fx_readings = 0\<rparr>"

subsection \<open>Encoding\<close>

definition write_header :: "nat \<Rightarrow> u8 \<Rightarrow> fix_session \<Rightarrow> bytes \<times> fix_session" where
  "write_header cap msg_type s =
     (let ver = (if fx_version s = FIX44 then ascii ''FIX.4.4'' else ascii ''FIX.4.2'');
          out1 = fix_append_field_str cap 8 ver [];
          out2 = fix_append_field_str cap 9 (ascii ''000000'') out1;
          out3 = out2[length out2 - 7 := 0];
          out4 = fix_append_field_str cap 35 [msg_type] out3;
          out5 = fix_append_field_str cap 49 (fx_sender s) out4;
          out6 = fix_append_field_str cap 56 (fx_target s) out5;
          out7 = fix_append_field cap 34 (uint (fx_seq s)) out6
      in (out7, s\<lparr>fx_seq := fx_seq s + 1\<rparr>))"

definition fix_checksum :: "bytes \<Rightarrow> bytes" where
  "fix_checksum out = three_digits (unat (fold (\<lambda>b acc. acc + ucast b) out (0 :: u32) mod 256))"

definition finalize :: "nat \<Rightarrow> bytes \<Rightarrow> bytes" where
  "finalize cap out = fix_append_field_str cap 10 (fix_checksum out) out"

definition transact_time :: bytes where "transact_time = ascii ''20260101-00:00:00''"

definition encode_logon :: "nat \<Rightarrow> fix_session \<Rightarrow> bytes \<times> fix_session" where
  "encode_logon cap s =
     (let (out, s1) = write_header cap 65 s;
          out1 = fix_append_field cap 98 0 out;
          out2 = fix_append_field cap 108 HEARTBEAT_INTERVAL_S out1
      in (finalize cap out2, s1))"

definition encode_logout :: "nat \<Rightarrow> fix_session \<Rightarrow> bytes \<times> fix_session" where
  "encode_logout cap s = (let (out, s1) = write_header cap 53 s in (finalize cap out, s1))"

definition encode_heartbeat :: "nat \<Rightarrow> bytes option \<Rightarrow> fix_session \<Rightarrow> bytes \<times> fix_session" where
  "encode_heartbeat cap test_req_id s =
     (let (out, s1) = write_header cap 48 s;
          out1 = (case test_req_id of None \<Rightarrow> out | Some ident \<Rightarrow> fix_append_field_str cap 112 ident out)
      in (finalize cap out1, s1))"

definition encode_new_order :: "nat \<Rightarrow> OrderRequest \<Rightarrow> fix_session \<Rightarrow> bytes \<times> fix_session" where
  "encode_new_order cap req s =
     (let (out, s1) = write_header cap 68 s;
          out1 = fix_append_field_str cap 11 (nat_digits (unat (req_strategy_ts_ns req))) out;
          out2 = fix_append_field cap 54 (if req_side req = BUY then 1 else 2) out1;
          out3 = fix_append_field cap 40 (if req_type req = MARKET then 1 else 2) out2;
          out4 = fix_append_field_str cap 55 (nat_digits (unat (req_instrument_id req))) out3;
          out5 = (if req_type req \<noteq> MARKET then fix_append_field cap 44 (req_price req) out4 else out4);
          out6 = fix_append_field cap 38 (req_qty req) out5;
          out7 = fix_append_field_str cap 60 transact_time out6
      in (finalize cap out7, s1))"

definition encode_cancel :: "nat \<Rightarrow> u64 \<Rightarrow> fix_session \<Rightarrow> bytes \<times> fix_session" where
  "encode_cancel cap orig_cloid s =
     (let (out, s1) = write_header cap 70 s; ident = nat_digits (unat orig_cloid);
          out1 = fix_append_field_str cap 41 ident out;
          out2 = fix_append_field_str cap 11 ident out1;
          out3 = fix_append_field_str cap 60 transact_time out2
      in (finalize cap out3, s1))"

definition encode_modify :: "nat \<Rightarrow> ModifyRequest \<Rightarrow> fix_session \<Rightarrow> bytes \<times> fix_session" where
  "encode_modify cap m s =
     (let (out, s1) = write_header cap 71 s; ident = nat_digits (unat (mod_client_order_id m));
          out1 = fix_append_field_str cap 41 ident out;
          out2 = fix_append_field_str cap 11 ident out1;
          out3 = fix_append_field cap 44 (mod_new_price m) out2;
          out4 = fix_append_field cap 38 (mod_new_qty m) out3;
          out5 = fix_append_field_str cap 60 transact_time out4
      in (finalize cap out5, s1))"

subsection \<open>Sending\<close>

definition send_raw :: "bytes \<Rightarrow> fix_session \<Rightarrow> fix_session \<times> bool" where
  "send_raw buf s =
     (if \<not> fx_open s \<or> buf = [] then (s, False)
      else let n = min (fx_accept s (fx_writes s)) (length buf)
           in (s\<lparr>fx_wire := fx_wire s @ take n buf, fx_writes := Suc (fx_writes s)\<rparr>, n = length buf))"

text \<open>\<open>established\<close>: the socket could be created, the host resolved and the connection made.\<close>

definition fix_connect :: "bool \<Rightarrow> fix_session \<Rightarrow> fix_session \<times> bool" where
  "fix_connect established s =
     (if \<not> established then (s\<lparr>fx_open := False\<rparr>, False)
      else let (buf, s1) = encode_logon 512 (s\<lparr>fx_open := True, fx_state := LOGGING_ON\<rparr>);
               (s2, ok) = send_raw buf s1
           in if \<not> ok then (s2\<lparr>fx_open := False, fx_state := NOT_CONNECTED\<rparr>, False)
              else (s2\<lparr>fx_state := ACTIVE\<rparr>, True))"

definition fix_disconnect :: "fix_session \<Rightarrow> fix_session" where
  "fix_disconnect s =
     (let s1 = (if fx_state s = ACTIVE
                then let (buf, s1) = encode_logout 256 s in (fst (send_raw buf s1))\<lparr>fx_state := LOGGING_OUT\<rparr>
                else s)
      in s1\<lparr>fx_open := False, fx_state := NOT_CONNECTED\<rparr>)"

definition fix_send_new_order :: "OrderRequest \<Rightarrow> fix_session \<Rightarrow> fix_session" where
  "fix_send_new_order req s = (let (buf, s1) = encode_new_order 512 req s in fst (send_raw buf s1))"

definition fix_send_cancel :: "u64 \<Rightarrow> fix_session \<Rightarrow> fix_session" where
  "fix_send_cancel cloid s = (let (buf, s1) = encode_cancel 256 cloid s in fst (send_raw buf s1))"

definition fix_send_modify :: "ModifyRequest \<Rightarrow> fix_session \<Rightarrow> fix_session" where
  "fix_send_modify m s = (let (buf, s1) = encode_modify 512 m s in fst (send_raw buf s1))"

definition fix_is_connected :: "fix_session \<Rightarrow> bool" where
  "fix_is_connected s \<longleftrightarrow> fx_state s = ACTIVE"

subsection \<open>Receiving\<close>

definition fix_now :: "fix_session \<Rightarrow> fix_session \<times> u64" where
  "fix_now s = (s\<lparr>fx_readings := Suc (fx_readings s)\<rparr>, fx_clock s (fx_readings s))"

definition handle_execution_report :: "bytes \<Rightarrow> fix_session \<Rightarrow> fix_session" where
  "handle_execution_report buf s =
     (case fix_find_field buf 150 of
        None \<Rightarrow> s
      | Some exec_type \<Rightarrow>
          let cloid = fix_read_int (fix_find_field buf 11); exchange_oid = fix_read_int (fix_find_field buf 37);
              et = hd exec_type in
          if et = 48 \<or> et = 56 then
            let (s1, now) = fix_now s;
                ack = \<lparr>ak_client_order_id = of_int cloid, ak_exchange_order_id = of_int exchange_oid,
                       ak_status = (if et = 48 then NEW else REJECTED), ak_ack_ts_ns = now\<rparr>
            in if fx_has_ack_cb s1 then s1\<lparr>fx_log := fx_log s1 @ [Fix_ack ack]\<rparr> else s1
          else if et = 49 \<or> et = 50 then
            let (s1, now) = fix_now s;
                fill = \<lparr>fe_client_order_id = of_int cloid, fe_exchange_order_id = of_int exchange_oid,
                        fe_instrument_id = of_int (fix_read_int (fix_find_field buf 55)),
                        fe_side = (if fix_read_int (fix_find_field buf 54) = 1 then BUY else SELL),
                        fe_fill_price = fix_read_int (fix_find_field buf 31),
                        fe_fill_qty = fix_read_int (fix_find_field buf 32),
                        fe_remaining_qty = fix_read_int (fix_find_field buf 151),
                        fe_fill_ts_ns = now\<rparr>
            in if fx_has_fill_cb s1 then s1\<lparr>fx_log := fx_log s1 @ [Fix_fill fill]\<rparr> else s1
          else s)"

definition handle_heartbeat :: "fix_session \<Rightarrow> fix_session" where
  "handle_heartbeat s =
     (let (s1, now) = fix_now s; last_ts = fx_last_heartbeat s1; s2 = s1\<lparr>fx_last_heartbeat := now\<rparr>
      in if last_ts > 0 then s2\<lparr>fx_last_rtt_ns := now - last_ts\<rparr> else s2)"

definition parse_message :: "bytes \<Rightarrow> fix_session \<Rightarrow> fix_session" where
  "parse_message buf s =
     (case fix_find_field buf 35 of
        None \<Rightarrow> s
      | Some p \<Rightarrow>
          let msg_type = hd p in
          if msg_type = 56 then handle_execution_report buf s
          else if msg_type = 48 then handle_heartbeat s
          else if msg_type = 65 then s\<lparr>fx_state := ACTIVE\<rparr>
          else if msg_type = 53 then s\<lparr>fx_state := NOT_CONNECTED\<rparr>
          else s)"

text \<open>
  The inner loop of \<open>run\<close>: \<open>before\<close> is the byte in front of the part not yet parsed, the last one of the
  segment before it or, at the start of the buffer, whatever memory holds there: for a segment of seven
  bytes the test of the code reads that byte.
\<close>

function fix_scan :: "u8 \<Rightarrow> bytes \<Rightarrow> fix_session \<Rightarrow> bytes \<times> fix_session" where
  "fix_scan before rest s =
     (let k = length (takeWhile (\<lambda>b. b \<noteq> SOH) rest) in
      if k = length rest then (rest, s)
      else let msg_len = k + 1; seg = take msg_len rest; byte_at = (\<lambda>i. (before # seg) ! i);
               s1 = (if msg_len \<ge> 7 \<and> byte_at (msg_len - 7) = 49 \<and> byte_at (msg_len - 6) = 48 \<and> byte_at (msg_len - 5) = 61
                     then parse_message seg s else s)
           in fix_scan SOH (drop msg_len rest) s1)"
  by pat_completeness auto
termination
  by (relation "measure (\<lambda>(before, rest, s). length rest)") (auto dest: le_neq_implies_less [OF length_takeWhile_le])

declare fix_scan.simps [simp del]

definition FIX_RBUF :: nat where "FIX_RBUF = 65536"

fun fix_run :: "u8 \<Rightarrow> nat list \<Rightarrow> bytes \<Rightarrow> bytes \<Rightarrow> fix_session \<Rightarrow> bytes \<times> bytes \<times> fix_session" where
  "fix_run stack [] stream rbuf s = (stream, rbuf, s)"
| "fix_run stack (n # ns) stream rbuf s =
     (if fx_state s = NOT_CONNECTED then (stream, rbuf, s)
      else let got_bytes = take (min n (FIX_RBUF - length rbuf - 1)) stream in
        if got_bytes = [] then (stream, rbuf, s\<lparr>fx_state := NOT_CONNECTED\<rparr>)
        else let (rbuf1, s1) = fix_scan stack (rbuf @ got_bytes) s
             in fix_run stack ns (drop (length got_bytes) stream) rbuf1 s1)"

subsection \<open>The receive loop\<close>

lemma fix_find_field_segment:
  assumes "SOH \<notin> set xs"
  shows "fix_find_field (xs @ [SOH]) tag = None"
  using find_prefix_skip [OF assms, of "nat_digits tag @ [EQUALS]" "[SOH]"] by (simp add: fix_find_field_def)

lemma parse_segment: "SOH \<notin> set xs \<Longrightarrow> parse_message (xs @ [SOH]) s = s"
  by (simp add: parse_message_def fix_find_field_segment)

lemma take_segment:
  assumes "length (takeWhile (\<lambda>b. b \<noteq> x) bs) \<noteq> length bs"
  shows "take (Suc (length (takeWhile (\<lambda>b. b \<noteq> x) bs))) bs = takeWhile (\<lambda>b. b \<noteq> x) bs @ [x]"
  using assms by (induction bs) auto

lemma fix_scan_state: "snd (fix_scan before rest s) = s"
proof (induction before rest s rule: fix_scan.induct)
  case (1 before rest s)
  let ?xs = "takeWhile (\<lambda>b. b \<noteq> SOH) rest"
  show ?case
  proof (cases "length ?xs = length rest")
    case True
    then show ?thesis by (simp add: fix_scan.simps [of before rest s])
  next
    case False
    have "SOH \<notin> set ?xs" by (auto dest: set_takeWhileD)
    then have p: "parse_message (take (Suc (length ?xs)) rest) s = s" unfolding take_segment [OF False] by (rule parse_segment)
    show ?thesis
      using 1 [OF refl False refl refl refl refl] False p
      by (simp add: fix_scan.simps [of before rest s] Let_def cong: if_cong)
  qed
qed

text \<open>
  Claim C33. The receive loop of the FIX session never acts on anything it receives: it cuts the stream at
  every field separator, so the parser only ever sees a single field and finds no message type in it.
  Whatever arrives, in whatever pieces, no acknowledgement or fill is delivered, no heartbeat is measured,
  no logon or logout is noticed; only the end of the stream changes the state.
\<close>

theorem fix_run_never_dispatches:
  "snd (snd (fix_run stack ns stream rbuf s)) \<in> {s, s\<lparr>fx_state := NOT_CONNECTED\<rparr>}"
proof (induction ns arbitrary: stream rbuf)
  case Nil
  then show ?case by simp
next
  case (Cons n ns)
  let ?got = "take (min n (FIX_RBUF - length rbuf - 1)) stream"
  obtain rbuf1 s1 where sc: "fix_scan stack (rbuf @ ?got) s = (rbuf1, s1)" by force
  then have "s1 = s" using fix_scan_state [of stack "rbuf @ ?got" s] by simp
  then show ?case using Cons sc by (simp add: Let_def)
qed

lemma of_int_i64_words: "(of_int (i64 n) :: u64) = of_int n" "(of_int (i64 n) :: u32) = of_int n"
proof -
  have "i64 n mod 2 ^ 32 = i64 n mod 2 ^ 64 mod 2 ^ 32" "n mod 2 ^ 32 = n mod 2 ^ 64 mod 2 ^ 32"
    by (simp_all add: mod_mod_cancel)
  then have "i64 n mod 2 ^ 32 = n mod 2 ^ 32" by (simp only: i64_mod)
  then show "(of_int (i64 n) :: u64) = of_int n" "(of_int (i64 n) :: u32) = of_int n"
    using i64_mod [of n] by (simp_all add: word_of_int_eq_iff take_bit_eq_mod)
qed

subsection \<open>Execution reports\<close>

lemma hd_field: "map_of fs tag = Some (b # v) \<Longrightarrow> \<exists>rest. field_rest tag fs = Some (b # rest)"
  using field_rest_Some [of fs tag "b # v"] by auto

text \<open>
  A message in one piece is decoded whatever the order of its fields and whatever other fields
  it has: an execution report of a fill, complete or partial, reaches the fill callback with the
  identifiers, instrument, side, price and quantities that were printed into it.
\<close>

theorem execution_report_decoded:
  assumes "fields_ok (f # fs)" and "fx_has_fill_cb s"
    and "map_of fs 35 = Some [56]" and "map_of fs 150 = Some [et]" and "et = 49 \<or> et = 50"
    and "map_of fs 11 = Some (nat_digits (unat cl))" and "map_of fs 37 = Some (nat_digits (unat ex))"
    and "map_of fs 55 = Some (nat_digits (unat ident))" and "map_of fs 54 = Some (int_digits (if d = BUY then 1 else 2))"
    and "map_of fs 31 = Some (int_digits px)" and "map_of fs 32 = Some (int_digits q)" and "map_of fs 151 = Some (int_digits r)"
    and "in_i64 px" and "in_i64 q" and "in_i64 r"
  shows "fx_log (parse_message (fix_text (f # fs)) s) = fx_log s @ [Fix_fill
    \<lparr>fe_client_order_id = cl, fe_exchange_order_id = ex, fe_instrument_id = ident, fe_side = d, fe_fill_price = px,
     fe_fill_qty = q, fe_remaining_qty = r, fe_fill_ts_ns = fx_clock s (fx_readings s)\<rparr>]"
proof -
  obtain t v where f: "f = (t, v)" by force
  have ok: "fields_ok fs" using assms(1) by (simp add: f)
  have find: "fix_find_field (fix_text (f # fs)) tag = field_rest tag fs" for tag
    using find_field [of t v fs tag] assms(1) by (simp add: f)
  have nat: "nat_digits n = int_digits (int n)" for n by (simp add: int_digits_def)
  have num: "fix_read_int (field_rest tag fs) = i64 n" if "map_of fs tag = Some (int_digits n)" for tag n
    using fix_read_field [OF ok that] by (simp add: fix_read_int_digits)
  obtain p35 p150 where p: "field_rest 35 fs = Some (56 # p35)" "field_rest 150 fs = Some (et # p150)"
    using hd_field [OF assms(3)] hd_field [OF assms(4)] by blast
  note w = of_int_i64_words
  have d: "fix_read_int (field_rest 54 fs) = (if d = BUY then 1 else 2)"
    using num [OF assms(9)] by (simp add: i64_id in_i64_def split: if_splits)
  show ?thesis
    using assms(2,5) num [OF assms(6) [unfolded nat]] num [OF assms(7) [unfolded nat]] num [OF assms(8) [unfolded nat]]
      num [OF assms(10)] num [OF assms(11)] num [OF assms(12)] d assms(13-15)
    by (cases d) (auto simp: parse_message_def handle_execution_report_def find p w i64_id fix_now_def Let_def)
qed

definition sample_fix :: fix_session where
  "sample_fix = fix_new (ascii ''ME'') (ascii ''EX'') FIX44 True True (\<lambda>_. 4096) (\<lambda>n. of_nat n)"

definition sample_report :: fix_fields where
  "sample_report = [(9, ascii ''99''), (35, [56]), (54, int_digits 2), (11, nat_digits 42), (37, nat_digits 7), (150, [50]),
     (55, nat_digits 3), (31, int_digits (- 15)), (32, int_digits 10), (151, int_digits 0)]"

lemma execution_report_decoded_witness:
  "fx_log (parse_message (fix_text ((8, ascii ''FIX.4.4'') # sample_report)) sample_fix) = [Fix_fill
    \<lparr>fe_client_order_id = 42, fe_exchange_order_id = 7, fe_instrument_id = 3, fe_side = SELL, fe_fill_price = - 15,
     fe_fill_qty = 10, fe_remaining_qty = 0, fe_fill_ts_ns = 0\<rparr>]"
proof -
  have ok: "fields_ok ((8, ascii ''FIX.4.4'') # sample_report)"
    by (simp add: sample_report_def) (simp add: ascii_def SOH_def)
  have cb: "fx_has_fill_cb sample_fix" by (simp add: sample_fix_def fix_new_def)
  have "in_i64 (- 15)" "in_i64 10" "in_i64 0" by (simp_all add: in_i64_def)
  from execution_report_decoded [OF ok cb, where et = 50 and cl = 42 and ex = 7 and ident = 3 and d = SELL, OF _ _ _ _ _ _ _ _ _ _ this]
  show ?thesis by (simp add: sample_report_def sample_fix_def fix_new_def)
qed

subsection \<open>Requests on the wire\<close>

definition fix_size :: "fix_fields \<Rightarrow> nat" where
  "fix_size fs = (\<Sum>(tag, v)\<leftarrow>fs. 4 + length v)"

definition small_tags :: "fix_fields \<Rightarrow> bool" where
  "small_tags fs \<longleftrightarrow> list_all (\<lambda>(tag, v). tag < 100) fs"

lemma fix_size_simps [simp]: "fix_size [] = 0" "fix_size ((t, v) # fs) = 4 + length v + fix_size fs"
  "fix_size (fs @ gs) = fix_size fs + fix_size gs"
  by (simp_all add: fix_size_def)

lemma small_tags_simps [simp]: "small_tags []" "small_tags ((t, v) # fs) \<longleftrightarrow> t < 100 \<and> small_tags fs"
  "small_tags (fs @ gs) \<longleftrightarrow> small_tags fs \<and> small_tags gs"
  by (simp_all add: small_tags_def)

lemma length_field_text: "tag < 100 \<Longrightarrow> length (field_text tag v) \<le> 4 + length v"
  using length_nat_digits [of tag 2] by (simp add: field_text_def)

lemma length_fix_text: "small_tags fs \<Longrightarrow> length (fix_text fs) \<le> fix_size fs"
proof (induction fs)
  case (Cons f fs)
  then show ?case using length_field_text [of "fst f" "snd f"] by (cases f) simp
qed simp

lemma append_fields:
  "small_tags (fs @ gs) \<Longrightarrow> fix_size (fs @ gs) < cap \<Longrightarrow>
   fold (\<lambda>(t, v). fix_append_field_str cap t v) gs (fix_text fs) = fix_text (fs @ gs)"
proof (induction gs arbitrary: fs)
  case (Cons g gs)
  obtain t v where g: "g = (t, v)" by force
  have "length (fix_text fs) \<le> fix_size fs" "length (field_text t v) \<le> 4 + length v"
    using Cons.prems length_fix_text length_field_text by (simp_all add: g)
  then have "fix_append_field_str cap t v (fix_text fs) = fix_text (fs @ [(t, v)])"
    using Cons.prems by (simp add: g fix_append_field_str_fits)
  then show ?case using Cons.IH [of "fs @ [(t, v)]"] Cons.prems by (simp add: g)
qed simp

definition header_fields :: "u8 \<Rightarrow> fix_session \<Rightarrow> fix_fields" where
  "header_fields msg_type s =
     [(8, if fx_version s = FIX44 then ascii ''FIX.4.4'' else ascii ''FIX.4.2''), (9, 0 # ascii ''00000''), (35, [msg_type]),
      (49, fx_sender s), (56, fx_target s), (34, nat_digits (unat (fx_seq s)))]"

lemma body_length_mark:
  "(fix_text [(8, ascii ''FIX.4.4''), (9, ascii ''000000'')])[length (fix_text [(8, ascii ''FIX.4.4''), (9, ascii ''000000'')]) - 7 := 0]
     = fix_text [(8, ascii ''FIX.4.4''), (9, 0 # ascii ''00000'')]"
  "(fix_text [(8, ascii ''FIX.4.2''), (9, ascii ''000000'')])[length (fix_text [(8, ascii ''FIX.4.2''), (9, ascii ''000000'')]) - 7 := 0]
     = fix_text [(8, ascii ''FIX.4.2''), (9, 0 # ascii ''00000'')]"
  by (simp_all add: field_text_def nat_digits.simps ascii_def)

lemma length_ascii [simp]: "length (ascii s) = length s"
  by (simp add: ascii_def)

lemma unat_int_digits: "int_digits (uint x) = nat_digits (unat x)"
  by (simp add: int_digits_def)

lemma seq_digits: "length (nat_digits (unat (w :: u32))) \<le> 10" "length (nat_digits (unat (x :: u64))) \<le> 20"
proof -
  have "unat w < 2 ^ 32" using unsigned_less [of w] by simp
  then show "length (nat_digits (unat w)) \<le> 10" by (intro length_nat_digits) simp_all
  have "unat x < 2 ^ 64" by (rule unat_less_u64)
  then show "length (nat_digits (unat x)) \<le> 20" by (intro length_nat_digits) simp_all
qed

lemma write_header_fits:
  assumes "length (fx_sender s) + length (fx_target s) + 48 < cap"
  shows "write_header cap msg_type s = (fix_text (header_fields msg_type s), s\<lparr>fx_seq := fx_seq s + 1\<rparr>)"
proof -
  let ?ver = "if fx_version s = FIX44 then ascii ''FIX.4.4'' else ascii ''FIX.4.2''"
  let ?fs = "[(8, ?ver), (9, 0 # ascii ''00000'')]"
  let ?gs = "[(35, [msg_type]), (49, fx_sender s), (56, fx_target s), (34, nat_digits (unat (fx_seq s)))]"
  have 1: "fix_append_field_str cap 9 (ascii ''000000'') (fix_append_field_str cap 8 ?ver []) = fix_text [(8, ?ver), (9, ascii ''000000'')]"
    using append_fields [of "[]" "[(8, ?ver), (9, ascii ''000000'')]" cap] assms by simp
  have 2: "(fix_text [(8, ?ver), (9, ascii ''000000'')])[length (fix_text [(8, ?ver), (9, ascii ''000000'')]) - 7 := 0] = fix_text ?fs"
    using body_length_mark by (simp only: if_splits split: if_split) simp
  have 3: "fold (\<lambda>(t, v). fix_append_field_str cap t v) ?gs (fix_text ?fs) = fix_text (?fs @ ?gs)"
    using assms seq_digits(1) [of "fx_seq s"] by (intro append_fields) simp_all
  show ?thesis
    using 3 unfolding write_header_def Let_def 1 2 fix_append_field_eq unat_int_digits by (simp add: header_fields_def)
qed

lemma finalize_fits:
  assumes "small_tags fs" and "fix_size fs + 7 < cap"
  shows "finalize cap (fix_text fs) = fix_text (fs @ [(10, fix_checksum (fix_text fs))])"
proof -
  have "length (fix_checksum (fix_text fs)) = 3" by (simp add: fix_checksum_def three_digits_def)
  then show ?thesis
    using append_fields [of fs "[(10, fix_checksum (fix_text fs))]" cap] assms by (simp add: finalize_def)
qed

datatype fix_request = Req_new OrderRequest | Req_cancel u64 | Req_modify ModifyRequest

fun fix_send :: "fix_request \<Rightarrow> fix_session \<Rightarrow> fix_session" where
  "fix_send (Req_new r) s = fix_send_new_order r s"
| "fix_send (Req_cancel c) s = fix_send_cancel c s"
| "fix_send (Req_modify m) s = fix_send_modify m s"

fun request_type :: "fix_request \<Rightarrow> u8" where
  "request_type (Req_new r) = 68"
| "request_type (Req_cancel c) = 70"
| "request_type (Req_modify m) = 71"

text \<open>The numbers a receiver should read from the message of a request.\<close>

fun request_numbers :: "fix_request \<Rightarrow> (nat \<times> int) list" where
  "request_numbers (Req_new r) =
     [(11, int (unat (req_strategy_ts_ns r))), (54, if req_side r = BUY then 1 else 2), (40, if req_type r = MARKET then 1 else 2),
      (55, int (unat (req_instrument_id r)))]
   @ (if req_type r \<noteq> MARKET then [(44, req_price r)] else []) @ [(38, req_qty r)]"
| "request_numbers (Req_cancel c) = [(41, int (unat c)), (11, int (unat c))]"
| "request_numbers (Req_modify m) =
     [(41, int (unat (mod_client_order_id m))), (11, int (unat (mod_client_order_id m))), (44, mod_new_price m), (38, mod_new_qty m)]"

definition request_fields :: "fix_request \<Rightarrow> fix_fields" where
  "request_fields r = map (\<lambda>(t, n). (t, int_digits n)) (request_numbers r) @ [(60, transact_time)]"

definition request_ok :: "fix_request \<Rightarrow> bool" where
  "request_ok r \<longleftrightarrow> list_all (\<lambda>(t, n). length (int_digits n) \<le> 20) (request_numbers r)"

definition names_ok :: "fix_session \<Rightarrow> bool" where
  "names_ok s \<longleftrightarrow> SOH \<notin> set (fx_sender s) \<and> SOH \<notin> set (fx_target s) \<and> length (fx_sender s) + length (fx_target s) \<le> 60"

definition fix_message :: "fix_session \<Rightarrow> fix_request \<Rightarrow> fix_fields" where
  "fix_message s r = (let fs = header_fields (request_type r) s @ request_fields r in fs @ [(10, fix_checksum (fix_text fs))])"

lemma int_digits_small: "n < 10 \<Longrightarrow> 0 \<le> n \<Longrightarrow> length (int_digits n) = 1"
  by (simp add: int_digits_def nat_digits.simps)

lemma request_sizes:
  "small_tags (header_fields ty s @ request_fields r)"
  "request_ok r \<Longrightarrow> names_ok s \<Longrightarrow> fix_size (header_fields ty s @ request_fields r) \<le> 248"
  "names_ok s \<Longrightarrow> r = Req_cancel c \<Longrightarrow> fix_size (header_fields ty s @ request_fields r) \<le> 180"
proof -
  show "small_tags (header_fields ty s @ request_fields r)"
    by (cases r) (simp_all add: header_fields_def request_fields_def)
  have t: "length transact_time = 17" by (simp add: transact_time_def)
  show "fix_size (header_fields ty s @ request_fields r) \<le> 248" if "request_ok r" "names_ok s"
    using that seq_digits(1) [of "fx_seq s"]
    by (cases r) (simp_all add: header_fields_def request_fields_def request_ok_def names_ok_def int_digits_small t split: if_splits)
  show "fix_size (header_fields ty s @ request_fields r) \<le> 180" if "names_ok s" "r = Req_cancel c"
    using that seq_digits(1) [of "fx_seq s"] seq_digits(2) [of c]
    by (simp add: header_fields_def request_fields_def names_ok_def t unat_int_digits)
qed

lemma encode_folds:
  "encode_new_order cap r s = (case write_header cap 68 s of (out, s1) \<Rightarrow>
     (finalize cap (fold (\<lambda>(t, v). fix_append_field_str cap t v) (request_fields (Req_new r)) out), s1))"
  "encode_cancel cap c s = (case write_header cap 70 s of (out, s1) \<Rightarrow>
     (finalize cap (fold (\<lambda>(t, v). fix_append_field_str cap t v) (request_fields (Req_cancel c)) out), s1))"
  "encode_modify cap m s = (case write_header cap 71 s of (out, s1) \<Rightarrow>
     (finalize cap (fold (\<lambda>(t, v). fix_append_field_str cap t v) (request_fields (Req_modify m)) out), s1))"
  by (simp_all add: encode_new_order_def encode_cancel_def encode_modify_def request_fields_def fix_append_field_eq Let_def
    case_prod_beta unat_int_digits [symmetric])

lemma encode_body:
  assumes "names_ok s" and "fix_size (header_fields (request_type r) s @ request_fields r) + 7 < cap"
  shows "(case write_header cap (request_type r) s of (out, s1) \<Rightarrow>
     (finalize cap (fold (\<lambda>(t, v). fix_append_field_str cap t v) (request_fields r) out), s1)) =
     (fix_text (fix_message s r), s\<lparr>fx_seq := fx_seq s + 1\<rparr>)"
proof -
  let ?h = "header_fields (request_type r) s"
  have cap: "length (fx_sender s) + length (fx_target s) + 48 < cap"
    using assms(2) by (cases r) (simp_all add: header_fields_def request_fields_def transact_time_def)
  have "fold (\<lambda>(t, v). fix_append_field_str cap t v) (request_fields r) (fix_text ?h) = fix_text (?h @ request_fields r)"
    using assms(2) by (intro append_fields request_sizes(1)) simp
  then show ?thesis
    using finalize_fits [OF request_sizes(1) assms(2)] by (simp add: write_header_fits [OF cap] fix_message_def Let_def)
qed

lemma checksum_fold:
  "unat (fold (\<lambda>b acc. acc + ucast b) (out :: bytes) (a :: u32) mod 256) = (unat a + (\<Sum>b\<leftarrow>out. unat b)) mod 256"
proof (induction out arbitrary: a)
  case Nil
  then show ?case by (simp add: unat_mod)
next
  case (Cons b out)
  have "unat b < 2 ^ 32" using unat_u8_less [of b] by simp
  then have "unat (ucast b :: u32) = unat b" by (simp add: unsigned_ucast_eq take_bit_nat_eq_self)
  then have "unat (a + ucast b) = (unat a + unat b) mod 2 ^ 32" by (simp add: unat_word_ariths)
  moreover have "(x mod 2 ^ 32 + y) mod 256 = (x + y) mod (256 :: nat)" for x y
  proof -
    have "(x mod 2 ^ 32 + y) mod 256 = (x mod 2 ^ 32 mod 256 + y) mod 256" by (simp only: mod_add_left_eq)
    also have "x mod 2 ^ 32 mod 256 = x mod 256" by (rule mod_mod_cancel) simp
    finally show ?thesis by (simp only: mod_add_left_eq)
  qed
  ultimately show ?case using Cons.IH [of "a + ucast b"] by (simp add: add.assoc)
qed

lemma fix_checksum_eq: "fix_checksum out = three_digits ((\<Sum>b\<leftarrow>out. unat b) mod 256)"
  using checksum_fold [of out 0] by (simp add: fix_checksum_def)

lemma fix_send_sends:
  assumes "names_ok s" and "request_ok r" and "fx_open s" and "512 \<le> fx_accept s (fx_writes s)"
  shows "fx_wire (fix_send r s) = fx_wire s @ fix_text (fix_message s r) \<and> fx_seq (fix_send r s) = fx_seq s + 1"
proof -
  let ?m = "fix_text (fix_message s r)"
  let ?body = "header_fields (request_type r) s @ request_fields r"
  note size = request_sizes(2) [OF assms(2,1), of "request_type r"]
  have fits: "fix_size ?body + 7 < 512" using size by simp
  have "fix_size ?body + 7 < 256" if "r = Req_cancel c" for c
    using request_sizes(3) [OF assms(1) that, of "request_type r"] by simp
  then have enc: "fix_send r s = fst (send_raw ?m (s\<lparr>fx_seq := fx_seq s + 1\<rparr>))"
    using encode_body [OF assms(1), of r 512] encode_body [OF assms(1), of r 256] fits
    by (cases r) (simp_all add: fix_send_new_order_def fix_send_cancel_def fix_send_modify_def encode_folds)
  have "small_tags (fix_message s r)" "fix_size (fix_message s r) < 512"
    using request_sizes(1) fits by (simp_all add: fix_message_def fix_checksum_def three_digits_def Let_def)
  then have "length ?m < 512" using length_fix_text [of "fix_message s r"] by simp
  then have "take (min (fx_accept s (fx_writes s)) (length ?m)) ?m = ?m" using assms(4) by simp
  moreover have "?m \<noteq> []" by (simp add: fix_message_def header_fields_def field_text_def Let_def)
  ultimately show ?thesis using assms(3) by (simp add: enc send_raw_def Let_def)
qed

lemma SOH_literals: "SOH \<notin> set (ascii ''FIX.4.4'')" "SOH \<notin> set (ascii ''FIX.4.2'')" "SOH \<notin> set (ascii ''00000'')"
  "SOH \<notin> set transact_time" "SOH \<noteq> 68" "SOH \<noteq> 70" "SOH \<noteq> 71"
  by (simp_all add: SOH_def ascii_def transact_time_def)

lemma fields_ok_numbers: "fields_ok (map (\<lambda>(t, n). (t, int_digits n)) ns)"
  by (induction ns) auto

lemma fix_message_reads:
  assumes "names_ok s"
  shows "fields_ok (fix_message s r)"
    and "map_of (tl (header_fields (request_type r) s) @ gs) tag = Some v \<Longrightarrow>
      fix_message s r = hd (header_fields (request_type r) s) # tl (header_fields (request_type r) s) @ gs \<Longrightarrow>
      \<exists>rest. fix_find_field (fix_text (fix_message s r)) tag = Some (v @ SOH # rest) \<and> SOH \<notin> set v"
proof -
  have "SOH \<notin> set (fix_checksum b)" for b
  proof -
    define n where "n = (\<Sum>x\<leftarrow>b. unat x) mod 256"
    have "n < 256" by (simp add: n_def)
    then have "n div 100 < 10" "n div 10 mod 10 < 10" "n mod 10 < 10" by simp_all
    from this [THEN digit_terminators] show ?thesis
      by (auto simp: fix_checksum_eq n_def [symmetric] three_digits_def)
  qed
  then show ok: "fields_ok (fix_message s r)"
    using assms
    by (cases r) (simp_all add: fix_message_def header_fields_def request_fields_def names_ok_def fields_ok_numbers
      SOH_literals Let_def)
  show "\<exists>rest. fix_find_field (fix_text (fix_message s r)) tag = Some (v @ SOH # rest) \<and> SOH \<notin> set v"
    if "map_of (tl (header_fields (request_type r) s) @ gs) tag = Some v"
      "fix_message s r = hd (header_fields (request_type r) s) # tl (header_fields (request_type r) s) @ gs"
  proof -
    obtain t w where h: "hd (header_fields (request_type r) s) = (t, w)" by force
    let ?fs = "tl (header_fields (request_type r) s) @ gs"
    have "fix_find_field (fix_text (fix_message s r)) tag = field_rest tag ?fs"
      using find_field [of t w ?fs tag] ok unfolding that(2) h by simp
    moreover have "SOH \<notin> set v" using ok map_of_SomeD [OF that(1)] unfolding that(2) by (auto simp: fields_ok_def list_all_iff)
    ultimately show ?thesis using field_rest_Some [OF that(1)] by auto
  qed
qed

definition tail_fields :: "fix_session \<Rightarrow> fix_request \<Rightarrow> fix_fields" where
  "tail_fields s r = tl (header_fields (request_type r) s) @ request_fields r
     @ [(10, fix_checksum (fix_text (header_fields (request_type r) s @ request_fields r)))]"

lemma tail_fields_lookup:
  "map_of (tail_fields s r) 35 = Some [request_type r]"
  "map_of (tail_fields s r) 9 = Some (0 # ascii ''00000'')"
  "map_of (tail_fields s r) 34 = Some (int_digits (int (unat (fx_seq s))))"
  "(t, n) \<in> set (request_numbers r) \<Longrightarrow> map_of (tail_fields s r) t = Some (int_digits n)"
  by (simp_all add: tail_fields_def header_fields_def unat_int_digits)
    (cases r; auto simp: request_fields_def unat_int_digits split: if_splits)

lemma message_field:
  assumes "names_ok s" and "map_of (tail_fields s r) tag = Some v"
  shows "\<exists>rest. fix_find_field (fix_text (fix_message s r)) tag = Some (v @ SOH # rest) \<and> SOH \<notin> set v"
  using fix_message_reads(2) [OF assms(1), of r "request_fields r @ [(10, fix_checksum (fix_text (header_fields (request_type r) s @ request_fields r)))]" tag v]
    assms(2)
  by (simp add: tail_fields_def fix_message_def header_fields_def Let_def)

lemma message_number:
  assumes "names_ok s" and "map_of (tail_fields s r) tag = Some (int_digits n)"
  shows "fix_read_int (fix_find_field (fix_text (fix_message s r)) tag) = i64 n"
  using message_field [OF assms] by (auto simp: fix_read_int_field fix_read_int_digits)

text \<open>
  Claim C32. A request on the wire: with comp ids of at most sixty bytes in all and none of them the field
  separator, a new order, a cancel and a modification each fit their buffer and put exactly one message on
  the wire, from which the session's own reader gets back the sequence number and every number of the
  request; the sequence number advances, the last field is the checksum of the bytes before it, and the
  body length reads as zero, whatever the message.
\<close>

theorem fix_requests_on_the_wire:
  assumes "names_ok s" and "request_ok r" and "fx_open s" and "512 \<le> fx_accept s (fx_writes s)"
  shows "fx_wire (fix_send r s) = fx_wire s @ fix_text (fix_message s r) \<and> fx_seq (fix_send r s) = fx_seq s + 1
    \<and> list_all (\<lambda>(t, n). fix_read_int (fix_find_field (fix_text (fix_message s r)) t) = i64 n)
        ((34, int (unat (fx_seq s))) # request_numbers r)
    \<and> map_option hd (fix_find_field (fix_text (fix_message s r)) 35) = Some (request_type r)
    \<and> (\<exists>fs. fix_message s r = fs @ [(10, three_digits ((\<Sum>b\<leftarrow>fix_text fs. unat b) mod 256))])
    \<and> fix_read_int (fix_find_field (fix_text (fix_message s r)) 9) = 0"
proof (intro conjI)
  show "fx_wire (fix_send r s) = fx_wire s @ fix_text (fix_message s r)" "fx_seq (fix_send r s) = fx_seq s + 1"
    using fix_send_sends [OF assms] by simp_all
  show "list_all (\<lambda>(t, n). fix_read_int (fix_find_field (fix_text (fix_message s r)) t) = i64 n)
        ((34, int (unat (fx_seq s))) # request_numbers r)"
    using message_number [OF assms(1) tail_fields_lookup(3)] message_number [OF assms(1) tail_fields_lookup(4)]
    by (auto simp: list_all_iff)
  show "map_option hd (fix_find_field (fix_text (fix_message s r)) 35) = Some (request_type r)"
    using message_field [OF assms(1) tail_fields_lookup(1), of r] by auto
  show "\<exists>fs. fix_message s r = fs @ [(10, three_digits ((\<Sum>b\<leftarrow>fix_text fs. unat b) mod 256))]"
    by (auto simp: fix_message_def fix_checksum_eq Let_def)
  show "fix_read_int (fix_find_field (fix_text (fix_message s r)) 9) = 0"
    using message_field [OF assms(1) tail_fields_lookup(2), of r] by (auto simp: fix_read_int_def)
qed

lemma fix_requests_on_the_wire_witness:
  "fix_read_int (fix_find_field (fx_wire (fix_send (Req_new (req0\<lparr>req_qty := 25, req_price := - 3\<rparr>)) (sample_fix\<lparr>fx_open := True\<rparr>))) 38) = 25"
proof -
  let ?s = "sample_fix\<lparr>fx_open := True\<rparr>" and ?r = "Req_new (req0\<lparr>req_qty := 25, req_price := - 3\<rparr>)"
  have "names_ok ?s" by (simp add: names_ok_def sample_fix_def fix_new_def) (simp add: ascii_def SOH_def)
  moreover have "request_ok ?r" by (simp add: request_ok_def int_digits_def nat_digits.simps req0_def)
  moreover have "fx_open ?s" "512 \<le> fx_accept ?s (fx_writes ?s)" "fx_wire ?s = []" by (simp_all add: sample_fix_def fix_new_def)
  ultimately show ?thesis
    using fix_requests_on_the_wire [of ?s ?r] by (simp add: i64_id in_i64_def)
qed

end
