(* ===== verification/Recent.thy ===== *)
theory Recent
  imports Main
begin

text \<open>The last \<open>w\<close> elements of a list: what a bounded history keeps.\<close>

definition recent :: "nat \<Rightarrow> 'a list \<Rightarrow> 'a list" where
  "recent w xs = drop (length xs - w) xs"

lemma recent_snoc: "recent w (xs @ [x]) = (if w = 0 then [] else if length xs < w then xs @ [x] else tl (recent w xs) @ [x])"
  by (auto simp: recent_def Suc_diff_le drop_Suc tl_drop)

lemma recent_short: "length xs \<le> w \<Longrightarrow> recent w xs = xs"
  by (simp add: recent_def)

lemma length_recent [simp]: "length (recent w xs) = min w (length xs)"
  by (simp add: recent_def)

lemma recent_Nil_iff: "recent w xs = [] \<longleftrightarrow> w = 0 \<or> xs = []"
  by (cases xs) (auto simp: recent_def)

end
