(* ===== verification/Latency_Tracker.thy ===== *)
theory Latency_Tracker
  imports Types Recent Binary64 "HOL-Library.Multiset"
begin

text \<open>
  \<^verbatim>\<open>src/monitor/latency_tracker.cpp\<close>: the ring of the most recent latencies with its order
  statistics, and the scoped timer.  Calls of \<open>rdtsc_ns()\<close> are arguments.  A conversion of a
  \<open>double\<close> that C++ leaves undefined gives \<open>None\<close>.
\<close>

subsection \<open>The tracker\<close>

record latency_tracker =
  lt_name :: string
  lt_window :: nat
  lt_samples :: "u64 list"
  lt_count :: u64

definition lt_new :: "string \<Rightarrow> nat \<Rightarrow> latency_tracker" where
  "lt_new name window = (let w = (if window > 0 then window else 1) in
     \<lparr>lt_name = name, lt_window = w, lt_samples = replicate w 0, lt_count = 0\<rparr>)"

definition lt_record :: "u64 \<Rightarrow> latency_tracker \<Rightarrow> latency_tracker" where
  "lt_record v t = (let idx = unat (lt_count t) mod lt_window t in
     t\<lparr>lt_count := lt_count t + 1, lt_samples := (lt_samples t)[idx := v]\<rparr>)"

definition lt_valid :: "latency_tracker \<Rightarrow> nat" where
  "lt_valid t = (if unat (lt_count t) < lt_window t then unat (lt_count t) else lt_window t)"

fun double_to_size :: "b64 \<Rightarrow> nat option" where
  "double_to_size (Fin x) = (if 0 \<le> rat_trunc x \<and> rat_trunc x < 2 ^ 64 then Some (nat (rat_trunc x)) else None)"
| "double_to_size b = None"

definition clamp_unit :: "b64 \<Rightarrow> b64" where
  "clamp_unit p = (if b64_less p (Fin 0) then Fin 0 else if b64_less (Fin 1) p then Fin 1 else p)"

definition rank_index :: "b64 \<Rightarrow> nat \<Rightarrow> nat option" where
  "rank_index p n = double_to_size (b64_add (b64_mult (clamp_unit p) (b64_of_int (int (n - 1)))) (Fin (1 / 2)))"

definition lt_percentile :: "b64 \<Rightarrow> latency_tracker \<Rightarrow> u64 option" where
  "lt_percentile p t = (let n = lt_valid t in
     if n = 0 then Some 0
     else let tmp = sort (take n (lt_samples t)) in
       map_option (\<lambda>idx. tmp ! (if idx < n then idx else n - 1)) (rank_index p n))"

definition lt_min_ns :: "latency_tracker \<Rightarrow> u64" where
  "lt_min_ns t = (let n = lt_valid t; xs = take n (lt_samples t) in
     if n = 0 then 0 else fold min (tl xs) (hd xs))"

definition lt_max_ns :: "latency_tracker \<Rightarrow> u64" where
  "lt_max_ns t = (let n = lt_valid t; xs = take n (lt_samples t) in
     if n = 0 then 0 else fold max (tl xs) (hd xs))"

definition lt_mean_ns :: "latency_tracker \<Rightarrow> b64" where
  "lt_mean_ns t = (let n = lt_valid t in
     if n = 0 then Fin 0
     else b64_div (b64_of_int (uint (fold (\<lambda>x acc. acc + x) (take n (lt_samples t)) 0))) (b64_of_int (int n)))"

definition lt_reset :: "latency_tracker \<Rightarrow> latency_tracker" where
  "lt_reset t = t\<lparr>lt_count := 0, lt_samples := replicate (length (lt_samples t)) 0\<rparr>"

text \<open>The destructor of \<open>ScopedLatency\<close>: \<open>t0\<close> was read by the constructor.\<close>

definition scoped_latency :: "u64 \<Rightarrow> u64 \<Rightarrow> latency_tracker \<Rightarrow> latency_tracker" where
  "scoped_latency t0 t1 t = (if t1 > t0 then lt_record (t1 - t0) t else lt_record 0 t)"

subsection \<open>What the ring holds\<close>

definition lt_run :: "u64 list \<Rightarrow> latency_tracker \<Rightarrow> latency_tracker" where
  "lt_run xs t = fold lt_record xs t"

definition ring_holds :: "nat \<Rightarrow> u64 list \<Rightarrow> u64 list \<Rightarrow> bool" where
  "ring_holds w xs b \<longleftrightarrow> length b = w \<and> (\<forall>j < length xs. length xs \<le> j + w \<longrightarrow> b ! (j mod w) = xs ! j)
     \<and> mset (take (min (length xs) w) b) = mset (recent w xs)"

lemma ring_holds_write:
  assumes "ring_holds w xs b" and "0 < w"
  shows "ring_holds w (xs @ [v]) (b[length xs mod w := v])"
proof -
  let ?n = "length xs" and ?b = "b[length xs mod w := v]"
  have len: "length b = w" and old: "\<And>j. j < ?n \<Longrightarrow> ?n \<le> j + w \<Longrightarrow> b ! (j mod w) = xs ! j"
    and m: "mset (take (min ?n w) b) = mset (recent w xs)" using assms(1) by (auto simp: ring_holds_def)
  have lt: "?n mod w < w" using assms(2) by simp
  have slots: "?b ! (j mod w) = (xs @ [v]) ! j" if "j < Suc ?n" "Suc ?n \<le> j + w" for j
  proof (cases "j = ?n")
    case True
    then show ?thesis using lt len by simp
  next
    case False
    then have j: "j < ?n" "?n \<le> j + w" "?n - j < w" using that by auto
    have "j mod w \<noteq> ?n mod w"
    proof
      assume "j mod w = ?n mod w"
      then have "w dvd ?n - j" using j(1) mod_eq_dvd_iff_nat [of j ?n w] by simp
      then show False using j dvd_imp_le [of w "?n - j"] by simp
    qed
    then show ?thesis using old [OF j(1,2)] j(1) by (simp add: nth_append)
  qed
  have "mset (take (min (Suc ?n) w) ?b) = mset (recent w (xs @ [v]))"
  proof (cases "?n < w")
    case True
    then have "take (Suc ?n) ?b = take ?n b @ [v]" using len by (simp add: take_Suc_conv_app_nth)
    then show ?thesis using True m by (simp add: recent_short min_def)
  next
    case False
    then have f: "recent w xs = xs ! (?n - w) # tl (recent w xs)" using assms(2)
      by (simp add: recent_def Cons_nth_drop_Suc tl_drop flip: drop_Suc)
    have "(?n - w) mod w = ?n mod w" using False by (metis le_mod_geq not_less)
    then have o: "b ! (?n mod w) = xs ! (?n - w)" using old [of "?n - w"] False assms(2) by simp
    have "mset ?b = add_mset v (mset b - {#b ! (?n mod w)#})" using lt len by (simp add: mset_update)
    also have "mset b = mset (recent w xs)" using m False len by (simp add: min_def)
    finally have "mset ?b = add_mset v (mset (tl (recent w xs)))"
      using o arg_cong [OF f, of mset] by simp
    then show ?thesis using False assms(2) len by (simp add: recent_snoc min_def)
  qed
  then show ?thesis using slots len by (auto simp: ring_holds_def)
qed

lemma lt_run_ring:
  assumes "0 < w" and "w < 2 ^ 64" and "length xs < 2 ^ 64"
  shows "lt_count (lt_run xs (lt_new name w)) = of_nat (length xs)
    \<and> lt_window (lt_run xs (lt_new name w)) = w \<and> lt_name (lt_run xs (lt_new name w)) = name
    \<and> ring_holds w xs (lt_samples (lt_run xs (lt_new name w)))"
  using assms(3)
proof (induction xs rule: rev_induct)
  case Nil
  then show ?case using assms(1) by (simp add: lt_run_def lt_new_def ring_holds_def recent_def)
next
  case (snoc v xs)
  have n: "length xs < 2 ^ 64" using snoc.prems by simp
  have "lt_run (xs @ [v]) (lt_new name w) = lt_record v (lt_run xs (lt_new name w))" by (simp add: lt_run_def)
  then show ?case using snoc.IH [OF n] ring_holds_write [OF _ assms(1), of xs _ v] unat_of_nat_u64 [OF n]
    by (simp add: lt_record_def add.commute)
qed

lemma lt_run_valid:
  assumes "0 < w" and "w < 2 ^ 64" and "length xs < 2 ^ 64"
  shows "lt_valid (lt_run xs (lt_new name w)) = min (length xs) w"
    and "mset (take (min (length xs) w) (lt_samples (lt_run xs (lt_new name w)))) = mset (recent w xs)"
  using lt_run_ring [OF assms, of name] unat_of_nat_u64 [OF assms(3)]
  by (auto simp: lt_valid_def ring_holds_def)

subsection \<open>The rank of a percentile\<close>

lemma representable_half: "\<bar>k\<bar> < 2 ^ 52 \<Longrightarrow> representable (of_int k + 1 / 2)"
  unfolding representable_def by (intro exI [of _ "2 * k + 1"] exI [of _ "-1"]) (simp add: field_simps)

definition rank_sum :: "rat \<Rightarrow> nat \<Rightarrow> rat" where
  "rank_sum r n = round_rat (round_rat (r * of_nat (n - 1)) + 1 / 2)"

lemma rank_sum_bounds:
  assumes "0 \<le> r" and "r \<le> 1" and "0 < n" and "n \<le> 2 ^ 52"
  defines "x \<equiv> r * of_nat (n - 1)"
  shows "of_int \<lfloor>x\<rfloor> \<le> rank_sum r n" and "rank_sum r n \<le> of_int \<lceil>x\<rceil> + 1 / 2"
    and "b64_round (r * of_nat (n - 1)) = Fin (round_rat (r * of_nat (n - 1)))"
    and "b64_round (round_rat (r * of_nat (n - 1)) + 1 / 2) = Fin (rank_sum r n)"
    and "0 \<le> \<lfloor>x\<rfloor>" and "\<lceil>x\<rceil> \<le> int (n - 1)"
proof -
  have x: "0 \<le> x" "x \<le> of_int (int (n - 1))"
    using assms(1,2) mult_right_mono [OF assms(2), of "of_nat (n - 1)"] by (simp_all add: x_def)
  then show f: "0 \<le> \<lfloor>x\<rfloor>" "\<lceil>x\<rceil> \<le> int (n - 1)" by (simp_all add: ceiling_le_iff)
  have "int n \<le> 2 ^ 52" using assms(4) by simp
  then have n: "int (n - 1) < 2 ^ 52" using assms(3) by linarith
  have c: "\<bar>\<lfloor>x\<rfloor>\<bar> < 2 ^ 52" "\<bar>\<lceil>x\<rceil>\<bar> < 2 ^ 52" using f n floor_le_ceiling [of x] by linarith+
  then have c': "\<bar>\<lfloor>x\<rfloor>\<bar> \<le> 2 ^ 53" "\<bar>\<lceil>x\<rceil>\<bar> \<le> 2 ^ 53" by simp_all
  have fx: "of_int \<lfloor>x\<rfloor> \<le> x" "x \<le> of_int \<lceil>x\<rceil>" by simp_all
  show "b64_round (r * of_nat (n - 1)) = Fin (round_rat (r * of_nat (n - 1)))"
    using b64_round_between [OF fx c'] by (simp add: x_def)
  note y = round_rat_between [OF fx c']
  have L: "representable (of_int \<lfloor>x\<rfloor>)" by (rule representable_of_int [OF c'(1)])
  have U: "representable (of_int \<lceil>x\<rceil> + 1 / 2)" by (rule representable_half [OF c(2)])
  have "(of_int \<lceil>x\<rceil> :: rat) \<le> of_int (2 ^ 52)" using c unfolding of_int_le_iff by linarith
  then have "of_int \<lceil>x\<rceil> + 1 / 2 \<le> (2 ^ 52 + 1 / 2 :: rat)" by simp
  also have "\<dots> < 2 ^ 53" by simp
  also note pow_1024
  finally have big2: "of_int \<lceil>x\<rceil> + 1 / 2 < (2 ^ 1024 :: rat)" .
  have "(0 :: rat) < 2 ^ 1024" "0 \<le> (of_int \<lfloor>x\<rfloor> :: rat)" using f by (simp_all only: zero_less_power of_int_0_le_iff zero_less_numeral)
  then have big1: "- (2 ^ 1024) < (of_int \<lfloor>x\<rfloor> :: rat)" by linarith
  have m: "of_int \<lfloor>x\<rfloor> \<le> round_rat x + 1 / 2" "round_rat x + 1 / 2 \<le> of_int \<lceil>x\<rceil> + 1 / 2" using y by simp_all
  note b = b64_round_bounded [OF L U m big1 big2]
  then show "of_int \<lfloor>x\<rfloor> \<le> rank_sum r n" "rank_sum r n \<le> of_int \<lceil>x\<rceil> + 1 / 2"
    "b64_round (round_rat (r * of_nat (n - 1)) + 1 / 2) = Fin (rank_sum r n)"
    by (simp_all add: rank_sum_def x_def)
qed

lemma rank_index_eq:
  assumes "0 \<le> r" and "r \<le> 1" and "0 < n" and "n \<le> 2 ^ 52"
  shows "rank_index (Fin r) n = Some (nat \<lfloor>rank_sum r n\<rfloor>)"
    and "\<lfloor>r * of_nat (n - 1)\<rfloor> \<le> \<lfloor>rank_sum r n\<rfloor>" and "\<lfloor>rank_sum r n\<rfloor> \<le> \<lceil>r * of_nat (n - 1)\<rceil>"
    and "nat \<lfloor>rank_sum r n\<rfloor> < n"
proof -
  note b = rank_sum_bounds [OF assms]
  show lo: "\<lfloor>r * of_nat (n - 1)\<rfloor> \<le> \<lfloor>rank_sum r n\<rfloor>" using b(1) by (simp add: le_floor_iff)
  show hi: "\<lfloor>rank_sum r n\<rfloor> \<le> \<lceil>r * of_nat (n - 1)\<rceil>" using b(2) by (simp add: floor_le_iff)
  show lt: "nat \<lfloor>rank_sum r n\<rfloor> < n" using hi b(6) assms(3) by linarith
  have pos: "0 \<le> rank_sum r n" using lo b(5) by linarith
  have "int n \<le> 2 ^ 52" using assms(4) by simp
  then have "int (n - 1) \<le> 2 ^ 53" by simp
  then have m: "b64_of_int (int (n - 1)) = Fin (of_nat (n - 1))" by (simp add: b64_of_int_exact)
  have "clamp_unit (Fin r) = Fin r" using assms(1,2) by (simp add: clamp_unit_def)
  moreover have tr: "rat_trunc (rank_sum r n) = \<lfloor>rank_sum r n\<rfloor>" using pos by (simp add: rat_trunc_def)
  moreover have "\<lfloor>rank_sum r n\<rfloor> < int n" using lt pos by linarith
  then have "\<lfloor>rank_sum r n\<rfloor> < 2 ^ 64" by (rule order_less_le_trans) (use assms(4) in simp)
  moreover have "0 \<le> \<lfloor>rank_sum r n\<rfloor>" using pos by simp
  ultimately show "rank_index (Fin r) n = Some (nat \<lfloor>rank_sum r n\<rfloor>)"
    using m b(3,4) by (simp only: rank_index_def b64_mult.simps b64_add.simps double_to_size.simps simp_thms if_True)
qed

lemma rank_sum_mono: "r \<le> r' \<Longrightarrow> rank_sum r n \<le> rank_sum r' n"
  unfolding rank_sum_def by (intro round_rat_mono add_right_mono mult_right_mono) simp_all

lemma rank_sum_ends: "n \<le> 2 ^ 52 \<Longrightarrow> \<lfloor>rank_sum 0 n\<rfloor> = 0" "0 < n \<Longrightarrow> n \<le> 2 ^ 52 \<Longrightarrow> nat \<lfloor>rank_sum 1 n\<rfloor> = n - 1"
proof -
  have "round_rat (1 / 2) = (1 / 2 :: rat)" using round_rat_exact [OF representable_half [of 0]] by simp
  then show "\<lfloor>rank_sum 0 n\<rfloor> = 0"
    unfolding rank_sum_def by (simp only: mult_zero_left round_rat_0 add_0) (simp add: floor_eq_iff)
  assume n: "0 < n" "n \<le> 2 ^ 52"
  from rank_index_eq(2-4) [OF _ _ n, of 1] show "nat \<lfloor>rank_sum 1 n\<rfloor> = n - 1" by simp
qed

subsection \<open>Order statistics of the recent samples\<close>

lemma fold_min_Min: "xs \<noteq> [] \<Longrightarrow> fold min (tl xs) (hd xs) = Min (set xs)"
  by (cases xs) (simp_all add: Min.set_eq_fold [symmetric])

lemma fold_max_Max: "xs \<noteq> [] \<Longrightarrow> fold max (tl xs) (hd xs) = Max (set xs)"
  by (cases xs) (simp_all add: Max.set_eq_fold [symmetric])

lemma sort_ends:
  fixes xs :: "'a :: linorder list"
  assumes "xs \<noteq> []"
  shows "sort xs ! 0 = Min (set xs)" and "sort xs ! (length xs - 1) = Max (set xs)"
proof -
  let ?s = "sort xs"
  have len: "0 < length ?s" using assms by simp
  have le: "?s ! 0 \<le> x \<and> x \<le> ?s ! (length xs - 1)" if "x \<in> set xs" for x
  proof -
    from that have "x \<in> set ?s" by simp
    then obtain i where i: "i < length ?s" "x = ?s ! i" unfolding in_set_conv_nth by blast
    then show ?thesis using sorted_nth_mono [of ?s 0 i] sorted_nth_mono [of ?s i "length xs - 1"] len by simp
  qed
  have "?s ! 0 \<in> set ?s" "?s ! (length xs - 1) \<in> set ?s" by (rule nth_mem, use len in simp)+
  then have mem: "?s ! 0 \<in> set xs" "?s ! (length xs - 1) \<in> set xs" by simp_all
  show "sort xs ! 0 = Min (set xs)" by (rule sym, rule Min_eqI) (use le mem in auto)
  show "sort xs ! (length xs - 1) = Max (set xs)" by (rule sym, rule Max_eqI) (use le mem in auto)
qed

lemma lt_percentile_rank:
  assumes "0 < w" and "w \<le> 2 ^ 52" and "length xs < 2 ^ 64" and "xs \<noteq> []" and "0 \<le> r" and "r \<le> 1"
  shows "lt_percentile (Fin r) (lt_run xs (lt_new name w)) =
    Some (sort (recent w xs) ! nat \<lfloor>rank_sum r (min (length xs) w)\<rfloor>)"
proof -
  define n where "n = min (length xs) w"
  have w: "w < 2 ^ 64" using assms(2) by (rule order_le_less_trans) simp
  note v = lt_run_valid [OF assms(1) w assms(3), of name, folded n_def]
  have n: "0 < n" "n \<le> 2 ^ 52" using assms(1,2,4) by (auto simp: n_def)
  have "sort (take n (lt_samples (lt_run xs (lt_new name w)))) = sort (recent w xs)"
    using v(2) by (metis sorted_list_of_multiset_mset)
  then show ?thesis
    using rank_index_eq(1,4) [OF assms(5,6) n] n(1) unfolding lt_percentile_def v(1) Let_def n_def [symmetric] by simp
qed

lemma lt_extremes:
  assumes "0 < w" and "w < 2 ^ 64" and "length xs < 2 ^ 64" and "xs \<noteq> []"
  shows "lt_min_ns (lt_run xs (lt_new name w)) = Min (set (recent w xs))"
    and "lt_max_ns (lt_run xs (lt_new name w)) = Max (set (recent w xs))"
proof -
  define n where "n = min (length xs) w"
  let ?ys = "take n (lt_samples (lt_run xs (lt_new name w)))"
  note v = lt_run_valid [OF assms(1-3), of name, folded n_def]
  have n: "n \<noteq> 0" using assms(1,4) by (auto simp: n_def)
  have set: "set ?ys = set (recent w xs)" using v(2) by (metis set_mset_mset)
  moreover have "recent w xs \<noteq> []" using assms(1,4) by (simp add: recent_Nil_iff)
  ultimately have ne: "?ys \<noteq> []" by (metis set_empty)
  show "lt_min_ns (lt_run xs (lt_new name w)) = Min (set (recent w xs))"
    using fold_min_Min [OF ne] n unfolding lt_min_ns_def v(1) Let_def n_def [symmetric] set by simp
  show "lt_max_ns (lt_run xs (lt_new name w)) = Max (set (recent w xs))"
    using fold_max_Max [OF ne] n unfolding lt_max_ns_def v(1) Let_def n_def [symmetric] set by simp
qed

text \<open>
  The latency report: after any samples the tracker answers from exactly the last
  \<open>window\<close> of them.  A percentile is the element of their sorted list whose rank is the floor or
  the ceiling of \<open>p (n - 1)\<close>, whatever the rounding of the \<open>double\<close> arithmetic, so it is never out of
  range and grows with \<open>p\<close>; at 0 and 1 it is the minimum and the maximum.
\<close>

theorem percentile_order_statistic:
  assumes "0 < w" and "w \<le> 2 ^ 52" and "length xs < 2 ^ 64" and "xs \<noteq> []"
    and "0 \<le> r" and "r \<le> r'" and "r' \<le> 1"
  shows "let t = lt_run xs (lt_new name w); s = sort (recent w xs); n = length s in
    (\<exists>i j. i \<le> j \<and> j < n \<and> lt_percentile (Fin r) t = Some (s ! i) \<and> lt_percentile (Fin r') t = Some (s ! j)
      \<and> s ! i \<le> s ! j \<and> \<lfloor>r * of_nat (n - 1)\<rfloor> \<le> int i \<and> int i \<le> \<lceil>r * of_nat (n - 1)\<rceil>)
    \<and> lt_percentile (Fin 0) t = Some (lt_min_ns t) \<and> lt_percentile (Fin 1) t = Some (lt_max_ns t)
    \<and> lt_min_ns t = s ! 0 \<and> lt_max_ns t = s ! (n - 1) \<and> lt_count t = of_nat (length xs)"
proof -
  define n where "n = min (length xs) w"
  have w: "w < 2 ^ 64" using assms(2) by (rule order_le_less_trans) simp
  have n: "0 < n" "n \<le> 2 ^ 52" using assms(1,2,4) by (auto simp: n_def)
  have len: "length (sort (recent w xs)) = n" by (simp add: n_def min.commute)
  have ne: "recent w xs \<noteq> []" using assms(1,4) by (simp add: recent_Nil_iff)
  note p = lt_percentile_rank [OF assms(1-4), of _ name, folded n_def]
  have r: "r \<le> 1" "0 \<le> r'" using assms(5-7) by linarith+
  have le: "nat \<lfloor>rank_sum r n\<rfloor> \<le> nat \<lfloor>rank_sum r' n\<rfloor>"
    using rank_sum_mono [OF assms(6), of n] by (simp add: floor_mono nat_mono)
  have sm: "sort (recent w xs) ! nat \<lfloor>rank_sum r n\<rfloor> \<le> sort (recent w xs) ! nat \<lfloor>rank_sum r' n\<rfloor>"
    using rank_index_eq(4) [OF r(2) assms(7) n] len by (intro sorted_nth_mono le) simp_all
  note i = rank_index_eq(2-4) [OF assms(5) r(1) n] and j = rank_index_eq(4) [OF r(2) assms(7) n]
  have ii: "\<lfloor>r * of_nat (n - 1)\<rfloor> \<le> int (nat \<lfloor>rank_sum r n\<rfloor>)" "int (nat \<lfloor>rank_sum r n\<rfloor>) \<le> \<lceil>r * of_nat (n - 1)\<rceil>"
    using i rank_sum_bounds(5) [OF assms(5) r(1) n] by linarith+
  note e = lt_extremes [OF assms(1) w assms(3,4), of name]
    and s = sort_ends [OF ne] and z = rank_sum_ends(1) [OF n(2)] rank_sum_ends(2) [OF n]
  have "length (recent w xs) = n" using len by simp
  then have ends: "lt_min_ns (lt_run xs (lt_new name w)) = sort (recent w xs) ! 0"
    "lt_max_ns (lt_run xs (lt_new name w)) = sort (recent w xs) ! (n - 1)" using e s by simp_all
  show ?thesis
    unfolding Let_def len
  proof (intro conjI)
    show "\<exists>i j. i \<le> j \<and> j < n \<and> lt_percentile (Fin r) (lt_run xs (lt_new name w)) = Some (sort (recent w xs) ! i)
        \<and> lt_percentile (Fin r') (lt_run xs (lt_new name w)) = Some (sort (recent w xs) ! j)
        \<and> sort (recent w xs) ! i \<le> sort (recent w xs) ! j
        \<and> \<lfloor>r * of_nat (n - 1)\<rfloor> \<le> int i \<and> int i \<le> \<lceil>r * of_nat (n - 1)\<rceil>"
      using le j p [OF assms(5) r(1)] p [OF r(2) assms(7)] ii sm by blast
    show "lt_percentile (Fin 0) (lt_run xs (lt_new name w)) = Some (lt_min_ns (lt_run xs (lt_new name w)))"
      using p [of 0] z ends by simp
    show "lt_percentile (Fin 1) (lt_run xs (lt_new name w)) = Some (lt_max_ns (lt_run xs (lt_new name w)))"
      using p [of 1] z ends by simp
  qed (use ends lt_run_ring [OF assms(1) w assms(3)] in auto)
qed

theorem percentile_order_statistic_witness:
  "\<exists>i j. i \<le> j \<and> j < 3 \<and> lt_percentile (Fin (1 / 2)) (lt_run [70, 10, 50, 30] (lt_new ''e2e'' 3)) = Some ([10, 30, 50] ! i)
    \<and> lt_percentile (Fin 1) (lt_run [70, 10, 50, 30] (lt_new ''e2e'' 3)) = Some ([10, 30, 50] ! j) \<and> int i = 1"
proof -
  have s: "sort (recent 3 [70, 10, 50, 30 :: u64]) = [10, 30, 50]" by (simp add: recent_def)
  note * = percentile_order_statistic [of 3 "[70, 10, 50, 30]" "1 / 2" 1 "''e2e''", unfolded Let_def s]
  from * obtain i j where "i \<le> j" "j < 3"
    "lt_percentile (Fin (1 / 2)) (lt_run [70, 10, 50, 30] (lt_new ''e2e'' 3)) = Some ([10, 30, 50] ! i)"
    "lt_percentile (Fin 1) (lt_run [70, 10, 50, 30] (lt_new ''e2e'' 3)) = Some ([10, 30, 50] ! j)"
    "1 \<le> int i" "int i \<le> 1"
    by fastforce
  then show ?thesis by (intro exI [of _ i] exI [of _ j]) linarith
qed

text \<open>\<open>reset\<close> starts over.\<close>

lemma lt_reset_new:
  assumes "0 < w" and "w < 2 ^ 64" and "length xs < 2 ^ 64"
  shows "lt_reset (lt_run xs (lt_new name w)) = lt_new name w"
  using lt_run_ring [OF assms, of name] assms(1) by (simp add: lt_reset_def lt_new_def ring_holds_def Let_def)

end
