(* ===== verification/Metrics.thy ===== *)
theory Metrics
  imports Types Text_Format "HOL-Library.Multiset" "HOL-Library.List_Lexorder"
begin

text \<open>
  \<^verbatim>\<open>src/monitor/metrics.cpp\<close>: counters, gauges, the histogram with its exposition text, and the
  registry.  Each call is taken as a whole: its read-modify-writes are single atomic instructions.
  The unordered maps of the registry are association lists in any order.
\<close>

definition NL :: u8 where "NL = 10"
definition SPACE :: u8 where "SPACE = 32"

definition append_u64 :: "u64 \<Rightarrow> bytes \<Rightarrow> bytes" where
  "append_u64 v out = out @ nat_digits (unat v)"

definition append_i64 :: "int \<Rightarrow> bytes \<Rightarrow> bytes" where
  "append_i64 v out = out @ int_digits v"

subsection \<open>Counter and Gauge\<close>

definition counter_inc :: "int \<Rightarrow> int \<Rightarrow> int" where "counter_inc n v = i64 (v + n)"
definition gauge_set :: "int \<Rightarrow> int \<Rightarrow> int" where "gauge_set x v = x"
definition gauge_inc :: "int \<Rightarrow> int \<Rightarrow> int" where "gauge_inc n v = i64 (v + n)"
definition gauge_dec :: "int \<Rightarrow> int \<Rightarrow> int" where "gauge_dec n v = i64 (v - n)"

subsection \<open>Histogram\<close>

record histogram =
  hg_boundaries :: "u64 list"
  hg_buckets :: "int list"
  hg_num_buckets :: nat
  hg_count :: int
  hg_sum :: u64

definition hg_new :: "u64 list \<Rightarrow> histogram" where
  "hg_new bs = \<lparr>hg_boundaries = sort bs, hg_buckets = replicate (length bs) 0,
     hg_num_buckets = length bs, hg_count = 0, hg_sum = 0\<rparr>"

definition hg_bump :: "u64 \<Rightarrow> histogram \<Rightarrow> nat \<Rightarrow> int list \<Rightarrow> int list" where
  "hg_bump v h i b = (if v \<le> hg_boundaries h ! i then b[i := i64 (b ! i + 1)] else b)"

definition hg_observe :: "u64 \<Rightarrow> histogram \<Rightarrow> histogram" where
  "hg_observe v h = h\<lparr>hg_buckets := fold (hg_bump v h) [0..<hg_num_buckets h] (hg_buckets h),
     hg_sum := hg_sum h + v, hg_count := i64 (hg_count h + 1)\<rparr>"

definition hg_line :: "bytes \<Rightarrow> histogram \<Rightarrow> nat \<Rightarrow> bytes \<Rightarrow> bytes" where
  "hg_line name h i out =
     append_i64 (hg_buckets h ! i)
       (append_u64 (hg_boundaries h ! i) (out @ name @ ascii ''_bucket{le=\"'') @ ascii ''\"} '') @ [NL]"

definition hg_text :: "bytes \<Rightarrow> histogram \<Rightarrow> bytes" where
  "hg_text name h =
     (let total = hg_count h; s = hg_sum h;
          out = fold (hg_line name h) [0..<hg_num_buckets h] [];
          out = append_i64 total (out @ name @ ascii ''_bucket{le=\"+Inf\"} '') @ [NL];
          out = append_u64 s (out @ name @ ascii ''_sum '') @ [NL]
      in append_i64 total (out @ name @ ascii ''_count '') @ [NL])"

subsection \<open>The text by lines\<close>

fun text_lines :: "bytes \<Rightarrow> bytes list" where
  "text_lines [] = []"
| "text_lines (b # bs) = (if b = NL then [] # text_lines bs
     else case text_lines bs of [] \<Rightarrow> [[b]] | l # ls \<Rightarrow> (b # l) # ls)"

lemma text_lines_line: "NL \<notin> set l \<Longrightarrow> text_lines (l @ NL # rest) = l # text_lines rest"
  by (induction l) auto

lemma text_lines_concat: "(\<And>l. l \<in> set ls \<Longrightarrow> NL \<notin> set l) \<Longrightarrow> text_lines (concat (map (\<lambda>l. l @ [NL]) ls)) = ls"
  by (induction ls) (auto simp: text_lines_line)

lemma digit_not_NL: "digit b \<Longrightarrow> b \<noteq> NL"
  by (auto simp: digit_def NL_def)

lemma digits_no_NL [simp]: "NL \<notin> set (nat_digits n)" "NL \<notin> set (int_digits v)"
  using nat_digits_digit digit_not_NL by (auto simp: int_digits_def MINUS_def) (auto simp: NL_def)

subsection \<open>Observations\<close>

definition count_le :: "u64 \<Rightarrow> u64 list \<Rightarrow> nat" where
  "count_le b vs = length (filter (\<lambda>v. v \<le> b) vs)"

lemma hg_bump_fold:
  assumes "n \<le> length b"
  shows "fold (hg_bump v h) [0..<n] b =
    map (\<lambda>i. if i < n \<and> v \<le> hg_boundaries h ! i then i64 (b ! i + 1) else b ! i) [0..<length b]"
  using assms
proof (induction n)
  case 0
  then show ?case by (simp add: map_nth)
next
  case (Suc n)
  then have "fold (hg_bump v h) [0..<Suc n] b =
      hg_bump v h n (map (\<lambda>i. if i < n \<and> v \<le> hg_boundaries h ! i then i64 (b ! i + 1) else b ! i) [0..<length b])"
    by simp
  also have "\<dots> = map (\<lambda>i. if i < Suc n \<and> v \<le> hg_boundaries h ! i then i64 (b ! i + 1) else b ! i) [0..<length b]"
    using Suc.prems
    by (cases "v \<le> hg_boundaries h ! n") (auto simp: hg_bump_def nth_list_update less_Suc_eq intro!: nth_equalityI)
  finally show ?case .
qed

lemma count_le_length: "count_le b vs \<le> length vs"
  by (simp add: count_le_def)

lemma count_le_snoc: "count_le b (vs @ [v]) = count_le b vs + (if v \<le> b then 1 else 0)"
  by (simp add: count_le_def)

lemma observe_fold:
  assumes "length vs < 2 ^ 63"
  shows "fold hg_observe vs (hg_new bs) =
    \<lparr>hg_boundaries = sort bs, hg_buckets = map (\<lambda>b. int (count_le b vs)) (sort bs),
     hg_num_buckets = length bs, hg_count = int (length vs), hg_sum = sum_list vs\<rparr>"
  using assms
proof (induction vs rule: rev_induct)
  case Nil
  then show ?case by (simp add: hg_new_def count_le_def map_replicate_const)
next
  case (snoc v vs)
  have c: "i64 (int (count_le b vs) + 1) = int (count_le b vs) + 1" for b
    using snoc.prems count_le_length [of b vs] by (intro i64_id) (simp add: in_i64_def)
  have n: "i64 (int (length vs) + 1) = int (length vs) + 1"
    using snoc.prems by (intro i64_id) (simp add: in_i64_def)
  have "fold (hg_bump v h) [0..<length bs] (map (\<lambda>b. int (count_le b vs)) (sort bs)) =
      map (\<lambda>b. int (count_le b (vs @ [v]))) (sort bs)" if "hg_boundaries h = sort bs" for h
    by (rule nth_equalityI) (simp_all add: hg_bump_fold that c count_le_snoc)
  then show ?case using snoc n by (simp add: hg_observe_def add.commute)
qed

lemma hg_line_eq: "hg_line name h i out =
  out @ (name @ ascii ''_bucket{le=\"'' @ nat_digits (unat (hg_boundaries h ! i)) @ ascii ''\"} '' @ int_digits (hg_buckets h ! i)) @ [NL]"
  by (simp add: hg_line_def append_i64_def append_u64_def)

lemma fold_append_lines: "fold (\<lambda>i out. out @ f i @ [NL]) is out = out @ concat (map (\<lambda>l. l @ [NL]) (map f is))"
  by (induction "is" arbitrary: out) simp_all

text \<open>
  The histogram's exposition, end to end: after any observations the text has one line
  per boundary, in ascending order whatever the order they were given in, with the number of
  observations at or below it (so the buckets are cumulative), then the \<open>+Inf\<close> line and the count,
  both the number of observations, and the sum modulo \<open>2^64\<close>.
\<close>

theorem histogram_exposition:
  assumes "length vs < 2 ^ 63" and "NL \<notin> set name"
  shows "text_lines (hg_text name (fold hg_observe vs (hg_new bs))) =
      map (\<lambda>b. name @ ascii ''_bucket{le=\"'' @ nat_digits (unat b) @ ascii ''\"} '' @ nat_digits (count_le b vs)) (sort bs)
      @ [name @ ascii ''_bucket{le=\"+Inf\"} '' @ nat_digits (length vs),
         name @ ascii ''_sum '' @ nat_digits (unat (sum_list vs)),
         name @ ascii ''_count '' @ nat_digits (length vs)]
    \<and> sorted (map (\<lambda>b. count_le b vs) (sort bs)) \<and> (\<forall>b. count_le b vs \<le> length vs)"
proof -
  let ?h = "fold hg_observe vs (hg_new bs)"
  let ?f = "\<lambda>b. name @ ascii ''_bucket{le=\"'' @ nat_digits (unat b) @ ascii ''\"} '' @ nat_digits (count_le b vs)"
  let ?tail = "[name @ ascii ''_bucket{le=\"+Inf\"} '' @ nat_digits (length vs),
         name @ ascii ''_sum '' @ nat_digits (unat (sum_list vs)), name @ ascii ''_count '' @ nat_digits (length vs)]"
  note h = observe_fold [OF assms(1), of bs]
  have num: "int_digits (int n) = nat_digits n" for n by (simp add: int_digits_def)
  have "hg_line name ?h = (\<lambda>i out. out @ (name @ ascii ''_bucket{le=\"'' @ nat_digits (unat (hg_boundaries ?h ! i))
      @ ascii ''\"} '' @ int_digits (hg_buckets ?h ! i)) @ [NL])"
    by (intro ext hg_line_eq)
  then have "fold (hg_line name ?h) [0..<length bs] [] = concat (map (\<lambda>l. l @ [NL])
      (map (\<lambda>i. name @ ascii ''_bucket{le=\"'' @ nat_digits (unat (hg_boundaries ?h ! i)) @ ascii ''\"} ''
        @ int_digits (hg_buckets ?h ! i)) [0..<length bs]))"
    by (simp only: fold_append_lines append_Nil)
  also have "map (\<lambda>i. name @ ascii ''_bucket{le=\"'' @ nat_digits (unat (hg_boundaries ?h ! i)) @ ascii ''\"} ''
        @ int_digits (hg_buckets ?h ! i)) [0..<length bs] = map ?f (sort bs)"
    by (rule nth_equalityI) (simp_all add: h num)
  finally have txt_eq: "hg_text name ?h = concat (map (\<lambda>l. l @ [NL]) (map ?f (sort bs) @ ?tail))"
    by (simp add: hg_text_def h num append_i64_def append_u64_def Let_def)
  have "NL \<notin> set l" if "l \<in> set (map ?f (sort bs) @ ?tail)" for l
    using that assms(2) by (auto simp: ascii_def NL_def) (simp_all flip: NL_def)
  then have lines: "text_lines (hg_text name ?h) = map ?f (sort bs) @ ?tail"
    unfolding txt_eq by (rule text_lines_concat)
  have mono: "count_le b vs \<le> count_le c vs" if "b \<le> c" for b c
    using that unfolding count_le_def by (induction vs) auto
  have "sorted (map (\<lambda>b. count_le b vs) (sort bs))"
    unfolding sorted_wrt_map by (rule sorted_wrt_mono_rel [OF _ sorted_sort]) (rule mono)
  then show ?thesis using lines count_le_length by blast
qed

theorem histogram_exposition_witness:
  "text_lines (hg_text (ascii ''lat'') (fold hg_observe [120, 700, 90] (hg_new [500, 100]))) =
    map ascii [''lat_bucket{le=\"100\"} 1'', ''lat_bucket{le=\"500\"} 2'', ''lat_bucket{le=\"+Inf\"} 3'', ''lat_sum 910'', ''lat_count 3'']"
proof -
  have n: "NL \<notin> set (ascii ''lat'')" by (simp add: ascii_def NL_def)
  show ?thesis
    using histogram_exposition [of "[120, 700, 90]" "ascii ''lat''" "[500, 100]"] n
    by (simp add: count_le_def nat_digits.simps ZERO_def ascii_def)
qed

subsection \<open>MetricsRegistry\<close>

record registry =
  rg_counters :: "(bytes \<times> int) list"
  rg_gauges :: "(bytes \<times> int) list"

definition rg_new :: registry where "rg_new = \<lparr>rg_counters = [], rg_gauges = []\<rparr>"

definition find_or_emplace :: "bytes \<Rightarrow> (bytes \<times> int) list \<Rightarrow> (bytes \<times> int) list" where
  "find_or_emplace k m = (case map_of m k of None \<Rightarrow> (k, 0) # m | Some v \<Rightarrow> m)"

definition rg_counter :: "bytes \<Rightarrow> registry \<Rightarrow> registry" where
  "rg_counter k r = r\<lparr>rg_counters := find_or_emplace k (rg_counters r)\<rparr>"

definition rg_gauge :: "bytes \<Rightarrow> registry \<Rightarrow> registry" where
  "rg_gauge k r = r\<lparr>rg_gauges := find_or_emplace k (rg_gauges r)\<rparr>"

text \<open>What a caller does through the reference it got.\<close>

definition update_at :: "bytes \<Rightarrow> (int \<Rightarrow> int) \<Rightarrow> (bytes \<times> int) list \<Rightarrow> (bytes \<times> int) list" where
  "update_at k f m = map (\<lambda>(k', v). (k', if k' = k then f v else v)) m"

datatype metric_call = Counter_inc bytes int | Gauge_set bytes int | Gauge_inc bytes int | Gauge_dec bytes int

fun metric_name :: "metric_call \<Rightarrow> bytes" where
  "metric_name (Counter_inc k n) = k" | "metric_name (Gauge_set k n) = k"
| "metric_name (Gauge_inc k n) = k" | "metric_name (Gauge_dec k n) = k"

fun metric_effect :: "metric_call \<Rightarrow> int \<Rightarrow> int" where
  "metric_effect (Counter_inc k n) v = counter_inc n v" | "metric_effect (Gauge_set k n) v = gauge_set n v"
| "metric_effect (Gauge_inc k n) v = gauge_inc n v" | "metric_effect (Gauge_dec k n) v = gauge_dec n v"

fun is_counter :: "metric_call \<Rightarrow> bool" where
  "is_counter (Counter_inc k n) = True" | "is_counter _ = False"

definition rg_call :: "metric_call \<Rightarrow> registry \<Rightarrow> registry" where
  "rg_call c r = (if is_counter c
     then (let r1 = rg_counter (metric_name c) r
           in r1\<lparr>rg_counters := update_at (metric_name c) (metric_effect c) (rg_counters r1)\<rparr>)
     else (let r1 = rg_gauge (metric_name c) r
           in r1\<lparr>rg_gauges := update_at (metric_name c) (metric_effect c) (rg_gauges r1)\<rparr>))"

definition rg_dump :: "registry \<Rightarrow> bytes" where
  "rg_dump r = fold (\<lambda>(k, v) out. append_i64 v (out @ k @ [SPACE]) @ [NL])
     (sort_key fst (rg_counters r @ rg_gauges r)) []"

definition metric_value :: "metric_call list \<Rightarrow> bytes \<Rightarrow> int" where
  "metric_value cs k = fold (\<lambda>c v. if metric_name c = k then metric_effect c v else v) cs 0"

lemma metric_value_snoc: "metric_value (cs @ [c]) k =
  (if metric_name c = k then metric_effect c (metric_value cs k) else metric_value cs k)"
  by (simp add: metric_value_def)

lemma metric_value_unused: "k \<notin> metric_name ` set cs \<Longrightarrow> metric_value cs k = 0"
  by (induction cs rule: rev_induct) (auto simp: metric_value_def)

definition names_of :: "bool \<Rightarrow> metric_call list \<Rightarrow> bytes set" where
  "names_of b cs = metric_name ` {c \<in> set cs. is_counter c = b}"

lemma names_of_snoc: "names_of b (cs @ [c]) = (if is_counter c = b then insert (metric_name c) (names_of b cs) else names_of b cs)"
  by (auto simp: names_of_def)

definition holds_values :: "metric_call list \<Rightarrow> bytes set \<Rightarrow> (bytes \<times> int) list \<Rightarrow> bool" where
  "holds_values cs K m \<longleftrightarrow> distinct (map fst m) \<and> set m = (\<lambda>k. (k, metric_value cs k)) ` K"

lemma holds_values_touch:
  assumes "holds_values cs K m" and "k \<notin> K \<Longrightarrow> metric_value cs k = 0" and "metric_name c = k"
  shows "holds_values (cs @ [c]) (insert k K) (update_at k (metric_effect c) (find_or_emplace k m))"
proof -
  have keys: "map fst (update_at k f m') = map fst m'" for f m' by (auto simp: update_at_def)
  have K: "fst ` set m = K" using assms(1) by (force simp: holds_values_def)
  have d: "distinct (map fst (find_or_emplace k m))"
    using assms(1) by (auto simp: holds_values_def find_or_emplace_def map_of_eq_None_iff split: option.split)
  have "set (find_or_emplace k m) = (\<lambda>k. (k, metric_value cs k)) ` insert k K"
  proof (cases "k \<in> K")
    case True
    then have "map_of m k \<noteq> None" using K by (simp add: map_of_eq_None_iff)
    then obtain v where "map_of m k = Some v" by auto
    then show ?thesis using True assms(1) by (simp add: find_or_emplace_def holds_values_def insert_absorb)
  next
    case False
    then have "map_of m k = None" using K by (simp add: map_of_eq_None_iff)
    then show ?thesis using False assms(1,2) by (simp add: find_or_emplace_def holds_values_def)
  qed
  then have "set (update_at k (metric_effect c) (find_or_emplace k m)) = (\<lambda>k. (k, metric_value (cs @ [c]) k)) ` insert k K"
    by (simp add: update_at_def image_image metric_value_snoc assms(3) eq_commute [of k])
  then show ?thesis using d by (simp add: holds_values_def keys)
qed

lemma holds_values_other:
  "holds_values cs K m \<Longrightarrow> metric_name c \<notin> K \<Longrightarrow> holds_values (cs @ [c]) K m"
  by (auto simp: holds_values_def metric_value_snoc intro!: image_cong)

lemma registry_values:
  assumes "names_of True cs \<inter> names_of False cs = {}"
  shows "holds_values cs (names_of True cs) (rg_counters (fold rg_call cs rg_new))
    \<and> holds_values cs (names_of False cs) (rg_gauges (fold rg_call cs rg_new))"
  using assms
proof (induction cs rule: rev_induct)
  case Nil
  then show ?case by (simp add: rg_new_def holds_values_def names_of_def)
next
  case (snoc c cs)
  have un: "k \<notin> names_of b cs \<Longrightarrow> k \<notin> names_of (\<not> b) cs \<Longrightarrow> metric_value cs k = 0" for k b
    by (rule metric_value_unused) (auto simp: names_of_def)
  have dj: "names_of True cs \<inter> names_of False cs = {}" using snoc.prems by (auto simp: names_of_snoc split: if_splits)
  show ?case
  proof (cases "is_counter c")
    case True
    then have "metric_name c \<notin> names_of False cs" using snoc.prems by (auto simp: names_of_snoc)
    then show ?thesis
      using True snoc.IH [OF dj] holds_values_touch [of cs "names_of True cs" _ "metric_name c" c] un [of _ True]
        holds_values_other [of cs "names_of False cs" _ c]
      by (simp add: rg_call_def rg_counter_def names_of_snoc Let_def)
  next
    case False
    then have "metric_name c \<notin> names_of True cs" using snoc.prems by (auto simp: names_of_snoc)
    then show ?thesis
      using False snoc.IH [OF dj] holds_values_touch [of cs "names_of False cs" _ "metric_name c" c] un [of _ False]
        holds_values_other [of cs "names_of True cs" _ c]
      by (simp add: rg_call_def rg_gauge_def names_of_snoc Let_def)
  qed
qed

text \<open>
  The dump has one line per metric, in the order of the names, with the value its calls left there;
  it does not depend on the order the maps keep their entries in.  Names shared by a counter and a
  gauge are excluded: they would give two lines in an unspecified order.
\<close>

theorem registry_dump:
  assumes "names_of True cs \<inter> names_of False cs = {}" and "\<forall>c \<in> set cs. NL \<notin> set (metric_name c)"
    and "mset (rg_counters r) = mset (rg_counters (fold rg_call cs rg_new))"
    and "mset (rg_gauges r) = mset (rg_gauges (fold rg_call cs rg_new))"
  shows "text_lines (rg_dump r) =
    map (\<lambda>k. k @ SPACE # int_digits (metric_value cs k)) (sorted_list_of_set (metric_name ` set cs))"
proof -
  let ?m = "rg_counters r @ rg_gauges r" and ?f = "\<lambda>k. k @ SPACE # int_digits (metric_value cs k)"
  let ?r = "fold rg_call cs rg_new"
  have perm: "mset (map fst m) = mset (map fst m')" "set m = set m'" if "mset m = mset m'" for m m' :: "(bytes \<times> int) list"
    using that by (simp_all only: mset_map) (metis set_mset_mset)
  note v = registry_values [OF assms(1)]
  have names: "names_of True cs \<union> names_of False cs = metric_name ` set cs" by (auto simp: names_of_def)
  have d: "distinct (map fst (rg_counters r))" "distinct (map fst (rg_gauges r))"
    using v perm(1) [OF assms(3)] perm(1) [OF assms(4)] mset_eq_imp_distinct_iff unfolding holds_values_def by blast+
  have s: "set (rg_counters r) = (\<lambda>k. (k, metric_value cs k)) ` names_of True cs"
    "set (rg_gauges r) = (\<lambda>k. (k, metric_value cs k)) ` names_of False cs"
    using v perm(2) [OF assms(3)] perm(2) [OF assms(4)] by (simp_all add: holds_values_def)
  have D: "distinct (map fst ?m)" using d s assms(1) by (auto simp: image_image)
  have S: "set ?m = (\<lambda>k. (k, metric_value cs k)) ` (metric_name ` set cs)"
    using s by (simp add: image_Un flip: names)
  have "map fst (sort_key fst ?m) = sorted_list_of_set (set (map fst ?m))"
  proof (rule sorted_distinct_set_unique)
    have "mset (map fst (sort_key fst ?m)) = mset (map fst ?m)" by simp
    then show "distinct (map fst (sort_key fst ?m))" using D mset_eq_imp_distinct_iff by blast
  qed (simp_all add: sorted_sort_key image_Un)
  then have keys: "map fst (sort_key fst ?m) = sorted_list_of_set (metric_name ` set cs)"
    by (simp only: set_map S image_image fst_conv image_ident)
  have line: "(\<lambda>(k, v) out. append_i64 v (out @ k @ [SPACE]) @ [NL]) = (\<lambda>kv out. out @ (fst kv @ SPACE # int_digits (snd kv)) @ [NL])"
    by (auto simp: append_i64_def)
  have "rg_dump r = concat (map (\<lambda>l. l @ [NL]) (map (\<lambda>kv. fst kv @ SPACE # int_digits (snd kv)) (sort_key fst ?m)))"
    unfolding rg_dump_def line by (simp only: fold_append_lines append_Nil)
  also have "map (\<lambda>kv. fst kv @ SPACE # int_digits (snd kv)) (sort_key fst ?m) = map ?f (map fst (sort_key fst ?m))"
    using S by (auto simp: list.map_comp)
  finally have d: "rg_dump r = concat (map (\<lambda>l. l @ [NL]) (map ?f (sorted_list_of_set (metric_name ` set cs))))"
    by (simp only: keys)
  have "NL \<noteq> SPACE" by (simp add: NL_def SPACE_def)
  then show ?thesis unfolding d by (intro text_lines_concat) (use assms(2) in auto)
qed

end
