(* ===== verification/Alerting.thy ===== *)
theory Alerting
  imports Types Text_Format Recent
begin

text \<open>
  \<^verbatim>\<open>src/monitor/alerting.cpp\<close>: the bounded history of alerts, their JSON text and the HTTP request that
  carries it to the webhook.  \<open>rdtsc_ns()\<close> is an argument; name resolution, the socket and the results
  of \<open>send\<close> are an environment.  The detached thread of a post is its argument, the JSON body.
\<close>

subsection \<open>JSON text\<close>

datatype alert_level = INFO | WARN | CRITICAL

fun level_str :: "alert_level \<Rightarrow> bytes" where
  "level_str INFO = ascii ''INFO''"
| "level_str WARN = ascii ''WARN''"
| "level_str CRITICAL = ascii ''CRITICAL''"

definition QUOTE :: u8 where "QUOTE = 34"
definition BACKSLASH :: u8 where "BACKSLASH = 92"

definition hex_digit :: "nat \<Rightarrow> u8" where
  "hex_digit d = (if d < 10 then 48 + of_nat d else 87 + of_nat d)"

definition hex4 :: "nat \<Rightarrow> bytes" where
  "hex4 n = [hex_digit (n div 4096), hex_digit (n div 256 mod 16), hex_digit (n div 16 mod 16), hex_digit (n mod 16)]"

definition json_escape_byte :: "u8 \<Rightarrow> bytes" where
  "json_escape_byte c =
     (if c = 34 then [BACKSLASH, 34] else if c = 92 then [BACKSLASH, 92]
      else if c = 8 then [BACKSLASH, 98] else if c = 12 then [BACKSLASH, 102]
      else if c = 10 then [BACKSLASH, 110] else if c = 13 then [BACKSLASH, 114]
      else if c = 9 then [BACKSLASH, 116]
      else if unat c < 0x20 then [BACKSLASH, 117] @ hex4 (unat c) else [c])"

definition json_append_escaped :: "bytes \<Rightarrow> bytes \<Rightarrow> bytes" where
  "json_append_escaped out s = fold (\<lambda>c j. j @ json_escape_byte c) s out"

definition build_json :: "alert_level \<Rightarrow> bytes \<Rightarrow> bytes \<Rightarrow> u64 \<Rightarrow> bytes" where
  "build_json level name message ts =
     (let j = ascii ''{\"level\":\"'' @ level_str level @ ascii ''\",\"name\":\"'';
          j = json_append_escaped j name @ ascii ''\",\"message\":\"'';
          j = json_append_escaped j message @ ascii ''\",\"ts_ns\":''
      in j @ nat_digits (unat ts) @ ascii ''}'')"

subsection \<open>The request\<close>

record parsed_url =
  pu_host :: bytes
  pu_port :: bytes
  pu_path :: bytes

definition SLASH :: u8 where "SLASH = 47"
definition COLON :: u8 where "COLON = 58"

definition starts_with :: "bytes \<Rightarrow> bytes \<Rightarrow> bool" where
  "starts_with p bs \<longleftrightarrow> take (length p) bs = p"

definition parse_url :: "bytes \<Rightarrow> parsed_url" where
  "parse_url url =
     (let sv = (if starts_with (ascii ''http://'') url then drop 7 url
                else if starts_with (ascii ''https://'') url then drop 8 url else url);
          hostport = takeWhile (\<lambda>b. b \<noteq> SLASH) sv;
          path = (if SLASH \<in> set sv then dropWhile (\<lambda>b. b \<noteq> SLASH) sv else ascii ''/'');
          after = rev (takeWhile (\<lambda>b. b \<noteq> COLON) (rev hostport))
      in if COLON \<in> set hostport
         then \<lparr>pu_host = take (length hostport - length after - 1) hostport, pu_port = after, pu_path = path\<rparr>
         else \<lparr>pu_host = hostport, pu_port = ascii ''80'', pu_path = path\<rparr>)"

definition CRLF :: bytes where "CRLF = [13, 10]"

definition http_request :: "parsed_url \<Rightarrow> bytes \<Rightarrow> bytes" where
  "http_request pu body = ascii ''POST '' @ pu_path pu @ ascii '' HTTP/1.0'' @ CRLF @ ascii ''Host: '' @ pu_host pu @ CRLF
     @ ascii ''Content-Type: application/json'' @ CRLF @ ascii ''Content-Length: '' @ nat_digits (length body) @ CRLF
     @ ascii ''Connection: close'' @ CRLF @ CRLF @ body"

text \<open>What \<open>getaddrinfo\<close>, \<open>socket\<close> and \<open>connect\<close> answer, and the results of the calls of \<open>send\<close>; a call
  past the end of the list fails.\<close>

record http_env =
  he_resolves :: "bytes \<Rightarrow> bytes \<Rightarrow> bool"
  he_socket :: bool
  he_connects :: bool
  he_sends :: "int list"

fun send_loop :: "int list \<Rightarrow> bytes \<Rightarrow> bytes" where
  "send_loop ns [] = []"
| "send_loop [] rest = []"
| "send_loop (n # ns) rest = (if n \<le> 0 then [] else take (nat n) rest @ send_loop ns (drop (nat n) rest))"

definition c_str :: "bytes \<Rightarrow> bytes" where
  "c_str s = takeWhile (\<lambda>b. b \<noteq> 0) s"

text \<open>The bytes that leave on the connection, with its destination.\<close>

definition do_http_post :: "http_env \<Rightarrow> bytes \<Rightarrow> bytes \<Rightarrow> (bytes \<times> bytes \<times> bytes) option" where
  "do_http_post env url body =
     (let pu = parse_url url in
      if pu_host pu = [] then None
      else if \<not> he_resolves env (c_str (pu_host pu)) (c_str (pu_port pu)) then None
      else if \<not> he_socket env then None
      else if he_connects env
      then Some (c_str (pu_host pu), c_str (pu_port pu), send_loop (he_sends env) (http_request pu body))
      else None)"

subsection \<open>Alerting\<close>

record alert =
  at_level :: alert_level
  at_name :: bytes
  at_message :: bytes
  at_ts_ns :: u64

record alerting =
  al_webhook_url :: bytes
  al_history :: "alert list"
  al_stderr :: bytes
  al_posted :: "bytes list"

definition MAX_HISTORY :: nat where "MAX_HISTORY = 1000"

definition al_new :: "bytes \<Rightarrow> alerting" where
  "al_new url = \<lparr>al_webhook_url = url, al_history = [], al_stderr = [], al_posted = []\<rparr>"

definition send_async :: "bytes \<Rightarrow> alerting \<Rightarrow> alerting" where
  "send_async body a = a\<lparr>al_posted := al_posted a @ [body]\<rparr>"

definition al_fire :: "u64 \<Rightarrow> alert_level \<Rightarrow> bytes \<Rightarrow> bytes \<Rightarrow> alerting \<Rightarrow> alerting" where
  "al_fire ts level name message a =
     (let a1 = a\<lparr>al_stderr := al_stderr a @ ascii ''['' @ level_str level @ ascii ''] '' @ c_str name @ ascii '': ''
                   @ c_str message @ [10]\<rparr>;
          old = (if length (al_history a1) \<ge> MAX_HISTORY then tl (al_history a1) else al_history a1);
          a2 = a1\<lparr>al_history := old @ [\<lparr>at_level = level, at_name = name, at_message = message, at_ts_ns = ts\<rparr>]\<rparr>
      in if al_webhook_url a2 \<noteq> [] then send_async (build_json level name message ts) a2 else a2)"

definition circuit_breaker_open :: "u64 \<Rightarrow> bytes \<Rightarrow> alerting \<Rightarrow> alerting" where
  "circuit_breaker_open ts exchange a =
     al_fire ts CRITICAL (ascii ''circuit_breaker_open'') (ascii ''Circuit breaker OPEN on exchange: '' @ exchange) a"

definition connection_lost :: "u64 \<Rightarrow> bytes \<Rightarrow> u64 \<Rightarrow> alerting \<Rightarrow> alerting" where
  "connection_lost ts exchange duration_ms a =
     al_fire ts WARN (ascii ''connection_lost'')
       (ascii ''Connection lost to '' @ exchange @ ascii '' for '' @ nat_digits (unat duration_ms) @ ascii '' ms'') a"

definition latency_spike :: "u64 \<Rightarrow> bytes \<Rightarrow> u64 \<Rightarrow> u64 \<Rightarrow> alerting \<Rightarrow> alerting" where
  "latency_spike ts stage p99_ns threshold_ns a =
     al_fire ts WARN (ascii ''latency_spike'')
       (ascii ''Latency spike on stage '' @ [39] @ stage @ [39] @ ascii '': p99='' @ nat_digits (unat p99_ns)
        @ ascii ''ns, threshold='' @ nat_digits (unat threshold_ns) @ ascii ''ns'') a"

definition al_count :: "alert_level \<Rightarrow> alerting \<Rightarrow> nat" where
  "al_count level a = length (filter (\<lambda>x. at_level x = level) (al_history a))"

subsection \<open>Reading the text back\<close>

text \<open>A reader of JSON strings after the opening quote: the bytes they stand for and the rest of the text.\<close>

definition hex_value :: "u8 \<Rightarrow> nat option" where
  "hex_value b = (if 48 \<le> unat b \<and> unat b \<le> 57 then Some (unat b - 48)
     else if 97 \<le> unat b \<and> unat b \<le> 102 then Some (unat b - 87) else None)"

fun unescape :: "bytes \<Rightarrow> (u8 \<times> bytes) option" where
  "unescape [] = None"
| "unescape (c # r) =
     (if c = 34 \<or> c = 92 \<or> c = 47 then Some (c, r)
      else if c = 98 then Some (8, r) else if c = 102 then Some (12, r) else if c = 110 then Some (10, r)
      else if c = 114 then Some (13, r) else if c = 116 then Some (9, r)
      else if c = 117 then (case map hex_value (take 4 r) of
          [Some a, Some b, Some d, Some e] \<Rightarrow> Some (of_nat (((a * 16 + b) * 16 + d) * 16 + e), drop 4 r)
        | _ \<Rightarrow> None)
      else None)"

lemma unescape_shorter: "unescape r = Some (b, r') \<Longrightarrow> length r' < length r"
  by (cases r) (auto split: if_splits list.splits option.splits)

function json_string :: "bytes \<Rightarrow> (bytes \<times> bytes) option" where
  "json_string [] = None"
| "json_string (c # r) =
     (if c = QUOTE then Some ([], r)
      else if c = BACKSLASH then (case unescape r of None \<Rightarrow> None
        | Some (b, r') \<Rightarrow> map_option (\<lambda>(s, t). (b # s, t)) (json_string r'))
      else if unat c < 0x20 then None
      else map_option (\<lambda>(s, t). (c # s, t)) (json_string r))"
  by pat_completeness auto

termination by (relation "measure length") (auto dest: unescape_shorter)

definition expect :: "bytes \<Rightarrow> bytes \<Rightarrow> bytes option" where
  "expect p bs = (if starts_with p bs then Some (drop (length p) bs) else None)"

definition read_alert :: "bytes \<Rightarrow> (bytes \<times> bytes \<times> bytes \<times> nat) option" where
  "read_alert bs =
     Option.bind (expect (ascii ''{\"level\":\"'') bs) (\<lambda>bs. Option.bind (json_string bs) (\<lambda>(level, bs).
     Option.bind (expect (ascii '',\"name\":\"'') bs) (\<lambda>bs. Option.bind (json_string bs) (\<lambda>(name, bs).
     Option.bind (expect (ascii '',\"message\":\"'') bs) (\<lambda>bs. Option.bind (json_string bs) (\<lambda>(message, bs).
     Option.bind (expect (ascii '',\"ts_ns\":'') bs) (\<lambda>bs.
       if dropWhile digit bs = ascii ''}'' then Some (level, name, message, digits_value (takeWhile digit bs)) else None)))))))"

lemma expect_here: "expect p (p @ rest) = Some rest"
  by (simp add: expect_def starts_with_def)

lemma hex_value_digit: "d < 16 \<Longrightarrow> hex_value (hex_digit d) = Some d"
proof -
  assume d: "d < 16"
  have s: "unat (48 + of_nat d :: u8) = 48 + d" "unat (87 + of_nat d :: u8) = 87 + d"
    using d by (simp_all add: unat_word_ariths unat_of_nat_u8 del: unsigned_of_nat)
  show ?thesis by (cases "d < 10") (use d s in \<open>simp_all add: hex_value_def hex_digit_def\<close>)
qed

lemma unescape_digits:
  "a < 16 \<Longrightarrow> b < 16 \<Longrightarrow> d < 16 \<Longrightarrow> e < 16 \<Longrightarrow>
   unescape (117 # hex_digit a # hex_digit b # hex_digit d # hex_digit e # rest)
     = Some (of_nat (((a * 16 + b) * 16 + d) * 16 + e), rest)"
  by (simp add: hex_value_digit del: of_nat_add of_nat_mult)

lemma unescape_hex:
  assumes "n < 65536"
  shows "unescape (117 # hex4 n @ rest) = Some (of_nat n, rest)"
proof -
  have d: "n div 4096 < 16" "n div 256 mod 16 < 16" "n div 16 mod 16 < 16" "n mod 16 < 16"
    using assms by (simp_all add: less_mult_imp_div_less)
  have "((n div 4096 * 16 + n div 256 mod 16) * 16 + n div 16 mod 16) * 16 + n mod 16 = n"
  proof -
    have q: "n div 256 = n div 16 div 16" "n div 4096 = n div 16 div 16 div 16" by (simp_all flip: div_mult2_eq)
    show ?thesis unfolding q by (simp only: div_mult_mod_eq)
  qed
  then show ?thesis by (simp only: hex4_def append.simps unescape_digits [OF d])
qed

lemma json_string_escape:
  "json_string (json_escape_byte c @ rest) = map_option (\<lambda>(s, t). (c # s, t)) (json_string rest)"
proof -
  consider "c \<in> {34, 92, 8, 12, 10, 13, 9}" | "c \<notin> {34, 92, 8, 12, 10, 13, 9}" "unat c < 32"
    | "c \<notin> {34, 92, 8, 12, 10, 13, 9}" "\<not> unat c < 32" by blast
  then show ?thesis
  proof cases
    case 1
    then show ?thesis by (auto simp: json_escape_byte_def BACKSLASH_def QUOTE_def)
  next
    case 2
    then have e: "json_escape_byte c @ rest = BACKSLASH # 117 # hex4 (unat c) @ rest" by (simp add: json_escape_byte_def)
    show ?thesis unfolding e using unescape_hex [of "unat c" rest] 2(2)
      by (simp add: BACKSLASH_def QUOTE_def del: unescape.simps)
  next
    case 3
    then show ?thesis by (simp add: json_escape_byte_def BACKSLASH_def QUOTE_def)
  qed
qed

lemma json_append_escaped_eq: "json_append_escaped out s = out @ concat (map json_escape_byte s)"
  unfolding json_append_escaped_def by (induction s arbitrary: out) simp_all

lemma json_string_escaped: "json_string (concat (map json_escape_byte s) @ QUOTE # rest) = Some (s, rest)"
  by (induction s) (simp_all add: json_string_escape)

lemma level_str_plain: "concat (map json_escape_byte (level_str l)) = level_str l"
  by (cases l) (simp_all add: json_escape_byte_def ascii_def)

lemma takeWhile_digits: "takeWhile digit (nat_digits n @ ascii ''}'') = nat_digits n" "dropWhile digit (nat_digits n @ ascii ''}'') = ascii ''}''"
  using nat_digits_digit by (simp_all add: takeWhile_append dropWhile_append ascii_def digit_def)

lemma build_json_eq: "build_json level name message ts =
  ascii ''{\"level\":\"'' @ concat (map json_escape_byte (level_str level)) @ QUOTE # ascii '',\"name\":\"''
  @ concat (map json_escape_byte name) @ QUOTE # ascii '',\"message\":\"'' @ concat (map json_escape_byte message)
  @ QUOTE # ascii '',\"ts_ns\":'' @ nat_digits (unat ts) @ ascii ''}''"
  by (simp add: build_json_def json_append_escaped_eq level_str_plain Let_def) (simp add: ascii_def QUOTE_def)

lemma read_build_json: "read_alert (build_json level name message ts) = Some (level_str level, name, message, unat ts)"
  by (simp add: build_json_eq read_alert_def expect_here json_string_escaped takeWhile_digits)

lemma escape_printable: "b \<in> set (json_escape_byte c) \<Longrightarrow> 32 \<le> unat b"
proof -
  have h: "32 \<le> unat (hex_digit d)" if "d < 16" for d
    using hex_value_digit [OF that] by (auto simp: hex_value_def split: if_splits)
  assume "b \<in> set (json_escape_byte c)"
  then show ?thesis using h [of "unat c div 4096"] h [of "unat c div 256 mod 16"] h [of "unat c div 16 mod 16"] h [of "unat c mod 16"]
    by (auto simp: json_escape_byte_def BACKSLASH_def hex4_def split: if_splits)
qed

lemma build_json_printable: "b \<in> set (build_json level name message ts) \<Longrightarrow> 32 \<le> unat b"
  using escape_printable nat_digits_digit by (fastforce simp: build_json_eq ascii_def QUOTE_def digit_def)

subsection \<open>Delivery\<close>

lemma send_loop_all:
  assumes "list_all (\<lambda>n. 0 < n) ns" and "int (length r) \<le> sum_list ns"
  shows "send_loop ns r = r"
  using assms
proof (induction ns r rule: send_loop.induct)
  case (3 n ns b r)
  have n: "0 < n" "list_all (\<lambda>n. 0 < n) ns" using "3.prems"(1) by simp_all
  then have "int (length (drop (nat n) (b # r))) \<le> sum_list ns"
  proof (cases "nat n < length (b # r)")
    case False
    have "0 \<le> sum_list ns" using n(2) by (intro sum_list_nonneg) (auto simp: list_all_iff)
    then show ?thesis using False by simp
  qed (use "3.prems"(2) n in \<open>simp add: of_nat_diff\<close>)
  from "3.IH" [OF _ n(2) this] n(1) have "send_loop ns (drop (nat n) (b # r)) = drop (nat n) (b # r)" by simp
  moreover have "take (nat n) (b # r) @ drop (nat n) (b # r) = b # r" by (rule append_take_drop_id)
  moreover have "\<not> n \<le> 0" using n(1) by simp
  ultimately show ?case by (simp only: send_loop.simps(3) if_False)
qed simp_all

lemma takeWhile_all: "x \<notin> set bs \<Longrightarrow> takeWhile (\<lambda>b. b \<noteq> x) bs = bs"
  by (simp add: takeWhile_eq_all_conv) blast

lemma parse_url_parts:
  assumes "SLASH \<notin> set host" and "SLASH \<notin> set port" and "COLON \<notin> set port" and "path = [] \<or> hd path = SLASH"
  shows "parse_url (ascii ''http://'' @ host @ COLON # port @ path) =
    \<lparr>pu_host = host, pu_port = port, pu_path = if path = [] then ascii ''/'' else path\<rparr>"
proof -
  have s: "starts_with (ascii ''http://'') (ascii ''http://'' @ r)" "drop 7 (ascii ''http://'' @ r) = r" for r
    by (simp_all add: starts_with_def ascii_def)
  have hp: "SLASH \<notin> set (host @ COLON # port)" using assms by (simp add: SLASH_def COLON_def)
  have sv: "takeWhile (\<lambda>b. b \<noteq> SLASH) ((host @ COLON # port) @ path) = host @ COLON # port"
    "dropWhile (\<lambda>b. b \<noteq> SLASH) ((host @ COLON # port) @ path) = path"
    using hp assms(4) by (cases path; auto simp: takeWhile_append dropWhile_append)+
  have mem: "SLASH \<in> set ((host @ COLON # port) @ path) \<longleftrightarrow> path \<noteq> []"
    using hp assms(4) by (cases path) auto
  have "takeWhile (\<lambda>b. b \<noteq> COLON) (rev (host @ COLON # port)) = rev port"
    using assms(3) takeWhile_all [of COLON "rev port"] by (simp add: takeWhile_append)
  then have after: "rev (takeWhile (\<lambda>b. b \<noteq> COLON) (rev (host @ COLON # port))) = port" by simp
  have eq: "ascii ''http://'' @ host @ COLON # port @ path = ascii ''http://'' @ ((host @ COLON # port) @ path)" by simp
  have colon: "COLON \<in> set (host @ COLON # port)" by simp
  have host: "take (length (host @ COLON # port) - length port - 1) (host @ COLON # port) = host" by simp
  show ?thesis
    by (simp only: eq parse_url_def Let_def s if_True sv mem after colon host) (cases "path = []"; simp only: if_True if_False simp_thms)
qed

text \<open>
  An alert reaches its webhook: with a URL of the documented form and an environment whose
  calls succeed, whatever the sizes of the partial sends, the detached thread delivers to the host and
  port of the URL one HTTP request whose \<open>Content-Length\<close> is the length of its body, and a JSON reader
  gets from the body exactly the level, name, message and time stamp of the alert, whatever bytes they
  contain; the body has no raw control character.
\<close>

theorem alert_reaches_webhook:
  assumes "al_webhook_url a = ascii ''http://'' @ host @ COLON # port @ path"
    and "host \<noteq> []" and "SLASH \<notin> set host" and "SLASH \<notin> set port" and "COLON \<notin> set port"
    and "0 \<notin> set host" and "0 \<notin> set port" and "path = [] \<or> hd path = SLASH"
    and "he_resolves env host port" and "he_socket env" and "he_connects env" and "list_all (\<lambda>n. 0 < n) (he_sends env)"
    and "int (length (http_request (parse_url (al_webhook_url a)) (build_json level name message ts))) \<le> sum_list (he_sends env)"
  shows "\<exists>body. al_posted (al_fire ts level name message a) = al_posted a @ [body]
    \<and> do_http_post env (al_webhook_url a) body = Some (host, port,
        ascii ''POST '' @ (if path = [] then ascii ''/'' else path) @ ascii '' HTTP/1.0'' @ CRLF @ ascii ''Host: '' @ host @ CRLF
        @ ascii ''Content-Type: application/json'' @ CRLF @ ascii ''Content-Length: '' @ nat_digits (length body) @ CRLF
        @ ascii ''Connection: close'' @ CRLF @ CRLF @ body)
    \<and> read_alert body = Some (level_str level, name, message, unat ts)
    \<and> filter (\<lambda>b. unat b < 32) body = []"
proof (intro exI conjI)
  let ?body = "build_json level name message ts"
  have "al_webhook_url a \<noteq> []" using assms(1) by (simp add: ascii_def)
  then show "al_posted (al_fire ts level name message a) = al_posted a @ [?body]"
    by (simp add: al_fire_def send_async_def Let_def)
  note pu = parse_url_parts [OF assms(3,4,5,8), folded assms(1)]
  have c: "c_str host = host" "c_str port = port" using assms(6,7) by (simp_all add: c_str_def takeWhile_all)
  show "do_http_post env (al_webhook_url a) ?body = Some (host, port,
        ascii ''POST '' @ (if path = [] then ascii ''/'' else path) @ ascii '' HTTP/1.0'' @ CRLF @ ascii ''Host: '' @ host @ CRLF
        @ ascii ''Content-Type: application/json'' @ CRLF @ ascii ''Content-Length: '' @ nat_digits (length ?body) @ CRLF
        @ ascii ''Connection: close'' @ CRLF @ CRLF @ ?body)"
    using assms(2,9,10,11) send_loop_all [OF assms(12,13)]
    by (simp add: do_http_post_def pu c http_request_def)
  show "read_alert ?body = Some (level_str level, name, message, unat ts)" by (rule read_build_json)
  show "filter (\<lambda>b. unat b < 32) ?body = []"
    using build_json_printable by (auto simp: filter_empty_conv dest!: build_json_printable)
qed

theorem alert_reaches_webhook_witness:
  "\<exists>body. do_http_post \<lparr>he_resolves = \<lambda>_ _. True, he_socket = True, he_connects = True, he_sends = [100, 900]\<rparr>
      (ascii ''http://ops:8080/alert'') body = Some (ascii ''ops'', ascii ''8080'',
        ascii ''POST '' @ ascii ''/alert'' @ ascii '' HTTP/1.0'' @ CRLF @ ascii ''Host: '' @ ascii ''ops'' @ CRLF
        @ ascii ''Content-Type: application/json'' @ CRLF @ ascii ''Content-Length: '' @ nat_digits (length body) @ CRLF
        @ ascii ''Connection: close'' @ CRLF @ CRLF @ body)
    \<and> read_alert body = Some (ascii ''WARN'', ascii ''x'', [34, 10, 1], 7)"
proof -
  let ?a = "al_new (ascii ''http://ops:8080/alert'')"
  let ?env = "\<lparr>he_resolves = \<lambda>_ _. True, he_socket = True, he_connects = True, he_sends = [100, 900]\<rparr>"
  have url: "al_webhook_url ?a = ascii ''http://'' @ ascii ''ops'' @ COLON # ascii ''8080'' @ ascii ''/alert''"
    by (simp add: al_new_def ascii_def COLON_def)
  have pu: "parse_url (al_webhook_url ?a) = \<lparr>pu_host = ascii ''ops'', pu_port = ascii ''8080'', pu_path = ascii ''/alert''\<rparr>"
    unfolding url by (subst parse_url_parts) (simp_all add: ascii_def SLASH_def COLON_def)
  have len: "length (build_json WARN (ascii ''x'') [34, 10, 1] 7) = 60"
    by (simp add: build_json_eq json_escape_byte_def hex4_def ascii_def nat_digits.simps)
  then have long: "int (length (http_request (parse_url (al_webhook_url ?a)) (build_json WARN (ascii ''x'') [34, 10, 1] 7))) \<le> sum_list (he_sends ?env)"
    unfolding pu http_request_def by (simp add: ascii_def CRLF_def nat_digits.simps)
  have h: "ascii ''ops'' \<noteq> []" "SLASH \<notin> set (ascii ''ops'')" "SLASH \<notin> set (ascii ''8080'')" "COLON \<notin> set (ascii ''8080'')"
    "0 \<notin> set (ascii ''ops'')" "0 \<notin> set (ascii ''8080'')" "ascii ''/alert'' = [] \<or> hd (ascii ''/alert'') = SLASH"
    "ascii ''/alert'' \<noteq> []"
    by (simp_all add: ascii_def SLASH_def COLON_def)
  have e: "he_resolves ?env (ascii ''ops'') (ascii ''8080'')" "he_socket ?env" "he_connects ?env" "list_all (\<lambda>n. 0 < n) (he_sends ?env)"
    by simp_all
  have u: "al_webhook_url ?a = ascii ''http://ops:8080/alert''" by (simp add: al_new_def)
  from alert_reaches_webhook [OF url h(1-7) e long] show ?thesis
    unfolding u level_str.simps if_not_P [OF h(8)] by (elim exE conjE) (intro exI conjI; simp)
qed

text \<open>The history is the last 1000 alerts, in order; every alert is posted when there is a URL.\<close>

definition al_run :: "(u64 \<times> alert_level \<times> bytes \<times> bytes) list \<Rightarrow> alerting \<Rightarrow> alerting" where
  "al_run es a = fold (\<lambda>(ts, l, n, m). al_fire ts l n m) es a"

lemma al_run_history:
  "al_history (al_run es (al_new url)) =
     recent MAX_HISTORY (map (\<lambda>(ts, l, n, m). \<lparr>at_level = l, at_name = n, at_message = m, at_ts_ns = ts\<rparr>) es)
   \<and> al_posted (al_run es (al_new url)) = (if url = [] then [] else map (\<lambda>(ts, l, n, m). build_json l n m ts) es)
   \<and> al_webhook_url (al_run es (al_new url)) = url"
proof (induction es rule: rev_induct)
  case Nil
  then show ?case by (simp add: al_run_def al_new_def recent_def)
next
  case (snoc e es)
  obtain ts l n m where e: "e = (ts, l, n, m)" by (cases e)
  have s: "al_run (es @ [e]) (al_new url) = al_fire ts l n m (al_run es (al_new url))" by (simp add: al_run_def e)
  have pos: "0 < MAX_HISTORY" by (simp add: MAX_HISTORY_def)
  show ?case
    unfolding s using snoc.IH pos
    by (auto simp: al_fire_def send_async_def Let_def e recent_snoc recent_short)
qed

end
