(* ===== verification/Pipeline.thy ===== *)
theory Pipeline
  imports Market_Maker Pre_Trade_Risk OMS_Refinement Position Routing Order_Book
begin

text \<open>
  \<^verbatim>\<open>src/main.cpp\<close>: the trading process with its market-data, strategy, OMS, gateway and position
  threads.  A thread is a program counter inside its loop; a step of the system is one call that one
  thread makes on a component, in any interleaving.  The calls themselves are taken whole.  The loops
  end when the stop flag is seen, so every run is a prefix of one of these.  The monitor thread only
  reads.
\<close>

subsection \<open>The process\<close>

definition RELAY_DEPTH :: nat where "RELAY_DEPTH = 1024"
definition CLOID_DEPTH :: nat where "CLOID_DEPTH = 4096"
definition ORDER_POOL :: nat where "ORDER_POOL = 65536"

datatype strategy_pc = S_Loop | S_Popped OrderRequest
datatype oms_pc = O_Loop | O_Popped OrderRequest | O_Checked OrderRequest | O_Submitted OrderRequest "nat option"
  | O_Sent nat | O_Acked nat
datatype gw_pc = G_Loop | G_Cloid u64 | G_Fill u64 FillEvent | G_Filled u64 FillEvent
datatype pos_pc = X_Loop | X_Fill FillEvent | X_Booked FillEvent

text \<open>
  The last four fields are ghosts: the orders the OMS took in, the fills it booked, the fills the
  position manager got, and whether a full queue or an exhausted pool has lost an order's identifier
  or a booked fill.
\<close>

record trading =
  tr_books :: book_builder
  tr_mm :: market_maker
  tr_relay :: "OrderRequest spsc"
  tr_risk :: pre_trade_risk
  tr_oms :: oms
  tr_engine :: "sim_gateway smart_router"
  tr_cloids :: "u64 spsc"
  tr_positions :: position_manager
  tr_strategy_pc :: strategy_pc
  tr_oms_pc :: oms_pc
  tr_gw_pc :: gw_pc
  tr_pos_pc :: pos_pc
  tr_strategy_orders :: u64
  tr_submits :: u64
  tr_gw_fills :: u64
  tr_pos_fills :: u64
  tr_accepted :: "(u64 \<times> OrderRequest) list"
  tr_booked :: "FillEvent list"
  tr_applied :: "FillEvent list"
  tr_lost :: bool

record settings =
  cf_daily_loss_limit :: int
  cf_max_order_rate :: int
  cf_max_net_qty :: int
  cf_max_notional :: int
  cf_instrument_id :: InstrumentId
  cf_spread_ticks :: int
  cf_order_qty :: int
  cf_max_inventory :: int

text \<open>What the constructors leave uninitialised: the slots of the queues; and the generator's draws.\<close>

record raw_memory =
  rw_fills :: "FillEvent list"
  rw_orders :: "OrderRequest list"
  rw_cancels :: "u64 list"
  rw_sides :: "Side list"
  rw_relay :: "OrderRequest list"
  rw_cloids :: "u64 list"
  rw_draws :: "nat \<Rightarrow> b64"

definition trading_new :: "int \<Rightarrow> settings \<Rightarrow> raw_memory \<Rightarrow> trading" where
  "trading_new now cf rw = \<lparr>tr_books = Map.empty,
     tr_mm = mm_new (rw_orders rw) (rw_cancels rw) (rw_sides rw) (cf_instrument_id cf) (cf_spread_ticks cf)
               (cf_order_qty cf) (cf_max_inventory cf),
     tr_relay = spsc_new (rw_relay rw),
     tr_risk = \<lparr>ptr_breaker = cb_new (cf_daily_loss_limit cf),
       ptr_limiter = rl_new now (cf_max_order_rate cf) (i64 (cf_max_order_rate cf * 2)),
       ptr_limits = pl_new (cf_max_net_qty cf) (cf_max_notional cf)\<rparr>,
     tr_oms = oms_new ORDER_POOL (fill_tracker_new (rw_fills rw)),
     tr_engine = router_new [Some (sg_new (Fin 1) 1000 (rw_draws rw))],
     tr_cloids = spsc_new (rw_cloids rw), tr_positions = pm_new,
     tr_strategy_pc = S_Loop, tr_oms_pc = O_Loop, tr_gw_pc = G_Loop, tr_pos_pc = X_Loop,
     tr_strategy_orders = 0, tr_submits = 0, tr_gw_fills = 0, tr_pos_fills = 0,
     tr_accepted = [], tr_booked = [], tr_applied = [], tr_lost = False\<rparr>"

subsection \<open>The threads\<close>

text \<open>The callbacks of the market-data thread.\<close>

definition md_bbo :: "BBOEvent \<Rightarrow> trading \<Rightarrow> trading" where
  "md_bbo e s = s\<lparr>tr_books := bb_on_bbo e (tr_books s), tr_mm := dispatch_bbo (register_strategy mm_on_bbo []) e (tr_mm s)\<rparr>"

definition md_depth :: "DepthEvent \<Rightarrow> trading \<Rightarrow> book_fault + trading" where
  "md_depth e s = rbind (bb_on_depth e (tr_books s)) (\<lambda>b. Inr (s\<lparr>tr_books := b\<rparr>))"

definition strategy_iter :: "trading \<Rightarrow> trading" where
  "strategy_iter s = (case tr_strategy_pc s of
       S_Loop \<Rightarrow> (let (m, r) = pop_order (tr_mm s); s1 = s\<lparr>tr_mm := m\<rparr> in
         case r of None \<Rightarrow> s1 | Some req \<Rightarrow> s1\<lparr>tr_strategy_pc := S_Popped req\<rparr>)
     | S_Popped req \<Rightarrow> s\<lparr>tr_relay := fst (spsc_push RELAY_DEPTH req (tr_relay s)),
         tr_strategy_orders := tr_strategy_orders s + 1, tr_strategy_pc := S_Loop\<rparr>)"

definition sim_ack :: "u64 \<Rightarrow> OrderAck" where
  "sim_ack oid = ack0\<lparr>ak_client_order_id := oid, ak_exchange_order_id := oid + 9000, ak_status := NEW\<rparr>"

definition oms_iter :: "Timestamp \<Rightarrow> trading \<Rightarrow> pool_fault + trading" where
  "oms_iter now s = (case tr_oms_pc s of
       O_Loop \<Rightarrow> (let (q, r) = spsc_pop RELAY_DEPTH (tr_relay s); s1 = s\<lparr>tr_relay := q\<rparr> in
         Inr (case r of None \<Rightarrow> s1 | Some req \<Rightarrow> s1\<lparr>tr_oms_pc := O_Popped req\<rparr>))
     | O_Popped req \<Rightarrow> (let (r, ok) = ptr_check (sint now) req (tr_risk s) in
         Inr (s\<lparr>tr_risk := r, tr_oms_pc := if ok then O_Checked req else O_Loop\<rparr>))
     | O_Checked req \<Rightarrow> rbind (oms_submit now req (tr_oms s)) (\<lambda>(om, order).
         Inr (s\<lparr>tr_oms := om, tr_oms_pc := O_Submitted req order,
            tr_accepted := (if order = None then tr_accepted s else tr_accepted s @ [(om_next_order_id (tr_oms s), req)]),
            tr_lost := tr_lost s \<or> order = None\<rparr>))
     | O_Submitted req order \<Rightarrow> Inr (s\<lparr>
            tr_engine := engine_submit sg_send_new_order sg_is_connected sg_get_rtt_ns now req (tr_engine s),
            tr_submits := tr_submits s + 1,
            tr_oms_pc := (case order of None \<Rightarrow> O_Loop | Some i \<Rightarrow> O_Sent i)\<rparr>)
     | O_Sent i \<Rightarrow> rbind (pool_load i (om_pool (tr_oms s))) (\<lambda>order.
         rbind (oms_on_ack (sim_ack (client_order_id order)) (tr_oms s)) (\<lambda>(om, ok).
           Inr (s\<lparr>tr_oms := om, tr_oms_pc := O_Acked i\<rparr>)))
     | O_Acked i \<Rightarrow> rbind (pool_load i (om_pool (tr_oms s))) (\<lambda>order.
         let (q, ok) = spsc_push CLOID_DEPTH (client_order_id order) (tr_cloids s) in
           Inr (s\<lparr>tr_cloids := q, tr_oms_pc := O_Loop, tr_lost := tr_lost s \<or> \<not> ok\<rparr>)))"

text \<open>\<open>sim_gw\<close> is the one gateway of the engine.\<close>

definition gw_pop_fill :: "sim_gateway smart_router \<Rightarrow> sim_gateway smart_router \<times> FillEvent option" where
  "gw_pop_fill e = (case sr_gateways e of
       Some g # gs \<Rightarrow> (let (g', r) = sg_pop_fill g in (e\<lparr>sr_gateways := Some g' # gs\<rparr>, r))
     | _ \<Rightarrow> (e, None))"

definition gw_iter :: "trading \<Rightarrow> pool_fault + trading" where
  "gw_iter s = (case tr_gw_pc s of
       G_Loop \<Rightarrow> (let (q, r) = spsc_pop CLOID_DEPTH (tr_cloids s); s1 = s\<lparr>tr_cloids := q\<rparr> in
         Inr (case r of None \<Rightarrow> s1 | Some cloid \<Rightarrow> s1\<lparr>tr_gw_pc := G_Cloid cloid\<rparr>))
     | G_Cloid cloid \<Rightarrow> (let (e, r) = gw_pop_fill (tr_engine s); s1 = s\<lparr>tr_engine := e\<rparr> in
         Inr (case r of None \<Rightarrow> s1\<lparr>tr_gw_pc := G_Loop\<rparr>
              | Some f \<Rightarrow> s1\<lparr>tr_gw_pc := G_Fill cloid (f\<lparr>fe_client_order_id := cloid\<rparr>)\<rparr>))
     | G_Fill cloid f \<Rightarrow> rbind (oms_on_fill f (tr_oms s)) (\<lambda>(om, ok).
         Inr (s\<lparr>tr_oms := om, tr_gw_pc := G_Filled cloid f,
            tr_booked := (if ok then tr_booked s @ [f] else tr_booked s),
            tr_lost := tr_lost s \<or> (ok \<and> length (ft_pending (om_tracker (tr_oms s))) \<ge> FILL_QUEUE)\<rparr>))
     | G_Filled cloid f \<Rightarrow> Inr (s\<lparr>tr_oms := (if fe_remaining_qty f = 0 then oms_release cloid (tr_oms s) else tr_oms s),
            tr_gw_fills := tr_gw_fills s + 1, tr_gw_pc := G_Loop\<rparr>))"

definition pos_iter :: "trading \<Rightarrow> trading" where
  "pos_iter s = (case tr_pos_pc s of
       X_Loop \<Rightarrow> (let (t, r) = ft_pop_fill (om_tracker (tr_oms s)); s1 = s\<lparr>tr_oms := (tr_oms s)\<lparr>om_tracker := t\<rparr>\<rparr> in
         case r of None \<Rightarrow> s1 | Some f \<Rightarrow> s1\<lparr>tr_pos_pc := X_Fill f\<rparr>)
     | X_Fill f \<Rightarrow> s\<lparr>tr_positions := pm_on_fill f (tr_positions s), tr_applied := tr_applied s @ [f],
         tr_pos_pc := X_Booked f\<rparr>
     | X_Booked f \<Rightarrow> s\<lparr>tr_risk := (tr_risk s)\<lparr>ptr_limits := pl_on_fill (fe_instrument_id f) (fe_side f) (fe_fill_qty f)
           (ptr_limits (tr_risk s))\<rparr>, tr_pos_fills := tr_pos_fills s + 1, tr_pos_pc := X_Loop\<rparr>)"

inductive trading_step :: "trading \<Rightarrow> trading \<Rightarrow> bool" where
  step_md_bbo: "trading_step s (md_bbo e s)"
| step_md_depth: "md_depth e s = Inr s' \<Longrightarrow> trading_step s s'"
| step_strategy: "trading_step s (strategy_iter s)"
| step_oms: "oms_iter now s = Inr s' \<Longrightarrow> trading_step s s'"
| step_gw: "gw_iter s = Inr s' \<Longrightarrow> trading_step s s'"
| step_pos: "trading_step s (pos_iter s)"

inductive trading_reachable :: "trading \<Rightarrow> trading \<Rightarrow> bool" for s0 where
  start: "trading_reachable s0 s0"
| more: "trading_reachable s0 s \<Longrightarrow> trading_step s s' \<Longrightarrow> trading_reachable s0 s'"

subsection \<open>The gateway's fills\<close>

definition req_key :: "OrderRequest \<Rightarrow> InstrumentId \<times> Side \<times> Price \<times> Qty \<times> Qty" where
  "req_key r = (req_instrument_id r, req_side r, req_price r, req_qty r, 0)"

definition fill_key :: "FillEvent \<Rightarrow> InstrumentId \<times> Side \<times> Price \<times> Qty \<times> Qty" where
  "fill_key f = (fe_instrument_id f, fe_side f, fe_fill_price f, fe_fill_qty f, fe_remaining_qty f)"

definition engine_holds :: "sim_gateway smart_router \<Rightarrow> OrderRequest list \<Rightarrow> bool" where
  "engine_holds e rs \<longleftrightarrow> (\<exists>g. sr_gateways e = [Some g] \<and> sr_depth_proxy e = [1] \<and> sg_connected g
     \<and> sg_fill_probability g = Fin 1 \<and> map fill_key (sg_fill_queue g) = map req_key rs)"

lemma engine_holds_new: "engine_holds (router_new [Some (sg_new (Fin 1) l d)]) []"
  by (simp add: engine_holds_def router_new_def sg_new_def)

lemma engine_submit_holds:
  assumes "engine_holds e rs"
  shows "engine_holds (engine_submit sg_send_new_order sg_is_connected sg_get_rtt_ns now req e) (rs @ [req])"
proof -
  obtain g where g: "sr_gateways e = [Some g]" "sr_depth_proxy e = [1]" "sg_connected g" "sg_fill_probability g = Fin 1"
    "map fill_key (sg_fill_queue g) = map req_key rs" using assms by (auto simp: engine_holds_def)
  obtain x where x: "route_score 1 (sg_get_rtt_ns g) = Fin x" "0 \<le> x" using route_score_finite [of 1] by auto
  have sel: "router_select sg_is_connected sg_get_rtt_ns e = Some 0"
    using g x by (simp add: router_select_def select_step_def sg_is_connected_def)
  have le: "b64_le (Fin 1) (sg_fill_probability g)" using g by (simp add: b64_le_def)
  have "fill_key (sg_fill_of now (sg_next_exchange_id g) req) = req_key req"
    by (simp add: fill_key_def req_key_def sg_fill_of_def fill0_def)
  then show ?thesis
    using g sg_send_fills [OF le, of now req] sim.connected_send [of now req g]
    by (simp add: engine_submit_def router_send_def sel engine_holds_def sg_is_connected_def)
qed

lemma gw_pop_fill_holds:
  assumes "engine_holds e (r # rs)"
  shows "\<exists>e' f. gw_pop_fill e = (e', Some f) \<and> engine_holds e' rs \<and> fill_key f = req_key r"
  using assms by (auto simp: engine_holds_def gw_pop_fill_def sg_pop_fill_def split: list.splits)

subsection \<open>The orders the OMS holds\<close>

datatype stage = Fresh | Live | Hit

definition order_at :: "OrderRequest \<Rightarrow> stage \<Rightarrow> Order \<Rightarrow> bool" where
  "order_at r st ord \<longleftrightarrow> (case st of
       Fresh \<Rightarrow> status ord = PENDING_NEW \<and> qty ord = req_qty r \<and> filled_qty ord = 0
     | Live \<Rightarrow> status ord = NEW \<and> qty ord = req_qty r \<and> filled_qty ord = 0
     | Hit \<Rightarrow> True)"

definition entry_held :: "(u64 \<rightharpoonup> Order) \<Rightarrow> u64 \<times> OrderRequest \<times> stage \<Rightarrow> bool" where
  "entry_held m e \<longleftrightarrow> (\<exists>ord. m (fst e) = Some ord \<and> order_at (fst (snd e)) (snd (snd e)) ord)"

lemma entry_held_upd: "fst e \<noteq> oid \<Longrightarrow> entry_held (m(oid := x)) e = entry_held m e"
  by (simp add: entry_held_def)

lemma entries_held_upd: "oid \<notin> fst ` set L \<Longrightarrow> (\<forall>e \<in> set L. entry_held (m(oid := x)) e) = (\<forall>e \<in> set L. entry_held m e)"
  using entry_held_upd by (metis image_eqI)

definition oms_holds :: "oms \<Rightarrow> (u64 \<times> OrderRequest \<times> stage) list \<Rightarrow> bool" where
  "oms_holds s L \<longleftrightarrow> oms_wf s \<and> distinct (map fst L) \<and> dom (oms_abs s) = fst ` set L
     \<and> (\<forall>e \<in> set L. entry_held (oms_abs s) e)"

lemma oms_holds_order:
  assumes "oms_holds s L" and "(oid, r, st) \<in> set L"
  obtains ord i where "oms_abs s oid = Some ord" "order_at r st ord" "map_of (om_orders s) oid = Some i"
    "pool_load i (om_pool s) = Inr ord" "client_order_id ord = oid"
proof -
  obtain ord where o: "oms_abs s oid = Some ord" "order_at r st ord"
    using assms by (force simp: oms_holds_def entry_held_def)
  then obtain i where i: "map_of (om_orders s) oid = Some i" by (auto simp: oms_abs_def split: option.splits)
  have wf: "oms_wf s" using assms(1) by (simp add: oms_holds_def)
  show thesis by (rule oms_wf_lookup [OF wf i]) (use o i in \<open>auto intro: that\<close>)
qed

lemma oms_holds_update:
  assumes "oms_holds s (A @ (oid, r, st) # B)" and "oms_wf s'" and "oms_abs s' = (oms_abs s)(oid \<mapsto> ord)" and "order_at r st' ord"
  shows "oms_holds s' (A @ (oid, r, st') # B)"
proof -
  have d: "oid \<notin> fst ` set (A @ B)" using assms(1) by (auto simp: oms_holds_def)
  have "\<forall>e \<in> set (A @ B). entry_held (oms_abs s') e"
    unfolding assms(3) entries_held_upd [OF d] using assms(1) by (simp add: oms_holds_def)
  moreover have "entry_held (oms_abs s') (oid, r, st')" using assms(3,4) by (simp add: entry_held_def)
  ultimately show ?thesis using assms by (auto simp: oms_holds_def)
qed

lemma oms_submit_slot:
  assumes "oms_submit now req s = Inr (s', Some i)" and "map_of (om_orders s) (om_next_order_id s) = None"
  shows "map_of (om_orders s') (om_next_order_id s) = Some i"
proof -
  obtain p1 raw where a: "pool_acquire (om_pool s) = Inr (p1, raw)"
    using assms(1) by (cases "pool_acquire (om_pool s)") (auto simp: oms_submit_def)
  with assms(1) obtain j where j: "raw = Some j" by (cases raw) (auto simp: oms_submit_def)
  obtain p2 where "pool_store j (new_order (om_next_order_id s) now req) p1 = Inr p2"
    using assms(1) a j
    by (cases "pool_store j (new_order (om_next_order_id s) now req) p1") (auto simp: oms_submit_def Let_def)
  with assms a j show ?thesis by (auto simp: oms_submit_def map_emplace_def Let_def)
qed

lemma oms_submit_holds:
  assumes "oms_holds s L" and "unat (om_next_order_id s) + 1 < 2 ^ 64"
  shows "\<exists>s' order. oms_submit now req s = Inr (s', order) \<and> om_tracker s' = om_tracker s
    \<and> (case order of None \<Rightarrow> s' = s
       | Some i \<Rightarrow> oms_holds s' (L @ [(om_next_order_id s, req, Fresh)])
           \<and> map_of (om_orders s') (om_next_order_id s) = Some i \<and> om_next_order_id s' = om_next_order_id s + 1)"
proof (cases "pool_free (om_pool s) = []")
  case True
  then show ?thesis using oms_submit_full [of s now req] assms(1) by (simp add: oms_holds_def)
next
  case False
  have wf: "oms_wf s" using assms(1) by (simp add: oms_holds_def)
  obtain s' i where s': "oms_submit now req s = Inr (s', Some i)" "oms_wf s'"
    "oms_abs s' = (oms_abs s)(om_next_order_id s \<mapsto> new_order (om_next_order_id s) now req)"
    "om_next_order_id s' = om_next_order_id s + 1" "om_tracker s' = om_tracker s"
    using oms_submit_room [OF wf _ assms(2), of now req] False by blast
  have fresh: "oms_abs s (om_next_order_id s) = None" "map_of (om_orders s) (om_next_order_id s) = None"
    using oms_abs_fresh [OF wf] by simp_all
  then have "om_next_order_id s \<notin> fst ` set L" using assms(1) by (auto simp: oms_holds_def domIff)
  then have d: "om_next_order_id s \<notin> fst ` set L" .
  have "\<forall>e \<in> set L. entry_held (oms_abs s') e"
    unfolding s'(3) entries_held_upd [OF d] using assms(1) by (simp add: oms_holds_def)
  moreover have "entry_held (oms_abs s') (om_next_order_id s, req, Fresh)"
    using s'(3) by (simp add: entry_held_def order_at_def new_order_def)
  ultimately have "oms_holds s' (L @ [(om_next_order_id s, req, Fresh)])"
    using assms(1) s' d by (simp add: oms_holds_def)
  moreover have "map_of (om_orders s') (om_next_order_id s) = Some i"
    by (rule oms_submit_slot [OF s'(1) fresh(2)])
  ultimately show ?thesis using s'(1,4,5) by (intro exI [of _ s'] exI [of _ "Some i"]) simp
qed

lemma oms_holds_tracker [simp]: "oms_holds (s\<lparr>om_tracker := t\<rparr>) L = oms_holds s L"
  using oms_view_tracker [where s = s and t = t] by (simp add: oms_holds_def oms_view_def)

lemma oms_ack_holds:
  assumes "oms_holds s (A @ (oid, r, Fresh) # B)"
  shows "\<exists>s'. oms_on_ack (sim_ack oid) s = Inr (s', True) \<and> oms_holds s' (A @ (oid, r, Live) # B)
    \<and> om_orders s' = om_orders s \<and> om_tracker s' = om_tracker s \<and> om_next_order_id s' = om_next_order_id s"
proof -
  have mem: "(oid, r, Fresh) \<in> set (A @ (oid, r, Fresh) # B)" by simp
  obtain ord i where o: "oms_abs s oid = Some ord" "order_at r Fresh ord" "map_of (om_orders s) oid = Some i"
    "pool_load i (om_pool s) = Inr ord" "client_order_id ord = oid" by (rule oms_holds_order [OF assms mem])
  have wf: "oms_wf s" using assms by (simp add: oms_holds_def)
  let ?x = "(ord\<lparr>exchange_order_id := oid + 9000, ack_ts_ns := 0\<rparr>)\<lparr>status := NEW\<rparr>"
  have x: "client_order_id ?x = oid" using o by simp
  obtain p where p: "pool_store i ?x (om_pool s) = Inr p" "oms_wf (s\<lparr>om_pool := p\<rparr>)"
    "oms_abs (s\<lparr>om_pool := p\<rparr>) = (oms_abs s)(oid \<mapsto> ?x)" using oms_update [OF wf o(3) x] by blast
  have "oms_on_ack (sim_ack oid) s = Inr (s\<lparr>om_pool := p\<rparr>, True)"
    using o p(1) by (simp add: oms_on_ack_def oms_find_def sim_ack_def ack0_def order_at_def transition_def transition_valid_def Let_def)
  moreover have "order_at r Live ?x" using o(2) by (simp add: order_at_def)
  note oms_holds_update [OF assms p(2,3) this]
  ultimately show ?thesis by (intro exI [of _ "s\<lparr>om_pool := p\<rparr>"]) simp
qed

lemma oms_fill_holds:
  assumes "oms_holds s (A @ (oid, r, Live) # B)" and "fe_client_order_id f = oid" and "fe_fill_qty f = req_qty r"
  shows "\<exists>s'. oms_on_fill f s = Inr (s', 0 < req_qty r) \<and> oms_holds s' (A @ (oid, r, Hit) # B)
    \<and> om_orders s' = om_orders s \<and> om_next_order_id s' = om_next_order_id s
    \<and> om_tracker s' = (if 0 < req_qty r then ft_on_fill f (om_tracker s) else om_tracker s)"
proof -
  have mem: "(oid, r, Live) \<in> set (A @ (oid, r, Live) # B)" by simp
  obtain ord i where o: "oms_abs s oid = Some ord" "order_at r Live ord" "map_of (om_orders s) oid = Some i"
    "pool_load i (om_pool s) = Inr ord" "client_order_id ord = oid" by (rule oms_holds_order [OF assms(1) mem])
  have wf: "oms_wf s" using assms by (simp add: oms_holds_def)
  define x where "x = fst (apply_fill ord (req_qty r))"
  have x: "client_order_id x = oid" using o(5) by (simp add: x_def apply_fill_frame)
  have ok: "snd (apply_fill ord (req_qty r)) \<longleftrightarrow> 0 < req_qty r"
    using o(2) by (simp add: apply_fill_def order_at_def is_active_def transition_def transition_valid_def Let_def)
  obtain p where p: "pool_store i x (om_pool s) = Inr p" "oms_wf (s\<lparr>om_pool := p\<rparr>)"
    "oms_abs (s\<lparr>om_pool := p\<rparr>) = (oms_abs s)(oid \<mapsto> x)" using oms_update [OF wf o(3) x] by blast
  let ?s = "s\<lparr>om_pool := p, om_tracker := if 0 < req_qty r then ft_on_fill f (om_tracker s) else om_tracker s\<rparr>"
  have "oms_on_fill f s = Inr (?s, 0 < req_qty r)"
    using o(3,4) p(1) ok assms(2,3) by (simp add: oms_on_fill_def oms_find_def x_def Let_def case_prod_beta)
  moreover have "order_at r Hit x" by (simp add: order_at_def)
  note oms_holds_update [OF assms(1) p(2,3) this]
  ultimately show ?thesis by (intro exI [of _ ?s]) simp
qed

lemma oms_release_holds:
  assumes "oms_holds s ((oid, r, st) # B)"
  shows "oms_holds (oms_release oid s) B" and "om_tracker (oms_release oid s) = om_tracker s"
    and "om_next_order_id (oms_release oid s) = om_next_order_id s"
    and "k \<noteq> oid \<Longrightarrow> map_of (om_orders (oms_release oid s)) k = map_of (om_orders s) k"
proof -
  have wf: "oms_wf s" and d: "oid \<notin> fst ` set B" using assms by (auto simp: oms_holds_def)
  note rel = oms_release_correct [OF wf, of oid]
  have "\<forall>e \<in> set B. entry_held (oms_abs (oms_release oid s)) e"
    using rel entries_held_upd [OF d, of "oms_abs s" None] assms by (simp add: oms_holds_def)
  then show "oms_holds (oms_release oid s) B" using rel assms d by (auto simp: oms_holds_def)
  show "om_tracker (oms_release oid s) = om_tracker s" "om_next_order_id (oms_release oid s) = om_next_order_id s"
    "k \<noteq> oid \<Longrightarrow> map_of (om_orders (oms_release oid s)) k = map_of (om_orders s) k"
    by (simp_all add: oms_release_def map_of_erase split: option.split)
qed

lemma oms_holds_active: "oms_holds s L \<Longrightarrow> oms_active_orders s = length L"
proof -
  assume h: "oms_holds s L"
  then have wf: "oms_wf s" and d: "dom (oms_abs s) = fst ` set L" by (simp_all add: oms_holds_def)
  have "card (fst ` set L) = oms_active_orders s" using oms_card_dom [OF wf] d by simp
  moreover have "card (fst ` set L) = length L" using h distinct_card [of "map fst L"] by (simp add: oms_holds_def)
  ultimately show ?thesis by simp
qed

subsection \<open>The invariant\<close>

text \<open>
  The accepted orders in their order: done, with the gateway thread, identifier queued, still with the
  OMS thread.
\<close>

definition order_key :: "u64 \<times> OrderRequest \<Rightarrow> u64 \<times> InstrumentId \<times> Side \<times> Price \<times> Qty \<times> Qty" where
  "order_key e = (fst e, req_key (snd e))"

definition booked_key :: "FillEvent \<Rightarrow> u64 \<times> InstrumentId \<times> Side \<times> Price \<times> Qty \<times> Qty" where
  "booked_key f = (fe_client_order_id f, fill_key f)"

definition fillable :: "(u64 \<times> OrderRequest) list \<Rightarrow> (u64 \<times> OrderRequest) list" where
  "fillable L = filter (\<lambda>e. 0 < req_qty (snd e)) L"

definition tagged :: "stage \<Rightarrow> (u64 \<times> OrderRequest) list \<Rightarrow> (u64 \<times> OrderRequest \<times> stage) list" where
  "tagged st L = map (\<lambda>e. (fst e, snd e, st)) L"

lemma tagged_simps [simp]: "tagged st [] = []" "tagged st (e # L) = (fst e, snd e, st) # tagged st L"
  "tagged st (L @ L') = tagged st L @ tagged st L'" "length (tagged st L) = length L"
  by (simp_all add: tagged_def)

lemma fillable_simps [simp]: "fillable [] = []" "fillable (L @ L') = fillable L @ fillable L'"
  "fillable [e] = (if 0 < req_qty (snd e) then [e] else [])"
  by (simp_all add: fillable_def)

fun gw_stage :: "gw_pc \<Rightarrow> stage" where
  "gw_stage (G_Filled c f) = Hit" | "gw_stage _ = Live"

fun oms_stage :: "oms_pc \<Rightarrow> stage" where
  "oms_stage (O_Acked i) = Live" | "oms_stage _ = Fresh"

fun unfilled :: "gw_pc \<Rightarrow> 'a list \<Rightarrow> 'a list" where
  "unfilled (G_Cloid c) C = C" | "unfilled _ C = []"

fun booked_of :: "gw_pc \<Rightarrow> 'a list \<Rightarrow> 'a list" where
  "booked_of (G_Filled c f) C = C" | "booked_of _ C = []"

fun sent_of :: "oms_pc \<Rightarrow> 'a list \<Rightarrow> 'a list" where
  "sent_of (O_Submitted r x) P = []" | "sent_of _ P = P"

fun in_flight :: "pos_pc \<Rightarrow> FillEvent list" where
  "in_flight (X_Fill f) = [f]" | "in_flight _ = []"

fun gw_has :: "gw_pc \<Rightarrow> (u64 \<times> OrderRequest) list \<Rightarrow> bool" where
  "gw_has G_Loop C = (C = [])"
| "gw_has (G_Cloid c) C = (\<exists>r. C = [(c, r)])"
| "gw_has (G_Fill c f) C = (\<exists>r. C = [(c, r)] \<and> fe_client_order_id f = c \<and> fill_key f = req_key r)"
| "gw_has (G_Filled c f) C = (\<exists>r. C = [(c, r)] \<and> fe_client_order_id f = c \<and> fill_key f = req_key r)"

fun oms_has :: "(u64 \<rightharpoonup> nat) \<Rightarrow> oms_pc \<Rightarrow> (u64 \<times> OrderRequest) list \<Rightarrow> bool" where
  "oms_has m (O_Submitted r x) P = (\<exists>oid i. x = Some i \<and> P = [(oid, r)] \<and> m oid = Some i)"
| "oms_has m (O_Sent i) P = (\<exists>oid r. P = [(oid, r)] \<and> m oid = Some i)"
| "oms_has m (O_Acked i) P = (\<exists>oid r. P = [(oid, r)] \<and> m oid = Some i)"
| "oms_has m pc P = (P = [])"

definition pipe_inv :: "trading \<Rightarrow> (u64 \<times> OrderRequest) list \<Rightarrow> (u64 \<times> OrderRequest) list
    \<Rightarrow> (u64 \<times> OrderRequest) list \<Rightarrow> (u64 \<times> OrderRequest) list \<Rightarrow> bool" where
  "pipe_inv s D C Q P \<longleftrightarrow>
     tr_accepted s = D @ C @ Q @ P
   \<and> spsc_wf CLOID_DEPTH (tr_cloids s) \<and> spsc_contents CLOID_DEPTH (tr_cloids s) = map fst Q
   \<and> engine_holds (tr_engine s) (map snd (unfilled (tr_gw_pc s) C @ Q @ sent_of (tr_oms_pc s) P))
   \<and> oms_holds (tr_oms s) (tagged (gw_stage (tr_gw_pc s)) C @ tagged Live Q @ tagged (oms_stage (tr_oms_pc s)) P)
   \<and> gw_has (tr_gw_pc s) C \<and> oms_has (map_of (om_orders (tr_oms s))) (tr_oms_pc s) P
   \<and> map booked_key (tr_booked s) = map order_key (fillable (D @ booked_of (tr_gw_pc s) C))
   \<and> ft_wf (om_tracker (tr_oms s)) \<and> tr_applied s @ in_flight (tr_pos_pc s) @ ft_pending (om_tracker (tr_oms s)) = tr_booked s
   \<and> tr_positions s = fold pm_on_fill (tr_applied s) pm_new
   \<and> unat (om_next_order_id (tr_oms s)) = length (tr_accepted s) + 1"

lemma pipe_invD:
  assumes "pipe_inv s D C Q P"
  shows "tr_accepted s = D @ C @ Q @ P"
    and "spsc_wf CLOID_DEPTH (tr_cloids s)" and "spsc_contents CLOID_DEPTH (tr_cloids s) = map fst Q"
    and "engine_holds (tr_engine s) (map snd (unfilled (tr_gw_pc s) C @ Q @ sent_of (tr_oms_pc s) P))"
    and "oms_holds (tr_oms s) (tagged (gw_stage (tr_gw_pc s)) C @ tagged Live Q @ tagged (oms_stage (tr_oms_pc s)) P)"
    and "gw_has (tr_gw_pc s) C" and "oms_has (map_of (om_orders (tr_oms s))) (tr_oms_pc s) P"
    and "map booked_key (tr_booked s) = map order_key (fillable (D @ booked_of (tr_gw_pc s) C))"
    and "ft_wf (om_tracker (tr_oms s))"
    and "tr_applied s @ in_flight (tr_pos_pc s) @ ft_pending (om_tracker (tr_oms s)) = tr_booked s"
    and "tr_positions s = fold pm_on_fill (tr_applied s) pm_new"
    and "unat (om_next_order_id (tr_oms s)) = length (tr_accepted s) + 1"
  using assms by (auto simp: pipe_inv_def)

text \<open>The threads that touch none of this, and the position thread.\<close>

lemma pipe_inv_strategy: "pipe_inv s D C Q P \<Longrightarrow> pipe_inv (strategy_iter s) D C Q P"
  by (simp add: strategy_iter_def pipe_inv_def Let_def case_prod_beta split: strategy_pc.split option.split)

lemma pipe_inv_md: "pipe_inv s D C Q P \<Longrightarrow> pipe_inv (md_bbo e s) D C Q P"
  "pipe_inv s D C Q P \<Longrightarrow> md_depth d s = Inr s' \<Longrightarrow> pipe_inv s' D C Q P"
  by (auto simp: md_bbo_def md_depth_def pipe_inv_def rbind_Inr_iff)

lemma pipe_inv_pos:
  assumes "pipe_inv s D C Q P"
  shows "pipe_inv (pos_iter s) D C Q P"
proof (cases "tr_pos_pc s")
  case X_Loop
  have w: "ft_wf (om_tracker (tr_oms s))" by (rule pipe_invD [OF assms])
  obtain t r where t: "ft_pop_fill (om_tracker (tr_oms s)) = (t, r)" by force
  have q: "ft_wf t" "r = (case ft_pending (om_tracker (tr_oms s)) of [] \<Rightarrow> None | f # fs \<Rightarrow> Some f)"
    "ft_pending t = tl (ft_pending (om_tracker (tr_oms s)))"
    using ft_pop_fill_wf [OF w] t ring.pop_value [of FILL_QUEUE "ft_queue (om_tracker (tr_oms s))"]
      ring.pop_contents [of FILL_QUEUE "ft_queue (om_tracker (tr_oms s))"] w
    by (auto simp: ft_pop_fill_def ft_wf_def Let_def case_prod_beta)
  show ?thesis
  proof (cases "ft_pending (om_tracker (tr_oms s))")
    case Nil
    then show ?thesis using pipe_invD [OF assms] X_Loop t q by (simp add: pos_iter_def pipe_inv_def)
  next
    case (Cons f fs)
    then show ?thesis using pipe_invD [OF assms] X_Loop t q by (simp add: pos_iter_def pipe_inv_def)
  qed
next
  case (X_Fill f)
  then show ?thesis using pipe_invD [OF assms] by (simp add: pos_iter_def pipe_inv_def)
next
  case (X_Booked f)
  then show ?thesis using pipe_invD [OF assms] by (simp add: pos_iter_def pipe_inv_def)
qed

text \<open>The OMS thread.\<close>

lemma oms_iter_submit:
  assumes inv: "pipe_inv s D C Q P" and pc: "tr_oms_pc s = O_Checked req" and small: "length (tr_accepted s) < 2 ^ 64 - 2"
  shows "\<exists>s'. oms_iter now s = Inr s' \<and> (\<not> tr_lost s' \<longrightarrow> pipe_inv s' D C Q [(om_next_order_id (tr_oms s), req)])"
proof -
  note i = pipe_invD [OF inv]
  have P: "P = []" using i(7) pc by simp
  have n: "unat (om_next_order_id (tr_oms s)) + 1 < 2 ^ 64" using i(12) small by simp
  obtain om order where om: "oms_submit now req (tr_oms s) = Inr (om, order)" "om_tracker om = om_tracker (tr_oms s)"
    "case order of None \<Rightarrow> om = tr_oms s
     | Some k \<Rightarrow> oms_holds om ((tagged (gw_stage (tr_gw_pc s)) C @ tagged Live Q @ tagged (oms_stage (tr_oms_pc s)) P)
           @ [(om_next_order_id (tr_oms s), req, Fresh)])
         \<and> map_of (om_orders om) (om_next_order_id (tr_oms s)) = Some k
         \<and> om_next_order_id om = om_next_order_id (tr_oms s) + 1"
    using oms_submit_holds [OF i(5) n, of now req] by blast
  show ?thesis
  proof (cases order)
    case None
    then show ?thesis using om(1) pc by (simp add: oms_iter_def)
  next
    case (Some k)
    have "unat (om_next_order_id om) = unat (om_next_order_id (tr_oms s)) + 1"
      using om(3) Some unat_Suc_u64 [OF n] by simp
    then show ?thesis using om Some pc i P by (simp add: oms_iter_def pipe_inv_def)
  qed
qed

lemma oms_iter_ack:
  assumes inv: "pipe_inv s D C Q P" and pc: "tr_oms_pc s = O_Sent k"
  shows "\<exists>s'. oms_iter now s = Inr s' \<and> pipe_inv s' D C Q P"
proof -
  note i = pipe_invD [OF inv]
  obtain oid r where P: "P = [(oid, r)]" and k: "map_of (om_orders (tr_oms s)) oid = Some k" using i(7) pc by auto
  let ?A = "tagged (gw_stage (tr_gw_pc s)) C @ tagged Live Q"
  have h: "oms_holds (tr_oms s) (?A @ (oid, r, Fresh) # [])" using i(5) by (simp add: P pc)
  have mem: "(oid, r, Fresh) \<in> set (?A @ (oid, r, Fresh) # [])" by simp
  obtain ord where ord: "pool_load k (om_pool (tr_oms s)) = Inr ord" "client_order_id ord = oid"
    using k by (rule_tac oms_holds_order [OF h mem]) auto
  obtain om where om: "oms_on_ack (sim_ack oid) (tr_oms s) = Inr (om, True)" "oms_holds om (?A @ (oid, r, Live) # [])"
    "om_orders om = om_orders (tr_oms s)" "om_tracker om = om_tracker (tr_oms s)"
    "om_next_order_id om = om_next_order_id (tr_oms s)"
    using oms_ack_holds [OF h] by blast
  then show ?thesis using ord pc i P k by (simp add: oms_iter_def pipe_inv_def)
qed

lemma oms_iter_push:
  assumes inv: "pipe_inv s D C Q P" and pc: "tr_oms_pc s = O_Acked k"
  shows "\<exists>s'. oms_iter now s = Inr s' \<and> (\<not> tr_lost s' \<longrightarrow> pipe_inv s' D C (Q @ P) [])"
proof -
  note i = pipe_invD [OF inv]
  obtain oid r where P: "P = [(oid, r)]" and k: "map_of (om_orders (tr_oms s)) oid = Some k" using i(7) pc by auto
  let ?A = "tagged (gw_stage (tr_gw_pc s)) C @ tagged Live Q"
  have h: "oms_holds (tr_oms s) (?A @ (oid, r, Live) # [])" using i(5) by (simp add: P pc)
  have mem: "(oid, r, Live) \<in> set (?A @ (oid, r, Live) # [])" by simp
  obtain ord where ord: "pool_load k (om_pool (tr_oms s)) = Inr ord" "client_order_id ord = oid"
    using k by (rule_tac oms_holds_order [OF h mem]) auto
  obtain q ok where q: "spsc_push CLOID_DEPTH oid (tr_cloids s) = (q, ok)" by force
  have "ok = (length (map fst Q) < CLOID_DEPTH)" "spsc_wf CLOID_DEPTH q"
    "spsc_contents CLOID_DEPTH q = (if length (map fst Q) < CLOID_DEPTH then map fst Q @ [oid] else map fst Q)"
    using ring.push_ok [OF i(2), of oid] ring.push_wf [OF i(2), of oid] ring.push_contents [OF i(2), of oid] q i(3) by simp_all
  then show ?thesis using ord q pc i P by (simp add: oms_iter_def pipe_inv_def Let_def)
qed

lemma oms_iter_inv:
  assumes inv: "pipe_inv s D C Q P" and small: "length (tr_accepted s) < 2 ^ 64 - 2" and keep: "\<not> tr_lost s"
  shows "\<exists>s'. oms_iter now s = Inr s' \<and> (\<not> tr_lost s' \<longrightarrow> (\<exists>Q' P'. pipe_inv s' D C Q' P'))"
proof (cases "tr_oms_pc s")
  case O_Loop
  then show ?thesis
    using inv by (auto simp: oms_iter_def pipe_inv_def Let_def case_prod_beta split: option.split)
next
  case (O_Popped req)
  then show ?thesis using inv by (auto simp: oms_iter_def pipe_inv_def Let_def case_prod_beta)
next
  case (O_Checked req)
  then show ?thesis using oms_iter_submit [OF inv O_Checked small] by blast
next
  case (O_Submitted req x)
  then obtain oid i where "x = Some i" "P = [(oid, req)]" using pipe_invD(7) [OF inv] by auto
  with O_Submitted have "oms_iter now s = Inr (s\<lparr>tr_engine := engine_submit sg_send_new_order sg_is_connected sg_get_rtt_ns now req (tr_engine s),
      tr_submits := tr_submits s + 1, tr_oms_pc := O_Sent i\<rparr>)"
    by (simp add: oms_iter_def)
  moreover have "pipe_inv (s\<lparr>tr_engine := engine_submit sg_send_new_order sg_is_connected sg_get_rtt_ns now req (tr_engine s),
      tr_submits := tr_submits s + 1, tr_oms_pc := O_Sent i\<rparr>) D C Q P"
    using inv O_Submitted \<open>P = _\<close> \<open>x = _\<close> engine_submit_holds [OF pipe_invD(4) [OF inv], of now req]
    by (simp add: pipe_inv_def)
  ultimately show ?thesis by blast
next
  case (O_Sent k)
  then show ?thesis using oms_iter_ack [OF inv O_Sent] by blast
next
  case (O_Acked k)
  then show ?thesis using oms_iter_push [OF inv O_Acked] by blast
qed

text \<open>The gateway thread.\<close>

lemma gw_iter_take:
  assumes inv: "pipe_inv s D C Q P" and pc: "tr_gw_pc s = G_Loop"
  shows "\<exists>s'. gw_iter s = Inr s' \<and> (\<exists>C' Q'. pipe_inv s' D C' Q' P)"
proof -
  note i = pipe_invD [OF inv]
  have C: "C = []" using i(6) pc by simp
  obtain q r where q: "spsc_pop CLOID_DEPTH (tr_cloids s) = (q, r)" by force
  have qc: "r = (case map fst Q of [] \<Rightarrow> None | c # cs \<Rightarrow> Some c)" "spsc_wf CLOID_DEPTH q"
    "spsc_contents CLOID_DEPTH q = tl (map fst Q)"
    using ring.pop_value [OF i(2)] ring.pop_wf [OF i(2)] ring.pop_contents [OF i(2)] q i(3) by simp_all
  show ?thesis
  proof (cases Q)
    case Nil
    then have "pipe_inv (s\<lparr>tr_cloids := q\<rparr>) D C Q P" using i qc by (simp add: pipe_inv_def)
    moreover have "gw_iter s = Inr (s\<lparr>tr_cloids := q\<rparr>)" using Nil pc q qc(1) by (simp add: gw_iter_def)
    ultimately show ?thesis by blast
  next
    case (Cons e Q')
    let ?s = "s\<lparr>tr_cloids := q, tr_gw_pc := G_Cloid (fst e)\<rparr>"
    have "pipe_inv ?s D [e] Q' P" using i qc C pc Cons by (simp add: pipe_inv_def) (metis prod.collapse)
    moreover have "gw_iter s = Inr ?s" using Cons pc q qc(1) by (simp add: gw_iter_def)
    ultimately show ?thesis by blast
  qed
qed

lemma gw_iter_pop:
  assumes inv: "pipe_inv s D C Q P" and pc: "tr_gw_pc s = G_Cloid c"
  shows "\<exists>s'. gw_iter s = Inr s' \<and> pipe_inv s' D C Q P"
proof -
  note i = pipe_invD [OF inv]
  obtain r where C: "C = [(c, r)]" using i(6) pc by auto
  then have "engine_holds (tr_engine s) (r # map snd (Q @ sent_of (tr_oms_pc s) P))" using i(4) pc by simp
  from gw_pop_fill_holds [OF this] obtain e f where e: "gw_pop_fill (tr_engine s) = (e, Some f)"
    "engine_holds e (map snd (Q @ sent_of (tr_oms_pc s) P))" "fill_key f = req_key r" by blast
  have "fill_key (f\<lparr>fe_client_order_id := c\<rparr>) = req_key r" using e(3) by (simp add: fill_key_def)
  then show ?thesis using i e pc C by (simp add: gw_iter_def pipe_inv_def)
qed

lemma gw_iter_book:
  assumes inv: "pipe_inv s D C Q P" and pc: "tr_gw_pc s = G_Fill c f"
  shows "\<exists>s'. gw_iter s = Inr s' \<and> (\<not> tr_lost s' \<longrightarrow> pipe_inv s' D C Q P)"
proof -
  note i = pipe_invD [OF inv]
  obtain r where C: "C = [(c, r)]" and f: "fe_client_order_id f = c" "fill_key f = req_key r" using i(6) pc by auto
  have h: "oms_holds (tr_oms s) ([] @ (c, r, Live) # (tagged Live Q @ tagged (oms_stage (tr_oms_pc s)) P))"
    using i(5) by (simp add: C pc)
  have fq: "fe_fill_qty f = req_qty r" using f(2) by (simp add: fill_key_def req_key_def)
  obtain om where om: "oms_on_fill f (tr_oms s) = Inr (om, 0 < req_qty r)"
    "oms_holds om ([] @ (c, r, Hit) # (tagged Live Q @ tagged (oms_stage (tr_oms_pc s)) P))"
    "om_orders om = om_orders (tr_oms s)" "om_next_order_id om = om_next_order_id (tr_oms s)"
    "om_tracker om = (if 0 < req_qty r then ft_on_fill f (om_tracker (tr_oms s)) else om_tracker (tr_oms s))"
    using oms_fill_holds [OF h f(1) fq] by blast
  have key: "booked_key f = order_key (c, r)" using f by (simp add: booked_key_def order_key_def)
  show ?thesis
  proof (cases "0 < req_qty r")
    case True
    have "ft_pending (om_tracker om) = ft_pending (om_tracker (tr_oms s)) @ [f]"
      if "length (ft_pending (om_tracker (tr_oms s))) < FILL_QUEUE"
      using ft_pending_on_fill [OF i(9), of f] om(5) True that by simp
    moreover have "ft_wf (om_tracker om)" using ft_on_fill_wf [OF i(9), of f] om(5) True by simp
    ultimately show ?thesis
      using i om True pc C key by (simp add: gw_iter_def pipe_inv_def not_le flip: append_assoc del: length_spsc_contents)
  next
    case False
    then show ?thesis using i om pc C by (simp add: gw_iter_def pipe_inv_def)
  qed
qed

lemma gw_iter_release:
  assumes inv: "pipe_inv s D C Q P" and pc: "tr_gw_pc s = G_Filled c f"
  shows "\<exists>s'. gw_iter s = Inr s' \<and> pipe_inv s' (D @ C) [] Q P"
proof -
  note i = pipe_invD [OF inv]
  obtain r where C: "C = [(c, r)]" and f: "fill_key f = req_key r" using i(6) pc by auto
  have rem: "fe_remaining_qty f = 0" using f by (simp add: fill_key_def req_key_def)
  have h: "oms_holds (tr_oms s) ((c, r, Hit) # (tagged Live Q @ tagged (oms_stage (tr_oms_pc s)) P))"
    using i(5) by (simp add: C pc)
  note rel = oms_release_holds [OF h]
  have "c \<noteq> fst e" if "e \<in> set P" for e using h that by (force simp: oms_holds_def tagged_def)
  then have "oms_has (map_of (om_orders (oms_release c (tr_oms s)))) (tr_oms_pc s) P"
    using i(7) rel(4) by (cases "tr_oms_pc s") auto
  then show ?thesis using i rel rem pc C by (simp add: gw_iter_def pipe_inv_def)
qed

lemma gw_iter_inv:
  assumes inv: "pipe_inv s D C Q P"
  shows "\<exists>s'. gw_iter s = Inr s' \<and> (\<not> tr_lost s' \<longrightarrow> (\<exists>D' C' Q'. pipe_inv s' D' C' Q' P))"
proof (cases "tr_gw_pc s")
  case G_Loop
  then show ?thesis using gw_iter_take [OF inv] by blast
next
  case (G_Cloid c)
  then show ?thesis using gw_iter_pop [OF inv] by blast
next
  case (G_Fill c f)
  then show ?thesis using gw_iter_book [OF inv] by blast
next
  case (G_Filled c f)
  then show ?thesis using gw_iter_release [OF inv] by blast
qed

subsection \<open>The reserved position\<close>

definition req_delta :: "nat \<Rightarrow> OrderRequest \<Rightarrow> int" where
  "req_delta k r = (if unat (req_instrument_id r) = k then signed_qty (req_side r) (req_qty r) else 0)"

fun checked :: "oms_pc \<Rightarrow> OrderRequest list" where
  "checked (O_Checked r) = [r]" | "checked _ = []"

definition limit_inv :: "Qty \<Rightarrow> trading \<Rightarrow> bool" where
  "limit_inv maxq s \<longleftrightarrow> pl_max_net_qty (ptr_limits (tr_risk s)) = maxq
     \<and> (\<forall>k < MAX_INSTRUMENTS. \<bar>pl_slots (ptr_limits (tr_risk s)) k\<bar> \<le> maxq
          \<and> pl_slots (ptr_limits (tr_risk s)) k = i64 (\<Sum>r\<leftarrow>map snd (tr_accepted s) @ checked (tr_oms_pc s). req_delta k r))"

lemma reserve_delta_signed: "i64 (x + reserve_delta s q) = i64 (x + signed_qty s q)"
  by (cases s) (simp_all add: reserve_delta_def i64_simps)

lemma ptr_check_limits:
  assumes "ptr_check now req r = (r', ok)" and "0 \<le> pl_max_net_qty (ptr_limits r)" and "pl_max_net_qty (ptr_limits r) < 2 ^ 63"
  shows "pl_max_net_qty (ptr_limits r') = pl_max_net_qty (ptr_limits r)"
    and "\<not> ok \<Longrightarrow> ptr_limits r' = ptr_limits r"
    and "ok \<Longrightarrow> pl_slots (ptr_limits r') k = (if k = unat (req_instrument_id req)
            then i64 (pl_slots (ptr_limits r) k + signed_qty (req_side req) (req_qty req)) else pl_slots (ptr_limits r) k)
          \<and> (k = unat (req_instrument_id req) \<longrightarrow> \<bar>pl_slots (ptr_limits r') k\<bar> \<le> pl_max_net_qty (ptr_limits r))"
proof -
  have neg: "i64 (- pl_max_net_qty (ptr_limits r)) = - pl_max_net_qty (ptr_limits r)"
    using assms(2,3) by (intro i64_id) (simp add: in_i64_def)
  show "pl_max_net_qty (ptr_limits r') = pl_max_net_qty (ptr_limits r)" "\<not> ok \<Longrightarrow> ptr_limits r' = ptr_limits r"
    using assms(1) by (auto simp: ptr_check_def check_and_reserve_def Let_def split: prod.splits if_splits option.splits)
  assume ok
  then obtain pl where pl: "check_and_reserve (req_instrument_id req) (req_side req) (req_qty req) (req_price req) (ptr_limits r) = (pl, True)"
    "ptr_limits r' = pl"
    using assms(1) by (auto simp: ptr_check_def Let_def split: prod.splits if_splits)
  define v where "v = i64 (pl_slots (ptr_limits r) (unat (req_instrument_id req)) + signed_qty (req_side req) (req_qty req))"
  have "pl = (ptr_limits r)\<lparr>pl_slots := (pl_slots (ptr_limits r))(unat (req_instrument_id req) := v)\<rparr>
      \<and> \<bar>v\<bar> \<le> pl_max_net_qty (ptr_limits r)"
    using pl(1) neg by (auto simp: check_and_reserve_def reserve_body_def reserve_delta_signed v_def Let_def split: if_splits option.splits)
  then show "pl_slots (ptr_limits r') k = (if k = unat (req_instrument_id req)
            then i64 (pl_slots (ptr_limits r) k + signed_qty (req_side req) (req_qty req)) else pl_slots (ptr_limits r) k)
          \<and> (k = unat (req_instrument_id req) \<longrightarrow> \<bar>pl_slots (ptr_limits r') k\<bar> \<le> pl_max_net_qty (ptr_limits r))"
    by (simp add: pl(2) v_def)
qed

lemma limit_invD:
  assumes "limit_inv maxq s"
  shows "pl_max_net_qty (ptr_limits (tr_risk s)) = maxq"
    and "k < MAX_INSTRUMENTS \<Longrightarrow> \<bar>pl_slots (ptr_limits (tr_risk s)) k\<bar> \<le> maxq"
    and "k < MAX_INSTRUMENTS \<Longrightarrow>
      pl_slots (ptr_limits (tr_risk s)) k = i64 (\<Sum>r\<leftarrow>map snd (tr_accepted s) @ checked (tr_oms_pc s). req_delta k r)"
  using assms unfolding limit_inv_def by blast+

lemma limit_inv_cong:
  assumes "ptr_limits (tr_risk s') = ptr_limits (tr_risk s)" and "tr_accepted s' = tr_accepted s"
    and "checked (tr_oms_pc s') = checked (tr_oms_pc s)"
  shows "limit_inv maxq s' = limit_inv maxq s"
  by (simp only: limit_inv_def assms)

lemma limit_inv_oms:
  assumes inv: "limit_inv maxq s" and "0 \<le> maxq" and "maxq < 2 ^ 63" and step: "oms_iter now s = Inr s'" and keep: "\<not> tr_lost s'"
  shows "limit_inv maxq s'"
proof (cases "tr_oms_pc s")
  case (O_Popped req)
  obtain r ok where c: "ptr_check (sint now) req (tr_risk s) = (r, ok)" by force
  have s': "s' = s\<lparr>tr_risk := r, tr_oms_pc := if ok then O_Checked req else O_Loop\<rparr>"
    using step O_Popped c by (simp add: oms_iter_def)
  note m = limit_invD(1) [OF inv]
  note l = ptr_check_limits [OF c]
  show ?thesis
  proof (cases ok)
    case True
    have sum: "i64 (i64 (\<Sum>r\<leftarrow>L. req_delta k r) + signed_qty (req_side req) (req_qty req)) = i64 (\<Sum>r\<leftarrow>L @ [req]. req_delta k r)"
      if "k = unat (req_instrument_id req)" for k L
      using that by (simp add: req_delta_def i64_simps)
    show ?thesis
      unfolding limit_inv_def
    proof (intro conjI allI impI)
      show "pl_max_net_qty (ptr_limits (tr_risk s')) = maxq" using l(1) m assms(2,3) s' by simp
      fix k assume k: "k < MAX_INSTRUMENTS"
      then have old: "\<bar>pl_slots (ptr_limits (tr_risk s)) k\<bar> \<le> maxq"
        "pl_slots (ptr_limits (tr_risk s)) k = i64 (\<Sum>r\<leftarrow>map snd (tr_accepted s). req_delta k r)"
        using limit_invD(2,3) [OF inv k] O_Popped by simp_all
      show "\<bar>pl_slots (ptr_limits (tr_risk s')) k\<bar> \<le> maxq"
        using l(3) [of k] old m assms(2,3) True s' by (cases "k = unat (req_instrument_id req)") auto
      show "pl_slots (ptr_limits (tr_risk s')) k = i64 (\<Sum>r\<leftarrow>map snd (tr_accepted s') @ checked (tr_oms_pc s'). req_delta k r)"
      proof (cases "k = unat (req_instrument_id req)")
        case True
        then show ?thesis using l(3) [of k] sum [OF True, of "map snd (tr_accepted s)"] old m assms(2,3) \<open>ok\<close> s' by simp
      next
        case False
        then show ?thesis using l(3) [of k] old m assms(2,3) \<open>ok\<close> s' by (simp add: req_delta_def)
      qed
    qed
  next
    case False
    then have "ptr_limits (tr_risk s') = ptr_limits (tr_risk s)" "tr_accepted s' = tr_accepted s"
      "checked (tr_oms_pc s') = checked (tr_oms_pc s)" using l(2) m assms(2,3) s' O_Popped by simp_all
    then show ?thesis using inv limit_inv_cong by metis
  qed
next
  case (O_Checked req)
  then show ?thesis using inv step keep by (auto simp: oms_iter_def limit_inv_def rbind_Inr_iff)
next
  case (O_Submitted req x)
  then show ?thesis using inv step by (auto simp: oms_iter_def limit_inv_def split: option.split)
next
  case O_Loop
  then show ?thesis using inv step
    by (auto simp: oms_iter_def limit_inv_def Let_def case_prod_beta split: option.splits)
next
  case (O_Sent k)
  then show ?thesis using inv step by (auto simp: oms_iter_def limit_inv_def rbind_Inr_iff)
next
  case (O_Acked k)
  then show ?thesis using inv step by (auto simp: oms_iter_def limit_inv_def rbind_Inr_iff Let_def case_prod_beta)
qed

lemma limit_inv_gw: "limit_inv maxq s \<Longrightarrow> gw_iter s = Inr s' \<Longrightarrow> limit_inv maxq s'"
  by (cases "tr_gw_pc s") (auto simp: gw_iter_def limit_inv_def rbind_Inr_iff Let_def case_prod_beta split: option.splits)

lemma limit_inv_others:
  "limit_inv maxq s \<Longrightarrow> limit_inv maxq (md_bbo e s)" "limit_inv maxq s \<Longrightarrow> md_depth d s = Inr s' \<Longrightarrow> limit_inv maxq s'"
  "limit_inv maxq s \<Longrightarrow> limit_inv maxq (strategy_iter s)" "limit_inv maxq s \<Longrightarrow> limit_inv maxq (pos_iter s)"
  by (auto simp: md_bbo_def md_depth_def strategy_iter_def pos_iter_def pl_on_fill_def limit_inv_def rbind_Inr_iff Let_def case_prod_beta
      split: strategy_pc.split pos_pc.split option.split)

subsection \<open>Every reachable state\<close>

lemma trading_step_mono:
  assumes "trading_step s s'"
  shows "tr_lost s \<longrightarrow> tr_lost s'" and "length (tr_accepted s) \<le> length (tr_accepted s')"
proof -
  have "(tr_lost s \<longrightarrow> tr_lost s') \<and> length (tr_accepted s) \<le> length (tr_accepted s')"
    using assms
  proof cases
    case (step_md_bbo e)
    then show ?thesis by (simp add: md_bbo_def)
  next
    case (step_md_depth e)
    then show ?thesis by (auto simp: md_depth_def rbind_Inr_iff)
  next
    case step_strategy
    then show ?thesis
      by (simp add: strategy_iter_def Let_def case_prod_beta split: strategy_pc.split option.split)
  next
    case (step_oms now)
    then show ?thesis
      by (cases "tr_oms_pc s") (auto simp: oms_iter_def rbind_Inr_iff Let_def case_prod_beta split: option.splits)
  next
    case step_gw
    then show ?thesis
      by (cases "tr_gw_pc s") (auto simp: gw_iter_def rbind_Inr_iff Let_def case_prod_beta split: option.splits)
  next
    case step_pos
    then show ?thesis
      by (simp add: pos_iter_def Let_def case_prod_beta split: pos_pc.split option.split)
  qed
  then show "tr_lost s \<longrightarrow> tr_lost s'" "length (tr_accepted s) \<le> length (tr_accepted s')" by blast+
qed

definition memory_ok :: "raw_memory \<Rightarrow> bool" where
  "memory_ok rw \<longleftrightarrow> length (rw_fills rw) = FILL_QUEUE \<and> length (rw_cloids rw) = CLOID_DEPTH"

lemma pow2_CLOID_DEPTH: "pow2 CLOID_DEPTH"
  unfolding pow2_def by (rule exI [of _ 12]) (simp add: CLOID_DEPTH_def)

lemma trading_new_inv:
  assumes "memory_ok rw"
  shows "pipe_inv (trading_new now cf rw) [] [] [] []"
    and "0 \<le> cf_max_net_qty cf \<Longrightarrow> limit_inv (cf_max_net_qty cf) (trading_new now cf rw)"
proof -
  have pool: "0 < ORDER_POOL" "ORDER_POOL < 2 ^ 64" by (simp_all add: ORDER_POOL_def)
  note o = oms_new_wf(1,2) [OF pool, of "fill_tracker_new (rw_fills rw)"]
  have "oms_holds (oms_new ORDER_POOL (fill_tracker_new (rw_fills rw))) []"
    using o by (simp add: oms_holds_def oms_view_def)
  moreover have "ft_wf (fill_tracker_new (rw_fills rw))" using assms by (simp add: memory_ok_def fill_tracker_new_wf)
  moreover have "om_tracker (oms_new ORDER_POOL t) = t" "om_next_order_id (oms_new ORDER_POOL t) = 1" for t
    by (simp_all add: oms_new_def)
  moreover have "ft_pending (fill_tracker_new m) = []" for m by (simp add: fill_tracker_new_def)
  ultimately show "pipe_inv (trading_new now cf rw) [] [] [] []"
    using assms engine_holds_new spsc_new_wf [OF pow2_CLOID_DEPTH, of "rw_cloids rw"]
    by (simp add: pipe_inv_def trading_new_def memory_ok_def)
  show "limit_inv (cf_max_net_qty cf) (trading_new now cf rw)" if "0 \<le> cf_max_net_qty cf"
    using that by (simp add: limit_inv_def trading_new_def pl_new_def)
qed

lemma trading_step_inv:
  assumes "trading_step s s'" and inv: "pipe_inv s D C Q P" "limit_inv maxq s" and "0 \<le> maxq" "maxq < 2 ^ 63"
    and "\<not> tr_lost s'" and small: "length (tr_accepted s') < 2 ^ 64 - 2"
  shows "(\<exists>D C Q P. pipe_inv s' D C Q P) \<and> limit_inv maxq s'"
proof -
  have keep: "\<not> tr_lost s" and sm: "length (tr_accepted s) < 2 ^ 64 - 2"
    using trading_step_mono [OF assms(1)] assms(6) small by auto
  from assms(1) show ?thesis
  proof cases
    case (step_md_bbo e)
    then show ?thesis using pipe_inv_md(1) [OF inv(1)] limit_inv_others(1) [OF inv(2)] by blast
  next
    case (step_md_depth e)
    then show ?thesis using pipe_inv_md(2) [OF inv(1)] limit_inv_others(2) [OF inv(2)] by blast
  next
    case step_strategy
    then show ?thesis using pipe_inv_strategy [OF inv(1)] limit_inv_others(3) [OF inv(2)] by blast
  next
    case (step_oms now)
    then show ?thesis
      using oms_iter_inv [OF inv(1) sm keep, of now] limit_inv_oms [OF inv(2) assms(4,5) step_oms assms(6)] assms(6) by auto
  next
    case step_gw
    then show ?thesis using gw_iter_inv [OF inv(1)] limit_inv_gw [OF inv(2)] assms(6) by auto
  next
    case step_pos
    then show ?thesis using pipe_inv_pos [OF inv(1)] limit_inv_others(4) [OF inv(2)] by blast
  qed
qed

lemma trading_reachable_inv:
  assumes "trading_reachable (trading_new now cf rw) s" and "memory_ok rw" and "0 \<le> cf_max_net_qty cf" and "cf_max_net_qty cf < 2 ^ 63"
    and "\<not> tr_lost s" and "length (tr_accepted s) < 2 ^ 64 - 2"
  shows "(\<exists>D C Q P. pipe_inv s D C Q P) \<and> limit_inv (cf_max_net_qty cf) s"
  using assms(1,5,6)
proof induction
  case start
  then show ?case using trading_new_inv [OF assms(2)] assms(3) by blast
next
  case (more s s')
  then have "\<not> tr_lost s" "length (tr_accepted s) < 2 ^ 64 - 2"
    using trading_step_mono [OF more.hyps(2)] by auto
  with more.IH obtain D C Q P where "pipe_inv s D C Q P" "limit_inv (cf_max_net_qty cf) s" by blast
  from trading_step_inv [OF more.hyps(2) this assms(3,4) more.prems] show ?case .
qed

definition pipeline_idle :: "trading \<Rightarrow> bool" where
  "pipeline_idle s \<longleftrightarrow> tr_oms_pc s = O_Loop \<and> tr_gw_pc s = G_Loop \<and> tr_pos_pc s = X_Loop
     \<and> spsc_contents CLOID_DEPTH (tr_cloids s) = [] \<and> ft_pending (om_tracker (tr_oms s)) = []"

lemma pipeline_idle_inv:
  assumes "pipe_inv s D C Q P" and "pipeline_idle s"
  shows "tr_accepted s = D" and "tr_booked s = tr_applied s" and "oms_active_orders (tr_oms s) = 0"
    and "map booked_key (tr_applied s) = map order_key (fillable (tr_accepted s))"
proof -
  note i = pipe_invD [OF assms(1)]
  have CQP: "C = []" "P = []" "Q = []" using i(3,6,7) assms(2) by (auto simp: pipeline_idle_def)
  show a: "tr_accepted s = D" using i(1) CQP by simp
  show b: "tr_booked s = tr_applied s" using i(10) assms(2) by (simp add: pipeline_idle_def del: length_spsc_contents)
  show "oms_active_orders (tr_oms s) = 0" using oms_holds_active [OF i(5)] CQP by simp
  show "map booked_key (tr_applied s) = map order_key (fillable (tr_accepted s))"
    using i(8) a b CQP assms(2) by (simp add: pipeline_idle_def)
qed

lemma pipe_inv_booked:
  assumes "pipe_inv s D C Q P"
  shows "\<exists>n. map booked_key (tr_booked s) = map order_key (fillable (take n (tr_accepted s)))"
proof -
  note i = pipe_invD [OF assms]
  have "booked_of (tr_gw_pc s) C = [] \<or> booked_of (tr_gw_pc s) C = C" by (cases "tr_gw_pc s") simp_all
  then have "D @ booked_of (tr_gw_pc s) C = take (length D) (tr_accepted s)
      \<or> D @ booked_of (tr_gw_pc s) C = take (length (D @ C)) (tr_accepted s)"
    unfolding i(1) by auto
  then show ?thesis using i(8) by metis
qed

text \<open>
  Claim C4.  The threads of the process together: in every interleaving of their calls, as long as no
  queue between them has overflowed and the order pool was never exhausted, no call of the OMS faults;
  the fills the OMS books are, in order, those of the orders it accepted, each under its own
  identifier and with its own instrument, side, price and quantity, none twice; the position manager
  has applied a prefix of them; and when the process is idle every accepted order of positive quantity
  has been filled and applied exactly once, and no order is left in the OMS.
\<close>

theorem pipeline_fills_orders:
  assumes "trading_reachable (trading_new now cf rw) s" and "memory_ok rw" and "0 \<le> cf_max_net_qty cf" and "cf_max_net_qty cf < 2 ^ 63"
    and "\<not> tr_lost s" and "length (tr_accepted s) < 2 ^ 64 - 2"
  shows "(\<exists>s'. oms_iter t s = Inr s') \<and> (\<exists>s'. gw_iter s = Inr s')
    \<and> (\<exists>n. map booked_key (tr_booked s) = map order_key (fillable (take n (tr_accepted s))))
    \<and> (\<exists>fs. tr_booked s = tr_applied s @ fs) \<and> tr_positions s = fold pm_on_fill (tr_applied s) pm_new
    \<and> (pipeline_idle s \<longrightarrow> oms_active_orders (tr_oms s) = 0
        \<and> map booked_key (tr_applied s) = map order_key (fillable (tr_accepted s)))"
proof -
  obtain D C Q P where inv: "pipe_inv s D C Q P" using trading_reachable_inv [OF assms] by blast
  note i = pipe_invD [OF inv]
  have "\<exists>fs. tr_booked s = tr_applied s @ fs" using i(10) by metis
  then show ?thesis
    using oms_iter_inv [OF inv assms(6,5), of t] gw_iter_inv [OF inv] pipe_inv_booked [OF inv] i(11)
      pipeline_idle_inv(3,4) [OF inv] by blast
qed

text \<open>The process never tells its strategy of acknowledgements or fills.\<close>

definition mm_untold :: "market_maker \<Rightarrow> bool" where
  "mm_untold m \<longleftrightarrow> mm_inventory m = 0 \<and> mm_bid_order_id m = 0 \<and> mm_ask_order_id m = 0"

lemma mm_untold_bbo: "mm_untold m \<Longrightarrow> mm_untold (mm_on_bbo e m) \<and> mm_cancel_queue (mm_on_bbo e m) = mm_cancel_queue m"
proof -
  assume u: "mm_untold m"
  have q: "mm_cancel_queue (quote_side s px m) = mm_cancel_queue m" for s px m
    by (simp add: quote_side_def send_order_def push_side_def case_prod_beta Let_def)
  then have q: "mm_cancel_queue (quote b a i m) = mm_cancel_queue m" for b a i m by (simp add: quote_def Let_def)
  have "cancel_active_orders m' = m'" if "mm_untold m'" for m' using that by (simp add: cancel_active_orders_def mm_untold_def)
  then show ?thesis using u by (simp add: mm_on_bbo_def mm_untold_def mm_frames q Let_def case_prod_beta)
qed

text \<open>What a step does to the strategy and to the relay.\<close>

lemma trading_step_mm:
  assumes "trading_step s s'"
  shows "tr_mm s' = tr_mm s \<or> (\<exists>e. tr_mm s' = mm_on_bbo e (tr_mm s)) \<or> tr_mm s' = fst (pop_order (tr_mm s))"
  using assms
proof cases
  case (step_md_bbo e)
  then show ?thesis by (auto simp: md_bbo_def dispatch_bbo_def register_strategy_def)
next
  case (step_md_depth e)
  then show ?thesis by (auto simp: md_depth_def rbind_Inr_iff)
next
  case step_strategy
  then show ?thesis by (simp add: strategy_iter_def Let_def case_prod_beta split: strategy_pc.split option.split)
next
  case (step_oms t)
  then show ?thesis
    by (cases "tr_oms_pc s") (auto simp: oms_iter_def rbind_Inr_iff Let_def case_prod_beta split: option.splits)
next
  case step_gw
  then show ?thesis
    by (cases "tr_gw_pc s") (auto simp: gw_iter_def rbind_Inr_iff Let_def case_prod_beta split: option.splits)
next
  case step_pos
  then show ?thesis by (simp add: pos_iter_def Let_def case_prod_beta split: pos_pc.split option.split)
qed

lemma trading_step_relay:
  assumes "trading_step s s'"
  shows "tr_relay s' = tr_relay s \<or> (\<exists>r. tr_relay s' = fst (spsc_push RELAY_DEPTH r (tr_relay s)))
    \<or> tr_relay s' = fst (spsc_pop RELAY_DEPTH (tr_relay s))"
  using assms
proof cases
  case step_strategy
  then show ?thesis by (cases "tr_strategy_pc s") (auto simp: strategy_iter_def Let_def case_prod_beta split: option.splits)
next
  case (step_oms t)
  then show ?thesis
    by (cases "tr_oms_pc s") (auto simp: oms_iter_def rbind_Inr_iff Let_def case_prod_beta split: option.splits)
next
  case step_gw
  then show ?thesis
    by (cases "tr_gw_pc s") (auto simp: gw_iter_def rbind_Inr_iff Let_def case_prod_beta split: option.splits)
next
  case step_pos
  then show ?thesis by (simp add: pos_iter_def Let_def case_prod_beta split: pos_pc.split option.split)
qed (auto simp: md_bbo_def md_depth_def rbind_Inr_iff)

lemma trading_mm_untold:
  assumes "trading_reachable (trading_new now cf rw) s"
  shows "mm_untold (tr_mm s) \<and> mm_cancel_queue (tr_mm s) = spsc_new (rw_cancels rw)"
  using assms
proof induction
  case start
  then show ?case by (simp add: trading_new_def mm_new_def mm_untold_def)
next
  case (more s s')
  have pop: "mm_untold (fst (pop_order m)) = mm_untold m" "mm_cancel_queue (fst (pop_order m)) = mm_cancel_queue m" for m
    by (simp_all add: pop_order_def mm_untold_def case_prod_beta)
  show ?case using trading_step_mm [OF more.hyps(2)] more.IH mm_untold_bbo pop by metis
qed

subsection \<open>An order on its way\<close>

lemma trading_step_oms:
  assumes "trading_step s s'"
  shows "pool_capacity (om_pool (tr_oms s')) = pool_capacity (om_pool (tr_oms s))"
  using assms
proof cases
  case (step_oms t)
  then show ?thesis
    by (cases "tr_oms_pc s") (auto simp: oms_iter_def oms_submit_def oms_on_ack_def rbind_Inr_iff Let_def case_prod_beta
        pool_ops_capacity split: option.splits)
next
  case step_gw
  then show ?thesis
    by (cases "tr_gw_pc s") (auto simp: gw_iter_def oms_on_fill_def oms_release_def rbind_Inr_iff Let_def case_prod_beta
        pool_ops_capacity split: option.splits)
next
  case step_pos
  then show ?thesis by (simp add: pos_iter_def Let_def case_prod_beta split: pos_pc.split option.split)
qed (auto simp: md_bbo_def md_depth_def rbind_Inr_iff strategy_iter_def Let_def case_prod_beta split: strategy_pc.splits option.splits)

lemma trading_capacity: "trading_reachable (trading_new now cf rw) s \<Longrightarrow> pool_capacity (om_pool (tr_oms s)) = ORDER_POOL"
proof (induction rule: trading_reachable.induct)
  case start
  have "0 < ORDER_POOL" "ORDER_POOL < 2 ^ 64" by (simp_all add: ORDER_POOL_def)
  from oms_new_wf(3) [OF this] show ?case by (simp add: trading_new_def)
qed (simp add: trading_step_oms)

datatype turn = Turn_oms Timestamp | Turn_gw | Turn_pos

fun run_turns :: "turn list \<Rightarrow> trading \<Rightarrow> pool_fault + trading" where
  "run_turns [] s = Inr s"
| "run_turns (Turn_oms t # ts) s = rbind (oms_iter t s) (run_turns ts)"
| "run_turns (Turn_gw # ts) s = rbind (gw_iter s) (run_turns ts)"
| "run_turns (Turn_pos # ts) s = run_turns ts (pos_iter s)"

lemma run_turns_reachable: "trading_reachable s0 s \<Longrightarrow> run_turns ts s = Inr s' \<Longrightarrow> trading_reachable s0 s'"
proof (induction ts s rule: run_turns.induct)
  case (2 t ts s)
  then obtain s1 where "oms_iter t s = Inr s1" "run_turns ts s1 = Inr s'" by (auto simp: rbind_Inr_iff)
  then show ?case using 2 step_oms more by blast
next
  case (3 ts s)
  then obtain s1 where "gw_iter s = Inr s1" "run_turns ts s1 = Inr s'" by (auto simp: rbind_Inr_iff)
  then show ?case using 3 step_gw more by blast
next
  case (4 ts s)
  then show ?case using step_pos more by simp
qed simp

lemma oms_turns:
  assumes inv: "pipe_inv s D [] [] []" and idle: "pipeline_idle s" and keep: "\<not> tr_lost s" and small: "length (tr_accepted s) < 2 ^ 64 - 2"
    and pool: "0 < pool_capacity (om_pool (tr_oms s))"
    and relay: "spsc_pop RELAY_DEPTH (tr_relay s) = (q, Some r)" and check: "ptr_check (sint t) r (tr_risk s) = (rk, True)"
  shows "\<exists>s' oid. run_turns (replicate 6 (Turn_oms t)) s = Inr s' \<and> pipe_inv s' D [] [(oid, r)] [] \<and> \<not> tr_lost s'
    \<and> tr_oms_pc s' = O_Loop \<and> tr_gw_pc s' = G_Loop \<and> tr_pos_pc s' = X_Loop \<and> tr_relay s' = q
    \<and> ft_pending (om_tracker (tr_oms s')) = [] \<and> tr_accepted s' = tr_accepted s @ [(oid, r)] \<and> tr_risk s' = rk"
proof -
  have pcs: "tr_oms_pc s = O_Loop" "tr_gw_pc s = G_Loop" "tr_pos_pc s = X_Loop" and pend: "ft_pending (om_tracker (tr_oms s)) = []"
    using idle by (simp_all add: pipeline_idle_def)
  let ?s2 = "s\<lparr>tr_relay := q, tr_risk := rk, tr_oms_pc := O_Checked r\<rparr>"
  have inv2: "pipe_inv ?s2 D [] [] []" using inv pcs by (simp add: pipe_inv_def del: length_spsc_contents)
  have two: "run_turns (replicate 6 (Turn_oms t)) s = run_turns (replicate 4 (Turn_oms t)) ?s2"
    using pcs relay check by (simp add: numeral_eq_Suc oms_iter_def)
  obtain s3 where s3: "oms_iter t ?s2 = Inr s3" "\<not> tr_lost s3 \<longrightarrow> pipe_inv s3 D [] [] [(om_next_order_id (tr_oms s), r)]"
    using oms_iter_submit [OF inv2, of r t] small by auto
  have n: "unat (om_next_order_id (tr_oms s)) + 1 < 2 ^ 64" using pipe_invD(12) [OF inv] small by simp
  have wf: "oms_wf (tr_oms s)" using pipe_invD(5) [OF inv] by (simp add: oms_holds_def)
  have room: "0 < length (pool_free (om_pool (tr_oms s)))"
    using pool oms_room [OF wf] pipeline_idle_inv(3) [OF inv idle] by simp
  obtain om i where om: "oms_submit t r (tr_oms s) = Inr (om, Some i)" "om_tracker om = om_tracker (tr_oms s)"
    using oms_submit_room [OF wf room n, of t r] by blast
  let ?oid = "om_next_order_id (tr_oms s)"
  have e3: "s3 = ?s2\<lparr>tr_oms := om, tr_oms_pc := O_Submitted r (Some i), tr_accepted := tr_accepted s @ [(?oid, r)], tr_lost := False\<rparr>"
    using s3(1) om(1) keep by (simp add: oms_iter_def)
  then have inv3: "pipe_inv s3 D [] [] [(?oid, r)]" using s3(2) keep by simp
  define s4 where "s4 = s3\<lparr>tr_engine := engine_submit sg_send_new_order sg_is_connected sg_get_rtt_ns t r (tr_engine s3),
      tr_submits := tr_submits s3 + 1, tr_oms_pc := O_Sent i\<rparr>"
  have s4: "oms_iter t s3 = Inr s4" by (simp add: e3 s4_def oms_iter_def)
  obtain inv4: "pipe_inv s4 D [] [] [(?oid, r)]"
    using inv3 engine_submit_holds [OF pipe_invD(4) [OF inv3], of t r] pipe_invD(7) [OF inv3]
    by (simp add: pipe_inv_def s4_def e3)
  obtain s5 where s5: "oms_iter t s4 = Inr s5" "pipe_inv s5 D [] [] [(?oid, r)]"
    using oms_iter_ack [OF inv4, of i t] by (auto simp: s4_def)
  have f5: "tr_oms_pc s5 = O_Acked i" "tr_gw_pc s5 = G_Loop" "tr_pos_pc s5 = X_Loop" "tr_relay s5 = q" "\<not> tr_lost s5"
    "om_tracker (tr_oms s5) = om_tracker (tr_oms s)" "tr_accepted s5 = tr_accepted s @ [(?oid, r)]" "tr_cloids s5 = tr_cloids s" "tr_risk s5 = rk"
    using s5(1) om(2) pcs keep
    by (auto simp: oms_iter_def s4_def e3 oms_on_ack_def rbind_Inr_iff Let_def case_prod_beta split: option.splits)
  obtain s6 where s6: "oms_iter t s5 = Inr s6" "\<not> tr_lost s6 \<longrightarrow> pipe_inv s6 D [] [(?oid, r)] []"
    using oms_iter_push [OF s5(2) f5(1)] by auto
  have "snd (spsc_push CLOID_DEPTH x (tr_cloids s5))" for x
    using ring.push_ok [OF pipe_invD(2) [OF s5(2)]] pipe_invD(3) [OF s5(2)] by (simp add: CLOID_DEPTH_def del: length_spsc_contents)
  then have "tr_oms_pc s6 = O_Loop \<and> tr_gw_pc s6 = G_Loop \<and> tr_pos_pc s6 = X_Loop \<and> tr_relay s6 = q \<and> \<not> tr_lost s6
      \<and> tr_oms s6 = tr_oms s5 \<and> tr_accepted s6 = tr_accepted s5 \<and> tr_risk s6 = rk"
    using s6(1) f5 by (auto simp: oms_iter_def rbind_Inr_iff Let_def case_prod_beta)
  moreover have "run_turns (replicate 4 (Turn_oms t)) ?s2 = Inr s6"
    using s3(1) s4 s5(1) s6(1) by (simp add: numeral_eq_Suc)
  ultimately show ?thesis using s6(2) two f5 pend by (intro exI [of _ s6] exI [of _ ?oid]) simp
qed

lemma gw_turns:
  assumes inv: "pipe_inv s D [] [(oid, r)] []" and keep: "\<not> tr_lost s" and pcs: "tr_oms_pc s = O_Loop" "tr_gw_pc s = G_Loop" "tr_pos_pc s = X_Loop"
    and pend: "ft_pending (om_tracker (tr_oms s)) = []" and pos: "0 < req_qty r"
  shows "\<exists>s' f. run_turns (replicate 4 Turn_gw) s = Inr s' \<and> pipe_inv s' (D @ [(oid, r)]) [] [] [] \<and> \<not> tr_lost s'
    \<and> tr_oms_pc s' = O_Loop \<and> tr_gw_pc s' = G_Loop \<and> tr_pos_pc s' = X_Loop \<and> tr_relay s' = tr_relay s
    \<and> ft_pending (om_tracker (tr_oms s')) = [f] \<and> booked_key f = order_key (oid, r)
    \<and> tr_accepted s' = tr_accepted s \<and> tr_positions s' = tr_positions s \<and> tr_risk s' = tr_risk s"
proof -
  obtain s1 C' Q' where s1: "gw_iter s = Inr s1" "pipe_inv s1 D C' Q' []" using gw_iter_take [OF inv pcs(2)] by blast
  have c: "spsc_contents CLOID_DEPTH (tr_cloids s) = [oid]" using pipe_invD(3) [OF inv] by simp
  have "snd (spsc_pop CLOID_DEPTH (tr_cloids s)) = Some oid"
    using ring.pop_value [OF pipe_invD(2) [OF inv]] c by simp
  then have e1: "s1 = s\<lparr>tr_cloids := fst (spsc_pop CLOID_DEPTH (tr_cloids s)), tr_gw_pc := G_Cloid oid\<rparr>"
    using s1(1) pcs by (simp add: gw_iter_def Let_def case_prod_beta)
  have C: "C' = [(oid, r)]" "Q' = []" "tr_accepted s = D @ [(oid, r)]"
    using pipe_invD(1,6) [OF s1(2)] pipe_invD(1) [OF inv] by (auto simp: e1)
  obtain s2 where s2: "gw_iter s1 = Inr s2" "pipe_inv s2 D C' Q' []" using gw_iter_pop [OF s1(2), of oid] by (auto simp: e1)
  have frame2: "tr_oms s2 = tr_oms s \<and> tr_lost s2 = tr_lost s \<and> tr_oms_pc s2 = tr_oms_pc s \<and> tr_pos_pc s2 = tr_pos_pc s
      \<and> tr_relay s2 = tr_relay s \<and> tr_accepted s2 = tr_accepted s \<and> tr_positions s2 = tr_positions s \<and> tr_risk s2 = tr_risk s
      \<and> tr_booked s2 = tr_booked s \<and> tr_applied s2 = tr_applied s \<and> (tr_gw_pc s2 = G_Loop \<or> (\<exists>f. tr_gw_pc s2 = G_Fill oid f))"
    using s2(1) by (auto simp: e1 gw_iter_def Let_def case_prod_beta split: option.splits)
  moreover have "tr_gw_pc s2 \<noteq> G_Loop" using pipe_invD(6) [OF s2(2)] C by auto
  ultimately obtain f where f: "tr_gw_pc s2 = G_Fill oid f" by blast
  have key: "booked_key f = order_key (oid, r)" "fe_fill_qty f = req_qty r"
    using pipe_invD(6) [OF s2(2)] f C by (auto simp: booked_key_def order_key_def fill_key_def req_key_def)
  obtain s3 where s3: "gw_iter s2 = Inr s3" "\<not> tr_lost s3 \<longrightarrow> pipe_inv s3 D C' Q' []" using gw_iter_book [OF s2(2) f] by blast
  have frame3: "\<not> tr_lost s3 \<and> tr_oms_pc s3 = O_Loop \<and> tr_pos_pc s3 = X_Loop \<and> tr_relay s3 = tr_relay s
      \<and> tr_accepted s3 = tr_accepted s \<and> tr_positions s3 = tr_positions s \<and> tr_applied s3 = tr_applied s \<and> tr_gw_pc s3 = G_Filled oid f \<and> tr_risk s3 = tr_risk s"
    using s3(1) f frame2 keep pend pcs
    by (auto simp: gw_iter_def rbind_Inr_iff FILL_QUEUE_def simp flip: length_spsc_contents simp del: length_spsc_contents)
  then have inv3: "pipe_inv s3 D C' Q' []" using s3(2) by blast
  have "tr_booked s3 = tr_booked s @ [f] \<or> tr_booked s3 = tr_booked s"
    using s3(1) f frame2 by (auto simp: gw_iter_def rbind_Inr_iff split: if_splits)
  moreover have "length (tr_booked s3) = length (fillable (D @ [(oid, r)]))" "length (tr_booked s) = length (fillable D)"
    using pipe_invD(8) [OF inv3] pipe_invD(8) [OF inv] frame3 C pcs by (metis booked_of.simps length_map append_Nil2)+
  ultimately have b3: "tr_booked s3 = tr_booked s @ [f]" using pos by auto
  have "tr_applied s = tr_booked s" using pipe_invD(10) [OF inv] pcs pend by (simp del: length_spsc_contents)
  then have p3: "ft_pending (om_tracker (tr_oms s3)) = [f]"
    using pipe_invD(10) [OF inv3] frame3 b3 by (simp del: length_spsc_contents)
  obtain s4 where s4: "gw_iter s3 = Inr s4" "pipe_inv s4 (D @ C') [] Q' []" using gw_iter_release [OF inv3, of oid f] frame3 by blast
  have "tr_gw_pc s4 = G_Loop \<and> om_tracker (tr_oms s4) = om_tracker (tr_oms s3) \<and> tr_lost s4 = tr_lost s3 \<and> tr_oms_pc s4 = tr_oms_pc s3
      \<and> tr_pos_pc s4 = tr_pos_pc s3 \<and> tr_relay s4 = tr_relay s3 \<and> tr_accepted s4 = tr_accepted s3 \<and> tr_positions s4 = tr_positions s3 \<and> tr_risk s4 = tr_risk s3"
    using s4(1) frame3 by (auto simp: gw_iter_def oms_release_def split: option.splits if_splits)
  then show ?thesis using s1(1) s2(1) s3(1) s4 frame3 p3 key(1) C by (intro exI [of _ s4] exI [of _ f]) (simp add: numeral_eq_Suc)
qed

lemma pos_turns:
  assumes inv: "pipe_inv s D [] [] []" and pcs: "tr_oms_pc s = O_Loop" "tr_gw_pc s = G_Loop" "tr_pos_pc s = X_Loop"
    and pend: "ft_pending (om_tracker (tr_oms s)) = [f]"
  shows "\<exists>s'. run_turns (replicate 3 Turn_pos) s = Inr s' \<and> pipe_inv s' D [] [] [] \<and> pipeline_idle s' \<and> tr_lost s' = tr_lost s
    \<and> tr_relay s' = tr_relay s \<and> tr_accepted s' = tr_accepted s \<and> tr_positions s' = pm_on_fill f (tr_positions s) \<and> tr_risk s' = tr_risk s"
proof -
  let ?s = "pos_iter (pos_iter (pos_iter s))"
  have w: "spsc_wf FILL_QUEUE (ft_queue (om_tracker (tr_oms s)))" using pipe_invD(9) [OF inv] by (simp add: ft_wf_def)
  obtain t where t: "ft_pop_fill (om_tracker (tr_oms s)) = (t, Some f)" "ft_pending t = []"
    using ring.pop_value [OF w] ring.pop_contents [OF w] pend by (auto simp: ft_pop_fill_def case_prod_beta)
  have e: "?s = s\<lparr>tr_oms := (tr_oms s)\<lparr>om_tracker := t\<rparr>, tr_positions := pm_on_fill f (tr_positions s), tr_applied := tr_applied s @ [f],
      tr_risk := (tr_risk s)\<lparr>ptr_limits := pl_on_fill (fe_instrument_id f) (fe_side f) (fe_fill_qty f) (ptr_limits (tr_risk s))\<rparr>,
      tr_pos_fills := tr_pos_fills s + 1, tr_pos_pc := X_Loop\<rparr>"
    using pcs t by (simp add: pos_iter_def)
  have "pipe_inv ?s D [] [] []" using inv by (intro pipe_inv_pos)
  moreover have "pipeline_idle ?s"
    using pcs t(2) pipe_invD(3) [OF inv] by (simp add: pipeline_idle_def e del: length_spsc_contents)
  moreover have "run_turns (replicate 3 Turn_pos) s = Inr ?s" by (simp add: numeral_eq_Suc)
  ultimately show ?thesis by (intro exI [of _ ?s]) (simp add: e pl_on_fill_def)
qed

lemma run_turns_append: "run_turns (ts @ us) s = rbind (run_turns ts s) (run_turns us)"
proof (induction ts s rule: run_turns.induct)
  case (2 t ts s)
  then show ?case by (cases "oms_iter t s") auto
next
  case (3 ts s)
  then show ?case by (cases "gw_iter s") auto
qed auto

lemma oms_turns_positions: "run_turns (replicate n (Turn_oms t)) s = Inr s' \<Longrightarrow> tr_positions s' = tr_positions s"
proof (induction n arbitrary: s)
  case (Suc n)
  then obtain s1 where s1: "oms_iter t s = Inr s1" "run_turns (replicate n (Turn_oms t)) s1 = Inr s'" by (auto simp: rbind_Inr_iff)
  have "tr_positions s1 = tr_positions s"
    using s1(1) by (cases "tr_oms_pc s") (auto simp: oms_iter_def rbind_Inr_iff Let_def case_prod_beta split: option.splits)
  then show ?case using Suc.IH [OF s1(2)] by simp
qed simp

definition full_round :: "Timestamp \<Rightarrow> turn list" where
  "full_round t = replicate 6 (Turn_oms t) @ replicate 4 Turn_gw @ replicate 3 Turn_pos"

lemma flow_through:
  assumes "trading_reachable (trading_new now cf rw) s" and "memory_ok rw" and "0 \<le> cf_max_net_qty cf" and "cf_max_net_qty cf < 2 ^ 63"
    and "\<not> tr_lost s" and "length (tr_accepted s) < 2 ^ 64 - 2" and "pipeline_idle s"
    and "spsc_pop RELAY_DEPTH (tr_relay s) = (q, Some r)" and "ptr_check (sint t) r (tr_risk s) = (rk, True)" and "0 < req_qty r"
  shows "\<exists>s' oid f. run_turns (full_round t) s = Inr s' \<and> trading_reachable (trading_new now cf rw) s' \<and> pipeline_idle s' \<and> \<not> tr_lost s'
    \<and> tr_relay s' = q \<and> tr_accepted s' = tr_accepted s @ [(oid, r)] \<and> oms_active_orders (tr_oms s') = 0
    \<and> tr_positions s' = pm_on_fill f (tr_positions s) \<and> booked_key f = order_key (oid, r) \<and> tr_risk s' = rk"
proof -
  obtain D C Q P where "pipe_inv s D C Q P" using trading_reachable_inv [OF assms(1-6)] by blast
  moreover from this have "C = []" "P = []" "Q = []"
    using pipe_invD(3,6,7) [of s D C Q P] assms(7) by (auto simp: pipeline_idle_def)
  ultimately have inv: "pipe_inv s D [] [] []" by simp
  have cap: "0 < pool_capacity (om_pool (tr_oms s))" using trading_capacity [OF assms(1)] by (simp add: ORDER_POOL_def)
  from oms_turns [OF inv assms(7,5,6) cap assms(8,9)] obtain s1 oid where s1: "run_turns (replicate 6 (Turn_oms t)) s = Inr s1"
    "pipe_inv s1 D [] [(oid, r)] []" "\<not> tr_lost s1" "tr_oms_pc s1 = O_Loop" "tr_gw_pc s1 = G_Loop" "tr_pos_pc s1 = X_Loop"
    "tr_relay s1 = q" "ft_pending (om_tracker (tr_oms s1)) = []" "tr_accepted s1 = tr_accepted s @ [(oid, r)]" "tr_risk s1 = rk" by blast
  have p1: "tr_positions s1 = tr_positions s" by (rule oms_turns_positions [OF s1(1)])
  from gw_turns [OF s1(2-6,8) assms(10)] obtain s2 f where s2: "run_turns (replicate 4 Turn_gw) s1 = Inr s2"
    "pipe_inv s2 (D @ [(oid, r)]) [] [] []" "\<not> tr_lost s2" "tr_oms_pc s2 = O_Loop" "tr_gw_pc s2 = G_Loop" "tr_pos_pc s2 = X_Loop"
    "tr_relay s2 = tr_relay s1" "ft_pending (om_tracker (tr_oms s2)) = [f]" "booked_key f = order_key (oid, r)"
    "tr_accepted s2 = tr_accepted s1" "tr_positions s2 = tr_positions s1" "tr_risk s2 = tr_risk s1" by blast
  from pos_turns [OF s2(2,4-6,8)] obtain s3 where s3: "run_turns (replicate 3 Turn_pos) s2 = Inr s3"
    "pipe_inv s3 (D @ [(oid, r)]) [] [] []" "pipeline_idle s3" "tr_lost s3 = tr_lost s2" "tr_relay s3 = tr_relay s2"
    "tr_accepted s3 = tr_accepted s2" "tr_positions s3 = pm_on_fill f (tr_positions s2)" "tr_risk s3 = tr_risk s2" by blast
  have run: "run_turns (full_round t) s = Inr s3"
    by (simp only: full_round_def run_turns_append s1(1) s2(1) s3(1) rbind_simps)
  then show ?thesis
    using run_turns_reachable [OF assms(1) run] pipeline_idle_inv(3) [OF s3(2,3)] s1 s2 s3 p1
    by (intro exI [of _ s3] exI [of _ oid] exI [of _ f]) simp
qed

text \<open>
  Claim C6.  Every order the checks pass gets through: from an idle state in which nothing was lost,
  when the next relayed order has a positive quantity and the risk gate accepts it, one round of the
  three threads takes it from the relay to the position manager without a fault and returns the
  process to idle, nothing lost; the position manager has then applied one fill with the order's
  instrument, side, price and quantity, and no order is left in the OMS.
\<close>

theorem order_gets_through:
  assumes "trading_reachable (trading_new now cf rw) s" and "memory_ok rw" and "0 \<le> cf_max_net_qty cf" and "cf_max_net_qty cf < 2 ^ 63"
    and "\<not> tr_lost s" and "length (tr_accepted s) < 2 ^ 64 - 2" and "pipeline_idle s"
    and "spsc_pop RELAY_DEPTH (tr_relay s) = (q, Some r)" and "ptr_check (sint t) r (tr_risk s) = (rk, True)" and "0 < req_qty r"
  shows "\<exists>s' oid f. run_turns (full_round t) s = Inr s' \<and> trading_reachable (trading_new now cf rw) s' \<and> pipeline_idle s' \<and> \<not> tr_lost s'
    \<and> tr_relay s' = q \<and> tr_accepted s' = tr_accepted s @ [(oid, r)] \<and> oms_active_orders (tr_oms s') = 0
    \<and> tr_positions s' = pm_on_fill f (tr_positions s) \<and> booked_key f = order_key (oid, r) \<and> tr_risk s' = rk"
  by (rule flow_through [OF assms])

subsection \<open>A run\<close>

definition sample_settings :: settings where
  "sample_settings = \<lparr>cf_daily_loss_limit = - 500000, cf_max_order_rate = 100, cf_max_net_qty = 10000, cf_max_notional = 1000000000,
     cf_instrument_id = 7, cf_spread_ticks = 2, cf_order_qty = 10, cf_max_inventory = 100\<rparr>"

definition sample_memory :: raw_memory where
  "sample_memory = \<lparr>rw_fills = replicate FILL_QUEUE fill0, rw_orders = replicate ORDER_QUEUE_DEPTH req0,
     rw_cancels = replicate CANCEL_DEPTH 0, rw_sides = replicate SIDE_DEPTH BUY, rw_relay = replicate RELAY_DEPTH req0,
     rw_cloids = replicate CLOID_DEPTH 0, rw_draws = (\<lambda>_. Fin 0)\<rparr>"

abbreviation sample_order :: OrderRequest where
  "sample_order \<equiv> limit_order 7 BUY 1001 10"

abbreviation sample_process :: trading where
  "sample_process \<equiv> trading_new 0 sample_settings sample_memory"

lemma sample_settings_ok:
  "memory_ok sample_memory" "0 \<le> cf_max_net_qty sample_settings" "cf_max_net_qty sample_settings < 2 ^ 63"
  "cf_max_net_qty sample_settings = 10000"
  by (simp_all add: memory_ok_def sample_memory_def sample_settings_def)

lemma sample_quote: "mm_wf (mm_on_bbo (quote_event 1000 1004) sample_mm)
    \<and> orders (mm_on_bbo (quote_event 1000 1004) sample_mm) = [sample_order, limit_order 7 SELL 1003 10]"
proof -
  let ?e = "quote_event 1000 1004"
  have e: "mm_requotes ?e sample_mm" "mm_small ?e sample_mm"
    by (simp_all add: mm_requotes_def mm_small_def quote_event_def is_valid_bbo_def sample_mm_simps bbo0_def)
  let ?m0 = "sample_mm\<lparr>mm_last_mid := bid_px ?e + ask_px ?e\<rparr>"
  have w: "mm_wf ?m0" using sample_mm_simps(1) by (simp add: mm_wf_def)
  let ?m1 = "cancel_active_orders ?m0"
  have "order_room ?m1 = order_room sample_mm" by (rule order_room_cong) (simp add: mm_frames)
  then have "2 \<le> order_room ?m1" "in_i64 (- mm_max_inventory ?m1)"
    by (simp_all add: sample_mm_simps mm_frames ORDER_QUEUE_DEPTH_def in_i64_def)
  note q = quote_orders(1,2) [OF cancel_active_orders_wf(1) [OF w] this, of "mm_bid_quote ?e sample_mm" "mm_ask_quote ?e sample_mm" 0]
  show ?thesis using q sample_mm_simps unfolding mm_on_bbo_eq [OF e]
    by (simp add: mm_frames mm_bid_quote_def mm_ask_quote_def quote_event_def)
qed

definition sample_relayed :: trading where
  "sample_relayed = strategy_iter (strategy_iter (md_bbo (quote_event 1000 1004) sample_process))"

lemma sample_relayed_reachable: "trading_reachable sample_process sample_relayed"
  unfolding sample_relayed_def by (intro more [OF _ step_strategy] more [OF _ step_md_bbo] start)

lemma sample_relayed_eq: "\<exists>m q. sample_relayed = sample_process\<lparr>tr_books := bb_on_bbo (quote_event 1000 1004) Map.empty, tr_mm := m,
     tr_relay := q, tr_strategy_orders := 1\<rparr> \<and> spsc_wf RELAY_DEPTH q \<and> spsc_contents RELAY_DEPTH q = [sample_order]"
proof -
  let ?m = "mm_on_bbo (quote_event 1000 1004) sample_mm"
  have m0: "tr_mm sample_process = sample_mm" "tr_books sample_process = Map.empty" "tr_strategy_pc sample_process = S_Loop"
    "tr_strategy_orders sample_process = 0" "tr_relay sample_process = spsc_new (replicate RELAY_DEPTH req0)"
    by (simp_all add: trading_new_def sample_mm_def sample_settings_def sample_memory_def)
  have w: "orders_wf ?m" "orders ?m = [sample_order, limit_order 7 SELL 1003 10]" using sample_quote by (simp_all add: mm_wf_def)
  have p: "snd (pop_order ?m) = Some sample_order"
    using ring.pop_value [OF w(1)] w(2) by (simp add: pop_order_def case_prod_beta)
  have pw: "pow2 RELAY_DEPTH" unfolding pow2_def by (rule exI [of _ 10]) (simp add: RELAY_DEPTH_def)
  let ?q0 = "spsc_new (replicate RELAY_DEPTH req0)"
  have q0: "spsc_wf RELAY_DEPTH ?q0" using pw by (simp add: spsc_new_wf)
  let ?q = "fst (spsc_push RELAY_DEPTH sample_order ?q0)"
  have "spsc_wf RELAY_DEPTH ?q" "spsc_contents RELAY_DEPTH ?q = [sample_order]"
    using ring.push_wf [OF q0] ring.push_contents [OF q0] by (simp_all add: RELAY_DEPTH_def)
  moreover have "sample_relayed = sample_process\<lparr>tr_books := bb_on_bbo (quote_event 1000 1004) Map.empty,
      tr_mm := fst (pop_order ?m), tr_relay := ?q, tr_strategy_orders := 1\<rparr>"
    using m0 p by (simp add: sample_relayed_def md_bbo_def dispatch_bbo_def register_strategy_def strategy_iter_def case_prod_beta Let_def)
  ultimately show ?thesis by blast
qed

lemma sample_check: "snd (ptr_check 0 sample_order (tr_risk sample_process))"
  by (simp add: ptr_check_def trading_new_def sample_settings_def cb_new_def cb_allow_order_def rl_new_def rl_try_acquire_def
      rl_refill_def refill_amount_def token_body_def pl_new_def check_and_reserve_def notional_ok_def reserve_body_def
      reserve_delta_def limit_order_def req0_def MAX_INSTRUMENTS_def i64_id in_i64_def Let_def)

lemma sample_idle: "pipeline_idle sample_relayed \<and> \<not> tr_lost sample_relayed \<and> tr_accepted sample_relayed = []
    \<and> 0 < pool_capacity (om_pool (tr_oms sample_relayed)) \<and> tr_positions sample_relayed = pm_new
    \<and> (\<exists>q. spsc_pop RELAY_DEPTH (tr_relay sample_relayed) = (q, Some sample_order))
    \<and> (\<exists>rk. ptr_check 0 sample_order (tr_risk sample_relayed) = (rk, True))"
proof -
  obtain m q where s: "sample_relayed = sample_process\<lparr>tr_books := bb_on_bbo (quote_event 1000 1004) Map.empty, tr_mm := m,
     tr_relay := q, tr_strategy_orders := 1\<rparr>" and q: "spsc_wf RELAY_DEPTH q" "spsc_contents RELAY_DEPTH q = [sample_order]"
    using sample_relayed_eq by blast
  have "0 < ORDER_POOL" "ORDER_POOL < 2 ^ 64" by (simp_all add: ORDER_POOL_def)
  note cap = oms_new_wf(3) [OF this, of "fill_tracker_new (rw_fills sample_memory)"]
  have "snd (spsc_pop RELAY_DEPTH q) = Some sample_order" using ring.pop_value [OF q(1)] q(2) by simp
  then have "\<exists>q'. spsc_pop RELAY_DEPTH q = (q', Some sample_order)" by (metis surjective_pairing)
  moreover have "\<exists>rk. ptr_check 0 sample_order (tr_risk sample_process) = (rk, True)"
    using sample_check by (metis surjective_pairing)
  moreover have "pipeline_idle sample_process \<and> \<not> tr_lost sample_process \<and> tr_accepted sample_process = []
      \<and> tr_positions sample_process = pm_new"
    by (simp add: pipeline_idle_def trading_new_def oms_new_def fill_tracker_new_def)
  moreover have "tr_oms sample_process = oms_new ORDER_POOL (fill_tracker_new (rw_fills sample_memory))"
    by (simp add: trading_new_def)
  ultimately show ?thesis using cap by (simp add: s pipeline_idle_def ORDER_POOL_def)
qed

lemma sample_small: "length (tr_accepted sample_relayed) < 2 ^ 64 - 2"
  using sample_idle by simp

lemma req_qty_sample: "0 < req_qty sample_order" "order_key (oid, sample_order) = (oid, 7, BUY, 1001, 10, 0)"
  by (simp_all add: limit_order_def order_key_def req_key_def)

lemma sample_filled: "\<exists>s oid f. trading_reachable sample_process s \<and> pipeline_idle s \<and> \<not> tr_lost s
    \<and> tr_accepted s = [(oid, sample_order)] \<and> tr_positions s = pm_on_fill f pm_new \<and> booked_key f = (oid, 7, BUY, 1001, 10, 0)"
proof -
  obtain q rk where q: "spsc_pop RELAY_DEPTH (tr_relay sample_relayed) = (q, Some sample_order)"
    "ptr_check (sint (0 :: u64)) sample_order (tr_risk sample_relayed) = (rk, True)" using sample_idle by auto
  have i: "\<not> tr_lost sample_relayed" "pipeline_idle sample_relayed" using sample_idle by simp_all
  show ?thesis
    using flow_through [OF sample_relayed_reachable sample_settings_ok(1-3) i(1) sample_small i(2) q req_qty_sample(1)]
      sample_idle req_qty_sample(2) by auto
qed

theorem order_gets_through_witness:
  "\<exists>s oid. run_turns (full_round 0) sample_relayed = Inr s \<and> tr_accepted s = [(oid, sample_order)] \<and> oms_active_orders (tr_oms s) = 0"
proof -
  obtain q rk where q: "spsc_pop RELAY_DEPTH (tr_relay sample_relayed) = (q, Some sample_order)"
    "ptr_check (sint (0 :: u64)) sample_order (tr_risk sample_relayed) = (rk, True)" using sample_idle by auto
  have i: "\<not> tr_lost sample_relayed" "pipeline_idle sample_relayed" using sample_idle by simp_all
  show ?thesis
    using order_gets_through [OF sample_relayed_reachable sample_settings_ok(1-3) i(1) sample_small i(2) q req_qty_sample(1)]
      sample_idle by auto
qed

theorem pipeline_fills_orders_witness:
  "\<exists>s oid. trading_reachable sample_process s \<and> tr_accepted s = [(oid, sample_order)]
     \<and> map booked_key (tr_applied s) = [(oid, 7, BUY, 1001, 10, 0)]"
proof -
  obtain s oid f where s: "trading_reachable sample_process s" "pipeline_idle s" "\<not> tr_lost s" "tr_accepted s = [(oid, sample_order)]"
    using sample_filled by blast
  have "length (tr_accepted s) < 2 ^ 64 - 2" using s(4) by simp
  from pipeline_fills_orders [OF s(1) sample_settings_ok(1-3) s(3) this] s(2,4) req_qty_sample
  have "map booked_key (tr_applied s) = [(oid, 7, BUY, 1001, 10, 0)]" by (simp add: fillable_def)
  with s(1,4) show ?thesis by (intro exI [of _ s] exI [of _ oid] conjI)
qed

end
