(* ===== verification/Feed_Thread.thy ===== *)
theory Feed_Thread
  imports Feed Pcap
begin

text \<open>
  The market data thread: \<^verbatim>\<open>FeedHandler::open\<close>, \<^verbatim>\<open>run\<close> and \<^verbatim>\<open>stop\<close> around the receive loop of \<open>Feed\<close>,
  and the two bodies that \<^verbatim>\<open>src/main.cpp\<close> runs in the thread.  What the system calls return is an
  argument.  The receive loop is a \<open>partial_function\<close>: not returning is the value \<open>None\<close>.
\<close>

subsection \<open>Opening the socket\<close>

text \<open>
  \<open>se_ioctl\<close> is the address of the interface, \<open>None\<close> when the call fails or the platform has none.
\<close>

record sock_env =
  se_socket :: int
  se_bind :: "u16 \<Rightarrow> int"
  se_inet_addr :: "string \<Rightarrow> u32"
  se_ioctl :: "string \<Rightarrow> u32 option"
  se_join :: "u32 \<times> u32 \<Rightarrow> int"

text \<open>\<open>fd_open\<close> and \<open>fd_groups\<close> record the descriptors the process holds and the groups it joined.\<close>

record feed_handler =
  fd_mcast_addr :: string
  fd_mcast_port :: u16
  fd_iface :: string
  fd_sockfd :: int
  fd_running :: bool
  fd_feed :: feed
  fd_open :: "int list"
  fd_groups :: "(u32 \<times> u32) list"

definition feed_handler_new :: "string \<Rightarrow> u16 \<Rightarrow> string \<Rightarrow> ExchangeType \<Rightarrow> BBOEvent list \<Rightarrow> bool \<Rightarrow> feed_handler" where
  "feed_handler_new addr port iface ex mem cb = \<lparr>fd_mcast_addr = addr, fd_mcast_port = port, fd_iface = iface,
     fd_sockfd = - 1, fd_running = False, fd_feed = feed_new ex mem cb, fd_open = [], fd_groups = []\<rparr>"

definition fd_close :: "feed_handler \<Rightarrow> feed_handler" where
  "fd_close h = h\<lparr>fd_open := remove1 (fd_sockfd h) (fd_open h), fd_sockfd := - 1\<rparr>"

definition feed_handler_destroy :: "feed_handler \<Rightarrow> feed_handler" where
  "feed_handler_destroy h = (if fd_sockfd h \<ge> 0 then fd_close h else h)"

text \<open>\<open>ntohl\<close> swaps the bytes; the wildcard address is 0.\<close>

definition is_mcast :: "u32 \<Rightarrow> bool" where
  "is_mcast addr_n \<longleftrightarrow> drop_bit 28 (bswap32 addr_n) = 0xE"

definition mreq_interface :: "sock_env \<Rightarrow> string \<Rightarrow> u32" where
  "mreq_interface env iface = (if iface = [] then 0 else case se_ioctl env iface of None \<Rightarrow> 0 | Some a \<Rightarrow> a)"

definition fh_open :: "sock_env \<Rightarrow> feed_handler \<Rightarrow> feed_handler \<times> bool" where
  "fh_open env h =
     (let h = h\<lparr>fd_sockfd := se_socket env\<rparr> in
      if fd_sockfd h < 0 then (h, False)
      else let h = h\<lparr>fd_open := fd_sockfd h # fd_open h\<rparr> in
        if se_bind env (fd_mcast_port h) < 0 then (fd_close h, False)
        else let addr_n = se_inet_addr env (fd_mcast_addr h) in
          if is_mcast addr_n then
            let mreq = (addr_n, mreq_interface env (fd_iface h)) in
              if se_join env mreq < 0 then (fd_close h, False) else (h\<lparr>fd_groups := mreq # fd_groups h\<rparr>, True)
          else (h, True))"

definition fh_stop :: "feed_handler \<Rightarrow> feed_handler" where
  "fh_stop h = h\<lparr>fd_running := False\<rparr>"

subsection \<open>The receive loop\<close>

text \<open>
  The \<open>k\<close>-th reading of the flag sees a store of \<^verbatim>\<open>stop()\<close> when \<open>stops k\<close>; the \<open>k\<close>-th poll returns
  \<open>polls k\<close>, with no packets for a timeout.
\<close>

partial_function (option) recv_loop_linux :: "(nat \<Rightarrow> bool) \<Rightarrow> (nat \<Rightarrow> u64 \<times> bytes list) \<Rightarrow> nat \<Rightarrow> feed_handler
    \<Rightarrow> feed_handler option" where
  "recv_loop_linux stops polls k h =
     (let h1 = (if stops k then fh_stop h else h) in
      if \<not> fd_running h1 then Some h1
      else recv_loop_linux stops polls (Suc k)
             (h1\<lparr>fd_feed := recv_poll (fst (polls k)) (take BATCH_SIZE (snd (polls k))) (fd_feed h1)\<rparr>))"

definition fh_run :: "(nat \<Rightarrow> bool) \<Rightarrow> (nat \<Rightarrow> u64 \<times> bytes list) \<Rightarrow> feed_handler \<Rightarrow> feed_handler option" where
  "fh_run stops polls h = (if fd_sockfd h < 0 then Some h else recv_loop_linux stops polls 0 (h\<lparr>fd_running := True\<rparr>))"

text \<open>What the first \<open>k\<close> polls do.\<close>

fun polled :: "(nat \<Rightarrow> u64 \<times> bytes list) \<Rightarrow> nat \<Rightarrow> nat \<Rightarrow> feed \<Rightarrow> feed" where
  "polled polls k 0 f = f"
| "polled polls k (Suc n) f = polled polls (Suc k) n (recv_poll (fst (polls k)) (take BATCH_SIZE (snd (polls k))) f)"

lemma recv_loop_stops:
  "fd_running h \<Longrightarrow> stops (k + n) \<Longrightarrow> \<forall>j < n. \<not> stops (k + j) \<Longrightarrow>
   recv_loop_linux stops polls k h = Some (h\<lparr>fd_running := False, fd_feed := polled polls k n (fd_feed h)\<rparr>)"
proof (induction n arbitrary: k h)
  case 0
  then show ?case by (subst recv_loop_linux.simps) (simp add: fh_stop_def)
next
  case (Suc n)
  have "\<not> stops k" using Suc.prems(3) by (metis add.right_neutral zero_less_Suc)
  moreover have "\<forall>j < n. \<not> stops (Suc k + j)" using Suc.prems(3) by (metis Suc_less_eq add_Suc_right add_Suc)
  ultimately show ?case
    using Suc.IH [of "h\<lparr>fd_feed := recv_poll (fst (polls k)) (take BATCH_SIZE (snd (polls k))) (fd_feed h)\<rparr>" "Suc k"] Suc.prems(1,2)
    by (subst recv_loop_linux.simps) simp
qed

lemma recv_loop_needs_stop:
  assumes "recv_loop_linux stops polls k h = Some h'" and "fd_running h"
  shows "\<exists>j. stops j"
proof -
  have "fd_running h \<longrightarrow> (\<exists>j. stops j)"
  proof (rule recv_loop_linux.raw_induct [where P = "\<lambda>stops polls k h h'. fd_running h \<longrightarrow> (\<exists>j. stops j)", OF _ assms(1)])
    fix f stops polls k and h h' :: feed_handler
    assume hyp: "\<And>stops polls k h h'. f stops polls k h = Some h' \<Longrightarrow> fd_running h \<longrightarrow> (\<exists>j. stops j)"
      and body: "(let h1 = (if stops k then fh_stop h else h) in
          if \<not> fd_running h1 then Some h1
          else f stops polls (Suc k)
             (h1\<lparr>fd_feed := recv_poll (fst (polls k)) (take BATCH_SIZE (snd (polls k))) (fd_feed h1)\<rparr>)) = Some h'"
    show "fd_running h \<longrightarrow> (\<exists>j. stops j)"
    proof (cases "stops k")
      case False
      show ?thesis
      proof
        assume r: "fd_running h"
        let ?h = "h\<lparr>fd_feed := recv_poll (fst (polls k)) (take BATCH_SIZE (snd (polls k))) (fd_feed h)\<rparr>"
        have "f stops polls (Suc k) ?h = Some h'" using body False r by simp
        from hyp [OF this] r show "\<exists>j. stops j" by simp
      qed
    qed blast
  qed
  then show ?thesis using assms(2) by blast
qed

subsection \<open>The loop of the other platforms\<close>

text \<open>
  \<open>recv\<close> takes one packet; \<open>[]\<close> is a time-out, an error or an empty packet.
\<close>

definition posix_packet :: "u64 \<times> bytes \<Rightarrow> feed \<Rightarrow> feed" where
  "posix_packet r f = (if snd r = [] then f
     else process_packet (fst r) (take MAX_PKT_BYTES (snd r)) (f\<lparr>fh_rx_pkts := fh_rx_pkts f + 1\<rparr>))"

partial_function (option) recv_loop_posix :: "(nat \<Rightarrow> bool) \<Rightarrow> (nat \<Rightarrow> u64 \<times> bytes) \<Rightarrow> nat \<Rightarrow> feed_handler
    \<Rightarrow> feed_handler option" where
  "recv_loop_posix stops recvs k h =
     (let h1 = (if stops k then fh_stop h else h) in
      if \<not> fd_running h1 then Some h1
      else recv_loop_posix stops recvs (Suc k) (h1\<lparr>fd_feed := posix_packet (recvs k) (fd_feed h1)\<rparr>))"

text \<open>The batches of at most one packet that these receptions are.\<close>

definition as_polls :: "(nat \<Rightarrow> u64 \<times> bytes) \<Rightarrow> nat \<Rightarrow> u64 \<times> bytes list" where
  "as_polls recvs k = (fst (recvs k), if snd (recvs k) = [] then [] else [snd (recvs k)])"

lemma posix_packet_poll: "recv_poll (fst (as_polls recvs k)) (take BATCH_SIZE (snd (as_polls recvs k))) f = posix_packet (recvs k) f"
  by (simp add: as_polls_def posix_packet_def recv_poll_def BATCH_SIZE_def)

lemma posix_then_linux:
  assumes "recv_loop_posix stops recvs k h = Some h'"
  shows "recv_loop_linux stops (as_polls recvs) k h = Some h'"
proof (rule recv_loop_posix.raw_induct [where P = "\<lambda>stops recvs k h h'. recv_loop_linux stops (as_polls recvs) k h = Some h'", OF _ assms])
  fix f stops recvs k and h h' :: feed_handler
  assume hyp: "\<And>stops recvs k h h'. f stops recvs k h = Some h' \<Longrightarrow> recv_loop_linux stops (as_polls recvs) k h = Some h'"
    and body: "(let h1 = (if stops k then fh_stop h else h) in
          if \<not> fd_running h1 then Some h1
          else f stops recvs (Suc k) (h1\<lparr>fd_feed := posix_packet (recvs k) (fd_feed h1)\<rparr>)) = Some h'"
  show "recv_loop_linux stops (as_polls recvs) k h = Some h'"
    using body by (subst recv_loop_linux.simps) (auto simp: posix_packet_poll Let_def intro: hyp split: if_splits)
qed

lemma linux_then_posix:
  assumes "recv_loop_linux stops (as_polls recvs) k h = Some h'"
  shows "recv_loop_posix stops recvs k h = Some h'"
proof -
  have "\<forall>recvs. as_polls recvs = polls \<longrightarrow> recv_loop_posix stops recvs k h = Some h'"
    if "recv_loop_linux stops polls k h = Some h'" for polls
  proof (rule recv_loop_linux.raw_induct [where
        P = "\<lambda>stops polls k h h'. \<forall>recvs. as_polls recvs = polls \<longrightarrow> recv_loop_posix stops recvs k h = Some h'", OF _ that])
    fix f stops polls k and h h' :: feed_handler
    assume hyp: "\<And>stops polls k h h'. f stops polls k h = Some h' \<Longrightarrow>
          \<forall>recvs. as_polls recvs = polls \<longrightarrow> recv_loop_posix stops recvs k h = Some h'"
      and body: "(let h1 = (if stops k then fh_stop h else h) in
          if \<not> fd_running h1 then Some h1
          else f stops polls (Suc k)
             (h1\<lparr>fd_feed := recv_poll (fst (polls k)) (take BATCH_SIZE (snd (polls k))) (fd_feed h1)\<rparr>)) = Some h'"
    show "\<forall>recvs. as_polls recvs = polls \<longrightarrow> recv_loop_posix stops recvs k h = Some h'"
    proof (intro allI impI)
      fix recvs assume p: "as_polls recvs = polls"
      show "recv_loop_posix stops recvs k h = Some h'"
        using body hyp p by (subst recv_loop_posix.simps) (auto simp: posix_packet_poll Let_def split: if_splits)
    qed
  qed
  with assms show ?thesis by blast
qed

text \<open>
  Both loops are the same on packets that come one at a time: they end together, with the same feed,
  or neither ends.
\<close>

theorem posix_loop_equivalent:
  "recv_loop_posix stops recvs k h = recv_loop_linux stops (as_polls recvs) k h"
proof (cases "recv_loop_linux stops (as_polls recvs) k h")
  case None
  then show ?thesis using posix_then_linux by (cases "recv_loop_posix stops recvs k h") fastforce+
next
  case (Some h')
  then show ?thesis using linux_then_posix by simp
qed

subsection \<open>The thread\<close>

text \<open>
  In live mode a second thread waits for the stop flag and calls \<^verbatim>\<open>stop()\<close> once: before \<^verbatim>\<open>run()\<close> has set
  \<^verbatim>\<open>running_\<close>, at some reading of the flag after that, or never.
\<close>

datatype stop_time = Stop_never | Stop_before_run | Stop_at nat

fun stop_seen :: "stop_time \<Rightarrow> nat \<Rightarrow> bool" where
  "stop_seen (Stop_at k) j = (j = k)"
| "stop_seen t j = False"

text \<open>The result: the handler, whether the thread set the stop flag, and the count it stored.\<close>

definition md_live :: "sock_env \<Rightarrow> stop_time \<Rightarrow> (nat \<Rightarrow> u64 \<times> bytes list) \<Rightarrow> feed_handler \<Rightarrow> (feed_handler \<times> bool \<times> u64 option) option" where
  "md_live env t polls h = (let (h1, ok) = fh_open env h in
     if \<not> ok then Some (h1, True, None)
     else let h2 = (if t = Stop_before_run then fh_stop h1 else h1) in
       map_option (\<lambda>h3. (h3, False, Some (fh_rx_msgs (fd_feed h3)))) (fh_run (stop_seen t) polls h2))"

definition md_replay :: "bytes option \<Rightarrow> pcap \<Rightarrow> pcap \<times> bool \<times> u64 option" where
  "md_replay file p = (let (p1, ok) = pcap_replay (\<lambda>_. True) file p in (p1, True, Some (pr_msgs_replayed p1)))"

lemma fh_open_True:
  assumes "fh_open env h = (h1, True)"
  shows "0 \<le> fd_sockfd h1" and "fd_sockfd h1 = se_socket env" and "fd_open h1 = se_socket env # fd_open h" and "fd_feed h1 = fd_feed h"
  using assms by (auto simp: fh_open_def Let_def split: if_splits)

lemma fh_open_False:
  assumes "fh_open env h = (h1, False)"
  shows "fd_sockfd h1 < 0" and "fd_open h1 = fd_open h" and "fd_feed h1 = fd_feed h" and "fd_groups h1 = fd_groups h"
  using assms by (auto simp: fh_open_def fd_close_def Let_def split: if_splits)

lemma md_live_run: "fh_open env h = (h1, True) \<Longrightarrow>
   md_live env t polls h = map_option (\<lambda>h3. (h3, False, Some (fh_rx_msgs (fd_feed h3))))
     (recv_loop_linux (stop_seen t) polls 0 (h1\<lparr>fd_running := True\<rparr>))"
  using fh_open_True(1) [of env h h1] by (auto simp: md_live_def fh_run_def fh_stop_def)

text \<open>
  Claim C27.  When the market data thread ends in live mode.  If the socket cannot be opened it ends at
  once, with the stop flag set, every descriptor it opened closed and no group joined; otherwise it ends
  exactly when \<^verbatim>\<open>stop()\<close> comes after \<^verbatim>\<open>run()\<close> has set its flag, having handled the polls before that and
  no other: a \<^verbatim>\<open>stop()\<close> that comes earlier is overwritten, and the thread never ends.
\<close>

theorem md_thread_ends:
  "(case fh_open env h of
      (h1, False) \<Rightarrow> md_live env t polls h = Some (h1, True, None) \<and> fd_open h1 = fd_open h \<and> fd_groups h1 = fd_groups h
    | (h1, True) \<Rightarrow> fd_open h1 = fd_sockfd h1 # fd_open h \<and>
        (case t of
           Stop_at k \<Rightarrow> md_live env t polls h = Some (h1\<lparr>fd_running := False, fd_feed := polled polls 0 k (fd_feed h)\<rparr>, False,
             Some (fh_rx_msgs (polled polls 0 k (fd_feed h))))
         | _ \<Rightarrow> md_live env t polls h = None))"
proof -
  obtain h1 ok where o: "fh_open env h = (h1, ok)" by force
  show ?thesis
  proof (cases ok)
    case False
    then show ?thesis using o fh_open_False [of env h h1] by (simp add: md_live_def)
  next
    case True
    then have o1: "fh_open env h = (h1, True)" using o by simp
    note s = fh_open_True [OF o1]
    have never: "md_live env t polls h = None" if "\<And>j. \<not> stop_seen t j"
    proof (rule ccontr)
      assume "md_live env t polls h \<noteq> None"
      then obtain h2 where "recv_loop_linux (stop_seen t) polls 0 (h1\<lparr>fd_running := True\<rparr>) = Some h2"
        using md_live_run [OF o1] by auto
      from recv_loop_needs_stop [OF this] that show False by simp
    qed
    show ?thesis
    proof (cases t)
      case (Stop_at k)
      have "recv_loop_linux (stop_seen t) polls 0 (h1\<lparr>fd_running := True\<rparr>)
          = Some (h1\<lparr>fd_running := False, fd_feed := polled polls 0 k (fd_feed h)\<rparr>)"
        using recv_loop_stops [of "h1\<lparr>fd_running := True\<rparr>" "stop_seen t" 0 k polls] s(4) by (simp add: Stop_at)
      then show ?thesis using o True s md_live_run [OF o1, of t polls] by (simp add: Stop_at)
    qed (use o True s never in simp_all)
  qed
qed

text \<open>
  \<^verbatim>\<open>inet_addr\<close> returns all ones for a malformed address: it passes for a unicast address.  A second
  \<^verbatim>\<open>open()\<close> forgets the first descriptor, which the destructor then leaves open.
\<close>

lemma malformed_address_is_unicast:
  assumes "0 \<le> se_socket env" and "0 \<le> se_bind env (fd_mcast_port h)" and "se_inet_addr env (fd_mcast_addr h) = - 1"
  shows "snd (fh_open env h) \<and> fd_groups (fst (fh_open env h)) = fd_groups h"
proof -
  have "\<not> is_mcast (- 1)" by (simp add: is_mcast_def bswap32_def)
  then show ?thesis using assms by (simp add: fh_open_def Let_def)
qed

lemma reopen_leaks:
  assumes "fh_open env1 h = (h1, True)" and "fh_open env2 h1 = (h2, True)" and "se_socket env1 \<noteq> se_socket env2"
  shows "se_socket env1 \<in> set (fd_open (feed_handler_destroy h2))"
  using fh_open_True [OF assms(1)] fh_open_True [OF assms(2)] assms(3)
  by (simp add: feed_handler_destroy_def fd_close_def)

end
