(* ===== verification/Backtest_Demo.thy ===== *)
theory Backtest_Demo
  imports Backtest Metrics_Report
begin

text \<open>
  \<^verbatim>\<open>backtest/main_backtest.cpp\<close>: the demonstration run of the backtester on a sine wave.  The library
  function \<^verbatim>\<open>std::sin\<close> is an argument, of which only its range is used.  The figures that the program
  prints are those of \<open>Metrics_Report\<close> on the final state.
\<close>

definition BASE_PRICE :: int where "BASE_PRICE = 1000"
definition AMPLITUDE :: int where "AMPLITUDE = 50"
definition NUM_BBO :: nat where "NUM_BBO = 1000"
definition PERIOD :: nat where "PERIOD = 100"
definition BBOS_PER_DAY :: nat where "BBOS_PER_DAY = 100"
definition INSTRUMENT_ID :: InstrumentId where "INSTRUMENT_ID = 0"

text \<open>\<open>demo_pi\<close> is the literal \<open>3.14159265358979\<close>.\<close>

definition demo_pi :: b64 where "demo_pi = b64_round (314159265358979 / 10 ^ 14)"

definition demo_angle :: "nat \<Rightarrow> b64" where
  "demo_angle idx = b64_div (b64_mult (b64_mult (b64_of_int (int idx)) (Fin 2)) demo_pi) (b64_of_int (int PERIOD))"

definition demo_mid :: "(b64 \<Rightarrow> b64) \<Rightarrow> nat \<Rightarrow> Price" where
  "demo_mid sine idx =
     (let angle = demo_angle idx
      in i64 (BASE_PRICE + b64_to_i64 (b64_mult (b64_of_int AMPLITUDE) (sine angle))))"

definition make_bbo :: "(b64 \<Rightarrow> b64) \<Rightarrow> nat \<Rightarrow> BBOEvent" where
  "make_bbo sine idx = (let mid = demo_mid sine idx; ts = of_nat idx * 1000000 in
     bbo0\<lparr>exchange_ts_ns := ts, local_ts_ns := ts, bbo_instrument_id := INSTRUMENT_ID, bbo_type := BBO_UPDATE,
       bid_px := i64 (mid - 1), ask_px := i64 (mid + 1), bid_qty := 100, ask_qty := 100\<rparr>)"

text \<open>The user state of the backtester is the counter of the fill handler.\<close>

record demo =
  dm_backtester :: "u64 backtester"
  dm_report :: metrics_report
  dm_prev_realized_pnl :: int

definition demo_new :: demo where
  "demo_new = \<lparr>dm_backtester = bt_new (Fin 0) (Fin 1) 0, dm_report = [], dm_prev_realized_pnl = 0\<rparr>"

definition count_fill :: "FillEvent \<Rightarrow> u64 \<Rightarrow> u64 \<times> OrderRequest list" where
  "count_fill f n = (n + 1, [])"

definition demo_order :: "Side \<Rightarrow> BBOEvent \<Rightarrow> OrderRequest" where
  "demo_order s bbo = req0\<lparr>req_instrument_id := INSTRUMENT_ID, req_side := s, req_type := LIMIT,
     req_price := (if s = BUY then ask_px bbo else bid_px bbo), req_qty := 1, req_strategy_ts_ns := local_ts_ns bbo\<rparr>"

definition demo_iter :: "(b64 \<Rightarrow> b64) \<Rightarrow> nat \<Rightarrow> demo \<Rightarrow> demo" where
  "demo_iter sine i d =
     (let bbo = make_bbo sine i;
          b1 = (if i mod 10 = 0 then bt_send (demo_order BUY bbo) (dm_backtester d) else dm_backtester d);
          b2 = (if i mod 10 = 5 then bt_send (demo_order SELL bbo) b1 else b1);
          b3 = feed_bbo None (Some count_fill) bbo b2;
          d1 = d\<lparr>dm_backtester := b3\<rparr>
      in if (i + 1) mod BBOS_PER_DAY = 0
         then let cur_realized = get_total_realized_pnl (bt_pm b3)
              in d1\<lparr>dm_report := record_pnl (i64 (cur_realized - dm_prev_realized_pnl d1)) (dm_report d1),
                   dm_prev_realized_pnl := cur_realized\<rparr>
         else d1)"

definition demo_run :: "(b64 \<Rightarrow> b64) \<Rightarrow> nat \<Rightarrow> demo" where
  "demo_run sine n = fold (demo_iter sine) [0..<n] demo_new"

subsection \<open>The wave\<close>

text \<open>What is used of \<^verbatim>\<open>std::sin\<close>: a finite argument gives a finite value between -1 and 1.\<close>

definition in_unit :: "(b64 \<Rightarrow> b64) \<Rightarrow> bool" where
  "in_unit sine \<longleftrightarrow> (\<forall>x. \<exists>y. sine (Fin x) = Fin y \<and> \<bar>y\<bar> \<le> 1)"

text \<open>The angles of the run are finite.\<close>

lemma demo_angle_finite:
  assumes "i < 2 ^ 20"
  shows "\<exists>y. demo_angle i = Fin y"
proof -
  have i: "0 \<le> (of_nat i :: rat)" "(of_nat i :: rat) \<le> 2 ^ 20"
    using assms of_nat_mono [of i "2 ^ 20", where 'a = rat] by simp_all
  have n: "b64_of_int (int i) = Fin (of_nat i)" "b64_of_int (int PERIOD) = Fin 100"
    using assms b64_of_int_exact [of "int i"] b64_of_int_exact [of 100] by (simp_all add: PERIOD_def)
  note p = b64_round_between [of 3 "314159265358979 / 10 ^ 14" 4] round_rat_between [of 3 "314159265358979 / 10 ^ 14" 4]
  obtain q where q: "demo_pi = Fin q" "3 \<le> q" "q \<le> 4" using p by (auto simp: demo_pi_def)
  have "of_int 0 \<le> of_nat i * (2 :: rat)" "of_nat i * (2 :: rat) \<le> of_int (2 ^ 21)" using i by simp_all
  note t = b64_round_between [OF this] round_rat_between [OF this]
  define r where "r = round_rat (of_nat i * 2)"
  have r: "b64_mult (Fin (of_nat i)) (Fin 2) = Fin r" "0 \<le> r" "r \<le> 2 ^ 21" using t by (simp_all add: r_def)
  have "of_int 0 \<le> r * q" "r * q \<le> of_int (2 ^ 23)"
    using q r mult_mono [of r "2 ^ 21" q 4] by simp_all
  note u = b64_round_between [OF this] round_rat_between [OF this]
  define v where "v = round_rat (r * q)"
  have v: "b64_mult (Fin r) (Fin q) = Fin v" "0 \<le> v" "v \<le> 2 ^ 23" using u by (simp_all add: v_def)
  have "of_int 0 \<le> v / 100" "v / 100 \<le> of_int (2 ^ 23)" using v by simp_all
  note w = b64_round_between [OF this]
  show ?thesis unfolding demo_angle_def n q(1) r(1) v(1) using w by simp
qed

lemma demo_mid_bounds:
  assumes "in_unit sine" and "i < 2 ^ 20"
  shows "950 \<le> demo_mid sine i \<and> demo_mid sine i \<le> 1050"
proof -
  define a where "a = demo_angle i"
  obtain x where x: "a = Fin x" using demo_angle_finite [OF assms(2)] unfolding a_def by blast
  obtain y where y: "sine a = Fin y" "\<bar>y\<bar> \<le> 1" using assms(1) unfolding in_unit_def x by blast
  have e: "b64_of_int AMPLITUDE = Fin 50" using b64_of_int_exact [of 50] by (simp add: AMPLITUDE_def)
  have b: "of_int (- 50) \<le> 50 * y" "50 * y \<le> of_int 50" using y(2) by (auto simp: abs_le_iff)
  note r = b64_round_between [OF b] round_rat_between [OF b]
  note t = rat_trunc_between [of "- 50" "round_rat (50 * y)" 50]
  have "b64_to_i64 (b64_mult (b64_of_int AMPLITUDE) (sine a)) = rat_trunc (round_rat (50 * y))
    \<and> - 50 \<le> rat_trunc (round_rat (50 * y)) \<and> rat_trunc (round_rat (50 * y)) \<le> 50"
    using r t by (simp add: y(1) e in_i64_def)
  then show ?thesis by (simp add: demo_mid_def a_def [symmetric] BASE_PRICE_def i64_id in_i64_def Let_def)
qed

lemma make_bbo_fields:
  assumes "in_unit sine" and "i < 2 ^ 20"
  shows "bid_px (make_bbo sine i) = demo_mid sine i - 1" and "ask_px (make_bbo sine i) = demo_mid sine i + 1"
    and "is_valid_bbo (make_bbo sine i)"
  using demo_mid_bounds [OF assms] by (simp_all add: make_bbo_def is_valid_bbo_def i64_id in_i64_def Let_def)

subsection \<open>One quote\<close>

lemma drain_None: "sx_acks (bt_exchange b) = [] \<Longrightarrow> drain_acks h b = b" "sx_fills (bt_exchange b) = [] \<Longrightarrow> drain_fills h' b = b"
  by (simp_all add: drain_acks.simps [of h b] drain_fills.simps [of h' b] sx_pop_ack_def sx_pop_fill_def)

lemma drain_one:
  "sx_acks (bt_exchange b) = [a] \<Longrightarrow> drain_acks None b = b\<lparr>bt_exchange := (bt_exchange b)\<lparr>sx_acks := []\<rparr>\<rparr>"
  "sx_fills (bt_exchange b) = [f] \<Longrightarrow> drain_fills (Some count_fill) b =
     take_fill (Some count_fill) f (b\<lparr>bt_exchange := (bt_exchange b)\<lparr>sx_fills := []\<rparr>\<rparr>)"
  by (simp_all add: drain_acks.simps [of None b] drain_fills.simps [of "Some count_fill" b] sx_pop_ack_def sx_pop_fill_def
      bt_call_def take_fill_def count_fill_def drain_None)

definition demo_idle :: "u64 backtester \<Rightarrow> bool" where
  "demo_idle b \<longleftrightarrow> quiet b \<and> sx_pending (bt_exchange b) = [] \<and> sx_fill_ratio (bt_exchange b) = Fin 1
     \<and> sx_slippage_ticks (bt_exchange b) = Fin 0"

lemma feed_idle:
  assumes "demo_idle b"
  shows "feed_bbo None h bbo b = b\<lparr>bt_bbo_count := bt_bbo_count b + 1\<rparr>"
proof -
  have e: "sx_process_bbo bbo (bt_exchange b) = bt_exchange b" using assms by (simp add: sx_process_bbo_def demo_idle_def)
  show ?thesis using assms by (simp add: feed_bbo_def e drain_None demo_idle_def quiet_def)
qed

definition demo_fill :: "Side \<Rightarrow> BBOEvent \<Rightarrow> u64 backtester \<Rightarrow> FillEvent" where
  "demo_fill s bbo b = full_fill bbo \<lparr>pe_req = demo_order s bbo, pe_arrive_ts_ns = local_ts_ns bbo,
     pe_client_order_id = sx_next_client_order_id (bt_exchange b), pe_exchange_order_id = sx_next_exchange_order_id (bt_exchange b)\<rparr>"

lemma demo_fill_fields:
  "fe_instrument_id (demo_fill s bbo b) = 0" "fe_side (demo_fill s bbo b) = s" "fe_fill_qty (demo_fill s bbo b) = 1"
  "fe_fill_price (demo_fill s bbo b) = (if s = BUY then ask_px bbo else bid_px bbo)"
  by (simp_all add: demo_fill_def full_fill_def sx_fill_of_def demo_order_def INSTRUMENT_ID_def Let_def)

lemma feed_order:
  assumes "demo_idle b" and "is_valid_bbo bbo" and "in_i64 (bid_px bbo)" and "in_i64 (ask_px bbo)"
  shows "\<exists>b'. feed_bbo None (Some count_fill) bbo (bt_send (demo_order s bbo) b) = b' \<and> demo_idle b'
    \<and> bt_fill_count b' = bt_fill_count b + 1 \<and> bt_user b' = bt_user b + 1
    \<and> bt_pm b' = pm_on_fill (demo_fill s bbo b) (bt_pm b)"
proof -
  let ?x = "bt_exchange b" and ?r = "demo_order s bbo"
  let ?e = "\<lparr>pe_req = ?r, pe_arrive_ts_ns = local_ts_ns bbo, pe_client_order_id = sx_next_client_order_id ?x,
     pe_exchange_order_id = sx_next_exchange_order_id ?x\<rparr>"
  let ?y = "bt_exchange (bt_send ?r b)"
  have x: "sx_pending ?x = []" "sx_acks ?x = []" "sx_fills ?x = []" "sx_fill_ratio ?x = Fin 1" "sx_slippage_ticks ?x = Fin 0"
    using assms(1) by (simp_all add: demo_idle_def quiet_def)
  have y: "sx_pending ?y = [?e] @ []" "sx_fill_ratio ?y = Fin 1" "sx_slippage_ticks ?y = Fin 0" "sx_acks ?y = []" "sx_fills ?y = []"
    using x by (simp_all add: bt_send_def sx_send_new_order_def demo_order_def Let_def)
  have ok: "list_all (\<lambda>e. order_ok (pe_req e)) [?e]" by (simp add: order_ok_def demo_order_def)
  have c: "crosses bbo 0 ?e" using assms(3,4) by (simp add: crosses_def sx_can_fill_def demo_order_def i64_id)
  let ?z = "?y\<lparr>sx_pending := [], sx_acks := [sx_ack_of bbo ?e], sx_fills := [demo_fill s bbo b]\<rparr>"
  have p: "sx_process_bbo bbo ?y = ?z"
    using matches_full [OF y(2) ok y(1), of bbo 0] c y(1,3-5) assms(2)
    by (simp add: sx_process_bbo_def demo_fill_def rat_trunc_def in_i64_def)
  let ?b = "(bt_send ?r b)\<lparr>bt_bbo_count := bt_bbo_count b + 1, bt_exchange := ?z\<rparr>"
  let ?b' = "take_fill (Some count_fill) (demo_fill s bbo b) (?b\<lparr>bt_exchange := ?z\<lparr>sx_acks := [], sx_fills := []\<rparr>\<rparr>)"
  have a: "drain_acks None ?b = ?b\<lparr>bt_exchange := ?z\<lparr>sx_acks := []\<rparr>\<rparr>"
    using drain_one(1) [of ?b] by simp
  have f: "drain_fills (Some count_fill) (?b\<lparr>bt_exchange := ?z\<lparr>sx_acks := []\<rparr>\<rparr>) = ?b'"
    using drain_one(2) [of "?b\<lparr>bt_exchange := ?z\<lparr>sx_acks := []\<rparr>\<rparr>"] by simp
  have "feed_bbo None (Some count_fill) bbo (bt_send ?r b) = ?b'"
    using p a f by (simp add: feed_bbo_def bt_send_def Let_def)
  moreover have "demo_idle ?b'"
    using y(2,3) by (simp add: demo_idle_def quiet_def take_fill_def bt_call_def count_fill_def)
  moreover have "bt_fill_count ?b' = bt_fill_count b + 1 \<and> bt_user ?b' = bt_user b + 1 \<and> bt_pm ?b' = pm_on_fill (demo_fill s bbo b) (bt_pm b)"
    by (simp add: take_fill_def bt_call_def count_fill_def bt_send_def)
  ultimately show ?thesis by blast
qed

subsection \<open>The run\<close>

text \<open>The profit of the \<open>j\<close>-th round trip: bought at the ask of one quote, sold at the bid five quotes later.\<close>

definition trip :: "(b64 \<Rightarrow> b64) \<Rightarrow> nat \<Rightarrow> int" where
  "trip sine j = (demo_mid sine (10 * j + 5) - 1) - (demo_mid sine (10 * j) + 1)"

abbreviation trips :: "(b64 \<Rightarrow> b64) \<Rightarrow> nat \<Rightarrow> int" where
  "trips sine n \<equiv> \<Sum>j<n. trip sine j"

lemma trips_bound:
  assumes "in_unit sine" and "n \<le> 1000"
  shows "\<bar>trips sine n\<bar> \<le> 102000"
proof -
  have "\<bar>trip sine j\<bar> \<le> 102" if "j < n" for j
    using demo_mid_bounds [OF assms(1), of "10 * j + 5"] demo_mid_bounds [OF assms(1), of "10 * j"] that assms(2)
    by (auto simp: trip_def abs_le_iff)
  then have "\<bar>trips sine n\<bar> \<le> (\<Sum>j<n. 102)" by (intro order.trans [OF sum_abs] sum_mono) auto
  then show ?thesis using assms(2) by simp
qed

lemma trips_i64: "in_unit sine \<Longrightarrow> n \<le> 1000 \<Longrightarrow> in_i64 (trips sine n)"
  using trips_bound [of sine n] by (simp add: in_i64_def abs_le_iff)

definition demo_slot :: "(b64 \<Rightarrow> b64) \<Rightarrow> nat \<Rightarrow> nat \<Rightarrow> pos_slot" where
  "demo_slot sine bought sold = \<lparr>sl_net_qty = (if sold < bought then 1 else 0),
     sl_avg_cost = (if sold < bought then demo_mid sine (10 * sold) + 1 else 0), sl_realized_pnl = trips sine sold\<rparr>"

lemma total_realized_single:
  assumes "in_i64 (sl_realized_pnl sl)"
  shows "get_total_realized_pnl (pm_new(0 := sl)) = sl_realized_pnl sl"
proof -
  have "fold (\<lambda>i total. i64 (total + sl_realized_pnl ((pm_new(0 := sl)) i))) [1..<n] v = v" if "in_i64 v" for n v
    using that by (induction n) (simp_all add: pm_new_def slot0_def i64_id)
  moreover have "0 < MAX_INSTRUMENTS" by (simp add: MAX_INSTRUMENTS_def)
  then have "[0..<MAX_INSTRUMENTS] = 0 # [1..<MAX_INSTRUMENTS]" by (simp add: upt_conv_Cons)
  ultimately show ?thesis using assms by (simp add: get_total_realized_pnl_def i64_id del: upt_Suc)
qed

text \<open>The state after \<open>i\<close> quotes, of which the multiples of ten bought and those halfway between sold.\<close>

definition demo_inv :: "(b64 \<Rightarrow> b64) \<Rightarrow> nat \<Rightarrow> demo \<Rightarrow> bool" where
  "demo_inv sine i d \<longleftrightarrow> demo_idle (dm_backtester d)
     \<and> bt_pm (dm_backtester d) = pm_new(0 := demo_slot sine ((i + 9) div 10) ((i + 4) div 10))
     \<and> bt_fill_count (dm_backtester d) = of_nat ((i + 9) div 10 + (i + 4) div 10)
     \<and> bt_user (dm_backtester d) = of_nat ((i + 9) div 10 + (i + 4) div 10)
     \<and> dm_report d = map (\<lambda>m. \<Sum>j = 10 * m..<10 * m + 10. trip sine j) [0..<i div 100]
     \<and> dm_prev_realized_pnl d = trips sine (10 * (i div 100))"

definition demo_quote :: "(b64 \<Rightarrow> b64) \<Rightarrow> nat \<Rightarrow> u64 backtester \<Rightarrow> u64 backtester" where
  "demo_quote sine i b = (let bbo = make_bbo sine i;
       b1 = (if i mod 10 = 0 then bt_send (demo_order BUY bbo) b else b);
       b2 = (if i mod 10 = 5 then bt_send (demo_order SELL bbo) b1 else b1)
     in feed_bbo None (Some count_fill) bbo b2)"

lemma slot_buy:
  assumes "in_unit sine" and "k < 1000"
  shows "pm_on_fill (demo_fill BUY (make_bbo sine (10 * k)) b) (pm_new(0 := demo_slot sine k k))
    = pm_new(0 := demo_slot sine (k + 1) k)"
proof -
  have "in_i64 (demo_mid sine (10 * k) + 1)" using demo_mid_bounds [OF assms(1), of "10 * k"] assms(2) by (simp add: in_i64_def)
  moreover have "10 * k < 2 ^ 20" using assms(2) by simp
  ultimately show ?thesis
    by (simp add: pm_on_fill_def pm_fill_slot_def demo_fill_fields make_bbo_fields [OF assms(1)] demo_slot_def MAX_INSTRUMENTS_def
        i64_id cdiv_def Let_def)
qed

lemma slot_sell:
  assumes "in_unit sine" and "k < 1000"
  shows "pm_on_fill (demo_fill SELL (make_bbo sine (10 * k + 5)) b) (pm_new(0 := demo_slot sine (k + 1) k))
    = pm_new(0 := demo_slot sine (k + 1) (k + 1))"
proof -
  have "in_i64 (trip sine k)"
    using demo_mid_bounds [OF assms(1), of "10 * k"] demo_mid_bounds [OF assms(1), of "10 * k + 5"] assms(2)
    by (simp add: in_i64_def trip_def)
  moreover have "10 * k + 5 < 2 ^ 20" using assms(2) by simp
  moreover have "in_i64 (trips sine k + trip sine k)" using trips_i64 [OF assms(1), of "Suc k"] assms(2) by simp
  ultimately show ?thesis
    by (simp add: pm_on_fill_def pm_fill_slot_def demo_fill_fields make_bbo_fields [OF assms(1)] demo_slot_def MAX_INSTRUMENTS_def
        i64_id add_realized_def trip_def Let_def)
qed

lemma demo_quote_inv:
  assumes u: "in_unit sine" and "i < 1000" and idle: "demo_idle b"
    and pm: "bt_pm b = pm_new(0 := demo_slot sine ((i + 9) div 10) ((i + 4) div 10))"
    and n: "bt_fill_count b = of_nat ((i + 9) div 10 + (i + 4) div 10)" "bt_user b = of_nat ((i + 9) div 10 + (i + 4) div 10)"
  shows "demo_idle (demo_quote sine i b)
    \<and> bt_pm (demo_quote sine i b) = pm_new(0 := demo_slot sine ((Suc i + 9) div 10) ((Suc i + 4) div 10))
    \<and> bt_fill_count (demo_quote sine i b) = of_nat ((Suc i + 9) div 10 + (Suc i + 4) div 10)
    \<and> bt_user (demo_quote sine i b) = of_nat ((Suc i + 9) div 10 + (Suc i + 4) div 10)"
proof -
  define k where "k = i div 10"
  have m: "i = 10 * k + i mod 10" "i mod 10 < 10" by (simp_all add: k_def)
  have px: "in_i64 (bid_px (make_bbo sine i))" "in_i64 (ask_px (make_bbo sine i))"
    using demo_mid_bounds [OF u, of i] assms(2) by (simp_all add: make_bbo_fields [OF u] in_i64_def)
  have "i < 2 ^ 20" "k < 1000" using assms(2) by (simp_all add: k_def)
  note f = feed_order [OF idle make_bbo_fields(3) [OF u \<open>i < 2 ^ 20\<close>] px]
  consider "i mod 10 = 0" | "i mod 10 = 5" | "i mod 10 \<noteq> 0" "i mod 10 \<noteq> 5" by blast
  then show ?thesis
  proof cases
    case 1
    then have i: "i = 10 * k" using m by simp
    have d: "(i + 9) div 10 = k" "(i + 4) div 10 = k" "(Suc i + 9) div 10 = k + 1" "(Suc i + 4) div 10 = k" by (simp_all add: i)
    show ?thesis using f [of BUY] 1 pm n slot_buy [OF u \<open>k < 1000\<close>, of b] unfolding d by (auto simp: demo_quote_def Let_def i)
  next
    case 2
    then have i: "i = 10 * k + 5" using m by simp
    have d: "(i + 9) div 10 = k + 1" "(i + 4) div 10 = k" "(Suc i + 9) div 10 = k + 1" "(Suc i + 4) div 10 = k + 1" by (simp_all add: i)
    show ?thesis using f [of SELL] 2 pm n slot_sell [OF u \<open>k < 1000\<close>, of b] unfolding d by (auto simp: demo_quote_def Let_def i)
  next
    case 3
    then have "Suc (i + 9) mod 10 \<noteq> 0" "Suc (i + 4) mod 10 \<noteq> 0" by presburger+
    then have d: "(Suc i + 9) div 10 = (i + 9) div 10" "(Suc i + 4) div 10 = (i + 4) div 10"
      unfolding add_Suc div_Suc by (simp_all only: if_False)
    have q: "demo_quote sine i b = b\<lparr>bt_bbo_count := bt_bbo_count b + 1\<rparr>"
      using 3 feed_idle [OF idle] by (simp add: demo_quote_def)
    show ?thesis unfolding d q pm [symmetric] n [symmetric] using idle n by (simp add: demo_idle_def quiet_def)
  qed
qed

lemma demo_iter_eq: "demo_iter sine i d =
    (let b = demo_quote sine i (dm_backtester d); d1 = d\<lparr>dm_backtester := b\<rparr> in
     if (i + 1) mod 100 = 0
     then d1\<lparr>dm_report := dm_report d @ [i64 (get_total_realized_pnl (bt_pm b) - dm_prev_realized_pnl d)],
            dm_prev_realized_pnl := get_total_realized_pnl (bt_pm b)\<rparr>
     else d1)"
  by (simp add: demo_iter_def demo_quote_def record_pnl_def BBOS_PER_DAY_def Let_def)

lemma day_sum: "trips sine (10 * Suc m) - trips sine (10 * m) = (\<Sum>j = 10 * m..<10 * m + 10. trip sine j)"
  using sum.atLeastLessThan_concat [of 0 "10 * m" "10 * m + 10" "trip sine"]
  by (simp add: atLeast0LessThan add.commute [of 10])

lemma demo_iter_inv:
  assumes u: "in_unit sine" and "i < 1000" and inv: "demo_inv sine i d"
  shows "demo_inv sine (Suc i) (demo_iter sine i d)"
proof -
  let ?b = "demo_quote sine i (dm_backtester d)"
  have q: "demo_idle ?b" "bt_pm ?b = pm_new(0 := demo_slot sine ((Suc i + 9) div 10) ((Suc i + 4) div 10))"
    "bt_fill_count ?b = of_nat ((Suc i + 9) div 10 + (Suc i + 4) div 10)" "bt_user ?b = of_nat ((Suc i + 9) div 10 + (Suc i + 4) div 10)"
    using demo_quote_inv [OF u assms(2), of "dm_backtester d"] inv by (simp_all only: demo_inv_def)
  show ?thesis
  proof (cases "(i + 1) mod 100 = 0")
    case False
    then have "Suc i div 100 = i div 100" by (simp add: div_Suc)
    then show ?thesis using inv q False by (simp only: demo_inv_def demo_iter_eq Let_def if_False demo.simps) simp
  next
    case True
    then obtain n where "Suc i = 100 * n" by (auto simp: mod_eq_0_iff_dvd dvd_def)
    then obtain m where m: "Suc i = 100 * Suc m" by (cases n) simp_all
    then have "i = 100 * m + 99" by simp
    then have d: "Suc i div 100 = Suc m" "(Suc i + 4) div 10 = 10 * Suc m" "i div 100 = m" by simp_all
    have "10 * Suc m \<le> 1000" using m assms(2) by simp
    note t = trips_i64 [OF u this]
    have r: "get_total_realized_pnl (bt_pm ?b) = trips sine (10 * Suc m)"
      unfolding q(2) d using total_realized_single [of "demo_slot sine ((Suc i + 9) div 10) (10 * Suc m)"] t
      by (simp add: demo_slot_def)
    have prev: "dm_prev_realized_pnl d = trips sine (10 * m)" "dm_report d = map (\<lambda>m. \<Sum>j = 10 * m..<10 * m + 10. trip sine j) [0..<m]"
      using inv by (simp_all only: demo_inv_def d)
    have "10 * m \<le> 1000" using m assms(2) by simp
    then have "in_i64 (trips sine (10 * Suc m) - trips sine (10 * m))"
      using trips_bound [OF u \<open>10 * Suc m \<le> 1000\<close>] trips_bound [OF u, of "10 * m"] by (auto simp: in_i64_def abs_le_iff)
    then have s: "i64 (trips sine (10 * Suc m) - trips sine (10 * m)) = (\<Sum>j = 10 * m..<10 * m + 10. trip sine j)"
      by (simp only: i64_id day_sum)
    have e: "demo_iter sine i d = d\<lparr>dm_backtester := ?b,
        dm_report := dm_report d @ [\<Sum>j = 10 * m..<10 * m + 10. trip sine j], dm_prev_realized_pnl := trips sine (10 * Suc m)\<rparr>"
      by (simp only: demo_iter_eq Let_def True refl if_True r prev(1) s demo.simps)
    show ?thesis using q unfolding demo_inv_def e d(1) by (simp only: demo.simps prev(2)) simp
  qed
qed

lemma demo_run_inv: "in_unit sine \<Longrightarrow> n \<le> 1000 \<Longrightarrow> demo_inv sine n (demo_run sine n)"
proof (induction n)
  case 0
  show ?case by (auto simp: demo_inv_def demo_run_def demo_new_def bt_new_def demo_idle_def quiet_def sx_new_def demo_slot_def
        pm_new_def slot0_def)
next
  case (Suc n)
  then show ?case using demo_iter_inv [of sine n "demo_run sine n"] by (simp add: demo_run_def)
qed

lemma day_total: "(\<Sum>m<n. \<Sum>j = 10 * m..<10 * m + 10. trip sine j) = trips sine (10 * n)"
  by (induction n) (simp_all flip: day_sum)

lemma total_pnl_sum: "\<forall>n \<le> length r. in_i64 (sum_list (take n r)) \<Longrightarrow> total_pnl r = sum_list r"
proof (induction r rule: rev_induct)
  case (snoc v r)
  have "total_pnl r = sum_list r" by (rule snoc.IH) (use snoc.prems in \<open>auto simp: le_Suc_eq\<close>)
  moreover have "in_i64 (sum_list (r @ [v]))" using snoc.prems by (metis order_refl take_all)
  ultimately show ?case by (simp add: total_pnl_def i64_id)
qed (simp add: total_pnl_def)

text \<open>
  Claim C35.  The demonstration backtest, for every sine function that maps the finite doubles into -1 to 1
  (as std::sin does; what it makes of an infinity or NaN is left open): each of its 200 orders fills on the quote it was sent before, the run ends flat with no order pending, the report has ten days, the
  profit of each is that of its ten round trips, each bought at the ask of one quote and sold at the bid
  five quotes later, and the total is their sum.
\<close>

theorem demo_backtest:
  assumes "in_unit sine"
  shows "let d = demo_run sine NUM_BBO in
    bt_fill_count (dm_backtester d) = 200 \<and> bt_user (dm_backtester d) = 200
    \<and> sx_pending (bt_exchange (dm_backtester d)) = [] \<and> get_net_qty (bt_pm (dm_backtester d)) INSTRUMENT_ID = 0
    \<and> dm_report d = map (\<lambda>m. \<Sum>j = 10 * m..<10 * m + 10. trip sine j) [0..<10]
    \<and> total_pnl (dm_report d) = (\<Sum>j<100. trip sine j)"
proof -
  let ?d = "demo_run sine 1000"
  have inv: "demo_inv sine 1000 ?d" by (rule demo_run_inv [OF assms]) simp
  then have rep: "dm_report ?d = map (\<lambda>m. \<Sum>j = 10 * m..<10 * m + 10. trip sine j) [0..<10]" by (simp add: demo_inv_def)
  have s: "sum_list (take n (dm_report ?d)) = trips sine (10 * n)" if "n \<le> 10" for n
    unfolding rep take_map using that by (simp add: take_upt interv_sum_list_conv_sum_set_nat atLeast0LessThan day_total)
  have "in_i64 (sum_list (take n (dm_report ?d)))" if "n \<le> length (dm_report ?d)" for n
  proof -
    have "n \<le> 10" using that rep by simp
    then show ?thesis using s trips_i64 [OF assms, of "10 * n"] by simp
  qed
  then have "total_pnl (dm_report ?d) = sum_list (dm_report ?d)" by (intro total_pnl_sum) blast
  then have "total_pnl (dm_report ?d) = trips sine 100" using s [of 10] rep by simp
  then show ?thesis using inv rep
    by (simp add: demo_inv_def NUM_BBO_def demo_idle_def get_net_qty_def INSTRUMENT_ID_def demo_slot_def Let_def)
qed

text \<open>A wave in place of the sine: 1, 0, -1, 0 over the four quarters, and no number at the infinities.\<close>

definition square_wave :: "b64 \<Rightarrow> b64" where
  "square_wave a = (case a of
     Fin x \<Rightarrow> (let k = \<lfloor>2 * x / 3\<rfloor> mod 4 in if k = 0 then Fin 1 else if k = 2 then Fin (- 1) else Fin 0)
   | _ \<Rightarrow> NaN)"

lemma square_wave_unit: "in_unit square_wave"
proof -
  have "square_wave (Fin x) \<in> {Fin 1, Fin (- 1), Fin 0}" for x by (simp add: square_wave_def Let_def)
  then show ?thesis unfolding in_unit_def by (metis abs_0 abs_1 abs_minus_cancel empty_iff insert_iff order_refl zero_le_one)
qed

theorem demo_backtest_witness:
  "let d = demo_run square_wave NUM_BBO in
    bt_fill_count (dm_backtester d) = 200 \<and> get_net_qty (bt_pm (dm_backtester d)) INSTRUMENT_ID = 0
    \<and> length (dm_report d) = 10 \<and> total_pnl (dm_report d) = (\<Sum>j<100. trip square_wave j)"
  using demo_backtest [OF square_wave_unit] unfolding Let_def by (elim conjE, intro conjI) (assumption | simp)+

end
