(* ===== verification/Config.thy ===== *)
theory Config
  imports Pipeline
begin

text \<open>
  \<^verbatim>\<open>src/infra/config_loader.cpp\<close> and the start of \<^verbatim>\<open>main\<close>: the command line, the configuration file and
  what they make of the trading process.  The YAML library, which parses the file and converts its
  nodes, and the file system are arguments; \<open>None\<close> is an exception they throw.
\<close>

subsection \<open>The configuration\<close>

record risk_config =
  rc_max_notional :: int
  rc_max_net_qty :: int
  rc_max_order_rate :: int
  rc_daily_loss_limit :: int

record market_maker_config =
  mc_instrument_id :: u32
  mc_spread_ticks :: int
  mc_order_qty :: int
  mc_max_inventory :: int

record market_data_config =
  dc_mcast_addr :: string
  dc_mcast_port :: u16
  dc_iface :: string
  dc_pcap_path :: string

record monitoring_config =
  nc_prometheus_port :: int
  nc_alert_webhook :: string

record system_config =
  sc_mode :: string
  sc_log_level :: string
  sc_log_dir :: string
  sc_risk :: risk_config
  sc_market_maker :: market_maker_config
  sc_market_data :: market_data_config
  sc_monitoring :: monitoring_config

definition default_config :: system_config where
  "default_config = \<lparr>sc_mode = ''development'', sc_log_level = ''debug'', sc_log_dir = ''/tmp/hft_logs'',
     sc_risk = \<lparr>rc_max_notional = 1000000, rc_max_net_qty = 10000, rc_max_order_rate = 100, rc_daily_loss_limit = - 500000\<rparr>,
     sc_market_maker = \<lparr>mc_instrument_id = 1, mc_spread_ticks = 2, mc_order_qty = 100, mc_max_inventory = 1000\<rparr>,
     sc_market_data = \<lparr>dc_mcast_addr = ''239.0.0.1'', dc_mcast_port = 9001, dc_iface = [], dc_pcap_path = []\<rparr>,
     sc_monitoring = \<lparr>nc_prometheus_port = 9090, nc_alert_webhook = []\<rparr>\<rparr>"

subsection \<open>Loading\<close>

record 'n yaml =
  ya_get :: "'n \<Rightarrow> string \<Rightarrow> 'n option"
  ya_defined :: "'n \<Rightarrow> bool"
  ya_string :: "'n \<Rightarrow> string option"
  ya_i64 :: "'n \<Rightarrow> int option"
  ya_u32 :: "'n \<Rightarrow> u32 option"
  ya_u16 :: "'n \<Rightarrow> u16 option"
  ya_int :: "'n \<Rightarrow> int option"

text \<open>A field is its key and the assignment of the converted value.\<close>

type_synonym 'n field = "string \<times> ('n \<Rightarrow> (system_config \<Rightarrow> system_config) option)"

definition system_fields :: "'n yaml \<Rightarrow> 'n field list" where
  "system_fields y =
     [(''mode'', \<lambda>v. map_option (\<lambda>x c. c\<lparr>sc_mode := x\<rparr>) (ya_string y v)),
      (''log_level'', \<lambda>v. map_option (\<lambda>x c. c\<lparr>sc_log_level := x\<rparr>) (ya_string y v)),
      (''log_dir'', \<lambda>v. map_option (\<lambda>x c. c\<lparr>sc_log_dir := x\<rparr>) (ya_string y v))]"

definition risk_fields :: "'n yaml \<Rightarrow> 'n field list" where
  "risk_fields y =
     [(''max_notional'', \<lambda>v. map_option (\<lambda>x c. c\<lparr>sc_risk := sc_risk c\<lparr>rc_max_notional := x\<rparr>\<rparr>) (ya_i64 y v)),
      (''max_net_qty'', \<lambda>v. map_option (\<lambda>x c. c\<lparr>sc_risk := sc_risk c\<lparr>rc_max_net_qty := x\<rparr>\<rparr>) (ya_i64 y v)),
      (''max_order_rate'', \<lambda>v. map_option (\<lambda>x c. c\<lparr>sc_risk := sc_risk c\<lparr>rc_max_order_rate := x\<rparr>\<rparr>) (ya_i64 y v)),
      (''daily_loss_limit'', \<lambda>v. map_option (\<lambda>x c. c\<lparr>sc_risk := sc_risk c\<lparr>rc_daily_loss_limit := x\<rparr>\<rparr>) (ya_i64 y v))]"

definition market_maker_fields :: "'n yaml \<Rightarrow> 'n field list" where
  "market_maker_fields y =
     [(''instrument_id'', \<lambda>v. map_option (\<lambda>x c. c\<lparr>sc_market_maker := sc_market_maker c\<lparr>mc_instrument_id := x\<rparr>\<rparr>) (ya_u32 y v)),
      (''spread_ticks'', \<lambda>v. map_option (\<lambda>x c. c\<lparr>sc_market_maker := sc_market_maker c\<lparr>mc_spread_ticks := x\<rparr>\<rparr>) (ya_i64 y v)),
      (''order_qty'', \<lambda>v. map_option (\<lambda>x c. c\<lparr>sc_market_maker := sc_market_maker c\<lparr>mc_order_qty := x\<rparr>\<rparr>) (ya_i64 y v)),
      (''max_inventory'', \<lambda>v. map_option (\<lambda>x c. c\<lparr>sc_market_maker := sc_market_maker c\<lparr>mc_max_inventory := x\<rparr>\<rparr>) (ya_i64 y v))]"

definition market_data_fields :: "'n yaml \<Rightarrow> 'n field list" where
  "market_data_fields y =
     [(''mcast_addr'', \<lambda>v. map_option (\<lambda>x c. c\<lparr>sc_market_data := sc_market_data c\<lparr>dc_mcast_addr := x\<rparr>\<rparr>) (ya_string y v)),
      (''mcast_port'', \<lambda>v. map_option (\<lambda>x c. c\<lparr>sc_market_data := sc_market_data c\<lparr>dc_mcast_port := x\<rparr>\<rparr>) (ya_u16 y v)),
      (''iface'', \<lambda>v. map_option (\<lambda>x c. c\<lparr>sc_market_data := sc_market_data c\<lparr>dc_iface := x\<rparr>\<rparr>) (ya_string y v)),
      (''pcap_path'', \<lambda>v. map_option (\<lambda>x c. c\<lparr>sc_market_data := sc_market_data c\<lparr>dc_pcap_path := x\<rparr>\<rparr>) (ya_string y v))]"

definition monitoring_fields :: "'n yaml \<Rightarrow> 'n field list" where
  "monitoring_fields y =
     [(''prometheus_port'', \<lambda>v. map_option (\<lambda>x c. c\<lparr>sc_monitoring := sc_monitoring c\<lparr>nc_prometheus_port := x\<rparr>\<rparr>) (ya_int y v)),
      (''alert_webhook'', \<lambda>v. map_option (\<lambda>x c. c\<lparr>sc_monitoring := sc_monitoring c\<lparr>nc_alert_webhook := x\<rparr>\<rparr>) (ya_string y v))]"

definition config_sections :: "'n yaml \<Rightarrow> (string \<times> 'n field list) list" where
  "config_sections y = [(''system'', system_fields y), (''risk'', risk_fields y), (''market_maker'', market_maker_fields y),
     (''market_data'', market_data_fields y), (''monitoring'', monitoring_fields y)]"

text \<open>The body of the \<^verbatim>\<open>try\<close> block: the configuration so far, and whether an exception was thrown.\<close>

fun load_fields :: "'n yaml \<Rightarrow> 'n \<Rightarrow> 'n field list \<Rightarrow> system_config \<Rightarrow> system_config \<times> bool" where
  "load_fields y node [] c = (c, False)"
| "load_fields y node ((key, conv) # fs) c = (case ya_get y node key of
       None \<Rightarrow> (c, True)
     | Some v \<Rightarrow> if \<not> ya_defined y v then load_fields y node fs c
         else (case conv v of None \<Rightarrow> (c, True) | Some set_field \<Rightarrow> load_fields y node fs (set_field c)))"

fun load_sections :: "'n yaml \<Rightarrow> 'n \<Rightarrow> (string \<times> 'n field list) list \<Rightarrow> system_config \<Rightarrow> system_config \<times> bool" where
  "load_sections y doc [] c = (c, False)"
| "load_sections y doc ((key, fs) # ss) c = (case ya_get y doc key of
       None \<Rightarrow> (c, True)
     | Some v \<Rightarrow> if \<not> ya_defined y v then load_sections y doc ss c
         else (let (c1, threw) = load_fields y v fs c in if threw then (c1, True) else load_sections y doc ss c1))"

text \<open>\<open>files\<close> is the file system: \<open>None\<close> for no such file, \<open>Some None\<close> for one that does not parse.\<close>

definition config_load :: "'n yaml \<Rightarrow> (string \<Rightarrow> 'n option option) \<Rightarrow> string \<Rightarrow> system_config" where
  "config_load y files path = (case files path of
       None \<Rightarrow> default_config
     | Some None \<Rightarrow> default_config
     | Some (Some doc) \<Rightarrow> fst (load_sections y doc (config_sections y) default_config))"

definition load_from_env :: "'n yaml \<Rightarrow> (string \<Rightarrow> 'n option option) \<Rightarrow> string option \<Rightarrow> system_config" where
  "load_from_env y files env = (case env of
       Some env_path \<Rightarrow> if files env_path \<noteq> None then config_load y files env_path else config_load y files ''config/dev.yaml''
     | None \<Rightarrow> config_load y files ''config/dev.yaml'')"

subsection \<open>The start of main\<close>

record cmd_args =
  ca_config_path :: string
  ca_mode :: string

fun parse_args_loop :: "string list \<Rightarrow> cmd_args \<Rightarrow> cmd_args" where
  "parse_args_loop [] a = a"
| "parse_args_loop [x] a = a"
| "parse_args_loop (x # v # xs) a =
     (if x = ''--config'' then parse_args_loop xs (a\<lparr>ca_config_path := v\<rparr>)
      else if x = ''--mode'' then parse_args_loop xs (a\<lparr>ca_mode := v\<rparr>)
      else parse_args_loop (v # xs) a)"

definition parse_args :: "string list \<Rightarrow> cmd_args" where
  "parse_args argv = parse_args_loop (tl argv) \<lparr>ca_config_path = [], ca_mode = []\<rparr>"

datatype log_level = Log_debug | Log_info | Log_warn | Log_err | Log_critical

definition parse_log_level :: "string \<Rightarrow> log_level" where
  "parse_log_level s = (if s = ''debug'' then Log_debug else if s = ''info'' then Log_info else if s = ''warn'' then Log_warn
     else if s = ''error'' then Log_err else if s = ''critical'' then Log_critical else Log_info)"

definition startup_config :: "'n yaml \<Rightarrow> (string \<Rightarrow> 'n option option) \<Rightarrow> string option \<Rightarrow> string list \<Rightarrow> system_config" where
  "startup_config y files env argv =
     (let args = parse_args argv;
          cfg = (if ca_config_path args \<noteq> [] then config_load y files (ca_config_path args) else load_from_env y files env)
      in if ca_mode args \<noteq> [] then cfg\<lparr>sc_mode := ca_mode args\<rparr> else cfg)"

text \<open>What the constructors in \<^verbatim>\<open>main\<close> take from it.\<close>

definition settings_of :: "system_config \<Rightarrow> settings" where
  "settings_of c = \<lparr>cf_daily_loss_limit = rc_daily_loss_limit (sc_risk c), cf_max_order_rate = rc_max_order_rate (sc_risk c),
     cf_max_net_qty = rc_max_net_qty (sc_risk c), cf_max_notional = rc_max_notional (sc_risk c),
     cf_instrument_id = mc_instrument_id (sc_market_maker c), cf_spread_ticks = mc_spread_ticks (sc_market_maker c),
     cf_order_qty = mc_order_qty (sc_market_maker c), cf_max_inventory = mc_max_inventory (sc_market_maker c)\<rparr>"

definition use_pcap :: "system_config \<Rightarrow> bool" where
  "use_pcap c \<longleftrightarrow> dc_pcap_path (sc_market_data c) \<noteq> []"

subsection \<open>What is loaded\<close>

text \<open>
  The fields of the file one after the other: \<open>Absent\<close>, an assignment, or an exception.
\<close>

datatype entry = Absent | Assign "system_config \<Rightarrow> system_config" | Throws

fun field_entry :: "'n yaml \<Rightarrow> 'n \<Rightarrow> 'n field \<Rightarrow> entry" where
  "field_entry y node (key, conv) = (case ya_get y node key of None \<Rightarrow> Throws
     | Some v \<Rightarrow> if \<not> ya_defined y v then Absent else (case conv v of None \<Rightarrow> Throws | Some f \<Rightarrow> Assign f))"

fun section_entries :: "'n yaml \<Rightarrow> 'n \<Rightarrow> string \<times> 'n field list \<Rightarrow> entry list" where
  "section_entries y doc (key, fs) = (case ya_get y doc key of None \<Rightarrow> [Throws]
     | Some v \<Rightarrow> if \<not> ya_defined y v then [] else map (field_entry y v) fs)"

definition config_entries :: "'n yaml \<Rightarrow> 'n \<Rightarrow> entry list" where
  "config_entries y doc = concat (map (section_entries y doc) (config_sections y))"

fun apply_entry :: "entry \<Rightarrow> system_config \<Rightarrow> system_config" where
  "apply_entry (Assign f) c = f c"
| "apply_entry e c = c"

lemma load_fields_entries:
  "load_fields y node fs c = (fold apply_entry (takeWhile (\<lambda>e. e \<noteq> Throws) (map (field_entry y node) fs)) c,
     Throws \<in> set (map (field_entry y node) fs))"
  by (induction y node fs c rule: load_fields.induct) (auto split: option.split)

lemma load_sections_entries:
  "load_sections y doc ss c = (fold apply_entry (takeWhile (\<lambda>e. e \<noteq> Throws) (concat (map (section_entries y doc) ss))) c,
     Throws \<in> set (concat (map (section_entries y doc) ss)))"
proof (induction y doc ss c rule: load_sections.induct)
  case (2 y doc key fs ss c)
  show ?case
  proof (cases "ya_get y doc key")
    case (Some v)
    show ?thesis
    proof (cases "ya_defined y v")
      case True
      let ?es = "map (field_entry y v) fs"
      show ?thesis
      proof (cases "Throws \<in> set ?es")
        case False
        then have ne: "\<And>e. e \<in> set ?es \<Longrightarrow> e \<noteq> Throws" by blast
        then have "takeWhile (\<lambda>e. e \<noteq> Throws) ?es = ?es" unfolding takeWhile_eq_all_conv by blast
        then have lf: "load_fields y v fs c = (fold apply_entry ?es c, False)"
          using False by (simp only: load_fields_entries)
        have "takeWhile (\<lambda>e. e \<noteq> Throws) (?es @ xs) = ?es @ takeWhile (\<lambda>e. e \<noteq> Throws) xs" for xs
          using ne by (intro takeWhile_append2)
        then show ?thesis using 2 Some True False lf by auto
      next
        case thr: True
        then have "takeWhile (\<lambda>e. e \<noteq> Throws) (?es @ xs) = takeWhile (\<lambda>e. e \<noteq> Throws) ?es" for xs
          by (intro takeWhile_append1) auto
        then show ?thesis using Some True thr by (auto simp: load_fields_entries Let_def)
      qed
    qed (use 2 Some in simp)
  qed simp
qed simp

text \<open>A command line of options with values; the last value of an option counts.\<close>

definition option_value :: "string \<Rightarrow> (string \<times> string) list \<Rightarrow> string" where
  "option_value key opts = (case filter (\<lambda>e. fst e = key) (rev opts) of [] \<Rightarrow> [] | e # es \<Rightarrow> snd e)"

lemma option_value_snoc: "option_value key (opts @ [e]) = (if fst e = key then snd e else option_value key opts)"
  by (simp add: option_value_def)

lemma parse_args_snoc:
  assumes "\<forall>e \<in> set opts. fst e \<in> {''--config'', ''--mode''}"
  shows "parse_args_loop (concat (map (\<lambda>e. [fst e, snd e]) opts) @ xs) a =
    parse_args_loop xs (fold (\<lambda>e a. if fst e = ''--config'' then a\<lparr>ca_config_path := snd e\<rparr> else a\<lparr>ca_mode := snd e\<rparr>) opts a)"
  using assms by (induction opts arbitrary: a) auto

lemma parse_args_options:
  assumes "\<forall>e \<in> set opts. fst e \<in> {''--config'', ''--mode''}"
  shows "parse_args (prog # concat (map (\<lambda>e. [fst e, snd e]) opts))
    = \<lparr>ca_config_path = option_value ''--config'' opts, ca_mode = option_value ''--mode'' opts\<rparr>"
proof -
  have "fold (\<lambda>e a. if fst e = ''--config'' then a\<lparr>ca_config_path := snd e\<rparr> else a\<lparr>ca_mode := snd e\<rparr>) opts
      \<lparr>ca_config_path = [], ca_mode = []\<rparr>
    = \<lparr>ca_config_path = option_value ''--config'' opts, ca_mode = option_value ''--mode'' opts\<rparr>"
    using assms
  proof (induction opts rule: rev_induct)
    case (snoc e opts)
    then show ?case by (auto simp: option_value_snoc)
  qed (simp add: option_value_def)
  then show ?thesis using parse_args_snoc [OF assms, of "[]"] by (simp add: parse_args_def)
qed

text \<open>The file that is read.\<close>

definition config_file :: "(string \<Rightarrow> 'n option option) \<Rightarrow> string option \<Rightarrow> string \<Rightarrow> string" where
  "config_file files env path = (if path \<noteq> [] then path
     else case env of Some p \<Rightarrow> if files p \<noteq> None then p else ''config/dev.yaml'' | None \<Rightarrow> ''config/dev.yaml'')"

definition loaded_entries :: "'n yaml \<Rightarrow> 'n option option \<Rightarrow> entry list" where
  "loaded_entries y f = (case f of Some (Some doc) \<Rightarrow> takeWhile (\<lambda>e. e \<noteq> Throws) (config_entries y doc) | _ \<Rightarrow> [])"

lemma config_load_entries: "config_load y files path = fold apply_entry (loaded_entries y (files path)) default_config"
  by (simp add: config_load_def loaded_entries_def config_entries_def load_sections_entries split: option.split)

text \<open>
  Claim C39.  The configuration a process starts with: for a command line of options, the file is the
  last one named there, else the one of the environment if it exists, else the default one; its values
  are assigned in order up to the first that cannot be read, whatever is missing or comes after that
  keeps its default, and a missing or unreadable file gives the defaults; the mode of the command line
  replaces that of the file.
\<close>

theorem startup_configuration:
  assumes "\<forall>e \<in> set opts. fst e \<in> {''--config'', ''--mode''}"
  shows "startup_config y files env (prog # concat (map (\<lambda>e. [fst e, snd e]) opts)) =
    (let c = fold apply_entry (loaded_entries y (files (config_file files env (option_value ''--config'' opts)))) default_config;
         m = option_value ''--mode'' opts
     in if m \<noteq> [] then c\<lparr>sc_mode := m\<rparr> else c)"
  unfolding startup_config_def parse_args_options [OF assms] config_load_entries load_from_env_def config_file_def Let_def
  by (simp split: option.split)

text \<open>A small library: a document is a list of sections, a value a number or a text.\<close>

datatype sample_node = Num int | Str string | Sub "(string \<times> sample_node) list" | Undef

definition sample_yaml :: "sample_node yaml" where
  "sample_yaml = \<lparr>ya_get = (\<lambda>n key. case n of Sub kvs \<Rightarrow> Some (case map_of kvs key of None \<Rightarrow> Undef | Some v \<Rightarrow> v) | _ \<Rightarrow> None),
     ya_defined = (\<lambda>n. n \<noteq> Undef), ya_string = (\<lambda>n. case n of Str s \<Rightarrow> Some s | _ \<Rightarrow> None),
     ya_i64 = (\<lambda>n. case n of Num v \<Rightarrow> Some v | _ \<Rightarrow> None), ya_u32 = (\<lambda>n. case n of Num v \<Rightarrow> Some (of_int v) | _ \<Rightarrow> None),
     ya_u16 = (\<lambda>n. case n of Num v \<Rightarrow> Some (of_int v) | _ \<Rightarrow> None), ya_int = (\<lambda>n. case n of Num v \<Rightarrow> Some v | _ \<Rightarrow> None)\<rparr>"

definition sample_doc :: sample_node where
  "sample_doc = Sub [(''risk'', Sub [(''max_notional'', Num 5), (''max_net_qty'', Str ''many''), (''max_order_rate'', Num 7)])]"

theorem startup_configuration_witness:
  "sc_risk (startup_config sample_yaml (\<lambda>p. if p = ''a.yaml'' then Some (Some sample_doc) else None) None
     [''hft'', ''--config'', ''a.yaml'', ''--mode'', ''production''])
   = \<lparr>rc_max_notional = 5, rc_max_net_qty = 10000, rc_max_order_rate = 100, rc_daily_loss_limit = - 500000\<rparr>"
proof -
  let ?opts = "[(''--config'', ''a.yaml''), (''--mode'', ''production'')]"
  let ?files = "\<lambda>p. if p = ''a.yaml'' then Some (Some sample_doc) else None"
  have ok: "\<forall>e \<in> set ?opts. fst e \<in> {''--config'', ''--mode''}" by simp
  have v: "option_value ''--config'' ?opts = ''a.yaml''" "option_value ''--mode'' ?opts = ''production''"
    by (simp_all add: option_value_def)
  have e: "fold apply_entry (loaded_entries sample_yaml (Some (Some sample_doc))) default_config
    = default_config\<lparr>sc_risk := sc_risk default_config\<lparr>rc_max_notional := 5\<rparr>\<rparr>"
    by (simp add: loaded_entries_def config_entries_def config_sections_def system_fields_def risk_fields_def sample_yaml_def sample_doc_def)
  show ?thesis using startup_configuration [OF ok, of sample_yaml ?files None "''hft''"]
    by (simp add: v config_file_def e Let_def) (simp add: default_config_def)
qed

end
