(* ===== verification/Clock.thy ===== *)
theory Clock
  imports Binary64 Bytes
begin

text \<open>
  \<^verbatim>\<open>src/infra/rdtsc_clock.hpp\<close>, the Linux branch: the readings of the time stamp counter and of the
  steady clock are arguments.  Converting a double that is out of range to an unsigned integer is
  undefined in C++: the value \<open>None\<close>.
\<close>

definition raw_tsc :: "u32 \<Rightarrow> u32 \<Rightarrow> u64" where
  "raw_tsc hi lo = or (push_bit 32 (ucast hi)) (ucast lo)"

record rdtsc_clock =
  rk_ns_per_cycle :: b64
  rk_base_tsc :: u64
  rk_base_ns :: u64
  rk_calibrated :: bool

text \<open>What a round of the loop reads: \<open>tsc0\<close>, \<open>wall0\<close>, \<open>tsc1\<close> and \<open>wall1\<close>.\<close>

record clock_sample =
  cs_tsc0 :: u64
  cs_wall0 :: int
  cs_tsc1 :: u64
  cs_wall1 :: int

definition sample_step :: "clock_sample \<Rightarrow> b64 \<times> int \<Rightarrow> b64 \<times> int" where
  "sample_step s acc = (case acc of (tot, cnt) \<Rightarrow>
     let dt_ns = b64_of_int (i64 (cs_wall1 s - cs_wall0 s)); dt_tsc = b64_of_int (uint (cs_tsc1 s - cs_tsc0 s)) in
     if b64_less (Fin 0) dt_tsc \<and> b64_less (Fin 0) dt_ns
     then let ratio = b64_div dt_ns dt_tsc in (b64_add tot ratio, cnt + 1) else (tot, cnt))"

definition calibrate :: "clock_sample list \<Rightarrow> u64 \<Rightarrow> u64 \<Rightarrow> rdtsc_clock \<Rightarrow> rdtsc_clock" where
  "calibrate samples tsc wall_ns c =
     (let (tot, cnt) = fold sample_step samples (Fin 0, 0);
          c1 = (if cnt > 0 then c\<lparr>rk_ns_per_cycle := b64_div tot (b64_of_int cnt)\<rparr> else c)
      in c1\<lparr>rk_base_tsc := tsc, rk_base_ns := wall_ns, rk_calibrated := True\<rparr>)"

definition rdtsc_clock_new :: "clock_sample list \<Rightarrow> u64 \<Rightarrow> u64 \<Rightarrow> rdtsc_clock" where
  "rdtsc_clock_new samples tsc wall_ns = calibrate samples tsc wall_ns
     \<lparr>rk_ns_per_cycle = Fin 1, rk_base_tsc = 0, rk_base_ns = 0, rk_calibrated = False\<rparr>"

fun b64_to_u64 :: "b64 \<Rightarrow> u64 option" where
  "b64_to_u64 (Fin x) = (if 0 \<le> rat_trunc x \<and> rat_trunc x < 2 ^ 64 then Some (of_int (rat_trunc x)) else None)"
| "b64_to_u64 x = None"

definition now_ns :: "u64 \<Rightarrow> rdtsc_clock \<Rightarrow> u64 option" where
  "now_ns tsc c = (let delta_tsc = tsc - rk_base_tsc c in
     map_option (\<lambda>d. rk_base_ns c + d) (b64_to_u64 (b64_mult (b64_of_int (uint delta_tsc)) (rk_ns_per_cycle c))))"

lemma raw_tsc_value: "uint (raw_tsc hi lo) = uint hi * 2 ^ 32 + uint lo"
proof -
  have "raw_tsc hi lo = push_bit 32 (ucast hi) + ucast lo"
    unfolding raw_tsc_def by (rule disjunctive_add [symmetric]) (auto simp: bit_simps dest: bit_imp_le_length)
  moreover have h: "uint hi < 2 ^ 32" "uint lo < 2 ^ 32" using uint_lt2p [of hi] uint_lt2p [of lo] by simp_all
  moreover have "uint (push_bit 32 (ucast hi :: u64)) = uint hi * 2 ^ 32"
    using h by (simp add: push_bit_eq_mult uint_word_ariths uint_up_ucast is_up)
  moreover have "uint (ucast lo :: u64) = uint lo" by (simp add: uint_up_ucast is_up)
  ultimately show ?thesis by (simp add: uint_word_ariths)
qed

subsection \<open>Calibration\<close>

definition good_ratio :: "b64 \<Rightarrow> bool" where
  "good_ratio r \<longleftrightarrow> (\<exists>x. r = Fin x \<and> 2 powi (- 96) \<le> x \<and> x \<le> 2 ^ 63)"

lemma pow_lt_1024: "n < 1024 \<Longrightarrow> (2 :: rat) ^ n < 2 ^ 1024"
  by (rule power_strict_increasing) simp_all

lemma representable_nat_pow: "representable (2 ^ n)"
  using representable_pow [of "int n"] by simp

lemma positive_int_double:
  assumes "0 < n" and "n \<le> 2 ^ k" and "k \<le> 64"
  shows "b64_of_int n = Fin (round_rat (of_int n)) \<and> 1 \<le> round_rat (of_int n) \<and> round_rat (of_int n) \<le> 2 ^ k"
proof -
  have "(1 :: rat) \<le> of_int n" using assms(1) by simp
  moreover have "of_int n \<le> (of_int (2 ^ k) :: rat)" using assms(2) by (simp only: of_int_le_iff)
  moreover have "(2 :: rat) ^ k < 2 ^ 1024" using assms(3) by (intro pow_lt_1024) simp
  moreover have "- (2 ^ 1024) < (1 :: rat)" by (rule order.strict_trans [of _ 0]) simp_all
  ultimately show ?thesis
    using b64_round_bounded [of 1 "2 ^ k" "of_int n"] representable_nat_pow [of 0] representable_nat_pow [of k]
    by (simp add: b64_of_int_def)
qed

lemma sample_ratio:
  assumes "b64_less (Fin 0) (b64_of_int (uint (t :: u64)))" and "b64_less (Fin 0) (b64_of_int w)" and "in_i64 w"
  shows "\<exists>x. b64_div (b64_of_int w) (b64_of_int (uint t)) = Fin x \<and> 2 powi (- 64) \<le> x \<and> x \<le> 2 ^ 63"
proof -
  have z: "b64_of_int 0 = Fin 0" using b64_of_int_exact [of 0] by simp
  have "uint t \<noteq> 0" using assms(1) z by force
  then have t: "0 < uint t" "uint t \<le> 2 ^ 64" using uint_ge_0 [of t] uint_lt2p [of t] by (linarith, simp)
  have neg: "round_rat (of_int w) \<le> 0" if "w \<le> 0" using round_rat_mono [of "of_int w" 0] that by simp
  have w: "0 < w" "w \<le> 2 ^ 63"
  proof -
    show "w \<le> 2 ^ 63" using assms(3) by (simp add: in_i64_def)
    show "0 < w"
    proof (rule ccontr)
      assume "\<not> 0 < w"
      then have "round_rat (of_int w) \<le> 0" using neg by simp
      then have "\<not> b64_less (Fin 0) (b64_of_int w)"
        by (auto simp: b64_of_int_def b64_round_def Let_def dest: order.trans)
      then show False using assms(2) by simp
    qed
  qed
  obtain a b where ab: "b64_of_int w = Fin a" "1 \<le> a" "a \<le> 2 ^ 63" "b64_of_int (uint t) = Fin b" "1 \<le> b" "b \<le> 2 ^ 64"
    using positive_int_double [OF w] positive_int_double [OF t] by auto
  have "1 / 2 ^ 64 \<le> a / b" using ab by (intro frac_le) simp_all
  moreover have "a / b \<le> 2 ^ 63" using frac_le [of "2 ^ 63" a 1 b] ab(3,5) by simp
  moreover have "(2 :: rat) powi (- 64) = 1 / 2 ^ 64" by (simp add: power_int_minus_divide)
  moreover have "- (2 ^ 1024) < (2 :: rat) powi (- 64)" by (rule order.strict_trans [of _ 0]) simp_all
  moreover have "(2 :: rat) ^ 63 < 2 ^ 1024" by (intro pow_lt_1024) simp
  ultimately show ?thesis
    using b64_round_bounded [of "2 powi (- 64)" "2 ^ 63" "a / b"] representable_pow [of "- 64"] representable_nat_pow [of 63] ab
    by simp
qed

lemma samples_sum:
  assumes "\<forall>s \<in> set samples. in_i64 (cs_wall1 s - cs_wall0 s)" and "length samples \<le> 2 ^ 32"
  shows "\<exists>x n. fold sample_step samples (Fin 0, 0) = (Fin x, int n) \<and> n \<le> length samples
    \<and> (n = 0 \<longrightarrow> x = 0) \<and> (0 < n \<longrightarrow> 2 powi (- 64) \<le> x \<and> x \<le> of_nat n * 2 ^ 63)"
  using assms
proof (induction samples rule: rev_induct)
  case (snoc s samples)
  then obtain x n where f: "fold sample_step samples (Fin 0, 0) = (Fin x, int n)" "n \<le> length samples"
    "n = 0 \<longrightarrow> x = 0" "0 < n \<longrightarrow> 2 powi (- 64) \<le> x \<and> x \<le> of_nat n * 2 ^ 63" by auto
  define w where "w = cs_wall1 s - cs_wall0 s"
  define t where "t = cs_tsc1 s - cs_tsc0 s"
  have w: "in_i64 w" "i64 w = w" using snoc.prems(1) by (simp_all add: w_def i64_id)
  let ?go = "b64_less (Fin 0) (b64_of_int (uint t)) \<and> b64_less (Fin 0) (b64_of_int w)"
  show ?case
  proof (cases ?go)
    case True
    then obtain r where r: "b64_div (b64_of_int w) (b64_of_int (uint t)) = Fin r" "2 powi (- 64) \<le> r" "r \<le> 2 ^ 63"
      using sample_ratio [of t w] w(1) by blast
    have pos: "(0 :: rat) < 2 powi (- 64)" by (rule two_powi_pos)
    have x: "0 \<le> x" "x \<le> of_nat n * 2 ^ 63" using f(3,4) pos by (cases n; force)+
    have lo: "2 powi (- 64) \<le> x + r" using x(1) r(2) by simp
    have hi: "x + r \<le> of_nat (Suc n) * 2 ^ 63" using x(2) r(3) by (simp add: distrib_right)
    have n: "Suc n \<le> 2 ^ 32" using f(2) snoc.prems(2) by simp
    then have "of_nat (Suc n) \<le> (of_nat (2 ^ 32) :: rat)" by (simp only: of_nat_le_iff)
    then have "of_nat (Suc n) * 2 ^ 63 \<le> (2 :: rat) ^ 95" by simp
    then have big: "of_nat (Suc n) * 2 ^ 63 < (2 :: rat) ^ 1024" using pow_lt_1024 [of 95] by linarith
    have "int (Suc n) \<le> 2 ^ 53" using n by simp
    then have rep: "representable (of_nat (Suc n) * 2 ^ 63)"
      unfolding representable_def by (intro exI [of _ "int (Suc n)"] exI [of _ 63]) simp
    have neg: "- (2 ^ 1024) < (2 :: rat) powi (- 64)" using pos by (rule order.strict_trans [rotated]) simp
    note b = b64_round_bounded [OF representable_pow [of "- 64"] rep lo hi neg big]
    have "sample_step s (Fin x, int n) = (Fin (round_rat (x + r)), int (Suc n))"
      using True r(1) w(2) b(1) by (simp add: sample_step_def Let_def w_def [symmetric] t_def [symmetric])
    then show ?thesis using f(1,2) b(2,3) by (intro exI [of _ "round_rat (x + r)"] exI [of _ "Suc n"]) simp
  next
    case False
    then have "sample_step s (Fin x, int n) = (Fin x, int n)"
      using w(2) by (auto simp: sample_step_def Let_def w_def [symmetric] t_def [symmetric])
    then show ?thesis using f by (intro exI [of _ x] exI [of _ n]) auto
  qed
qed simp

lemma calibrate_good:
  assumes "\<forall>s \<in> set samples. in_i64 (cs_wall1 s - cs_wall0 s)" and "length samples \<le> 2 ^ 32" and "good_ratio (rk_ns_per_cycle c)"
  shows "good_ratio (rk_ns_per_cycle (calibrate samples tsc wall c))"
proof -
  obtain x n where f: "fold sample_step samples (Fin 0, 0) = (Fin x, int n)" "n \<le> length samples"
    "0 < n \<longrightarrow> 2 powi (- 64) \<le> x \<and> x \<le> of_nat n * 2 ^ 63" using samples_sum [OF assms(1,2)] by blast
  show ?thesis
  proof (cases "n = 0")
    case True
    then show ?thesis using assms(3) f(1) by (simp add: calibrate_def)
  next
    case False
    then have n: "0 < n" "(n :: nat) \<le> 2 ^ 32" using f(2) assms(2) by simp_all
    then have nr: "(1 :: rat) \<le> of_nat n" "(of_nat n :: rat) \<le> 2 ^ 32"
    proof -
      have "of_nat n \<le> (of_nat (2 ^ 32) :: rat)" using n(2) by (simp only: of_nat_le_iff)
      then show "(of_nat n :: rat) \<le> 2 ^ 32" by simp
    qed (use n in simp)
    have e: "(2 :: rat) powi (- 96) = 2 powi (- 64) / 2 ^ 32" by (simp add: power_int_minus_divide)
    have "2 powi (- 64) / 2 ^ 32 \<le> x / of_nat n"
      using f(3) n nr by (intro frac_le) auto
    moreover have "x / of_nat n \<le> 2 ^ 63" using f(3) n(1) nr(1) by (simp add: pos_divide_le_eq mult.commute)
    moreover have "- (2 ^ 1024) < (2 :: rat) powi (- 96)" using two_powi_pos by (rule order.strict_trans [rotated]) simp
    moreover have "(2 :: rat) ^ 63 < 2 ^ 1024" by (intro pow_lt_1024) simp
    ultimately have "b64_round (x / of_nat n) = Fin (round_rat (x / of_nat n)) \<and> 2 powi (- 96) \<le> round_rat (x / of_nat n)
        \<and> round_rat (x / of_nat n) \<le> 2 ^ 63"
      using b64_round_bounded [of "2 powi (- 96)" "2 ^ 63" "x / of_nat n"] representable_pow [of "- 96"] representable_nat_pow [of 63]
      unfolding e by simp
    moreover have "b64_of_int (int n) = Fin (of_nat n)" using b64_of_int_exact [of "int n"] n(2) by simp
    ultimately show ?thesis using f(1) n(1) by (simp add: calibrate_def good_ratio_def)
  qed
qed

subsection \<open>Reading\<close>

lemma nonneg_int_double:
  assumes "0 \<le> n" and "n \<le> 2 ^ 64"
  shows "b64_of_int n = Fin (round_rat (of_int n))" and "0 \<le> round_rat (of_int n)" and "round_rat (of_int n) \<le> 2 ^ 64"
proof -
  have x: "0 \<le> (of_int n :: rat)" using assms(1) by simp
  have "of_int n \<le> (of_int (2 ^ 64) :: rat)" using assms(2) by (simp only: of_int_le_iff)
  then have y: "of_int n \<le> (2 :: rat) ^ 64" by simp
  have rep: "representable 0" using representable_of_int [of 0] by simp
  have big: "- (2 ^ 1024) < (0 :: rat)" "(2 :: rat) ^ 64 < 2 ^ 1024" by (simp, intro pow_lt_1024, simp)
  note b = b64_round_bounded [OF rep representable_nat_pow x y big]
  show "b64_of_int n = Fin (round_rat (of_int n))" using b(1) by (simp add: b64_of_int_def)
  show "0 \<le> round_rat (of_int n)" "round_rat (of_int n) \<le> 2 ^ 64" by (rule b)+
qed

lemma elapsed_double:
  "\<exists>x. b64_of_int (uint (d :: u64)) = Fin x \<and> x = round_rat (of_int (uint d)) \<and> 0 \<le> x \<and> x \<le> 2 ^ 64"
proof -
  obtain n where n: "uint d = n" "0 \<le> n" "n \<le> 2 ^ 64" using uint_ge_0 [of d] uint_lt2p [of d] by simp
  show ?thesis using nonneg_int_double [OF n(2,3)] unfolding n(1) by blast
qed

lemma uint_of_int_u64: "0 \<le> k \<Longrightarrow> k < 2 ^ 64 \<Longrightarrow> uint (of_int k :: u64) = k"
  by (simp add: uint_word_of_int_eq take_bit_int_eq_self)

definition elapsed_ns :: "u64 \<Rightarrow> rdtsc_clock \<Rightarrow> rat" where
  "elapsed_ns tsc c = (case rk_ns_per_cycle c of Fin r \<Rightarrow> round_rat (round_rat (of_int (uint (tsc - rk_base_tsc c))) * r) | _ \<Rightarrow> 0)"

lemma now_ns_value:
  assumes "good_ratio (rk_ns_per_cycle c)"
  shows "now_ns tsc c = (if elapsed_ns tsc c < 2 ^ 64 then Some (rk_base_ns c + of_int \<lfloor>elapsed_ns tsc c\<rfloor>) else None)"
    and "0 \<le> elapsed_ns tsc c"
proof -
  obtain r where r: "rk_ns_per_cycle c = Fin r" "2 powi (- 96) \<le> r" "r \<le> 2 ^ 63" using assms by (auto simp: good_ratio_def)
  then have r0: "0 \<le> r" using two_powi_pos [of "- 96"] by linarith
  obtain x where x: "b64_of_int (uint (tsc - rk_base_tsc c)) = Fin x" "x = round_rat (of_int (uint (tsc - rk_base_tsc c)))" "0 \<le> x" "x \<le> 2 ^ 64"
    using elapsed_double by blast
  have p: "0 \<le> x * r" "x * r \<le> 2 ^ 127"
    using x(3,4) r(3) r0 mult_mono [OF x(4) r(3)] by simp_all
  have rep: "representable 0" using representable_of_int [of 0] by simp
  have big: "- (2 ^ 1024) < (0 :: rat)" "(2 :: rat) ^ 127 < 2 ^ 1024" by (simp, intro pow_lt_1024, simp)
  note b = b64_round_bounded [OF rep representable_nat_pow p big]
  have e: "elapsed_ns tsc c = round_rat (x * r)" by (simp add: elapsed_ns_def r(1) x(2))
  show nn: "0 \<le> elapsed_ns tsc c" using b(2) e by simp
  have "\<lfloor>elapsed_ns tsc c\<rfloor> < 2 ^ 64 \<longleftrightarrow> elapsed_ns tsc c < of_int (2 ^ 64)" by (rule floor_less_iff)
  then show "now_ns tsc c = (if elapsed_ns tsc c < 2 ^ 64 then Some (rk_base_ns c + of_int \<lfloor>elapsed_ns tsc c\<rfloor>) else None)"
    using b(1) nn by (simp add: now_ns_def x(1) r(1) e rat_trunc_def)
qed

lemma elapsed_mono:
  assumes "good_ratio (rk_ns_per_cycle c)" and "t1 - rk_base_tsc c \<le> t2 - rk_base_tsc c"
  shows "elapsed_ns t1 c \<le> elapsed_ns t2 c"
proof -
  obtain r where r: "rk_ns_per_cycle c = Fin r" "2 powi (- 96) \<le> r" using assms by (auto simp: good_ratio_def)
  then have r0: "0 \<le> r" using two_powi_pos [of "- 96"] by linarith
  have "uint (t1 - rk_base_tsc c) \<le> uint (t2 - rk_base_tsc c)" using assms(2) by (simp add: word_le_def)
  then have "round_rat (of_int (uint (t1 - rk_base_tsc c))) \<le> round_rat (of_int (uint (t2 - rk_base_tsc c)))"
    by (intro round_rat_mono) (simp only: of_int_le_iff)
  from mult_right_mono [OF this r0] show ?thesis unfolding elapsed_ns_def r(1) b64.case by (rule round_rat_mono)
qed

text \<open>
  Claim C40.  The clock never runs backwards: whatever the calibration measured, the ratio it keeps is a
  finite positive number, and of two readings of the counter since then, if the conversion is defined
  for the later one it is defined for the earlier one and gives a time that is not later, counted from
  the base; at the base itself it gives the base time.
\<close>

theorem clock_monotone:
  assumes "\<forall>s \<in> set samples. in_i64 (cs_wall1 s - cs_wall0 s)" and "length samples \<le> 2 ^ 32"
    and "c = rdtsc_clock_new samples tsc wall" and "t1 - tsc \<le> t2 - tsc" and "now_ns t2 c = Some n2"
  shows "(\<exists>n1. now_ns t1 c = Some n1 \<and> n1 - wall \<le> n2 - wall) \<and> good_ratio (rk_ns_per_cycle c) \<and> now_ns tsc c = Some wall"
proof -
  have "good_ratio (Fin 1)" unfolding good_ratio_def
    by (intro exI [of _ 1]) (simp add: power_int_minus_divide)
  then have g: "good_ratio (rk_ns_per_cycle c)"
    using calibrate_good [OF assms(1,2)] by (simp add: assms(3) rdtsc_clock_new_def)
  have base: "rk_base_tsc c = tsc" "rk_base_ns c = wall"
    by (simp_all add: assms(3) rdtsc_clock_new_def calibrate_def case_prod_beta Let_def)
  note v = now_ns_value [OF g]
  have le: "elapsed_ns t1 c \<le> elapsed_ns t2 c" using elapsed_mono [OF g] assms(4) base by simp
  have lt: "elapsed_ns t2 c < 2 ^ 64" using assms(5) v(1) [of t2] by (simp split: if_splits)
  have fl: "0 \<le> \<lfloor>elapsed_ns t1 c\<rfloor>" "\<lfloor>elapsed_ns t1 c\<rfloor> \<le> \<lfloor>elapsed_ns t2 c\<rfloor>" using v(2) [of t1] floor_mono [OF le] by simp_all
  have f2: "\<lfloor>elapsed_ns t2 c\<rfloor> < 2 ^ 64" using lt floor_less_iff [of "elapsed_ns t2 c" "2 ^ 64"] by simp
  then have f1: "\<lfloor>elapsed_ns t1 c\<rfloor> < 2 ^ 64" using fl(2) by (rule order.strict_trans1 [rotated])
  have u: "uint (of_int \<lfloor>elapsed_ns t1 c\<rfloor> :: u64) = \<lfloor>elapsed_ns t1 c\<rfloor>" "uint (of_int \<lfloor>elapsed_ns t2 c\<rfloor> :: u64) = \<lfloor>elapsed_ns t2 c\<rfloor>"
    using uint_of_int_u64 [OF fl(1) f1] uint_of_int_u64 [OF order.trans [OF fl] f2] by blast+
  have n: "now_ns t1 c = Some (wall + of_int \<lfloor>elapsed_ns t1 c\<rfloor>)" "n2 = wall + of_int \<lfloor>elapsed_ns t2 c\<rfloor>"
    using v(1) [of t1] v(1) [of t2] le lt assms(5) base by simp_all
  have "(of_int \<lfloor>elapsed_ns t1 c\<rfloor> :: u64) \<le> of_int \<lfloor>elapsed_ns t2 c\<rfloor>" using u fl by (simp add: word_le_def)
  moreover have "elapsed_ns tsc c = 0" using g by (auto simp: elapsed_ns_def base good_ratio_def)
  ultimately show ?thesis using n g v(1) [of tsc] base by simp
qed

theorem clock_monotone_witness:
  "\<exists>n1. now_ns 3000 (rdtsc_clock_new [\<lparr>cs_tsc0 = 0, cs_wall0 = 0, cs_tsc1 = 2, cs_wall1 = 1\<rparr>] 1000 50) = Some n1 \<and> n1 - 50 \<le> 2000"
proof -
  let ?s = "[\<lparr>cs_tsc0 = 0, cs_wall0 = 0, cs_tsc1 = 2, cs_wall1 = 1\<rparr>]"
  let ?c = "rdtsc_clock_new ?s 1000 50"
  have h: "representable (1 / 2)" using representable_pow [of "- 1"] by (simp add: power_int_minus_divide)
  have e: "b64_of_int 1 = Fin 1" "b64_of_int 2 = Fin 2" using b64_of_int_exact [of 1] b64_of_int_exact [of 2] by simp_all
  have half: "b64_round (1 / 2) = Fin (1 / 2)"
    using b64_round_between [of 0 "1 / 2" 1] round_rat_exact [OF h] by simp
  have c: "rk_ns_per_cycle ?c = Fin (1 / 2)" "rk_base_tsc ?c = 1000" "rk_base_ns ?c = 50"
    by (simp_all add: rdtsc_clock_new_def calibrate_def sample_step_def e half i64_id in_i64_def)
  have f: "b64_of_int 4000 = Fin 4000" "b64_round 2000 = Fin 2000"
    using b64_of_int_exact [of 4000] b64_round_int [of 2000] by simp_all
  have n2: "now_ns 5000 ?c = Some 2050" by (simp add: now_ns_def c f rat_trunc_def)
  have ok: "\<forall>s \<in> set ?s. in_i64 (cs_wall1 s - cs_wall0 s)" "length ?s \<le> 2 ^ 32" by (simp_all add: in_i64_def)
  have le: "3000 - 1000 \<le> (5000 - 1000 :: u64)" by simp
  show ?thesis using clock_monotone [OF ok refl le n2] by auto
qed

end
