(* ===== verification/Platform.thy ===== *)
theory Platform
  imports Bytes
begin

text \<open>
  \<^verbatim>\<open>src/infra/huge_pages.cpp\<close> and \<^verbatim>\<open>src/infra/numa.cpp\<close>: the sizes of the blocks that the two allocators ask
  for, and the blocks they hold.  The system calls are arguments: what they return for a size, given the
  blocks in use.  A block is its address and its length.
\<close>

type_synonym blocks = "u64 \<rightharpoonup> u64"

definition align_up :: "u64 \<Rightarrow> u64 \<Rightarrow> u64" where
  "align_up sz align = and (sz + align - 1) (not (align - 1))"

definition HUGE_PAGE_SIZE :: u64 where "HUGE_PAGE_SIZE = 2 * 1024 * 1024"
definition CACHELINE_SIZE :: u64 where "CACHELINE_SIZE = 64"

text \<open>\<open>mmap m len huge\<close>: the address, \<open>None\<close> for \<^verbatim>\<open>MAP_FAILED\<close>.\<close>

definition alloc_huge_pages :: "(blocks \<Rightarrow> u64 \<Rightarrow> bool \<Rightarrow> u64 option) \<Rightarrow> u64 \<Rightarrow> blocks \<Rightarrow> blocks \<times> u64 option" where
  "alloc_huge_pages mmap sz m =
     (if sz = 0 then (m, None)
      else let aligned_size = align_up sz HUGE_PAGE_SIZE in
        case mmap m aligned_size True of
          Some p \<Rightarrow> (m(p \<mapsto> aligned_size), Some p)
        | None \<Rightarrow> (case mmap m aligned_size False of
              Some p \<Rightarrow> (m(p \<mapsto> aligned_size), Some p)
            | None \<Rightarrow> (m, None)))"

definition munmap :: "u64 \<Rightarrow> u64 \<Rightarrow> blocks \<Rightarrow> blocks" where
  "munmap p len m = (if m p = Some len then m(p := None) else m)"

definition free_huge_pages :: "u64 option \<Rightarrow> u64 \<Rightarrow> blocks \<Rightarrow> blocks" where
  "free_huge_pages ptr sz m = (case ptr of None \<Rightarrow> m
     | Some p \<Rightarrow> if sz = 0 then m else munmap p (align_up sz HUGE_PAGE_SIZE) m)"

text \<open>The allocator for elements of \<open>sizeof\<close> bytes; \<open>None\<close> is \<^verbatim>\<open>__builtin_trap\<close>.\<close>

definition huge_allocate :: "(blocks \<Rightarrow> u64 \<Rightarrow> bool \<Rightarrow> u64 option) \<Rightarrow> u64 \<Rightarrow> u64 \<Rightarrow> blocks \<Rightarrow> (blocks \<times> u64) option" where
  "huge_allocate mmap sizeof n m = (let bytes = n * sizeof in
     case alloc_huge_pages mmap bytes m of (m1, None) \<Rightarrow> None | (m1, Some p) \<Rightarrow> Some (m1, p))"

definition huge_deallocate :: "u64 \<Rightarrow> u64 \<Rightarrow> u64 \<Rightarrow> blocks \<Rightarrow> blocks" where
  "huge_deallocate sizeof p n m = free_huge_pages (Some p) (n * sizeof) m"

definition max_size :: "u64 \<Rightarrow> u64" where
  "max_size sizeof = (- 1) div sizeof"

text \<open>
  The library for the memory nodes when the build has it: its highest node (\<open>None\<close> when the system has
  none) and its allocation on a node.
\<close>

record numa_lib =
  nu_max_node :: "int option"
  nu_alloc :: "blocks \<Rightarrow> u64 \<Rightarrow> int \<Rightarrow> u64 option"

definition alloc_on_node :: "numa_lib option \<Rightarrow> (blocks \<Rightarrow> u64 \<Rightarrow> u64 option) \<Rightarrow> u64 \<Rightarrow> int \<Rightarrow> blocks \<Rightarrow> blocks \<times> u64 option" where
  "alloc_on_node nu memalign sz node m =
     (if sz = 0 then (m, None)
      else let aligned_size = align_up sz CACHELINE_SIZE;
               r = (case nu of
                      Some lib \<Rightarrow> (case nu_max_node lib of
                          Some max_node \<Rightarrow> nu_alloc lib m aligned_size (if node < 0 \<or> node > max_node then 0 else node)
                        | None \<Rightarrow> memalign m aligned_size)
                    | None \<Rightarrow> memalign m aligned_size)
           in case r of Some p \<Rightarrow> (m(p \<mapsto> aligned_size), Some p) | None \<Rightarrow> (m, None))"

definition free_numa :: "numa_lib option \<Rightarrow> u64 option \<Rightarrow> u64 \<Rightarrow> blocks \<Rightarrow> blocks" where
  "free_numa nu ptr sz m = (case ptr of None \<Rightarrow> m
     | Some p \<Rightarrow> if (case nu of Some lib \<Rightarrow> nu_max_node lib \<noteq> None | None \<Rightarrow> False) \<and> sz > 0
         then munmap p (align_up sz CACHELINE_SIZE) m else m(p := None))"

subsection \<open>Sizes\<close>

lemma and_not_mask: "and x (not (mask k)) = (push_bit k (drop_bit k x) :: u64)"
  by (rule bit_eqI) (auto simp: bit_simps)

lemma uint_pow2_u64: "k < 64 \<Longrightarrow> uint (2 ^ k :: u64) = 2 ^ k"
  by (rule uint_2p) (simp add: word_gt_0)

lemma uint_pow2_decr: "k < 64 \<Longrightarrow> uint (2 ^ k - 1 :: u64) = 2 ^ k - 1"
proof -
  assume k: "k < 64"
  then have "(2 :: int) ^ k < 2 ^ 64" by (intro power_strict_increasing) simp_all
  then show ?thesis by (simp add: uint_word_ariths uint_pow2_u64 [OF k])
qed

lemma uint_blocks:
  assumes "k < 64"
  shows "uint (push_bit k (drop_bit k x) :: u64) = uint x div 2 ^ k * 2 ^ k"
proof -
  have "uint x div 2 ^ k * 2 ^ k = uint x - uint x mod 2 ^ k" by (simp add: minus_mod_eq_div_mult)
  also have "\<dots> \<le> uint x" by simp
  also have "\<dots> < 2 ^ 64" using uint_lt2p [of x] by simp
  finally have "uint x div 2 ^ k * 2 ^ k < 2 ^ 64" .
  moreover have "0 \<le> uint x div 2 ^ k * 2 ^ k" by (simp add: pos_imp_zdiv_nonneg_iff)
  moreover have "uint (drop_bit k x) = uint x div 2 ^ k"
    by (simp add: drop_bit_eq_div uint_div_distrib uint_pow2_u64 assms)
  ultimately show ?thesis by (simp add: push_bit_eq_mult uint_word_ariths uint_pow2_u64 assms)
qed

lemma uint_add_fits: "uint (a :: u64) + uint b < 2 ^ 64 \<Longrightarrow> uint (a + b) = uint a + uint b"
  by (simp add: uint_word_ariths)

lemma align_up_fits:
  assumes "k < 64" and "uint s + 2 ^ k \<le> 2 ^ 64"
  shows "uint s \<le> uint (align_up s (2 ^ k)) \<and> uint (align_up s (2 ^ k)) < uint s + 2 ^ k \<and> 2 ^ k dvd uint (align_up s (2 ^ k))"
proof -
  have a: "align_up s (2 ^ k) = push_bit k (drop_bit k (s + (2 ^ k - 1)))"
    unfolding align_up_def mask_eq_decr_exp [symmetric] add_diff_eq [symmetric] by (rule and_not_mask)
  have "uint (s + (2 ^ k - 1)) = uint s + (2 ^ k - 1)"
    using uint_add_fits [of s "2 ^ k - 1"] assms(2) unfolding uint_pow2_decr [OF assms(1)] by simp
  then have e: "uint (align_up s (2 ^ k)) = (uint s + (2 ^ k - 1)) div 2 ^ k * 2 ^ k"
    unfolding a uint_blocks [OF assms(1)] by simp
  let ?y = "uint s + (2 ^ k - 1)"
  have "?y div 2 ^ k * 2 ^ k = ?y - ?y mod 2 ^ k" by (simp add: minus_mod_eq_div_mult)
  moreover have "0 \<le> ?y mod 2 ^ k" "?y mod 2 ^ k < 2 ^ k" by simp_all
  ultimately have "uint s \<le> ?y div 2 ^ k * 2 ^ k" "?y div 2 ^ k * 2 ^ k < uint s + 2 ^ k" by linarith+
  then show ?thesis by (simp add: e)
qed

subsection \<open>Blocks\<close>

text \<open>
  What is relied on of \<^verbatim>\<open>mmap\<close>: a new mapping does not overlap a block in use, and a length of 0 is
  refused.
\<close>

definition mmap_ok :: "(blocks \<Rightarrow> u64 \<Rightarrow> bool \<Rightarrow> u64 option) \<Rightarrow> bool" where
  "mmap_ok mmap \<longleftrightarrow> (\<forall>m len h p. mmap m len h = Some p \<longrightarrow> m p = None \<and> len \<noteq> 0)"

lemma huge_align: "align_up s HUGE_PAGE_SIZE = align_up s (2 ^ 21)"
  by (simp add: HUGE_PAGE_SIZE_def)

text \<open>
  A huge-page block: unless the size is within one page of the end of the address space, the block is
  the least multiple of the page that holds the size, and freeing it with the same size leaves the
  blocks as they were; beyond that the rounded size wraps to 0 and there is no block.
\<close>

theorem huge_pages_block:
  assumes "mmap_ok mmap" and "0 < sz" and "alloc_huge_pages mmap sz m = (m1, r)"
  shows "free_huge_pages r sz m1 = m"
    and "uint sz + 2 ^ 21 \<le> 2 ^ 64 \<Longrightarrow> r = Some p \<Longrightarrow>
      \<exists>len. m1 = m(p \<mapsto> len) \<and> uint sz \<le> uint len \<and> uint len < uint sz + 2 ^ 21 \<and> 2 ^ 21 dvd uint len"
    and "align_up sz HUGE_PAGE_SIZE = 0 \<Longrightarrow> r = None"
proof -
  have ok: "mmap m len h = Some p \<Longrightarrow> m p = None \<and> len \<noteq> 0" for m len h p using assms(1) unfolding mmap_ok_def by blast
  have nz: "sz \<noteq> 0" using assms(2) by auto
  note a = assms(3) [unfolded alloc_huge_pages_def]
  have cases: "(r = None \<and> m1 = m) \<or> (\<exists>p. r = Some p \<and> m1 = m(p \<mapsto> align_up sz HUGE_PAGE_SIZE) \<and> m p = None \<and> align_up sz HUGE_PAGE_SIZE \<noteq> 0)"
  proof (cases "mmap m (align_up sz HUGE_PAGE_SIZE) True")
    case None
    show ?thesis
    proof (cases "mmap m (align_up sz HUGE_PAGE_SIZE) False")
      case (Some p)
      have "m1 = m(p \<mapsto> align_up sz HUGE_PAGE_SIZE)" "r = Some p" using a nz None Some by (simp_all add: Let_def)
      then show ?thesis using ok [OF Some] by blast
    qed (use a nz None in \<open>simp add: Let_def\<close>)
  next
    case (Some p)
    have "m1 = m(p \<mapsto> align_up sz HUGE_PAGE_SIZE)" "r = Some p" using a nz Some by (simp_all add: Let_def)
    then show ?thesis using ok [OF Some] by blast
  qed
  then show "free_huge_pages r sz m1 = m"
    using nz by (auto simp: free_huge_pages_def munmap_def)
  show "\<exists>len. m1 = m(p \<mapsto> len) \<and> uint sz \<le> uint len \<and> uint len < uint sz + 2 ^ 21 \<and> 2 ^ 21 dvd uint len"
    if "uint sz + 2 ^ 21 \<le> 2 ^ 64" "r = Some p"
  proof -
    have "m1 = m(p \<mapsto> align_up sz (2 ^ 21))" using cases that(2) huge_align by auto
    with align_up_fits [OF _ that(1)] show ?thesis by (intro exI [of _ "align_up sz (2 ^ 21)"]) simp
  qed
  show "align_up sz HUGE_PAGE_SIZE = 0 \<Longrightarrow> r = None" using cases by auto
qed

text \<open>The allocator does not check its element count against \<open>max_size\<close>: the byte count wraps.\<close>

lemma huge_allocate_wraps: "max_size 8 < 2 ^ 61 + 1 \<and> huge_allocate mmap 8 (2 ^ 61 + 1) m = huge_allocate mmap 8 1 m"
proof -
  have b: "(2 ^ 61 + 1) * 8 = (1 * 8 :: u64)" by simp
  have "max_size 8 < 2 ^ 61 + 1" by (simp add: max_size_def)
  then show ?thesis unfolding huge_allocate_def b by simp
qed

subsection \<open>The memory node of the process\<close>

text \<open>
  \<^verbatim>\<open>get_current_numa_node\<close> on the text of \<^verbatim>\<open>/proc/self/status\<close>, \<open>None\<close> when it cannot be opened.
  \<^verbatim>\<open>fgets\<close> cuts a line of more than 127 characters; a number outside \<^verbatim>\<open>int\<close> is outside the model.
\<close>

definition fgets_line :: "nat \<Rightarrow> string \<Rightarrow> string \<times> string" where
  "fgets_line n f = (let k = length (takeWhile (\<lambda>c. c \<noteq> CHR 0x0A) f);
      m = min (n - 1) (if k < length f then k + 1 else k) in (take m f, drop m f))"

lemma fgets_line_shorter: "f \<noteq> [] \<Longrightarrow> fgets_line 128 f = (l, rest) \<Longrightarrow> length rest < length f"
  using length_takeWhile_le [of "\<lambda>c. c \<noteq> CHR 0x0A" f] by (auto simp: fgets_line_def Let_def split: if_splits)

definition is_digit :: "char \<Rightarrow> bool" where
  "is_digit c \<longleftrightarrow> 48 \<le> (of_char c :: nat) \<and> (of_char c :: nat) \<le> 57"

definition scan_int :: "string \<Rightarrow> int option" where
  "scan_int s = (let r = dropWhile (\<lambda>c. c \<in> {CHR 0x20, CHR 0x09, CHR 0x0A, CHR 0x0B, CHR 0x0C, CHR 0x0D}) s;
      neg = (take 1 r = ''-''); r1 = (if neg \<or> take 1 r = ''+'' then tl r else r); ds = takeWhile is_digit r1;
      n = foldl (\<lambda>a c. a * 10 + (of_char c - 48)) 0 ds
    in if ds = [] then None else Some (if neg then - n else n))"

function scan_ngid :: "string \<Rightarrow> int" where
  "scan_ngid f = (if f = [] then 0
     else let (line, rest) = fgets_line 128 f in
       if take 5 line = ''Ngid:'' then (case scan_int (drop 5 line) of None \<Rightarrow> 0 | Some n \<Rightarrow> n) else scan_ngid rest)"
  by pat_completeness auto
termination
  by (relation "measure length") (auto dest: fgets_line_shorter [OF _ sym])

declare scan_ngid.simps [simp del]

definition get_current_numa_node :: "string option \<Rightarrow> int" where
  "get_current_numa_node file = (case file of None \<Rightarrow> 0 | Some f \<Rightarrow> scan_ngid f)"

lemma fgets_line_whole:
  assumes "CHR 0x0A \<notin> set l" and "length l < 127"
  shows "fgets_line 128 (l @ CHR 0x0A # rest) = (l @ [CHR 0x0A], rest)"
proof -
  have "takeWhile (\<lambda>c. c \<noteq> CHR 0x0A) (l @ CHR 0x0A # rest) = l"
    using assms(1) by (auto simp: takeWhile_append)
  then show ?thesis using assms(2) by (simp add: fgets_line_def)
qed

text \<open>The field is found behind any lines that fit the buffer and have another name.\<close>

lemma scan_ngid_line:
  assumes "CHR 0x0A \<notin> set l" and "length l < 127"
  shows "scan_ngid (l @ CHR 0x0A # rest) =
    (if take 5 (l @ [CHR 0x0A]) = ''Ngid:'' then (case scan_int (drop 5 (l @ [CHR 0x0A])) of None \<Rightarrow> 0 | Some n \<Rightarrow> n) else scan_ngid rest)"
  by (subst scan_ngid.simps) (simp add: fgets_line_whole [OF assms])

lemma numa_node_example:
  "get_current_numa_node (Some (''Name: hft'' @ [CHR 0x0A] @ ''Ngid:'' @ [CHR 0x09] @ ''12'' @ [CHR 0x0A] @ ''Pid: 7'')) = 12"
  unfolding get_current_numa_node_def by code_simp

subsection \<open>Affinity and scheduling\<close>

text \<open>
  \<^verbatim>\<open>src/infra/cpu_affinity.cpp\<close> on Linux.  The system calls are arguments: \<open>setaffinity\<close> for the calling
  thread, \<open>setscheduler\<close> with the priority.  \<^verbatim>\<open>CPU_SET\<close> ignores a number beyond its set.
\<close>

definition CPU_SETSIZE :: nat where "CPU_SETSIZE = 1024"

definition cpu_set :: "int \<Rightarrow> nat set \<Rightarrow> nat set" where
  "cpu_set c cpuset = (if nat c < CPU_SETSIZE then insert (nat c) cpuset else cpuset)"

definition pin_thread_to_core :: "(nat set \<Rightarrow> int) \<Rightarrow> int \<Rightarrow> bool" where
  "pin_thread_to_core setaffinity core_id = (if core_id < 0 then False else setaffinity (cpu_set core_id {}) = 0)"

definition pin_thread_to_cores :: "(nat set \<Rightarrow> int) \<Rightarrow> int list \<Rightarrow> bool" where
  "pin_thread_to_cores setaffinity cores = (if cores = [] then False
     else setaffinity (fold (\<lambda>c cpuset. if c \<ge> 0 then cpu_set c cpuset else cpuset) cores {}) = 0)"

definition set_thread_realtime :: "(int \<Rightarrow> int) \<Rightarrow> int \<Rightarrow> bool" where
  "set_thread_realtime setscheduler priority = (if priority < 1 \<or> priority > 99 then False else setscheduler priority = 0)"

lemma fold_cpu_set:
  "fold (\<lambda>c cpuset. if c \<ge> 0 then cpu_set c cpuset else cpuset) cores m
     = m \<union> {nat c | c. c \<in> set cores \<and> 0 \<le> c \<and> nat c < CPU_SETSIZE}"
  by (induction cores arbitrary: m) (auto simp: cpu_set_def)

text \<open>One core pinned as a list is one core pinned; a list of negative numbers asks for no core at all.\<close>

lemma pin_one: "0 \<le> c \<Longrightarrow> pin_thread_to_cores setaffinity [c] = pin_thread_to_core setaffinity c"
  by (simp add: pin_thread_to_cores_def pin_thread_to_core_def)

lemma pin_negative: "cores \<noteq> [] \<Longrightarrow> \<forall>c \<in> set cores. c < 0 \<Longrightarrow> pin_thread_to_cores setaffinity cores = (setaffinity {} = 0)"
proof -
  assume a: "cores \<noteq> []" "\<forall>c \<in> set cores. c < 0"
  then have e: "{} \<union> {nat c | c. c \<in> set cores \<and> 0 \<le> c \<and> nat c < CPU_SETSIZE} = {}" by auto
  show ?thesis unfolding pin_thread_to_cores_def fold_cpu_set e using a(1) by simp
qed

end
