(* ===== verification/Capacity.thy ===== *)
theory Capacity
  imports Pipeline
begin

text \<open>
  How much the queues between the threads can take before anything is lost: which full container a loss
  needs, and how many orders are safe under every interleaving.
\<close>

subsection \<open>What a loss needs\<close>

lemma oms_submit_keeps:
  assumes "pipe_inv s D C Q P" and "length (tr_accepted s) < 2 ^ 64 - 2"
    and "oms_submit t req (tr_oms s) = Inr (om, None)"
  shows "oms_active_orders (tr_oms s) = pool_capacity (om_pool (tr_oms s))"
proof (rule ccontr)
  assume full: "\<not> ?thesis"
  have wf: "oms_wf (tr_oms s)" using pipe_invD(5) [OF assms(1)] by (simp add: oms_holds_def)
  have "0 < length (pool_free (om_pool (tr_oms s)))" using oms_room [OF wf] full by auto
  moreover have "unat (om_next_order_id (tr_oms s)) + 1 < 2 ^ 64" using pipe_invD(12) [OF assms(1)] assms(2) by simp
  ultimately have "\<exists>s' i. oms_submit t req (tr_oms s) = Inr (s', Some i)" using oms_submit_room [OF wf, of t req] by blast
  then show False using assms(3) by simp
qed

lemma loss_needs_full:
  assumes "pipe_inv s D C Q P" and "length (tr_accepted s) < 2 ^ 64 - 2" and "trading_step s s'" and "\<not> tr_lost s" and "tr_lost s'"
  shows "oms_active_orders (tr_oms s) = pool_capacity (om_pool (tr_oms s))
    \<or> length (spsc_contents CLOID_DEPTH (tr_cloids s)) = CLOID_DEPTH
    \<or> FILL_QUEUE \<le> length (ft_pending (om_tracker (tr_oms s))) \<and> tr_booked s' \<noteq> tr_booked s"
  using assms(3)
proof cases
  case (step_oms t)
  show ?thesis
  proof (cases "tr_oms_pc s")
    case (O_Checked req)
    then obtain om where "oms_submit t req (tr_oms s) = Inr (om, None)"
      using step_oms assms(4,5) by (auto simp: oms_iter_def rbind_Inr_iff)
    from oms_submit_keeps [OF assms(1,2) this] show ?thesis ..
  next
    case (O_Acked i)
    then obtain x where x: "\<not> snd (spsc_push CLOID_DEPTH x (tr_cloids s))"
      using step_oms assms(4,5) by (auto simp: oms_iter_def rbind_Inr_iff Let_def case_prod_beta)
    then have "\<not> length (spsc_contents CLOID_DEPTH (tr_cloids s)) < CLOID_DEPTH"
      using ring.push_ok [OF pipe_invD(2) [OF assms(1)], of x] by simp
    moreover have "length (spsc_contents CLOID_DEPTH (tr_cloids s)) \<le> CLOID_DEPTH"
      using pipe_invD(2) [OF assms(1)] by (simp add: spsc_wf_def)
    ultimately show ?thesis by simp
  qed (use step_oms assms(4,5) in \<open>auto simp: oms_iter_def rbind_Inr_iff Let_def case_prod_beta split: option.splits\<close>)
next
  case step_gw
  show ?thesis
  proof (cases "tr_gw_pc s")
    case (G_Fill c f)
    then show ?thesis using step_gw assms(4,5) by (auto simp: gw_iter_def rbind_Inr_iff)
  qed (use step_gw assms(4,5) in \<open>auto simp: gw_iter_def rbind_Inr_iff Let_def case_prod_beta split: option.splits\<close>)
next
  case step_pos
  then show ?thesis using assms(4,5) by (auto simp: pos_iter_def Let_def case_prod_beta split: pos_pc.splits option.splits)
qed (use assms(4,5) in \<open>auto simp: md_bbo_def md_depth_def rbind_Inr_iff strategy_iter_def Let_def case_prod_beta
    split: strategy_pc.splits option.splits\<close>)

subsection \<open>The first 1024 orders\<close>

lemma first_orders_kept:
  assumes "trading_reachable (trading_new now cf rw) s" and "memory_ok rw" and "0 \<le> cf_max_net_qty cf" and "cf_max_net_qty cf < 2 ^ 63"
    and "length (tr_accepted s) \<le> FILL_QUEUE"
  shows "\<not> tr_lost s"
  using assms(1,5)
proof induction
  case start
  then show ?case by (simp add: trading_new_def)
next
  case (more s s')
  have n: "length (tr_accepted s) \<le> FILL_QUEUE" using trading_step_mono(2) [OF more.hyps(2)] more.prems by simp
  have keep: "\<not> tr_lost s" by (rule more.IH [OF n])
  have small: "length (tr_accepted s) < 2 ^ 64 - 2" "length (tr_accepted s') < 2 ^ 64 - 2" using n more.prems by (simp_all add: FILL_QUEUE_def)
  obtain D C Q P where inv: "pipe_inv s D C Q P" using trading_reachable_inv [OF more.hyps(1) assms(2-4) keep small(1)] by blast
  note i = pipe_invD [OF inv]
  have len: "length (tr_accepted s) = length D + length C + length Q + length P" unfolding i(1) by simp
  show ?case
  proof
    assume "tr_lost s'"
    then consider (pool) "oms_active_orders (tr_oms s) = pool_capacity (om_pool (tr_oms s))"
      | (ids) "length (spsc_contents CLOID_DEPTH (tr_cloids s)) = CLOID_DEPTH"
      | (fills) "FILL_QUEUE \<le> length (ft_pending (om_tracker (tr_oms s)))" "tr_booked s' \<noteq> tr_booked s"
      using loss_needs_full [OF inv small(1) more.hyps(2) keep] by blast
    then show False
    proof cases
      case pool
      then show False using oms_holds_active [OF i(5)] trading_capacity [OF more.hyps(1)] n len
        by (simp add: ORDER_POOL_def FILL_QUEUE_def)
    next
      case ids
      then show False using n len unfolding i(3) by (simp add: CLOID_DEPTH_def FILL_QUEUE_def)
    next
      case fills
      have "length (tr_booked s) = length (fillable (D @ booked_of (tr_gw_pc s) C))" using arg_cong [OF i(8), of length] by simp
      moreover have "FILL_QUEUE \<le> length (tr_booked s)" using arg_cong [OF i(10), of length] fills(1) by simp
      moreover obtain c f where "tr_gw_pc s = G_Fill c f"
        using more.hyps(2) fills(2)
      proof cases
        case step_gw
        then show ?thesis using that fills(2)
          by (cases "tr_gw_pc s") (auto simp: gw_iter_def rbind_Inr_iff Let_def case_prod_beta split: option.splits)
      next
        case (step_oms t)
        then show ?thesis using fills(2)
          by (cases "tr_oms_pc s") (auto simp: oms_iter_def rbind_Inr_iff Let_def case_prod_beta split: option.splits)
      qed (auto simp: md_bbo_def md_depth_def rbind_Inr_iff strategy_iter_def pos_iter_def Let_def case_prod_beta
          split: strategy_pc.splits pos_pc.splits option.splits)
      ultimately have "FILL_QUEUE \<le> length (fillable D)" "length C = 1" using i(6) by auto
      moreover have "length (fillable D) \<le> length D" by (simp add: fillable_def)
      ultimately show False using n len by simp
    qed
  qed
qed

lemma kept_or_few:
  assumes "trading_reachable (trading_new now cf rw) s" and "memory_ok rw" and "0 \<le> cf_max_net_qty cf" and "cf_max_net_qty cf < 2 ^ 63"
    and "\<not> tr_lost s \<or> length (tr_accepted s) \<le> 1024"
  shows "\<not> tr_lost s"
  using assms(5) first_orders_kept [OF assms(1-4)] by (auto simp: FILL_QUEUE_def)



end
