(* ===== verification/Process_Invariants.thy ===== *)
theory Process_Invariants
  imports Capacity "HOL-Library.Sublist"
begin

text \<open>
  What every run of the process of \<^verbatim>\<open>src/main.cpp\<close> keeps, also when a full queue or an exhausted pool has
  lost something: no call of the OMS ever faults, no identifier is filled twice, the reservations stay
  within their limit, and every request is one the market maker was configured to send.
\<close>

subsection \<open>Identifiers and slots\<close>

text \<open>
  The identifier the gateway thread has in its hands, the same before its fill is booked, and the
  identifier of the order whose slot the OMS thread holds a pointer to.
\<close>

fun gw_id :: "gw_pc \<Rightarrow> u64 list" where
  "gw_id G_Loop = []" | "gw_id (G_Cloid c) = [c]" | "gw_id (G_Fill c f) = [c]" | "gw_id (G_Filled c f) = [c]"

fun gw_unfilled :: "gw_pc \<Rightarrow> u64 list" where
  "gw_unfilled G_Loop = []" | "gw_unfilled (G_Cloid c) = [c]" | "gw_unfilled (G_Fill c f) = [c]" | "gw_unfilled (G_Filled c f) = []"

fun gw_tagged :: "gw_pc \<Rightarrow> bool" where
  "gw_tagged (G_Fill c f) \<longleftrightarrow> fe_client_order_id f = c" | "gw_tagged _ \<longleftrightarrow> True"

fun holds_slot :: "(u64 \<rightharpoonup> nat) \<Rightarrow> oms_pc \<Rightarrow> u64 list \<Rightarrow> bool" where
  "holds_slot m (O_Submitted r (Some i)) P \<longleftrightarrow> (\<exists>oid. P = [oid] \<and> m oid = Some i)"
| "holds_slot m (O_Sent i) P \<longleftrightarrow> (\<exists>oid. P = [oid] \<and> m oid = Some i)"
| "holds_slot m (O_Acked i) P \<longleftrightarrow> (\<exists>oid. P = [oid] \<and> m oid = Some i)"
| "holds_slot m _ P \<longleftrightarrow> P = []"

abbreviation booked_ids :: "trading \<Rightarrow> u64 list" where
  "booked_ids s \<equiv> map fe_client_order_id (tr_booked s)"

abbreviation queued_ids :: "trading \<Rightarrow> u64 list" where
  "queued_ids s \<equiv> spsc_contents CLOID_DEPTH (tr_cloids s)"

text \<open>The accepted identifiers are the numbers from 1 on, and the next one follows.\<close>

definition ids_ok :: "u64 \<Rightarrow> (u64 \<times> OrderRequest) list \<Rightarrow> bool" where
  "ids_ok nxt L \<longleftrightarrow> map (\<lambda>e. unat (fst e)) L = [1..<Suc (length L)] \<and> unat nxt = Suc (length L)"

lemma ids_okD: "ids_ok nxt L \<Longrightarrow> unat nxt = Suc (length L)"
  by (simp add: ids_ok_def)

lemma ids_ok_fresh:
  assumes "ids_ok nxt L"
  shows "nxt \<notin> fst ` set L"
proof
  assume "nxt \<in> fst ` set L"
  then have "unat nxt \<in> set (map (\<lambda>e. unat (fst e)) L)" by force
  with assms show False by (simp add: ids_ok_def del: upt_Suc)
qed

lemma ids_ok_snoc: "ids_ok nxt L \<Longrightarrow> unat nxt + 1 < 2 ^ 64 \<Longrightarrow> ids_ok (nxt + 1) (L @ [(nxt, r)])"
  using unat_Suc_u64 [of nxt] by (simp add: ids_ok_def)

text \<open>
  The identifiers in the gateway thread's hands and those still on their way to it are all different, no
  booked one is among those yet to be filled, and all are accepted.
\<close>

definition ids_apart :: "gw_pc \<Rightarrow> u64 list \<Rightarrow> u64 list \<Rightarrow> u64 set \<Rightarrow> bool" where
  "ids_apart pc R B A \<longleftrightarrow> distinct (gw_id pc @ R) \<and> distinct B \<and> set B \<inter> set (gw_unfilled pc @ R) = {}
     \<and> set B \<union> set (gw_id pc @ R) \<subseteq> A"

definition safe_inv :: "trading \<Rightarrow> u64 list \<Rightarrow> bool" where
  "safe_inv s P \<longleftrightarrow> oms_wf (tr_oms s) \<and> ft_wf (om_tracker (tr_oms s)) \<and> spsc_wf CLOID_DEPTH (tr_cloids s)
     \<and> ids_ok (om_next_order_id (tr_oms s)) (tr_accepted s) \<and> holds_slot (map_of (om_orders (tr_oms s))) (tr_oms_pc s) P
     \<and> gw_tagged (tr_gw_pc s) \<and> ids_apart (tr_gw_pc s) (queued_ids s @ P) (booked_ids s) (fst ` set (tr_accepted s))
     \<and> subseq (tr_applied s @ in_flight (tr_pos_pc s) @ ft_pending (om_tracker (tr_oms s))) (tr_booked s)
     \<and> tr_positions s = fold pm_on_fill (tr_applied s) pm_new"

lemma safe_invD:
  assumes "safe_inv s P"
  shows "oms_wf (tr_oms s)" and "ft_wf (om_tracker (tr_oms s))" and "spsc_wf CLOID_DEPTH (tr_cloids s)"
    and "ids_ok (om_next_order_id (tr_oms s)) (tr_accepted s)"
    and "holds_slot (map_of (om_orders (tr_oms s))) (tr_oms_pc s) P" and "gw_tagged (tr_gw_pc s)"
    and "ids_apart (tr_gw_pc s) (queued_ids s @ P) (booked_ids s) (fst ` set (tr_accepted s))"
    and "subseq (tr_applied s @ in_flight (tr_pos_pc s) @ ft_pending (om_tracker (tr_oms s))) (tr_booked s)"
    and "tr_positions s = fold pm_on_fill (tr_applied s) pm_new"
  using assms unfolding safe_inv_def by blast+

lemma ids_apart_new: "ids_apart pc R B A \<Longrightarrow> n \<notin> A \<Longrightarrow> ids_apart pc (R @ [n]) B (insert n A)"
  by (cases pc) (auto simp: ids_apart_def)

lemma ids_apart_drop: "ids_apart pc (R @ [n]) B A \<Longrightarrow> ids_apart pc R B A"
  by (auto simp: ids_apart_def)

lemma ids_apart_take: "ids_apart G_Loop (c # R) B A \<Longrightarrow> ids_apart (G_Cloid c) R B A"
  by (auto simp: ids_apart_def)

lemma ids_apart_moves:
  "ids_apart (G_Cloid c) R B A \<Longrightarrow> ids_apart G_Loop R B A" "ids_apart (G_Cloid c) R B A \<Longrightarrow> ids_apart (G_Fill c f) R B A"
  "ids_apart (G_Fill c f) R B A \<Longrightarrow> ids_apart (G_Filled c f) R B A"
  "ids_apart (G_Fill c f) R B A \<Longrightarrow> ids_apart (G_Filled c f) R (B @ [c]) A"
  "ids_apart (G_Filled c f) R B A \<Longrightarrow> ids_apart G_Loop R B A \<and> c \<notin> set R"
  by (auto simp: ids_apart_def)

subsection \<open>The calls of the OMS\<close>

lemma oms_submit_total:
  assumes "oms_wf s" and "unat (om_next_order_id s) + 1 < 2 ^ 64"
  shows "\<exists>s' r. oms_submit now req s = Inr (s', r) \<and> oms_wf s' \<and> om_tracker s' = om_tracker s
    \<and> (case r of None \<Rightarrow> s' = s
       | Some i \<Rightarrow> om_next_order_id s' = om_next_order_id s + 1 \<and> map_of (om_orders s') (om_next_order_id s) = Some i)"
proof (cases "pool_free (om_pool s) = []")
  case True
  then show ?thesis using oms_submit_full [OF assms(1), of now req] assms(1) by simp
next
  case False
  then obtain s' i where s': "oms_submit now req s = Inr (s', Some i)" "oms_wf s'" "om_next_order_id s' = om_next_order_id s + 1"
    "om_tracker s' = om_tracker s" using oms_submit_room [OF assms(1) _ assms(2), of now req] by blast
  have "map_of (om_orders s') (om_next_order_id s) = Some i"
    by (rule oms_submit_slot [OF s'(1)]) (rule oms_abs_fresh(1) [OF assms(1) order_refl])
  then show ?thesis using s' by (intro exI [of _ s'] exI [of _ "Some i"]) simp
qed

lemma oms_on_ack_total:
  assumes "oms_wf s"
  shows "\<exists>s' ok. oms_on_ack a s = Inr (s', ok) \<and> oms_wf s' \<and> om_tracker s' = om_tracker s \<and> om_orders s' = om_orders s
    \<and> om_next_order_id s' = om_next_order_id s"
proof -
  obtain s' ok where s': "oms_on_ack a s = Inr (s', ok)" "oms_wf s'" using oms_on_ack_refines [OF assms] by blast
  then have "om_tracker s' = om_tracker s \<and> om_orders s' = om_orders s \<and> om_next_order_id s' = om_next_order_id s"
    by (auto simp: oms_on_ack_def rbind_Inr_iff Let_def case_prod_beta split: option.splits)
  then show ?thesis using s' by blast
qed

lemma oms_on_fill_total:
  assumes "oms_wf s"
  shows "\<exists>s' ok. oms_on_fill f s = Inr (s', ok) \<and> oms_wf s' \<and> om_orders s' = om_orders s
    \<and> om_next_order_id s' = om_next_order_id s \<and> om_tracker s' = (if ok then ft_on_fill f (om_tracker s) else om_tracker s)"
proof -
  obtain s' ok where s': "oms_on_fill f s = Inr (s', ok)" "oms_wf s'"
    "om_tracker s' = (if ok then ft_on_fill f (om_tracker s) else om_tracker s)" using oms_on_fill_refines [OF assms] by blast
  then have "om_orders s' = om_orders s \<and> om_next_order_id s' = om_next_order_id s"
    by (auto simp: oms_on_fill_def rbind_Inr_iff Let_def case_prod_beta split: option.splits)
  then show ?thesis using s' by blast
qed

lemma oms_release_total:
  assumes "oms_wf s"
  shows "oms_wf (oms_release oid s)" and "om_tracker (oms_release oid s) = om_tracker s"
    and "om_next_order_id (oms_release oid s) = om_next_order_id s"
    and "k \<noteq> oid \<Longrightarrow> map_of (om_orders (oms_release oid s)) k = map_of (om_orders s) k"
  using oms_release_correct [OF assms, of oid]
  by (simp_all add: oms_release_def map_of_erase split: option.split)

lemma holds_slot_load:
  assumes "oms_wf s" and "map_of (om_orders s) oid = Some i"
  shows "\<exists>ord. pool_load i (om_pool s) = Inr ord \<and> client_order_id ord = oid"
  by (rule oms_wf_lookup [OF assms]) blast

subsection \<open>Every step keeps the invariant\<close>

lemma safe_strategy: "safe_inv s P \<Longrightarrow> safe_inv (strategy_iter s) P"
  by (simp add: strategy_iter_def safe_inv_def Let_def case_prod_beta split: strategy_pc.split option.split)

lemma safe_md:
  "safe_inv s P \<Longrightarrow> safe_inv (md_bbo e s) P" "safe_inv s P \<Longrightarrow> md_depth d s = Inr s' \<Longrightarrow> safe_inv s' P"
  by (auto simp: md_bbo_def md_depth_def safe_inv_def rbind_Inr_iff)

lemma safe_pos:
  assumes "safe_inv s P"
  shows "safe_inv (pos_iter s) P"
proof (cases "tr_pos_pc s")
  case X_Loop
  note i = safe_invD [OF assms]
  obtain t r where t: "ft_pop_fill (om_tracker (tr_oms s)) = (t, r)" by force
  have q: "ft_wf t" "r = (case ft_pending (om_tracker (tr_oms s)) of [] \<Rightarrow> None | f # fs \<Rightarrow> Some f)"
    "ft_pending t = tl (ft_pending (om_tracker (tr_oms s)))"
    using ft_pop_fill_wf [OF i(2)] t ring.pop_value [of FILL_QUEUE "ft_queue (om_tracker (tr_oms s))"]
      ring.pop_contents [of FILL_QUEUE "ft_queue (om_tracker (tr_oms s))"] i(2)
    by (auto simp: ft_pop_fill_def ft_wf_def Let_def case_prod_beta)
  show ?thesis
    using i X_Loop t q
    by (cases "ft_pending (om_tracker (tr_oms s))") (simp_all add: pos_iter_def safe_inv_def)
qed (use safe_invD [OF assms] in \<open>simp_all add: pos_iter_def safe_inv_def\<close>)

lemma safe_submit:
  assumes inv: "safe_inv s P" and pc: "tr_oms_pc s = O_Checked req" and small: "length (tr_accepted s) < 2 ^ 64 - 2"
  shows "\<exists>s' P'. oms_iter now s = Inr s' \<and> safe_inv s' P'"
proof -
  note i = safe_invD [OF inv]
  let ?n = "om_next_order_id (tr_oms s)"
  have P: "P = []" using i(5) pc by simp
  have n: "unat ?n + 1 < 2 ^ 64" using ids_okD [OF i(4)] small by simp
  obtain om r where om: "oms_submit now req (tr_oms s) = Inr (om, r)" "oms_wf om" "om_tracker om = om_tracker (tr_oms s)"
    "case r of None \<Rightarrow> om = tr_oms s | Some k \<Rightarrow> om_next_order_id om = ?n + 1 \<and> map_of (om_orders om) ?n = Some k"
    using oms_submit_total [OF i(1) n, of now req] by blast
  show ?thesis
  proof (cases r)
    case None
    then show ?thesis using om(1,4) pc inv P by (simp add: oms_iter_def safe_inv_def)
  next
    case (Some k)
    let ?s = "s\<lparr>tr_oms := om, tr_oms_pc := O_Submitted req r, tr_accepted := tr_accepted s @ [(?n, req)], tr_lost := tr_lost s\<rparr>"
    have e: "oms_iter now s = Inr ?s" using om(1) pc Some by (simp add: oms_iter_def)
    have f: "?n \<notin> fst ` set (tr_accepted s)" by (rule ids_ok_fresh [OF i(4)])
    have "ids_ok (?n + 1) (tr_accepted s @ [(?n, req)])" by (rule ids_ok_snoc [OF i(4) n])
    moreover have "ids_apart (tr_gw_pc s) (queued_ids s @ [?n]) (booked_ids s) (insert ?n (fst ` set (tr_accepted s)))"
      using ids_apart_new [OF i(7) f] P by simp
    ultimately have "safe_inv ?s [?n]"
      using i om Some P by (simp add: safe_inv_def)
    then show ?thesis using e by blast
  qed
qed

lemma safe_push:
  assumes inv: "safe_inv s P" and pc: "tr_oms_pc s = O_Acked k"
  shows "\<exists>s' P'. oms_iter now s = Inr s' \<and> safe_inv s' P'"
proof -
  note i = safe_invD [OF inv]
  obtain oid where P: "P = [oid]" and k: "map_of (om_orders (tr_oms s)) oid = Some k" using i(5) pc by auto
  obtain ord where ord: "pool_load k (om_pool (tr_oms s)) = Inr ord" "client_order_id ord = oid"
    using holds_slot_load [OF i(1) k] by blast
  let ?q = "fst (spsc_push CLOID_DEPTH oid (tr_cloids s))"
  let ?s = "s\<lparr>tr_cloids := ?q, tr_oms_pc := O_Loop, tr_lost := tr_lost s \<or> \<not> snd (spsc_push CLOID_DEPTH oid (tr_cloids s))\<rparr>"
  have q: "spsc_wf CLOID_DEPTH ?q" "spsc_contents CLOID_DEPTH ?q = queued_ids s @ [oid] \<or> spsc_contents CLOID_DEPTH ?q = queued_ids s"
    using ring.push_wf [OF i(3), of oid] ring.push_contents [OF i(3), of oid] by simp_all
  have "oms_iter now s = Inr ?s" using ord pc by (simp add: oms_iter_def Let_def case_prod_beta)
  moreover have "safe_inv ?s []"
    using q(2)
  proof
    assume c: "spsc_contents CLOID_DEPTH ?q = queued_ids s @ [oid]"
    show ?thesis using i P c q(1) by (simp add: safe_inv_def del: length_spsc_contents)
  next
    assume c: "spsc_contents CLOID_DEPTH ?q = queued_ids s"
    show ?thesis using i P c q(1) ids_apart_drop by (auto simp: safe_inv_def simp del: length_spsc_contents)
  qed
  ultimately show ?thesis by blast
qed

lemma safe_oms:
  assumes inv: "safe_inv s P" and small: "length (tr_accepted s) < 2 ^ 64 - 2"
  shows "\<exists>s' P'. oms_iter now s = Inr s' \<and> safe_inv s' P'"
proof (cases "tr_oms_pc s")
  case O_Loop
  then show ?thesis using inv by (auto simp: oms_iter_def safe_inv_def Let_def case_prod_beta split: option.split)
next
  case (O_Popped req)
  then show ?thesis using inv by (auto simp: oms_iter_def safe_inv_def Let_def case_prod_beta)
next
  case (O_Checked req)
  then show ?thesis by (rule safe_submit [OF inv _ small])
next
  case (O_Submitted req x)
  then have "\<exists>s'. oms_iter now s = Inr s' \<and> safe_inv s' P"
    using inv by (cases x) (auto simp: oms_iter_def safe_inv_def)
  then show ?thesis by blast
next
  case (O_Sent k)
  note i = safe_invD [OF inv]
  obtain oid where oid: "P = [oid]" "map_of (om_orders (tr_oms s)) oid = Some k" using i(5) O_Sent by auto
  obtain ord where ord: "pool_load k (om_pool (tr_oms s)) = Inr ord" using holds_slot_load [OF i(1) oid(2)] by blast
  obtain om ok where om: "oms_on_ack (sim_ack (client_order_id ord)) (tr_oms s) = Inr (om, ok)" "oms_wf om"
    "om_tracker om = om_tracker (tr_oms s)" "om_orders om = om_orders (tr_oms s)" "om_next_order_id om = om_next_order_id (tr_oms s)"
    using oms_on_ack_total [OF i(1)] by blast
  then have "oms_iter now s = Inr (s\<lparr>tr_oms := om, tr_oms_pc := O_Acked k\<rparr>)" using ord O_Sent by (simp add: oms_iter_def)
  moreover have "safe_inv (s\<lparr>tr_oms := om, tr_oms_pc := O_Acked k\<rparr>) P"
    using i om O_Sent by (simp add: safe_inv_def)
  ultimately show ?thesis by blast
next
  case (O_Acked k)
  then show ?thesis by (rule safe_push [OF inv])
qed

lemma safe_book:
  assumes inv: "safe_inv s P" and pc: "tr_gw_pc s = G_Fill c f"
  shows "\<exists>s'. gw_iter s = Inr s' \<and> safe_inv s' P"
proof -
  note i = safe_invD [OF inv]
  let ?T = "om_tracker (tr_oms s)"
  obtain om ok where om: "oms_on_fill f (tr_oms s) = Inr (om, ok)" "oms_wf om" "om_orders om = om_orders (tr_oms s)"
    "om_next_order_id om = om_next_order_id (tr_oms s)" "om_tracker om = (if ok then ft_on_fill f ?T else ?T)"
    using oms_on_fill_total [OF i(1)] by blast
  have c: "fe_client_order_id f = c" using i(6) pc by simp
  let ?s = "s\<lparr>tr_oms := om, tr_gw_pc := G_Filled c f, tr_booked := (if ok then tr_booked s @ [f] else tr_booked s),
     tr_lost := tr_lost s \<or> (ok \<and> length (ft_pending ?T) \<ge> FILL_QUEUE)\<rparr>"
  have e: "gw_iter s = Inr ?s" using om(1) pc by (simp add: gw_iter_def)
  have a: "ids_apart (G_Filled c f) (queued_ids s @ P) (booked_ids ?s) (fst ` set (tr_accepted s))"
    using ids_apart_moves(3,4) i(7) pc c by (cases ok) simp_all
  have w: "ft_wf (om_tracker om)" using i(2) om(5) ft_on_fill_wf by simp
  have "subseq (tr_applied s @ in_flight (tr_pos_pc s) @ ft_pending (om_tracker om)) (tr_booked ?s)"
  proof (cases ok)
    case True
    have s1: "subseq (tr_applied s @ in_flight (tr_pos_pc s) @ ft_pending ?T @ [f]) (tr_booked s @ [f])"
      using list_emb_append_mono [OF i(8) subseq_order.order_refl [of "[f]"]] by simp
    have s2: "subseq (tr_applied s @ in_flight (tr_pos_pc s) @ ft_pending ?T) (tr_booked s @ [f])"
      by (rule list_emb_prefix [OF i(8)])
    show ?thesis using s1 s2 ft_pending_on_fill [OF i(2), of f] om(5) True by simp
  next
    case False
    then show ?thesis using i(8) om(5) by simp
  qed
  then have "safe_inv ?s P" using i a w om by (simp add: safe_inv_def del: length_spsc_contents)
  then show ?thesis using e by blast
qed

lemma safe_gw:
  assumes inv: "safe_inv s P"
  shows "\<exists>s'. gw_iter s = Inr s' \<and> safe_inv s' P"
proof (cases "tr_gw_pc s")
  case G_Loop
  note i = safe_invD [OF inv]
  let ?q = "fst (spsc_pop CLOID_DEPTH (tr_cloids s))"
  have q: "spsc_wf CLOID_DEPTH ?q" "spsc_contents CLOID_DEPTH ?q = tl (queued_ids s)"
    "snd (spsc_pop CLOID_DEPTH (tr_cloids s)) = (case queued_ids s of [] \<Rightarrow> None | c # cs \<Rightarrow> Some c)"
    using ring.pop_wf [OF i(3)] ring.pop_contents [OF i(3)] ring.pop_value [OF i(3)] by simp_all
  show ?thesis
  proof (cases "queued_ids s")
    case Nil
    then have "gw_iter s = Inr (s\<lparr>tr_cloids := ?q\<rparr>)" using G_Loop q(3) by (simp add: gw_iter_def Let_def case_prod_beta)
    moreover have "safe_inv (s\<lparr>tr_cloids := ?q\<rparr>) P" using i q Nil by (simp add: safe_inv_def)
    ultimately show ?thesis by blast
  next
    case (Cons c cs)
    let ?s = "s\<lparr>tr_cloids := ?q, tr_gw_pc := G_Cloid c\<rparr>"
    have "gw_iter s = Inr ?s" using G_Loop q(3) Cons by (simp add: gw_iter_def Let_def case_prod_beta)
    moreover have "ids_apart (G_Cloid c) (cs @ P) (booked_ids s) (fst ` set (tr_accepted s))"
      using i(7) G_Loop Cons by (intro ids_apart_take) simp
    then have "safe_inv ?s P" using i q Cons G_Loop by (simp add: safe_inv_def)
    ultimately show ?thesis by blast
  qed
next
  case (G_Cloid c)
  then show ?thesis using inv ids_apart_moves(1,2) [of c]
    by (auto simp: gw_iter_def safe_inv_def Let_def case_prod_beta split: option.split)
next
  case (G_Fill c f)
  then show ?thesis by (rule safe_book [OF inv])
next
  case (G_Filled c f)
  note i = safe_invD [OF inv]
  have a: "ids_apart G_Loop (queued_ids s @ P) (booked_ids s) (fst ` set (tr_accepted s))" "c \<notin> set P"
    using ids_apart_moves(5) [of c f "queued_ids s @ P"] i(7) G_Filled by auto
  have "holds_slot (map_of (om_orders (oms_release c (tr_oms s)))) (tr_oms_pc s) P"
    using i(5) a(2) oms_release_total(4) [OF i(1)]
    by (cases "(map_of (om_orders (tr_oms s)), tr_oms_pc s, P)" rule: holds_slot.cases) auto
  then show ?thesis
    using i a(1) oms_release_total(1-3) [OF i(1), of c] G_Filled by (auto simp: gw_iter_def safe_inv_def)
qed

lemma trading_new_safe:
  assumes "memory_ok rw"
  shows "safe_inv (trading_new now cf rw) []"
proof -
  have pool: "0 < ORDER_POOL" "ORDER_POOL < 2 ^ 64" by (simp_all add: ORDER_POOL_def)
  have "ft_wf (fill_tracker_new (rw_fills rw))" using assms by (simp add: memory_ok_def fill_tracker_new_wf)
  moreover have "om_tracker (oms_new ORDER_POOL t) = t" "om_next_order_id (oms_new ORDER_POOL t) = 1" for t
    by (simp_all add: oms_new_def)
  moreover have "ft_pending (fill_tracker_new m) = []" for m by (simp add: fill_tracker_new_def)
  ultimately show ?thesis
    using assms oms_new_wf(1) [OF pool] spsc_new_wf [OF pow2_CLOID_DEPTH, of "rw_cloids rw"]
    by (simp add: safe_inv_def trading_new_def memory_ok_def ids_ok_def ids_apart_def)
qed

lemma trading_safe:
  assumes "trading_reachable (trading_new now cf rw) s" and "memory_ok rw" and "length (tr_accepted s) < 2 ^ 64 - 2"
  shows "\<exists>P. safe_inv s P"
  using assms(1,3)
proof induction
  case start
  then show ?case using trading_new_safe [OF assms(2)] by blast
next
  case (more s s')
  have small: "length (tr_accepted s) < 2 ^ 64 - 2" using trading_step_mono(2) [OF more.hyps(2)] more.prems by simp
  then obtain P where P: "safe_inv s P" using more.IH by blast
  from more.hyps(2) show ?case
  proof cases
    case (step_oms t)
    then show ?thesis using safe_oms [OF P small, of t] by auto
  next
    case step_gw
    then show ?thesis using safe_gw [OF P] by auto
  qed (use P safe_md safe_strategy safe_pos in blast)+
qed

subsection \<open>The reservations stay within the limit\<close>

definition limits_hold :: "Qty \<Rightarrow> trading \<Rightarrow> bool" where
  "limits_hold maxq s \<longleftrightarrow> pl_max_net_qty (ptr_limits (tr_risk s)) = maxq
     \<and> (\<forall>k. \<bar>pl_slots (ptr_limits (tr_risk s)) k\<bar> \<le> maxq)"

text \<open>Only the OMS thread, at its check, changes what the risk gate holds.\<close>

lemma trading_step_risk:
  assumes "trading_step s s'"
  shows "tr_risk s' = tr_risk s \<or> (\<exists>t r. tr_oms_pc s = O_Popped r \<and> tr_risk s' = fst (ptr_check t r (tr_risk s)))"
  using assms
proof cases
  case (step_oms t)
  then show ?thesis
    by (cases "tr_oms_pc s") (auto simp: oms_iter_def rbind_Inr_iff Let_def case_prod_beta split: option.splits)
next
  case step_gw
  then show ?thesis
    by (cases "tr_gw_pc s") (auto simp: gw_iter_def rbind_Inr_iff Let_def case_prod_beta split: option.splits)
next
  case step_pos
  then show ?thesis by (simp add: pos_iter_def pl_on_fill_def Let_def case_prod_beta split: pos_pc.split option.split)
qed (auto simp: md_bbo_def md_depth_def rbind_Inr_iff strategy_iter_def Let_def case_prod_beta split: strategy_pc.splits option.splits)

lemma check_limits_hold:
  assumes "0 \<le> maxq" and "maxq < 2 ^ 63" and "pl_max_net_qty (ptr_limits r) = maxq \<and> (\<forall>k. \<bar>pl_slots (ptr_limits r) k\<bar> \<le> maxq)"
  shows "pl_max_net_qty (ptr_limits (fst (ptr_check t q r))) = maxq \<and> (\<forall>k. \<bar>pl_slots (ptr_limits (fst (ptr_check t q r))) k\<bar> \<le> maxq)"
proof -
  obtain r' ok where c: "ptr_check t q r = (r', ok)" by force
  note l = ptr_check_limits [OF c]
  have "\<bar>pl_slots (ptr_limits r') k\<bar> \<le> maxq" for k
    using l(2) l(3) [of k] assms by (cases ok; cases "k = unat (req_instrument_id q)") auto
  then show ?thesis using l(1) assms c by simp
qed

lemma trading_limits:
  assumes "trading_reachable (trading_new now cf rw) s" and "0 \<le> cf_max_net_qty cf" and "cf_max_net_qty cf < 2 ^ 63"
  shows "limits_hold (cf_max_net_qty cf) s"
  using assms(1)
proof induction
  case start
  then show ?case using assms(2) by (simp add: limits_hold_def trading_new_def pl_new_def)
next
  case (more s s')
  then show ?case using trading_step_risk [OF more.hyps(2)] check_limits_hold [OF assms(2,3)] unfolding limits_hold_def by metis
qed

subsection \<open>The queues of the strategy\<close>

definition queue_memory_ok :: "raw_memory \<Rightarrow> bool" where
  "queue_memory_ok rw \<longleftrightarrow> length (rw_orders rw) = ORDER_QUEUE_DEPTH \<and> length (rw_cancels rw) = CANCEL_DEPTH
     \<and> length (rw_sides rw) = SIDE_DEPTH \<and> length (rw_relay rw) = RELAY_DEPTH"

definition mm_configured :: "settings \<Rightarrow> market_maker \<Rightarrow> bool" where
  "mm_configured cf m \<longleftrightarrow> mm_wf m \<and> st_instrument_id m = cf_instrument_id cf \<and> mm_spread_ticks m = cf_spread_ticks cf
     \<and> mm_order_qty m = cf_order_qty cf \<and> mm_max_inventory m = cf_max_inventory cf"

lemma pow2_RELAY_DEPTH: "pow2 RELAY_DEPTH"
  unfolding pow2_def by (rule exI [of _ 10]) (simp add: RELAY_DEPTH_def)

lemma mm_configured_side:
  assumes "mm_configured cf m"
  shows "mm_configured cf (quote_side sd px m)"
proof -
  have "mm_spread_ticks (quote_side sd px m) = mm_spread_ticks m"
    by (simp add: quote_side_def send_order_def push_side_def case_prod_beta Let_def)
  then show ?thesis using assms quote_side_wf by (simp add: mm_configured_def mm_frames)
qed

lemma mm_configured_cancel: "mm_configured cf m \<Longrightarrow> mm_configured cf (cancel_active_orders (m\<lparr>mm_last_mid := p\<rparr>))"
  using cancel_active_orders_wf(1) [of "m\<lparr>mm_last_mid := p\<rparr>"] by (simp add: mm_configured_def mm_frames mm_wf_def)

lemma mm_configured_bbo: "mm_configured cf m \<Longrightarrow> mm_configured cf (mm_on_bbo e m)"
  using mm_configured_cancel [of cf m "i64 (bid_px e + ask_px e)"] mm_configured_side
  by (simp add: mm_on_bbo_def quote_def Let_def case_prod_beta)

lemma mm_configured_pop: "mm_configured cf m \<Longrightarrow> mm_configured cf (fst (pop_order m))"
  using ring.pop_wf [of ORDER_QUEUE_DEPTH "st_order_queue m"]
  by (simp add: mm_configured_def mm_wf_def pop_order_def case_prod_beta)

lemma trading_front:
  assumes "trading_reachable (trading_new now cf rw) s" and "queue_memory_ok rw"
  shows "mm_configured cf (tr_mm s) \<and> spsc_wf RELAY_DEPTH (tr_relay s)"
  using assms(1)
proof induction
  case start
  then show ?case using assms(2) mm_new_wf
    by (simp add: trading_new_def queue_memory_ok_def mm_configured_def spsc_new_wf [OF pow2_RELAY_DEPTH]) (simp add: mm_new_def)
next
  case (more s s')
  then show ?case
    using trading_step_mm [OF more.hyps(2)] trading_step_relay [OF more.hyps(2)] mm_configured_bbo mm_configured_pop
      ring.push_wf ring.pop_wf by metis
qed

subsection \<open>Where the requests come from\<close>

definition configured_req :: "settings \<Rightarrow> OrderRequest \<Rightarrow> bool" where
  "configured_req cf r \<longleftrightarrow> req_instrument_id r = cf_instrument_id cf \<and> req_qty r = cf_order_qty cf"

fun strategy_hand :: "strategy_pc \<Rightarrow> OrderRequest list" where
  "strategy_hand S_Loop = []" | "strategy_hand (S_Popped r) = [r]"

fun oms_hand :: "oms_pc \<Rightarrow> OrderRequest list" where
  "oms_hand (O_Popped r) = [r]" | "oms_hand (O_Checked r) = [r]" | "oms_hand _ = []"

abbreviation relayed :: "trading \<Rightarrow> OrderRequest list" where
  "relayed s \<equiv> spsc_contents RELAY_DEPTH (tr_relay s)"

text \<open>The requests of a state, the oldest first.\<close>

definition all_requests :: "trading \<Rightarrow> OrderRequest list" where
  "all_requests s = map snd (tr_accepted s) @ oms_hand (tr_oms_pc s) @ relayed s @ strategy_hand (tr_strategy_pc s) @ orders (tr_mm s)"

lemma quote_side_orders:
  assumes "mm_configured cf m"
  shows "set (orders (quote_side sd px m)) \<subseteq> set (orders m) \<union> {r. configured_req cf r}"
proof -
  let ?r = "limit_order (st_instrument_id m) sd px (mm_order_qty m)"
  have "orders (quote_side sd px m) = orders (fst (send_order ?r m))"
    by (simp add: quote_side_def case_prod_beta push_side_other Let_def)
  moreover have "configured_req cf ?r" using assms by (simp add: configured_req_def limit_order_def mm_configured_def)
  ultimately show ?thesis using assms send_order_subset [of m ?r] by (auto simp: mm_configured_def mm_wf_def)
qed

lemma quote_adds:
  assumes "mm_configured cf m"
  shows "set (orders (quote b a i m)) \<subseteq> set (orders m) \<union> {r. configured_req cf r}"
proof -
  note one = quote_side_orders [OF assms] and two = quote_side_orders [OF mm_configured_side [OF assms, of BUY b], of SELL a]
  then have "set (orders (quote_side SELL a (quote_side BUY b m))) \<subseteq> set (orders m) \<union> {r. configured_req cf r}" by blast
  then show ?thesis using one by (simp add: quote_def Let_def)
qed

lemma mm_bbo_orders:
  assumes "mm_configured cf m"
  shows "set (orders (mm_on_bbo e m)) \<subseteq> set (orders m) \<union> {r. configured_req cf r}"
proof -
  let ?m = "cancel_active_orders (m\<lparr>mm_last_mid := i64 (bid_px e + ask_px e)\<rparr>)"
  have "orders ?m = orders m" by (simp add: mm_frames)
  with quote_adds [OF mm_configured_cancel [OF assms]]
  have "set (orders (quote b a i ?m)) \<subseteq> set (orders m) \<union> {r. configured_req cf r}" for b a i by metis
  then show ?thesis by (simp add: mm_on_bbo_def Let_def case_prod_beta del: Collect_mem_eq)
qed

text \<open>
  The thread steps move the requests on: none is added and the order is kept, and all are kept unless
  the relay is full, the gate refuses one or the process loses one.
\<close>

lemma subseq_tail: "subseq ys (x # ys)"
  by (rule list_emb_Cons) (rule subseq_order.order_refl)

lemma subseq_set: "subseq xs ys \<Longrightarrow> set xs \<subseteq> set ys"
  by (auto elim: list_emb_set)

lemma strategy_requests:
  assumes "orders_wf (tr_mm s)" and "spsc_wf RELAY_DEPTH (tr_relay s)"
  shows "subseq (all_requests (strategy_iter s)) (all_requests s)"
    and "length (relayed s) < RELAY_DEPTH \<Longrightarrow> all_requests (strategy_iter s) = all_requests s"
proof -
  have "subseq (all_requests (strategy_iter s)) (all_requests s) \<and> (length (relayed s) < RELAY_DEPTH \<longrightarrow> all_requests (strategy_iter s) = all_requests s)"
  proof (cases "tr_strategy_pc s")
    case S_Loop
    note p = ring.pop_value [OF assms(1)] ring.pop_contents [OF assms(1)]
    show ?thesis
      using S_Loop p by (cases "orders (tr_mm s)") (simp_all add: strategy_iter_def all_requests_def pop_order_def case_prod_beta Let_def)
  next
    case (S_Popped r)
    then show ?thesis
      using ring.push_contents [OF assms(2), of r] by (simp add: strategy_iter_def all_requests_def subseq_append' subseq_tail)
  qed
  then show "subseq (all_requests (strategy_iter s)) (all_requests s)"
    "length (relayed s) < RELAY_DEPTH \<Longrightarrow> all_requests (strategy_iter s) = all_requests s" by blast+
qed

lemma oms_requests:
  assumes "spsc_wf RELAY_DEPTH (tr_relay s)" and "oms_iter t s = Inr s'"
  shows "subseq (all_requests s') (all_requests s)"
    and "\<not> tr_lost s' \<Longrightarrow> (\<And>r. tr_oms_pc s = O_Popped r \<Longrightarrow> snd (ptr_check (sint t) r (tr_risk s))) \<Longrightarrow> all_requests s' = all_requests s"
proof -
  have "subseq (all_requests s') (all_requests s) \<and>
    (\<not> tr_lost s' \<and> (\<forall>r. tr_oms_pc s = O_Popped r \<longrightarrow> snd (ptr_check (sint t) r (tr_risk s))) \<longrightarrow> all_requests s' = all_requests s)"
  proof (cases "tr_oms_pc s")
    case O_Loop
    note p = ring.pop_value [OF assms(1)] ring.pop_contents [OF assms(1)]
    show ?thesis using O_Loop p assms(2)
      by (cases "relayed s") (auto simp: oms_iter_def all_requests_def Let_def case_prod_beta)
  next
    case (O_Popped r)
    then show ?thesis using assms(2)
      by (auto simp: oms_iter_def all_requests_def Let_def case_prod_beta subseq_append' subseq_tail simp del: subseq_append)
  next
    case (O_Checked r)
    then show ?thesis using assms(2)
      by (auto simp: oms_iter_def all_requests_def rbind_Inr_iff subseq_append' subseq_tail simp del: subseq_append)
  qed (use assms(2) in \<open>auto simp: oms_iter_def all_requests_def rbind_Inr_iff Let_def case_prod_beta split: option.splits\<close>)
  then show "subseq (all_requests s') (all_requests s)"
    "\<not> tr_lost s' \<Longrightarrow> (\<And>r. tr_oms_pc s = O_Popped r \<Longrightarrow> snd (ptr_check (sint t) r (tr_risk s))) \<Longrightarrow> all_requests s' = all_requests s" by blast+
qed

lemma other_requests:
  "gw_iter s = Inr s' \<Longrightarrow> all_requests s' = all_requests s" "all_requests (pos_iter s) = all_requests s"
  "md_depth d s = Inr s' \<Longrightarrow> all_requests s' = all_requests s"
  "all_requests (md_bbo e s) = map snd (tr_accepted s) @ oms_hand (tr_oms_pc s) @ relayed s @ strategy_hand (tr_strategy_pc s)
     @ orders (mm_on_bbo e (tr_mm s))"
proof -
  show "all_requests s' = all_requests s" if "gw_iter s = Inr s'"
    using that by (cases "tr_gw_pc s") (auto simp: gw_iter_def all_requests_def rbind_Inr_iff Let_def case_prod_beta split: option.splits)
qed (auto simp: pos_iter_def md_depth_def md_bbo_def dispatch_bbo_def register_strategy_def all_requests_def rbind_Inr_iff Let_def case_prod_beta
  split: pos_pc.splits option.splits)

lemma trading_requests:
  assumes "trading_reachable (trading_new now cf rw) s" and "queue_memory_ok rw"
  shows "set (all_requests s) \<subseteq> {r. configured_req cf r}"
  using assms(1)
proof induction
  case start
  have "orders (tr_mm (trading_new now cf rw)) = []" "relayed (trading_new now cf rw) = []"
    by (simp_all add: trading_new_def mm_new_def)
  then show ?case by (simp add: all_requests_def) (simp add: trading_new_def)
next
  case (more s s')
  note front = trading_front [OF more.hyps(1) assms(2)]
  then have w: "orders_wf (tr_mm s)" "spsc_wf RELAY_DEPTH (tr_relay s)" by (simp_all add: mm_configured_def mm_wf_def)
  from more.hyps(2) show ?case
  proof cases
    case (step_md_bbo e)
    then show ?thesis using more.IH mm_bbo_orders [of cf "tr_mm s" e] front other_requests(4) [of e s] by (auto simp: all_requests_def)
  next
    case step_strategy
    then show ?thesis using more.IH subseq_set [OF strategy_requests(1) [OF w]] by blast
  next
    case (step_oms t)
    then show ?thesis using more.IH subseq_set [OF oms_requests(1) [OF w(2)]] by blast
  qed (use more.IH other_requests in auto)
qed

lemma reserved_positions:
  assumes "trading_reachable (trading_new now cf rw) s" and "memory_ok rw" and "queue_memory_ok rw"
    and "0 \<le> cf_max_net_qty cf" and "cf_max_net_qty cf < 2 ^ 63" and "0 < cf_order_qty cf"
    and "\<not> tr_lost s \<or> length (tr_accepted s) \<le> 1024" and "length (tr_accepted s) < 2 ^ 64 - 2" and "pipeline_idle s"
    and "unat ident < MAX_INSTRUMENTS"
  shows "get_net_qty (tr_positions s) ident = pl_get_net_qty (ptr_limits (tr_risk s)) ident
    \<and> \<bar>get_net_qty (tr_positions s) ident\<bar> \<le> cf_max_net_qty cf
    \<and> (ident \<noteq> cf_instrument_id cf \<longrightarrow> get_net_qty (tr_positions s) ident = 0)"
proof -
  have keep: "\<not> tr_lost s" by (rule kept_or_few [OF assms(1,2,4,5,7)])
  obtain D C Q P where inv: "pipe_inv s D C Q P" and lim: "limit_inv (cf_max_net_qty cf) s"
    using trading_reachable_inv [OF assms(1,2,4,5) keep assms(8)] by blast
  have conf: "req_qty (snd e) = cf_order_qty cf" "req_instrument_id (snd e) = cf_instrument_id cf" if "e \<in> set (tr_accepted s)" for e
    using trading_requests [OF assms(1,3)] that by (auto simp: all_requests_def configured_req_def)
  then have all: "fillable (tr_accepted s) = tr_accepted s" using assms(6) by (simp add: fillable_def filter_id_conv)
  have keys: "map fill_key (tr_applied s) = map req_key (map snd (tr_accepted s))"
    using arg_cong [OF pipeline_idle_inv(4) [OF inv assms(9)], of "map snd"] all
    by (simp add: booked_key_def order_key_def comp_def)
  let ?w = "\<lambda>k. if fst k = ident then signed_qty (fst (snd k)) (fst (snd (snd (snd k)))) else 0"
  have "(\<Sum>f\<leftarrow>filter (\<lambda>f. fe_instrument_id f = ident) fs. signed_qty (fe_side f) (fe_fill_qty f)) = (\<Sum>k\<leftarrow>map fill_key fs. ?w k)" for fs
    by (induction fs) (simp_all add: fill_key_def)
  moreover have "(\<Sum>r\<leftarrow>rs. req_delta (unat ident) r) = (\<Sum>k\<leftarrow>map req_key rs. ?w k)" for rs
    by (induction rs) (simp_all add: req_delta_def req_key_def word_unat_eq_iff)
  moreover have "get_net_qty (tr_positions s) ident =
      i64 (\<Sum>f\<leftarrow>filter (\<lambda>f. fe_instrument_id f = ident) (tr_applied s). signed_qty (fe_side f) (fe_fill_qty f))"
    using assms(10) pipe_invD(11) [OF inv]
    by (simp add: get_net_qty_def pm_fold_slot fold_slot_net pm_new_def slot0_def in_i64_def)
  moreover have r: "pl_get_net_qty (ptr_limits (tr_risk s)) ident = i64 (\<Sum>r\<leftarrow>map snd (tr_accepted s). req_delta (unat ident) r)"
    using limit_invD(3) [OF lim assms(10)] assms(9,10) by (simp add: pl_get_net_qty_def pipeline_idle_def)
  ultimately have eq: "get_net_qty (tr_positions s) ident = pl_get_net_qty (ptr_limits (tr_risk s)) ident" by (simp only: keys)
  have "(\<Sum>r\<leftarrow>map snd (tr_accepted s). req_delta (unat ident) r) = 0" if "ident \<noteq> cf_instrument_id cf"
  proof -
    have "map (req_delta (unat ident)) (map snd (tr_accepted s)) = map (\<lambda>_. 0) (map snd (tr_accepted s))"
      by (rule map_cong [OF refl]) (use conf(2) that in \<open>auto simp: req_delta_def word_unat_eq_iff\<close>)
    then show ?thesis by (simp only: sum_list_0)
  qed
  then show ?thesis using eq r limit_invD(2) [OF lim assms(10)] assms(10) by (simp add: pl_get_net_qty_def i64_def)
qed

text \<open>
  Claim C5.  The reservations of the risk gate are the positions: whenever the process is idle, in every run
  that has lost nothing (no full queue, no exhausted pool; with at most 1024 accepted orders none is), and
  provided the configured order quantity is positive, the net position of every instrument in the position
  manager is the one the position limits hold for it, and so within the configured limit; for instruments
  other than the configured one it is zero.
\<close>

theorem positions_are_reservations:
  assumes "trading_reachable (trading_new now cf rw) s" and "memory_ok rw" and "queue_memory_ok rw"
    and "0 \<le> cf_max_net_qty cf" and "cf_max_net_qty cf < 2 ^ 63" and "0 < cf_order_qty cf"
    and "\<not> tr_lost s \<or> length (tr_accepted s) \<le> 1024" and "length (tr_accepted s) < 2 ^ 64 - 2" and "pipeline_idle s"
    and "unat ident < MAX_INSTRUMENTS"
  shows "get_net_qty (tr_positions s) ident = pl_get_net_qty (ptr_limits (tr_risk s)) ident
    \<and> \<bar>get_net_qty (tr_positions s) ident\<bar> \<le> cf_max_net_qty cf
    \<and> (ident \<noteq> cf_instrument_id cf \<longrightarrow> get_net_qty (tr_positions s) ident = 0)"
  by (rule reserved_positions [OF assms])

theorem positions_are_reservations_witness:
  "\<exists>s. trading_reachable sample_process s \<and> get_net_qty (tr_positions s) 7 = pl_get_net_qty (ptr_limits (tr_risk s)) 7
     \<and> tr_accepted s \<noteq> []"
proof -
  obtain s oid f where s: "trading_reachable sample_process s" "pipeline_idle s" "\<not> tr_lost s" "tr_accepted s = [(oid, sample_order)]"
    using sample_filled by blast
  have "length (tr_accepted s) < 2 ^ 64 - 2" using s(4) by simp
  moreover have "queue_memory_ok sample_memory" by (simp add: queue_memory_ok_def sample_memory_def)
  moreover have "0 < cf_order_qty sample_settings" by (simp add: sample_settings_def)
  moreover have "unat (7 :: u32) < MAX_INSTRUMENTS" by (simp add: MAX_INSTRUMENTS_def)
  ultimately show ?thesis
    using positions_are_reservations [OF s(1) sample_settings_ok(1) _ sample_settings_ok(2,3) _ disjI1 [OF s(3)] _ s(2), of 7] s(1,4)
    by (intro exI [of _ s]) simp
qed

end
