(* ===== verification/Draining.thy ===== *)
theory Draining
  imports Process_Invariants
begin

text \<open>
  What the working threads of \<^verbatim>\<open>src/main.cpp\<close> do with what is in the process when no quote arrives:
  under every schedule of their turns no call faults, each turn either finds nothing to do or uses up
  work, and once every thread has had enough turns all queues are empty and all threads are at the heads
  of their loops.
\<close>

subsection \<open>Turns and schedules\<close>

datatype worker = W_strategy | W_oms | W_gw | W_pos

fun worker_iter :: "worker \<Rightarrow> Timestamp \<Rightarrow> trading \<Rightarrow> pool_fault + trading" where
  "worker_iter W_strategy now s = Inr (strategy_iter s)"
| "worker_iter W_oms now s = oms_iter now s"
| "worker_iter W_gw now s = gw_iter s"
| "worker_iter W_pos now s = Inr (pos_iter s)"

lemma worker_iter_step: "worker_iter w now s = Inr s' \<Longrightarrow> trading_step s s'"
  by (cases w) (auto intro: trading_step.intros)

type_synonym schedule = "(worker \<times> Timestamp) list"

fun run_schedule :: "schedule \<Rightarrow> trading \<Rightarrow> pool_fault + trading" where
  "run_schedule [] s = Inr s"
| "run_schedule ((w, t) # ws) s = rbind (worker_iter w t s) (run_schedule ws)"

text \<open>The rounds of a schedule: how often all four threads have had a turn, in whatever order.\<close>

definition all_workers :: "worker set" where
  "all_workers = {W_strategy, W_oms, W_gw, W_pos}"

fun rounds_after :: "worker set \<Rightarrow> schedule \<Rightarrow> nat" where
  "rounds_after seen [] = 0"
| "rounds_after seen ((w, t) # ws) =
     (if insert w seen = all_workers then Suc (rounds_after {} ws) else rounds_after (insert w seen) ws)"

abbreviation rounds :: "schedule \<Rightarrow> nat" where
  "rounds ws \<equiv> rounds_after {} ws"

subsection \<open>The work in the process\<close>

fun strategy_work :: "strategy_pc \<Rightarrow> nat" where
  "strategy_work S_Loop = 0" | "strategy_work (S_Popped r) = 14"

fun oms_work :: "oms_pc \<Rightarrow> nat" where
  "oms_work O_Loop = 0" | "oms_work (O_Popped r) = 12" | "oms_work (O_Checked r) = 11" | "oms_work (O_Submitted r x) = 10"
| "oms_work (O_Sent i) = 9" | "oms_work (O_Acked i) = 8"

fun gw_work :: "gw_pc \<Rightarrow> nat" where
  "gw_work G_Loop = 0" | "gw_work (G_Cloid c) = 6" | "gw_work (G_Fill c f) = 5" | "gw_work (G_Filled c f) = 1"

fun pos_work :: "pos_pc \<Rightarrow> nat" where
  "pos_work X_Loop = 0" | "pos_work (X_Fill f) = 2" | "pos_work (X_Booked f) = 1"

text \<open>The turns an order may still take from each place on its way.\<close>

definition work_left :: "trading \<Rightarrow> nat" where
  "work_left s = 15 * length (orders (tr_mm s)) + strategy_work (tr_strategy_pc s) + 13 * length (relayed s)
     + oms_work (tr_oms_pc s) + 7 * length (queued_ids s) + gw_work (tr_gw_pc s)
     + 3 * length (ft_pending (om_tracker (tr_oms s))) + pos_work (tr_pos_pc s)"

fun nothing_for :: "worker \<Rightarrow> trading \<Rightarrow> bool" where
  "nothing_for W_strategy s \<longleftrightarrow> tr_strategy_pc s = S_Loop \<and> orders (tr_mm s) = []"
| "nothing_for W_oms s \<longleftrightarrow> tr_oms_pc s = O_Loop \<and> relayed s = []"
| "nothing_for W_gw s \<longleftrightarrow> tr_gw_pc s = G_Loop \<and> queued_ids s = []"
| "nothing_for W_pos s \<longleftrightarrow> tr_pos_pc s = X_Loop \<and> ft_pending (om_tracker (tr_oms s)) = []"

definition drained :: "trading \<Rightarrow> bool" where
  "drained s \<longleftrightarrow> list_all (\<lambda>w. nothing_for w s) [W_strategy, W_oms, W_gw, W_pos]"

lemma drained_iff: "drained s \<longleftrightarrow> (\<forall>w. nothing_for w s)"
proof
  assume d: "drained s"
  show "\<forall>w. nothing_for w s"
  proof
    fix w
    show "nothing_for w s" using d by (cases w) (simp_all add: drained_def del: nothing_for.simps)
  qed
qed (simp add: drained_def del: nothing_for.simps)

lemma no_work: "work_left s = 0 \<longleftrightarrow> drained s"
  by (cases "tr_strategy_pc s"; cases "tr_oms_pc s"; cases "tr_gw_pc s"; cases "tr_pos_pc s")
    (auto simp: work_left_def drained_def simp del: length_spsc_contents)

text \<open>A turn of a thread leaves the state as it is or uses up work.\<close>

lemma strategy_works:
  assumes "orders_wf (tr_mm s)" and "spsc_wf RELAY_DEPTH (tr_relay s)"
  shows "nothing_for W_strategy s \<and> strategy_iter s = s \<or> work_left (strategy_iter s) < work_left s"
proof (cases "tr_strategy_pc s")
  case S_Loop
  show ?thesis
  proof (cases "orders (tr_mm s)")
    case Nil
    then show ?thesis using S_Loop ring.pop_empty [OF assms(1)] by (simp add: strategy_iter_def pop_order_def)
  next
    case (Cons r rs)
    note ring.pop_cons [OF assms(1) Cons]
    then show ?thesis
      using S_Loop Cons by (simp add: strategy_iter_def pop_order_def work_left_def case_prod_beta Let_def del: length_spsc_contents)
  qed
next
  case (S_Popped r)
  then show ?thesis
    using ring.push_contents [OF assms(2), of r] by (simp add: strategy_iter_def work_left_def del: length_spsc_contents)
qed

lemma oms_works:
  assumes "spsc_wf RELAY_DEPTH (tr_relay s)" and "spsc_wf CLOID_DEPTH (tr_cloids s)" and "oms_iter t s = Inr s'"
  shows "nothing_for W_oms s \<and> s' = s \<or> work_left s' < work_left s"
proof (cases "tr_oms_pc s")
  case O_Loop
  show ?thesis
  proof (cases "relayed s")
    case Nil
    then show ?thesis using O_Loop ring.pop_empty [OF assms(1)] assms(3) by (simp add: oms_iter_def)
  next
    case (Cons r rs)
    note ring.pop_cons [OF assms(1) Cons]
    then show ?thesis using O_Loop Cons assms(3)
      by (auto simp: oms_iter_def work_left_def case_prod_beta Let_def simp del: length_spsc_contents)
  qed
next
  case (O_Popped r)
  then show ?thesis using assms(3) by (auto simp: oms_iter_def work_left_def case_prod_beta Let_def simp del: length_spsc_contents)
next
  case (O_Checked r)
  then obtain om x where om: "oms_submit t r (tr_oms s) = Inr (om, x)" "tr_oms s' = om" "tr_oms_pc s' = O_Submitted r x"
    "tr_mm s' = tr_mm s" "tr_strategy_pc s' = tr_strategy_pc s" "tr_relay s' = tr_relay s" "tr_cloids s' = tr_cloids s"
    "tr_gw_pc s' = tr_gw_pc s" "tr_pos_pc s' = tr_pos_pc s"
    using assms(3) by (auto simp: oms_iter_def rbind_Inr_iff)
  have "om_tracker om = om_tracker (tr_oms s)"
    using om(1) by (auto simp: oms_submit_def rbind_Inr_iff Let_def split: option.splits)
  then show ?thesis using om O_Checked by (simp add: work_left_def del: length_spsc_contents)
next
  case (O_Submitted r x)
  then show ?thesis using assms(3) by (auto simp: oms_iter_def work_left_def simp del: length_spsc_contents split: option.splits)
next
  case (O_Sent i)
  then obtain a om ok where om: "oms_on_ack a (tr_oms s) = Inr (om, ok)" "s' = s\<lparr>tr_oms := om, tr_oms_pc := O_Acked i\<rparr>"
    using assms(3) by (auto simp: oms_iter_def rbind_Inr_iff)
  from om(1) have "om_tracker om = om_tracker (tr_oms s)"
    by (auto simp: oms_on_ack_def rbind_Inr_iff case_prod_beta Let_def split: option.splits)
  then show ?thesis using O_Sent om(2) by (simp add: work_left_def del: length_spsc_contents)
next
  case (O_Acked i)
  then show ?thesis using assms(3) ring.push_contents [OF assms(2)]
    by (auto simp: oms_iter_def work_left_def rbind_Inr_iff case_prod_beta Let_def simp del: length_spsc_contents)
qed

lemma gw_works:
  assumes "spsc_wf CLOID_DEPTH (tr_cloids s)" and "ft_wf (om_tracker (tr_oms s))" and "gw_iter s = Inr s'"
  shows "nothing_for W_gw s \<and> s' = s \<or> work_left s' < work_left s"
proof (cases "tr_gw_pc s")
  case G_Loop
  show ?thesis
  proof (cases "queued_ids s")
    case Nil
    then show ?thesis using G_Loop ring.pop_empty [OF assms(1)] assms(3) by (simp add: gw_iter_def)
  next
    case (Cons r rs)
    note ring.pop_cons [OF assms(1) Cons]
    then show ?thesis using G_Loop Cons assms(3)
      by (auto simp: gw_iter_def work_left_def case_prod_beta Let_def simp del: length_spsc_contents)
  qed
next
  case (G_Cloid c)
  then show ?thesis using assms(3)
    by (auto simp: gw_iter_def work_left_def case_prod_beta Let_def simp del: length_spsc_contents split: option.splits)
next
  case (G_Fill c f)
  then obtain om ok where om: "oms_on_fill f (tr_oms s) = Inr (om, ok)" "tr_oms s' = om" "tr_gw_pc s' = G_Filled c f"
    "tr_mm s' = tr_mm s" "tr_strategy_pc s' = tr_strategy_pc s" "tr_relay s' = tr_relay s" "tr_cloids s' = tr_cloids s"
    "tr_oms_pc s' = tr_oms_pc s" "tr_pos_pc s' = tr_pos_pc s"
    using assms(3) by (auto simp: gw_iter_def rbind_Inr_iff)
  have "om_tracker om = om_tracker (tr_oms s) \<or> om_tracker om = ft_on_fill f (om_tracker (tr_oms s))"
    using om(1) by (auto simp: oms_on_fill_def rbind_Inr_iff case_prod_beta Let_def split: option.splits)
  then have "length (ft_pending (om_tracker om)) \<le> length (ft_pending (om_tracker (tr_oms s))) + 1"
    using ft_pending_on_fill [OF assms(2), of f] by (auto simp del: length_spsc_contents)
  then show ?thesis using om G_Fill by (simp add: work_left_def del: length_spsc_contents)
next
  case (G_Filled c f)
  have "om_tracker (oms_release c om) = om_tracker om" for om by (simp add: oms_release_def split: option.split)
  then show ?thesis using assms(3) G_Filled by (auto simp: gw_iter_def work_left_def simp del: length_spsc_contents)
qed

lemma pos_works:
  assumes "ft_wf (om_tracker (tr_oms s))"
  shows "nothing_for W_pos s \<and> pos_iter s = s \<or> work_left (pos_iter s) < work_left s"
proof (cases "tr_pos_pc s")
  case X_Loop
  have w: "spsc_wf FILL_QUEUE (ft_queue (om_tracker (tr_oms s)))" using assms by (simp add: ft_wf_def)
  show ?thesis
  proof (cases "ft_pending (om_tracker (tr_oms s))")
    case Nil
    then show ?thesis using X_Loop ring.pop_empty [OF w] by (simp add: pos_iter_def ft_pop_fill_def)
  next
    case (Cons f fs)
    note ring.pop_cons [OF w Cons]
    then show ?thesis using X_Loop Cons
      by (simp add: pos_iter_def ft_pop_fill_def work_left_def case_prod_beta Let_def del: length_spsc_contents)
  qed
qed (simp_all add: pos_iter_def work_left_def del: length_spsc_contents)

subsection \<open>Every schedule\<close>

lemma trading_rings:
  assumes "trading_reachable (trading_new now cf rw) s" and "memory_ok rw" and "queue_memory_ok rw" and "length (tr_accepted s) < 2 ^ 64 - 2"
  shows "orders_wf (tr_mm s)" and "spsc_wf RELAY_DEPTH (tr_relay s)" and "spsc_wf CLOID_DEPTH (tr_cloids s)" and "ft_wf (om_tracker (tr_oms s))"
  using trading_front [OF assms(1,3)] trading_safe [OF assms(1,2,4)]
  by (auto simp: mm_configured_def mm_wf_def safe_inv_def)

lemma worker_works:
  assumes "trading_reachable (trading_new now cf rw) s" and "memory_ok rw" and "queue_memory_ok rw" and "length (tr_accepted s) < 2 ^ 64 - 2"
  shows "\<exists>s'. worker_iter w t s = Inr s' \<and> (nothing_for w s \<and> s' = s \<or> work_left s' < work_left s)"
proof -
  note r = trading_rings [OF assms]
  obtain P where P: "safe_inv s P" using trading_safe [OF assms(1,2,4)] by blast
  obtain so sg where "oms_iter t s = Inr so" "gw_iter s = Inr sg" using safe_oms [OF P assms(4), of t] safe_gw [OF P] by blast
  then show ?thesis
    using strategy_works [OF r(1,2)] oms_works [OF r(2,3)] gw_works [OF r(3,4)] pos_works [OF r(4)]
    by (cases w) (simp_all del: nothing_for.simps)
qed

lemma worker_accepts: "worker_iter w t s = Inr s' \<Longrightarrow> length (tr_accepted s') \<le> Suc (length (tr_accepted s))"
  by (cases w; cases "tr_strategy_pc s"; cases "tr_oms_pc s"; cases "tr_gw_pc s"; cases "tr_pos_pc s";
      auto simp: strategy_iter_def oms_iter_def gw_iter_def pos_iter_def rbind_Inr_iff Let_def case_prod_beta split: option.splits)

text \<open>No order can be accepted for which no work was left.\<close>

lemma worker_budget:
  assumes "worker_iter w t s = Inr s'" and "s' = s \<or> work_left s' < work_left s"
  shows "length (tr_accepted s') + work_left s' \<le> length (tr_accepted s) + work_left s"
  using assms(2) worker_accepts [OF assms(1)] by auto

lemma run_schedule_drains:
  assumes "trading_reachable (trading_new now cf rw) s" and "memory_ok rw" and "queue_memory_ok rw"
    and "length (tr_accepted s) + work_left s < 2 ^ 64 - 2"
  shows "\<exists>s'. run_schedule ws s = Inr s' \<and> trading_reachable (trading_new now cf rw) s'
    \<and> work_left s' \<le> work_left s \<and> length (tr_accepted s') + work_left s' < 2 ^ 64 - 2
    \<and> ((\<forall>w \<in> seen. nothing_for w s) \<and> work_left s \<le> rounds_after seen ws \<longrightarrow> drained s')
    \<and> (work_left s < rounds_after seen ws \<longrightarrow> drained s')"
  using assms(1,4)
proof (induction ws arbitrary: s seen)
  case Nil
  then show ?case by (simp add: no_work)
next
  case (Cons e ws)
  obtain w t where e: "e = (w, t)" by force
  have small: "length (tr_accepted s) < 2 ^ 64 - 2" using Cons.prems(2) by simp
  obtain s1 where s1: "worker_iter w t s = Inr s1" "nothing_for w s \<and> s1 = s \<or> work_left s1 < work_left s"
    using worker_works [OF Cons.prems(1) assms(2,3) small] by blast
  have r1: "trading_reachable (trading_new now cf rw) s1" by (rule more [OF Cons.prems(1) worker_iter_step [OF s1(1)]])
  have "s1 = s \<or> work_left s1 < work_left s" using s1(2) by blast
  then have b1: "length (tr_accepted s1) + work_left s1 < 2 ^ 64 - 2" "work_left s1 \<le> work_left s"
    using worker_budget [OF s1(1)] Cons.prems(2) by auto
  let ?seen = "if insert w seen = all_workers then {} else insert w seen"
  obtain s' where s': "run_schedule ws s1 = Inr s'" "trading_reachable (trading_new now cf rw) s'" "work_left s' \<le> work_left s1"
    "length (tr_accepted s') + work_left s' < 2 ^ 64 - 2"
    "(\<forall>v \<in> ?seen. nothing_for v s1) \<and> work_left s1 \<le> rounds_after ?seen ws \<longrightarrow> drained s'"
    "work_left s1 < rounds_after ?seen ws \<longrightarrow> drained s'"
    using Cons.IH [OF r1 b1(1), of ?seen] by blast
  have n: "rounds_after seen (e # ws) = (if insert w seen = all_workers then Suc (rounds_after ?seen ws) else rounds_after ?seen ws)"
    by (simp add: e)
  have all: "work_left s = 0" if "insert w seen = all_workers" "\<forall>v \<in> seen. nothing_for v s" "nothing_for w s"
  proof -
    have "\<forall>v \<in> all_workers. nothing_for v s" using that by (metis insert_iff)
    then show ?thesis unfolding no_work by (simp add: drained_def all_workers_def del: nothing_for.simps)
  qed
  have "drained s'" if "(\<forall>v \<in> seen. nothing_for v s) \<and> work_left s \<le> rounds_after seen (e # ws) \<or> work_left s < rounds_after seen (e # ws)"
  proof (cases "nothing_for w s \<and> s1 = s")
    case True
    then show ?thesis using that s'(5,6) all unfolding n by (cases "insert w seen = all_workers") auto
  next
    case False
    then have "work_left s1 < work_left s" using s1(2) by blast
    then show ?thesis using that s'(5,6) unfolding n by (cases "insert w seen = all_workers") auto
  qed
  then show ?case using s'(1-4) s1(1) b1(2) by (intro exI [of _ s']) (auto simp: e)
qed

lemma work_left_le:
  assumes "trading_reachable (trading_new now cf rw) s" and "memory_ok rw" and "queue_memory_ok rw" and "length (tr_accepted s) < 2 ^ 64 - 2"
  shows "work_left s \<le> 60450"
proof -
  note r = trading_rings [OF assms]
  have "length (orders (tr_mm s)) \<le> 1024" "length (relayed s) \<le> 1024" "length (queued_ids s) \<le> 4096"
    "length (ft_pending (om_tracker (tr_oms s))) \<le> 1024"
    using ring.bounded [OF r(1)] ring.bounded [OF r(2)] ring.bounded [OF r(3)] ring.bounded [OF r(4) [unfolded ft_wf_def]]
    by (simp_all add: ORDER_QUEUE_DEPTH_def RELAY_DEPTH_def CLOID_DEPTH_def FILL_QUEUE_def)
  moreover have "strategy_work (tr_strategy_pc s) \<le> 14" by (cases "tr_strategy_pc s") simp_all
  moreover have "oms_work (tr_oms_pc s) \<le> 12" by (cases "tr_oms_pc s") simp_all
  moreover have "gw_work (tr_gw_pc s) \<le> 6" by (cases "tr_gw_pc s") simp_all
  moreover have "pos_work (tr_pos_pc s) \<le> 2" by (cases "tr_pos_pc s") simp_all
  ultimately show ?thesis unfolding work_left_def by linarith
qed

text \<open>
  Claim C9.  The threads never get stuck and never fault, also after a full queue or an exhausted pool has
  lost something: from every state the process can reach with less than \<open>2 ^ 63\<close> accepted orders, every
  schedule of turns of the four working threads runs without a fault of the OMS or its pool.  In the state
  it reaches no identifier has been filled twice or without having been accepted, the fills the position
  manager has applied are booked ones in their order, none twice, every slot of the pool is free or belongs
  to an order of the OMS, and no reservation exceeds the limit; and once all four threads have had as many
  rounds of turns as there was work left, at most 60450, every queue between them is empty and every thread
  is at the head of its loop.
\<close>

theorem process_drains:
  assumes "trading_reachable (trading_new now cf rw) s" and "memory_ok rw" and "queue_memory_ok rw"
    and "0 \<le> cf_max_net_qty cf" and "cf_max_net_qty cf < 2 ^ 63" and "length (tr_accepted s) < 2 ^ 63"
  shows "\<exists>s'. run_schedule ws s = Inr s' \<and> (work_left s \<le> rounds ws \<longrightarrow> drained s') \<and> work_left s \<le> 60450
    \<and> distinct (map fe_client_order_id (tr_booked s')) \<and> fe_client_order_id ` set (tr_booked s') \<subseteq> fst ` set (tr_accepted s')
    \<and> subseq (tr_applied s') (tr_booked s') \<and> tr_positions s' = fold pm_on_fill (tr_applied s') pm_new
    \<and> oms_active_orders (tr_oms s') + length (pool_free (om_pool (tr_oms s'))) = 65536
    \<and> (\<forall>k. \<bar>pl_slots (ptr_limits (tr_risk s')) k\<bar> \<le> cf_max_net_qty cf)"
proof -
  have w: "work_left s \<le> 60450" by (rule work_left_le [OF assms(1-3)]) (use assms(6) in simp)
  then obtain s' where s': "run_schedule ws s = Inr s'" "trading_reachable (trading_new now cf rw) s'"
    "length (tr_accepted s') + work_left s' < 2 ^ 64 - 2" "work_left s \<le> rounds ws \<longrightarrow> drained s'"
    using run_schedule_drains [OF assms(1-3), of ws "{}"] assms(6) by auto
  then obtain P where P: "safe_inv s' P" using trading_safe [OF _ assms(2), of now cf s'] by auto
  note i = safe_invD [OF P]
  have "subseq (tr_applied s') (tr_booked s')" by (rule subseq_order.order_trans [OF _ i(8)]) (intro list_emb_prefix subseq_order.order_refl)
  moreover have "oms_active_orders (tr_oms s') + length (pool_free (om_pool (tr_oms s'))) = 65536"
    using oms_room [OF i(1)] trading_capacity [OF s'(2)] by (simp add: ORDER_POOL_def)
  moreover have "\<forall>k. \<bar>pl_slots (ptr_limits (tr_risk s')) k\<bar> \<le> cf_max_net_qty cf"
    using trading_limits [OF s'(2) assms(4,5)] by (simp add: limits_hold_def)
  ultimately show ?thesis using s'(1,4) w i(7,9) by (auto simp: ids_apart_def)
qed

text \<open>One round after the other.\<close>

definition round_robin :: "nat \<Rightarrow> schedule" where
  "round_robin n = concat (replicate n [(W_strategy, 0), (W_oms, 0), (W_gw, 0), (W_pos, 0)])"

lemma rounds_round_robin: "rounds (round_robin n) = n"
proof (induction n)
  case (Suc n)
  have four: "{W_strategy} \<noteq> all_workers" "{W_oms, W_strategy} \<noteq> all_workers" "{W_gw, W_oms, W_strategy} \<noteq> all_workers"
    "{W_pos, W_gw, W_oms, W_strategy} = all_workers" by (auto simp: all_workers_def)
  have "round_robin (Suc n) = [(W_strategy, 0), (W_oms, 0), (W_gw, 0), (W_pos, 0)] @ round_robin n" by (simp add: round_robin_def)
  then show ?case using Suc by (simp add: four)
qed (simp add: round_robin_def)

theorem process_drains_witness:
  "\<exists>s'. run_schedule (round_robin 60450) sample_relayed = Inr s' \<and> drained s'"
proof -
  have q: "queue_memory_ok sample_memory" by (simp add: queue_memory_ok_def sample_memory_def)
  have "length (tr_accepted sample_relayed) < 2 ^ 63" using sample_idle by simp
  from process_drains [OF sample_relayed_reachable sample_settings_ok(1) q sample_settings_ok(2,3) this, of "round_robin 60450"]
  show ?thesis by (auto simp: rounds_round_robin)
qed

end
