(* ===== verification/End_To_End.thy ===== *)
theory End_To_End
  imports Draining Feed
begin

text \<open>
  From a market data packet to the profit: the live feed in front of the threads of \<open>Pipeline\<close>.  The
  callback that \<^verbatim>\<open>src/main.cpp\<close> registers with the feed handler updates the books and the strategy; what
  the packet's quote makes the strategy send goes through the relay, the risk gate, the OMS, the
  gateway and the position manager.  A flow is a state from which all requests in the process will be
  accepted and nothing will be lost; every schedule of the threads keeps it, and \<open>Draining\<close> ends it.
\<close>

subsection \<open>The feed in front of the process\<close>

text \<open>\<open>fh_deliver\<close> with the callback of the process in place of the recording one.\<close>

definition live_deliver :: "u64 \<Rightarrow> BBOEvent \<Rightarrow> feed \<times> trading \<Rightarrow> feed \<times> trading" where
  "live_deliver ts ev st = (fh_deliver ts ev (fst st), md_bbo (ev\<lparr>local_ts_ns := ts\<rparr>) (snd st))"

definition live_packet :: "u64 \<Rightarrow> bytes \<Rightarrow> feed \<times> trading \<Rightarrow> feed \<times> trading" where
  "live_packet ts buf st =
     (let events = parse_batch (fh_exchange (fst st)) buf BATCH_SIZE; (f1, s1) = fold (live_deliver ts) events st
      in (f1\<lparr>fh_rx_msgs := fh_rx_msgs f1 + of_nat (length events)\<rparr>, s1))"

definition live_poll :: "u64 \<Rightarrow> bytes list \<Rightarrow> feed \<times> trading \<Rightarrow> feed \<times> trading" where
  "live_poll ts pkts st =
     (if pkts = [] then st
      else let f = fst st; f1 = f\<lparr>fh_rx_pkts := fh_rx_pkts f + of_nat (length pkts)\<rparr>
           in fold (\<lambda>p. live_packet ts (take MAX_PKT_BYTES p)) pkts (f1, snd st))"

lemma live_delivers:
  "fold (live_deliver ts) evs (f, s) = (fold (fh_deliver ts) evs f, fold md_bbo (map (\<lambda>e. e\<lparr>local_ts_ns := ts\<rparr>) evs) s)"
  by (induction evs arbitrary: f s) (simp_all add: live_deliver_def)

lemma fold_fst: "(\<And>x s. fst (h x s) = g x (fst s)) \<Longrightarrow> fst (fold h xs s) = fold g xs (fst s)"
  by (induction xs arbitrary: s) simp_all

text \<open>The feed's own state is that of \<open>Feed\<close>, whatever the callback does.\<close>

lemma live_poll_feed: "fst (live_poll ts pkts st) = recv_poll ts pkts (fst st)"
proof -
  have "fst (live_packet ts buf st) = process_packet ts buf (fst st)" for buf st
    by (cases st) (simp add: live_packet_def process_packet_def live_delivers Let_def)
  note this [THEN fold_fst [where h = "\<lambda>p. live_packet ts (take MAX_PKT_BYTES p)"
    and g = "\<lambda>p. process_packet ts (take MAX_PKT_BYTES p)"]]
  then show ?thesis by (simp add: live_poll_def recv_poll_def Let_def)
qed

lemma md_bbo_reachable: "trading_reachable s0 s \<Longrightarrow> trading_reachable s0 (fold md_bbo evs s)"
  by (induction evs arbitrary: s) (simp_all add: more [OF _ step_md_bbo])

text \<open>Whatever packets arrive, the process stays in the states of \<open>Pipeline\<close>.\<close>

lemma live_poll_reachable:
  assumes "trading_reachable s0 (snd st)"
  shows "trading_reachable s0 (snd (live_poll ts pkts st))"
proof -
  have p: "trading_reachable s0 (snd (live_packet ts buf st))" if "trading_reachable s0 (snd st)" for buf st
    using md_bbo_reachable [OF that] by (cases st) (simp add: live_packet_def live_delivers Let_def)
  have "trading_reachable s0 (snd (fold (\<lambda>p. live_packet ts (take MAX_PKT_BYTES p)) pkts st))" if "trading_reachable s0 (snd st)" for st
    using that by (induction pkts arbitrary: st) (simp_all add: p)
  then show ?thesis using assms by (simp add: live_poll_def Let_def)
qed

text \<open>One packet with one quote.\<close>

lemma live_poll_quote:
  assumes "wire_bbo_wf w" and "is_bbo_type (wb_msg_type w)" and "wb_magic w = WIRE_MAGIC"
  shows "snd (live_poll ts [bytes_of_BBO w] (f, s)) = md_bbo (event_of_BBO w\<lparr>local_ts_ns := ts\<rparr>) s"
proof -
  have ok: "msg_ok (Msg_bbo w)" using assms by simp
  have "take MAX_PKT_BYTES (bytes_of_BBO w) = bytes_of_BBO w" using assms(1) by (simp add: MAX_PKT_BYTES_def SIZEOF_BBO_def)
  moreover have "parse_batch ex (bytes_of_BBO w) BATCH_SIZE = [event_of_BBO w]" for ex
    using parse_batch_cons [OF ok, of BATCH_SIZE ex "[]"] assms(3)
    by (simp add: BATCH_SIZE_def parse_batch_short SIZEOF_BBO_def)
  ultimately show ?thesis by (simp add: live_poll_def live_packet_def live_deliver_def Let_def)
qed

subsection \<open>A quote and its two fills\<close>

definition bid_order :: "settings \<Rightarrow> BBOEvent \<Rightarrow> OrderRequest" where
  "bid_order cf e = limit_order (cf_instrument_id cf) BUY
     ((bid_px e + ask_px e) div 2 - cf_spread_ticks cf div 2) (cf_order_qty cf)"

definition ask_order :: "settings \<Rightarrow> BBOEvent \<Rightarrow> OrderRequest" where
  "ask_order cf e = limit_order (cf_instrument_id cf) SELL
     ((bid_px e + ask_px e) div 2 + (cf_spread_ticks cf - cf_spread_ticks cf div 2)) (cf_order_qty cf)"

lemma quote_queued:
  assumes "mm_configured cf m" and "mm_untold m" and "mm_requotes e m" and "mm_small e m" and "orders m = []"
  shows "orders_wf (mm_on_bbo e m) \<and> orders (mm_on_bbo e m) = [bid_order cf e, ask_order cf e]"
proof -
  let ?m0 = "m\<lparr>mm_last_mid := bid_px e + ask_px e\<rparr>"
  let ?m1 = "cancel_active_orders ?m0"
  have u: "mm_inventory m = 0" "0 < mm_max_inventory m" using assms(2,4) by (simp_all add: mm_untold_def mm_small_def)
  have "mm_wf ?m0" using assms(1) by (simp add: mm_configured_def mm_wf_def)
  note w = cancel_active_orders_wf(1) [OF this]
  have "order_room ?m1 = order_room m" by (rule order_room_cong) (simp add: mm_frames)
  then have r: "2 \<le> order_room ?m1" using assms(5) by (simp add: order_room_def ORDER_QUEUE_DEPTH_def del: length_spsc_contents)
  have n: "in_i64 (- mm_max_inventory ?m1)" using assms(4) by (simp add: mm_frames mm_small_def in_i64_def)
  show ?thesis
    using quote_orders(1,2) [OF w r n, of "mm_bid_quote e m" "mm_ask_quote e m" "mm_inventory m"] u assms(1,5)
    unfolding mm_on_bbo_eq [OF assms(3,4)]
    by (simp add: mm_frames mm_wf_def mm_configured_def mm_bid_quote_def mm_ask_quote_def bid_order_def ask_order_def)
qed

text \<open>A buy and a sell of the same quantity on a flat slot.\<close>

lemma pm_round_trip:
  assumes "sl_net_qty sl = 0" and "fill_key fa = (i, BUY, b, q, 0)" and "fill_key fb = (i, SELL, a, q, 0)"
    and "0 < q" and "in_i64 q" and "in_i64 (b * q)" and "in_i64 (a - b)"
  shows "pm_fill_slot fb (pm_fill_slot fa sl) = sl\<lparr>sl_net_qty := 0, sl_avg_cost := 0,
     sl_realized_pnl := i64 (sl_realized_pnl sl + (a - b) * q)\<rparr>"
proof -
  have k: "fe_side fa = BUY" "fe_fill_price fa = b" "fe_fill_qty fa = q" "fe_side fb = SELL" "fe_fill_price fb = a" "fe_fill_qty fb = q"
    using assms(2,3) by (simp_all add: fill_key_def)
  have e: "cdiv (b * q) q = b" using assms(4) by (simp add: cdiv_def signed_divide_int_def abs_mult sgn_mult mult_sgn_abs)
  have "pm_fill_slot fa sl = sl\<lparr>sl_net_qty := q, sl_avg_cost := b\<rparr>"
    using assms(1,4-6) k e by (simp add: pm_fill_slot_def i64_id Let_def)
  then show ?thesis
    using assms(4,5,7) k by (simp add: pm_fill_slot_def add_realized_def i64_id i64_simps Let_def)
qed

lemma positions_round_trip:
  assumes "unat i < MAX_INSTRUMENTS" and "get_net_qty pm i = 0"
    and "fill_key fa = (i, BUY, b, q, 0)" and "fill_key fb = (i, SELL, a, q, 0)"
    and "0 < q" and "in_i64 q" and "in_i64 (b * q)" and "in_i64 (a - b)"
  shows "get_net_qty (pm_on_fill fb (pm_on_fill fa pm)) i = 0"
    and "get_realized_pnl (pm_on_fill fb (pm_on_fill fa pm)) i = i64 (get_realized_pnl pm i + (a - b) * q)"
proof -
  have i: "fe_instrument_id fa = i" "fe_instrument_id fb = i" using assms(3,4) by (simp_all add: fill_key_def)
  have n: "sl_net_qty (pm (unat i)) = 0" using assms(1,2) by (simp add: get_net_qty_def)
  have "pm_on_fill fb (pm_on_fill fa pm) (unat i) = pm_fill_slot fb (pm_fill_slot fa (pm (unat i)))"
    using assms(1) i by (simp add: pm_on_fill_def Let_def)
  note s = this [unfolded pm_round_trip [OF n assms(3-8)]]
  show "get_net_qty (pm_on_fill fb (pm_on_fill fa pm)) i = 0"
    "get_realized_pnl (pm_on_fill fb (pm_on_fill fa pm)) i = i64 (get_realized_pnl pm i + (a - b) * q)"
    using assms(1) s by (simp_all add: get_net_qty_def get_realized_pnl_def)
qed

subsection \<open>A gate that will pass requests\<close>

text \<open>The gate accepts the requests one after the other, whenever each of them is checked.\<close>

fun gate_passes :: "OrderRequest list \<Rightarrow> pre_trade_risk \<Rightarrow> bool" where
  "gate_passes [] r \<longleftrightarrow> True"
| "gate_passes (q # qs) r \<longleftrightarrow> (\<forall>t :: u64. snd (ptr_check (sint t) q r) \<and> gate_passes qs (fst (ptr_check (sint t) q r)))"

text \<open>
  A state of the gate that suffices for a bid and an ask of one quantity: the breaker is closed, two
  tokens are left, the instrument's reservation is flat, and quantity and notional are within the limits.
\<close>

definition gate_ready :: "settings \<Rightarrow> BBOEvent \<Rightarrow> pre_trade_risk \<Rightarrow> bool" where
  "gate_ready cf e r \<longleftrightarrow> cb_allow_order (ptr_breaker r)
     \<and> 2000 \<le> rl_tokens (ptr_limiter r) \<and> rl_tokens (ptr_limiter r) \<le> rl_burst_scaled (ptr_limiter r) \<and> rl_burst_scaled (ptr_limiter r) < 2 ^ 62
     \<and> pl_get_net_qty (ptr_limits r) (cf_instrument_id cf) = 0
     \<and> 0 < cf_order_qty cf \<and> cf_order_qty cf \<le> pl_max_net_qty (ptr_limits r) \<and> pl_max_net_qty (ptr_limits r) < 2 ^ 63
     \<and> notional_ok (req_price (bid_order cf e)) (cf_order_qty cf) (pl_max_notional (ptr_limits r))
     \<and> notional_ok (req_price (ask_order cf e)) (cf_order_qty cf) (pl_max_notional (ptr_limits r))"

lemma refill_amount_small: "refill_amount e r < 2 ^ 61"
proof -
  let ?p = "i64 (e * r)"
  have "?p < 2 ^ 63" using in_i64_i64 [of "e * r"] by (simp add: in_i64_def)
  moreover have "0 \<le> ?p \<Longrightarrow> refill_amount e r = ?p div 1000000000" by (simp add: refill_amount_def cdiv_nonneg)
  moreover have "?p < 0 \<Longrightarrow> refill_amount e r \<le> 0" by (simp add: refill_amount_def cdiv_def signed_divide_int_def sgn_if)
  ultimately show ?thesis by (cases "0 \<le> ?p") auto
qed

text \<open>A refill never takes tokens away, whatever the clock says, so a token that is there is granted.\<close>

lemma acquire_passes:
  assumes "1000 \<le> rl_tokens l" and "rl_tokens l \<le> rl_burst_scaled l" and "rl_burst_scaled l < 2 ^ 62"
  shows "snd (rl_try_acquire now 1 l)" and "rl_burst_scaled (fst (rl_try_acquire now 1 l)) = rl_burst_scaled l"
    and "rl_tokens l - 1000 \<le> rl_tokens (fst (rl_try_acquire now 1 l))"
    and "rl_tokens (fst (rl_try_acquire now 1 l)) \<le> rl_burst_scaled l"
proof -
  let ?l = "fst (rl_refill now l)"
  have r: "rl_tokens l \<le> rl_tokens ?l \<and> rl_tokens ?l \<le> rl_burst_scaled l \<and> rl_burst_scaled ?l = rl_burst_scaled l"
  proof (cases "0 < i64 (now - rl_last_refill_ns l) \<and> 0 < refill_amount (i64 (now - rl_last_refill_ns l)) (rl_rate_ns_scaled l)")
    case True
    let ?a = "refill_amount (i64 (now - rl_last_refill_ns l)) (rl_rate_ns_scaled l)"
    have "i64 (rl_tokens l + ?a) = rl_tokens l + ?a"
      using assms True refill_amount_small [of "i64 (now - rl_last_refill_ns l)" "rl_rate_ns_scaled l"] by (intro i64_id) (simp add: in_i64_def)
    then show ?thesis using assms True by (simp add: rl_refill_def token_body_def Let_def)
  qed (use assms in \<open>auto simp: rl_refill_def Let_def\<close>)
  have "i64 1000 = 1000" "i64 (rl_tokens ?l - 1000) = rl_tokens ?l - 1000" using assms r by (simp_all add: i64_id in_i64_def)
  then have e: "rl_try_acquire now 1 l = (?l\<lparr>rl_tokens := rl_tokens ?l - 1000\<rparr>, True)"
    using assms r by (simp add: rl_try_acquire_def token_body_def case_prod_beta Let_def)
  show "snd (rl_try_acquire now 1 l)" "rl_burst_scaled (fst (rl_try_acquire now 1 l)) = rl_burst_scaled l"
    "rl_tokens l - 1000 \<le> rl_tokens (fst (rl_try_acquire now 1 l))" "rl_tokens (fst (rl_try_acquire now 1 l)) \<le> rl_burst_scaled l"
    unfolding e using r by simp_all
qed

lemma check_passes:
  assumes "cb_allow_order (ptr_breaker r)" and "1000 \<le> rl_tokens (ptr_limiter r)"
    and "rl_tokens (ptr_limiter r) \<le> rl_burst_scaled (ptr_limiter r)" and "rl_burst_scaled (ptr_limiter r) < 2 ^ 62"
    and "unat (req_instrument_id q) < MAX_INSTRUMENTS" and "notional_ok (req_price q) (req_qty q) (pl_max_notional (ptr_limits r))"
    and "v = pl_slots (ptr_limits r) (unat (req_instrument_id q)) + reserve_delta (req_side q) (req_qty q)"
    and "\<bar>v\<bar> \<le> pl_max_net_qty (ptr_limits r)" and "pl_max_net_qty (ptr_limits r) < 2 ^ 63"
  shows "\<exists>l. ptr_check t q r = (r\<lparr>ptr_limiter := l,
       ptr_limits := (ptr_limits r)\<lparr>pl_slots := (pl_slots (ptr_limits r))(unat (req_instrument_id q) := v)\<rparr>\<rparr>, True)
     \<and> rl_tokens (ptr_limiter r) - 1000 \<le> rl_tokens l \<and> rl_tokens l \<le> rl_burst_scaled l \<and> rl_burst_scaled l < 2 ^ 62"
proof -
  note a = acquire_passes [OF assms(2-4), of t]
  have "i64 v = v" "i64 (- pl_max_net_qty (ptr_limits r)) = - pl_max_net_qty (ptr_limits r)"
    using assms(8,9) by (auto intro!: i64_id simp: in_i64_def abs_le_iff)
  then have "check_and_reserve (req_instrument_id q) (req_side q) (req_qty q) (req_price q) (ptr_limits r)
      = ((ptr_limits r)\<lparr>pl_slots := (pl_slots (ptr_limits r))(unat (req_instrument_id q) := v)\<rparr>, True)"
    using assms(5-8) by (simp add: check_and_reserve_def reserve_body_def Let_def abs_le_iff)
  then show ?thesis using a assms(1,4)
    by (intro exI [of _ "fst (rl_try_acquire t 1 (ptr_limiter r))"]) (simp add: ptr_check_def case_prod_beta Let_def)
qed

lemma gate_ready_passes:
  assumes "gate_ready cf e r" and "unat (cf_instrument_id cf) < MAX_INSTRUMENTS"
  shows "gate_passes [bid_order cf e, ask_order cf e] r"
proof -
  let ?q = "cf_order_qty cf" and ?k = "unat (cf_instrument_id cf)"
  note g = assms(1) [unfolded gate_ready_def]
  have b: "req_instrument_id (bid_order cf e) = cf_instrument_id cf" "req_side (bid_order cf e) = BUY" "req_qty (bid_order cf e) = ?q"
    "req_instrument_id (ask_order cf e) = cf_instrument_id cf" "req_side (ask_order cf e) = SELL" "req_qty (ask_order cf e) = ?q"
    by (simp_all add: bid_order_def ask_order_def limit_order_def)
  have z: "pl_slots (ptr_limits r) ?k = 0" using g assms(2) by (simp add: pl_get_net_qty_def)
  have d: "reserve_delta BUY ?q = ?q" "reserve_delta SELL ?q = - ?q" using g by (simp_all add: reserve_delta_def i64_id in_i64_def)
  have "gate_passes [ask_order cf e] (fst (ptr_check (sint t) (bid_order cf e) r)) \<and> snd (ptr_check (sint t) (bid_order cf e) r)" for t :: u64
  proof -
    let ?R = "\<lambda>l. r\<lparr>ptr_limiter := l, ptr_limits := (ptr_limits r)\<lparr>pl_slots := (pl_slots (ptr_limits r))(?k := ?q)\<rparr>\<rparr>"
    have "\<exists>l. ptr_check (sint t) (bid_order cf e) r = (?R l, True)
        \<and> rl_tokens (ptr_limiter r) - 1000 \<le> rl_tokens l \<and> rl_tokens l \<le> rl_burst_scaled l \<and> rl_burst_scaled l < 2 ^ 62"
      using check_passes [of r "bid_order cf e" ?q "sint t"] g assms(2) unfolding b z d by simp
    then obtain l where l: "ptr_check (sint t) (bid_order cf e) r = (?R l, True)"
      "rl_tokens (ptr_limiter r) - 1000 \<le> rl_tokens l" "rl_tokens l \<le> rl_burst_scaled l" "rl_burst_scaled l < 2 ^ 62" by blast
    have "1000 \<le> rl_tokens l" using l(2) g by linarith
    then have "snd (ptr_check (sint t') (ask_order cf e) (?R l))" for t' :: u64
      using check_passes [of "?R l" "ask_order cf e" 0 "sint t'"] g assms(2) l(3,4) unfolding b d by auto
    then show ?thesis unfolding l(1) by simp
  qed
  then show ?thesis by simp
qed

subsection \<open>A schedule with little work in the process\<close>

fun to_check :: "oms_pc \<Rightarrow> OrderRequest list" where
  "to_check (O_Popped r) = [r]" | "to_check _ = []"

text \<open>The requests the gate has still to check.\<close>

definition upcoming :: "trading \<Rightarrow> OrderRequest list" where
  "upcoming s = to_check (tr_oms_pc s) @ relayed s @ strategy_hand (tr_strategy_pc s) @ orders (tr_mm s)"

lemma all_requests_upcoming: "all_requests s = map snd (tr_accepted s) @ checked (tr_oms_pc s) @ upcoming s"
  by (cases "tr_oms_pc s") (simp_all add: all_requests_def upcoming_def)

text \<open>With little work in the process nothing is lost.\<close>

lemma little_work_keeps:
  assumes "trading_reachable (trading_new now cf rw) s" and "memory_ok rw" and "0 \<le> cf_max_net_qty cf" and "cf_max_net_qty cf < 2 ^ 63"
    and "length (tr_accepted s) < 2 ^ 64 - 2" and "\<not> tr_lost s" and "work_left s < 3072" and "trading_step s s'"
  shows "\<not> tr_lost s'"
proof
  assume "tr_lost s'"
  obtain D C Q P where inv: "pipe_inv s D C Q P" using trading_reachable_inv [OF assms(1-4,6,5)] by blast
  note i = pipe_invD [OF inv]
  have "length C \<le> 1" using i(6) by (cases "tr_gw_pc s") auto
  moreover have "length P \<le> 1" using i(7) by (cases "tr_oms_pc s") auto
  moreover have "7 * length Q \<le> work_left s" using i(3) by (simp add: work_left_def)
  ultimately have "oms_active_orders (tr_oms s) < 65536" "length Q < 4096" using oms_holds_active [OF i(5)] assms(7) by simp_all
  moreover have "length (ft_pending (om_tracker (tr_oms s))) < 1024" using assms(7) by (simp add: work_left_def del: length_spsc_contents)
  ultimately show False
    using loss_needs_full [OF inv assms(5,8,6) \<open>tr_lost s'\<close>] trading_capacity [OF assms(1)] i(3)
    by (auto simp: ORDER_POOL_def CLOID_DEPTH_def FILL_QUEUE_def simp del: length_spsc_contents)
qed

lemma trading_step_grows:
  assumes "trading_step s s'"
  shows "prefix (tr_accepted s) (tr_accepted s')" and "prefix (tr_applied s) (tr_applied s')"
proof -
  have "prefix (tr_accepted s) (tr_accepted s') \<and> prefix (tr_applied s) (tr_applied s')"
    using assms
  proof cases
    case (step_oms t)
    then show ?thesis
      by (cases "tr_oms_pc s") (auto simp: oms_iter_def rbind_Inr_iff Let_def case_prod_beta split: option.splits)
  next
    case step_gw
    then show ?thesis
      by (cases "tr_gw_pc s") (auto simp: gw_iter_def rbind_Inr_iff Let_def case_prod_beta split: option.splits)
  next
    case step_pos
    then show ?thesis by (auto simp: pos_iter_def Let_def case_prod_beta split: pos_pc.split option.split)
  qed (auto simp: md_bbo_def md_depth_def rbind_Inr_iff strategy_iter_def Let_def case_prod_beta split: strategy_pc.splits option.splits)
  then show "prefix (tr_accepted s) (tr_accepted s')" "prefix (tr_applied s) (tr_applied s')" by blast+
qed

text \<open>A flow: the requests in the process will all be accepted, in their order, and nothing will be lost.\<close>

definition flowing :: "settings \<Rightarrow> raw_memory \<Rightarrow> int \<Rightarrow> OrderRequest list \<Rightarrow> trading \<Rightarrow> bool" where
  "flowing cf rw now rs s \<longleftrightarrow> trading_reachable (trading_new now cf rw) s \<and> \<not> tr_lost s \<and> work_left s < 3072
     \<and> length (tr_accepted s) + work_left s < 2 ^ 64 - 2 \<and> all_requests s = rs \<and> gate_passes (upcoming s) (tr_risk s)"

lemma upcoming_oms:
  assumes "spsc_wf RELAY_DEPTH (tr_relay s)" and "oms_iter t s = Inr s'" and "gate_passes (upcoming s) (tr_risk s)"
  shows "gate_passes (upcoming s') (tr_risk s')"
proof (cases "tr_oms_pc s")
  case O_Loop
  then show ?thesis using assms ring.pop_value [OF assms(1)] ring.pop_contents [OF assms(1)]
    by (cases "relayed s") (auto simp: oms_iter_def upcoming_def case_prod_beta Let_def)
next
  case (O_Popped r)
  then show ?thesis using assms(2,3) by (auto simp: oms_iter_def upcoming_def case_prod_beta Let_def)
qed (use assms(2,3) in \<open>auto simp: oms_iter_def upcoming_def rbind_Inr_iff case_prod_beta Let_def split: option.splits\<close>)

lemma upcoming_others:
  assumes "worker_iter w t s = Inr s'" and "w \<noteq> W_oms" and "all_requests s' = all_requests s"
  shows "upcoming s' = upcoming s \<and> tr_risk s' = tr_risk s"
proof -
  have "tr_accepted s' = tr_accepted s \<and> tr_oms_pc s' = tr_oms_pc s \<and> tr_risk s' = tr_risk s"
    using assms(1,2) by (cases w; cases "tr_strategy_pc s"; cases "tr_gw_pc s"; cases "tr_pos_pc s";
      auto simp: strategy_iter_def gw_iter_def pos_iter_def pl_on_fill_def rbind_Inr_iff Let_def case_prod_beta split: option.splits)
  then show ?thesis using assms(3) by (simp add: all_requests_upcoming)
qed

lemma flowing_step:
  assumes "flowing cf rw now rs s" and "memory_ok rw" and "queue_memory_ok rw" and "0 \<le> cf_max_net_qty cf" and "cf_max_net_qty cf < 2 ^ 63"
    and "worker_iter w t s = Inr s'"
  shows "flowing cf rw now rs s'"
proof -
  note f = assms(1) [unfolded flowing_def]
  then have reach: "trading_reachable (trading_new now cf rw) s" and small: "length (tr_accepted s) < 2 ^ 64 - 2" by simp_all
  note rings = trading_rings [OF reach assms(2,3) small]
  have step: "trading_step s s'" by (rule worker_iter_step [OF assms(6)])
  have keep: "\<not> tr_lost s'" by (rule little_work_keeps [OF reach assms(2,4,5) small _ _ step]) (use f in simp_all)
  have "s' = s \<or> work_left s' < work_left s" using worker_works [OF reach assms(2,3) small, of w t] assms(6) by auto
  then have work: "work_left s' < 3072" "length (tr_accepted s') + work_left s' < 2 ^ 64 - 2"
    using worker_budget [OF assms(6)] f by auto
  have room: "length (relayed s) < RELAY_DEPTH" using f by (simp add: work_left_def RELAY_DEPTH_def del: length_spsc_contents)
  have gate: "snd (ptr_check (sint t) r (tr_risk s))" if "tr_oms_pc s = O_Popped r" for r
    using f that by (simp add: upcoming_def)
  have all: "all_requests s' = all_requests s"
  proof (cases w)
    case W_strategy
    then show ?thesis using strategy_requests(2) [OF rings(1,2) room] assms(6) by simp
  next
    case W_oms
    then show ?thesis using oms_requests(2) [OF rings(2) _ keep gate] assms(6) by simp
  next
    case W_gw
    then show ?thesis using other_requests(1) assms(6) by simp
  next
    case W_pos
    then show ?thesis using other_requests(2) assms(6) by auto
  qed
  have "gate_passes (upcoming s') (tr_risk s')"
    using upcoming_oms [OF rings(2)] upcoming_others [OF assms(6) _ all] f assms(6) by (cases "w = W_oms") auto
  then show ?thesis using f more [OF reach step] keep work all by (simp add: flowing_def)
qed

lemma flowing_run:
  assumes "flowing cf rw now rs s" and "memory_ok rw" and "queue_memory_ok rw" and "0 \<le> cf_max_net_qty cf" and "cf_max_net_qty cf < 2 ^ 63"
    and "run_schedule ws s = Inr s'"
  shows "flowing cf rw now rs s' \<and> prefix (tr_accepted s) (tr_accepted s') \<and> prefix (tr_applied s) (tr_applied s')"
  using assms(1,6)
proof (induction ws arbitrary: s)
  case (Cons e ws)
  obtain w t where e: "e = (w, t)" by force
  then obtain s1 where s1: "worker_iter w t s = Inr s1" "run_schedule ws s1 = Inr s'" using Cons.prems(2) by (auto simp: rbind_Inr_iff)
  note g = trading_step_grows [OF worker_iter_step [OF s1(1)]]
  have "flowing cf rw now rs s' \<and> prefix (tr_accepted s1) (tr_accepted s') \<and> prefix (tr_applied s1) (tr_applied s')"
    by (rule Cons.IH [OF flowing_step [OF Cons.prems(1) assms(2-5) s1(1)] s1(2)])
  then show ?case using prefix_order.order_trans [OF g(1)] prefix_order.order_trans [OF g(2)] by simp
qed simp

subsection \<open>A quote at rest\<close>

text \<open>Nothing of the process is under way and nothing was lost.\<close>

definition at_rest :: "trading \<Rightarrow> bool" where
  "at_rest s \<longleftrightarrow> drained s \<and> \<not> tr_lost s"

lemma drained_idle:
  assumes "drained s"
  shows "pipeline_idle s" and "all_requests s = map snd (tr_accepted s)" and "work_left s = 0"
  using assms unfolding no_work by (simp_all add: drained_def pipeline_idle_def all_requests_def del: length_spsc_contents)

lemma quote_flows:
  assumes "trading_reachable (trading_new now cf rw) s" and "queue_memory_ok rw" and "at_rest s" and "length (tr_accepted s) < 2 ^ 63"
    and "mm_requotes e (tr_mm s)" and "mm_small e (tr_mm s)" and "gate_passes [bid_order cf e, ask_order cf e] (tr_risk s)"
  shows "flowing cf rw now (map snd (tr_accepted s) @ [bid_order cf e, ask_order cf e]) (md_bbo e s) \<and> work_left (md_bbo e s) = 30"
proof -
  have d: "drained s" "\<not> tr_lost s" using assms(3) by (simp_all add: at_rest_def)
  then have rest: "tr_strategy_pc s = S_Loop" "tr_oms_pc s = O_Loop" "orders (tr_mm s) = []" "relayed s = []" and w: "work_left s = 0"
    using drained_idle(3) by (simp_all add: drained_def del: length_spsc_contents)
  have q: "orders (mm_on_bbo e (tr_mm s)) = [bid_order cf e, ask_order cf e]"
    using quote_queued [OF _ _ assms(5,6) rest(3)] trading_front [OF assms(1,2)] trading_mm_untold [OF assms(1)] by blast
  let ?s = "md_bbo e s"
  have m: "tr_mm ?s = mm_on_bbo e (tr_mm s)" by (simp add: md_bbo_def dispatch_bbo_def register_strategy_def)
  have f: "tr_accepted ?s = tr_accepted s" "tr_lost ?s = tr_lost s" "tr_risk ?s = tr_risk s" "tr_oms_pc ?s = tr_oms_pc s"
    "tr_strategy_pc ?s = tr_strategy_pc s" "tr_relay ?s = tr_relay s" by (simp_all add: md_bbo_def)
  have up: "upcoming ?s = [bid_order cf e, ask_order cf e]" using rest q by (simp add: upcoming_def f m)
  have "work_left ?s = work_left s + 30" using rest(3) q
    by (simp add: work_left_def md_bbo_def dispatch_bbo_def register_strategy_def del: length_spsc_contents)
  then have "work_left ?s = 30" using w by simp
  then show ?thesis
    using up rest(2) d(2) assms(4,7) more [OF assms(1) step_md_bbo]
    by (simp add: flowing_def all_requests_upcoming [of ?s] f)
qed

lemma map_two: "map f xs = [a, b] \<Longrightarrow> \<exists>x y. xs = [x, y] \<and> f x = a \<and> f y = b"
  by (cases xs; cases "tl xs") auto

text \<open>What a flow of two orders leaves behind.\<close>

lemma two_orders_settle:
  assumes "pipe_inv s D C Q P" and "pipeline_idle s" and "pipe_inv s' D' C' Q' P'" and "pipeline_idle s'"
    and "prefix (tr_accepted s) (tr_accepted s')" and "prefix (tr_applied s) (tr_applied s')"
    and "map snd (tr_accepted s') = map snd (tr_accepted s) @ [r1, r2]" and "0 < req_qty r1" and "0 < req_qty r2"
  shows "\<exists>o1 o2 f1 f2. tr_accepted s' = tr_accepted s @ [(o1, r1), (o2, r2)]
    \<and> tr_positions s' = pm_on_fill f2 (pm_on_fill f1 (tr_positions s)) \<and> fill_key f1 = req_key r1 \<and> fill_key f2 = req_key r2"
proof -
  obtain xs ys where xs: "tr_accepted s' = tr_accepted s @ xs" and ys: "tr_applied s' = tr_applied s @ ys"
    using assms(5,6) by (auto simp: prefix_def)
  then have "map snd xs = [r1, r2]" using assms(7) by simp
  then obtain o1 o2 where x: "xs = [(o1, r1), (o2, r2)]" using map_two [of snd xs] by (metis prod.collapse)
  have a: "map booked_key (tr_applied s) = map order_key (fillable (tr_accepted s))" by (rule pipeline_idle_inv(4) [OF assms(1,2)])
  have "map booked_key (tr_applied s @ ys) = map order_key (fillable (tr_accepted s @ [(o1, r1), (o2, r2)]))"
    using pipeline_idle_inv(4) [OF assms(3,4)] unfolding xs ys x .
  then have "map booked_key ys = map order_key (fillable [(o1, r1), (o2, r2)])" unfolding map_append fillable_simps(2) a same_append_eq .
  then have "map booked_key ys = [order_key (o1, r1), order_key (o2, r2)]" using assms(8,9) by (simp add: fillable_def)
  then obtain f1 f2 where y: "ys = [f1, f2]" "booked_key f1 = order_key (o1, r1)" "booked_key f2 = order_key (o2, r2)"
    using map_two [of booked_key ys] by blast
  then have "fill_key f1 = req_key r1" "fill_key f2 = req_key r2" by (simp_all add: booked_key_def order_key_def)
  moreover have "tr_positions s' = pm_on_fill f2 (pm_on_fill f1 (tr_positions s))"
    using pipe_invD(11) [OF assms(3)] pipe_invD(11) [OF assms(1)] ys y(1) by simp
  ultimately show ?thesis using xs x by blast
qed

text \<open>
  Claim C1.  From the wire to the profit, whatever the interleaving: a process at rest, with nothing lost
  before, receives a packet with one valid quote of the market maker's instrument that moves its mid, and
  the gate is ready for two orders (breaker closed, two tokens left, the instrument's reservation flat, the
  order quantity and the two notionals within the limits).  Then under every schedule of turns of the
  strategy, OMS, gateway and position threads, with any clock readings and while no further quote arrives,
  no call faults, nothing is lost, and the requests accepted are always the bid and then the ask around
  the mid, or the first of them, or none yet; and as soon as the four threads have had 30 rounds of turns, in
  whatever order, both are accepted and filled, none is left in the OMS, the position is flat again, the
  realised profit of the instrument has grown by the spread times the quantity, and the process is at rest.
\<close>

theorem quote_earns_spread:
  assumes "trading_reachable (trading_new now cf rw) s" and "memory_ok rw" and "queue_memory_ok rw"
    and "0 \<le> cf_max_net_qty cf" and "cf_max_net_qty cf < 2 ^ 63" and "at_rest s" and "length (tr_accepted s) < 2 ^ 63"
    and "wire_bbo_wf w" and "is_bbo_type (wb_msg_type w)" and "wb_magic w = WIRE_MAGIC" and "e = event_of_BBO w\<lparr>local_ts_ns := ts\<rparr>"
    and "mm_requotes e (tr_mm s)" and "mm_small e (tr_mm s)" and "gate_ready cf e (tr_risk s)"
    and "in_i64 (req_price (bid_order cf e) * cf_order_qty cf)" and "unat (cf_instrument_id cf) < MAX_INSTRUMENTS"
  shows "\<exists>f1 s1 s'. live_poll ts [bytes_of_BBO w] (f, s) = (f1, s1) \<and> run_schedule ws s1 = Inr s' \<and> \<not> tr_lost s'
    \<and> (\<exists>k. map snd (tr_accepted s') = map snd (tr_accepted s) @ take k [bid_order cf e, ask_order cf e])
    \<and> (30 \<le> rounds ws \<longrightarrow> at_rest s' \<and> oms_active_orders (tr_oms s') = 0
        \<and> (\<exists>o1 o2. tr_accepted s' = tr_accepted s @ [(o1, bid_order cf e), (o2, ask_order cf e)])
        \<and> get_net_qty (tr_positions s') (cf_instrument_id cf) = 0
        \<and> get_realized_pnl (tr_positions s') (cf_instrument_id cf)
            = i64 (get_realized_pnl (tr_positions s) (cf_instrument_id cf) + cf_spread_ticks cf * cf_order_qty cf))"
proof -
  let ?i = "cf_instrument_id cf" and ?b = "bid_order cf e" and ?a = "ask_order cf e"
  have d: "drained s" "\<not> tr_lost s" using assms(6) by (simp_all add: at_rest_def)
  have small: "length (tr_accepted s) < 2 ^ 64 - 2" using assms(7) by simp
  have qty: "0 < cf_order_qty cf" "cf_order_qty cf < 2 ^ 63" using assms(14) by (simp_all add: gate_ready_def)
  obtain f1 s1 where poll: "live_poll ts [bytes_of_BBO w] (f, s) = (f1, s1)" "s1 = md_bbo e s"
    using live_poll_quote [OF assms(8-10), of ts f s] assms(11) by (metis surjective_pairing)
  have flow: "flowing cf rw now (map snd (tr_accepted s) @ [?b, ?a]) s1" "work_left s1 = 30"
    unfolding poll(2) using quote_flows [OF assms(1,3,6,7,12,13) gate_ready_passes [OF assms(14,16)]] by blast+
  then have r1: "trading_reachable (trading_new now cf rw) s1" "length (tr_accepted s1) + work_left s1 < 2 ^ 64 - 2"
    by (simp_all add: flowing_def)
  obtain s' where s': "run_schedule ws s1 = Inr s'" "work_left s1 \<le> rounds ws \<longrightarrow> drained s'"
    using run_schedule_drains [OF r1(1) assms(2,3) r1(2), of ws "{}"] by auto
  have run: "flowing cf rw now (map snd (tr_accepted s) @ [?b, ?a]) s'" "prefix (tr_accepted s1) (tr_accepted s')" "prefix (tr_applied s1) (tr_applied s')"
    using flowing_run [OF flow(1) assms(2-5) s'(1)] by blast+
  have same: "tr_accepted s1 = tr_accepted s" "tr_applied s1 = tr_applied s" unfolding poll(2) by (simp_all add: md_bbo_def)
  have keep: "\<not> tr_lost s'" and reach': "trading_reachable (trading_new now cf rw) s'" and small': "length (tr_accepted s') < 2 ^ 64 - 2"
    and all: "all_requests s' = map snd (tr_accepted s) @ [?b, ?a]" using run(1) by (simp_all add: flowing_def)
  obtain xs where "tr_accepted s' = tr_accepted s @ xs" using run(2) same by (auto simp: prefix_def)
  moreover from this have "map snd xs @ checked (tr_oms_pc s') @ upcoming s' = [?b, ?a]" using all by (simp add: all_requests_upcoming)
  then have "map snd xs = take (length xs) [?b, ?a]" by (metis append_eq_conv_conj length_map)
  ultimately have part: "\<exists>k. map snd (tr_accepted s') = map snd (tr_accepted s) @ take k [?b, ?a]" by auto
  have "at_rest s' \<and> oms_active_orders (tr_oms s') = 0 \<and> (\<exists>o1 o2. tr_accepted s' = tr_accepted s @ [(o1, ?b), (o2, ?a)])
      \<and> get_net_qty (tr_positions s') ?i = 0
      \<and> get_realized_pnl (tr_positions s') ?i = i64 (get_realized_pnl (tr_positions s) ?i + cf_spread_ticks cf * cf_order_qty cf)"
    if "30 \<le> rounds ws"
  proof -
    have d': "drained s'" using that s'(2) flow(2) by simp
    note idle = drained_idle(1) [OF d(1)] and idle' = drained_idle(1,2) [OF d']
    obtain D C Q P where inv: "pipe_inv s D C Q P" using trading_reachable_inv [OF assms(1,2,4,5) d(2) small] by blast
    obtain D' C' Q' P' where inv': "pipe_inv s' D' C' Q' P'" using trading_reachable_inv [OF reach' assms(2,4,5) keep small'] by blast
    have keys: "req_key ?b = (?i, BUY, req_price ?b, cf_order_qty cf, 0)" "req_key ?a = (?i, SELL, req_price ?a, cf_order_qty cf, 0)"
      "req_qty ?b = cf_order_qty cf" "req_qty ?a = cf_order_qty cf" "req_price ?a - req_price ?b = cf_spread_ticks cf"
      by (simp_all add: req_key_def bid_order_def ask_order_def limit_order_def)
    obtain o1 o2 fa fb where settled: "tr_accepted s' = tr_accepted s @ [(o1, ?b), (o2, ?a)]"
      "tr_positions s' = pm_on_fill fb (pm_on_fill fa (tr_positions s))" "fill_key fa = req_key ?b" "fill_key fb = req_key ?a"
      using two_orders_settle [OF inv idle inv' idle'(1) run(2,3) [unfolded same]] all qty idle'(2) keys(3,4) by auto
    have flat: "get_net_qty (tr_positions s) ?i = 0"
      using reserved_positions [OF assms(1-5) qty(1) disjI1 [OF d(2)] small idle assms(16)] assms(14) by (simp add: gate_ready_def)
    have "in_i64 (cf_order_qty cf)" using qty by (simp add: in_i64_def)
    moreover have "in_i64 (req_price ?a - req_price ?b)"
      using assms(13) trading_front [OF assms(1,3)] keys(5) by (simp add: mm_small_def mm_configured_def in_i64_def)
    ultimately show ?thesis
      using positions_round_trip [OF assms(16) flat settled(3) [unfolded keys(1)] settled(4) [unfolded keys(2)] qty(1) _ assms(15)]
        settled(1,2) d' keep keys(5) pipeline_idle_inv(3) [OF inv' idle'(1)] by (auto simp: at_rest_def)
  qed
  then show ?thesis using poll(1) s'(1) keep part by blast
qed

subsection \<open>A packet and what it earns\<close>

definition sample_wire :: WireBBO where
  "sample_wire = sample_bbo\<lparr>wb_bid_price := 1000, wb_ask_price := 1004\<rparr>"

abbreviation sample_event :: BBOEvent where
  "sample_event \<equiv> event_of_BBO sample_wire\<lparr>local_ts_ns := 5\<rparr>"

lemma sample_event_eq:
  "bbo_instrument_id sample_event = 7" "bid_px sample_event = 1000" "ask_px sample_event = 1004"
  by (simp_all add: event_of_BBO_def sample_wire_def sample_bbo_def)

lemma sample_quoted:
  "bid_order sample_settings sample_event = limit_order 7 BUY 1001 10"
  "ask_order sample_settings sample_event = limit_order 7 SELL 1003 10"
  by (simp_all add: bid_order_def ask_order_def sample_event_eq) (simp_all add: sample_settings_def)

lemma sample_gate: "gate_ready sample_settings sample_event (tr_risk sample_process)"
proof -
  have q: "req_price (bid_order sample_settings sample_event) = 1001" "req_price (ask_order sample_settings sample_event) = 1003"
    unfolding sample_quoted by (simp_all add: limit_order_def)
  show ?thesis
    unfolding gate_ready_def q
    by (simp add: trading_new_def sample_settings_def cb_new_def cb_allow_order_def rl_new_def pl_new_def pl_get_net_qty_def
        notional_ok_def i64_id in_i64_def)
qed

lemma sample_at_rest: "at_rest sample_process"
proof -
  have "tr_mm sample_process = sample_mm"
    by (simp add: trading_new_def sample_mm_def sample_settings_def sample_memory_def)
  then have "orders (tr_mm sample_process) = []" using sample_mm_simps(2) by simp
  moreover have "\<not> tr_lost sample_process" "tr_strategy_pc sample_process = S_Loop" "tr_oms_pc sample_process = O_Loop"
    "tr_gw_pc sample_process = G_Loop" "tr_pos_pc sample_process = X_Loop" "relayed sample_process = []" "queued_ids sample_process = []"
    "ft_pending (om_tracker (tr_oms sample_process)) = []"
    by (simp_all add: trading_new_def oms_new_def fill_tracker_new_def)
  ultimately show ?thesis by (simp add: at_rest_def drained_def del: length_spsc_contents)
qed

theorem quote_earns_spread_witness:
  "\<exists>f1 s1 s'. live_poll 5 [bytes_of_BBO sample_wire] (feed_new INTERNAL (replicate QUEUE_DEPTH bbo0) True, sample_process) = (f1, s1)
    \<and> run_schedule (round_robin 30) s1 = Inr s' \<and> at_rest s'
    \<and> get_net_qty (tr_positions s') 7 = 0 \<and> get_realized_pnl (tr_positions s') 7 = 20"
proof -
  let ?f = "feed_new INTERNAL (replicate QUEUE_DEPTH bbo0) True"
  have m: "tr_mm sample_process = sample_mm"
    by (simp add: trading_new_def sample_mm_def sample_settings_def sample_memory_def)
  have w: "wire_bbo_wf sample_wire" "is_bbo_type (wb_msg_type sample_wire)" "wb_magic sample_wire = WIRE_MAGIC"
    by (simp_all add: sample_wire_def sample_bbo_def wire_bbo_wf_def is_bbo_type_def in_i64_def)
  have q: "queue_memory_ok sample_memory" by (simp add: queue_memory_ok_def sample_memory_def)
  have e: "mm_requotes sample_event (tr_mm sample_process)" "mm_small sample_event (tr_mm sample_process)"
    by (simp_all add: m mm_requotes_def mm_small_def is_valid_bbo_def sample_mm_simps sample_event_eq)
  have c: "in_i64 (req_price (bid_order sample_settings sample_event) * cf_order_qty sample_settings)"
    "unat (cf_instrument_id sample_settings) < MAX_INSTRUMENTS"
    unfolding sample_quoted by (simp_all add: sample_settings_def limit_order_def in_i64_def MAX_INSTRUMENTS_def)
  have z: "length (tr_accepted sample_process) < 2 ^ 63" by (simp add: trading_new_def)
  have p: "get_realized_pnl (tr_positions sample_process) 7 = 0"
    by (simp add: trading_new_def pm_new_def get_realized_pnl_def slot0_def)
  have s: "cf_instrument_id sample_settings = 7" "cf_spread_ticks sample_settings * cf_order_qty sample_settings = 20"
    by (simp_all add: sample_settings_def)
  have n: "30 \<le> rounds (round_robin 30)" by (simp add: rounds_round_robin)
  from quote_earns_spread [OF start sample_settings_ok(1) q sample_settings_ok(2,3) sample_at_rest z w refl e sample_gate c, of ?f "round_robin 30"]
  obtain f1 s1 s' where "live_poll 5 [bytes_of_BBO sample_wire] (?f, sample_process) = (f1, s1)"
    "run_schedule (round_robin 30) s1 = Inr s'" "at_rest s'"
    "get_net_qty (tr_positions s') 7 = 0" "get_realized_pnl (tr_positions s') 7 = i64 (0 + 20)"
    using n unfolding s p by blast
  then show ?thesis by (intro exI [of _ f1] exI [of _ s1] exI [of _ s']) (simp add: i64_def)
qed

subsection \<open>The ring nobody reads\<close>

text \<open>
  The process takes its quotes from the callback and never calls \<open>pop_bbo\<close>: of all events of a run
  the ring of the feed handler holds at most its 4096 slots, and each of the others counts as dropped.
\<close>

lemma polls_move:
  "spsc_wf QUEUE_DEPTH (fh_bbo_queue f) \<Longrightarrow> \<exists>acc nm np. feed_moves f (concat (map (\<lambda>p. op_events (fh_exchange f) (Poll (fst p) (snd p))) polls))
     acc [] nm np (fold (\<lambda>p. recv_poll (fst p) (snd p)) polls f)"
proof (induction polls arbitrary: f)
  case Nil
  then show ?case using feed_moves_refl by auto
next
  case (Cons p polls)
  let ?g = "recv_poll (fst p) (snd p) f"
  obtain a1 n1 k1 where a1: "feed_moves f (op_events (fh_exchange f) (Poll (fst p) (snd p))) a1 [] n1 k1 ?g"
    using feed_moves_poll [OF Cons.prems] by blast
  then have ex: "fh_exchange ?g = fh_exchange f" by (simp add: feed_moves_def)
  from Cons.IH [OF feed_moves_wf [OF a1]] obtain a2 n2 k2 where
    "feed_moves ?g (concat (map (\<lambda>p. op_events (fh_exchange f) (Poll (fst p) (snd p))) polls)) a2 [] n2 k2
      (fold (\<lambda>p. recv_poll (fst p) (snd p)) polls ?g)" unfolding ex by blast
  from feed_moves_trans [OF a1 this] show ?case by auto
qed

lemma unread_ring_drops:
  assumes "spsc_wf QUEUE_DEPTH (fh_bbo_queue f)" and "feed_contents f = []"
  shows "\<exists>n. n \<le> QUEUE_DEPTH \<and> fh_dropped (fold (\<lambda>p. recv_poll (fst p) (snd p)) polls f)
    = fh_dropped f + of_nat (length (concat (map (\<lambda>p. op_events (fh_exchange f) (Poll (fst p) (snd p))) polls)) - n)"
proof -
  obtain acc nm np where m: "feed_moves f (concat (map (\<lambda>p. op_events (fh_exchange f) (Poll (fst p) (snd p))) polls))
     acc [] nm np (fold (\<lambda>p. recv_poll (fst p) (snd p)) polls f)" using polls_move [OF assms(1)] by blast
  then have w: "spsc_wf QUEUE_DEPTH (fh_bbo_queue (fold (\<lambda>p. recv_poll (fst p) (snd p)) polls f))" by (rule feed_moves_wf)
  have "acc = feed_contents (fold (\<lambda>p. recv_poll (fst p) (snd p)) polls f)"
    using m assms(2) by (simp add: feed_moves_def del: length_spsc_contents)
  then have "length acc \<le> QUEUE_DEPTH" using ring.bounded [OF w] by simp
  with m show ?thesis unfolding feed_moves_def by blast
qed

end
