(* ===== verification/Gateway_Socket.thy ===== *)
theory Gateway_Socket
  imports Binary_Protocol Fix_Session Session_Manager
begin

text \<open>
  The TCP connection of the two exchange gateways: \<^verbatim>\<open>connect\<close>, \<^verbatim>\<open>disconnect\<close> and the destructor of
  \<^verbatim>\<open>src/connectivity/binary_protocol.cpp\<close> and \<^verbatim>\<open>src/connectivity/fix_session.cpp\<close> with the descriptor they
  hold, around the protocols of \<open>Binary_Protocol\<close> and \<open>Fix_Session\<close>.  What the system calls of one
  \<^verbatim>\<open>connect\<close> return is an argument.
\<close>

subsection \<open>The connection\<close>

record tcp_env =
  te_socket :: int
  te_resolves :: bool
  te_connect :: int

text \<open>\<open>ln_open\<close> records the descriptors the process holds.\<close>

record 'g link =
  ln_sockfd :: int
  ln_open :: "int list"
  ln_gateway :: 'g

definition link_new :: "'g \<Rightarrow> 'g link" where
  "link_new g = \<lparr>ln_sockfd = - 1, ln_open = [], ln_gateway = g\<rparr>"

definition link_close :: "'g link \<Rightarrow> 'g link" where
  "link_close l = l\<lparr>ln_open := remove1 (ln_sockfd l) (ln_open l), ln_sockfd := - 1\<rparr>"

text \<open>The part the two \<^verbatim>\<open>connect\<close> functions share: socket, name resolution, connection.\<close>

definition tcp_open :: "tcp_env \<Rightarrow> 'g link \<Rightarrow> 'g link \<times> bool" where
  "tcp_open env l =
     (let l1 = l\<lparr>ln_sockfd := te_socket env\<rparr> in
      if ln_sockfd l1 < 0 then (l1, False)
      else let l2 = l1\<lparr>ln_open := ln_sockfd l1 # ln_open l1\<rparr> in
        if \<not> te_resolves env then (link_close l2, False)
        else if te_connect env < 0 then (link_close l2, False)
        else (l2, True))"

definition bin_link_connect :: "bytes \<Rightarrow> tcp_env \<Rightarrow> bin_gateway link \<Rightarrow> bin_gateway link \<times> bool" where
  "bin_link_connect session_id env l =
     (let (l1, established) = tcp_open env l in
      if \<not> established then (l1, False)
      else let (g, ok) = send_msg MSG_LOGON session_id (of_nat (length session_id)) (ln_gateway l1);
               l2 = l1\<lparr>ln_gateway := g\<rparr>
           in if \<not> ok then (link_close l2, False)
              else (l2\<lparr>ln_gateway := g\<lparr>bg_connected := True\<rparr>\<rparr>, True))"

definition bin_link_disconnect :: "bin_gateway link \<Rightarrow> bin_gateway link" where
  "bin_link_disconnect l =
     (let l1 = (if bg_connected (ln_gateway l)
                then l\<lparr>ln_gateway := (fst (send_msg MSG_LOGOFF [] 0 (ln_gateway l)))\<lparr>bg_connected := False\<rparr>\<rparr> else l)
      in if ln_sockfd l1 \<ge> 0 then link_close l1 else l1)"

definition fix_link_connect :: "tcp_env \<Rightarrow> fix_session link \<Rightarrow> fix_session link \<times> bool" where
  "fix_link_connect env l =
     (let (l1, established) = tcp_open env l in
      if \<not> established then (l1\<lparr>ln_gateway := (ln_gateway l1)\<lparr>fx_open := False\<rparr>\<rparr>, False)
      else let (buf, s1) = encode_logon 512 ((ln_gateway l1)\<lparr>fx_open := True, fx_state := LOGGING_ON\<rparr>);
               (s2, ok) = send_raw buf s1; l2 = l1\<lparr>ln_gateway := s2\<rparr>
           in if \<not> ok then ((link_close l2)\<lparr>ln_gateway := s2\<lparr>fx_open := False, fx_state := NOT_CONNECTED\<rparr>\<rparr>, False)
              else (l2\<lparr>ln_gateway := s2\<lparr>fx_state := ACTIVE\<rparr>\<rparr>, True))"

definition fix_link_disconnect :: "fix_session link \<Rightarrow> fix_session link" where
  "fix_link_disconnect l =
     (let s = ln_gateway l;
          s1 = (if fx_state s = ACTIVE
                then let (buf, s1) = encode_logout 256 s in (fst (send_raw buf s1))\<lparr>fx_state := LOGGING_OUT\<rparr>
                else s);
          l1 = (if ln_sockfd l \<ge> 0 then link_close l else l)
      in l1\<lparr>ln_gateway := s1\<lparr>fx_open := False, fx_state := NOT_CONNECTED\<rparr>\<rparr>)"

text \<open>The gateway's own state is the one of the protocol theories.\<close>

definition te_established :: "tcp_env \<Rightarrow> bool" where
  "te_established env \<longleftrightarrow> 0 \<le> te_socket env \<and> te_resolves env \<and> 0 \<le> te_connect env"

lemma tcp_open_simps:
  "snd (tcp_open env l) = te_established env" "ln_gateway (fst (tcp_open env l)) = ln_gateway l"
  "ln_sockfd (fst (tcp_open env l)) = (if te_established env then te_socket env else if te_socket env < 0 then te_socket env else - 1)"
  "ln_open (fst (tcp_open env l)) = (if te_established env then te_socket env # ln_open l else ln_open l)"
  by (auto simp: tcp_open_def te_established_def link_close_def Let_def)

lemma link_gateway_refines:
  "ln_gateway (fst (bin_link_connect sid env l)) = fst (bin_connect (te_established env) sid (ln_gateway l))"
  "snd (bin_link_connect sid env l) = snd (bin_connect (te_established env) sid (ln_gateway l))"
  "ln_gateway (bin_link_disconnect l) = bin_disconnect (ln_gateway l)"
  "ln_gateway (fst (fix_link_connect env k)) = fst (fix_connect (te_established env) (ln_gateway k))"
  "snd (fix_link_connect env k) = snd (fix_connect (te_established env) (ln_gateway k))"
  "ln_gateway (fix_link_disconnect k) = fix_disconnect (ln_gateway k)"
  by (simp_all add: bin_link_connect_def bin_connect_def bin_link_disconnect_def bin_disconnect_def fix_link_connect_def fix_connect_def
      fix_link_disconnect_def fix_disconnect_def link_close_def tcp_open_simps Let_def case_prod_beta)

subsection \<open>The interface: who holds a descriptor\<close>

text \<open>One descriptor when there is one, none otherwise; and no session without a descriptor.\<close>

definition held :: "('g \<Rightarrow> bool) \<Rightarrow> 'g link \<Rightarrow> bool" where
  "held up l \<longleftrightarrow> ln_open l = (if 0 \<le> ln_sockfd l then [ln_sockfd l] else []) \<and> (up (ln_gateway l) \<longrightarrow> 0 \<le> ln_sockfd l)"

text \<open>A sequence of calls in which each \<^verbatim>\<open>connect\<close> is preceded by a \<^verbatim>\<open>disconnect\<close>.\<close>

fun reconnects :: "('e \<Rightarrow> 'l \<Rightarrow> 'l \<times> bool) \<Rightarrow> ('l \<Rightarrow> 'l) \<Rightarrow> 'e list \<Rightarrow> 'l \<Rightarrow> 'l" where
  "reconnects conn disc [] l = l"
| "reconnects conn disc (env # envs) l = reconnects conn disc envs (fst (conn env (disc l)))"

locale tcp_client =
  fixes connect :: "tcp_env \<Rightarrow> 'g link \<Rightarrow> 'g link \<times> bool"
    and disconnect :: "'g link \<Rightarrow> 'g link"
    and up :: "'g \<Rightarrow> bool"
  assumes connect_True: "connect env l = (l1, True) \<Longrightarrow>
      0 \<le> ln_sockfd l1 \<and> ln_sockfd l1 = te_socket env \<and> ln_open l1 = te_socket env # ln_open l \<and> up (ln_gateway l1)"
    and connect_False: "connect env l = (l1, False) \<Longrightarrow>
      ln_sockfd l1 < 0 \<and> ln_open l1 = ln_open l \<and> (up (ln_gateway l1) \<longrightarrow> up (ln_gateway l))"
    and disconnect_down: "\<not> up (ln_gateway (disconnect l)) \<and> ln_sockfd (disconnect l) < 0"
    and disconnect_open: "ln_open (disconnect l) = (if ln_sockfd l < 0 then ln_open l else remove1 (ln_sockfd l) (ln_open l))"
begin

lemma held_disconnect: "held up l \<Longrightarrow> held up (disconnect l) \<and> ln_open (disconnect l) = []"
  using disconnect_down [of l] disconnect_open [of l] by (auto simp: held_def)

lemma held_connect:
  assumes "held up l" and "ln_sockfd l < 0" and "connect env l = (l1, ok)"
  shows "held up l1 \<and> ok = up (ln_gateway l1)"
  using assms connect_True [of env l l1] connect_False [of env l l1] by (cases ok) (auto simp: held_def)

lemma held_reconnects: "held up l \<Longrightarrow> held up (reconnects connect disconnect envs l)"
proof (induction envs arbitrary: l)
  case (Cons env envs)
  obtain l1 ok where c: "connect env (disconnect l) = (l1, ok)" by force
  have "held up l1" using held_connect [OF _ _ c] held_disconnect [OF Cons.prems] disconnect_down by blast
  then show ?case using Cons.IH c by simp
qed simp

lemma reconnects_close: "held up l \<Longrightarrow> ln_open (disconnect (reconnects connect disconnect envs l)) = []"
  using held_reconnects held_disconnect by blast

text \<open>A \<^verbatim>\<open>connect\<close> while a descriptor is held forgets it.\<close>

lemma connect_twice_leaks:
  assumes "held up l" and "0 \<le> ln_sockfd l" and "connect env l = (l1, True)" and "te_socket env \<noteq> ln_sockfd l"
  shows "ln_sockfd l \<in> set (ln_open (disconnect l1))"
  using assms connect_True [OF assms(3)] disconnect_open [of l1] by (auto simp: held_def)

end

interpretation bin_link: tcp_client "bin_link_connect sid" bin_link_disconnect bg_connected for sid
proof unfold_locales
  fix env and l l1 :: "bin_gateway link"
  have s: "bg_connected (fst (send_msg ty b n g)) = bg_connected g" for ty b n g by (simp add: send_msg_def Let_def)
  show "0 \<le> ln_sockfd l1 \<and> ln_sockfd l1 = te_socket env \<and> ln_open l1 = te_socket env # ln_open l \<and> bg_connected (ln_gateway l1)"
    if "bin_link_connect sid env l = (l1, True)"
    using that tcp_open_simps [of env l]
    by (auto simp: bin_link_connect_def Let_def case_prod_beta te_established_def split: if_splits)
  show "ln_sockfd l1 < 0 \<and> ln_open l1 = ln_open l \<and> (bg_connected (ln_gateway l1) \<longrightarrow> bg_connected (ln_gateway l))"
    if "bin_link_connect sid env l = (l1, False)"
    using that tcp_open_simps [of env l]
    by (auto simp: bin_link_connect_def link_close_def s Let_def case_prod_beta te_established_def split: if_splits)
  show "\<not> bg_connected (ln_gateway (bin_link_disconnect l)) \<and> ln_sockfd (bin_link_disconnect l) < 0"
    by (auto simp: bin_link_disconnect_def link_close_def Let_def)
  show "ln_open (bin_link_disconnect l) = (if ln_sockfd l < 0 then ln_open l else remove1 (ln_sockfd l) (ln_open l))"
    by (auto simp: bin_link_disconnect_def link_close_def Let_def)
qed

interpretation fix_link: tcp_client fix_link_connect fix_link_disconnect fix_is_connected
proof unfold_locales
  fix env and l l1 :: "fix_session link"
  show "0 \<le> ln_sockfd l1 \<and> ln_sockfd l1 = te_socket env \<and> ln_open l1 = te_socket env # ln_open l \<and> fix_is_connected (ln_gateway l1)"
    if "fix_link_connect env l = (l1, True)"
    using that tcp_open_simps [of env l]
    by (auto simp: fix_link_connect_def fix_is_connected_def Let_def case_prod_beta te_established_def split: if_splits)
  show "ln_sockfd l1 < 0 \<and> ln_open l1 = ln_open l \<and> (fix_is_connected (ln_gateway l1) \<longrightarrow> fix_is_connected (ln_gateway l))"
    if "fix_link_connect env l = (l1, False)"
    using that tcp_open_simps [of env l]
    by (auto simp: fix_link_connect_def fix_is_connected_def link_close_def Let_def case_prod_beta te_established_def split: if_splits)
  show "\<not> fix_is_connected (ln_gateway (fix_link_disconnect l)) \<and> ln_sockfd (fix_link_disconnect l) < 0"
    by (auto simp: fix_link_disconnect_def fix_is_connected_def link_close_def Let_def)
  show "ln_open (fix_link_disconnect l) = (if ln_sockfd l < 0 then ln_open l else remove1 (ln_sockfd l) (ln_open l))"
    by (auto simp: fix_link_disconnect_def link_close_def Let_def)
qed

subsection \<open>Both gateways\<close>

text \<open>
  However often the gateways are connected, lose their connection or fail at any step of connecting, and
  are disconnected before they are connected again, they hold at most the one descriptor of their socket,
  report a connection only when they hold one, and hold none after a last \<^verbatim>\<open>disconnect\<close>, which the
  destructors call.
\<close>

theorem gateways_hold_one_descriptor:
  assumes "\<not> bg_connected g" and "\<not> fix_is_connected s"
  shows "held bg_connected (reconnects (bin_link_connect sid) bin_link_disconnect envs (link_new g))
    \<and> ln_open (bin_link_disconnect (reconnects (bin_link_connect sid) bin_link_disconnect envs (link_new g))) = []
    \<and> held fix_is_connected (reconnects fix_link_connect fix_link_disconnect envs (link_new s))
    \<and> ln_open (fix_link_disconnect (reconnects fix_link_connect fix_link_disconnect envs (link_new s))) = []"
proof -
  have "held bg_connected (link_new g)" "held fix_is_connected (link_new s)" using assms by (simp_all add: held_def link_new_def)
  then show ?thesis
    using bin_link.held_reconnects bin_link.reconnects_close fix_link.held_reconnects fix_link.reconnects_close by blast
qed

theorem gateways_hold_one_descriptor_witness:
  "ln_open (reconnects (bin_link_connect [1]) bin_link_disconnect
     [\<lparr>te_socket = 5, te_resolves = True, te_connect = 0\<rparr>, \<lparr>te_socket = 6, te_resolves = False, te_connect = 0\<rparr>] (link_new bin_new)) = []
   \<and> length (ln_open (reconnects fix_link_connect fix_link_disconnect
     [\<lparr>te_socket = 5, te_resolves = True, te_connect = 0\<rparr>] (link_new sample_fix))) \<le> 1"
proof -
  let ?ok = "\<lparr>te_socket = 5, te_resolves = True, te_connect = 0\<rparr>" and ?bad = "\<lparr>te_socket = 6, te_resolves = False, te_connect = 0\<rparr>"
  have n: "\<not> bg_connected bin_new" "\<not> fix_is_connected sample_fix"
    by (simp_all add: bin_new_def sample_fix_def fix_new_def fix_is_connected_def)
  let ?b = "reconnects (bin_link_connect [1]) bin_link_disconnect [?ok, ?bad] (link_new bin_new)"
  have "\<not> te_established ?bad" by (simp add: te_established_def)
  then have "\<not> snd (bin_link_connect [1] ?bad l)" for l by (simp only: link_gateway_refines(2) bin_connect_def if_True simp_thms snd_conv)
  then have "ln_sockfd (fst (bin_link_connect [1] ?bad l)) < 0" for l
    using bin_link.connect_False [of "[1]" ?bad l "fst (bin_link_connect [1] ?bad l)"] by (simp add: prod_eq_iff)
  then have b: "ln_sockfd ?b < 0" unfolding reconnects.simps .
  have "held bg_connected ?b" using gateways_hold_one_descriptor [OF n, of "[1]" "[?ok, ?bad]"] by blast
  then have "ln_open ?b = []" using b unfolding held_def by simp
  moreover have "held fix_is_connected (reconnects fix_link_connect fix_link_disconnect [?ok] (link_new sample_fix))"
    using gateways_hold_one_descriptor [OF n, of "[1]" "[?ok]"] by blast
  then have "length (ln_open (reconnects fix_link_connect fix_link_disconnect [?ok] (link_new sample_fix))) \<le> 1"
    unfolding held_def by (simp split: if_splits del: reconnects.simps)
  ultimately show ?thesis by (rule conjI)
qed

text \<open>
  The receive loops leave the descriptor open when the connection is lost; a \<^verbatim>\<open>connect\<close> without a
  \<^verbatim>\<open>disconnect\<close> then forgets it.
\<close>

lemma lost_connection_leaks:
  assumes "bin_link_connect sid env1 (link_new g) = (l1, True)" and "te_socket env2 \<noteq> te_socket env1"
    and "bin_link_connect sid env2 (l1\<lparr>ln_gateway := (ln_gateway l1)\<lparr>bg_connected := False\<rparr>\<rparr>) = (l2, True)"
  shows "te_socket env1 \<in> set (ln_open (bin_link_disconnect l2))"
proof -
  let ?l = "l1\<lparr>ln_gateway := (ln_gateway l1)\<lparr>bg_connected := False\<rparr>\<rparr>"
  note c = bin_link.connect_True [OF assms(1)]
  then have "held bg_connected ?l" "0 \<le> ln_sockfd ?l" "te_socket env2 \<noteq> ln_sockfd ?l"
    using assms(2) by (simp_all add: held_def link_new_def)
  from bin_link.connect_twice_leaks [OF this(1,2) assms(3) this(3)] c show ?thesis by simp
qed

end
