(* ===== verification/Monitor_Thread.thy ===== *)
theory Monitor_Thread
  imports Pipeline Latency_Tracker
begin

text \<open>
  The monitor thread of \<^verbatim>\<open>src/main.cpp\<close>: what it reads of the process once a second and prints, and the
  figures the process prints when it ends.
\<close>

record monitor_line =
  ml_tick :: u64
  ml_active_orders :: nat
  ml_total_fills :: u64
  ml_lat_p99_ns :: "u64 option"

definition lat_tracker_new :: latency_tracker where
  "lat_tracker_new = lt_new ''end_to_end'' 256"

definition monitor_iter :: "latency_tracker \<Rightarrow> trading \<Rightarrow> u64 \<Rightarrow> u64 \<times> monitor_line" where
  "monitor_iter lat_tracker s monitor_tick_count = (let tick = monitor_tick_count + 1 in
     (tick, \<lparr>ml_tick = tick, ml_active_orders = oms_active_orders (tr_oms s),
             ml_total_fills = ft_total_fills (om_tracker (tr_oms s)),
             ml_lat_p99_ns = lt_percentile (b64_round (99 / 100)) lat_tracker\<rparr>))"

text \<open>A run of the thread: the states of the process that its ticks meet.\<close>

fun monitor_run :: "latency_tracker \<Rightarrow> trading list \<Rightarrow> u64 \<Rightarrow> monitor_line list" where
  "monitor_run lat_tracker [] tick = []"
| "monitor_run lat_tracker (s # ss) tick =
     (let (tick1, line) = monitor_iter lat_tracker s tick in line # monitor_run lat_tracker ss tick1)"

definition exit_line :: "trading \<Rightarrow> u64 \<times> nat" where
  "exit_line s = (ft_total_fills (om_tracker (tr_oms s)), oms_active_orders (tr_oms s))"

subsection \<open>The fill count\<close>

lemma oms_calls_tracker:
  "oms_submit now req s = Inr (s', r) \<Longrightarrow> om_tracker s' = om_tracker s"
  "oms_on_ack a s = Inr (s', ok) \<Longrightarrow> om_tracker s' = om_tracker s"
  "om_tracker (oms_release oid s) = om_tracker s"
  by (auto simp: oms_submit_def oms_on_ack_def oms_release_def rbind_Inr_iff Let_def case_prod_beta split: option.splits)

lemma oms_on_fill_count: "oms_on_fill f s = Inr (s', ok) \<Longrightarrow>
   ft_count (om_tracker s') = ft_count (om_tracker s) + (if ok then 1 else 0)"
  by (auto simp: oms_on_fill_def rbind_Inr_iff Let_def case_prod_beta ft_on_fill_fields split: option.splits)

lemma trading_fill_count:
  assumes "trading_reachable (trading_new now cf rw) s"
  shows "ft_total_fills (om_tracker (tr_oms s)) = of_nat (length (tr_booked s))"
  using assms
proof induction
  case start
  then show ?case by (simp add: trading_new_def oms_new_def fill_tracker_new_def ft_total_fills_def)
next
  case (more s s')
  have "ft_count (om_tracker (tr_oms s')) - of_nat (length (tr_booked s')) = ft_count (om_tracker (tr_oms s)) - of_nat (length (tr_booked s))"
    using more.hyps(2)
  proof cases
    case (step_oms t)
    then show ?thesis
      by (cases "tr_oms_pc s") (auto simp: oms_iter_def rbind_Inr_iff Let_def case_prod_beta oms_calls_tracker split: option.splits)
  next
    case step_gw
    then show ?thesis
      by (cases "tr_gw_pc s") (auto simp: gw_iter_def rbind_Inr_iff Let_def case_prod_beta oms_calls_tracker oms_on_fill_count
          split: option.splits)
  next
    case step_pos
    then show ?thesis by (simp add: pos_iter_def ft_pop_fill_def Let_def case_prod_beta split: pos_pc.split option.split)
  qed (auto simp: md_bbo_def md_depth_def rbind_Inr_iff strategy_iter_def Let_def case_prod_beta split: strategy_pc.splits option.splits)
  then show ?case using more.IH by (simp add: ft_total_fills_def)
qed

lemma lat_tracker_silent: "lt_percentile p lat_tracker_new = Some 0"
  by (simp add: lat_tracker_new_def lt_new_def lt_percentile_def lt_valid_def)

text \<open>
  What the monitor shows.  Its ticks count up from one; in every state the fill count is the number of
  fills the OMS has booked; in a state at rest that lost nothing no order is active and the count is the
  number of accepted orders of positive quantity; and the latency it prints is always 0, because nothing
  records into its tracker.
\<close>

theorem monitor_reports:
  assumes "trading_reachable (trading_new now cf rw) s"
  shows "monitor_iter lat_tracker_new s tick = (tick + 1, \<lparr>ml_tick = tick + 1, ml_active_orders = oms_active_orders (tr_oms s),
      ml_total_fills = of_nat (length (tr_booked s)), ml_lat_p99_ns = Some 0\<rparr>)"
    and "memory_ok rw \<Longrightarrow> 0 \<le> cf_max_net_qty cf \<Longrightarrow> cf_max_net_qty cf < 2 ^ 63 \<Longrightarrow> \<not> tr_lost s \<Longrightarrow>
      length (tr_accepted s) < 2 ^ 64 - 2 \<Longrightarrow> pipeline_idle s \<Longrightarrow>
      exit_line s = (of_nat (length (fillable (tr_accepted s))), 0)"
proof -
  show "monitor_iter lat_tracker_new s tick = (tick + 1, \<lparr>ml_tick = tick + 1, ml_active_orders = oms_active_orders (tr_oms s),
      ml_total_fills = of_nat (length (tr_booked s)), ml_lat_p99_ns = Some 0\<rparr>)"
    by (simp add: monitor_iter_def trading_fill_count [OF assms] lat_tracker_silent Let_def)
  assume a: "memory_ok rw" "0 \<le> cf_max_net_qty cf" "cf_max_net_qty cf < 2 ^ 63" "\<not> tr_lost s"
    "length (tr_accepted s) < 2 ^ 64 - 2" "pipeline_idle s"
  obtain D C Q P where inv: "pipe_inv s D C Q P" using trading_reachable_inv [OF assms a(1-5)] by blast
  have "length (tr_booked s) = length (fillable (tr_accepted s))"
    using arg_cong [OF pipeline_idle_inv(4) [OF inv a(6)], of length] pipeline_idle_inv(2) [OF inv a(6)] by simp
  then show "exit_line s = (of_nat (length (fillable (tr_accepted s))), 0)"
    using pipeline_idle_inv(3) [OF inv a(6)] by (simp add: exit_line_def trading_fill_count [OF assms])
qed

lemma monitor_ticks:
  "map ml_tick (monitor_run lat_tracker ss tick) = map (\<lambda>i. tick + of_nat (Suc i)) [0..<length ss]"
proof (induction ss arbitrary: tick)
  case (Cons s ss)
  have "map (\<lambda>i. tick + 1 + of_nat (Suc i)) [0..<length ss] = map (\<lambda>i. tick + of_nat (Suc i)) [Suc 0..<Suc (length ss)]"
    by (simp add: map_Suc_upt [symmetric] comp_def add.assoc add.commute del: upt_Suc)
  then show ?case using Cons by (simp add: monitor_iter_def Let_def upt_conv_Cons del: upt_Suc)
qed simp

end
