(* ===== verification/Logger.thy ===== *)
theory Logger
  imports Config
begin

text \<open>
  \<^verbatim>\<open>src/infra/logger.cpp\<close>: the initialisation of the log sinks and the named loggers.  The logging library
  is a record of its functions over a state of its own: a step that throws returns \<open>None\<close>, and the
  functions catch it.  What the code relies on is \<open>spdlog_sound\<close>.
\<close>

subsection \<open>The library\<close>

record 'k log_object =
  lo_name :: string
  lo_sinks :: "'k list"
  lo_level :: log_level

record ('s, 'k) spdlog =
  sp_directories :: "string \<Rightarrow> 's \<Rightarrow> bool"
  sp_thread_pool :: "nat \<Rightarrow> nat \<Rightarrow> 's \<Rightarrow> 's option"
  sp_file_sink :: "string \<Rightarrow> nat \<Rightarrow> nat \<Rightarrow> log_level \<Rightarrow> 's \<Rightarrow> 'k option"
  sp_get :: "string \<Rightarrow> 's \<Rightarrow> 'k log_object option"
  sp_register :: "'k log_object \<Rightarrow> 's \<Rightarrow> 's option"
  sp_default :: "'s \<Rightarrow> 'k log_object"
  sp_set_default :: "'k log_object \<Rightarrow> 's \<Rightarrow> 's"

text \<open>
  The registry: \<^verbatim>\<open>register_logger\<close> throws for a name in use and adds the logger otherwise;
  \<^verbatim>\<open>set_default_logger\<close> makes it the default and leaves the other names.
\<close>

definition spdlog_sound :: "('s, 'k) spdlog \<Rightarrow> bool" where
  "spdlog_sound sp \<longleftrightarrow>
     (\<forall>l s. (sp_register sp l s = None) = (sp_get sp (lo_name l) s \<noteq> None))
   \<and> (\<forall>l s s'. sp_register sp l s = Some s' \<longrightarrow>
        (\<forall>n. sp_get sp n s' = (if n = lo_name l then Some l else sp_get sp n s)) \<and> sp_default sp s' = sp_default sp s)
   \<and> (\<forall>l s. sp_default sp (sp_set_default sp l s) = l
        \<and> (\<forall>n. sp_get sp n (sp_set_default sp l s) = (if n = lo_name l then Some l else sp_get sp n s)))
   \<and> (\<forall>a b s s'. sp_thread_pool sp a b s = Some s' \<longrightarrow> (\<forall>n. sp_get sp n s' = sp_get sp n s))"

subsection \<open>Logger\<close>

record 'k logger =
  lg_initialized :: bool
  lg_sinks :: "'k list"

definition logger_new :: "'k logger" where
  "logger_new = \<lparr>lg_initialized = False, lg_sinks = []\<rparr>"

text \<open>\<open>console\<close>: the console sink of a debug build.\<close>

definition logger_init :: "('s, 'k) spdlog \<Rightarrow> 'k option \<Rightarrow> string \<Rightarrow> log_level \<Rightarrow> 'k logger \<times> 's \<Rightarrow> 'k logger \<times> 's" where
  "logger_init sp console log_dir level st = (case st of (lg, s) \<Rightarrow>
     if lg_initialized lg then (lg, s)
     else if \<not> sp_directories sp log_dir s then (lg, s)
     else case sp_thread_pool sp 8192 2 s of None \<Rightarrow> (lg, s)
     | Some s1 \<Rightarrow> (case sp_file_sink sp (log_dir @ ''/hft.log'') (100 * 1024 * 1024) 7 level s1 of None \<Rightarrow> (lg, s1)
       | Some file_sink \<Rightarrow>
         let lg1 = lg\<lparr>lg_sinks := lg_sinks lg @ [file_sink]\<rparr>;
             lg2 = (case console of None \<Rightarrow> lg1 | Some c \<Rightarrow> lg1\<lparr>lg_sinks := lg_sinks lg1 @ [c]\<rparr>);
             default_logger = \<lparr>lo_name = ''hft'', lo_sinks = lg_sinks lg2, lo_level = level\<rparr>
         in case sp_register sp default_logger s1 of None \<Rightarrow> (lg2, s1)
            | Some s2 \<Rightarrow> (lg2\<lparr>lg_initialized := True\<rparr>, sp_set_default sp default_logger s2)))"

definition logger_get :: "('s, 'k) spdlog \<Rightarrow> string \<Rightarrow> 'k logger \<times> 's \<Rightarrow> 's \<times> 'k log_object" where
  "logger_get sp name st = (case st of (lg, s) \<Rightarrow>
     case sp_get sp name s of Some l \<Rightarrow> (s, l)
     | None \<Rightarrow>
       if \<not> lg_initialized lg \<or> lg_sinks lg = [] then (s, sp_default sp s)
       else let new_logger = \<lparr>lo_name = name, lo_sinks = lg_sinks lg, lo_level = lo_level (sp_default sp s)\<rparr>
            in case sp_register sp new_logger s of None \<Rightarrow> (s, sp_default sp s) | Some s1 \<Rightarrow> (s1, new_logger))"

subsection \<open>What they promise\<close>

lemma spdlog_soundD:
  assumes "spdlog_sound sp"
  shows "(sp_register sp l s = None) = (sp_get sp (lo_name l) s \<noteq> None)"
    and "sp_register sp l s = Some s' \<Longrightarrow> sp_get sp n s' = (if n = lo_name l then Some l else sp_get sp n s)"
    and "sp_register sp l s = Some s' \<Longrightarrow> sp_default sp s' = sp_default sp s"
    and "sp_default sp (sp_set_default sp l s) = l"
    and "sp_get sp n (sp_set_default sp l s) = (if n = lo_name l then Some l else sp_get sp n s)"
    and "sp_thread_pool sp a b s = Some s' \<Longrightarrow> sp_get sp n s' = sp_get sp n s"
  using assms unfolding spdlog_sound_def by simp_all

lemma spdlog_register:
  assumes "spdlog_sound sp" and "sp_get sp (lo_name l) s = None"
  obtains s' where "sp_register sp l s = Some s'"
  using spdlog_soundD(1) [OF assms(1), where l = l and s = s] assms(2) by auto

text \<open>After an initialisation: the sinks, the registry and the default.\<close>

definition logger_ready :: "('s, 'k) spdlog \<Rightarrow> 'k list \<Rightarrow> log_level \<Rightarrow> 'k logger \<times> 's \<Rightarrow> bool" where
  "logger_ready sp sinks level st \<longleftrightarrow> lg_initialized (fst st) \<and> lg_sinks (fst st) = sinks \<and> sinks \<noteq> []
     \<and> sp_default sp (snd st) = \<lparr>lo_name = ''hft'', lo_sinks = sinks, lo_level = level\<rparr>"

lemma logger_init_ready:
  assumes "spdlog_sound sp" and "sp_get sp ''hft'' s = None" and "sp_directories sp dir s"
    and "sp_thread_pool sp 8192 2 s = Some s1" and "sp_file_sink sp (dir @ ''/hft.log'') (100 * 1024 * 1024) 7 level s1 = Some k"
  shows "\<exists>s2. logger_init sp console dir level (logger_new, s) = (\<lparr>lg_initialized = True, lg_sinks = k # (case console of None \<Rightarrow> [] | Some c \<Rightarrow> [c])\<rparr>, s2)
    \<and> logger_ready sp (k # (case console of None \<Rightarrow> [] | Some c \<Rightarrow> [c])) level (logger_init sp console dir level (logger_new, s))
    \<and> (\<forall>n. n \<noteq> ''hft'' \<longrightarrow> sp_get sp n s2 = sp_get sp n s)"
proof -
  let ?ks = "k # (case console of None \<Rightarrow> [] | Some c \<Rightarrow> [c])"
  let ?l = "\<lparr>lo_name = ''hft'', lo_sinks = ?ks, lo_level = level\<rparr>"
  have s1: "sp_get sp n s1 = sp_get sp n s" for n by (rule spdlog_soundD(6) [OF assms(1,4)])
  then have "sp_get sp (lo_name ?l) s1 = None" using assms(2) by simp
  then obtain s2 where r: "sp_register sp ?l s1 = Some s2" by (rule spdlog_register [OF assms(1)])
  note d = spdlog_soundD(2) [OF assms(1) r] spdlog_soundD(4,5) [OF assms(1), where l = ?l and s = s2]
  have "logger_init sp console dir level (logger_new, s) = (\<lparr>lg_initialized = True, lg_sinks = ?ks\<rparr>, sp_set_default sp ?l s2)"
    using assms(3-5) r by (cases console) (simp_all add: logger_init_def logger_new_def)
  then show ?thesis using d s1 by (simp add: logger_ready_def)
qed

lemma logger_init_once: "lg_initialized (fst st) \<Longrightarrow> logger_init sp console dir level st = st"
  by (cases st) (simp add: logger_init_def)

text \<open>
  A named logger of an initialised system has the sinks and the level of the initialisation, and a
  second call finds the same one.
\<close>

theorem named_logger:
  assumes "spdlog_sound sp" and "logger_ready sp sinks level (lg, s)" and "sp_get sp name s = None"
  shows "\<exists>s1. logger_get sp name (lg, s) = (s1, \<lparr>lo_name = name, lo_sinks = sinks, lo_level = level\<rparr>)
    \<and> logger_get sp name (lg, s1) = (s1, \<lparr>lo_name = name, lo_sinks = sinks, lo_level = level\<rparr>)
    \<and> logger_ready sp sinks level (lg, s1)"
proof -
  let ?l = "\<lparr>lo_name = name, lo_sinks = sinks, lo_level = level\<rparr>"
  have "sp_get sp (lo_name ?l) s = None" using assms(3) by simp
  then obtain s1 where r: "sp_register sp ?l s = Some s1" by (rule spdlog_register [OF assms(1)])
  have g: "sp_get sp name s1 = Some ?l" "sp_default sp s1 = sp_default sp s"
    using spdlog_soundD(2,3) [OF assms(1) r] by simp_all
  have "logger_get sp name (lg, s) = (s1, ?l)" using assms(2,3) r by (simp add: logger_get_def logger_ready_def)
  moreover have "logger_get sp name (lg, s1) = (s1, ?l)" using g(1) by (simp add: logger_get_def)
  ultimately show ?thesis using assms(2) g(2) by (simp add: logger_ready_def)
qed

text \<open>Before the initialisation a logger is the default one, and nothing is created.\<close>

lemma logger_get_uninitialized:
  "\<not> lg_initialized lg \<Longrightarrow> sp_get sp name s = None \<Longrightarrow> logger_get sp name (lg, s) = (s, sp_default sp s)"
  by (simp add: logger_get_def)

text \<open>
  An initialisation that fails at the registration keeps the sink it has pushed: each further attempt
  adds one more sink on the same file.
\<close>

lemma failed_init_keeps_sink:
  assumes "spdlog_sound sp" and "sp_get sp ''hft'' s \<noteq> None" and "sp_directories sp dir s"
    and "sp_thread_pool sp 8192 2 s = Some s1" and "sp_file_sink sp (dir @ ''/hft.log'') (100 * 1024 * 1024) 7 level s1 = Some k"
    and "\<not> lg_initialized lg"
  shows "logger_init sp None dir level (lg, s) = (lg\<lparr>lg_sinks := lg_sinks lg @ [k]\<rparr>, s1)"
proof -
  have "sp_get sp ''hft'' s1 \<noteq> None" using assms(2) spdlog_soundD(6) [OF assms(1,4)] by simp
  then have "sp_register sp \<lparr>lo_name = ''hft'', lo_sinks = ks, lo_level = level\<rparr> s1 = None" for ks
    using spdlog_soundD(1) [OF assms(1)] by simp
  then show ?thesis using assms(3-6) by (simp add: logger_init_def)
qed

subsection \<open>A library\<close>

definition sample_spdlog :: "(((string \<rightharpoonup> nat log_object) \<times> nat log_object), nat) spdlog" where
  "sample_spdlog = \<lparr>sp_directories = (\<lambda>_ _. True), sp_thread_pool = (\<lambda>_ _ s. Some s), sp_file_sink = (\<lambda>_ _ _ _ _. Some 1),
     sp_get = (\<lambda>n s. fst s n), sp_register = (\<lambda>l s. if fst s (lo_name l) = None then Some ((fst s)(lo_name l \<mapsto> l), snd s) else None),
     sp_default = snd, sp_set_default = (\<lambda>l s. ((fst s)(lo_name l \<mapsto> l), l))\<rparr>"

lemma sample_spdlog_sound: "spdlog_sound sample_spdlog"
  by (auto simp: spdlog_sound_def sample_spdlog_def split: if_splits)

theorem named_logger_witness:
  "\<exists>st s1. st = logger_init sample_spdlog None ''/tmp'' Log_info (logger_new, (Map.empty, \<lparr>lo_name = [], lo_sinks = [], lo_level = Log_warn\<rparr>))
     \<and> logger_get sample_spdlog ''oms'' st = (s1, \<lparr>lo_name = ''oms'', lo_sinks = [1], lo_level = Log_info\<rparr>)"
proof -
  let ?s = "(Map.empty, \<lparr>lo_name = [], lo_sinks = [], lo_level = Log_warn\<rparr>) :: (string \<rightharpoonup> nat log_object) \<times> nat log_object"
  have p: "sp_get sample_spdlog n ?s = None" "sp_directories sample_spdlog ''/tmp'' ?s" "sp_thread_pool sample_spdlog 8192 2 ?s = Some ?s"
    "sp_file_sink sample_spdlog (''/tmp'' @ ''/hft.log'') (100 * 1024 * 1024) 7 Log_info ?s = Some 1" for n
    by (simp_all add: sample_spdlog_def)
  obtain s2 where s2: "logger_init sample_spdlog None ''/tmp'' Log_info (logger_new, ?s) = (\<lparr>lg_initialized = True, lg_sinks = [1]\<rparr>, s2)"
    "logger_ready sample_spdlog [1] Log_info (\<lparr>lg_initialized = True, lg_sinks = [1]\<rparr>, s2)" "sp_get sample_spdlog ''oms'' s2 = None"
    using logger_init_ready [OF sample_spdlog_sound p, of None] p(1) by auto
  from named_logger [OF sample_spdlog_sound s2(2,3)] s2(1) show ?thesis by auto
qed

end
