(* ===== verification/Ledger.thy ===== *)
theory Ledger
  imports Capacity
begin

text \<open>
  What the trading process promises, without its threads: a ledger that takes orders in, fills them one
  by one in their order and settles the fills in the same order.  Every step of the process of
  \<open>Pipeline\<close> is one step of the ledger or none, in runs that lose nothing.
\<close>

subsection \<open>The specification\<close>

record ledger =
  ld_orders :: "(u64 \<times> OrderRequest) list"
  ld_filled :: nat
  ld_settled :: nat

definition ledger_new :: ledger where
  "ledger_new = \<lparr>ld_orders = [], ld_filled = 0, ld_settled = 0\<rparr>"

inductive ledger_step :: "ledger \<Rightarrow> ledger \<Rightarrow> bool" where
  take_order: "oid \<notin> fst ` set (ld_orders l) \<Longrightarrow> ledger_step l (l\<lparr>ld_orders := ld_orders l @ [(oid, r)]\<rparr>)"
| fill_next: "ld_filled l < length (fillable (ld_orders l)) \<Longrightarrow> ledger_step l (l\<lparr>ld_filled := ld_filled l + 1\<rparr>)"
| settle_next: "ld_settled l < ld_filled l \<Longrightarrow> ledger_step l (l\<lparr>ld_settled := ld_settled l + 1\<rparr>)"

inductive_cases ledger_stepE: "ledger_step l l'"

text \<open>The fills that a ledger has settled, by what they say; and the net position they amount to.\<close>

definition ledger_fills :: "ledger \<Rightarrow> (u64 \<times> InstrumentId \<times> Side \<times> Price \<times> Qty \<times> Qty) list" where
  "ledger_fills l = map order_key (take (ld_settled l) (fillable (ld_orders l)))"

definition ledger_net :: "ledger \<Rightarrow> InstrumentId \<Rightarrow> int" where
  "ledger_net l ident = (\<Sum>e\<leftarrow>take (ld_settled l) (fillable (ld_orders l)).
     if req_instrument_id (snd e) = ident then signed_qty (req_side (snd e)) (req_qty (snd e)) else 0)"

definition ledger_ok :: "ledger \<Rightarrow> bool" where
  "ledger_ok l \<longleftrightarrow> distinct (map fst (ld_orders l)) \<and> ld_settled l \<le> ld_filled l \<and> ld_filled l \<le> length (fillable (ld_orders l))"

lemma ledger_ok_step: "ledger_step l l' \<Longrightarrow> ledger_ok l \<Longrightarrow> ledger_ok l'"
  by (erule ledger_stepE) (auto simp: ledger_ok_def)

lemma ledger_ok_run: "ledger_step\<^sup>*\<^sup>* ledger_new l \<Longrightarrow> ledger_ok l"
proof (induction rule: rtranclp_induct)
  case base
  then show ?case by (simp add: ledger_ok_def ledger_new_def)
qed (rule ledger_ok_step)

subsection \<open>The ledger of a state of the process\<close>

definition ledger_of :: "trading \<Rightarrow> ledger" where
  "ledger_of s = \<lparr>ld_orders = tr_accepted s, ld_filled = length (tr_booked s), ld_settled = length (tr_applied s)\<rparr>"

text \<open>What a step does to the three ghosts.\<close>

lemma trading_step_ghosts:
  assumes "trading_step s s'"
  shows "(tr_accepted s' = tr_accepted s \<and> tr_booked s' = tr_booked s \<and> tr_applied s' = tr_applied s)
    \<or> (\<exists>r. tr_accepted s' = tr_accepted s @ [(om_next_order_id (tr_oms s), r)] \<and> tr_booked s' = tr_booked s \<and> tr_applied s' = tr_applied s)
    \<or> (\<exists>f. tr_accepted s' = tr_accepted s \<and> tr_booked s' = tr_booked s @ [f] \<and> tr_applied s' = tr_applied s)
    \<or> (\<exists>f. tr_accepted s' = tr_accepted s \<and> tr_booked s' = tr_booked s \<and> tr_applied s' = tr_applied s @ [f])"
  using assms
proof cases
  case (step_oms t)
  then have "tr_booked s' = tr_booked s" "tr_applied s' = tr_applied s"
    by (cases "tr_oms_pc s"; auto simp: oms_iter_def rbind_Inr_iff Let_def case_prod_beta split: option.splits)+
  moreover have "tr_accepted s' = tr_accepted s \<or> (\<exists>r. tr_accepted s' = tr_accepted s @ [(om_next_order_id (tr_oms s), r)])"
  proof (cases "tr_oms_pc s")
    case (O_Checked q)
    then have "\<exists>x. oms_submit t q (tr_oms s) = Inr x \<and> s\<lparr>tr_oms := fst x, tr_oms_pc := O_Submitted q (snd x),
        tr_accepted := (if snd x = None then tr_accepted s else tr_accepted s @ [(om_next_order_id (tr_oms s), q)]),
        tr_lost := tr_lost s \<or> snd x = None\<rparr> = s'"
      using step_oms by (simp add: oms_iter_def rbind_Inr_iff case_prod_beta del: split_paired_Ex)
    then have "\<exists>x. tr_accepted s' = (if snd x = None then tr_accepted s else tr_accepted s @ [(om_next_order_id (tr_oms s), q)])"
      by fastforce
    then obtain x where "tr_accepted s' = (if snd x = None then tr_accepted s else tr_accepted s @ [(om_next_order_id (tr_oms s), q)])" ..
    then show ?thesis by (cases "snd x = None") simp_all
  qed (use step_oms in \<open>auto simp: oms_iter_def rbind_Inr_iff Let_def case_prod_beta split: option.splits\<close>)
  ultimately show ?thesis by blast
next
  case step_gw
  then have "tr_accepted s' = tr_accepted s" "tr_applied s' = tr_applied s"
    by (cases "tr_gw_pc s"; auto simp: gw_iter_def rbind_Inr_iff Let_def case_prod_beta split: option.splits)+
  moreover have "tr_booked s' = tr_booked s \<or> (\<exists>f. tr_booked s' = tr_booked s @ [f])"
  proof (cases "tr_gw_pc s")
    case (G_Fill c f)
    then have "\<exists>x. oms_on_fill f (tr_oms s) = Inr x \<and> s\<lparr>tr_oms := fst x, tr_gw_pc := G_Filled c f,
        tr_booked := (if snd x then tr_booked s @ [f] else tr_booked s),
        tr_lost := tr_lost s \<or> (snd x \<and> length (ft_pending (om_tracker (tr_oms s))) \<ge> FILL_QUEUE)\<rparr> = s'"
      using step_gw by (simp add: gw_iter_def rbind_Inr_iff case_prod_beta del: split_paired_Ex)
    then have "\<exists>x. tr_booked s' = (if snd x then tr_booked s @ [f] else tr_booked s)" by fastforce
    then obtain x where "tr_booked s' = (if snd x then tr_booked s @ [f] else tr_booked s)" ..
    then show ?thesis by (cases "snd x") simp_all
  qed (use step_gw in \<open>auto simp: gw_iter_def rbind_Inr_iff Let_def case_prod_beta split: option.splits\<close>)
  ultimately show ?thesis by blast
next
  case step_pos
  then show ?thesis by (simp add: pos_iter_def Let_def case_prod_beta split: pos_pc.split option.split)
qed (auto simp: md_bbo_def md_depth_def rbind_Inr_iff strategy_iter_def Let_def case_prod_beta split: strategy_pc.splits option.splits)

text \<open>What the invariant of the threads says of the ledger.\<close>

lemma pipe_inv_ledger:
  assumes "pipe_inv s D C Q P"
  shows "map booked_key (tr_booked s) = map order_key (take (length (tr_booked s)) (fillable (tr_accepted s)))"
    and "length (tr_booked s) \<le> length (fillable (tr_accepted s))"
    and "tr_applied s = take (length (tr_applied s)) (tr_booked s)" and "length (tr_applied s) \<le> length (tr_booked s)"
proof -
  note i = pipe_invD [OF assms]
  have "\<exists>rest. D @ booked_of (tr_gw_pc s) C @ rest = tr_accepted s"
    unfolding i(1) by (cases "tr_gw_pc s") auto
  then obtain rest where "tr_accepted s = (D @ booked_of (tr_gw_pc s) C) @ rest" by (metis append.assoc)
  then have f: "fillable (tr_accepted s) = fillable (D @ booked_of (tr_gw_pc s) C) @ fillable rest" by simp
  have l: "length (tr_booked s) = length (fillable (D @ booked_of (tr_gw_pc s) C))"
    using arg_cong [OF i(8), of length] by simp
  show "map booked_key (tr_booked s) = map order_key (take (length (tr_booked s)) (fillable (tr_accepted s)))"
    using i(8) l unfolding f by simp
  show "length (tr_booked s) \<le> length (fillable (tr_accepted s))" using l unfolding f by simp
  show a: "tr_applied s = take (length (tr_applied s)) (tr_booked s)" using i(10) by (metis append_eq_conv_conj)
  show "length (tr_applied s) \<le> length (tr_booked s)" using arg_cong [OF a, of length] by simp
qed

text \<open>The identifiers are the numbers from 1 on.\<close>

lemma accepted_ids:
  assumes "trading_reachable (trading_new now cf rw) s" and "memory_ok rw" and "0 \<le> cf_max_net_qty cf" and "cf_max_net_qty cf < 2 ^ 63"
    and "\<not> tr_lost s" and "length (tr_accepted s) < 2 ^ 64 - 2"
  shows "map (\<lambda>e. unat (fst e)) (tr_accepted s) = [1..<Suc (length (tr_accepted s))]"
  using assms(1,5,6)
proof induction
  case start
  then show ?case by (simp add: trading_new_def)
next
  case (more s s')
  have keep: "\<not> tr_lost s" "length (tr_accepted s) < 2 ^ 64 - 2"
    using trading_step_mono [OF more.hyps(2)] more.prems by auto
  obtain D C Q P where inv: "pipe_inv s D C Q P" using trading_reachable_inv [OF more.hyps(1) assms(2-4) keep] by blast
  have n: "unat (om_next_order_id (tr_oms s)) = Suc (length (tr_accepted s))" using pipe_invD(12) [OF inv] by simp
  from trading_step_ghosts [OF more.hyps(2)] consider "tr_accepted s' = tr_accepted s"
    | r where "tr_accepted s' = tr_accepted s @ [(om_next_order_id (tr_oms s), r)]" by blast
  then show ?case using more.IH [OF keep] n by cases (simp_all del: upt_Suc add: upt_Suc_append)
qed

lemma next_id_fresh:
  assumes "map (\<lambda>e. unat (fst e)) L = [1..<Suc (length L)]" and "unat oid = Suc (length L)"
  shows "oid \<notin> fst ` set L"
proof
  assume "oid \<in> fst ` set L"
  then have "unat oid \<in> set (map (\<lambda>e. unat (fst e)) L)" by force
  with assms show False by simp
qed

subsection \<open>Refinement\<close>

lemma ledger_simulation:
  assumes "trading_reachable (trading_new now cf rw) s" and "trading_step s s'"
    and "memory_ok rw" and "0 \<le> cf_max_net_qty cf" and "cf_max_net_qty cf < 2 ^ 63"
    and "\<not> tr_lost s'" and "length (tr_accepted s') < 2 ^ 64 - 2"
  shows "ledger_step\<^sup>=\<^sup>= (ledger_of s) (ledger_of s')"
proof -
  have keep: "\<not> tr_lost s" "length (tr_accepted s) < 2 ^ 64 - 2"
    using trading_step_mono [OF assms(2)] assms(6,7) by auto
  obtain D C Q P where inv: "pipe_inv s D C Q P" using trading_reachable_inv [OF assms(1,3-5) keep] by blast
  obtain D' C' Q' P' where inv': "pipe_inv s' D' C' Q' P'"
    using trading_reachable_inv [OF more [OF assms(1,2)] assms(3-7)] by blast
  have fresh: "om_next_order_id (tr_oms s) \<notin> fst ` set (ld_orders (ledger_of s))"
    using next_id_fresh [OF accepted_ids [OF assms(1,3-5) keep], of "om_next_order_id (tr_oms s)"] pipe_invD(12) [OF inv]
    by (simp add: ledger_of_def)
  note l = pipe_inv_ledger(2,4) [OF inv']
  from trading_step_ghosts [OF assms(2)] show ?thesis
  proof (elim disjE exE conjE)
    fix r
    assume "tr_accepted s' = tr_accepted s @ [(om_next_order_id (tr_oms s), r)]" "tr_booked s' = tr_booked s" "tr_applied s' = tr_applied s"
    then show ?thesis using take_order [OF fresh, of r] by (simp add: ledger_of_def)
  next
    fix f
    assume f: "tr_accepted s' = tr_accepted s" "tr_booked s' = tr_booked s @ [f]" "tr_applied s' = tr_applied s"
    then have "ld_filled (ledger_of s) < length (fillable (ld_orders (ledger_of s)))" using l by (simp add: ledger_of_def)
    from fill_next [OF this] f show ?thesis by (simp add: ledger_of_def)
  next
    fix f
    assume f: "tr_accepted s' = tr_accepted s" "tr_booked s' = tr_booked s" "tr_applied s' = tr_applied s @ [f]"
    then have "ld_settled (ledger_of s) < ld_filled (ledger_of s)" using l by (simp add: ledger_of_def)
    from settle_next [OF this] f show ?thesis by (simp add: ledger_of_def)
  qed (simp add: ledger_of_def)
qed

lemma ledger_reached:
  assumes "trading_reachable (trading_new now cf rw) s" and "memory_ok rw" and "0 \<le> cf_max_net_qty cf" and "cf_max_net_qty cf < 2 ^ 63"
    and "\<not> tr_lost s" and "length (tr_accepted s) < 2 ^ 64 - 2"
  shows "ledger_step\<^sup>*\<^sup>* ledger_new (ledger_of s)"
  using assms(1,5,6)
proof induction
  case start
  then show ?case by (simp add: ledger_new_def ledger_of_def trading_new_def)
next
  case (more s s')
  then have "ledger_step\<^sup>*\<^sup>* ledger_new (ledger_of s)" using trading_step_mono [OF more.hyps(2)] by auto
  then show ?case using ledger_simulation [OF more.hyps assms(2-4) more.prems] by (auto intro: rtranclp.rtrancl_into_rtrancl)
qed

lemma ledger_positions:
  assumes "pipe_inv s D C Q P"
  shows "map booked_key (tr_applied s) = ledger_fills (ledger_of s)"
    and "unat ident < MAX_INSTRUMENTS \<Longrightarrow> get_net_qty (tr_positions s) ident = i64 (ledger_net (ledger_of s) ident)"
proof -
  note l = pipe_inv_ledger [OF assms]
  let ?n = "length (tr_applied s)" and ?F = "fillable (tr_accepted s)"
  have "map booked_key (tr_applied s) = take ?n (map booked_key (tr_booked s))" using l(3) by (metis take_map)
  also have "\<dots> = map order_key (take ?n ?F)" unfolding l(1) using l(4) by (simp add: take_map min_absorb1)
  finally show k: "map booked_key (tr_applied s) = ledger_fills (ledger_of s)" by (simp add: ledger_fills_def ledger_of_def)
  let ?w = "\<lambda>k. if fst (snd k) = ident then signed_qty (fst (snd (snd k))) (fst (snd (snd (snd (snd k))))) else 0"
  have "(\<Sum>f\<leftarrow>filter (\<lambda>f. fe_instrument_id f = ident) fs. signed_qty (fe_side f) (fe_fill_qty f)) = (\<Sum>k\<leftarrow>map booked_key fs. ?w k)" for fs
    by (induction fs) (simp_all add: booked_key_def fill_key_def)
  moreover have "(\<Sum>e\<leftarrow>es. if req_instrument_id (snd e) = ident then signed_qty (req_side (snd e)) (req_qty (snd e)) else 0)
      = (\<Sum>k\<leftarrow>map order_key es. ?w k)" for es :: "(u64 \<times> OrderRequest) list"
    by (induction es) (simp_all add: order_key_def req_key_def)
  ultimately have "(\<Sum>f\<leftarrow>filter (\<lambda>f. fe_instrument_id f = ident) (tr_applied s). signed_qty (fe_side f) (fe_fill_qty f))
      = ledger_net (ledger_of s) ident"
    using k by (simp only: ledger_net_def ledger_fills_def)
  then show "unat ident < MAX_INSTRUMENTS \<Longrightarrow> get_net_qty (tr_positions s) ident = i64 (ledger_net (ledger_of s) ident)"
    using pipe_invD(11) [OF assms] by (simp add: get_net_qty_def pm_fold_slot fold_slot_net pm_new_def slot0_def in_i64_def)
qed

text \<open>
  Claim C2.  The process refines the ledger, as long as nothing is lost (no queue between the threads
  overflows and the order pool is not exhausted; this is so up to 1024 accepted orders at least): along
  every such run, whatever its interleaving, each step of a thread is one step of the ledger or leaves it
  as it is; so the states of the process show ledgers in which every order has its own identifier, orders
  are filled in the order they came and each once, and fills are settled in that order; and what the
  position manager holds for an instrument is the net quantity of the ledger's settled orders.
\<close>

theorem trading_refines_ledger:
  assumes "trading_reachable (trading_new now cf rw) s" and "trading_step s s'"
    and "memory_ok rw" and "0 \<le> cf_max_net_qty cf" and "cf_max_net_qty cf < 2 ^ 63"
    and "\<not> tr_lost s' \<or> length (tr_accepted s') \<le> 1024" and "length (tr_accepted s') < 2 ^ 64 - 2" and "unat ident < MAX_INSTRUMENTS"
  shows "ledger_step\<^sup>=\<^sup>= (ledger_of s) (ledger_of s') \<and> ledger_step\<^sup>*\<^sup>* ledger_new (ledger_of s') \<and> ledger_ok (ledger_of s')
    \<and> map booked_key (tr_applied s') = ledger_fills (ledger_of s')
    \<and> get_net_qty (tr_positions s') ident = i64 (ledger_net (ledger_of s') ident)"
proof -
  have r: "trading_reachable (trading_new now cf rw) s'" by (rule more [OF assms(1,2)])
  note keep = kept_or_few [OF r assms(3-6)]
  obtain D C Q P where inv: "pipe_inv s' D C Q P" using trading_reachable_inv [OF r assms(3-5) keep assms(7)] by blast
  note run = ledger_reached [OF r assms(3-5) keep assms(7)]
  show ?thesis
    using ledger_simulation [OF assms(1-5) keep assms(7)] run ledger_ok_run [OF run] ledger_positions(1) [OF inv]
      ledger_positions(2) [OF inv assms(8)] by blast
qed

theorem trading_refines_ledger_witness:
  "\<exists>s oid. ledger_step\<^sup>*\<^sup>* ledger_new (ledger_of s) \<and> ld_orders (ledger_of s) = [(oid, sample_order)]
     \<and> ledger_fills (ledger_of s) = [(oid, 7, BUY, 1001, 10, 0)] \<and> get_net_qty (tr_positions s) 7 = i64 (ledger_net (ledger_of s) 7)"
proof -
  obtain s oid f where s: "trading_reachable sample_process s" "pipeline_idle s" "\<not> tr_lost s" "tr_accepted s = [(oid, sample_order)]"
    using sample_filled by blast
  let ?s = "strategy_iter s"
  have same: "tr_accepted ?s = tr_accepted s" "tr_lost ?s = tr_lost s" "tr_applied ?s = tr_applied s"
    by (simp_all add: strategy_iter_def Let_def case_prod_beta split: strategy_pc.split option.split)
  have l: "\<not> tr_lost ?s" "length (tr_accepted ?s) < 2 ^ 64 - 2" "length (tr_accepted s) < 2 ^ 64 - 2"
    unfolding same using s(3,4) by simp_all
  have i: "unat (7 :: u32) < MAX_INSTRUMENTS" by (simp add: MAX_INSTRUMENTS_def)
  obtain D C Q P where inv: "pipe_inv s D C Q P"
    using trading_reachable_inv [OF s(1) sample_settings_ok(1-3) s(3) l(3)] by blast
  have "map booked_key (tr_applied s) = [(oid, 7, BUY, 1001, 10, 0)]"
    unfolding pipeline_idle_inv(4) [OF inv s(2)] s(4) using req_qty_sample by (simp add: fillable_def)
  then show ?thesis
    using trading_refines_ledger [OF s(1) step_strategy sample_settings_ok(1-3) disjI1 [OF l(1)] l(2) i] same s(4)
    by (intro exI [of _ ?s] exI [of _ oid]) (simp add: ledger_of_def)
qed

end
