(* ===== verification/Replay_Live.thy ===== *)
theory Replay_Live
  imports End_To_End Feed_Thread
begin

text \<open>
  The two sources of market data of \<^verbatim>\<open>src/main.cpp\<close> against each other: the replay of a capture, with
  the callbacks main registers with the replayer, and the live feed that receives the same payloads at
  the times the capture records.
\<close>

subsection \<open>The replay in front of the process\<close>

text \<open>The replayer as main constructs it; \<open>buf\<close> is the packet buffer, which is not initialised.\<close>

definition main_replayer :: "bytes \<Rightarrow> pcap" where
  "main_replayer buf = \<lparr>pr_exchange = INTERNAL, pr_nano_ts = False, pr_swap_endian = False, pr_pkt_buf = buf,
     pr_has_bbo_cb = True, pr_has_depth_cb = True, pr_log = [], pr_pkts_replayed = 0, pr_msgs_replayed = 0,
     pr_parse_errors = 0\<rparr>"

primrec replay_callback :: "pcap_event \<Rightarrow> trading \<Rightarrow> book_fault + trading" where
  "replay_callback (Ev_bbo e) s = Inr (md_bbo e s)"
| "replay_callback (Ev_depth d) s = md_depth d s"

primrec replay_callbacks :: "pcap_event list \<Rightarrow> trading \<Rightarrow> book_fault + trading" where
  "replay_callbacks [] s = Inr s"
| "replay_callbacks (ev # evs) s = rbind (replay_callback ev s) (replay_callbacks evs)"

text \<open>The thread in replay mode: the count it stores, and what its callbacks do to the process.\<close>

definition process_replay :: "bytes option \<Rightarrow> bytes \<Rightarrow> trading \<Rightarrow> u64 option \<times> (book_fault + trading)" where
  "process_replay file buf s = (let (p, stop, n) = md_replay file (main_replayer buf)
     in (n, replay_callbacks (pr_log p) s))"

text \<open>The live thread over a list of polls, each with its clock reading.\<close>

definition process_live :: "(u64 \<times> bytes list) list \<Rightarrow> feed \<times> trading \<Rightarrow> feed \<times> trading" where
  "process_live polls = fold (\<lambda>(ts, pkts). live_poll ts pkts) polls"

text \<open>Without a \<open>stop\<close> the replay ends with the file, after as many iterations as it has packets.\<close>

lemma replay_loop_unstopped:
  "(\<And>k. running k) \<Longrightarrow> i + length bs < m \<Longrightarrow> replay_loop running i bs p = replay_loop (\<lambda>k. k < m) i bs p"
proof (induction running i bs p rule: replay_loop.induct)
  case (1 running i bs p)
  note step = 1(1,2) and r = 1(3) and m = 1(4)
  show ?case
  proof (cases "length bs < 16")
    case True
    then show ?thesis using r by (subst (1 2) replay_loop.simps) simp
  next
    case False
    let ?ph = "load_pkt_header (pr_swap_endian p) bs" and ?body = "drop 16 bs"
    let ?n = "unat (ph_incl_len ?ph)"
    let ?p1 = "p\<lparr>pr_pkt_buf := take ?n ?body @ drop ?n (pr_pkt_buf p)\<rparr>"
    have l: "Suc i + length (drop ?n ?body) < m" using m False by simp
    have big: "replay_loop running (Suc i) (drop ?n ?body) p = replay_loop (\<lambda>k. k < m) (Suc i) (drop ?n ?body) p"
      if "?n > PKT_BUF_SIZE"
      by (rule step(1) [OF _ False refl refl refl that r l]) (simp add: r)
    have fit: "replay_loop running (Suc i) (drop ?n ?body) (replay_packet ?ph ?p1)
        = replay_loop (\<lambda>k. k < m) (Suc i) (drop ?n ?body) (replay_packet ?ph ?p1)"
      if "\<not> ?n > PKT_BUF_SIZE" "\<not> length ?body < ?n"
      by (rule step(2) [OF _ False refl refl refl that refl r l]) (simp add: r)
    have i: "i < m" using m by simp
    show ?thesis
      unfolding replay_loop.simps [of running i bs p] replay_loop.simps [of "\<lambda>k. k < m" i bs p]
      using r i False big fit by (simp add: Let_def)
  qed
qed

subsection \<open>Captures of one message per packet\<close>

text \<open>The packet carries the message behind its 42 bytes of headers, with less than a message of padding.\<close>

definition carries :: "wire_msg \<Rightarrow> capture_packet \<Rightarrow> bool" where
  "carries m c \<longleftrightarrow> (let payload = drop L2L3L4_OFFSET (cp_data c) in
     msg_ok m \<and> L2L3L4_OFFSET \<le> length (cp_data c) \<and> take (length (msg_bytes m)) payload = msg_bytes m
     \<and> length payload < length (msg_bytes m) + SIZEOF_BBO)"

definition poll_of :: "bool \<Rightarrow> capture_packet \<Rightarrow> u64 \<times> bytes list" where
  "poll_of nano c = (pkt_timestamp nano (cp_sec c) (cp_usec c), [drop L2L3L4_OFFSET (cp_data c)])"

primrec is_quote :: "wire_msg \<Rightarrow> bool" where
  "is_quote (Msg_bbo w) = True"
| "is_quote (Msg_depth w) = False"

lemma carries_payload:
  assumes "carries m c"
  obtains tl where "drop L2L3L4_OFFSET (cp_data c) = msg_bytes m @ tl" and "length tl < SIZEOF_BBO" and "msg_ok m"
    and "length (cp_data c) \<le> 42 + 180 + 52"
proof -
  let ?pl = "drop L2L3L4_OFFSET (cp_data c)"
  have a: "msg_ok m" "L2L3L4_OFFSET \<le> length (cp_data c)" "take (length (msg_bytes m)) ?pl = msg_bytes m"
    "length ?pl < length (msg_bytes m) + SIZEOF_BBO"
    using assms by (simp_all add: carries_def Let_def)
  have n: "length (msg_bytes m) \<le> 180" using a(1) by (cases m) (simp_all add: SIZEOF_BBO_def SIZEOF_DEPTH_def)
  have p: "?pl = msg_bytes m @ drop (length (msg_bytes m)) ?pl" using a(3) by (metis append_take_drop_id)
  have "length ?pl = length (msg_bytes m) + length (drop (length (msg_bytes m)) ?pl)" using arg_cong [OF p, of length] by simp
  with a(4) have "length (drop (length (msg_bytes m)) ?pl) < SIZEOF_BBO" by linarith
  moreover have "length (cp_data c) \<le> 42 + 180 + 52" using a(2,4) n by (simp add: L2L3L4_OFFSET_def SIZEOF_BBO_def)
  ultimately show thesis using that p a(1) by blast
qed

text \<open>What either source makes of such a packet.\<close>

lemma live_payload:
  assumes "carries m c"
  shows "packet_events ex ts (drop L2L3L4_OFFSET (cp_data c))
    = (case msg_event ex m of None \<Rightarrow> [] | Some e \<Rightarrow> [e\<lparr>local_ts_ns := ts\<rparr>])"
proof -
  obtain tl where p: "drop L2L3L4_OFFSET (cp_data c) = msg_bytes m @ tl" "length tl < SIZEOF_BBO" "msg_ok m"
    and l: "length (cp_data c) \<le> 42 + 180 + 52"
    using carries_payload [OF assms] .
  have "take MAX_PKT_BYTES (drop L2L3L4_OFFSET (cp_data c)) = drop L2L3L4_OFFSET (cp_data c)"
    using l by (simp add: MAX_PKT_BYTES_def)
  then show ?thesis using parse_batch_cons [OF p(3), of BATCH_SIZE ex tl] p(1,2)
    by (simp add: packet_events_def parse_batch_short BATCH_SIZE_def split: option.split)
qed

definition depth_event :: "u64 \<Rightarrow> WireDepth \<Rightarrow> DepthEvent option" where
  "depth_event ts w = (if wd_magic w = WIRE_MAGIC then Some (event_of_Depth w\<lparr>dep_ts_ns := ts\<rparr>) else None)"

lemma replay_payload:
  assumes "carries m c"
  shows "packet_event ex nano c = (let ts = pkt_timestamp nano (cp_sec c) (cp_usec c) in case m of
      Msg_bbo w \<Rightarrow> map_option (\<lambda>e. Ev_bbo (e\<lparr>local_ts_ns := ts\<rparr>)) (msg_event ex m)
    | Msg_depth w \<Rightarrow> map_option Ev_depth (depth_event ts w))"
proof -
  obtain tl where p: "drop L2L3L4_OFFSET (cp_data c) = msg_bytes m @ tl" "length tl < SIZEOF_BBO" "msg_ok m"
    using carries_payload [OF assms] .
  show ?thesis
  proof (cases m)
    case (Msg_bbo w)
    then have w: "wire_bbo_wf w" "is_bbo_type (wb_msg_type w)" "msg_ok (Msg_bbo w)" using p(3) by simp_all
    then have "is_bbo (bytes_of_BBO w @ tl)" by (simp add: is_bbo_def rd8_bytes_of_BBO)
    then show ?thesis using p(1) Msg_bbo parse_bbo_msg [OF w(3), of ex tl]
      by (simp add: packet_event_def payload_event_def)
  next
    case (Msg_depth w)
    then have w: "wire_depth_wf w" "wd_msg_type w = WIRE_DEPTH" using p(3) by simp_all
    then have "\<not> is_bbo (bytes_of_Depth w @ tl)" "is_depth (bytes_of_Depth w @ tl)"
      by (simp_all add: is_bbo_def is_depth_def rd8_bytes_of_Depth)
    then show ?thesis using p(1) Msg_depth w
      by (simp add: packet_event_def payload_event_def parse_depth_bytes depth_event_def Let_def)
  qed
qed

subsection \<open>The same process\<close>

lemma live_poll_one:
  "live_poll ts [pl] (f, s) = (recv_poll ts [pl] f, fold md_bbo (packet_events (fh_exchange f) ts pl) s)"
  by (simp add: live_poll_def live_packet_def live_delivers recv_poll_def process_packet_def packet_events_def Let_def)

lemma recv_poll_frame:
  "fh_exchange (recv_poll ts [pl] f) = fh_exchange f"
  "fh_rx_msgs (recv_poll ts [pl] f) = fh_rx_msgs f + of_nat (length (packet_events (fh_exchange f) ts pl))"
proof -
  have "fh_exchange (fold (fh_deliver ts) evs g) = fh_exchange g \<and> fh_rx_msgs (fold (fh_deliver ts) evs g) = fh_rx_msgs g" for evs g
    by (induction evs arbitrary: g) (simp_all add: fh_deliver_def Let_def case_prod_beta)
  then show "fh_exchange (recv_poll ts [pl] f) = fh_exchange f"
    "fh_rx_msgs (recv_poll ts [pl] f) = fh_rx_msgs f + of_nat (length (packet_events (fh_exchange f) ts pl))"
    by (simp_all add: recv_poll_def process_packet_def packet_events_def Let_def)
qed

lemma md_bbo_books: "md_bbo e (l\<lparr>tr_books := b\<rparr>) = md_bbo e l\<lparr>tr_books := bb_on_bbo e b\<rparr>"
  by (simp add: md_bbo_def)

text \<open>A depth message of the replay changes the books and nothing else, and never leaves an array.\<close>

lemma md_depth_books:
  assumes "bb_wf b" and "wire_depth_wf w" and "wd_msg_type w = WIRE_DEPTH" and "depth_event ts w = Some d"
  shows "\<exists>b'. md_depth d (l\<lparr>tr_books := b\<rparr>) = Inr (l\<lparr>tr_books := b'\<rparr>) \<and> bb_wf b'"
proof -
  let ?w = "w\<lparr>wd_exchange_ts_ns := ts\<rparr>"
  have d: "d = event_of_Depth ?w" and m: "wd_magic w = WIRE_MAGIC"
    using assms(4) by (auto simp: depth_event_def event_of_Depth_def Let_def split: if_splits)
  have "wire_depth_wf ?w" using assms(2) by (simp add: wire_depth_wf_def)
  then have "parse_depth INTERNAL (bytes_of_Depth ?w @ []) = Some d" using assms(3) m d by (subst parse_depth_bytes) simp_all
  from parsed_depth_applies [OF assms(1) this] show ?thesis by (auto simp: md_depth_def)
qed

text \<open>The events of the captured packets, for the replayer and for the feed.\<close>

lemma replay_matches_live:
  assumes "list_all2 carries ms cs" and "bb_wf b"
  shows "\<exists>f' l' b'. process_live (map (poll_of nano) cs) (f, l) = (f', l') \<and> bb_wf b'
    \<and> replay_callbacks (capture_events (fh_exchange f) nano cs) (l\<lparr>tr_books := b\<rparr>) = Inr (l'\<lparr>tr_books := b'\<rparr>)
    \<and> (list_all is_quote ms \<and> b = tr_books l \<longrightarrow> b' = tr_books l'
         \<and> fh_rx_msgs f' = fh_rx_msgs f + of_nat (length (capture_events (fh_exchange f) nano cs)))"
  using assms
proof (induction ms cs arbitrary: f l b rule: list_all2_induct)
  case Nil
  then show ?case
    by (intro exI [of _ f] exI [of _ l] exI [of _ b]) (simp add: process_live_def capture_events_def List.map_filter_simps)
next
  case (Cons m ms c cs)
  let ?ex = "fh_exchange f" and ?ts = "pkt_timestamp nano (cp_sec c) (cp_usec c)" and ?pl = "drop L2L3L4_OFFSET (cp_data c)"
  let ?f = "recv_poll ?ts [?pl] f" and ?l = "fold md_bbo (packet_events ?ex ?ts ?pl) l"
  have fit: "fits_buffer c" using carries_payload [OF Cons.hyps(1)] by (force simp: fits_buffer_def PKT_BUF_SIZE_def)
  have ok: "msg_ok m" using Cons.hyps(1) by (simp add: carries_def Let_def)
  have live: "process_live (map (poll_of nano) (c # cs)) (f, l) = process_live (map (poll_of nano) cs) (?f, ?l)"
    by (simp add: process_live_def poll_of_def live_poll_one)
  note e = live_payload [OF Cons.hyps(1), of ?ex ?ts]
  have "\<exists>b1. bb_wf b1 \<and> (case packet_event ?ex nano c of None \<Rightarrow> Inr (l\<lparr>tr_books := b\<rparr>)
        | Some ev \<Rightarrow> replay_callback ev (l\<lparr>tr_books := b\<rparr>)) = Inr (?l\<lparr>tr_books := b1\<rparr>)
      \<and> (is_quote m \<and> b = tr_books l \<longrightarrow> b1 = tr_books ?l)
      \<and> (is_quote m \<longrightarrow> length (packet_events ?ex ?ts ?pl) = (case packet_event ?ex nano c of None \<Rightarrow> 0 | Some ev \<Rightarrow> 1))"
  proof (cases m)
    case (Msg_bbo w)
    show ?thesis
    proof (cases "msg_event ?ex m")
      case None
      then show ?thesis using Cons.prems Msg_bbo
        unfolding e replay_payload [OF Cons.hyps(1)] Let_def by (intro exI [of _ b]) simp
    next
      case (Some q)
      then show ?thesis using bb_on_bbo_wf [OF Cons.prems] Msg_bbo unfolding e replay_payload [OF Cons.hyps(1)] Let_def
        by (intro exI [of _ "bb_on_bbo (q\<lparr>local_ts_ns := ?ts\<rparr>) b"]) (simp add: md_bbo_def)
    qed
  next
    case (Msg_depth w)
    then have w: "wire_depth_wf w" "wd_msg_type w = WIRE_DEPTH" using ok by simp_all
    show ?thesis
    proof (cases "depth_event ?ts w")
      case None
      then show ?thesis using Cons.prems Msg_depth unfolding e replay_payload [OF Cons.hyps(1)] Let_def by auto
    next
      case (Some d)
      then show ?thesis using md_depth_books [OF Cons.prems w Some, of l] Msg_depth
        unfolding e replay_payload [OF Cons.hyps(1)] Let_def by auto
    qed
  qed
  then obtain b1 where b1: "bb_wf b1" "(case packet_event ?ex nano c of None \<Rightarrow> Inr (l\<lparr>tr_books := b\<rparr>)
        | Some ev \<Rightarrow> replay_callback ev (l\<lparr>tr_books := b\<rparr>)) = Inr (?l\<lparr>tr_books := b1\<rparr>)"
      "is_quote m \<and> b = tr_books l \<longrightarrow> b1 = tr_books ?l"
      "is_quote m \<longrightarrow> length (packet_events ?ex ?ts ?pl) = (case packet_event ?ex nano c of None \<Rightarrow> 0 | Some ev \<Rightarrow> 1)" by blast
  from Cons.IH [OF b1(1), of ?f ?l] obtain f' l' b' where ih:
    "process_live (map (poll_of nano) cs) (?f, ?l) = (f', l')" "bb_wf b'"
    "replay_callbacks (capture_events ?ex nano cs) (?l\<lparr>tr_books := b1\<rparr>) = Inr (l'\<lparr>tr_books := b'\<rparr>)"
    "list_all is_quote ms \<and> b1 = tr_books ?l \<longrightarrow> b' = tr_books l'
       \<and> fh_rx_msgs f' = fh_rx_msgs ?f + of_nat (length (capture_events ?ex nano cs))"
    unfolding recv_poll_frame(1) by blast
  have r: "replay_callbacks (capture_events ?ex nano (c # cs)) (l\<lparr>tr_books := b\<rparr>) = Inr (l'\<lparr>tr_books := b'\<rparr>)"
    using b1(2) ih(3) fit by (cases "packet_event ?ex nano c") (simp_all add: capture_events_Cons)
  have n: "fh_rx_msgs f' = fh_rx_msgs f + of_nat (length (capture_events ?ex nano (c # cs)))"
    if "list_all is_quote (m # ms)" "b = tr_books l"
    using that ih(4) b1(3,4) fit recv_poll_frame(2) [of ?ts ?pl f]
    by (cases "packet_event ?ex nano c") (simp_all add: capture_events_Cons)
  show ?case using ih(1,2,4) b1(3) r n unfolding live by auto
qed

lemma trading_books_wf: "trading_reachable (trading_new now cf rw) s \<Longrightarrow> bb_wf (tr_books s)"
proof (induction rule: trading_reachable.induct)
  case start
  then show ?case by (simp add: trading_new_def bb_wf_def)
next
  case (more s s')
  from more.hyps(2) show ?case
  proof cases
    case (step_md_bbo e)
    then show ?thesis using bb_on_bbo_wf [OF more.IH] by (simp add: md_bbo_def)
  next
    case (step_md_depth e)
    obtain bs1 b where g: "get_or_create (dep_instrument_id e) (tr_books s) = (bs1, b)" by force
    obtain b' where d: "apply_depth e b = Inr b'" and s': "tr_books s' = bs1(dep_instrument_id e \<mapsto> b')"
      using step_md_depth g by (auto simp: md_depth_def bb_on_depth_def rbind_Inr_iff)
    note w = get_or_create_wf [OF more.IH g]
    have "ob_instrument_id b' = ob_instrument_id b"
      using d w(2) by (auto simp: apply_depth_eq Let_def split: if_splits)
    moreover have "ob_instrument_id b = dep_instrument_id e" using w(1,3) by (simp add: bb_wf_def)
    ultimately show ?thesis using apply_depth_wf [OF w(2) d] w more.IH s' by (auto simp: bb_wf_def)
  next
    case (step_oms t)
    then have "tr_books s' = tr_books s"
      by (cases "tr_oms_pc s"; auto simp: oms_iter_def rbind_Inr_iff Let_def case_prod_beta split: option.splits)
    then show ?thesis using more.IH by simp
  next
    case step_gw
    then have "tr_books s' = tr_books s"
      by (cases "tr_gw_pc s"; auto simp: gw_iter_def rbind_Inr_iff Let_def case_prod_beta split: option.splits)
    then show ?thesis using more.IH by simp
  qed (use more.IH in \<open>auto simp: strategy_iter_def pos_iter_def Let_def case_prod_beta split: strategy_pc.split pos_pc.split option.split\<close>)
qed

lemma list_all2_small:
  assumes "list_all2 carries ms cs"
  shows "list_all (\<lambda>c. length (cp_data c) < 2 ^ 32) cs"
  using assms
proof (induction rule: list_all2_induct)
  case (Cons m ms c cs)
  have "length (cp_data c) \<le> 42 + 180 + 52" using carries_payload [OF Cons.hyps(1)] by blast
  then show ?case using Cons.IH by simp
qed simp

text \<open>
  Claim C3.  Replaying a capture does to the process what receiving the same packets does.  For a capture
  in any of its three formats, whose packets carry one message each, started in any state of the process:
  the replay ends, its callbacks never fault, and it leaves the process as the live feed leaves it that
  polls the same payloads one by one with the capture's time stamps; strategy, requests and everything
  behind them are the same, and where the capture has no depth message, which the live feed drops, the books
  and the stored number of events are the same as well.
\<close>

theorem replay_is_live:
  assumes "trading_reachable (trading_new now cf rw) s" and "list_all2 carries ms cs"
    and "length hdr = 20" and "length tail < 16" and "length buf = PKT_BUF_SIZE"
    and "process_live (map (poll_of (fmt = Nanos)) cs) (feed_new INTERNAL mem cb, s) = (f', s')"
  shows "\<exists>n b. process_replay (Some (capture_bytes fmt hdr cs @ tail)) buf s = (Some n, Inr (s'\<lparr>tr_books := b\<rparr>))
    \<and> (list_all is_quote ms \<longrightarrow> b = tr_books s' \<and> n = fh_rx_msgs f')"
proof -
  let ?file = "concat (map (packet_bytes fmt) cs) @ tail"
  let ?p = "main_replayer buf\<lparr>pr_nano_ts := (fmt = Nanos), pr_swap_endian := (fmt = Micros_swapped)\<rparr>"
  let ?m = "Suc (length cs + length ?file)" and ?evs = "capture_events INTERNAL (fmt = Nanos) cs"
  define p' where "p' = replay_loop (\<lambda>k. k < ?m) 0 ?file ?p"
  have run: "pcap_replay (\<lambda>_. True) (Some (capture_bytes fmt hdr cs @ tail)) (main_replayer buf) = (p', True)"
    using replay_loop_unstopped [of "\<lambda>_. True" 0 ?file ?m ?p]
    by (simp add: pcap_replay_def pcap_open_capture [OF assms(3)] p'_def)
  have r: "replays ?p (length (filter fits_buffer (take (?m - 0) cs))) (capture_events (pr_exchange ?p) (pr_nano_ts ?p) (take (?m - 0) cs))
      (replay_loop (\<lambda>k. k < ?m) 0 ?file ?p)"
    by (rule replay_loop_replays [OF assms(4) list_all2_small [OF assms(2)]]) (simp_all add: main_replayer_def assms(5))
  have "wanted ?p = (\<lambda>_. True)" by (auto simp: wanted_def main_replayer_def fun_eq_iff split: pcap_event.split)
  then have log: "pr_log p' = ?evs" and n: "pr_msgs_replayed p' = of_nat (length ?evs)"
    using r unfolding p'_def [symmetric] by (simp_all add: replays_def main_replayer_def)
  have f: "fh_exchange (feed_new INTERNAL mem cb) = INTERNAL" "fh_rx_msgs (feed_new INTERNAL mem cb) = 0"
    by (simp_all add: feed_new_def)
  from replay_matches_live [OF assms(2) trading_books_wf [OF assms(1)], of "fmt = Nanos" "feed_new INTERNAL mem cb" s]
  obtain b where b: "replay_callbacks ?evs s = Inr (s'\<lparr>tr_books := b\<rparr>)"
    "list_all is_quote ms \<longrightarrow> b = tr_books s' \<and> fh_rx_msgs f' = of_nat (length ?evs)"
    unfolding assms(6) f by auto
  show ?thesis
    using b n by (intro exI [of _ "pr_msgs_replayed p'"] exI [of _ b]) (simp add: process_replay_def md_replay_def run log)
qed

lemma replay_is_live_witness:
  "process_replay (Some (capture_bytes Micros_swapped (replicate 20 0)
      [\<lparr>cp_sec = 2, cp_usec = 3, cp_orig = 94, cp_data = replicate 42 0 @ bytes_of_BBO sample_bbo\<rparr>] @ []))
      (replicate PKT_BUF_SIZE 0) sample_process
    = (Some 1, Inr (md_bbo (event_of_BBO sample_bbo\<lparr>local_ts_ns := 2000003000\<rparr>) sample_process))"
proof -
  let ?c = "\<lparr>cp_sec = 2, cp_usec = 3, cp_orig = 94, cp_data = replicate 42 0 @ bytes_of_BBO sample_bbo\<rparr>"
  let ?e = "event_of_BBO sample_bbo\<lparr>local_ts_ns := 2000003000\<rparr>"
  let ?f = "feed_new INTERNAL [] True"
  have n: "length (bytes_of_BBO sample_bbo) = 52" using length_bytes_of_BBO sample_ok(1) by (simp add: SIZEOF_BBO_def)
  have c: "carries (Msg_bbo sample_bbo) ?c" using sample_ok(1) n by (simp add: carries_def L2L3L4_OFFSET_def SIZEOF_BBO_def)
  have e: "packet_events INTERNAL 2000003000 (bytes_of_BBO sample_bbo) = [?e]"
    using live_payload [OF c, of INTERNAL 2000003000] by (simp add: L2L3L4_OFFSET_def sample_bbo_def)
  obtain f' s' where l: "process_live (map (poll_of (Micros_swapped = Nanos)) [?c]) (?f, sample_process) = (f', s')" by force
  have ts: "pkt_timestamp False 2 3 = 2000003000" by (simp add: pkt_timestamp_def)
  have s': "s' = md_bbo ?e sample_process" and f': "fh_rx_msgs f' = 1"
    using l e recv_poll_frame(2) [of 2000003000 "bytes_of_BBO sample_bbo" ?f]
    by (auto simp: process_live_def poll_of_def live_poll_one ts L2L3L4_OFFSET_def feed_new_def)
  from replay_is_live [OF start _ _ _ _ l, of "[Msg_bbo sample_bbo]" "replicate 20 0" "[]" "replicate PKT_BUF_SIZE 0"] c
  show ?thesis by (auto simp: s' f')
qed

end
