(* ===== verification/Shutdown.thy ===== *)
theory Shutdown
  imports Draining
begin

text \<open>
  How the process of \<^verbatim>\<open>src/main.cpp\<close> ends: the stop flag, the loops that read it before each iteration,
  and the joins.  Reading the flag is a step of its own, so a thread that has read it may still do one
  iteration while the flag is being set.
\<close>

subsection \<open>The process with its stop flag\<close>

record process =
  pc_state :: trading
  pc_stop :: bool
  pc_md_ended :: bool
  pc_checked :: "worker set"
  pc_ended :: "worker set"

definition process_new :: "trading \<Rightarrow> process" where
  "process_new s = \<lparr>pc_state = s, pc_stop = False, pc_md_ended = False, pc_checked = {}, pc_ended = {}\<rparr>"

fun at_head :: "worker \<Rightarrow> trading \<Rightarrow> bool" where
  "at_head W_strategy s \<longleftrightarrow> tr_strategy_pc s = S_Loop"
| "at_head W_oms s \<longleftrightarrow> tr_oms_pc s = O_Loop"
| "at_head W_gw s \<longleftrightarrow> tr_gw_pc s = G_Loop"
| "at_head W_pos s \<longleftrightarrow> tr_pos_pc s = X_Loop"

text \<open>One turn of a thread: the test of the loop, or a step of its body.\<close>

definition worker_turn :: "worker \<Rightarrow> Timestamp \<Rightarrow> process \<Rightarrow> pool_fault + process" where
  "worker_turn w now p =
     (if at_head w (pc_state p) \<and> w \<notin> pc_checked p
      then Inr (if pc_stop p then p\<lparr>pc_ended := insert w (pc_ended p)\<rparr>
                else p\<lparr>pc_checked := insert w (pc_checked p)\<rparr>)
      else rbind (worker_iter w now (pc_state p)) (\<lambda>s.
             Inr (p\<lparr>pc_state := s, pc_checked := pc_checked p - {w}\<rparr>)))"

text \<open>
  The label is the thread that moved, \<open>None\<close> for the market data thread and the signal handler.  When the
  market data thread has ended the flag is set: after a replay and after a failed \<^verbatim>\<open>open()\<close> it sets the flag
  itself, and a live feed runs until the flag is set.
\<close>

inductive process_step :: "process \<Rightarrow> worker option \<Rightarrow> process \<Rightarrow> bool" where
  on_signal: "process_step p None (p\<lparr>pc_stop := True\<rparr>)"
| on_quote: "\<not> pc_md_ended p \<Longrightarrow> process_step p None (p\<lparr>pc_state := md_bbo e (pc_state p)\<rparr>)"
| on_book: "\<not> pc_md_ended p \<Longrightarrow> md_depth d (pc_state p) = Inr s \<Longrightarrow> process_step p None (p\<lparr>pc_state := s\<rparr>)"
| md_ends: "\<not> pc_md_ended p \<Longrightarrow> process_step p None (p\<lparr>pc_stop := True, pc_md_ended := True\<rparr>)"
| on_turn: "w \<notin> pc_ended p \<Longrightarrow> worker_turn w now p = Inr p' \<Longrightarrow> process_step p (Some w) p'"

inductive process_run :: "process \<Rightarrow> worker option list \<Rightarrow> process \<Rightarrow> bool" for p0 where
  run_start: "process_run p0 [] p0"
| run_more: "process_run p0 ls p \<Longrightarrow> process_step p l p' \<Longrightarrow> process_run p0 (ls @ [l]) p'"

text \<open>\<^verbatim>\<open>main\<close> returns from its joins.\<close>

definition main_joins :: "process \<Rightarrow> bool" where
  "main_joins p \<longleftrightarrow> pc_md_ended p \<and> list_all (\<lambda>w. w \<in> pc_ended p) [W_strategy, W_oms, W_gw, W_pos]"

subsection \<open>The turns a thread has left\<close>

fun body_left :: "worker \<Rightarrow> trading \<Rightarrow> nat" where
  "body_left W_strategy s = (case tr_strategy_pc s of S_Loop \<Rightarrow> 2 | S_Popped r \<Rightarrow> 1)"
| "body_left W_oms s = (case tr_oms_pc s of O_Loop \<Rightarrow> 6 | O_Popped r \<Rightarrow> 5 | O_Checked r \<Rightarrow> 4 | O_Submitted r x \<Rightarrow> 3
     | O_Sent i \<Rightarrow> 2 | O_Acked i \<Rightarrow> 1)"
| "body_left W_gw s = (case tr_gw_pc s of G_Loop \<Rightarrow> 4 | G_Cloid c \<Rightarrow> 3 | G_Fill c f \<Rightarrow> 2 | G_Filled c f \<Rightarrow> 1)"
| "body_left W_pos s = (case tr_pos_pc s of X_Loop \<Rightarrow> 3 | X_Fill f \<Rightarrow> 2 | X_Booked f \<Rightarrow> 1)"

definition turns_left :: "worker \<Rightarrow> process \<Rightarrow> nat" where
  "turns_left w p = (if w \<in> pc_ended p then 0 else if at_head w (pc_state p) \<and> w \<notin> pc_checked p then 1
     else body_left w (pc_state p) + 1)"

lemma turns_left_le: "turns_left w p \<le> 7"
  by (cases w) (simp_all add: turns_left_def split: strategy_pc.split oms_pc.split gw_pc.split pos_pc.split)

text \<open>A step of a body moves its own program counter, towards the head of the loop, and no other.\<close>

lemma worker_iter_own: "worker_iter w now s = Inr s' \<Longrightarrow> at_head w s' \<or> body_left w s' < body_left w s"
  by (cases w; cases "tr_strategy_pc s"; cases "tr_oms_pc s"; cases "tr_gw_pc s"; cases "tr_pos_pc s";
      auto simp: strategy_iter_def oms_iter_def gw_iter_def pos_iter_def rbind_Inr_iff Let_def case_prod_beta
        split: option.splits)

lemma worker_iter_pcs:
  assumes "worker_iter w now s = Inr s'"
  shows "w \<noteq> W_strategy \<Longrightarrow> tr_strategy_pc s' = tr_strategy_pc s" and "w \<noteq> W_oms \<Longrightarrow> tr_oms_pc s' = tr_oms_pc s"
    and "w \<noteq> W_gw \<Longrightarrow> tr_gw_pc s' = tr_gw_pc s" and "w \<noteq> W_pos \<Longrightarrow> tr_pos_pc s' = tr_pos_pc s"
proof -
  have "tr_oms_pc s' = tr_oms_pc s \<and> tr_gw_pc s' = tr_gw_pc s \<and> tr_pos_pc s' = tr_pos_pc s" if "w = W_strategy"
    using that assms by (auto simp: strategy_iter_def Let_def case_prod_beta split: strategy_pc.splits option.splits)
  moreover have "tr_strategy_pc s' = tr_strategy_pc s \<and> tr_gw_pc s' = tr_gw_pc s \<and> tr_pos_pc s' = tr_pos_pc s" if "w = W_oms"
    using that assms by (cases "tr_oms_pc s") (auto simp: oms_iter_def rbind_Inr_iff Let_def case_prod_beta split: option.splits)
  moreover have "tr_strategy_pc s' = tr_strategy_pc s \<and> tr_oms_pc s' = tr_oms_pc s \<and> tr_pos_pc s' = tr_pos_pc s" if "w = W_gw"
    using that assms by (cases "tr_gw_pc s") (auto simp: gw_iter_def rbind_Inr_iff Let_def case_prod_beta split: option.splits)
  moreover have "tr_strategy_pc s' = tr_strategy_pc s \<and> tr_oms_pc s' = tr_oms_pc s \<and> tr_gw_pc s' = tr_gw_pc s" if "w = W_pos"
    using that assms by (auto simp: pos_iter_def Let_def case_prod_beta split: pos_pc.splits option.splits)
  ultimately show "w \<noteq> W_strategy \<Longrightarrow> tr_strategy_pc s' = tr_strategy_pc s" "w \<noteq> W_oms \<Longrightarrow> tr_oms_pc s' = tr_oms_pc s"
    "w \<noteq> W_gw \<Longrightarrow> tr_gw_pc s' = tr_gw_pc s" "w \<noteq> W_pos \<Longrightarrow> tr_pos_pc s' = tr_pos_pc s"
    by (cases w; simp)+
qed

lemma same_pcs:
  assumes "tr_strategy_pc s' = tr_strategy_pc s" and "tr_oms_pc s' = tr_oms_pc s" and "tr_gw_pc s' = tr_gw_pc s" and "tr_pos_pc s' = tr_pos_pc s"
  shows "at_head v s' = at_head v s" and "body_left v s' = body_left v s"
  by (cases v; simp add: assms)+

lemma worker_iter_others:
  assumes "worker_iter w now s = Inr s'" and "v \<noteq> w"
  shows "at_head v s' = at_head v s" and "body_left v s' = body_left v s"
  using assms(2) worker_iter_pcs [OF assms(1)] by (cases v; simp)+

lemma md_pcs:
  "at_head v (md_bbo e s) = at_head v s" "body_left v (md_bbo e s) = body_left v s"
  "md_depth d s = Inr s' \<Longrightarrow> at_head v s' = at_head v s" "md_depth d s = Inr s' \<Longrightarrow> body_left v s' = body_left v s"
  by (rule same_pcs; auto simp: md_bbo_def md_depth_def rbind_Inr_iff)+

text \<open>The flag stays set; once it is, each turn of a thread uses up one of its turns, and no step adds any.\<close>

lemma step_after_stop:
  assumes "process_step p l p'" and "pc_stop p"
  shows "pc_stop p'" and "turns_left v p' + (if l = Some v then 1 else 0) \<le> turns_left v p"
proof -
  have "pc_stop p' \<and> turns_left v p' + (if l = Some v then 1 else 0) \<le> turns_left v p"
    using assms(1)
  proof cases
    case (on_turn w now)
    show ?thesis
    proof (cases "at_head w (pc_state p) \<and> w \<notin> pc_checked p")
      case True
      then have "p' = p\<lparr>pc_ended := insert w (pc_ended p)\<rparr>" using on_turn assms(2) by (simp add: worker_turn_def)
      then show ?thesis using on_turn assms(2) True by (auto simp: turns_left_def)
    next
      case False
      then obtain s where s: "worker_iter w now (pc_state p) = Inr s" "p' = p\<lparr>pc_state := s, pc_checked := pc_checked p - {w}\<rparr>"
        using on_turn by (auto simp: worker_turn_def rbind_Inr_iff)
      show ?thesis
      proof (cases "v = w")
        case True
        then show ?thesis using worker_iter_own [OF s(1)] s(2) on_turn assms(2) False
          by (cases w) (auto simp: turns_left_def split: strategy_pc.splits oms_pc.splits gw_pc.splits pos_pc.splits)
      next
        case False
        then show ?thesis using worker_iter_others [OF s(1) False] s(2) on_turn assms(2) by (simp add: turns_left_def)
      qed
    qed
  qed (use assms(2) in \<open>simp_all add: turns_left_def md_pcs\<close>)
  then show "pc_stop p'" and "turns_left v p' + (if l = Some v then 1 else 0) \<le> turns_left v p" by blast+
qed

lemma run_after_stop:
  assumes "process_run p ls p'" and "pc_stop p"
  shows "pc_stop p' \<and> turns_left v p' + count_list ls (Some v) \<le> turns_left v p"
  using assms(1)
proof induction
  case run_start
  then show ?case using assms(2) by simp
next
  case (run_more ls q l q')
  then have q: "pc_stop q" "turns_left v q + count_list ls (Some v) \<le> turns_left v p" by simp_all
  show ?case using step_after_stop(1) [OF run_more.hyps(2) q(1)] step_after_stop(2) [OF run_more.hyps(2) q(1), of v] q(2)
    by (cases "l = Some v") simp_all
qed

subsection \<open>The states of the process are those of \<open>Pipeline\<close>\<close>

lemma process_step_state: "process_step p l p' \<Longrightarrow> pc_state p' = pc_state p \<or> trading_step (pc_state p) (pc_state p')"
  by (erule process_step.cases)
    (auto simp: worker_turn_def rbind_Inr_iff intro: trading_step.intros worker_iter_step split: if_splits)

lemma process_run_state: "process_run p ls p' \<Longrightarrow> trading_reachable s0 (pc_state p) \<Longrightarrow> trading_reachable s0 (pc_state p')"
proof (induction rule: process_run.induct)
  case (run_more ls q l q')
  then show ?case using process_step_state [OF run_more.hyps(2)] more by metis
qed

lemma process_run_append: "process_run p ls q \<Longrightarrow> process_run q ms r \<Longrightarrow> process_run p (ls @ ms) r"
  by (rotate_tac, induction rule: process_run.induct) (auto simp: append_assoc [symmetric] intro: run_more simp del: append_assoc)

text \<open>A thread ends at the head of its loop and stays there.\<close>

definition ended_ok :: "process \<Rightarrow> bool" where
  "ended_ok p \<longleftrightarrow> (\<forall>w \<in> pc_ended p. at_head w (pc_state p))"

lemma ended_step: "process_step p l p' \<Longrightarrow> ended_ok p \<Longrightarrow> ended_ok p'"
proof (erule process_step.cases)
  fix w q now q'
  assume q: "p = q" "p' = q'" and t: "w \<notin> pc_ended q" "worker_turn w now q = Inr q'" and ok: "ended_ok p"
  show "ended_ok p'"
  proof (cases "at_head w (pc_state q) \<and> w \<notin> pc_checked q")
    case True
    then show ?thesis using q t ok by (auto simp: worker_turn_def ended_ok_def split: if_splits)
  next
    case False
    then obtain s where s: "worker_iter w now (pc_state q) = Inr s" "q' = q\<lparr>pc_state := s, pc_checked := pc_checked q - {w}\<rparr>"
      using t by (auto simp: worker_turn_def rbind_Inr_iff)
    have "at_head v s" if "v \<in> pc_ended q" for v
    proof -
      have "v \<noteq> w" using that t(1) by blast
      then show ?thesis using worker_iter_others(1) [OF s(1)] ok q(1) that by (simp add: ended_ok_def)
    qed
    then show ?thesis using q s(2) by (simp add: ended_ok_def)
  qed
qed (auto simp: ended_ok_def md_pcs)

lemma ended_run: "process_run p ls p' \<Longrightarrow> ended_ok p \<Longrightarrow> ended_ok p'"
  by (induction rule: process_run.induct) (auto intro: ended_step)

subsection \<open>The end\<close>

lemma turns_left_0: "turns_left w p = 0 \<longleftrightarrow> w \<in> pc_ended p"
  by (simp add: turns_left_def)

lemma worker_iter_total:
  assumes "trading_reachable (trading_new now cf rw) s" and "memory_ok rw" and "length (tr_accepted s) < 2 ^ 64 - 2"
  shows "\<exists>s'. worker_iter w t s = Inr s'"
proof -
  obtain P where P: "safe_inv s P" using trading_safe [OF assms] by blast
  show ?thesis using safe_oms [OF P assms(3), of t] safe_gw [OF P] by (cases w) auto
qed

text \<open>What the threads leave when all of them are at the heads of their loops.\<close>

definition leaves :: "nat \<Rightarrow> trading \<Rightarrow> bool" where
  "leaves n s \<longleftrightarrow> map booked_key (tr_booked s) = map order_key (fillable (take n (tr_accepted s)))
     \<and> tr_applied s @ ft_pending (om_tracker (tr_oms s)) = tr_booked s
     \<and> spsc_contents CLOID_DEPTH (tr_cloids s) = map fst (drop n (tr_accepted s))
     \<and> engine_holds (tr_engine s) (map snd (drop n (tr_accepted s)))
     \<and> oms_active_orders (tr_oms s) = length (tr_accepted s) - n"

lemma heads_leave:
  assumes "pipe_inv s D C Q P" and "\<And>w. at_head w s"
  shows "leaves (length D) s"
proof -
  note i = pipe_invD [OF assms(1)]
  have pcs: "tr_oms_pc s = O_Loop" "tr_gw_pc s = G_Loop" "tr_pos_pc s = X_Loop"
    using assms(2) [of W_oms] assms(2) [of W_gw] assms(2) [of W_pos] by simp_all
  then have "C = []" "P = []" using i(6,7) by simp_all
  then show ?thesis using i(1,3,4,8,10) oms_holds_active [OF i(5)] pcs by (simp add: leaves_def del: length_spsc_contents)
qed

text \<open>
  Claim C7.  The process ends when the stop flag is set.  From there each working thread has at most
  seven turns, whatever the others do, and after seven it has ended; until it has ended its next turn is
  possible and does not fault, also when something was lost before.  When \<^verbatim>\<open>main\<close> has joined its threads the
  fills applied and still queued are booked ones in their order; and if nothing was lost in the run (no full
  queue, no exhausted pool; with at most 1024 accepted orders none is) no order is half way through: the
  accepted orders split into those whose fills were booked, of which the position thread has applied a
  prefix, and those whose identifiers are still in the queue to the gateway thread; the latter are still
  active in the OMS, although the simulated gateway holds their fills.
\<close>

theorem shutdown_ends:
  assumes "process_run (process_new (trading_new now cf rw)) ls0 p" and "pc_stop p" and "process_run p ls p'"
    and "memory_ok rw" and "0 \<le> cf_max_net_qty cf" and "cf_max_net_qty cf < 2 ^ 63"
    and "length (tr_accepted (pc_state p')) < 2 ^ 64 - 2"
  shows "count_list ls (Some w) \<le> 7 \<and> (count_list ls (Some w) = 7 \<longrightarrow> w \<in> pc_ended p')
    \<and> (w \<notin> pc_ended p' \<longrightarrow> (\<exists>p''. worker_turn w t p' = Inr p'' \<and> process_step p' (Some w) p''))
    \<and> (main_joins p' \<longrightarrow> subseq (tr_applied (pc_state p') @ ft_pending (om_tracker (tr_oms (pc_state p')))) (tr_booked (pc_state p')))
    \<and> (main_joins p' \<and> (\<not> tr_lost (pc_state p') \<or> length (tr_accepted (pc_state p')) \<le> 1024)
        \<longrightarrow> (\<exists>n \<le> length (tr_accepted (pc_state p')). leaves n (pc_state p')))"
proof -
  let ?s = "pc_state p'"
  have c: "turns_left w p' + count_list ls (Some w) \<le> turns_left w p" using run_after_stop [OF assms(3,2)] by blast
  have run: "process_run (process_new (trading_new now cf rw)) (ls0 @ ls) p'" by (rule process_run_append [OF assms(1,3)])
  have r: "trading_reachable (trading_new now cf rw) ?s"
    using process_run_state [OF run] start by (simp add: process_new_def)
  have e: "ended_ok p'" using ended_run [OF run] by (simp add: process_new_def ended_ok_def)
  have turn: "\<exists>p''. worker_turn w t p' = Inr p''"
    using worker_iter_total [OF r assms(4,7), of w t] by (auto simp: worker_turn_def)
  have heads: "at_head v ?s" if "main_joins p'" for v
    using that e by (cases v) (auto simp: main_joins_def ended_ok_def)
  have booked: "subseq (tr_applied ?s @ ft_pending (om_tracker (tr_oms ?s))) (tr_booked ?s)" if "main_joins p'"
    using trading_safe [OF r assms(4,7)] heads [OF that, of W_pos] safe_invD(8) by force
  have "\<exists>n \<le> length (tr_accepted ?s). leaves n ?s" if j: "main_joins p'" and k: "\<not> tr_lost ?s \<or> length (tr_accepted ?s) \<le> 1024"
  proof -
    obtain D C Q P where inv: "pipe_inv ?s D C Q P"
      using trading_reachable_inv [OF r assms(4-6) kept_or_few [OF r assms(4-6) k] assms(7)] by blast
    have "leaves (length D) ?s" by (rule heads_leave [OF inv heads [OF j]])
    moreover have "length D \<le> length (tr_accepted ?s)" using pipe_invD(1) [OF inv] by simp
    ultimately show ?thesis by blast
  qed
  then show ?thesis using c turns_left_le [of w p] turns_left_0 [of w p'] turn on_turn [of w p' t] booked by force
qed

subsection \<open>An order left behind\<close>

text \<open>Every run of \<open>Pipeline\<close> is a run before the flag is set.\<close>

lemma turn_before_stop:
  assumes "worker_iter w t s = Inr s'"
  shows "\<exists>ms. process_run (process_new s0\<lparr>pc_state := s\<rparr>) ms (process_new s0\<lparr>pc_state := s'\<rparr>)"
proof -
  let ?p = "process_new s0\<lparr>pc_state := s\<rparr>" and ?p' = "process_new s0\<lparr>pc_state := s'\<rparr>"
  let ?q = "?p\<lparr>pc_checked := {w}\<rparr>"
  show ?thesis
  proof (cases "at_head w s")
    case True
    have "worker_turn w t ?p = Inr ?q" "worker_turn w t ?q = Inr ?p'"
      using True assms by (simp_all add: worker_turn_def process_new_def)
    then have a: "process_step ?p (Some w) ?q" and b: "process_step ?q (Some w) ?p'"
      by (auto intro!: on_turn simp: process_new_def)
    then show ?thesis using run_more [OF run_more [OF run_start a] b] by blast
  next
    case False
    then have "worker_turn w t ?p = Inr ?p'" using assms by (simp add: worker_turn_def process_new_def)
    then have "process_step ?p (Some w) ?p'" by (auto intro: on_turn simp: process_new_def)
    then show ?thesis using run_more [OF run_start] by blast
  qed
qed

lemma reachable_before_stop:
  assumes "trading_reachable s0 s"
  shows "\<exists>ls. process_run (process_new s0) ls (process_new s0\<lparr>pc_state := s\<rparr>)"
  using assms
proof induction
  case start
  have "process_new s0\<lparr>pc_state := s0\<rparr> = process_new s0" by (simp add: process_new_def)
  then show ?case using run_start by metis
next
  case (more s s')
  then obtain ls where ls: "process_run (process_new s0) ls (process_new s0\<lparr>pc_state := s\<rparr>)" by blast
  have "\<exists>ms. process_run (process_new s0\<lparr>pc_state := s\<rparr>) ms (process_new s0\<lparr>pc_state := s'\<rparr>)"
    using more.hyps(2)
  proof cases
    case (step_md_bbo e)
    have "process_step (process_new s0\<lparr>pc_state := s\<rparr>) None (process_new s0\<lparr>pc_state := s'\<rparr>)"
      using on_quote [of "process_new s0\<lparr>pc_state := s\<rparr>" e] step_md_bbo by (simp add: process_new_def)
    then show ?thesis using run_more [OF run_start] by blast
  next
    case (step_md_depth e)
    then have "process_step (process_new s0\<lparr>pc_state := s\<rparr>) None (process_new s0\<lparr>pc_state := s'\<rparr>)"
      using on_book [of "process_new s0\<lparr>pc_state := s\<rparr>" e s'] by (simp add: process_new_def)
    then show ?thesis using run_more [OF run_start] by blast
  qed (use turn_before_stop [of W_strategy] turn_before_stop [of W_oms] turn_before_stop [of W_gw] turn_before_stop [of W_pos] in auto)
  then show ?case using process_run_append [OF ls] by blast
qed

lemma oms_turns_strategy: "run_turns (replicate n (Turn_oms t)) s = Inr s' \<Longrightarrow> tr_strategy_pc s' = tr_strategy_pc s"
proof (induction n arbitrary: s)
  case (Suc n)
  then obtain s1 where s1: "oms_iter t s = Inr s1" "run_turns (replicate n (Turn_oms t)) s1 = Inr s'" by (auto simp: rbind_Inr_iff)
  then have "worker_iter W_oms t s = Inr s1" by simp
  from worker_iter_pcs(1) [OF this] Suc.IH [OF s1(2)] show ?case by simp
qed simp

text \<open>A state in which one order waits for the gateway thread and every thread is at the head of its loop.\<close>

lemma sample_waiting:
  "\<exists>s oid. trading_reachable sample_process s \<and> \<not> tr_lost s \<and> tr_accepted s = [(oid, sample_order)] \<and> (\<forall>w. at_head w s)
     \<and> pipe_inv s [] [] [(oid, sample_order)] []"
proof -
  obtain q rk where q: "spsc_pop RELAY_DEPTH (tr_relay sample_relayed) = (q, Some sample_order)"
    "ptr_check (sint (0 :: u64)) sample_order (tr_risk sample_relayed) = (rk, True)" using sample_idle by auto
  have i: "\<not> tr_lost sample_relayed" "pipeline_idle sample_relayed" "tr_accepted sample_relayed = []"
    "0 < pool_capacity (om_pool (tr_oms sample_relayed))" using sample_idle by simp_all
  obtain D C Q P where p: "pipe_inv sample_relayed D C Q P"
    using trading_reachable_inv [OF sample_relayed_reachable sample_settings_ok(1-3) i(1) sample_small] by blast
  then have "pipe_inv sample_relayed [] [] [] []" using pipe_invD(1) [OF p] i(3) by simp
  from oms_turns [OF this i(2,1) sample_small i(4) q] obtain s oid where s: "run_turns (replicate 6 (Turn_oms 0)) sample_relayed = Inr s"
    "pipe_inv s [] [] [(oid, sample_order)] []" "\<not> tr_lost s" "tr_oms_pc s = O_Loop" "tr_gw_pc s = G_Loop" "tr_pos_pc s = X_Loop"
    "tr_accepted s = [(oid, sample_order)]" using i(3) by auto
  obtain m q0 where e: "sample_relayed = sample_process\<lparr>tr_books := bb_on_bbo (quote_event 1000 1004) Map.empty, tr_mm := m,
     tr_relay := q0, tr_strategy_orders := 1\<rparr>" using sample_relayed_eq by blast
  have "tr_strategy_pc sample_relayed = S_Loop" unfolding e by (simp add: trading_new_def)
  then have "at_head w s" for w using s(4-6) oms_turns_strategy [OF s(1)] by (cases w) simp_all
  then show ?thesis using s(2,3,7) run_turns_reachable [OF sample_relayed_reachable s(1)] by blast
qed

theorem shutdown_ends_witness:
  "\<exists>ls p n. process_run (process_new sample_process) ls p \<and> main_joins p \<and> tr_booked (pc_state p) = []
     \<and> oms_active_orders (tr_oms (pc_state p)) = 1 \<and> leaves n (pc_state p)"
proof -
  obtain s oid where s: "trading_reachable sample_process s" "\<not> tr_lost s" "tr_accepted s = [(oid, sample_order)]" "\<And>w. at_head w s"
    "pipe_inv s [] [] [(oid, sample_order)] []" using sample_waiting by blast
  obtain ls where ls: "process_run (process_new sample_process) ls (process_new sample_process\<lparr>pc_state := s\<rparr>)"
    using reachable_before_stop [OF s(1)] by blast
  let ?p = "\<lambda>E. \<lparr>pc_state = s, pc_stop = True, pc_md_ended = True, pc_checked = {}, pc_ended = E\<rparr>"
  have "process_step (process_new sample_process\<lparr>pc_state := s\<rparr>) None (?p {})"
    using md_ends [of "process_new sample_process\<lparr>pc_state := s\<rparr>"] by (simp add: process_new_def)
  note p0 = run_more [OF ls this]
  have turn: "process_step (?p E) (Some w) (?p (insert w E))" if "w \<notin> E" for w E
    using that s(4) by (intro on_turn [of _ _ 0]) (simp_all add: worker_turn_def)
  define p where "p = ?p {W_pos, W_gw, W_oms, W_strategy}"
  have run: "process_run (?p {}) [Some W_strategy, Some W_oms, Some W_gw, Some W_pos] p"
    using run_more [OF run_more [OF run_more [OF run_more [OF run_start turn [of W_strategy "{}"]] turn [of W_oms]] turn [of W_gw]] turn [of W_pos]]
    by (simp add: p_def)
  have m: "main_joins p" by (simp add: main_joins_def p_def)
  have l: "\<not> tr_lost (pc_state p)" "length (tr_accepted (pc_state p)) < 2 ^ 64 - 2" using s(2,3) by (simp_all add: p_def)
  from shutdown_ends [OF p0 _ run sample_settings_ok(1-3) l(2), of W_oms 0] m l(1) obtain n where n: "leaves n (pc_state p)" by auto
  have "tr_booked s = []" using pipe_invD(6,8) [OF s(5)] s(4) [of W_gw] by simp
  moreover have "oms_active_orders (tr_oms s) = 1" using oms_holds_active [OF pipe_invD(5) [OF s(5)]] by simp
  ultimately show ?thesis using process_run_append [OF p0 run] m n by (intro exI conjI) (assumption | simp add: p_def)+
qed

end
