(* ===== verification/Spec2Isabelle.thy ===== *)
theory Spec2Isabelle
  imports Spsc_Concurrent OMS_Refinement Position Pre_Trade_Risk Vwap Routing Feed Pcap Session_Manager Binary_Protocol
    Backtest Metrics_Report Market_Maker Momentum Stat_Arb Mpsc_Queue Fix_Session Latency_Tracker Metrics Alerting Pipeline
    Feed_Thread Backtest_Demo Config Clock Platform Process_Invariants Draining End_To_End Gateway_Socket
    Monitor_Thread Logger Ledger Replay_Live Shutdown Capacity
begin

text \<open>
  A verification library for quantTrade, the low-latency trading system under \<^verbatim>\<open>src/\<close> and its backtester
  under \<^verbatim>\<open>backtest/\<close>.  Paths below are relative to those directories.

  \<^bold>\<open>The program.\<close>  \<^verbatim>\<open>main.cpp\<close> runs six threads that share single-producer single-consumer rings.  The
  market data thread receives packets (\<^verbatim>\<open>market_data/feed_handler.cpp\<close>) or replays a capture
  (\<^verbatim>\<open>pcap_replayer.cpp\<close>), parses them (\<^verbatim>\<open>normalizer.cpp\<close>), keeps the books (\<^verbatim>\<open>order_book.cpp\<close>,
  \<^verbatim>\<open>book_builder.cpp\<close>) and calls the strategies (\<^verbatim>\<open>strategy/\<close>).  The strategy thread relays their
  requests to the OMS thread, which puts each through the risk gate (\<^verbatim>\<open>risk/\<close>), registers it
  (\<^verbatim>\<open>oms/\<close>) and sends it through the router (\<^verbatim>\<open>execution/\<close>) to a gateway (\<^verbatim>\<open>connectivity/\<close>).  The gateway
  thread gives the fills their order identifiers and hands them to the OMS, whose tracker queues them for
  the position thread (\<^verbatim>\<open>position/\<close>).  The monitor thread reads the counters (\<^verbatim>\<open>monitor/\<close>).

  \<^bold>\<open>Theories and sources.\<close>  Definitions keep the names of the code; the members of a class are the fields of
  a record with a two- or three-letter prefix.

  \<^item> \<open>Prelude\<close>, \<open>Types\<close> (\<^verbatim>\<open>common/types.hpp\<close>, \<^verbatim>\<open>oms/order.hpp\<close>, \<^verbatim>\<open>market_data/market_data_types.hpp\<close>),
    \<open>Bytes\<close>, \<open>Text_Format\<close>, \<open>Binary64\<close>, \<open>Recent\<close>: integers, results that can fault, byte strings, decimal
    text, doubles.
  \<^item> \<open>Spsc_Queue\<close>, \<open>Spsc_Concurrent\<close>, \<open>Mpsc_Queue\<close>, \<open>Memory_Pool\<close> (\<^verbatim>\<open>infra/*.hpp\<close>): the containers, as
    sequential operations and, for the rings, as a step relation over single atomic accesses;
    \<open>Atomic_Cell\<close>: compare-and-swap loops on one atomic by any number of threads, the locale of the
    breaker, the limiter and the position limits.
  \<^item> \<open>Order_State_Machine\<close>, \<open>OMS\<close>, \<open>OMS_Refinement\<close> (\<^verbatim>\<open>oms/\<close>); \<open>Position\<close> (\<^verbatim>\<open>position/\<close>);
    \<open>Circuit_Breaker\<close>, \<open>Rate_Limiter\<close>, \<open>Position_Limits\<close>, \<open>Pre_Trade_Risk\<close> (\<^verbatim>\<open>risk/\<close>).
  \<^item> \<open>Gateway\<close> (\<^verbatim>\<open>gateway.hpp\<close>, \<^verbatim>\<open>sim_gateway.cpp\<close>), \<open>Twap\<close>, \<open>Vwap\<close>, \<open>Routing\<close> (\<^verbatim>\<open>pov.cpp\<close>,
    \<^verbatim>\<open>smart_router.cpp\<close>, \<^verbatim>\<open>execution_engine.cpp\<close>), \<open>Session_Manager\<close>, \<open>Binary_Protocol\<close>, \<open>Fix_Codec\<close>,
    \<open>Fix_Session\<close> and \<open>Gateway_Socket\<close>, which adds the descriptors (\<^verbatim>\<open>connectivity/\<close>).
  \<^item> \<open>Order_Book\<close>, \<open>Normalizer\<close>, \<open>Feed\<close>, \<open>Pcap\<close>, \<open>Feed_Thread\<close> (\<^verbatim>\<open>market_data/\<close> and the market data thread
    of \<^verbatim>\<open>main.cpp\<close>).
  \<^item> \<open>Strategy\<close>, \<open>Market_Maker\<close>, \<open>Momentum\<close>, \<open>Stat_Arb\<close> (\<^verbatim>\<open>strategy/\<close>).
  \<^item> \<open>Latency_Tracker\<close>, \<open>Metrics\<close>, \<open>Alerting\<close> (\<^verbatim>\<open>monitor/\<close>); \<open>Clock\<close> (\<^verbatim>\<open>infra/rdtsc_clock.hpp\<close>);
    \<open>Platform\<close> (\<^verbatim>\<open>infra/huge_pages.cpp\<close>, \<^verbatim>\<open>infra/numa.cpp\<close>, \<^verbatim>\<open>infra/cpu_affinity.cpp\<close>);
    \<open>Logger\<close> (\<^verbatim>\<open>infra/logger.cpp\<close>).
  \<^item> \<open>Config\<close> (\<^verbatim>\<open>infra/config_loader.cpp\<close> and the start of \<^verbatim>\<open>main\<close>), \<open>Pipeline\<close> (the five working threads of
    \<^verbatim>\<open>main.cpp\<close>), \<open>Capacity\<close> (what a loss between the threads needs), \<open>Process_Invariants\<close> (what every run keeps,
    also after a loss), \<open>Draining\<close> (schedules of the threads and the work they use up), \<open>End_To_End\<close> (the
    live feed in front of them), \<open>Replay_Live\<close> (the replay in its place), \<open>Ledger\<close> (the abstract
    specification of the process), \<open>Shutdown\<close> (the stop flag and the joins), \<open>Monitor_Thread\<close>.
  \<^item> \<open>Backtest\<close>, \<open>Metrics_Report\<close>, \<open>Backtest_Demo\<close> (\<^verbatim>\<open>backtest/\<close>).

  \<^bold>\<open>State, effects and errors.\<close>  An operation takes and returns the record of its object.  Values of type
  \<^verbatim>\<open>int64_t\<close> are integers and every operation of the code that can wrap is followed by \<open>i64\<close>; unsigned ones
  are words.  Undefined behaviour is a value of a sum type (\<open>pool_fault\<close>, \<open>vwap_fault\<close>, \<open>book_fault\<close>) or
  \<open>None\<close>, and theorems say when it cannot occur.  A double is the rational it denotes, an infinity or a NaN,
  and every operation rounds once; the program is built with \<^verbatim>\<open>-O3 -march=native\<close>, and a compiler that
  contracts a multiplication and an addition would round differently.  What the code gets from outside is an
  argument: clock readings, random draws, packets, the results of system calls and of the YAML and
  logging libraries,
  \<^verbatim>\<open>std::sin\<close>, and the memory that constructors leave uninitialised.

  \<^bold>\<open>Interfaces.\<close>  \<open>bounded_fifo\<close> (\<open>Spsc_Queue\<close>), the pool, \<open>gateway\<close> (\<open>Gateway\<close>), the atomic cell, the strategies'
  \<open>inventory_keeper\<close> (\<open>Strategy\<close>) and the others are locales; each is interpreted on the model's own
  definitions where they are declared, and the properties use the interpreted facts.

  \<^bold>\<open>What is shown.\<close>

  \<^item> The process (\<open>Pipeline\<close>, \<open>Capacity\<close>, \<open>Process_Invariants\<close>, \<open>Draining\<close>, \<open>End_To_End\<close>,
    \<open>Replay_Live\<close>, \<open>Ledger\<close>, \<open>Shutdown\<close>, \<open>Feed_Thread\<close>, \<open>Config\<close>).  In every interleaving of the threads,
    also after a full queue or an exhausted pool has lost something, no call of the OMS faults, no
    identifier is filled twice, reservations stay within their limit, the threads work off what is in the
    queues, and every thread ends once the stop flag is set.  In runs that lose nothing each step is a step
    of a ledger of orders, fills and settlements or none, each accepted order is filled under its own
    identifier and in order, and at rest all of them are applied and released and the positions are what the
    risk gate reserved.  A quote on the wire that finds the process at rest and the gate ready becomes a bid
    and an ask that fill and earn the spread, under every schedule of the threads; a replayed capture does to
    the process what the live feed does with the same packets; and which configuration a run starts with.
    The invariant \<open>pipe_inv\<close> splits the accepted orders by where they are (done, waiting for the gateway
    thread, taken by it, being submitted) in runs without loss; \<open>safe_inv\<close> is what remains of it with one;
    \<open>limit_inv\<close> relates reservations with what is in flight; \<open>work_left\<close> bounds the turns the threads need;
    \<open>leaves\<close> is what the joined threads have done and not done.
  \<^item> Containers: FIFO under every interleaving (\<open>ring_inv\<close>-style invariants over the program counters), no
    leak and no double use of pool slots.
  \<^item> Orders and risk: the state machine with roll-back, life cycle, refinement of an abstract map of orders,
    the exact effect of concurrent reservations and tokens, the breaker, the gate.
  \<^item> Money: average cost within the fill prices, profit against cash, the figures of the report.
  \<^item> Execution and strategies: what each algorithm sends in total and when, routing, quotes and closing orders.
  \<^item> Wires: round trips of all formats, equivalence of the receive loops under any cutting of the stream, the
    text of metrics and alerts against readers of those formats.

  \<^bold>\<open>Bounds.\<close>  Loops are structural recursions or functions with a measure; the receive loop of the feed is a
  \<open>partial_function\<close>, and not returning is \<open>None\<close>.  Theorems about doubles bound the integers they convert by
  \<open>2\<^sup>5\<^sup>3\<close>; those about the multi-producer queue take fewer than \<open>2\<^sup>6\<^sup>2\<close> pushes; those about the process fewer than
  \<open>2\<^sup>6\<^sup>4 - 2\<close> orders.  What a full queue between the threads or an exhausted pool would break is stated for
  runs without one (the ghost \<open>tr_lost\<close> is false), which \<open>Capacity\<close> shows for every run of at most 1024
  orders and \<open>End_To_End\<close> for a process with little work in it.  A schedule is a list of turns; a round is a
  stretch of it in which each of the four working threads has had one.  An order takes at most 15 turns that
  change something, so 30 rounds are enough for the two orders of a quote, and 60450 for full queues.

  \<^bold>\<open>Not modelled.\<close>  The formatting and writing of log lines and of what the threads print; the contents of
  sockets beyond the bytes sent and received; sleeps; how signals are delivered; the branches of the source for
  other platforms than Linux, but for the receive loop of the feed.  Memory orders are not distinguished: the
  step relations are sequentially consistent, with the release and acquire accesses of the rings as the
  single steps.  In \<open>Pipeline\<close> a call of one component is one
  step although the code does not lock the OMS, its tracker or the queue of the simulated gateway, which
  several threads use.  The inventory of a strategy is read once per handler.
\<close>

end
